(* ===== verification/Veloq_Prelude.thy ===== *)
theory Veloq_Prelude
  imports Main "HOL-Library.Word"
begin

text \<open>
  Shared vocabulary of the development: the machine integer types of the Rust sources, the
  collections of rewrite rules the component theories fill, and the generic lemmas on words,
  lists and options that more than one component needs.

  Rust's \<^verbatim>\<open>usize\<close> is 64 bits wide on every platform the driver supports; it is
  \<open>usize\<close> below wherever the code computes with wrap-around or masks, and \<open>nat\<close>
  where a value only ever indexes or counts a container that fits in memory.
\<close>

unbundle bit_operations_syntax

type_synonym u8 = "8 word"
type_synonym u16 = "16 word"
type_synonym u32 = "32 word"
type_synonym u64 = "64 word"
type_synonym usize = "64 word"
type_synonym i32 = "32 word"

text \<open>A task handle; two wakers are the same task exactly when they are equal, which is what
  \<^verbatim>\<open>Waker::will_wake\<close> decides.\<close>

type_synonym waker = nat

text \<open>\<^verbatim>\<open>std::task::Poll\<close>.\<close>

datatype 'r poll = Pending | Ready 'r

text \<open>\<^verbatim>\<open>saturating_add(1)\<close> on a counter.\<close>

definition saturating_inc :: "u64 \<Rightarrow> u64" where
  "saturating_inc x = (if x = - 1 then x else x + 1)"

named_theorems mask_simps

subsection \<open>Masks and powers of two\<close>

lemma and_mask_unat [mask_simps]:
  fixes w :: "'a::len word"
  shows "unat (w AND mask k) = unat w mod 2 ^ k"
proof -
  have "unat (take_bit k w) = take_bit k (unat w)"
    by (rule unsigned_take_bit_eq)
  then show ?thesis
    by (metis take_bit_eq_mask take_bit_eq_mod)
qed

lemma pow2_minus_one_mask [mask_simps]: "(2 ^ k - 1 :: 'a::len word) = mask k"
  by (simp add: mask_eq_exp_minus_1)

lemma mod_mod_pow2 [mask_simps]:
  fixes a :: nat
  assumes "k \<le> m"
  shows "a mod 2 ^ m mod 2 ^ k = a mod 2 ^ k"
  using assms by (simp add: le_imp_power_dvd mod_mod_cancel)

lemma unat_add_mod [mask_simps]:
  fixes x y :: "'a::len word"
  shows "unat (x + y) = (unat x + unat y) mod 2 ^ LENGTH('a)"
  by (simp add: unat_word_ariths)

lemma unat_of_nat_mod [mask_simps]:
  "unat (of_nat n :: 'a::len word) = n mod 2 ^ LENGTH('a)"
  by (simp add: unsigned_of_nat take_bit_eq_mod)

text \<open>Two offsets below the capacity fall on the same cell of a power-of-two ring only when they
  are equal.\<close>

lemma ring_index_inj:
  fixes h :: nat
  assumes "i < c" "j < c" "(h + i) mod c = (h + j) mod c"
  shows "i = j"
proof (rule ccontr)
  assume "i \<noteq> j"
  have "int c dvd int (h + i) - int (h + j)"
    using assms(3) by (metis mod_eq_dvd_iff of_nat_mod)
  then have "int c dvd int i - int j" by simp
  moreover have "\<bar>int i - int j\<bar> < int c" "int i - int j \<noteq> 0"
    using assms(1,2) \<open>i \<noteq> j\<close> by auto
  ultimately show False
    using zdvd_not_zless [of "\<bar>int i - int j\<bar>" "int c"] by auto
qed

subsection \<open>Fallible computations on a state\<close>

text \<open>An operation of a component that can fail and panic: \<open>None\<close> is a panic, \<open>Inl\<close> an error returned to
  the caller, and the state reached is kept in both other cases. \<open>try_then\<close> is Rust's question mark.\<close>

type_synonym ('s, 'e, 'a) outcome = "('s \<times> ('e + 'a)) option"

fun try_then :: "('s, 'e, 'a) outcome \<Rightarrow> ('a \<Rightarrow> 's \<Rightarrow> ('s, 'e, 'b) outcome) \<Rightarrow> ('s, 'e, 'b) outcome" where
  "try_then None f = None"
| "try_then (Some (s, Inl e)) f = Some (s, Inl e)"
| "try_then (Some (s, Inr x)) f = f x s"

lemma try_then_mono [partial_function_mono]:
  fixes m :: "('x \<Rightarrow> 'y option) \<Rightarrow> ('s, 'e, 'a) outcome" and f :: "('x \<Rightarrow> 'y option) \<Rightarrow> 'a \<Rightarrow> 's \<Rightarrow> ('s, 'e, 'b) outcome"
  assumes "mono_option (\<lambda>g. m g)" "\<And>x s. mono_option (\<lambda>g. f g x s)"
  shows "mono_option (\<lambda>g. try_then (m g) (f g))"
proof (rule monotoneI)
  fix g h :: "'x \<Rightarrow> 'y option"
  assume gh: "fun_ord option_ord g h"
  have m: "option_ord (m g) (m h)" and f: "option_ord (f g x s) (f h x s)" for x s
    using assms gh by (auto simp: monotone_def)
  show "option_ord (try_then (m g) (f g)) (try_then (m h) (f h))"
  proof (cases "m g")
    case None
    then show ?thesis by (simp add: flat_ord_def)
  next
    case (Some a)
    then have "m h = m g" using m by (simp add: flat_ord_def)
    moreover obtain s r where "a = (s, r)" by fastforce
    ultimately show ?thesis using Some f by (cases r) (simp_all add: flat_ord_def)
  qed
qed

text \<open>\<open>keeps P m\<close>: from a state satisfying \<open>P\<close> the operation returns, in a state satisfying \<open>P\<close>.\<close>

definition keeps :: "('s \<Rightarrow> bool) \<Rightarrow> ('s \<Rightarrow> ('s \<times> 'a) option) \<Rightarrow> bool" where
  "keeps P m \<longleftrightarrow> (\<forall>s. P s \<longrightarrow> (\<exists>s' r. m s = Some (s', r) \<and> P s'))"

lemma keepsI: "(\<And>s. P s \<Longrightarrow> \<exists>s' r. m s = Some (s', r) \<and> P s') \<Longrightarrow> keeps P m"
  by (simp add: keeps_def)

lemma keepsD: "\<lbrakk>keeps P m; P s\<rbrakk> \<Longrightarrow> \<exists>s' r. m s = Some (s', r) \<and> P s'"
  by (simp add: keeps_def)

lemma keeps_return: "keeps P (\<lambda>s. Some (s, r))"
  by (simp add: keeps_def)

lemma keeps_try:
  assumes "keeps P m" "\<And>x. keeps P (f x)"
  shows "keeps P (\<lambda>s. try_then (m s) f)"
proof (rule keepsI)
  fix s assume "P s"
  from keepsD [OF assms(1) this] obtain s' r where "m s = Some (s', r)" "P s'" by blast
  then show "\<exists>s' r. try_then (m s) f = Some (s', r) \<and> P s'" using assms(2) by (cases r) (simp_all add: keeps_def)
qed

text \<open>A loop that stops at the first error.\<close>

fun try_each :: "('x \<Rightarrow> 's \<Rightarrow> ('s, 'e, unit) outcome) \<Rightarrow> 'x list \<Rightarrow> 's \<Rightarrow> ('s, 'e, unit) outcome" where
  "try_each f [] s = Some (s, Inr ())"
| "try_each f (x # xs) s = try_then (f x s) (\<lambda>_. try_each f xs)"

lemma keeps_each: "(\<And>x. keeps P (f x)) \<Longrightarrow> keeps P (try_each f xs)"
proof (induction xs)
  case (Cons x xs)
  then show ?case using keeps_try [of P "f x" "\<lambda>_. try_each f xs"] by (simp add: fun_eq_iff)
qed (simp add: keeps_def)

lemma sum_list_map_update:
  fixes f :: "'a \<Rightarrow> 'b :: comm_monoid_add"
  assumes "i < length xs"
  shows "sum_list (map f (xs[i := v])) + f (xs ! i) = sum_list (map f xs) + f v"
  using assms
  by (induction xs arbitrary: i) (auto simp: nth_Cons' add_ac split: nat.splits)

end
