(* ===== verification/Completion_Token.thy ===== *)
theory Completion_Token
  imports Veloq_Prelude
begin

text \<open>
  Completion tokens (\<^verbatim>\<open>driver/completion/token.rs\<close>) and the raw completion events that carry
  them (\<^verbatim>\<open>driver/completion/event.rs\<close>).

  An operation is named inside the driver by an \<open>op_token\<close>: a slot index and the 32-bit
  generation of that slot. The kernel echoes a single 64-bit word, so the token is packed into a
  \<open>completion_token\<close> whose top bit separates user completions from control completions.
  The definitions keep the words at their width; the lemmas say which tokens survive the
  round trip through the kernel.
\<close>

subsection \<open>Tokens\<close>

definition INDEX_LIMIT :: u64 where
  "INDEX_LIMIT = push_bit 48 1"

definition CONTROL_TOKEN_FLAG :: u64 where
  "CONTROL_TOKEN_FLAG = push_bit 63 1"

datatype completion_control_kind = Waker | Cancel

fun control_kind_raw :: "completion_control_kind \<Rightarrow> u16" where
  "control_kind_raw Waker = 1"
| "control_kind_raw Cancel = 2"

definition control_kind_from_raw :: "u16 \<Rightarrow> completion_control_kind option" where
  "control_kind_from_raw raw =
     (if raw = 1 then Some Waker else if raw = 2 then Some Cancel else None)"

record op_token =
  op_index :: usize
  op_generation :: u32

datatype op_token_error = ReservedControlIndex usize

definition op_token_try_new :: "usize \<Rightarrow> u32 \<Rightarrow> op_token_error + op_token" where
  "op_token_try_new index generation =
     (if INDEX_LIMIT \<le> index then Inl (ReservedControlIndex index)
      else Inr \<lparr>op_index = index, op_generation = generation\<rparr>)"

datatype completion_token_class =
    User op_token
  | Control completion_control_kind u16
  | UnknownControl u16 u16

datatype completion_token_error = ReservedControlKind u16 | ControlKindOverflow u16

type_synonym completion_token = u64

definition token_user :: "op_token \<Rightarrow> completion_token" where
  "token_user t =
     push_bit 48 (ucast (op_generation t) AND 0x7fff) OR (op_index t AND 0x0000ffffffffffff)"

definition token_encode_control :: "u16 \<Rightarrow> u16 \<Rightarrow> completion_token_error + completion_token" where
  "token_encode_control kind ident =
     (if 0x7fff < kind then Inl (ControlKindOverflow kind)
      else if kind = control_kind_raw Waker \<or> kind = control_kind_raw Cancel
        then Inl (ReservedControlKind kind)
      else Inr (CONTROL_TOKEN_FLAG OR push_bit 48 (ucast kind) OR push_bit 32 (ucast ident)))"

definition token_internal :: "completion_control_kind \<Rightarrow> u16 \<Rightarrow> completion_token" where
  "token_internal kind ident =
     CONTROL_TOKEN_FLAG OR push_bit 48 (ucast (control_kind_raw kind) AND 0x7fff)
       OR push_bit 32 (ucast ident)"

definition token_waker :: "u16 \<Rightarrow> completion_token" where
  "token_waker ident = token_internal Waker ident"

definition token_cancel :: "u16 \<Rightarrow> completion_token" where
  "token_cancel ident = token_internal Cancel ident"

definition token_classify_control :: "completion_token \<Rightarrow> completion_token_class" where
  "token_classify_control tok =
     (let kind = (ucast (drop_bit 48 tok AND 0x7fff) :: u16);
          ident = (ucast (drop_bit 32 tok AND 0xffff) :: u16)
      in case control_kind_from_raw kind of
           Some k \<Rightarrow> Control k ident
         | None \<Rightarrow> UnknownControl kind ident)"

definition token_classify :: "completion_token \<Rightarrow> completion_token_class" where
  "token_classify tok =
     (if tok AND CONTROL_TOKEN_FLAG = 0 then
        let raw_index = tok AND 0x0000ffffffffffff;
            generation = (ucast (drop_bit 48 tok AND 0x7fff) :: u32)
        in case op_token_try_new raw_index generation of
             Inr t \<Rightarrow> User t
           | Inl _ \<Rightarrow> token_classify_control tok
      else token_classify_control tok)"

definition token_op_token :: "completion_token \<Rightarrow> op_token option" where
  "token_op_token tok =
     (case token_classify tok of User t \<Rightarrow> Some t | Control _ _ \<Rightarrow> None | UnknownControl _ _ \<Rightarrow> None)"

subsection \<open>Field extraction\<close>

lemma token_masks:
  "(0x7fff :: u64) = mask 15" "(0x0000ffffffffffff :: u64) = mask 48" "(0xffff :: u64) = mask 16"
  "CONTROL_TOKEN_FLAG = push_bit 63 1" "INDEX_LIMIT = push_bit 48 1"
  by (simp_all add: mask_eq_exp_minus_1 CONTROL_TOKEN_FLAG_def INDEX_LIMIT_def)

lemma low_field:
  fixes i g :: u64
  shows "(push_bit 48 (g AND mask 15) OR (i AND mask 48)) AND mask 48 = i AND mask 48"
  by (rule bit_eqI) (auto simp: bit_simps)

lemma high_field:
  fixes i g :: u64
  shows "drop_bit 48 (push_bit 48 (g AND mask 15) OR (i AND mask 48)) AND mask 15 = g AND mask 15"
  by (rule bit_eqI) (auto simp: bit_simps)

lemma flag_test: "tok AND CONTROL_TOKEN_FLAG = 0 \<longleftrightarrow> \<not> bit tok 63"
  by (simp only: CONTROL_TOKEN_FLAG_def push_bit_of_1 and_exp_eq_0_iff_not_bit)

lemma bit_flag: "bit CONTROL_TOKEN_FLAG n \<longleftrightarrow> n = 63"
  by (auto simp only: CONTROL_TOKEN_FLAG_def push_bit_of_1 bit_exp_iff) simp

lemma below_limit_mask: "(w :: u64) < INDEX_LIMIT \<Longrightarrow> w AND mask 48 = w"
  by (simp add: INDEX_LIMIT_def word_less_nat_alt word_unat_eq_iff and_mask_unat)

lemma mask_below_limit: "(w AND mask 48 :: u64) < INDEX_LIMIT"
  by (simp add: INDEX_LIMIT_def word_less_nat_alt and_mask_unat)

lemma ucast_gen_back:
  "(ucast (ucast (g :: u32) AND mask 15 :: u64) :: u32) = g AND mask 15"
  by (rule bit_eqI) (auto simp: bit_simps)

lemma small_gen_mask: "(g :: u32) < 0x8000 \<Longrightarrow> g AND mask 15 = g"
  by (simp add: word_less_nat_alt word_unat_eq_iff and_mask_unat)

lemma control_kind_field:
  fixes k i :: u16
  shows "(ucast (drop_bit 48 (CONTROL_TOKEN_FLAG OR push_bit 48 (ucast k AND mask 15)
            OR push_bit 32 (ucast i)) AND mask 15 :: u64) :: u16) = k AND mask 15"
  by (rule bit_eqI) (auto simp: bit_simps bit_flag dest: bit_imp_le_length)

lemma control_id_field:
  fixes k i :: u16
  shows "(ucast (drop_bit 32 (CONTROL_TOKEN_FLAG OR push_bit 48 (ucast k AND mask 15)
            OR push_bit 32 (ucast i)) AND mask 16 :: u64) :: u16) = i"
  by (rule bit_eqI) (auto simp: bit_simps bit_flag dest: bit_imp_le_length)

lemma user_reassemble:
  assumes "\<not> bit (tok :: u64) 63"
  shows "push_bit 48 (drop_bit 48 tok AND mask 15) OR (tok AND mask 48) = tok"
proof (rule bit_eqI)
  fix n
  assume "possible_bit TYPE(64 word) n"
  then have "n < 64" by simp
  then show "bit (push_bit 48 (drop_bit 48 tok AND mask 15) OR (tok AND mask 48)) n = bit tok n"
    using assms by (cases "n = 63") (auto simp: bit_simps)
qed

lemma ucast_gen_roundtrip:
  "(ucast (ucast (w AND mask 15 :: u64) :: u32) AND mask 15 :: u64) = w AND mask 15"
  by (rule bit_eqI) (auto simp: bit_simps)

lemma user_not_control: "token_user t AND CONTROL_TOKEN_FLAG = 0"
  by (simp only: flag_test token_user_def token_masks(1,2)) (simp add: bit_simps)

lemma token_user_index: "token_user t AND mask 48 = op_index t AND mask 48"
  by (simp only: token_user_def token_masks(1,2) low_field)

lemma token_user_generation:
  "(ucast (drop_bit 48 (token_user t) AND mask 15) :: u32) = op_generation t AND mask 15"
  by (simp only: token_user_def token_masks(1,2) high_field ucast_gen_back)

text \<open>What the kernel hands back for a registered operation: the same index, and the low
  fifteen bits of the generation.\<close>

lemma classify_user:
  assumes "op_index t < INDEX_LIMIT"
  shows "token_classify (token_user t) =
           User (t\<lparr>op_generation := op_generation t AND 0x7fff\<rparr>)"
proof -
  have mask32: "(0x7fff :: u32) = mask 15" by (simp add: mask_eq_exp_minus_1)
  have "op_token_try_new (token_user t AND mask 48)
          (ucast (drop_bit 48 (token_user t) AND mask 15))
        = Inr (t\<lparr>op_generation := op_generation t AND mask 15\<rparr>)"
    using assms mask_below_limit [of "op_index t"]
    by (simp add: token_user_index token_user_generation op_token_try_new_def below_limit_mask)
  then show ?thesis
    by (simp add: token_classify_def user_not_control token_masks(1,2) mask32)
qed

lemma classify_control_internal: "token_classify (token_internal k i) = Control k i"
proof -
  have flag: "token_internal k i AND CONTROL_TOKEN_FLAG \<noteq> 0"
    by (simp only: flag_test token_internal_def bit_or_iff bit_flag) simp
  have kind: "control_kind_from_raw (control_kind_raw k AND mask 15) = Some k"
    by (cases k) (simp_all add: control_kind_from_raw_def mask_eq_exp_minus_1)
  show ?thesis
    using flag
    by (simp only: token_classify_def if_False token_classify_control_def token_internal_def Let_def
        token_masks(1,3) control_kind_field control_id_field kind option.case)
qed

lemma encode_control_kind_mask:
  fixes k :: u16
  assumes "\<not> 0x7fff < k"
  shows "k AND mask 15 = k" "(ucast k AND mask 15 :: u64) = ucast k"
proof -
  have "unat k < 2 ^ 15" using assms by (simp add: word_less_nat_alt)
  then show k: "k AND mask 15 = k" by (simp add: word_unat_eq_iff and_mask_unat)
  have "(ucast k AND mask 15 :: u64) = ucast (k AND mask 15)"
    by (rule bit_eqI) (auto simp: bit_simps)
  then show "(ucast k AND mask 15 :: u64) = ucast k" by (simp only: k)
qed

lemma classify_encode_control:
  assumes "token_encode_control kind ident = Inr tok"
  shows "token_classify tok = UnknownControl kind ident"
proof -
  from assms have k: "\<not> 0x7fff < kind" "kind \<noteq> 1" "kind \<noteq> 2"
    and tok: "tok = CONTROL_TOKEN_FLAG OR push_bit 48 (ucast kind) OR push_bit 32 (ucast ident)"
    by (auto simp: token_encode_control_def split: if_splits)
  have tok': "tok = CONTROL_TOKEN_FLAG OR push_bit 48 (ucast kind AND mask 15)
                      OR push_bit 32 (ucast ident)"
    unfolding tok encode_control_kind_mask(2) [OF k(1)] ..
  have flag: "tok AND CONTROL_TOKEN_FLAG \<noteq> 0"
    unfolding flag_test tok by (simp only: bit_or_iff bit_flag) simp
  have kind: "control_kind_from_raw kind = None"
    using k(2,3) by (simp add: control_kind_from_raw_def)
  show ?thesis
    using flag
    by (simp only: token_classify_def if_False token_classify_control_def Let_def token_masks(1,3)
        tok' control_kind_field control_id_field encode_control_kind_mask(1) [OF k(1)] kind
        option.case)
qed

lemma classify_UserD:
  assumes "token_classify tok = User t"
  shows "token_user t = tok" "op_index t < INDEX_LIMIT" "op_generation t AND 0x7fff = op_generation t"
proof -
  have m32: "(0x7fff :: u32) = mask 15" by (simp add: mask_eq_exp_minus_1)
  have nc: "tok AND CONTROL_TOKEN_FLAG = 0" and
    new: "op_token_try_new (tok AND mask 48) (ucast (drop_bit 48 tok AND mask 15)) = Inr t"
    using assms
    by (auto simp: token_classify_def token_classify_control_def token_masks(1,2) Let_def
        split: if_splits sum.splits option.splits)
  from new have t: "t = \<lparr>op_index = tok AND mask 48,
                         op_generation = ucast (drop_bit 48 tok AND mask 15)\<rparr>"
    and lim: "tok AND mask 48 < INDEX_LIMIT"
    by (auto simp: op_token_try_new_def split: if_splits)
  show "op_index t < INDEX_LIMIT" using t lim by simp
  show "token_user t = tok"
  proof -
    have "(tok AND mask 48) AND mask 48 = tok AND mask 48" by (rule bit_eqI) (auto simp: bit_simps)
    then show ?thesis
      using nc unfolding flag_test t token_user_def token_masks(1,2)
      by (simp only: op_token.simps ucast_gen_roundtrip user_reassemble simp_thms)
  qed
  have "(ucast (drop_bit 48 tok AND mask 15) :: u32) AND mask 15 = ucast (drop_bit 48 tok AND mask 15)"
    by (rule bit_eqI) (auto simp: bit_simps)
  then show "op_generation t AND 0x7fff = op_generation t" unfolding t m32 by simp
qed

subsection \<open>Raw completions, envelopes and their dispatch\<close>

datatype completion_backend = CoreBackend | Backend u8

record raw_completion =
  rc_backend :: completion_backend
  rc_token :: completion_token
  rc_res :: i32
  rc_flags :: u32

record user_completion_event =
  uce_token :: op_token
  uce_raw :: raw_completion

record user_completion_event_mismatch =
  ucm_token :: op_token
  ucm_expected :: completion_token
  ucm_actual :: completion_token

definition user_event_try_new ::
  "op_token \<Rightarrow> raw_completion \<Rightarrow> user_completion_event_mismatch + user_completion_event" where
  "user_event_try_new t raw =
     (let expected = token_user t in
      if rc_token raw \<noteq> expected
      then Inl \<lparr>ucm_token = t, ucm_expected = expected, ucm_actual = rc_token raw\<rparr>
      else Inr \<lparr>uce_token = t, uce_raw = raw\<rparr>)"

definition user_event_from_parts ::
  "completion_backend \<Rightarrow> op_token \<Rightarrow> i32 \<Rightarrow> u32 \<Rightarrow> user_completion_event" where
  "user_event_from_parts backend t res flags =
     \<lparr>uce_token = t,
      uce_raw = \<lparr>rc_backend = backend, rc_token = token_user t, rc_res = res, rc_flags = flags\<rparr>\<rparr>"

definition user_event_from_classified :: "op_token \<Rightarrow> raw_completion \<Rightarrow> user_completion_event" where
  "user_event_from_classified t raw = \<lparr>uce_token = t, uce_raw = raw\<rparr>"

text \<open>The condition of the \<^verbatim>\<open>debug_assert_eq!\<close> in \<^verbatim>\<open>from_classified\<close>.\<close>

definition from_classified_assert :: "op_token \<Rightarrow> raw_completion \<Rightarrow> bool" where
  "from_classified_assert t raw \<longleftrightarrow> rc_token raw = token_user t"

datatype completion_identity =
    IdUser op_token
  | IdWaker u16
  | IdCancel u16
  | IdUnknownControl u16 u16

datatype completion_identity_source = UserToken | ControlToken | SidecarTokenWithQueueKey u64

record completion_envelope =
  env_raw :: raw_completion
  env_identity :: completion_identity
  env_source :: completion_identity_source

definition envelope_from_raw :: "raw_completion \<Rightarrow> completion_envelope" where
  "envelope_from_raw raw =
     (case token_classify (rc_token raw) of
        User t \<Rightarrow> \<lparr>env_raw = raw, env_identity = IdUser t, env_source = UserToken\<rparr>
      | Control Waker i \<Rightarrow> \<lparr>env_raw = raw, env_identity = IdWaker i, env_source = ControlToken\<rparr>
      | Control Cancel i \<Rightarrow> \<lparr>env_raw = raw, env_identity = IdCancel i, env_source = ControlToken\<rparr>
      | UnknownControl k i \<Rightarrow>
          \<lparr>env_raw = raw, env_identity = IdUnknownControl k i, env_source = ControlToken\<rparr>)"

definition envelope_from_raw_parts ::
  "completion_backend \<Rightarrow> u64 \<Rightarrow> i32 \<Rightarrow> u32 \<Rightarrow> completion_envelope" where
  "envelope_from_raw_parts backend raw_token res flags =
     envelope_from_raw
       \<lparr>rc_backend = backend, rc_token = raw_token, rc_res = res, rc_flags = flags\<rparr>"

definition envelope_from_sidecar_user_token ::
  "completion_backend \<Rightarrow> op_token \<Rightarrow> u64 \<Rightarrow> i32 \<Rightarrow> u32 \<Rightarrow> completion_envelope" where
  "envelope_from_sidecar_user_token backend t queue_key res flags =
     \<lparr>env_raw = \<lparr>rc_backend = backend, rc_token = token_user t, rc_res = res, rc_flags = flags\<rparr>,
      env_identity = IdUser t,
      env_source = SidecarTokenWithQueueKey queue_key\<rparr>"

datatype completion_dispatch =
    DispatchUser user_completion_event
  | DispatchWaker u16 raw_completion
  | DispatchCancel u16 raw_completion
  | DispatchUnknown completion_envelope

definition dispatch_envelope :: "completion_envelope \<Rightarrow> completion_dispatch" where
  "dispatch_envelope e =
     (case env_identity e of
        IdUser t \<Rightarrow> DispatchUser (user_event_from_classified t (env_raw e))
      | IdWaker i \<Rightarrow> DispatchWaker i (env_raw e)
      | IdCancel i \<Rightarrow> DispatchCancel i (env_raw e)
      | IdUnknownControl _ _ \<Rightarrow> DispatchUnknown e)"

subsection \<open>Properties\<close>

text \<open>C12. A completion token round-trips through the kernel's 64-bit user data: for an encodable
  slot index and a generation below \<^verbatim>\<open>2^15\<close>, classifying the packed token gives back exactly
  the operation token that was packed.\<close>

theorem token_roundtrip:
  assumes "op_token_try_new (op_index t) (op_generation t) = Inr t" "op_generation t < 0x8000"
  shows "token_classify (token_user t) = User t"
proof -
  have m32: "(0x7fff :: u32) = mask 15" by (simp add: mask_eq_exp_minus_1)
  have "op_index t < INDEX_LIMIT"
    using assms(1) by (auto simp: op_token_try_new_def split: if_splits)
  then show ?thesis
    using classify_user [of t] small_gen_mask [OF assms(2)] by (simp add: m32)
qed

lemma token_roundtrip_witness:
  "token_classify (token_user \<lparr>op_index = 7, op_generation = 3\<rparr>)
     = User \<lparr>op_index = 7, op_generation = 3\<rparr>"
  using token_roundtrip [of "\<lparr>op_index = 7, op_generation = 3\<rparr>"]
  by (simp add: op_token_try_new_def INDEX_LIMIT_def)

text \<open>Beyond \<^verbatim>\<open>2^15\<close> generations the round trip is lossy: the kernel hands back a token
  for the same slot whose generation has lost its upper seventeen bits, so it names a different
  generation of the slot.\<close>

theorem token_generation_truncated:
  assumes "op_index t < INDEX_LIMIT" "0x8000 \<le> op_generation t"
  shows "\<exists>t'. token_classify (token_user t) = User t' \<and> op_index t' = op_index t
            \<and> op_generation t' < op_generation t"
proof -
  have "unat (op_generation t AND 0x7fff) < unat (op_generation t)"
  proof -
    have m32: "(0x7fff :: u32) = mask 15" by (simp add: mask_eq_exp_minus_1)
    have "unat (op_generation t AND mask 15) < 2 ^ 15" by (simp add: and_mask_unat)
    also have "(2 :: nat) ^ 15 \<le> unat (op_generation t)"
      using assms(2) by (simp add: word_le_nat_alt)
    finally show ?thesis by (simp only: m32)
  qed
  then show ?thesis
    using classify_user [OF assms(1)] by (auto simp: word_less_nat_alt)
qed

lemma token_generation_truncated_witness:
  "\<exists>t'. token_classify (token_user \<lparr>op_index = 0, op_generation = 0x8001\<rparr>) = User t'
      \<and> op_index t' = 0 \<and> op_generation t' < 0x8001"
  using token_generation_truncated [of "\<lparr>op_index = 0, op_generation = 0x8001\<rparr>"]
  by (simp add: INDEX_LIMIT_def)

text \<open>User and control completions never get confused: waker, cancel and externally encoded
  control tokens classify as control completions with the kind and id they were built from, a
  packed operation token never does, and encoding refuses exactly the reserved and oversized
  kinds.\<close>

theorem control_tokens_classified:
  "token_classify (token_waker i) = Control Waker i
   \<and> token_classify (token_cancel i) = Control Cancel i
   \<and> token_op_token (token_waker i) = None \<and> token_op_token (token_cancel i) = None
   \<and> (case token_encode_control k i of
        Inr tok \<Rightarrow> token_classify tok = UnknownControl k i \<and> token_op_token tok = None
      | Inl (ReservedControlKind k') \<Rightarrow> k' = k \<and> control_kind_from_raw k \<noteq> None
      | Inl (ControlKindOverflow k') \<Rightarrow> k' = k \<and> 0x7fff < k)
   \<and> token_user t AND CONTROL_TOKEN_FLAG = 0"
proof -
  have enc: "case token_encode_control k i of
        Inr tok \<Rightarrow> token_classify tok = UnknownControl k i \<and> token_op_token tok = None
      | Inl (ReservedControlKind k') \<Rightarrow> k' = k \<and> control_kind_from_raw k \<noteq> None
      | Inl (ControlKindOverflow k') \<Rightarrow> k' = k \<and> 0x7fff < k"
  proof (cases "token_encode_control k i")
    case (Inr tok)
    then show ?thesis
      using classify_encode_control [OF Inr] by (simp add: token_op_token_def)
  next
    case (Inl e)
    then show ?thesis
      by (auto simp: token_encode_control_def control_kind_from_raw_def split: if_splits)
  qed
  show ?thesis
    using enc by (simp only: token_waker_def token_cancel_def token_op_token_def
        classify_control_internal user_not_control completion_token_class.case)
qed

text \<open>Every raw completion the kernel can return is dispatched faithfully: a user dispatch
  carries an event whose operation token re-encodes to the raw token (the debug assertion of
  \<^verbatim>\<open>from_classified\<close> always holds), and control dispatches carry the raw completion
  unchanged.\<close>

theorem dispatch_faithful:
  "case dispatch_envelope (envelope_from_raw raw) of
     DispatchUser ev \<Rightarrow> uce_raw ev = raw \<and> from_classified_assert (uce_token ev) raw
       \<and> user_event_try_new (uce_token ev) raw = Inr ev
   | DispatchWaker i r \<Rightarrow> r = raw \<and> token_classify (rc_token raw) = Control Waker i
   | DispatchCancel i r \<Rightarrow> r = raw \<and> token_classify (rc_token raw) = Control Cancel i
   | DispatchUnknown e \<Rightarrow> env_raw e = raw"
  by (auto simp: dispatch_envelope_def envelope_from_raw_def from_classified_assert_def
      user_event_from_classified_def user_event_try_new_def classify_UserD
      split: completion_token_class.splits completion_control_kind.splits)

end
