(* ===== verification/Completion_Types.thy ===== *)
theory Completion_Types
  imports Completion_Token
begin

text \<open>
  The vocabulary of the completion path: slot states (\<^verbatim>\<open>slot/core.rs\<close>), anomalies and their
  classification (\<^verbatim>\<open>completion/types/anomaly*.rs\<close>), cleanup guards and completion outcomes
  (\<^verbatim>\<open>completion/types/record.rs\<close>) and the diagnostics counters
  (\<^verbatim>\<open>completion/types/diagnostics.rs\<close>), at the backend type \<^verbatim>\<open>()\<close>, whose
  \<^verbatim>\<open>record_backend_anomaly\<close> is the trait's default and claims no anomaly.
\<close>

subsection \<open>Slot states\<close>

datatype slot_state =
    Idle
  | Reserved
  | InFlightWaiting
  | InFlightReady
  | InFlightOrphaned
  | Finalizing
  | ReservedValue

definition is_runnable :: "slot_state \<Rightarrow> bool" where
  "is_runnable s \<longleftrightarrow> s = Reserved \<or> s = InFlightWaiting \<or> s = InFlightOrphaned"

record slot_snapshot =
  snap_index :: usize
  snap_generation :: u32
  snap_state :: slot_state
  snap_has_op :: bool
  snap_has_payload :: bool

definition snapshot_try_token :: "slot_snapshot \<Rightarrow> op_token_error + op_token" where
  "snapshot_try_token s = op_token_try_new (snap_index s) (snap_generation s)"

subsection \<open>Anomalies\<close>

datatype completion_anomaly_reason =
    RUnknownSlot
  | RStaleGeneration
  | RNonActiveSlot
  | RBackendContextUnknown
  | RBackendSpecific u16

record backend_slot_ref =
  bsr_index :: usize
  bsr_expected :: u32
  bsr_actual :: "u32 option"

record completion_raw =
  cr_backend :: completion_backend
  cr_res :: i32
  cr_flags :: u32

datatype completion_anomaly_kind =
    KUnknownSlot usize u32
  | KStale usize u32 u32 slot_state
  | KNonActive usize u32 slot_state
  | KBackendContext completion_backend u64
  | KBackendSpecific u16 completion_backend u64 "backend_slot_ref option"

record anomaly_attach =
  att_token :: completion_token
  att_raw :: "completion_raw option"

datatype anomaly_outcome =
    AMissing completion_anomaly_kind
  | AStale completion_anomaly_kind
  | ANonActive completion_anomaly_kind

datatype completion_mutation_outcome = Applied | MRejected anomaly_outcome

datatype completion_anomaly =
    UnknownSlotA completion_token usize u32 "completion_raw option"
  | StaleGenerationA completion_token usize u32 u32 slot_state "completion_raw option"
  | SlotStateA completion_anomaly_reason completion_token usize u32 slot_state
      "slot_snapshot option" "completion_raw option"
  | BackendContextA completion_token completion_backend u64 completion_raw
  | BackendSpecificA u16 completion_token completion_backend u64 "usize option" "u32 option"
      "u32 option" "completion_raw option"

fun kind_reason :: "completion_anomaly_kind \<Rightarrow> completion_anomaly_reason" where
  "kind_reason (KUnknownSlot _ _) = RUnknownSlot"
| "kind_reason (KStale _ _ _ _) = RStaleGeneration"
| "kind_reason (KNonActive _ _ _) = RNonActiveSlot"
| "kind_reason (KBackendContext _ _) = RBackendContextUnknown"
| "kind_reason (KBackendSpecific code _ _ _) = RBackendSpecific code"

fun kind_index :: "completion_anomaly_kind \<Rightarrow> usize option" where
  "kind_index (KUnknownSlot i _) = Some i"
| "kind_index (KStale i _ _ _) = Some i"
| "kind_index (KNonActive i _ _) = Some i"
| "kind_index (KBackendSpecific _ _ _ s) = map_option bsr_index s"
| "kind_index (KBackendContext _ _) = None"

fun kind_expected_generation :: "completion_anomaly_kind \<Rightarrow> u32 option" where
  "kind_expected_generation (KUnknownSlot _ g) = Some g"
| "kind_expected_generation (KStale _ e _ _) = Some e"
| "kind_expected_generation (KNonActive _ g _) = Some g"
| "kind_expected_generation (KBackendSpecific _ _ _ s) = map_option bsr_expected s"
| "kind_expected_generation (KBackendContext _ _) = None"

fun kind_actual_generation :: "completion_anomaly_kind \<Rightarrow> u32 option" where
  "kind_actual_generation (KStale _ _ a _) = Some a"
| "kind_actual_generation (KNonActive _ g _) = Some g"
| "kind_actual_generation (KBackendSpecific _ _ _ s) = Option.bind s bsr_actual"
| "kind_actual_generation (KUnknownSlot _ _) = None"
| "kind_actual_generation (KBackendContext _ _) = None"

fun kind_state :: "completion_anomaly_kind \<Rightarrow> slot_state option" where
  "kind_state (KStale _ _ _ s) = Some s"
| "kind_state (KNonActive _ _ s) = Some s"
| "kind_state _ = None"

fun kind_backend :: "completion_anomaly_kind \<Rightarrow> completion_backend option" where
  "kind_backend (KBackendContext b _) = Some b"
| "kind_backend (KBackendSpecific _ b _ _) = Some b"
| "kind_backend _ = None"

fun outcome_kind :: "anomaly_outcome \<Rightarrow> completion_anomaly_kind" where
  "outcome_kind (AMissing k) = k"
| "outcome_kind (AStale k) = k"
| "outcome_kind (ANonActive k) = k"

fun mutation_anomaly_outcome :: "completion_mutation_outcome \<Rightarrow> anomaly_outcome option" where
  "mutation_anomaly_outcome Applied = None"
| "mutation_anomaly_outcome (MRejected out) = Some out"

fun anomaly_reason :: "completion_anomaly \<Rightarrow> completion_anomaly_reason" where
  "anomaly_reason (SlotStateA r _ _ _ _ _ _) = r"
| "anomaly_reason (UnknownSlotA _ _ _ _) = RUnknownSlot"
| "anomaly_reason (StaleGenerationA _ _ _ _ _ _) = RStaleGeneration"
| "anomaly_reason (BackendContextA _ _ _ _) = RBackendContextUnknown"
| "anomaly_reason (BackendSpecificA code _ _ _ _ _ _ _) = RBackendSpecific code"

fun anomaly_token :: "completion_anomaly \<Rightarrow> completion_token" where
  "anomaly_token (UnknownSlotA t _ _ _) = t"
| "anomaly_token (StaleGenerationA t _ _ _ _ _) = t"
| "anomaly_token (SlotStateA _ t _ _ _ _ _) = t"
| "anomaly_token (BackendContextA t _ _ _) = t"
| "anomaly_token (BackendSpecificA _ t _ _ _ _ _ _) = t"

fun anomaly_index :: "completion_anomaly \<Rightarrow> usize option" where
  "anomaly_index (UnknownSlotA _ i _ _) = Some i"
| "anomaly_index (StaleGenerationA _ i _ _ _ _) = Some i"
| "anomaly_index (SlotStateA _ _ i _ _ _ _) = Some i"
| "anomaly_index (BackendSpecificA _ _ _ _ i _ _ _) = i"
| "anomaly_index (BackendContextA _ _ _ _) = None"

fun anomaly_expected_generation :: "completion_anomaly \<Rightarrow> u32 option" where
  "anomaly_expected_generation (UnknownSlotA _ _ g _) = Some g"
| "anomaly_expected_generation (StaleGenerationA _ _ e _ _ _) = Some e"
| "anomaly_expected_generation (SlotStateA _ _ _ g _ _ _) = Some g"
| "anomaly_expected_generation (BackendSpecificA _ _ _ _ _ e _ _) = e"
| "anomaly_expected_generation (BackendContextA _ _ _ _) = None"

fun anomaly_actual_generation :: "completion_anomaly \<Rightarrow> u32 option" where
  "anomaly_actual_generation (StaleGenerationA _ _ _ a _ _) = Some a"
| "anomaly_actual_generation (SlotStateA _ _ _ g _ _ _) = Some g"
| "anomaly_actual_generation (BackendSpecificA _ _ _ _ _ _ a _) = a"
| "anomaly_actual_generation (UnknownSlotA _ _ _ _) = None"
| "anomaly_actual_generation (BackendContextA _ _ _ _) = None"

fun anomaly_state :: "completion_anomaly \<Rightarrow> slot_state option" where
  "anomaly_state (StaleGenerationA _ _ _ _ s _) = Some s"
| "anomaly_state (SlotStateA _ _ _ _ s _ _) = Some s"
| "anomaly_state _ = None"

fun anomaly_raw_attachment :: "completion_anomaly \<Rightarrow> completion_raw option" where
  "anomaly_raw_attachment (UnknownSlotA _ _ _ r) = r"
| "anomaly_raw_attachment (StaleGenerationA _ _ _ _ _ r) = r"
| "anomaly_raw_attachment (SlotStateA _ _ _ _ _ _ r) = r"
| "anomaly_raw_attachment (BackendSpecificA _ _ _ _ _ _ _ r) = r"
| "anomaly_raw_attachment (BackendContextA _ _ _ r) = Some r"

fun anomaly_with_raw :: "completion_anomaly \<Rightarrow> completion_raw \<Rightarrow> completion_anomaly" where
  "anomaly_with_raw (UnknownSlotA t i g _) r = UnknownSlotA t i g (Some r)"
| "anomaly_with_raw (StaleGenerationA t i e a s _) r = StaleGenerationA t i e a s (Some r)"
| "anomaly_with_raw (SlotStateA re t i g s sn _) r = SlotStateA re t i g s sn (Some r)"
| "anomaly_with_raw (BackendSpecificA c t b x i e a _) r = BackendSpecificA c t b x i e a (Some r)"
| "anomaly_with_raw (BackendContextA t b x _) r = BackendContextA t b x r"

text \<open>The first half of \<^verbatim>\<open>materialize\<close> builds the anomaly, the second attaches the raw
  completion unless the variant already carries one.\<close>

fun materialize_base :: "completion_anomaly_kind \<Rightarrow> anomaly_attach \<Rightarrow> completion_anomaly" where
  "materialize_base (KUnknownSlot i g) att = UnknownSlotA (att_token att) i g None"
| "materialize_base (KStale i e a s) att = StaleGenerationA (att_token att) i e a s None"
| "materialize_base (KNonActive i g s) att =
     SlotStateA RNonActiveSlot (att_token att) i g s None None"
| "materialize_base (KBackendContext b x) att =
     BackendContextA (att_token att) b x
       (case att_raw att of Some r \<Rightarrow> r | None \<Rightarrow> \<lparr>cr_backend = b, cr_res = 0, cr_flags = 0\<rparr>)"
| "materialize_base (KBackendSpecific c b x sl) att =
     (case sl of
        None \<Rightarrow> BackendSpecificA c (att_token att) b x None None None None
      | Some r \<Rightarrow> (case bsr_actual r of
            None \<Rightarrow> BackendSpecificA c (att_token att) b x (Some (bsr_index r))
                      (Some (bsr_expected r)) None None
          | Some a \<Rightarrow> BackendSpecificA c (att_token att) b x (Some (bsr_index r))
                      (Some (bsr_expected r)) (Some a) None))"

definition materialize :: "completion_anomaly_kind \<Rightarrow> anomaly_attach \<Rightarrow> completion_anomaly" where
  "materialize k att =
     (let anomaly = materialize_base k att in
      case att_raw att of
        Some r \<Rightarrow> (case anomaly of BackendContextA _ _ _ _ \<Rightarrow> anomaly | _ \<Rightarrow> anomaly_with_raw anomaly r)
      | None \<Rightarrow> anomaly)"

definition attach_from_op_token :: "op_token \<Rightarrow> anomaly_attach" where
  "attach_from_op_token t = \<lparr>att_token = token_user t, att_raw = None\<rparr>"

definition attach_from_raw_completion :: "raw_completion \<Rightarrow> anomaly_attach" where
  "attach_from_raw_completion raw =
     \<lparr>att_token = rc_token raw,
      att_raw = Some \<lparr>cr_backend = rc_backend raw, cr_res = rc_res raw, cr_flags = rc_flags raw\<rparr>\<rparr>"

subsection \<open>Cleanup guards\<close>

text \<open>A cleanup is a one-shot closure; what the driver can observe of it is that it ran and
  whether it succeeded. It is modelled by an identifier, so that the log of identifiers that ran
  shows every execution, and by its result.\<close>

datatype completion_cleanup = Cleanup nat bool

record cleanup_guard =
  guard_cleanup :: "completion_cleanup option"

definition guard_new :: "completion_cleanup \<Rightarrow> cleanup_guard" where
  "guard_new c = \<lparr>guard_cleanup = Some c\<rparr>"

definition guard_none :: cleanup_guard where
  "guard_none = \<lparr>guard_cleanup = None\<rparr>"

definition guard_is_armed :: "cleanup_guard \<Rightarrow> bool" where
  "guard_is_armed g \<longleftrightarrow> guard_cleanup g \<noteq> None"

definition guard_disarm :: "cleanup_guard \<Rightarrow> cleanup_guard \<times> bool" where
  "guard_disarm g = (g\<lparr>guard_cleanup := None\<rparr>, guard_cleanup g \<noteq> None)"

text \<open>\<open>guard_run\<close> returns the emptied guard, the cleanups that ran (at most one) and
  \<open>None\<close> for an error or \<open>Some b\<close> for \<^verbatim>\<open>Ok(b)\<close>.\<close>

definition guard_run :: "cleanup_guard \<Rightarrow> cleanup_guard \<times> nat list \<times> bool option" where
  "guard_run g =
     (case guard_cleanup g of
        None \<Rightarrow> (g, [], Some False)
      | Some (Cleanup i ok) \<Rightarrow> (g\<lparr>guard_cleanup := None\<rparr>, [i], if ok then Some True else None))"

definition guard_drop :: "cleanup_guard \<Rightarrow> nat list" where
  "guard_drop g = (case guard_cleanup g of None \<Rightarrow> [] | Some (Cleanup i _) \<Rightarrow> [i])"

subsection \<open>Record outcomes and diagnostics\<close>

datatype record_completion_outcome = RecordedUser | OrphanedDropped | RRejected anomaly_outcome

record diagnostics =
  user_completed :: u64
  user_orphan_completed :: u64
  unknown_completion :: u64
  stale_completion :: u64
  completion_rejected :: u64
  internal_unknown :: u64
  orphan_cleanup_error :: u64

definition diagnostics_default :: diagnostics where
  "diagnostics_default = \<lparr>user_completed = 0, user_orphan_completed = 0, unknown_completion = 0,
     stale_completion = 0, completion_rejected = 0, internal_unknown = 0, orphan_cleanup_error = 0\<rparr>"

definition record_anomaly :: "completion_anomaly \<Rightarrow> diagnostics \<Rightarrow> diagnostics" where
  "record_anomaly a d =
     (case anomaly_reason a of
        RUnknownSlot \<Rightarrow> d\<lparr>unknown_completion := unknown_completion d + 1\<rparr>
      | RNonActiveSlot \<Rightarrow> d\<lparr>unknown_completion := unknown_completion d + 1\<rparr>
      | RBackendContextUnknown \<Rightarrow> d\<lparr>internal_unknown := internal_unknown d + 1\<rparr>
      | RBackendSpecific _ \<Rightarrow> d\<lparr>internal_unknown := internal_unknown d + 1\<rparr>
      | RStaleGeneration \<Rightarrow> d\<lparr>stale_completion := stale_completion d + 1\<rparr>)"

definition record_anomaly_kind :: "completion_anomaly_kind \<Rightarrow> anomaly_attach \<Rightarrow> diagnostics \<Rightarrow> diagnostics" where
  "record_anomaly_kind k att d = record_anomaly (materialize k att) d"

definition record_anomaly_outcome :: "anomaly_outcome \<Rightarrow> anomaly_attach \<Rightarrow> diagnostics \<Rightarrow> diagnostics" where
  "record_anomaly_outcome out att d = record_anomaly_kind (outcome_kind out) att d"

definition record_completion_outcome :: "record_completion_outcome \<Rightarrow> diagnostics \<Rightarrow> diagnostics" where
  "record_completion_outcome out d =
     (let d1 = (if out = RecordedUser then d
                else d\<lparr>completion_rejected := completion_rejected d + 1\<rparr>)
      in case out of
           RecordedUser \<Rightarrow> d1\<lparr>user_completed := user_completed d1 + 1\<rparr>
         | OrphanedDropped \<Rightarrow> d1\<lparr>user_orphan_completed := user_orphan_completed d1 + 1\<rparr>
         | RRejected _ \<Rightarrow> d1)"

definition inc_orphan_cleanup_error :: "diagnostics \<Rightarrow> diagnostics" where
  "inc_orphan_cleanup_error d = d\<lparr>orphan_cleanup_error := orphan_cleanup_error d + 1\<rparr>"

definition run_completion_cleanup ::
  "diagnostics \<Rightarrow> cleanup_guard \<Rightarrow> diagnostics \<times> cleanup_guard \<times> nat list \<times> bool" where
  "run_completion_cleanup d g =
     (case guard_run g of
        (g', cl, Some b) \<Rightarrow> (d, g', cl, b)
      | (g', cl, None) \<Rightarrow> (inc_orphan_cleanup_error d, g', cl, False))"

subsection \<open>Lemmas\<close>

lemma anomaly_with_raw_simps [simp]:
  "anomaly_reason (anomaly_with_raw a r) = anomaly_reason a"
  "anomaly_token (anomaly_with_raw a r) = anomaly_token a"
  "anomaly_index (anomaly_with_raw a r) = anomaly_index a"
  "anomaly_expected_generation (anomaly_with_raw a r) = anomaly_expected_generation a"
  "anomaly_actual_generation (anomaly_with_raw a r) = anomaly_actual_generation a"
  "anomaly_state (anomaly_with_raw a r) = anomaly_state a"
  "anomaly_raw_attachment (anomaly_with_raw a r) = Some r"
  by (cases a; simp)+

lemma materialize_reason [simp]: "anomaly_reason (materialize k att) = kind_reason k"
  by (cases k) (auto simp: materialize_def Let_def split: option.splits completion_anomaly.splits)

lemma guard_run_then_drop: "guard_run g = (g', cl, res) \<Longrightarrow> guard_drop g' = [] \<and> cl = guard_drop g"
  by (auto simp: guard_run_def guard_drop_def split: option.splits completion_cleanup.splits)

lemma run_cleanup_ran:
  "run_completion_cleanup d g = (d', g', cl, b) \<Longrightarrow> cl = guard_drop g \<and> guard_drop g' = []"
  by (auto simp: run_completion_cleanup_def dest: guard_run_then_drop
      split: prod.splits option.splits)

text \<open>Materializing an anomaly kind loses nothing: the anomaly built for the diagnostics keeps
  the reason, slot index, expected and actual generation and slot state of the kind, and carries
  the attachment's token and its raw completion whenever there is one.\<close>

theorem materialize_faithful:
  "anomaly_reason (materialize k att) = kind_reason k
   \<and> anomaly_token (materialize k att) = att_token att
   \<and> anomaly_index (materialize k att) = kind_index k
   \<and> anomaly_expected_generation (materialize k att) = kind_expected_generation k
   \<and> anomaly_actual_generation (materialize k att) = kind_actual_generation k
   \<and> anomaly_state (materialize k att) = kind_state k
   \<and> (att_raw att \<noteq> None \<longrightarrow> anomaly_raw_attachment (materialize k att) = att_raw att)"
  by (cases k) (auto simp: materialize_def Let_def split: option.splits completion_anomaly.splits)

lemma materialize_faithful_witness:
  "let att = \<lparr>att_token = 5, att_raw = Some \<lparr>cr_backend = CoreBackend, cr_res = 1, cr_flags = 2\<rparr>\<rparr>
   in anomaly_raw_attachment (materialize (KUnknownSlot 3 4) att) = att_raw att"
  using materialize_faithful [of "KUnknownSlot 3 4"
      "\<lparr>att_token = 5, att_raw = Some \<lparr>cr_backend = CoreBackend, cr_res = 1, cr_flags = 2\<rparr>\<rparr>"]
  by simp

end
