(* ===== verification/Slot_Table.thy ===== *)
theory Slot_Table
  imports Completion_Types
begin

text \<open>
  The slot table shared between the driver thread and the futures (\<^verbatim>\<open>slot/core.rs\<close>,
  \<^verbatim>\<open>slot/table.rs\<close>). One slot holds a packed core state (generation, state, flags), its link
  in the free list, the completion data written by the driver and the waker of the polling task.

  Every definition is one linearised operation: a compare-exchange loop that re-reads the cell on
  failure performs, when it succeeds, exactly the update written here. The packing of the three
  core fields into 64 bits is done by the \<^verbatim>\<open>bilge\<close> crate and is not modelled. The two ghost
  fields of the table log the wakers that were woken and the cleanups that ran.
\<close>

record packed_core_state =
  pc_generation :: u32
  pc_state :: slot_state
  pc_flags :: "24 word"

definition with_state :: "packed_core_state \<Rightarrow> slot_state \<Rightarrow> packed_core_state" where
  "with_state c s = c\<lparr>pc_state := s\<rparr>"

definition with_generation :: "packed_core_state \<Rightarrow> u32 \<Rightarrow> packed_core_state" where
  "with_generation c g = c\<lparr>pc_generation := g\<rparr>"

record ('pay, 'det, 'side) slot_storage =
  st_result :: "'det option"
  st_payload :: "'pay option"
  st_sidecar :: 'side

definition storage_new :: "('pay, 'det, 'side::default) slot_storage" where
  "storage_new = \<lparr>st_result = None, st_payload = None, st_sidecar = default\<rparr>"

definition storage_reset ::
  "('pay, 'det, 'side::default) slot_storage \<Rightarrow> ('pay, 'det, 'side) slot_storage" where
  "storage_reset st = storage_new"

datatype ('pay, 'det) completion_data =
    DataEmpty
  | DataUser user_completion_event 'pay "'det option" cleanup_guard

record ('pay, 'det) slot_data =
  core_state :: packed_core_state
  next_free :: nat
  completion_res :: i32
  completion_flags :: u32
  completion_data :: "('pay, 'det) completion_data"
  completion_waker :: "waker option"

definition NULL_INDEX :: nat where
  "NULL_INDEX = 2 ^ 64 - 1"

definition slot_data_new :: "('pay, 'det) slot_data" where
  "slot_data_new =
     \<lparr>core_state = \<lparr>pc_generation = 0, pc_state = Idle, pc_flags = 0\<rparr>,
      next_free = NULL_INDEX, completion_res = 0, completion_flags = 0,
      completion_data = DataEmpty, completion_waker = None\<rparr>"

abbreviation slot_state_of :: "('pay, 'det) slot_data \<Rightarrow> slot_state" where
  "slot_state_of s \<equiv> pc_state (core_state s)"

abbreviation slot_generation_of :: "('pay, 'det) slot_data \<Rightarrow> u32" where
  "slot_generation_of s \<equiv> pc_generation (core_state s)"

definition slot_set_state :: "slot_state \<Rightarrow> ('pay, 'det) slot_data \<Rightarrow> ('pay, 'det) slot_data" where
  "slot_set_state st s = s\<lparr>core_state := with_state (core_state s) st\<rparr>"

definition slot_reset :: "u32 \<Rightarrow> ('pay, 'det) slot_data \<Rightarrow> ('pay, 'det) slot_data" where
  "slot_reset g s = s\<lparr>core_state := \<lparr>pc_generation = g, pc_state = Idle, pc_flags = 0\<rparr>\<rparr>"

definition slot_free :: "('pay, 'det) slot_data \<Rightarrow> ('pay, 'det) slot_data" where
  "slot_free s =
     (let target = (if slot_state_of s = InFlightReady then InFlightReady else Idle)
      in s\<lparr>core_state := with_state (core_state s) target\<rparr>)"

record ('pay, 'det) slot_table =
  slots :: "('pay, 'det) slot_data list"
  remote_free_head :: nat
  ready_completion_count :: usize
  table_diagnostics :: diagnostics
  fx_woken :: "waker list"
  fx_cleaned :: "nat list"

definition slot_table_new :: "nat \<Rightarrow> ('pay, 'det) slot_table" where
  "slot_table_new capacity =
     \<lparr>slots = replicate capacity slot_data_new, remote_free_head = NULL_INDEX,
      ready_completion_count = 0, table_diagnostics = diagnostics_default,
      fx_woken = [], fx_cleaned = []\<rparr>"

definition upd_slot ::
  "nat \<Rightarrow> (('pay, 'det) slot_data \<Rightarrow> ('pay, 'det) slot_data) \<Rightarrow> ('pay, 'det) slot_table
     \<Rightarrow> ('pay, 'det) slot_table" where
  "upd_slot i f tb = tb\<lparr>slots := (slots tb)[i := f (slots tb ! i)]\<rparr>"

text \<open>Indexing a slot out of range panics: \<open>None\<close>.\<close>

definition push_free :: "nat \<Rightarrow> ('pay, 'det) slot_table \<Rightarrow> ('pay, 'det) slot_table option" where
  "push_free idx tb =
     (if idx < length (slots tb)
      then Some ((upd_slot idx (\<lambda>s. s\<lparr>next_free := remote_free_head tb\<rparr>) tb)\<lparr>remote_free_head := idx\<rparr>)
      else None)"

fun push_free_all :: "nat list \<Rightarrow> ('pay, 'det) slot_table \<Rightarrow> ('pay, 'det) slot_table option" where
  "push_free_all [] tb = Some tb"
| "push_free_all (i # is) tb =
     (case push_free i tb of None \<Rightarrow> None | Some tb' \<Rightarrow> push_free_all is tb')"

definition pop_all :: "('pay, 'det) slot_table \<Rightarrow> nat \<times> ('pay, 'det) slot_table" where
  "pop_all tb = (remote_free_head tb, tb\<lparr>remote_free_head := NULL_INDEX\<rparr>)"

definition has_ready_completion :: "('pay, 'det) slot_table \<Rightarrow> bool" where
  "has_ready_completion tb \<longleftrightarrow> 0 < ready_completion_count tb"

definition note_ready_completion :: "('pay, 'det) slot_table \<Rightarrow> ('pay, 'det) slot_table" where
  "note_ready_completion tb = tb\<lparr>ready_completion_count := ready_completion_count tb + 1\<rparr>"

definition clear_ready_completion :: "('pay, 'det) slot_table \<Rightarrow> ('pay, 'det) slot_table" where
  "clear_ready_completion tb =
     (if ready_completion_count tb = 0 then tb
      else tb\<lparr>ready_completion_count := ready_completion_count tb - 1\<rparr>)"

subsection \<open>Chains of the free list\<close>

text \<open>\<open>free_chain sl h xs\<close>: following \<open>next_free\<close> from \<open>h\<close> visits exactly \<open>xs\<close> and
  ends in the null index.\<close>

fun free_chain :: "('pay, 'det) slot_data list \<Rightarrow> nat \<Rightarrow> nat list \<Rightarrow> bool" where
  "free_chain sl h [] \<longleftrightarrow> h = NULL_INDEX"
| "free_chain sl h (x # xs) \<longleftrightarrow>
     h = x \<and> x < length sl \<and> x \<noteq> NULL_INDEX \<and> free_chain sl (next_free (sl ! x)) xs"

lemma free_chain_cong:
  assumes "length sl = length sl'" "\<And>i. i \<in> set xs \<Longrightarrow> next_free (sl ! i) = next_free (sl' ! i)"
  shows "free_chain sl h xs = free_chain sl' h xs"
  using assms by (induction xs arbitrary: h) auto

lemma free_chain_update_other [simp]:
  "i \<notin> set xs \<Longrightarrow> free_chain (sl[i := v]) h xs = free_chain sl h xs"
  by (rule free_chain_cong) (simp, metis nth_list_update_neq)

lemma free_chain_update_core [simp]:
  assumes "next_free v = next_free (sl ! i)"
  shows "free_chain (sl[i := v]) h xs = free_chain sl h xs"
proof (rule free_chain_cong)
  fix j
  show "next_free (sl[i := v] ! j) = next_free (sl ! j)"
    using assms by (cases "j = i"; cases "i < length sl") (auto simp: list_update_beyond)
qed simp

lemma free_chain_NULL [simp]: "free_chain sl NULL_INDEX xs \<longleftrightarrow> xs = []"
  by (cases xs) auto

lemma free_chain_bound: "free_chain sl h xs \<Longrightarrow> x \<in> set xs \<Longrightarrow> x < length sl"
  by (induction xs arbitrary: h) auto

lemma free_chain_head: "free_chain sl h xs \<Longrightarrow> h \<noteq> NULL_INDEX \<Longrightarrow> \<exists>ys. xs = h # ys"
  by (cases xs) auto

lemma upd_slot_simps [simp]:
  "length (slots (upd_slot i f tb)) = length (slots tb)"
  "remote_free_head (upd_slot i f tb) = remote_free_head tb"
  "ready_completion_count (upd_slot i f tb) = ready_completion_count tb"
  "table_diagnostics (upd_slot i f tb) = table_diagnostics tb"
  "fx_woken (upd_slot i f tb) = fx_woken tb"
  "fx_cleaned (upd_slot i f tb) = fx_cleaned tb"
  by (simp_all add: upd_slot_def)

lemma slots_upd_slot: "slots (upd_slot i f tb) = (slots tb)[i := f (slots tb ! i)]"
  by (simp add: upd_slot_def)

lemma upd_slot_nth [simp]:
  "j < length (slots tb) \<Longrightarrow>
   slots (upd_slot i f tb) ! j = (if j = i then f (slots tb ! i) else slots tb ! j)"
  by (simp add: slots_upd_slot nth_list_update)

lemma slot_free_simps [simp]:
  "next_free (slot_free s) = next_free s"
  "completion_data (slot_free s) = completion_data s"
  "slot_generation_of (slot_free s) = slot_generation_of s"
  "completion_waker (slot_free s) = completion_waker s"
  by (simp_all add: slot_free_def with_state_def Let_def)

lemma slot_free_state:
  "slot_state_of (slot_free s) = (if slot_state_of s = InFlightReady then InFlightReady else Idle)"
  by (simp add: slot_free_def with_state_def Let_def)

lemma slot_reset_simps [simp]:
  "next_free (slot_reset g s) = next_free s"
  "completion_data (slot_reset g s) = completion_data s"
  "slot_generation_of (slot_reset g s) = g"
  "slot_state_of (slot_reset g s) = Idle"
  by (simp_all add: slot_reset_def)

lemma slot_set_state_simps [simp]:
  "next_free (slot_set_state st s) = next_free s"
  "completion_data (slot_set_state st s) = completion_data s"
  "slot_generation_of (slot_set_state st s) = slot_generation_of s"
  "slot_state_of (slot_set_state st s) = st"
  by (simp_all add: slot_set_state_def with_state_def)

text \<open>Pushing an index that is on no chain prepends it to the remote chain and leaves every other
  chain and every slot's other fields alone.\<close>

definition same_core :: "('pay, 'det) slot_table \<Rightarrow> ('pay, 'det) slot_table \<Rightarrow> bool" where
  "same_core tb tb' \<longleftrightarrow>
     length (slots tb') = length (slots tb)
     \<and> (\<forall>i < length (slots tb). (slots tb' ! i)\<lparr>next_free := 0\<rparr> = (slots tb ! i)\<lparr>next_free := 0\<rparr>)
     \<and> ready_completion_count tb' = ready_completion_count tb
     \<and> table_diagnostics tb' = table_diagnostics tb
     \<and> fx_woken tb' = fx_woken tb \<and> fx_cleaned tb' = fx_cleaned tb"

lemma same_core_refl [simp]: "same_core tb tb"
  by (simp add: same_core_def)

lemma same_core_trans: "same_core a b \<Longrightarrow> same_core b c \<Longrightarrow> same_core a c"
  by (simp add: same_core_def)

lemma same_core_fields:
  assumes "same_core tb tb'" "i < length (slots tb)"
  shows "core_state (slots tb' ! i) = core_state (slots tb ! i)"
    "completion_data (slots tb' ! i) = completion_data (slots tb ! i)"
    "completion_waker (slots tb' ! i) = completion_waker (slots tb ! i)"
    "completion_res (slots tb' ! i) = completion_res (slots tb ! i)"
    "completion_flags (slots tb' ! i) = completion_flags (slots tb ! i)"
proof -
  have "(slots tb' ! i)\<lparr>next_free := 0\<rparr> = (slots tb ! i)\<lparr>next_free := 0\<rparr>"
    using assms by (simp add: same_core_def)
  then show "core_state (slots tb' ! i) = core_state (slots tb ! i)"
    "completion_data (slots tb' ! i) = completion_data (slots tb ! i)"
    "completion_waker (slots tb' ! i) = completion_waker (slots tb ! i)"
    "completion_res (slots tb' ! i) = completion_res (slots tb ! i)"
    "completion_flags (slots tb' ! i) = completion_flags (slots tb ! i)"
    by (cases "slots tb' ! i"; cases "slots tb ! i"; simp)+
qed

lemma same_core_length: "same_core a b \<Longrightarrow> length (slots b) = length (slots a)"
  by (simp add: same_core_def)

lemma push_free_chain:
  assumes "free_chain (slots tb) (remote_free_head tb) rs" "idx < length (slots tb)"
    "idx \<notin> set rs" "length (slots tb) \<le> NULL_INDEX"
  shows "\<exists>tb'. push_free idx tb = Some tb'
          \<and> free_chain (slots tb') (remote_free_head tb') (idx # rs)
          \<and> same_core tb tb'
          \<and> (\<forall>h xs. idx \<notin> set xs \<longrightarrow> free_chain (slots tb') h xs = free_chain (slots tb) h xs)"
  using assms by (auto simp: push_free_def slots_upd_slot same_core_def nth_list_update)

lemma push_free_all_chain:
  assumes "free_chain (slots tb) (remote_free_head tb) rs" "\<forall>i \<in> set ds. i < length (slots tb)"
    "distinct ds" "set ds \<inter> set rs = {}" "length (slots tb) \<le> NULL_INDEX"
  shows "\<exists>tb'. push_free_all ds tb = Some tb'
          \<and> free_chain (slots tb') (remote_free_head tb') (rev ds @ rs)
          \<and> same_core tb tb'
          \<and> (\<forall>h xs. set ds \<inter> set xs = {} \<longrightarrow> free_chain (slots tb') h xs = free_chain (slots tb) h xs)"
  using assms
proof (induction ds arbitrary: tb rs)
  case Nil
  then show ?case by simp
next
  case (Cons d ds)
  then obtain tb1 where tb1: "push_free d tb = Some tb1"
    "free_chain (slots tb1) (remote_free_head tb1) (d # rs)" "same_core tb tb1"
    "\<forall>h xs. d \<notin> set xs \<longrightarrow> free_chain (slots tb1) h xs = free_chain (slots tb) h xs"
    using push_free_chain [of tb rs d] by auto
  have "length (slots tb1) = length (slots tb)" using tb1(3) by (simp add: same_core_def)
  with Cons.prems tb1 obtain tb2 where tb2: "push_free_all ds tb1 = Some tb2"
    "free_chain (slots tb2) (remote_free_head tb2) (rev ds @ d # rs)" "same_core tb1 tb2"
    "\<forall>h xs. set ds \<inter> set xs = {} \<longrightarrow> free_chain (slots tb2) h xs = free_chain (slots tb1) h xs"
    using Cons.IH [of tb1 "d # rs"] by auto
  then show ?case using tb1 by (auto intro: same_core_trans)
qed

end
