(* ===== verification/Alloc_Interface.thy ===== *)
theory Alloc_Interface
  imports Veloq_Prelude
begin

text \<open>
  The contract every allocator of the system gives its clients: acquiring never fails to return
  and hands out something that is not live, releasing succeeds exactly on live handles, and
  nothing else changes the set of live handles. The components that hand out slots or blocks
  interpret the locale on their own operations.
\<close>

datatype 'h alloc_cmd = Acquire | Release 'h

text \<open>A client's sequence of calls; \<open>None\<close> is a call that panics or does not return.\<close>

fun run_cmds ::
  "('s \<Rightarrow> ('s \<times> 'h option) option) \<Rightarrow> ('h \<Rightarrow> 's \<Rightarrow> ('s \<times> bool) option)
     \<Rightarrow> 'h alloc_cmd list \<Rightarrow> 's \<Rightarrow> 's option" where
  "run_cmds acq rel [] s = Some s"
| "run_cmds acq rel (Acquire # cs) s =
     (case acq s of None \<Rightarrow> None | Some (s', _) \<Rightarrow> run_cmds acq rel cs s')"
| "run_cmds acq rel (Release h # cs) s =
     (case rel h s of None \<Rightarrow> None | Some (s', _) \<Rightarrow> run_cmds acq rel cs s')"

locale handle_allocator =
  fixes inv :: "'s \<Rightarrow> bool"
    and live :: "'s \<Rightarrow> 'h set"
    and acquire :: "'s \<Rightarrow> ('s \<times> 'h option) option"
    and release :: "'h \<Rightarrow> 's \<Rightarrow> ('s \<times> bool) option"
  assumes acquire_law: "inv s \<Longrightarrow> \<exists>s' res. acquire s = Some (s', res) \<and> inv s'
      \<and> (case res of None \<Rightarrow> live s' = live s | Some h \<Rightarrow> h \<notin> live s \<and> live s' = insert h (live s))"
    and release_law: "inv s \<Longrightarrow> \<exists>s'. release h s = Some (s', h \<in> live s) \<and> inv s'
      \<and> live s' = live s - {h}"
begin

lemma acquired_fresh:
  assumes "inv s" "acquire s = Some (s', Some h)"
  shows "h \<notin> live s" "h \<in> live s'" "inv s'" "live s' = insert h (live s)"
  using acquire_law [OF assms(1)] assms(2) by auto

lemma release_twice:
  assumes "inv s" "release h s = Some (s1, b)"
  shows "\<exists>s2. release h s1 = Some (s2, False) \<and> live s2 = live s1"
proof -
  have s1: "inv s1" "live s1 = live s - {h}" using release_law [OF assms(1), of h] assms(2) by auto
  then show ?thesis using release_law [OF s1(1), of h] by auto
qed

lemma run_never_stuck: "inv s \<Longrightarrow> \<exists>s'. run_cmds acquire release cs s = Some s' \<and> inv s'"
proof (induction cs arbitrary: s)
  case Nil
  then show ?case by simp
next
  case (Cons c cs)
  show ?case
  proof (cases c)
    case Acquire
    then obtain s' res where "acquire s = Some (s', res)" "inv s'"
      using acquire_law [OF Cons.prems] by blast
    then show ?thesis using Cons.IH [of s'] Acquire by simp
  next
    case (Release h)
    then obtain s' where "release h s = Some (s', h \<in> live s)" "inv s'"
      using release_law [OF Cons.prems] by blast
    then show ?thesis using Cons.IH [of s'] Release by simp
  qed
qed

lemma live_survives:
  assumes "inv s" "run_cmds acquire release cs s = Some s'" "h \<in> live s" "Release h \<notin> set cs"
  shows "h \<in> live s'"
  using assms
proof (induction cs arbitrary: s)
  case Nil
  then show ?case by simp
next
  case (Cons c cs)
  show ?case
  proof (cases c)
    case Acquire
    then obtain s1 res where s1: "acquire s = Some (s1, res)" "inv s1" "h \<in> live s1"
      using acquire_law [OF Cons.prems(1)] Cons.prems(3) by (auto split: option.splits)
    then show ?thesis using Cons.IH [of s1] Cons.prems Acquire by simp
  next
    case (Release g)
    then obtain s1 where s1: "release g s = Some (s1, g \<in> live s)" "inv s1" "h \<in> live s1"
      using release_law [OF Cons.prems(1), of g] Cons.prems(3,4) by auto
    then show ?thesis using Cons.IH [of s1] Cons.prems Release by simp
  qed
qed

text \<open>A handle handed out after any run is not one that is still held.\<close>

lemma no_double_handout:
  assumes "inv s" "h \<in> live s" "Release h \<notin> set cs"
    "run_cmds acquire release cs s = Some s1" "acquire s1 = Some (s2, Some k)"
  shows "k \<noteq> h"
proof -
  have "inv s1" using run_never_stuck [OF assms(1), of cs] assms(4) by auto
  then show ?thesis
    using acquired_fresh(1) [OF _ assms(5)] live_survives [OF assms(1,4,2,3)] by auto
qed

end

text \<open>An allocator whose handles carry a version of the place they refer to: acquiring a place bumps
  its version, nothing else changes it. Then a handle is not handed out again, even after its
  release, before the 32-bit version has gone round.\<close>

locale versioned_allocator = handle_allocator inv live acquire release
  for inv :: "'s \<Rightarrow> bool" and live :: "'s \<Rightarrow> 'h set" and acquire :: "'s \<Rightarrow> ('s \<times> 'h option) option"
    and release :: "'h \<Rightarrow> 's \<Rightarrow> ('s \<times> bool) option" +
  fixes ver :: "'s \<Rightarrow> nat \<Rightarrow> u32" and place :: "'h \<Rightarrow> nat" and stamp :: "'h \<Rightarrow> u32"
  assumes acquire_ver: "\<lbrakk>inv s; acquire s = Some (s', res)\<rbrakk> \<Longrightarrow>
      (case res of None \<Rightarrow> ver s' = ver s
       | Some h \<Rightarrow> stamp h = ver s (place h) + 1 \<and> ver s' = (ver s)(place h := stamp h))"
    and release_ver: "\<lbrakk>inv s; release h s = Some (s', b)\<rbrakk> \<Longrightarrow> ver s' = ver s"
begin

lemma run_ver:
  "\<lbrakk>inv s; run_cmds acquire release cs s = Some s'\<rbrakk> \<Longrightarrow> \<exists>n \<le> length cs. ver s' p = ver s p + of_nat n"
proof (induction cs arbitrary: s)
  case Nil
  then show ?case by auto
next
  case (Cons c cs)
  have step: "\<exists>s1 m. run_cmds acquire release cs s1 = Some s' \<and> inv s1 \<and> m \<le> (1 :: nat) \<and> ver s1 p = ver s p + of_nat m"
  proof (cases c)
    case Acquire
    obtain s1 res where a: "acquire s = Some (s1, res)" "inv s1" using acquire_law [OF Cons.prems(1)] by blast
    have "ver s1 p = ver s p \<or> ver s1 p = ver s p + 1"
      using acquire_ver [OF Cons.prems(1) a(1)] by (cases res) auto
    then obtain m :: nat where "m \<le> 1" "ver s1 p = ver s p + of_nat m"
    proof
      assume "ver s1 p = ver s p"
      then show thesis using that [of 0] by simp
    next
      assume "ver s1 p = ver s p + 1"
      then show thesis using that [of 1] by simp
    qed
    then show ?thesis using a Cons.prems(2) Acquire by (intro exI [of _ s1] exI [of _ m]) simp
  next
    case (Release h)
    obtain s1 b where r: "release h s = Some (s1, b)" "inv s1" using release_law [OF Cons.prems(1)] by blast
    then show ?thesis using release_ver [OF Cons.prems(1) r(1)] Cons.prems(2) Release by (intro exI [of _ s1] exI [of _ 0]) simp
  qed
  then obtain s1 m where s1: "run_cmds acquire release cs s1 = Some s'" "inv s1" "m \<le> 1" "ver s1 p = ver s p + of_nat m" by blast
  obtain n where "n \<le> length cs" "ver s' p = ver s1 p + of_nat n" using Cons.IH [OF s1(2,1)] by blast
  then show ?case using s1(3,4) by (intro exI [of _ "m + n"]) (simp add: add.assoc)
qed

lemma never_reused:
  assumes "inv s" "ver s (place h) = stamp h" "length cs < 2 ^ 32 - 1"
    "run_cmds acquire release cs s = Some s1" "acquire s1 = Some (s2, Some k)"
  shows "k \<noteq> h"
proof
  assume k: "k = h"
  have i1: "inv s1" using run_never_stuck [OF assms(1), of cs] assms(4) by auto
  obtain n where n: "n \<le> length cs" "ver s1 (place h) = stamp h + of_nat n"
    using run_ver [OF assms(1,4)] assms(2) by metis
  then have "stamp h = stamp h + of_nat (Suc n)"
    using acquire_ver [OF i1 assms(5)] k by (simp add: algebra_simps)
  then have "(of_nat (Suc n) :: u32) = 0" by (metis add_cancel_right_right)
  moreover have "Suc n < 2 ^ 32" using n(1) assms(3) by simp
  then have "unat (of_nat (Suc n) :: u32) = Suc n" by (simp add: unat_of_nat del: of_nat_Suc)
  ultimately show False by simp
qed

end

end
