(* ===== verification/Op_Registry.thy ===== *)
theory Op_Registry
  imports Slot_Table Alloc_Interface
begin

text \<open>
  The operation registry of a driver (\<^verbatim>\<open>driver/registry.rs\<close>): the slot table shared with the
  futures, the driver's private half of each slot, and the free list that hands slots out. A
  result \<open>None\<close> of an operation means that the code panics or does not return; the theorems
  show that neither happens in a well-formed registry.
\<close>

subsection \<open>State\<close>

record ('op, 'pay, 'det, 'side, 'plat) local_slot =
  ls_op :: "'op option"
  ls_platform :: 'plat
  ls_storage :: "('pay, 'det, 'side) slot_storage"
  ls_active :: bool
  ls_generation :: u32

definition local_slot_new :: "('op, 'pay, 'det, 'side::default, 'plat::default) local_slot" where
  "local_slot_new = \<lparr>ls_op = None, ls_platform = default, ls_storage = storage_new,
     ls_active = False, ls_generation = 0\<rparr>"

record ('op, 'pay, 'det, 'side, 'plat) op_registry =
  shared :: "('pay, 'det) slot_table"
  locals :: "('op, 'pay, 'det, 'side, 'plat) local_slot list"
  local_free_head :: nat
  active_count :: nat

record op_handle =
  h_index :: nat
  h_generation :: u32

definition upd_local ::
  "nat \<Rightarrow> (('op, 'pay, 'det, 'side, 'plat) local_slot \<Rightarrow> ('op, 'pay, 'det, 'side, 'plat) local_slot)
     \<Rightarrow> ('op, 'pay, 'det, 'side, 'plat) op_registry \<Rightarrow> ('op, 'pay, 'det, 'side, 'plat) op_registry" where
  "upd_local i f r = r\<lparr>locals := (locals r)[i := f (locals r ! i)]\<rparr>"

definition upd_shared ::
  "nat \<Rightarrow> (('pay, 'det) slot_data \<Rightarrow> ('pay, 'det) slot_data)
     \<Rightarrow> ('op, 'pay, 'det, 'side, 'plat) op_registry \<Rightarrow> ('op, 'pay, 'det, 'side, 'plat) op_registry" where
  "upd_shared i f r = r\<lparr>shared := upd_slot i f (shared r)\<rparr>"

subsection \<open>Operations\<close>

definition registry_new ::
  "nat \<Rightarrow> ('op, 'pay, 'det, 'side::default, 'plat::default) op_registry option" where
  "registry_new capacity =
     (case push_free_all (rev [0..<capacity]) (slot_table_new capacity) of
        None \<Rightarrow> None
      | Some tb \<Rightarrow> Some \<lparr>shared = tb, locals = replicate capacity local_slot_new,
                         local_free_head = NULL_INDEX, active_count = 0\<rparr>)"

text \<open>The slot that \<^verbatim>\<open>alloc\<close> hands out: a fresh generation, reserved, its private half cleared.\<close>

definition alloc_claim ::
  "nat \<Rightarrow> 'plat \<Rightarrow> ('op, 'pay, 'det, 'side::default, 'plat) op_registry
     \<Rightarrow> ('op, 'pay, 'det, 'side, 'plat) op_registry \<times> op_handle" where
  "alloc_claim idx data r =
     (let new_gen = slot_generation_of (slots (shared r) ! idx) + 1;
          r1 = upd_shared idx (\<lambda>s. slot_set_state Reserved (slot_reset new_gen s)) r;
          r2 = upd_local idx (\<lambda>l. l\<lparr>ls_active := True, ls_generation := new_gen, ls_op := None,
                                    ls_platform := data, ls_storage := storage_reset (ls_storage l)\<rparr>) r1
      in (r2\<lparr>active_count := active_count r2 + 1\<rparr>, \<lparr>h_index = idx, h_generation = new_gen\<rparr>))"

partial_function (option) alloc_scan ::
  "('op, 'pay, 'det, 'side::default, 'plat) op_registry \<Rightarrow> 'plat \<Rightarrow> nat list
     \<Rightarrow> (('op, 'pay, 'det, 'side, 'plat) op_registry \<times> ('plat + op_handle)) option" where
  "alloc_scan r data deferred =
     (if local_free_head r = NULL_INDEX then
        (case push_free_all deferred (shared r) of
           None \<Rightarrow> None
         | Some tb \<Rightarrow> Some (r\<lparr>shared := tb\<rparr>, Inl data))
      else
        let idx = local_free_head r in
        if idx < length (slots (shared r)) \<and> idx < length (locals r) then
          let slot = slots (shared r) ! idx;
              r1 = r\<lparr>local_free_head := next_free slot\<rparr>
          in if slot_state_of slot \<noteq> Idle then alloc_scan r1 data (deferred @ [idx])
             else (case alloc_claim idx data r1 of
                     (r2, h) \<Rightarrow>
                       (case push_free_all deferred (shared r2) of
                          None \<Rightarrow> None
                        | Some tb \<Rightarrow> Some (r2\<lparr>shared := tb\<rparr>, Inr h)))
        else None)"

definition alloc ::
  "'plat \<Rightarrow> ('op, 'pay, 'det, 'side::default, 'plat) op_registry
     \<Rightarrow> (('op, 'pay, 'det, 'side, 'plat) op_registry \<times> ('plat + op_handle)) option" where
  "alloc data r =
     (if local_free_head r = NULL_INDEX then
        (case pop_all (shared r) of
           (h, tb) \<Rightarrow> alloc_scan (r\<lparr>shared := tb, local_free_head := h\<rparr>) data [])
      else alloc_scan r data [])"

definition is_current_active :: "op_token \<Rightarrow> ('op, 'pay, 'det, 'side, 'plat) op_registry \<Rightarrow> bool" where
  "is_current_active token r =
     (let i = unat (op_index token) in
      i < length (slots (shared r))
      \<and> slot_generation_of (slots (shared r) ! i) = op_generation token
      \<and> slot_state_of (slots (shared r) ! i) \<noteq> Idle)"

text \<open>The tokens of all slots that are not idle; an index that cannot be encoded is skipped.\<close>

definition active_tokens :: "('op, 'pay, 'det, 'side, 'plat) op_registry \<Rightarrow> op_token list" where
  "active_tokens r =
     List.map_filter
       (\<lambda>(i, s). if slot_state_of s \<noteq> Idle
                 then (case op_token_try_new (of_nat i) (slot_generation_of s) of
                         Inr t \<Rightarrow> Some t | Inl _ \<Rightarrow> None)
                 else None)
       (enumerate 0 (slots (shared r)))"

definition remove_at_index ::
  "nat \<Rightarrow> ('op, 'pay, 'det, 'side::default, 'plat::default) op_registry
     \<Rightarrow> (('op, 'pay, 'det, 'side, 'plat) op_registry \<times> 'plat) option" where
  "remove_at_index i r =
     (if i < length (locals r) \<and> i < length (slots (shared r)) then
        let data = ls_platform (locals r ! i);
            r1 = upd_local i (\<lambda>l. l\<lparr>ls_active := False, ls_op := None, ls_platform := default,
                                    ls_storage := storage_reset (ls_storage l)\<rparr>) r;
            r2 = upd_shared i slot_free r1
        in (case push_free i (shared r2) of
              None \<Rightarrow> None
            | Some tb \<Rightarrow> Some (r2\<lparr>shared := tb, active_count := active_count r2 - 1\<rparr>, data))
      else None)"

text \<open>\<^verbatim>\<open>remove\<close>: \<open>Some (r, None)\<close> when the token does not name the active occupant.\<close>

definition remove ::
  "op_token \<Rightarrow> ('op, 'pay, 'det, 'side::default, 'plat::default) op_registry
     \<Rightarrow> (('op, 'pay, 'det, 'side, 'plat) op_registry \<times> 'plat option) option" where
  "remove token r =
     (let i = unat (op_index token) in
      if \<not> i < length (locals r) then Some (r, None)
      else if \<not> ls_active (locals r ! i) \<or> ls_generation (locals r ! i) \<noteq> op_generation token
        then Some (r, None)
      else (case remove_at_index i r of
              None \<Rightarrow> None
            | Some (r', data) \<Rightarrow> Some (r', Some data)))"

definition finalize_waiting_completion ::
  "op_token \<Rightarrow> ('op, 'pay, 'det, 'side::default, 'plat::default) op_registry
     \<Rightarrow> (('op, 'pay, 'det, 'side, 'plat) op_registry \<times> 'plat option) option" where
  "finalize_waiting_completion token r = remove token r"

definition finalize_orphaned_completion ::
  "op_token \<Rightarrow> ('op, 'pay, 'det, 'side::default, 'plat::default) op_registry
     \<Rightarrow> (('op, 'pay, 'det, 'side, 'plat) op_registry \<times> 'plat option) option" where
  "finalize_orphaned_completion token r = remove token r"

definition recycle_at_index ::
  "nat \<Rightarrow> u32 \<Rightarrow> ('op, 'pay, 'det, 'side::default, 'plat::default) op_registry
     \<Rightarrow> ('op, 'pay, 'det, 'side, 'plat) op_registry option" where
  "recycle_at_index i generation r =
     (if i < length (locals r) \<and> i < length (slots (shared r)) then
        let r1 = upd_local i (\<lambda>l. l\<lparr>ls_active := False, ls_op := None, ls_platform := default,
                                    ls_storage := storage_reset (ls_storage l)\<rparr>) r;
            r2 = (if slot_state_of (slots (shared r1) ! i) = InFlightReady
                  then r1\<lparr>shared := clear_ready_completion (shared r1)\<rparr> else r1);
            r3 = upd_shared i (slot_reset generation) r2
        in (case push_free i (shared r3) of
              None \<Rightarrow> None
            | Some tb \<Rightarrow> Some (r3\<lparr>shared := tb, active_count := active_count r3 - 1\<rparr>))
      else None)"

definition recycle ::
  "op_token \<Rightarrow> u32 \<Rightarrow> ('op, 'pay, 'det, 'side::default, 'plat::default) op_registry
     \<Rightarrow> (('op, 'pay, 'det, 'side, 'plat) op_registry \<times> bool) option" where
  "recycle token next_generation r =
     (let i = unat (op_index token) in
      if \<not> i < length (locals r) then Some (r, False)
      else if \<not> ls_active (locals r ! i) \<or> ls_generation (locals r ! i) \<noteq> op_generation token
        then Some (r, False)
      else (case recycle_at_index i next_generation r of
              None \<Rightarrow> None
            | Some r' \<Rightarrow> Some (r', True)))"

definition has_active_ops :: "('op, 'pay, 'det, 'side, 'plat) op_registry \<Rightarrow> bool" where
  "has_active_ops r \<longleftrightarrow> 0 < active_count r"

subsection \<open>Invariant\<close>

text \<open>Every slot is active or on exactly one of the two free chains, and the active count counts
  the active slots.\<close>

definition chains_ok ::
  "nat list \<Rightarrow> nat list \<Rightarrow> nat list \<Rightarrow> ('op, 'pay, 'det, 'side, 'plat) op_registry \<Rightarrow> bool" where
  "chains_ok ls rs ds r \<longleftrightarrow>
     length (locals r) = length (slots (shared r))
     \<and> length (slots (shared r)) \<le> NULL_INDEX
     \<and> free_chain (slots (shared r)) (local_free_head r) ls
     \<and> free_chain (slots (shared r)) (remote_free_head (shared r)) rs
     \<and> distinct (ds @ ls @ rs)
     \<and> (\<forall>i \<in> set ds. i < length (locals r))
     \<and> (\<forall>i < length (locals r). ls_active (locals r ! i) \<longleftrightarrow> i \<notin> set (ds @ ls @ rs))
     \<and> active_count r + length (ds @ ls @ rs) = length (locals r)"

definition registry_inv :: "('op, 'pay, 'det, 'side, 'plat) op_registry \<Rightarrow> bool" where
  "registry_inv r \<longleftrightarrow> (\<exists>ls rs. chains_ok ls rs [] r)"

subsection \<open>Allocation\<close>

text \<open>What claiming slot \<open>i\<close> does: only that slot changes (up to free-list links), it gets the
  next generation and becomes reserved, and its private half belongs to the new operation.\<close>

definition claimed ::
  "nat \<Rightarrow> 'plat \<Rightarrow> ('op, 'pay, 'det, 'side::default, 'plat) op_registry
     \<Rightarrow> ('op, 'pay, 'det, 'side, 'plat) op_registry \<Rightarrow> op_handle \<Rightarrow> bool" where
  "claimed i data r r' h \<longleftrightarrow>
     h = \<lparr>h_index = i, h_generation = slot_generation_of (slots (shared r) ! i) + 1\<rparr>
     \<and> same_core (upd_slot i (\<lambda>s. slot_set_state Reserved (slot_reset (h_generation h) s)) (shared r))
         (shared r')
     \<and> locals r' = (locals r)[i := (locals r ! i)\<lparr>ls_active := True, ls_generation := h_generation h,
         ls_op := None, ls_platform := data, ls_storage := storage_new\<rparr>]
     \<and> active_count r' = active_count r + 1"

lemma same_core_upd_shared_head [simp]:
  "shared (r\<lparr>local_free_head := h\<rparr>) = shared r" "locals (r\<lparr>local_free_head := h\<rparr>) = locals r"
  "active_count (r\<lparr>local_free_head := h\<rparr>) = active_count r"
  by simp_all

lemma chains_ok_defer:
  assumes "chains_ok (x # xs) rs ds r"
  shows "chains_ok xs rs (ds @ [x]) (r\<lparr>local_free_head := next_free (slots (shared r) ! x)\<rparr>)"
  using assms by (auto simp: chains_ok_def)

lemma alloc_claim_eq:
  "alloc_claim i data r = (r', h) \<Longrightarrow>
     h = \<lparr>h_index = i, h_generation = slot_generation_of (slots (shared r) ! i) + 1\<rparr>
     \<and> shared r' = upd_slot i (\<lambda>s. slot_set_state Reserved (slot_reset (h_generation h) s)) (shared r)
     \<and> locals r' = (locals r)[i := (locals r ! i)\<lparr>ls_active := True, ls_generation := h_generation h,
         ls_op := None, ls_platform := data, ls_storage := storage_new\<rparr>]
     \<and> active_count r' = active_count r + 1 \<and> local_free_head r' = local_free_head r"
  by (auto simp: alloc_claim_def Let_def upd_shared_def upd_local_def storage_reset_def)

lemma push_free_all_upd:
  assumes "chains_ok (x # xs) rs ds r"
  shows "\<exists>tb. push_free_all ds (upd_slot x (\<lambda>s. slot_set_state Reserved (slot_reset g s)) (shared r)) = Some tb
     \<and> free_chain (slots tb) (remote_free_head tb) (rev ds @ rs)
     \<and> free_chain (slots tb) (next_free (slots (shared r) ! x)) xs
     \<and> same_core (upd_slot x (\<lambda>s. slot_set_state Reserved (slot_reset g s)) (shared r)) tb"
proof -
  let ?tb = "upd_slot x (\<lambda>s. slot_set_state Reserved (slot_reset g s)) (shared r)"
  have ch: "free_chain (slots ?tb) h ys = free_chain (slots (shared r)) h ys" for h ys
    by (simp add: slots_upd_slot)
  have "free_chain (slots ?tb) (remote_free_head ?tb) rs" "\<forall>i \<in> set ds. i < length (slots ?tb)"
    "distinct ds" "set ds \<inter> set rs = {}" "length (slots ?tb) \<le> NULL_INDEX"
    using assms by (auto simp: chains_ok_def ch)
  from push_free_all_chain [OF this] obtain tb where tb: "push_free_all ds ?tb = Some tb"
    "free_chain (slots tb) (remote_free_head tb) (rev ds @ rs)" "same_core ?tb tb"
    "\<forall>h xs. set ds \<inter> set xs = {} \<longrightarrow> free_chain (slots tb) h xs = free_chain (slots ?tb) h xs"
    by blast
  moreover have "free_chain (slots tb) (next_free (slots (shared r) ! x)) xs"
    using assms tb(4) by (auto simp: chains_ok_def ch)
  ultimately show ?thesis by blast
qed

lemma alloc_scan_claim:
  assumes ok: "chains_ok (x # xs) rs ds r" and idle: "slot_state_of (slots (shared r) ! x) = Idle"
  shows "\<exists>r' h. alloc_scan r data ds = Some (r', Inr h) \<and> chains_ok xs (rev ds @ rs) [] r'
           \<and> claimed x data r r' h"
proof -
  let ?g = "slot_generation_of (slots (shared r) ! x) + 1"
  let ?r1 = "r\<lparr>local_free_head := next_free (slots (shared r) ! x)\<rparr>"
  obtain r2 h where c: "alloc_claim x data ?r1 = (r2, h)" by fastforce
  note c' = alloc_claim_eq [OF c]
  obtain tb where tb: "push_free_all ds (upd_slot x (\<lambda>s. slot_set_state Reserved (slot_reset ?g s)) (shared r)) = Some tb"
     "free_chain (slots tb) (remote_free_head tb) (rev ds @ rs)"
     "free_chain (slots tb) (next_free (slots (shared r) ! x)) xs"
     "same_core (upd_slot x (\<lambda>s. slot_set_state Reserved (slot_reset ?g s)) (shared r)) tb"
    using push_free_all_upd [OF ok] by blast
  have x: "local_free_head r = x" "x \<noteq> NULL_INDEX" "x < length (slots (shared r))" "x < length (locals r)"
    using ok by (auto simp: chains_ok_def)
  have run: "alloc_scan r data ds = Some (r2\<lparr>shared := tb\<rparr>, Inr h)"
    using x idle c c' tb(1) by (subst alloc_scan.simps) (simp add: Let_def)
  have len: "length (slots tb) = length (slots (shared r))"
    using same_core_length [OF tb(4)] by simp
  have "chains_ok xs (rev ds @ rs) [] (r2\<lparr>shared := tb\<rparr>)"
    using ok c' tb(2,3) len by (auto simp: chains_ok_def nth_list_update)
  moreover have "claimed x data r (r2\<lparr>shared := tb\<rparr>) h"
    using c' tb(4) by (simp add: claimed_def)
  ultimately show ?thesis using run by blast
qed

lemma alloc_scan_spec:
  assumes "chains_ok ls rs ds r"
  shows "\<exists>r' res. alloc_scan r data ds = Some (r', res) \<and> registry_inv r'
     \<and> (case res of
          Inl d \<Rightarrow> d = data \<and> (\<forall>i \<in> set ls. slot_state_of (slots (shared r) ! i) \<noteq> Idle)
                   \<and> same_core (shared r) (shared r') \<and> locals r' = locals r
                   \<and> active_count r' = active_count r \<and> local_free_head r' = NULL_INDEX
        | Inr h \<Rightarrow> h_index h \<in> set ls \<and> slot_state_of (slots (shared r) ! h_index h) = Idle
                   \<and> claimed (h_index h) data r r' h)"
  using assms
proof (induction ls arbitrary: r ds)
  case Nil
  then obtain tb where tb: "push_free_all ds (shared r) = Some tb"
     "free_chain (slots tb) (remote_free_head tb) (rev ds @ rs)" "same_core (shared r) tb"
    using push_free_all_chain [of "shared r" rs ds] by (auto simp: chains_ok_def)
  have null: "local_free_head r = NULL_INDEX" using Nil by (simp add: chains_ok_def)
  have run: "alloc_scan r data ds = Some (r\<lparr>shared := tb\<rparr>, Inl data)"
    using tb(1) null by (subst alloc_scan.simps) simp
  have "chains_ok [] (rev ds @ rs) [] (r\<lparr>shared := tb\<rparr>)"
    using Nil tb same_core_length [OF tb(3)] by (auto simp: chains_ok_def)
  then have "registry_inv (r\<lparr>shared := tb\<rparr>)" unfolding registry_inv_def by blast
  then show ?case using run tb null by auto
next
  case (Cons x xs)
  show ?case
  proof (cases "slot_state_of (slots (shared r) ! x) = Idle")
    case True
    obtain r' h where r': "alloc_scan r data ds = Some (r', Inr h)"
      "chains_ok xs (rev ds @ rs) [] r'" "claimed x data r r' h"
      using alloc_scan_claim [OF Cons.prems True] by blast
    then have "registry_inv r'" "h_index h = x" by (auto simp: registry_inv_def claimed_def)
    then show ?thesis using r' True by auto
  next
    case False
    let ?r1 = "r\<lparr>local_free_head := next_free (slots (shared r) ! x)\<rparr>"
    have x: "local_free_head r = x" "x \<noteq> NULL_INDEX" "x < length (slots (shared r))" "x < length (locals r)"
      using Cons.prems by (auto simp: chains_ok_def)
    have run: "alloc_scan r data ds = alloc_scan ?r1 data (ds @ [x])"
      using x False by (subst alloc_scan.simps) (simp add: Let_def)
    have "claimed i data ?r1 r' h = claimed i data r r' h" for i r' h
      by (simp add: claimed_def)
    then show ?thesis
      using Cons.IH [OF chains_ok_defer [OF Cons.prems]] False unfolding run
      by (fastforce split: sum.splits)
  qed
qed

lemma alloc_spec:
  assumes "registry_inv r"
  shows "\<exists>r' res. alloc data r = Some (r', res) \<and> registry_inv r'
     \<and> (case res of
          Inl d \<Rightarrow> d = data \<and> same_core (shared r) (shared r') \<and> locals r' = locals r
                   \<and> active_count r' = active_count r
                   \<and> (local_free_head r = NULL_INDEX \<longrightarrow>
                       (\<forall>i < length (locals r). \<not> ls_active (locals r ! i) \<longrightarrow>
                          slot_state_of (slots (shared r) ! i) \<noteq> Idle))
        | Inr h \<Rightarrow> h_index h < length (locals r) \<and> \<not> ls_active (locals r ! h_index h)
                   \<and> slot_state_of (slots (shared r) ! h_index h) = Idle
                   \<and> claimed (h_index h) data r r' h)"
proof -
  obtain ls rs where ok: "chains_ok ls rs [] r" using assms by (auto simp: registry_inv_def)
  have member: "i < length (locals r) \<and> \<not> ls_active (locals r ! i)" if "i \<in> set ls \<union> set rs" for i
    using that ok free_chain_bound by (fastforce simp: chains_ok_def)
  show ?thesis
  proof (cases "local_free_head r = NULL_INDEX")
    case True
    let ?r = "r\<lparr>shared := (shared r)\<lparr>remote_free_head := NULL_INDEX\<rparr>,
                 local_free_head := remote_free_head (shared r)\<rparr>"
    have ok': "chains_ok rs [] [] ?r" using ok True by (auto simp: chains_ok_def)
    have eq: "claimed i data ?r r' h = claimed i data r r' h" for i r' h
      by (simp add: claimed_def same_core_def upd_slot_def)
    have sc: "same_core (shared ?r) tb = same_core (shared r) tb" for tb
      by (simp add: same_core_def)
    have ls: "ls = []" using ok True by (simp add: chains_ok_def)
    have inact: "i \<in> set rs" if "i < length (locals r)" "\<not> ls_active (locals r ! i)" for i
      using that ok ls by (auto simp: chains_ok_def)
    have run: "alloc data r = alloc_scan ?r data []" using True by (simp add: alloc_def pop_all_def)
    show ?thesis
      using alloc_scan_spec [OF ok', of data] member inact unfolding run eq sc
      by (fastforce split: sum.splits)
  next
    case False
    then have run: "alloc data r = alloc_scan r data []" by (simp add: alloc_def)
    show ?thesis
      using alloc_scan_spec [OF ok, of data] member False unfolding run
      by (fastforce split: sum.splits)
  qed
qed

subsection \<open>Release\<close>

lemma release_chain:
  assumes ok: "chains_ok ls rs [] r" and i: "i < length (locals r)" "ls_active (locals r ! i)"
    and f: "\<And>s. next_free (f s) = next_free s" and l: "\<not> ls_active l"
    and tb: "length (slots tb) = length (slots (shared r))"
      "slots tb = (slots (shared r))[i := f (slots (shared r) ! i)]"
      "remote_free_head tb = remote_free_head (shared r)"
  shows "\<exists>tb'. push_free i tb = Some tb' \<and> same_core tb tb'
    \<and> chains_ok ls (i # rs) [] (r\<lparr>locals := (locals r)[i := l], shared := tb', active_count := active_count r - 1\<rparr>)"
proof -
  have notin: "i \<notin> set ls" "i \<notin> set rs" using ok i by (auto simp: chains_ok_def)
  have ch: "free_chain (slots tb) h xs = free_chain (slots (shared r)) h xs" for h xs
    unfolding tb(2) by (simp add: f)
  have pre: "free_chain (slots tb) (remote_free_head tb) rs" "i < length (slots tb)" "i \<notin> set rs"
    "length (slots tb) \<le> NULL_INDEX"
    using ok notin i tb(1,3) by (auto simp: chains_ok_def ch)
  obtain tb' where tb': "push_free i tb = Some tb'"
    "free_chain (slots tb') (remote_free_head tb') (i # rs)" "same_core tb tb'"
    "\<forall>h xs. i \<notin> set xs \<longrightarrow> free_chain (slots tb') h xs = free_chain (slots tb) h xs"
    using push_free_chain [OF pre] by blast
  have "active_count r > 0"
  proof -
    have "length (ls @ rs) = card (set (ls @ rs))" using ok distinct_card [of "ls @ rs"] by (simp add: chains_ok_def)
    also have "\<dots> < card {..<length (locals r)}"
    proof (rule psubset_card_mono)
      show "set (ls @ rs) \<subset> {..<length (locals r)}"
        using ok i(1) notin free_chain_bound by (fastforce simp: chains_ok_def)
    qed simp
    finally show ?thesis using ok by (simp add: chains_ok_def)
  qed
  then have "chains_ok ls (i # rs) [] (r\<lparr>locals := (locals r)[i := l], shared := tb', active_count := active_count r - 1\<rparr>)"
    using ok tb' notin i same_core_length [OF tb'(3)] tb(1)
    by (auto simp: chains_ok_def nth_list_update ch l)
  then show ?thesis using tb' by blast
qed

text \<open>The private half of a slot after its operation has left.\<close>

definition released_local ::
  "('op, 'pay, 'det, 'side::default, 'plat::default) local_slot \<Rightarrow> ('op, 'pay, 'det, 'side, 'plat) local_slot" where
  "released_local l = l\<lparr>ls_active := False, ls_op := None, ls_platform := default, ls_storage := storage_new\<rparr>"

lemma remove_at_index_spec:
  assumes inv: "registry_inv r" and i: "i < length (locals r)" "ls_active (locals r ! i)"
  shows "\<exists>r'. remove_at_index i r = Some (r', ls_platform (locals r ! i)) \<and> registry_inv r'
     \<and> locals r' = (locals r)[i := released_local (locals r ! i)]
     \<and> same_core (upd_slot i slot_free (shared r)) (shared r')"
proof -
  obtain ls rs where ok: "chains_ok ls rs [] r" using inv by (auto simp: registry_inv_def)
  let ?tb = "upd_slot i slot_free (shared r)"
  let ?l = "released_local (locals r ! i)"
  obtain tb' where tb': "push_free i ?tb = Some tb'" "same_core ?tb tb'"
    "chains_ok ls (i # rs) [] (r\<lparr>locals := (locals r)[i := ?l], shared := tb', active_count := active_count r - 1\<rparr>)"
    using release_chain [OF ok i, of slot_free ?l ?tb] by (auto simp: slots_upd_slot released_local_def)
  have "i < length (slots (shared r))" using ok i by (simp add: chains_ok_def)
  then have "remove_at_index i r =
      Some (r\<lparr>locals := (locals r)[i := ?l], shared := tb', active_count := active_count r - 1\<rparr>,
            ls_platform (locals r ! i))"
    using i tb'(1)
    by (simp add: remove_at_index_def Let_def upd_local_def upd_shared_def storage_reset_def released_local_def)
  then show ?thesis using tb' by (auto simp: registry_inv_def)
qed

text \<open>A token names the operation that occupies its slot.\<close>

definition token_live :: "op_token \<Rightarrow> ('op, 'pay, 'det, 'side, 'plat) op_registry \<Rightarrow> bool" where
  "token_live t r \<longleftrightarrow> unat (op_index t) < length (locals r)
     \<and> ls_active (locals r ! unat (op_index t))
     \<and> ls_generation (locals r ! unat (op_index t)) = op_generation t"

lemma remove_live:
  assumes "registry_inv r" "token_live t r"
  shows "\<exists>r'. remove t r = Some (r', Some (ls_platform (locals r ! unat (op_index t)))) \<and> registry_inv r'
     \<and> locals r' = (locals r)[unat (op_index t) := released_local (locals r ! unat (op_index t))]
     \<and> same_core (upd_slot (unat (op_index t)) slot_free (shared r)) (shared r')"
  using remove_at_index_spec [OF assms(1), of "unat (op_index t)"] assms(2)
  by (auto simp: remove_def token_live_def Let_def)

lemma remove_not_live: "\<not> token_live t r \<Longrightarrow> remove t r = Some (r, None)"
  by (auto simp: remove_def token_live_def Let_def)

lemma recycle_live:
  assumes inv: "registry_inv r" and live: "token_live t r"
  shows "\<exists>r'. recycle t g r = Some (r', True) \<and> registry_inv r'
     \<and> locals r' = (locals r)[unat (op_index t) := released_local (locals r ! unat (op_index t))]
     \<and> length (slots (shared r')) = length (slots (shared r))
     \<and> slot_state_of (slots (shared r') ! unat (op_index t)) = Idle
     \<and> slot_generation_of (slots (shared r') ! unat (op_index t)) = g"
proof -
  let ?i = "unat (op_index t)"
  obtain ls rs where ok: "chains_ok ls rs [] r" using inv by (auto simp: registry_inv_def)
  have i: "?i < length (locals r)" "ls_active (locals r ! ?i)" "?i < length (slots (shared r))"
    using live ok by (auto simp: token_live_def chains_ok_def)
  let ?tb0 = "if slot_state_of (slots (shared r) ! ?i) = InFlightReady
              then clear_ready_completion (shared r) else shared r"
  let ?tb = "upd_slot ?i (slot_reset g) ?tb0"
  let ?l = "released_local (locals r ! ?i)"
  have tb: "slots ?tb = (slots (shared r))[?i := slot_reset g (slots (shared r) ! ?i)]"
    "remote_free_head ?tb = remote_free_head (shared r)"
    by (simp_all add: slots_upd_slot clear_ready_completion_def)
  obtain tb' where tb': "push_free ?i ?tb = Some tb'" "same_core ?tb tb'"
    "chains_ok ls (?i # rs) [] (r\<lparr>locals := (locals r)[?i := ?l], shared := tb', active_count := active_count r - 1\<rparr>)"
    using release_chain [OF ok i(1,2), of "slot_reset g" ?l ?tb] tb
    by (auto simp: released_local_def)
  have "recycle_at_index ?i g r =
      Some (r\<lparr>locals := (locals r)[?i := ?l], shared := tb', active_count := active_count r - 1\<rparr>)"
    using i tb'(1) unfolding recycle_at_index_def
    by (cases "slot_state_of (slots (shared r) ! ?i) = InFlightReady")
      (simp_all add: Let_def upd_local_def upd_shared_def storage_reset_def released_local_def)
  moreover have "core_state (slots tb' ! ?i) = core_state (slot_reset g (slots (shared r) ! ?i))"
    "length (slots tb') = length (slots (shared r))"
    using same_core_fields(1) [OF tb'(2), of ?i] same_core_length [OF tb'(2)] i(3) unfolding tb(1)
    by auto
  moreover have "registry_inv (r\<lparr>locals := (locals r)[?i := ?l], shared := tb', active_count := active_count r - 1\<rparr>)"
    using tb'(3) unfolding registry_inv_def by blast
  ultimately show ?thesis
    using i live by (simp add: recycle_def token_live_def Let_def slot_reset_def)
qed

lemma registry_new_ok:
  assumes "capacity \<le> NULL_INDEX"
  shows "\<exists>r :: ('op, 'pay, 'det, 'side::default, 'plat::default) op_registry.
     registry_new capacity = Some r \<and> registry_inv r \<and> length (locals r) = capacity
     \<and> (\<forall>i < capacity. core_state (slots (shared r) ! i) = core_state (slot_data_new :: ('pay, 'det) slot_data)
                        \<and> completion_data (slots (shared r) ! i) = DataEmpty
                        \<and> locals r ! i = local_slot_new)
     \<and> local_free_head r = NULL_INDEX"
proof -
  let ?tb = "slot_table_new capacity :: ('pay, 'det) slot_table"
  have pre: "free_chain (slots ?tb) (remote_free_head ?tb) []"
    "\<forall>i \<in> set (rev [0..<capacity]). i < length (slots ?tb)"
    "distinct (rev [0..<capacity])" "set (rev [0..<capacity]) \<inter> set [] = {}"
    "length (slots ?tb) \<le> NULL_INDEX"
    using assms by (simp_all add: slot_table_new_def)
  obtain tb where tb: "push_free_all (rev [0..<capacity]) ?tb = Some tb"
    "free_chain (slots tb) (remote_free_head tb) [0..<capacity]" "same_core ?tb tb"
    using push_free_all_chain [OF pre] by auto
  let ?r = "\<lparr>shared = tb, locals = replicate capacity local_slot_new,
     local_free_head = NULL_INDEX, active_count = 0\<rparr> :: ('op, 'pay, 'det, 'side, 'plat) op_registry"
  have "length (slots tb) = capacity" using tb(3) by (simp add: same_core_def slot_table_new_def)
  then have "chains_ok [] [0..<capacity] [] ?r"
    using tb assms by (auto simp: chains_ok_def local_slot_new_def)
  then have "registry_inv ?r" unfolding registry_inv_def by blast
  moreover have "core_state (slots tb ! i) = core_state (slot_data_new :: ('pay, 'det) slot_data)"
    "completion_data (slots tb ! i) = DataEmpty" if "i < capacity" for i
    using same_core_fields(1,2) [OF tb(3), of i] that
    by (simp_all add: slot_table_new_def slot_data_new_def)
  ultimately show ?thesis using tb(1) by (simp add: registry_new_def)
qed

subsection \<open>The registry is a handle allocator\<close>

text \<open>The driver turns the handle of a fresh slot into an operation token before it hands it
  out.\<close>

definition registry_acquire ::
  "'plat \<Rightarrow> ('op, 'pay, 'det, 'side::default, 'plat) op_registry
     \<Rightarrow> (('op, 'pay, 'det, 'side, 'plat) op_registry \<times> op_token option) option" where
  "registry_acquire data r =
     (case alloc data r of
        None \<Rightarrow> None
      | Some (r', Inl _) \<Rightarrow> Some (r', None)
      | Some (r', Inr h) \<Rightarrow>
          Some (r', Some \<lparr>op_index = of_nat (h_index h), op_generation = h_generation h\<rparr>))"

definition registry_release ::
  "op_token \<Rightarrow> ('op, 'pay, 'det, 'side::default, 'plat::default) op_registry
     \<Rightarrow> (('op, 'pay, 'det, 'side, 'plat) op_registry \<times> bool) option" where
  "registry_release t r =
     (case remove t r of None \<Rightarrow> None | Some (r', d) \<Rightarrow> Some (r', d \<noteq> None))"

lemma inv_index_word:
  assumes "registry_inv r" "i < length (locals r)"
  shows "unat (of_nat i :: usize) = i"
  using assms by (auto simp: registry_inv_def chains_ok_def NULL_INDEX_def unat_of_nat_mod)

lemma live_after_claim:
  assumes inv: "registry_inv r" and i: "h_index h < length (locals r)" "\<not> ls_active (locals r ! h_index h)"
    and cl: "claimed (h_index h) data r r' h"
  shows "{t. token_live t r'} = insert \<lparr>op_index = of_nat (h_index h), op_generation = h_generation h\<rparr> {t. token_live t r}"
proof (rule set_eqI)
  fix t :: op_token
  let ?i = "h_index h" and ?t = "\<lparr>op_index = of_nat (h_index h), op_generation = h_generation h\<rparr>"
  have idx: "unat (of_nat ?i :: usize) = ?i" by (rule inv_index_word [OF inv i(1)])
  have locs: "locals r' = (locals r)[?i := (locals r ! ?i)\<lparr>ls_active := True, ls_generation := h_generation h,
      ls_op := None, ls_platform := data, ls_storage := storage_new\<rparr>]"
    using cl by (simp add: claimed_def)
  show "t \<in> {t. token_live t r'} \<longleftrightarrow> t \<in> insert ?t {t. token_live t r}"
  proof (cases "unat (op_index t) = ?i")
    case True
    then have "op_index t = of_nat ?i" by (simp add: word_unat_eq_iff idx)
    then have "t = ?t \<longleftrightarrow> op_generation t = h_generation h" by auto
    then show ?thesis using True i locs by (auto simp: token_live_def)
  next
    case False
    then have "t \<noteq> ?t" using idx by auto
    then show ?thesis using False locs by (auto simp: token_live_def nth_list_update)
  qed
qed

lemma live_after_remove:
  assumes "token_live t r"
    "locals r' = (locals r)[unat (op_index t) := released_local (locals r ! unat (op_index t))]"
  shows "{t. token_live t r'} = {t. token_live t r} - {t}"
proof (rule set_eqI)
  fix u :: op_token
  have "u = t" if "token_live u r" "unat (op_index u) = unat (op_index t)"
  proof (rule op_token.equality)
    show "op_index u = op_index t" using that(2) by (simp only: word_unat_eq_iff)
    show "op_generation u = op_generation t" using that assms(1) by (simp add: token_live_def)
  qed simp
  then show "u \<in> {t. token_live t r'} \<longleftrightarrow> u \<in> {t. token_live t r} - {t}"
    using assms
    by (cases "unat (op_index u) = unat (op_index t)") (auto simp: token_live_def released_local_def)
qed

lemma registry_acquire_law:
  assumes "registry_inv r"
  shows "\<exists>r' res. registry_acquire data r = Some (r', res) \<and> registry_inv r'
     \<and> (case res of None \<Rightarrow> {t. token_live t r'} = {t. token_live t r}
        | Some h \<Rightarrow> h \<notin> {t. token_live t r} \<and> {t. token_live t r'} = insert h {t. token_live t r})"
proof -
  obtain r' res where a: "alloc data r = Some (r', res)" "registry_inv r'"
    and post: "case res of
          Inl d \<Rightarrow> d = data \<and> same_core (shared r) (shared r') \<and> locals r' = locals r
                   \<and> active_count r' = active_count r
                   \<and> (local_free_head r = NULL_INDEX \<longrightarrow>
                       (\<forall>i < length (locals r). \<not> ls_active (locals r ! i) \<longrightarrow>
                          slot_state_of (slots (shared r) ! i) \<noteq> Idle))
        | Inr h \<Rightarrow> h_index h < length (locals r) \<and> \<not> ls_active (locals r ! h_index h)
                   \<and> slot_state_of (slots (shared r) ! h_index h) = Idle
                   \<and> claimed (h_index h) data r r' h"
    using alloc_spec [OF assms, of data] by blast
  show ?thesis
  proof (cases res)
    case (Inl d)
    then show ?thesis using a post by (auto simp: registry_acquire_def token_live_def)
  next
    case (Inr h)
    have "\<not> token_live \<lparr>op_index = of_nat (h_index h), op_generation = h_generation h\<rparr> r"
      using post Inr inv_index_word [OF assms] by (auto simp: token_live_def)
    then show ?thesis
      using a post Inr live_after_claim [OF assms] by (auto simp: registry_acquire_def)
  qed
qed

lemma registry_release_law:
  assumes "registry_inv r"
  shows "\<exists>r'. registry_release t r = Some (r', t \<in> {t. token_live t r}) \<and> registry_inv r'
     \<and> {t. token_live t r'} = {t. token_live t r} - {t}"
proof (cases "token_live t r")
  case True
  obtain r' where r': "remove t r = Some (r', Some (ls_platform (locals r ! unat (op_index t))))"
    "registry_inv r'"
    "locals r' = (locals r)[unat (op_index t) := released_local (locals r ! unat (op_index t))]"
    using remove_live [OF assms True] by blast
  show ?thesis using r' True live_after_remove [OF True r'(3)] by (simp add: registry_release_def)
next
  case False
  then show ?thesis using assms by (auto simp: registry_release_def remove_not_live)
qed

interpretation reg: handle_allocator registry_inv "\<lambda>r. {t. token_live t r}" "registry_acquire data"
    registry_release
  for data :: "'plat::default"
  by unfold_locales (rule registry_acquire_law registry_release_law, assumption)+

text \<open>The version of a slot is its generation.\<close>

definition slot_versions :: "('op, 'pay, 'det, 'side, 'plat) op_registry \<Rightarrow> nat \<Rightarrow> u32" where
  "slot_versions r i = (if i < length (slots (shared r)) then slot_generation_of (slots (shared r) ! i) else 0)"

lemma slot_versions_same_core: "same_core tb (shared r) \<Longrightarrow> slot_versions r = slot_versions (r\<lparr>shared := tb\<rparr>)"
  using same_core_fields(1) same_core_length by (fastforce simp: slot_versions_def fun_eq_iff)

lemma registry_acquire_versions:
  assumes inv: "registry_inv r" and a: "registry_acquire data r = Some (r', res)"
  shows "case res of None \<Rightarrow> slot_versions r' = slot_versions r
     | Some h \<Rightarrow> op_generation h = slot_versions r (unat (op_index h)) + 1
          \<and> slot_versions r' = (slot_versions r)(unat (op_index h) := op_generation h)"
proof -
  obtain hr where hr: "alloc data r = Some (r', hr)" using a by (auto simp: registry_acquire_def split: option.splits prod.splits sum.splits)
  show ?thesis
  proof (cases hr)
    case (Inl d)
    then have "same_core (shared r) (shared r')" using alloc_spec [OF inv, of data] hr by auto
    then show ?thesis using slot_versions_same_core [of "shared r" r'] a hr Inl
      by (auto simp: registry_acquire_def slot_versions_def fun_eq_iff)
  next
    case (Inr h)
    have h: "h_index h < length (locals r)" "claimed (h_index h) data r r' h" using alloc_spec [OF inv, of data] hr Inr by auto
    have len: "length (slots (shared r)) = length (locals r)" using inv by (auto simp: registry_inv_def chains_ok_def)
    let ?tb = "upd_slot (h_index h) (\<lambda>s. slot_set_state Reserved (slot_reset (h_generation h) s)) (shared r)"
    have sc: "same_core ?tb (shared r')" and gen: "h_generation h = slot_generation_of (slots (shared r) ! h_index h) + 1"
      using h(2) unfolding claimed_def by (auto, metis op_handle.select_convs(2))
    have "res = Some \<lparr>op_index = of_nat (h_index h), op_generation = h_generation h\<rparr>" using a hr Inr by (simp add: registry_acquire_def)
    then show ?thesis
      using slot_versions_same_core [OF sc] gen h(1) len inv_index_word [OF inv h(1)]
      by (auto simp: slot_versions_def fun_eq_iff nth_list_update)
  qed
qed

lemma registry_release_versions:
  assumes inv: "registry_inv r" and a: "registry_release t r = Some (r', b)"
  shows "slot_versions r' = slot_versions r"
proof (cases "token_live t r")
  case True
  let ?i = "unat (op_index t)"
  obtain r1 where r1: "remove t r = Some (r1, Some (ls_platform (locals r ! ?i)))"
    "same_core (upd_slot ?i slot_free (shared r)) (shared r1)"
    using remove_live [OF inv True] by blast
  have i: "?i < length (slots (shared r))" using True inv by (auto simp: token_live_def registry_inv_def chains_ok_def)
  have "r' = r1" using a r1(1) by (simp add: registry_release_def)
  then show ?thesis using slot_versions_same_core [OF r1(2)] i
    by (auto simp: slot_versions_def fun_eq_iff nth_list_update slot_free_state)
next
  case False
  then show ?thesis using a by (simp add: registry_release_def remove_not_live)
qed

interpretation reg_ver: versioned_allocator registry_inv "\<lambda>r. {t. token_live t r}" "registry_acquire data"
    registry_release slot_versions "\<lambda>t. unat (op_index t)" op_generation
  for data :: "'plat::default"
  by unfold_locales (rule registry_acquire_versions registry_release_versions, assumption, assumption)+

subsection \<open>Properties\<close>

text \<open>Allocation in a well-formed registry always returns and keeps it well-formed. On success
  the slot was free and idle, the handle carries the slot's next generation, the slot becomes
  reserved under that generation, the operation counts as active, and no other slot or private
  half changes. On failure nothing but the free chains changes.\<close>

theorem alloc_correct:
  assumes "registry_inv r"
  shows "\<exists>r' res. alloc data r = Some (r', res) \<and> registry_inv r'
     \<and> (case res of
          Inl d \<Rightarrow> d = data \<and> same_core (shared r) (shared r') \<and> locals r' = locals r
                   \<and> active_count r' = active_count r
        | Inr h \<Rightarrow> h_index h < length (locals r) \<and> \<not> ls_active (locals r ! h_index h)
            \<and> slot_state_of (slots (shared r) ! h_index h) = Idle
            \<and> h_generation h = slot_generation_of (slots (shared r) ! h_index h) + 1
            \<and> is_current_active \<lparr>op_index = of_nat (h_index h), op_generation = h_generation h\<rparr> r'
            \<and> slot_state_of (slots (shared r') ! h_index h) = Reserved
            \<and> ls_platform (locals r' ! h_index h) = data \<and> active_count r' = active_count r + 1
            \<and> (\<forall>j < length (locals r). j \<noteq> h_index h \<longrightarrow> locals r' ! j = locals r ! j
                  \<and> core_state (slots (shared r') ! j) = core_state (slots (shared r) ! j)
                  \<and> completion_data (slots (shared r') ! j) = completion_data (slots (shared r) ! j)))"
proof -
  have len: "length (slots (shared r)) = length (locals r)"
    using assms by (auto simp: registry_inv_def chains_ok_def)
  obtain r' res where a: "alloc data r = Some (r', res)" "registry_inv r'"
    using alloc_spec [OF assms] by blast
  show ?thesis
  proof (cases res)
    case (Inl d)
    then show ?thesis using a alloc_spec [OF assms, of data] by auto
  next
    case (Inr h)
    have h: "h_index h < length (locals r)" "\<not> ls_active (locals r ! h_index h)"
      "slot_state_of (slots (shared r) ! h_index h) = Idle" "claimed (h_index h) data r r' h"
      using a alloc_spec [OF assms, of data] Inr by auto
    let ?tb = "upd_slot (h_index h) (\<lambda>s. slot_set_state Reserved (slot_reset (h_generation h) s)) (shared r)"
    have sc: "same_core ?tb (shared r')" and gen: "h_generation h = slot_generation_of (slots (shared r) ! h_index h) + 1"
      using h(4) unfolding claimed_def by (auto, metis op_handle.select_convs(2))
    have core: "core_state (slots (shared r') ! j) = core_state (slots ?tb ! j)"
      "completion_data (slots (shared r') ! j) = completion_data (slots ?tb ! j)" if "j < length (locals r)" for j
      using same_core_fields(1,2) [OF sc, of j] that len by simp_all
    have cur: "is_current_active \<lparr>op_index = of_nat (h_index h), op_generation = h_generation h\<rparr> r'"
      using core(1) [OF h(1)] h(1) len same_core_length [OF sc] inv_index_word [OF assms h(1)]
      by (simp add: is_current_active_def Let_def)
    have "locals r' = (locals r)[h_index h := (locals r ! h_index h)\<lparr>ls_active := True,
        ls_generation := h_generation h, ls_op := None, ls_platform := data, ls_storage := storage_new\<rparr>]"
      "active_count r' = active_count r + 1"
      using h(4) by (simp_all add: claimed_def)
    then show ?thesis
      using a Inr h(1-3) gen cur core len by (simp add: nth_list_update)
  qed
qed

text \<open>Allocation fails exactly when the chain it scans holds no idle slot: the local chain when
  that is not empty, the remote chain otherwise. Idle slots of the remote chain are not considered
  while the local chain is non-empty.\<close>

theorem alloc_fails_iff:
  assumes "chains_ok ls rs [] r"
  shows "(\<exists>r' d. alloc data r = Some (r', Inl d)) \<longleftrightarrow>
     (\<forall>i \<in> set (if ls = [] then rs else ls). slot_state_of (slots (shared r) ! i) \<noteq> Idle)"
proof (cases "ls = []")
  case True
  let ?r = "r\<lparr>shared := (shared r)\<lparr>remote_free_head := NULL_INDEX\<rparr>, local_free_head := remote_free_head (shared r)\<rparr>"
  have ok: "chains_ok rs [] [] ?r" using assms True by (auto simp: chains_ok_def)
  have run: "alloc data r = alloc_scan ?r data []" using assms True by (simp add: alloc_def pop_all_def chains_ok_def)
  show ?thesis using alloc_scan_spec [OF ok, of data] True unfolding run by (fastforce split: sum.splits)
next
  case False
  then have "local_free_head r \<noteq> NULL_INDEX" using assms by (cases ls) (auto simp: chains_ok_def)
  then have run: "alloc data r = alloc_scan r data []" by (simp add: alloc_def)
  show ?thesis using alloc_scan_spec [OF assms, of data] False unfolding run by (fastforce split: sum.splits)
qed

text \<open>Removing an operation by its token returns the platform data exactly once: a live token
  yields the data of its slot and dies, any token that is not live yields nothing and changes
  nothing, so a second removal finds nothing. The slot goes back to the free list with its
  generation kept and, unless a completion is still to be taken, becomes idle.\<close>

theorem remove_exactly_once:
  assumes "registry_inv r"
  shows "\<exists>r' d. remove t r = Some (r', d) \<and> registry_inv r' \<and> remove t r' = Some (r', None)
     \<and> (if token_live t r
        then d = Some (ls_platform (locals r ! unat (op_index t)))
             \<and> slot_state_of (slots (shared r') ! unat (op_index t)) \<in> {Idle, InFlightReady}
             \<and> slot_generation_of (slots (shared r') ! unat (op_index t))
                 = slot_generation_of (slots (shared r) ! unat (op_index t))
        else d = None \<and> r' = r)"
proof (cases "token_live t r")
  case True
  let ?i = "unat (op_index t)"
  obtain r' where r': "remove t r = Some (r', Some (ls_platform (locals r ! ?i)))" "registry_inv r'"
    "locals r' = (locals r)[?i := released_local (locals r ! ?i)]"
    "same_core (upd_slot ?i slot_free (shared r)) (shared r')"
    using remove_live [OF assms True] by blast
  have i: "?i < length (slots (shared r))"
    using True assms by (auto simp: token_live_def registry_inv_def chains_ok_def)
  have "\<not> token_live t r'" using live_after_remove [OF True r'(3)] by auto
  then have again: "remove t r' = Some (r', None)" by (rule remove_not_live)
  have "core_state (slots (shared r') ! ?i) = core_state (slot_free (slots (shared r) ! ?i))"
    using same_core_fields(1) [OF r'(4), of ?i] i by simp
  then have "slot_state_of (slots (shared r') ! ?i) \<in> {Idle, InFlightReady}"
    "slot_generation_of (slots (shared r') ! ?i) = slot_generation_of (slots (shared r) ! ?i)"
    by (auto simp: slot_free_state)
  then show ?thesis using r'(1,2) again True by simp
next
  case False
  then show ?thesis using assms remove_not_live [OF False] by simp
qed

text \<open>C10. From a new registry on, whatever sequence of allocations and removals a driver performs,
  every call returns, and a token handed out never equals a token \<open>t\<close> that was handed out before
  and not yet removed; nor one that was removed, before the 32-bit generations have gone round.\<close>

theorem tokens_never_aliased:
  fixes data :: "'plat::default"
  assumes "capacity \<le> NULL_INDEX"
    and "(registry_new capacity :: ('op, 'pay, 'det, 'side::default, 'plat) op_registry option) = Some r0"
    and "run_cmds (registry_acquire data) registry_release cs r0 = Some r1"
    and "registry_acquire data r1 = Some (r2, Some t)"
    and "Release t \<notin> set cs' \<or> length cs' < 2 ^ 32 - 1"
    and "run_cmds (registry_acquire data) registry_release cs' r2 = Some r3"
    and "registry_acquire data r3 = Some (r4, Some u)"
  shows "(\<exists>s. run_cmds (registry_acquire data) registry_release cmds r0 = Some s) \<and> u \<noteq> t"
proof -
  have inv: "registry_inv r0"
    using registry_new_ok [OF assms(1), where 'op = 'op and 'pay = 'pay and 'det = 'det and 'side = 'side
        and 'plat = 'plat] assms(2) by auto
  from inv have "registry_inv r1" using reg.run_never_stuck [of r0 data cs] assms(3) by auto
  then have r2: "registry_inv r2" "t \<in> {t. token_live t r2}" "slot_versions r2 (unat (op_index t)) = op_generation t"
    using reg.acquired_fresh(2,3) [OF _ assms(4)] reg_ver.acquire_ver [OF _ assms(4)] by auto
  have "u \<noteq> t" using assms(5)
  proof
    assume "Release t \<notin> set cs'"
    then show ?thesis using reg.no_double_handout [OF r2(1,2) _ assms(6,7)] by blast
  next
    assume "length cs' < 2 ^ 32 - 1"
    then show ?thesis using reg_ver.never_reused [OF r2(1,3) _ assms(6,7)] by blast
  qed
  then show ?thesis using reg.run_never_stuck [OF inv, of data cmds] by auto
qed

text \<open>A small registry for the concrete instances: slot 0 is in use, slot 1 is free but still holds
  an untaken completion and forms the local chain, slot 2 is idle and forms the remote chain.\<close>

definition sample_slot :: "slot_state \<Rightarrow> (unit, unit) slot_data" where
  "sample_slot st = slot_set_state st (slot_reset 4 slot_data_new)"

definition sample_registry :: "(unit, unit, unit, unit, unit) op_registry" where
  "sample_registry = \<lparr>shared = (slot_table_new 3)\<lparr>slots := [sample_slot Reserved, sample_slot InFlightReady,
       sample_slot Idle], remote_free_head := 2\<rparr>,
     locals = [local_slot_new\<lparr>ls_active := True, ls_generation := 4\<rparr>, local_slot_new, local_slot_new],
     local_free_head = 1, active_count = 1\<rparr>"

lemma sample_chains: "chains_ok [1] [2] [] sample_registry"
  by (auto simp: chains_ok_def sample_registry_def sample_slot_def slot_table_new_def slot_reset_def
      slot_set_state_def slot_data_new_def local_slot_new_def NULL_INDEX_def less_Suc_eq numeral_3_eq_3)

lemma sample_inv: "registry_inv sample_registry"
  using sample_chains unfolding registry_inv_def by blast

lemma sample_live: "token_live \<lparr>op_index = 0, op_generation = 4\<rparr> sample_registry"
  by (simp add: token_live_def sample_registry_def)

lemma alloc_correct_witness:
  "\<exists>r' res. alloc () sample_registry = Some (r', res) \<and> registry_inv r'"
  using alloc_correct [OF sample_inv, of "()"] by blast

text \<open>The concrete instance of a spurious failure: slot 2 is idle and free, yet allocation fails.\<close>

lemma alloc_fails_iff_witness:
  "(\<exists>r' d. alloc () sample_registry = Some (r', Inl d))
   \<and> \<not> ls_active (locals sample_registry ! 2) \<and> slot_state_of (slots (shared sample_registry) ! 2) = Idle"
  using alloc_fails_iff [OF sample_chains, of "()"]
  by (simp add: sample_registry_def sample_slot_def local_slot_new_def)

lemma remove_exactly_once_witness:
  "\<exists>r' d. remove \<lparr>op_index = 0, op_generation = 4\<rparr> sample_registry = Some (r', d) \<and> d = Some ()"
  using remove_exactly_once [OF sample_inv, of "\<lparr>op_index = 0, op_generation = 4\<rparr>"] sample_live by auto

definition small_registry :: "(unit, unit, unit, unit, unit) op_registry" where
  "small_registry = the (registry_new 2)"

definition small_registry1 :: "(unit, unit, unit, unit, unit) op_registry" where
  "small_registry1 = fst (the (registry_acquire () small_registry))"

lemma NULL_INDEX_numeral: "NULL_INDEX = 18446744073709551615"
  by (simp add: NULL_INDEX_def)

lemmas small_defs = registry_new_def push_free_def slot_table_new_def upd_slot_def NULL_INDEX_numeral
  slot_data_new_def upt_rec numeral_2_eq_2 registry_acquire_def alloc_def pop_all_def alloc_scan.simps
  alloc_claim_def Let_def upd_shared_def upd_local_def slot_set_state_def slot_reset_def with_state_def

lemma small_registry_new: "registry_new 2 = Some small_registry"
  by (simp add: small_registry_def small_defs)

lemma small_registry_acquire:
  "registry_acquire () small_registry = Some (small_registry1, Some \<lparr>op_index = 0, op_generation = 1\<rparr>)"
  "\<exists>r. registry_acquire () small_registry1 = Some (r, Some \<lparr>op_index = 1, op_generation = 1\<rparr>)"
  unfolding small_registry1_def by (simp_all add: small_registry_def small_defs)

lemma tokens_never_aliased_witness:
  "(\<exists>s. run_cmds (registry_acquire ()) registry_release [Acquire, Acquire] small_registry = Some s)
   \<and> \<lparr>op_index = 1, op_generation = 1\<rparr> \<noteq> \<lparr>op_index = 0, op_generation = 1\<rparr>"
proof -
  obtain r where r: "registry_acquire () small_registry1 = Some (r, Some \<lparr>op_index = 1, op_generation = 1\<rparr>)"
    using small_registry_acquire(2) by blast
  show ?thesis
    by (rule tokens_never_aliased [where cs = "[]" and cs' = "[]", OF _ small_registry_new _
          small_registry_acquire(1) _ _ r]) (simp_all add: NULL_INDEX_numeral)
qed

end
