(* ===== verification/Completion_Table.thy ===== *)
theory Completion_Table
  imports Op_Registry "HOL-Library.Multiset"
begin

text \<open>
  The completion table (\<^verbatim>\<open>driver/completion/table.rs\<close>, \<^verbatim>\<open>driver/completion/packet.rs\<close>):
  the operations through which the driver thread publishes the result of an operation in its slot
  and the future that owns the token takes it out.

  Each definition is one uninterrupted call. A compare-exchange then succeeds at once, and a loop
  that waits for another thread to leave \<open>Finalizing\<close> does not return: that branch is
  \<open>None\<close>. The lemmas show that no call leaves a slot in \<open>Finalizing\<close>, so every call
  returns.
\<close>

subsection \<open>Packets and results\<close>

record ('pay, 'det) user_completion =
  uc_payload :: 'pay
  uc_detail :: "'det option"
  uc_cleanup :: cleanup_guard

datatype ('pay, 'det) completion_input = InputUser "('pay, 'det) user_completion"

record ('pay, 'det) completion_packet =
  packet_event :: user_completion_event
  packet_input :: "('pay, 'det) completion_input"

record ('pay, 'det) completion_record =
  rec_event :: user_completion_event
  rec_payload :: 'pay
  rec_detail :: "'det option"
  rec_cleanup :: cleanup_guard

datatype ('pay, 'det) record_completion_result =
    RecResRecorded record_completion_outcome
  | RecResRejected record_completion_outcome "('pay, 'det) completion_packet"

datatype ('pay, 'det) poll_record_result =
    PollReady "('pay, 'det) completion_record"
  | PollUnavailable completion_anomaly_kind anomaly_attach
  | PollPending

text \<open>The report \<^verbatim>\<open>try_take_record\<close> raises on a ready slot without data.\<close>

datatype take_error = CorruptEmpty usize u32

definition packet_user_event ::
  "user_completion_event \<Rightarrow> 'pay \<Rightarrow> 'det option \<Rightarrow> cleanup_guard \<Rightarrow> ('pay, 'det) completion_packet" where
  "packet_user_event ev payload detail cleanup =
     \<lparr>packet_event = ev,
      packet_input = InputUser \<lparr>uc_payload = payload, uc_detail = detail, uc_cleanup = cleanup\<rparr>\<rparr>"

definition packet_token :: "('pay, 'det) completion_packet \<Rightarrow> op_token" where
  "packet_token p = uce_token (packet_event p)"

fun input_cleanup :: "('pay, 'det) completion_input \<Rightarrow> cleanup_guard" where
  "input_cleanup (InputUser c) = uc_cleanup c"

fun recorded_outcome :: "('pay, 'det) completion_input \<Rightarrow> record_completion_outcome" where
  "recorded_outcome (InputUser _) = RecordedUser"

definition mutation_missing :: "op_token \<Rightarrow> completion_mutation_outcome" where
  "mutation_missing t = MRejected (AMissing (KUnknownSlot (op_index t) (op_generation t)))"

definition mutation_generation_mismatch ::
  "usize \<Rightarrow> u32 \<Rightarrow> u32 \<Rightarrow> slot_state \<Rightarrow> completion_mutation_outcome" where
  "mutation_generation_mismatch idx expected actual state =
     (if expected < actual then MRejected (AStale (KStale idx expected actual state))
      else MRejected (ANonActive (KNonActive idx expected state)))"

definition mutation_non_active :: "usize \<Rightarrow> u32 \<Rightarrow> slot_state \<Rightarrow> completion_mutation_outcome" where
  "mutation_non_active idx g state = MRejected (ANonActive (KNonActive idx g state))"

subsection \<open>Diagnostics, wake-ups and cleanups of the table\<close>

definition note_diag ::
  "(diagnostics \<Rightarrow> diagnostics) \<Rightarrow> ('pay, 'det) slot_table \<Rightarrow> ('pay, 'det) slot_table" where
  "note_diag f tb = tb\<lparr>table_diagnostics := f (table_diagnostics tb)\<rparr>"

definition note_woken :: "waker option \<Rightarrow> ('pay, 'det) slot_table \<Rightarrow> ('pay, 'det) slot_table" where
  "note_woken w tb = tb\<lparr>fx_woken := fx_woken tb @ (case w of None \<Rightarrow> [] | Some x \<Rightarrow> [x])\<rparr>"

definition note_cleaned :: "nat list \<Rightarrow> ('pay, 'det) slot_table \<Rightarrow> ('pay, 'det) slot_table" where
  "note_cleaned cl tb = tb\<lparr>fx_cleaned := fx_cleaned tb @ cl\<rparr>"

definition recorded_completion ::
  "record_completion_outcome \<Rightarrow> ('pay, 'det) slot_table
     \<Rightarrow> ('pay, 'det) slot_table \<times> ('pay, 'det) record_completion_result" where
  "recorded_completion out tb = (note_diag (record_completion_outcome out) tb, RecResRecorded out)"

definition rejected_completion ::
  "record_completion_outcome \<Rightarrow> user_completion_event \<Rightarrow> ('pay, 'det) completion_packet
     \<Rightarrow> ('pay, 'det) slot_table \<Rightarrow> ('pay, 'det) slot_table \<times> ('pay, 'det) record_completion_result" where
  "rejected_completion out ev p tb =
     (let tb1 = (case out of
                   RRejected a \<Rightarrow> note_diag (record_anomaly_outcome a (attach_from_raw_completion (uce_raw ev))) tb
                 | _ \<Rightarrow> tb)
      in (note_diag (record_completion_outcome out) tb1, RecResRejected out p))"

definition recorded_mutation ::
  "op_token \<Rightarrow> completion_mutation_outcome \<Rightarrow> ('pay, 'det) slot_table
     \<Rightarrow> ('pay, 'det) slot_table \<times> completion_mutation_outcome" where
  "recorded_mutation t out tb =
     (case mutation_anomaly_outcome out of
        Some a \<Rightarrow> (note_diag (record_anomaly_outcome a (attach_from_op_token t)) tb, out)
      | None \<Rightarrow> (tb, out))"

fun data_ids :: "('pay, 'det) completion_data \<Rightarrow> nat list" where
  "data_ids DataEmpty = []"
| "data_ids (DataUser _ _ _ g) = guard_drop g"

fun run_discarded_record_cleanup ::
  "('pay, 'det) completion_data \<Rightarrow> ('pay, 'det) slot_table \<Rightarrow> ('pay, 'det) slot_table" where
  "run_discarded_record_cleanup DataEmpty tb = tb"
| "run_discarded_record_cleanup (DataUser _ _ _ g) tb =
     (case run_completion_cleanup (table_diagnostics tb) g of
        (d, g', cl, _) \<Rightarrow> note_cleaned (cl @ guard_drop g') (note_diag (\<lambda>_. d) tb))"

subsection \<open>Operations\<close>

text \<open>Publishing the result in a slot the driver has just moved to \<open>Finalizing\<close>: the data of the
  cell is replaced (a guard left there is dropped and runs), the ready count rises, the state
  becomes ready, the registered waker is taken and woken.\<close>

definition publish_completion ::
  "nat \<Rightarrow> u32 \<Rightarrow> ('pay, 'det) completion_packet \<Rightarrow> ('pay, 'det) slot_table \<Rightarrow> ('pay, 'det) slot_table" where
  "publish_completion i g p tb =
     (let ev = packet_event p;
          old = completion_data (slots tb ! i);
          new = (case packet_input p of
                   InputUser c \<Rightarrow> DataUser ev (uc_payload c) (uc_detail c) (uc_cleanup c));
          tb1 = note_cleaned (data_ids old) (upd_slot i (\<lambda>s. s\<lparr>completion_data := new\<rparr>) tb);
          tb2 = upd_slot i (\<lambda>s. s\<lparr>completion_res := rc_res (uce_raw ev),
                                  completion_flags := rc_flags (uce_raw ev)\<rparr>) tb1;
          tb3 = note_ready_completion tb2;
          tb4 = upd_slot i (\<lambda>s. s\<lparr>core_state := with_generation (with_state (core_state s) InFlightReady) g\<rparr>) tb3
      in note_woken (completion_waker (slots tb4 ! i)) (upd_slot i (\<lambda>s. s\<lparr>completion_waker := None\<rparr>) tb4))"

definition record_completion ::
  "('pay, 'det) completion_packet \<Rightarrow> ('pay, 'det) slot_table
     \<Rightarrow> (('pay, 'det) slot_table \<times> ('pay, 'det) record_completion_result) option" where
  "record_completion p tb =
     (let t = packet_token p; ev = packet_event p; idx = op_index t; i = unat idx;
          g = op_generation t; success = recorded_outcome (packet_input p)
      in if length (slots tb) \<le> i
         then Some (rejected_completion (RRejected (AMissing (KUnknownSlot idx g))) ev p tb)
         else
           let state = slot_state_of (slots tb ! i); cell_gen = slot_generation_of (slots tb ! i)
           in if g < cell_gen
              then Some (rejected_completion (RRejected (AStale (KStale idx g cell_gen state))) ev p tb)
              else if cell_gen < g
              then Some (rejected_completion
                     (if state = Idle then RRejected (ANonActive (KNonActive idx g state))
                      else RRejected (AStale (KStale idx g cell_gen state))) ev p tb)
              else (case state of
                  InFlightWaiting \<Rightarrow>
                    let tb1 = upd_slot i (\<lambda>s. s\<lparr>core_state :=
                          with_generation (with_state (core_state s) Finalizing) g\<rparr>) tb
                    in Some (recorded_completion success (publish_completion i g p tb1))
                | InFlightOrphaned \<Rightarrow> Some (rejected_completion OrphanedDropped ev p tb)
                | Finalizing \<Rightarrow> None
                | _ \<Rightarrow> Some (rejected_completion (RRejected (ANonActive (KNonActive idx g state))) ev p tb)))"

text \<open>Taking the record out of a ready slot frees the slot for its next generation.\<close>

definition take_ready ::
  "nat \<Rightarrow> u32 \<Rightarrow> ('pay, 'det) slot_table \<Rightarrow> ('pay, 'det) slot_table \<times> ('pay, 'det) completion_data" where
  "take_ready i g tb =
     (let tb1 = upd_slot i (\<lambda>s. s\<lparr>core_state := with_generation (with_state (core_state s) Idle) (g + 1)\<rparr>) tb;
          tb2 = clear_ready_completion tb1
      in (upd_slot i (\<lambda>s. s\<lparr>completion_data := DataEmpty\<rparr>) tb2, completion_data (slots tb2 ! i)))"

definition try_take_record ::
  "op_token \<Rightarrow> ('pay, 'det) slot_table
     \<Rightarrow> ('pay, 'det) slot_table \<times> (take_error + ('pay, 'det) poll_record_result)" where
  "try_take_record t tb =
     (let att = attach_from_op_token t; idx = op_index t; i = unat idx; g = op_generation t
      in if length (slots tb) \<le> i then
           let kind = KUnknownSlot idx g
           in (note_diag (record_anomaly_kind kind att) tb, Inr (PollUnavailable kind att))
         else
           let state = slot_state_of (slots tb ! i); cell_gen = slot_generation_of (slots tb ! i)
           in if g < cell_gen then
                let kind = KStale idx g cell_gen state
                in (note_diag (record_anomaly_kind kind att) tb, Inr (PollUnavailable kind att))
              else if cell_gen < g then
                let kind = KNonActive idx g state
                in (note_diag (record_anomaly_kind kind att) tb, Inr (PollUnavailable kind att))
              else if state = InFlightWaiting \<or> state = Finalizing then (tb, Inr PollPending)
              else if state \<noteq> InFlightReady then
                let kind = KNonActive idx g state
                in (note_diag (record_anomaly_kind kind att) tb, Inr (PollUnavailable kind att))
              else (case take_ready i g tb of
                  (tb', DataUser ev payload detail cleanup) \<Rightarrow>
                    (tb', Inr (PollReady \<lparr>rec_event = ev, rec_payload = payload, rec_detail = detail,
                                          rec_cleanup = cleanup\<rparr>))
                | (tb', DataEmpty) \<Rightarrow> (tb', Inl (CorruptEmpty idx g))))"

definition register_waker ::
  "op_token \<Rightarrow> waker \<Rightarrow> ('pay, 'det) slot_table \<Rightarrow> ('pay, 'det) slot_table \<times> completion_mutation_outcome" where
  "register_waker t w tb =
     (let idx = op_index t; i = unat idx; g = op_generation t
      in if length (slots tb) \<le> i then recorded_mutation t (mutation_missing t) tb
         else
           let state = slot_state_of (slots tb ! i); cell_gen = slot_generation_of (slots tb ! i)
           in if cell_gen \<noteq> g
              then recorded_mutation t (mutation_generation_mismatch idx g cell_gen state) tb
              else
                let tb1 = upd_slot i (\<lambda>s. s\<lparr>completion_waker := Some w\<rparr>) tb;
                    state_after = slot_state_of (slots tb1 ! i);
                    gen_after = slot_generation_of (slots tb1 ! i)
                in if gen_after \<noteq> g
                   then recorded_mutation t (mutation_generation_mismatch idx g gen_after state_after) tb1
                   else if state_after = InFlightReady
                   then recorded_mutation t Applied (note_woken (Some w) tb1)
                   else recorded_mutation t
                     (if state_after = InFlightWaiting \<or> state_after = Finalizing then Applied
                      else mutation_non_active idx g state_after) tb1)"

definition mark_waiting ::
  "op_token \<Rightarrow> ('pay, 'det) slot_table \<Rightarrow> (('pay, 'det) slot_table \<times> completion_mutation_outcome) option" where
  "mark_waiting t tb =
     (let idx = op_index t; i = unat idx; g = op_generation t
      in if length (slots tb) \<le> i then Some (recorded_mutation t (mutation_missing t) tb)
         else
           let state = slot_state_of (slots tb ! i); cell_gen = slot_generation_of (slots tb ! i)
           in if cell_gen \<noteq> g
              then Some (recorded_mutation t (mutation_generation_mismatch idx g cell_gen state) tb)
              else if state = InFlightReady \<or> state = InFlightWaiting
              then Some (recorded_mutation t Applied tb)
              else if state = Finalizing then None
              else Some (recorded_mutation t (mutation_non_active idx g state) tb))"

definition discard_ready_record ::
  "op_token \<Rightarrow> ('pay, 'det) slot_table \<Rightarrow> (('pay, 'det) slot_table \<times> completion_mutation_outcome) option" where
  "discard_ready_record t tb =
     (let idx = op_index t; i = unat idx; g = op_generation t
      in if length (slots tb) \<le> i then Some (recorded_mutation t (mutation_missing t) tb)
         else
           let state = slot_state_of (slots tb ! i); cell_gen = slot_generation_of (slots tb ! i)
           in if state = InFlightReady \<and> cell_gen = g then
                (case take_ready i g tb of
                   (tb1, data) \<Rightarrow>
                     Some (recorded_mutation t Applied (run_discarded_record_cleanup data tb1)))
              else if state = Finalizing then None
              else if cell_gen \<noteq> g
              then Some (recorded_mutation t (mutation_generation_mismatch idx g cell_gen state) tb)
              else Some (recorded_mutation t (mutation_non_active idx g state) tb))"

definition mark_orphaned ::
  "op_token \<Rightarrow> ('pay, 'det) slot_table \<Rightarrow> (('pay, 'det) slot_table \<times> completion_mutation_outcome) option" where
  "mark_orphaned t tb =
     (let idx = op_index t; i = unat idx; g = op_generation t
      in if length (slots tb) \<le> i then Some (recorded_mutation t (mutation_missing t) tb)
         else
           let state = slot_state_of (slots tb ! i); cell_gen = slot_generation_of (slots tb ! i)
           in if state = InFlightWaiting then
                (if cell_gen \<noteq> g
                 then Some (recorded_mutation t (mutation_generation_mismatch idx g cell_gen state) tb)
                 else Some (recorded_mutation t Applied
                        (upd_slot i (\<lambda>s. s\<lparr>core_state :=
                            with_generation (with_state (core_state s) InFlightOrphaned) g\<rparr>) tb)))
              else if state = InFlightReady \<and> cell_gen = g then discard_ready_record t tb
              else if state = Finalizing then None
              else if cell_gen \<noteq> g
              then Some (recorded_mutation t (mutation_generation_mismatch idx g cell_gen state) tb)
              else Some (recorded_mutation t (mutation_non_active idx g state) tb))"

definition run_rejected_cleanup ::
  "('pay, 'det) completion_packet \<Rightarrow> ('pay, 'det) slot_table \<Rightarrow> ('pay, 'det) slot_table" where
  "run_rejected_cleanup p tb =
     (case run_completion_cleanup (table_diagnostics tb) (input_cleanup (packet_input p)) of
        (d, g', cl, _) \<Rightarrow> note_cleaned (cl @ guard_drop g') (note_diag (\<lambda>_. d) tb))"

subsection \<open>Bookkeeping\<close>

lemma note_diag_simps [simp]:
  "slots (note_diag f tb) = slots tb" "remote_free_head (note_diag f tb) = remote_free_head tb"
  "ready_completion_count (note_diag f tb) = ready_completion_count tb"
  "fx_woken (note_diag f tb) = fx_woken tb" "fx_cleaned (note_diag f tb) = fx_cleaned tb"
  "table_diagnostics (note_diag f tb) = f (table_diagnostics tb)"
  by (simp_all add: note_diag_def)

lemma note_woken_simps [simp]:
  "slots (note_woken w tb) = slots tb" "remote_free_head (note_woken w tb) = remote_free_head tb"
  "ready_completion_count (note_woken w tb) = ready_completion_count tb"
  "fx_woken (note_woken w tb) = fx_woken tb @ (case w of None \<Rightarrow> [] | Some x \<Rightarrow> [x])"
  "fx_cleaned (note_woken w tb) = fx_cleaned tb"
  by (simp_all add: note_woken_def)

lemma note_cleaned_simps [simp]:
  "slots (note_cleaned cl tb) = slots tb" "remote_free_head (note_cleaned cl tb) = remote_free_head tb"
  "ready_completion_count (note_cleaned cl tb) = ready_completion_count tb"
  "fx_woken (note_cleaned cl tb) = fx_woken tb" "fx_cleaned (note_cleaned cl tb) = fx_cleaned tb @ cl"
  by (simp_all add: note_cleaned_def)

lemma ready_count_simps [simp]:
  "slots (note_ready_completion tb) = slots tb" "slots (clear_ready_completion tb) = slots tb"
  "remote_free_head (note_ready_completion tb) = remote_free_head tb"
  "remote_free_head (clear_ready_completion tb) = remote_free_head tb"
  "fx_woken (note_ready_completion tb) = fx_woken tb" "fx_woken (clear_ready_completion tb) = fx_woken tb"
  "fx_cleaned (note_ready_completion tb) = fx_cleaned tb" "fx_cleaned (clear_ready_completion tb) = fx_cleaned tb"
  "ready_completion_count (note_ready_completion tb) = ready_completion_count tb + 1"
  by (simp_all add: note_ready_completion_def clear_ready_completion_def)

lemma with_simps [simp]:
  "pc_state (with_state c s) = s" "pc_generation (with_state c s) = pc_generation c"
  "pc_state (with_generation c g) = pc_state c" "pc_generation (with_generation c g) = g"
  "pc_flags (with_state c s) = pc_flags c" "pc_flags (with_generation c g) = pc_flags c"
  by (simp_all add: with_state_def with_generation_def)

lemma with_generation_same [simp]: "pc_generation c = g \<Longrightarrow> with_generation c g = c"
  by (auto simp: with_generation_def)

text \<open>Changes that leave the slots, the ready count and the cleanup log alone.\<close>

definition same_slots :: "('pay, 'det) slot_table \<Rightarrow> ('pay, 'det) slot_table \<Rightarrow> bool" where
  "same_slots tb tb' \<longleftrightarrow> slots tb' = slots tb \<and> remote_free_head tb' = remote_free_head tb
     \<and> ready_completion_count tb' = ready_completion_count tb
     \<and> fx_woken tb' = fx_woken tb \<and> fx_cleaned tb' = fx_cleaned tb"

lemma recorded_mutation_same:
  "same_slots tb (fst (recorded_mutation t out tb))" "snd (recorded_mutation t out tb) = out"
  by (cases out; simp add: recorded_mutation_def same_slots_def)+

lemma recorded_mutation_simps [simp]:
  "slots (fst (recorded_mutation t out tb)) = slots tb"
  "remote_free_head (fst (recorded_mutation t out tb)) = remote_free_head tb"
  "ready_completion_count (fst (recorded_mutation t out tb)) = ready_completion_count tb"
  "fx_woken (fst (recorded_mutation t out tb)) = fx_woken tb"
  "fx_cleaned (fst (recorded_mutation t out tb)) = fx_cleaned tb"
  "snd (recorded_mutation t out tb) = out"
  using recorded_mutation_same [where tb = tb and t = t and out = out] by (simp_all add: same_slots_def)

lemma rejected_completion_simps [simp]:
  "slots (fst (rejected_completion out ev p tb)) = slots tb"
  "remote_free_head (fst (rejected_completion out ev p tb)) = remote_free_head tb"
  "ready_completion_count (fst (rejected_completion out ev p tb)) = ready_completion_count tb"
  "fx_woken (fst (rejected_completion out ev p tb)) = fx_woken tb"
  "fx_cleaned (fst (rejected_completion out ev p tb)) = fx_cleaned tb"
  "snd (rejected_completion out ev p tb) = RecResRejected out p"
  by (cases out; simp add: rejected_completion_def)+

lemma recorded_completion_simps [simp]:
  "slots (fst (recorded_completion out tb)) = slots tb"
  "remote_free_head (fst (recorded_completion out tb)) = remote_free_head tb"
  "ready_completion_count (fst (recorded_completion out tb)) = ready_completion_count tb"
  "fx_woken (fst (recorded_completion out tb)) = fx_woken tb"
  "fx_cleaned (fst (recorded_completion out tb)) = fx_cleaned tb"
  "snd (recorded_completion out tb) = RecResRecorded out"
  by (simp_all add: recorded_completion_def)

lemma discarded_cleanup_simps [simp]:
  "slots (run_discarded_record_cleanup data tb) = slots tb"
  "remote_free_head (run_discarded_record_cleanup data tb) = remote_free_head tb"
  "ready_completion_count (run_discarded_record_cleanup data tb) = ready_completion_count tb"
  "fx_woken (run_discarded_record_cleanup data tb) = fx_woken tb"
  "fx_cleaned (run_discarded_record_cleanup data tb) = fx_cleaned tb @ data_ids data"
  by (cases data; auto split: prod.splits dest: run_cleanup_ran)+

lemma rejected_cleanup_simps [simp]:
  "slots (run_rejected_cleanup p tb) = slots tb"
  "remote_free_head (run_rejected_cleanup p tb) = remote_free_head tb"
  "ready_completion_count (run_rejected_cleanup p tb) = ready_completion_count tb"
  "fx_woken (run_rejected_cleanup p tb) = fx_woken tb"
  "fx_cleaned (run_rejected_cleanup p tb) = fx_cleaned tb @ guard_drop (input_cleanup (packet_input p))"
  by (auto simp: run_rejected_cleanup_def split: prod.splits dest: run_cleanup_ran)

subsection \<open>Invariant and ownership of cleanups\<close>

definition ready_slots :: "('pay, 'det) slot_data list \<Rightarrow> nat" where
  "ready_slots sl = length (filter (\<lambda>s. slot_state_of s = InFlightReady) sl)"

definition slot_ok :: "('pay, 'det) slot_data \<Rightarrow> bool" where
  "slot_ok s \<longleftrightarrow> slot_state_of s \<noteq> Finalizing
     \<and> (slot_state_of s = InFlightReady \<longrightarrow> completion_data s \<noteq> DataEmpty)"

definition table_inv :: "('pay, 'det) slot_table \<Rightarrow> bool" where
  "table_inv tb \<longleftrightarrow> length (slots tb) \<le> NULL_INDEX \<and> (\<forall>s \<in> set (slots tb). slot_ok s)
     \<and> unat (ready_completion_count tb) = ready_slots (slots tb)"

text \<open>The cleanups whose guard the table still holds, and those the table holds or has run.\<close>

definition stored_ids :: "('pay, 'det) slot_data list \<Rightarrow> nat multiset" where
  "stored_ids sl = (\<Sum>s\<leftarrow>sl. mset (data_ids (completion_data s)))"

definition owned_ids :: "('pay, 'det) slot_table \<Rightarrow> nat multiset" where
  "owned_ids tb = mset (fx_cleaned tb) + stored_ids (slots tb)"

lemma ready_slots_sum: "ready_slots sl = (\<Sum>s\<leftarrow>sl. if slot_state_of s = InFlightReady then 1 else 0)"
  by (induction sl) (auto simp: ready_slots_def)

lemma ready_slots_update:
  assumes "i < length sl"
  shows "ready_slots (sl[i := v]) + (if slot_state_of (sl ! i) = InFlightReady then 1 else 0)
       = ready_slots sl + (if slot_state_of v = InFlightReady then 1 else 0)"
  using sum_list_map_update [OF assms, of "\<lambda>s. if slot_state_of s = InFlightReady then 1 else 0 :: nat"]
  by (simp add: ready_slots_sum)

lemma stored_ids_update:
  assumes "i < length sl"
  shows "stored_ids (sl[i := v]) + mset (data_ids (completion_data (sl ! i)))
       = stored_ids sl + mset (data_ids (completion_data v))"
  using sum_list_map_update [OF assms, of "\<lambda>s. mset (data_ids (completion_data s))"]
  by (simp add: stored_ids_def)

lemma ready_slots_le: "ready_slots sl \<le> length sl"
  by (simp add: ready_slots_def)

lemma slot_ok_update:
  "\<lbrakk>\<forall>s \<in> set sl. slot_ok s; slot_ok v\<rbrakk> \<Longrightarrow> \<forall>s \<in> set (sl[i := v]). slot_ok s"
  using set_update_subset_insert by fastforce

subsection \<open>What each call does\<close>

text \<open>A token names the occupant of its slot when the slot exists and has its generation.\<close>

definition names_slot :: "op_token \<Rightarrow> ('pay, 'det) slot_table \<Rightarrow> bool" where
  "names_slot t tb \<longleftrightarrow> unat (op_index t) < length (slots tb)
     \<and> slot_generation_of (slots tb ! unat (op_index t)) = op_generation t"

abbreviation token_slot :: "op_token \<Rightarrow> ('pay, 'det) slot_table \<Rightarrow> ('pay, 'det) slot_data" where
  "token_slot t tb \<equiv> slots tb ! unat (op_index t)"

fun packet_data :: "user_completion_event \<Rightarrow> ('pay, 'det) completion_input \<Rightarrow> ('pay, 'det) completion_data" where
  "packet_data ev (InputUser c) = DataUser ev (uc_payload c) (uc_detail c) (uc_cleanup c)"

lemma data_ids_packet [simp]: "data_ids (packet_data ev inp) = guard_drop (input_cleanup inp)"
  by (cases inp) simp

definition completed_slot ::
  "('pay, 'det) completion_packet \<Rightarrow> ('pay, 'det) slot_data \<Rightarrow> ('pay, 'det) slot_data" where
  "completed_slot p s = s\<lparr>completion_data := packet_data (packet_event p) (packet_input p),
     completion_res := rc_res (uce_raw (packet_event p)),
     completion_flags := rc_flags (uce_raw (packet_event p)),
     core_state := with_state (core_state s) InFlightReady, completion_waker := None\<rparr>"

definition taken_slot :: "('pay, 'det) slot_data \<Rightarrow> ('pay, 'det) slot_data" where
  "taken_slot s = s\<lparr>core_state := (core_state s)\<lparr>pc_state := Idle,
     pc_generation := slot_generation_of s + 1\<rparr>, completion_data := DataEmpty\<rparr>"

lemma completed_slot_simps [simp]:
  "slot_state_of (completed_slot p s) = InFlightReady"
  "slot_generation_of (completed_slot p s) = slot_generation_of s"
  "completion_data (completed_slot p s) = packet_data (packet_event p) (packet_input p)"
  "completion_waker (completed_slot p s) = None" "next_free (completed_slot p s) = next_free s"
  by (simp_all add: completed_slot_def)

lemma taken_slot_simps [simp]:
  "slot_state_of (taken_slot s) = Idle" "slot_generation_of (taken_slot s) = slot_generation_of s + 1"
  "completion_data (taken_slot s) = DataEmpty" "completion_waker (taken_slot s) = completion_waker s"
  "next_free (taken_slot s) = next_free s"
  by (simp_all add: taken_slot_def)

lemma publish_effect:
  assumes "i < length (slots tb)" "slot_generation_of (slots tb ! i) = g"
  shows "slots (publish_completion i g p tb) = (slots tb)[i := completed_slot p (slots tb ! i)]"
    "remote_free_head (publish_completion i g p tb) = remote_free_head tb"
    "ready_completion_count (publish_completion i g p tb) = ready_completion_count tb + 1"
    "fx_woken (publish_completion i g p tb) = fx_woken tb
       @ (case completion_waker (slots tb ! i) of None \<Rightarrow> [] | Some w \<Rightarrow> [w])"
    "fx_cleaned (publish_completion i g p tb) = fx_cleaned tb @ data_ids (completion_data (slots tb ! i))"
proof -
  obtain c where c: "packet_input p = InputUser c" by (cases "packet_input p")
  then show "slots (publish_completion i g p tb) = (slots tb)[i := completed_slot p (slots tb ! i)]"
    using assms
    by (simp add: publish_completion_def Let_def slots_upd_slot completed_slot_def)
qed (use assms(1) in \<open>simp_all add: publish_completion_def Let_def\<close>)

lemma record_waiting:
  assumes "names_slot (packet_token p) tb" "slot_state_of (token_slot (packet_token p) tb) = InFlightWaiting"
  shows "\<exists>tb'. record_completion p tb = Some (tb', RecResRecorded RecordedUser)
     \<and> slots tb' = (slots tb)[unat (op_index (packet_token p)) := completed_slot p (token_slot (packet_token p) tb)]
     \<and> remote_free_head tb' = remote_free_head tb
     \<and> ready_completion_count tb' = ready_completion_count tb + 1
     \<and> fx_woken tb' = fx_woken tb
          @ (case completion_waker (token_slot (packet_token p) tb) of None \<Rightarrow> [] | Some w \<Rightarrow> [w])
     \<and> fx_cleaned tb' = fx_cleaned tb @ data_ids (completion_data (token_slot (packet_token p) tb))"
proof -
  let ?i = "unat (op_index (packet_token p))" and ?g = "op_generation (packet_token p)"
  let ?s = "slots tb ! ?i"
  let ?f = "\<lambda>s. s\<lparr>core_state := with_generation (with_state (core_state s) Finalizing) ?g\<rparr>"
  let ?tb1 = "upd_slot ?i ?f tb"
  have i: "?i < length (slots tb)" and g: "slot_generation_of ?s = ?g"
    using assms(1) by (simp_all add: names_slot_def)
  have out: "recorded_outcome (packet_input p) = RecordedUser" by (cases "packet_input p") simp
  have run: "record_completion p tb = Some (recorded_completion RecordedUser (publish_completion ?i ?g p ?tb1))"
    using i g assms(2) out by (simp add: record_completion_def Let_def)
  have gen1: "slot_generation_of (slots ?tb1 ! ?i) = ?g" using i by simp
  have len1: "?i < length (slots ?tb1)" using i by simp
  have same: "completed_slot p (?f ?s) = completed_slot p ?s"
    using g by (cases ?s; cases "core_state ?s") (auto simp: completed_slot_def with_state_def with_generation_def)
  note eff = publish_effect [OF len1 gen1, of p]
  have "slots (publish_completion ?i ?g p ?tb1) = (slots tb)[?i := completed_slot p ?s]"
    unfolding eff(1) using i same by (simp add: slots_upd_slot)
  then show ?thesis
    unfolding run recorded_completion_def using eff(2-) i by simp
qed

lemma record_rejected:
  assumes "names_slot (packet_token p) tb \<Longrightarrow> slot_state_of (token_slot (packet_token p) tb) \<noteq> InFlightWaiting
             \<and> slot_state_of (token_slot (packet_token p) tb) \<noteq> Finalizing"
  shows "\<exists>tb' out. record_completion p tb = Some (tb', RecResRejected out p) \<and> same_slots tb tb' \<and> out \<noteq> RecordedUser"
proof -
  have "\<exists>out. record_completion p tb = Some (rejected_completion out (packet_event p) p tb) \<and> out \<noteq> RecordedUser"
    using assms
    by (cases "unat (op_index (packet_token p)) < length (slots tb)")
      (auto simp: record_completion_def Let_def names_slot_def not_less_iff_gr_or_eq
        split: slot_state.splits)
  then obtain out where out: "record_completion p tb = Some (rejected_completion out (packet_event p) p tb)"
    "out \<noteq> RecordedUser" by blast
  obtain tb' res where r: "rejected_completion out (packet_event p) p tb = (tb', res)" by fastforce
  have "res = RecResRejected out p" "same_slots tb tb'"
    using r rejected_completion_simps [of out "packet_event p" p tb] by (simp_all add: same_slots_def)
  then show ?thesis using out r by auto
qed

lemma clear_ready_count:
  "unat (ready_completion_count (clear_ready_completion tb)) = unat (ready_completion_count tb) - 1"
  by (auto simp: clear_ready_completion_def unat_minus_one)

lemma take_ready_effect:
  assumes "i < length (slots tb)" "slot_generation_of (slots tb ! i) = g"
  shows "\<exists>tb'. take_ready i g tb = (tb', completion_data (slots tb ! i))
     \<and> slots tb' = (slots tb)[i := taken_slot (slots tb ! i)]
     \<and> remote_free_head tb' = remote_free_head tb
     \<and> unat (ready_completion_count tb') = unat (ready_completion_count tb) - 1
     \<and> fx_woken tb' = fx_woken tb \<and> fx_cleaned tb' = fx_cleaned tb"
  using assms
  by (auto simp: take_ready_def Let_def slots_upd_slot taken_slot_def with_state_def with_generation_def
      clear_ready_count)

lemma take_ready_slot:
  assumes "names_slot t tb" "slot_state_of (token_slot t tb) = InFlightReady"
    "completion_data (token_slot t tb) = DataUser ev payload detail cleanup"
  shows "\<exists>tb'. try_take_record t tb = (tb', Inr (PollReady \<lparr>rec_event = ev, rec_payload = payload,
                  rec_detail = detail, rec_cleanup = cleanup\<rparr>))
     \<and> slots tb' = (slots tb)[unat (op_index t) := taken_slot (token_slot t tb)]
     \<and> remote_free_head tb' = remote_free_head tb
     \<and> unat (ready_completion_count tb') = unat (ready_completion_count tb) - 1
     \<and> fx_woken tb' = fx_woken tb \<and> fx_cleaned tb' = fx_cleaned tb"
proof -
  have i: "unat (op_index t) < length (slots tb)" "slot_generation_of (token_slot t tb) = op_generation t"
    using assms(1) by (simp_all add: names_slot_def)
  obtain tb' where tb': "take_ready (unat (op_index t)) (op_generation t) tb = (tb', DataUser ev payload detail cleanup)"
    "slots tb' = (slots tb)[unat (op_index t) := taken_slot (token_slot t tb)]"
    "remote_free_head tb' = remote_free_head tb"
    "unat (ready_completion_count tb') = unat (ready_completion_count tb) - 1"
    "fx_woken tb' = fx_woken tb" "fx_cleaned tb' = fx_cleaned tb"
    using take_ready_effect [OF i] assms(3) by auto
  then show ?thesis using i assms(2) by (simp add: try_take_record_def Let_def)
qed

lemma take_waiting:
  assumes "names_slot t tb" "slot_state_of (token_slot t tb) = InFlightWaiting"
  shows "try_take_record t tb = (tb, Inr PollPending)"
  using assms by (simp add: try_take_record_def Let_def names_slot_def)

lemma take_unavailable:
  assumes "names_slot t tb \<Longrightarrow> slot_state_of (token_slot t tb) \<notin> {InFlightWaiting, InFlightReady, Finalizing}"
  shows "\<exists>tb' k. try_take_record t tb = (tb', Inr (PollUnavailable k (attach_from_op_token t))) \<and> same_slots tb tb'"
  using assms
  by (auto simp: try_take_record_def Let_def names_slot_def same_slots_def not_less_iff_gr_or_eq)

lemma register_named:
  assumes "names_slot t tb"
  shows "\<exists>tb' out. register_waker t w tb = (tb', out)
     \<and> slots tb' = (slots tb)[unat (op_index t) := (token_slot t tb)\<lparr>completion_waker := Some w\<rparr>]
     \<and> remote_free_head tb' = remote_free_head tb
     \<and> ready_completion_count tb' = ready_completion_count tb
     \<and> fx_woken tb' = fx_woken tb @ (if slot_state_of (token_slot t tb) = InFlightReady then [w] else [])
     \<and> fx_cleaned tb' = fx_cleaned tb
     \<and> (out = Applied \<longleftrightarrow> slot_state_of (token_slot t tb) \<in> {InFlightWaiting, InFlightReady, Finalizing})"
  using assms
  by (auto simp: register_waker_def Let_def names_slot_def slots_upd_slot recorded_mutation_def
      mutation_non_active_def)

lemma mismatch_rejects: "mutation_generation_mismatch i e a s \<noteq> Applied"
  by (simp add: mutation_generation_mismatch_def)

lemma register_unnamed:
  assumes "\<not> names_slot t tb"
  shows "\<exists>tb' out. register_waker t w tb = (tb', out) \<and> same_slots tb tb' \<and> out \<noteq> Applied"
proof -
  have "\<exists>out. register_waker t w tb = recorded_mutation t out tb \<and> out \<noteq> Applied"
    using assms by (auto simp: register_waker_def Let_def names_slot_def mutation_missing_def mismatch_rejects
        intro: exI [of _ "mutation_missing t"])
  then show ?thesis
    using recorded_mutation_same by (metis prod.collapse)
qed

lemma mark_waiting_pure:
  assumes "names_slot t tb \<Longrightarrow> slot_state_of (token_slot t tb) \<noteq> Finalizing"
  shows "\<exists>tb' out. mark_waiting t tb = Some (tb', out) \<and> same_slots tb tb'
     \<and> (out = Applied \<longleftrightarrow> names_slot t tb \<and> slot_state_of (token_slot t tb) \<in> {InFlightWaiting, InFlightReady})"
proof -
  have "\<exists>out. mark_waiting t tb = Some (recorded_mutation t out tb)
     \<and> (out = Applied \<longleftrightarrow> names_slot t tb \<and> slot_state_of (token_slot t tb) \<in> {InFlightWaiting, InFlightReady})"
    using assms
    by (auto simp: mark_waiting_def Let_def names_slot_def mutation_missing_def mismatch_rejects mutation_non_active_def)
  then show ?thesis
    using recorded_mutation_same by (metis prod.collapse)
qed

lemma discard_ready:
  assumes "names_slot t tb" "slot_state_of (token_slot t tb) = InFlightReady"
  shows "\<exists>tb'. discard_ready_record t tb = Some (tb', Applied)
     \<and> slots tb' = (slots tb)[unat (op_index t) := taken_slot (token_slot t tb)]
     \<and> remote_free_head tb' = remote_free_head tb
     \<and> unat (ready_completion_count tb') = unat (ready_completion_count tb) - 1
     \<and> fx_woken tb' = fx_woken tb
     \<and> fx_cleaned tb' = fx_cleaned tb @ data_ids (completion_data (token_slot t tb))"
proof -
  have i: "unat (op_index t) < length (slots tb)" "slot_generation_of (token_slot t tb) = op_generation t"
    using assms(1) by (simp_all add: names_slot_def)
  show ?thesis
    using take_ready_effect [OF i] i assms(2)
    by (auto simp: discard_ready_record_def Let_def recorded_mutation_def)
qed

lemma discard_other:
  assumes "names_slot t tb \<Longrightarrow> slot_state_of (token_slot t tb) \<noteq> InFlightReady"
    "unat (op_index t) < length (slots tb) \<Longrightarrow> slot_state_of (token_slot t tb) \<noteq> Finalizing"
  shows "\<exists>tb' out. discard_ready_record t tb = Some (tb', out) \<and> same_slots tb tb' \<and> out \<noteq> Applied"
proof -
  have "\<exists>out. discard_ready_record t tb = Some (recorded_mutation t out tb) \<and> out \<noteq> Applied"
    using assms
    by (auto simp: discard_ready_record_def Let_def names_slot_def mutation_missing_def mismatch_rejects mutation_non_active_def)
  then show ?thesis
    using recorded_mutation_same by (metis prod.collapse)
qed

lemma orphan_waiting:
  assumes "names_slot t tb" "slot_state_of (token_slot t tb) = InFlightWaiting"
  shows "\<exists>tb'. mark_orphaned t tb = Some (tb', Applied)
     \<and> slots tb' = (slots tb)[unat (op_index t) := slot_set_state InFlightOrphaned (token_slot t tb)]
     \<and> remote_free_head tb' = remote_free_head tb
     \<and> ready_completion_count tb' = ready_completion_count tb
     \<and> fx_woken tb' = fx_woken tb \<and> fx_cleaned tb' = fx_cleaned tb"
  using assms
  by (simp add: mark_orphaned_def Let_def names_slot_def recorded_mutation_def slots_upd_slot slot_set_state_def)

lemma orphan_ready:
  assumes "names_slot t tb" "slot_state_of (token_slot t tb) = InFlightReady"
  shows "mark_orphaned t tb = discard_ready_record t tb"
  using assms by (simp add: mark_orphaned_def Let_def names_slot_def)

lemma orphan_other:
  assumes "names_slot t tb \<Longrightarrow> slot_state_of (token_slot t tb) \<notin> {InFlightWaiting, InFlightReady}"
    "unat (op_index t) < length (slots tb) \<Longrightarrow> slot_state_of (token_slot t tb) \<noteq> Finalizing"
  shows "\<exists>tb' out. mark_orphaned t tb = Some (tb', out) \<and> same_slots tb tb' \<and> out \<noteq> Applied"
proof -
  have "\<exists>out. mark_orphaned t tb = Some (recorded_mutation t out tb) \<and> out \<noteq> Applied"
    using assms
    by (auto simp: mark_orphaned_def Let_def names_slot_def mutation_missing_def mismatch_rejects mutation_non_active_def)
  then show ?thesis
    using recorded_mutation_same by (metis prod.collapse)
qed

subsection \<open>Invariant preservation and conservation of cleanups\<close>

lemma table_inv_slot: "\<lbrakk>table_inv tb; i < length (slots tb)\<rbrakk> \<Longrightarrow> slot_ok (slots tb ! i)"
  by (simp add: table_inv_def)

lemma table_inv_not_finalizing:
  "\<lbrakk>table_inv tb; i < length (slots tb)\<rbrakk> \<Longrightarrow> slot_state_of (slots tb ! i) \<noteq> Finalizing"
  using table_inv_slot by (auto simp: slot_ok_def)

lemma table_inv_same: "\<lbrakk>table_inv tb; same_slots tb tb'\<rbrakk> \<Longrightarrow> table_inv tb'"
  by (simp add: table_inv_def same_slots_def)

lemma owned_same: "same_slots tb tb' \<Longrightarrow> owned_ids tb' = owned_ids tb"
  by (simp add: owned_ids_def same_slots_def)

lemma table_inv_update:
  assumes "table_inv tb" "i < length (slots tb)" "slots tb' = (slots tb)[i := v]" "slot_ok v"
    "unat (ready_completion_count tb') + (if slot_state_of (slots tb ! i) = InFlightReady then 1 else 0)
       = unat (ready_completion_count tb) + (if slot_state_of v = InFlightReady then 1 else 0)"
  shows "table_inv tb'"
  using assms ready_slots_update [OF assms(2), of v] slot_ok_update [of "slots tb" v i]
  by (simp add: table_inv_def)

lemma owned_update:
  assumes "i < length (slots tb)" "slots tb' = (slots tb)[i := v]" "fx_cleaned tb' = fx_cleaned tb @ cl"
    "mset cl + mset (data_ids (completion_data v)) + x = mset (data_ids (completion_data (slots tb ! i))) + y"
  shows "owned_ids tb' + x = owned_ids tb + y"
proof -
  let ?o = "mset (data_ids (completion_data (slots tb ! i)))" and ?n = "mset (data_ids (completion_data v))"
  have "stored_ids (slots tb') + ?o = stored_ids (slots tb) + ?n"
    unfolding assms(2) by (rule stored_ids_update [OF assms(1)])
  then have "owned_ids tb' + x + ?o = owned_ids tb + (mset cl + ?n + x)"
    by (simp add: owned_ids_def assms(3) add_ac)
  also have "\<dots> = owned_ids tb + y + ?o" unfolding assms(4) by (simp add: add_ac)
  finally show ?thesis by simp
qed

lemma ready_count_not_full:
  assumes "table_inv tb" "i < length (slots tb)" "slot_state_of (slots tb ! i) \<noteq> InFlightReady"
  shows "unat (ready_completion_count tb + 1) = unat (ready_completion_count tb) + 1"
proof -
  have "ready_slots (slots tb) < length (slots tb)"
    unfolding ready_slots_def using length_filter_less [of "slots tb ! i" "slots tb"] assms(2,3) by simp
  then have "unat (ready_completion_count tb) + 1 < 2 ^ 64"
    using assms(1) by (simp add: table_inv_def NULL_INDEX_def)
  then show ?thesis by (simp add: unat_add_mod)
qed

datatype ('pay, 'det) table_call =
    CallRecord "('pay, 'det) completion_packet"
  | CallTake op_token
  | CallRegister op_token waker
  | CallWaiting op_token
  | CallDiscard op_token
  | CallOrphan op_token

text \<open>One call, with the cleanups whose guard it hands back to its caller.\<close>

fun result_ids :: "('pay, 'det) record_completion_result \<Rightarrow> nat list" where
  "result_ids (RecResRecorded _) = []"
| "result_ids (RecResRejected _ p) = guard_drop (input_cleanup (packet_input p))"

fun poll_ids :: "take_error + ('pay, 'det) poll_record_result \<Rightarrow> nat list" where
  "poll_ids (Inr (PollReady r)) = guard_drop (rec_cleanup r)"
| "poll_ids _ = []"

fun exec_call ::
  "('pay, 'det) table_call \<Rightarrow> ('pay, 'det) slot_table \<Rightarrow> (('pay, 'det) slot_table \<times> nat list) option" where
  "exec_call (CallRecord p) tb = map_option (\<lambda>(tb', r). (tb', result_ids r)) (record_completion p tb)"
| "exec_call (CallTake t) tb = (case try_take_record t tb of (tb', r) \<Rightarrow> Some (tb', poll_ids r))"
| "exec_call (CallRegister t w) tb = Some (fst (register_waker t w tb), [])"
| "exec_call (CallWaiting t) tb = map_option (\<lambda>(tb', _). (tb', [])) (mark_waiting t tb)"
| "exec_call (CallDiscard t) tb = map_option (\<lambda>(tb', _). (tb', [])) (discard_ready_record t tb)"
| "exec_call (CallOrphan t) tb = map_option (\<lambda>(tb', _). (tb', [])) (mark_orphaned t tb)"

fun call_ids :: "('pay, 'det) table_call \<Rightarrow> nat list" where
  "call_ids (CallRecord p) = guard_drop (input_cleanup (packet_input p))"
| "call_ids _ = []"

fun run_calls ::
  "('pay, 'det) table_call list \<Rightarrow> ('pay, 'det) slot_table \<Rightarrow> (('pay, 'det) slot_table \<times> nat list) option" where
  "run_calls [] tb = Some (tb, [])"
| "run_calls (c # cs) tb =
     (case exec_call c tb of
        None \<Rightarrow> None
      | Some (tb1, ids) \<Rightarrow> map_option (\<lambda>(tb2, ids'). (tb2, ids @ ids')) (run_calls cs tb1))"

definition conserves ::
  "('pay, 'det) slot_table \<Rightarrow> nat list \<Rightarrow> ('pay, 'det) slot_table \<Rightarrow> nat list \<Rightarrow> bool" where
  "conserves tb given tb' back \<longleftrightarrow> table_inv tb'
     \<and> owned_ids tb' + mset back = owned_ids tb + mset given"

lemma conserves_same: "\<lbrakk>table_inv tb; same_slots tb tb'\<rbrakk> \<Longrightarrow> conserves tb ids tb' ids"
  by (simp add: conserves_def table_inv_same owned_same)

lemma named_index: "names_slot t tb \<Longrightarrow> unat (op_index t) < length (slots tb)"
  by (simp add: names_slot_def)

lemma record_conserves:
  assumes inv: "table_inv tb"
  shows "\<exists>tb' r. record_completion p tb = Some (tb', r)
     \<and> conserves tb (guard_drop (input_cleanup (packet_input p))) tb' (result_ids r)"
proof (cases "names_slot (packet_token p) tb \<and> slot_state_of (token_slot (packet_token p) tb) = InFlightWaiting")
  case True
  then have i: "unat (op_index (packet_token p)) < length (slots tb)" by (simp add: named_index)
  obtain tb' where tb': "record_completion p tb = Some (tb', RecResRecorded RecordedUser)"
    "slots tb' = (slots tb)[unat (op_index (packet_token p)) := completed_slot p (token_slot (packet_token p) tb)]"
    "ready_completion_count tb' = ready_completion_count tb + 1"
    "fx_cleaned tb' = fx_cleaned tb @ data_ids (completion_data (token_slot (packet_token p) tb))"
    using record_waiting True by blast
  have "slot_ok (completed_slot p (token_slot (packet_token p) tb))"
    by (cases "packet_input p") (simp add: slot_ok_def)
  then have "table_inv tb'"
    using table_inv_update [OF inv i tb'(2)] True ready_count_not_full [OF inv i] tb'(3) by simp
  moreover have "owned_ids tb' + {#} = owned_ids tb + mset (guard_drop (input_cleanup (packet_input p)))"
    by (rule owned_update [OF i tb'(2,4)]) simp
  ultimately show ?thesis using tb'(1) by (simp add: conserves_def)
next
  case False
  then obtain tb' out where "record_completion p tb = Some (tb', RecResRejected out p)" "same_slots tb tb'"
    using record_rejected [of p tb] table_inv_not_finalizing [OF inv] by (metis named_index)
  then show ?thesis using conserves_same [OF inv] by auto
qed

lemma take_cases:
  assumes inv: "table_inv tb"
  obtains (Ready) ev payload detail cleanup tb' where
      "names_slot t tb" "slot_state_of (token_slot t tb) = InFlightReady"
      "completion_data (token_slot t tb) = DataUser ev payload detail cleanup"
      "try_take_record t tb = (tb', Inr (PollReady \<lparr>rec_event = ev, rec_payload = payload,
          rec_detail = detail, rec_cleanup = cleanup\<rparr>))"
      "slots tb' = (slots tb)[unat (op_index t) := taken_slot (token_slot t tb)]"
      "unat (ready_completion_count tb') = unat (ready_completion_count tb) - 1"
      "fx_woken tb' = fx_woken tb" "fx_cleaned tb' = fx_cleaned tb"
      "remote_free_head tb' = remote_free_head tb"
  | (Waiting) "names_slot t tb" "slot_state_of (token_slot t tb) = InFlightWaiting"
      "try_take_record t tb = (tb, Inr PollPending)"
  | (Gone) tb' k where "\<not> (names_slot t tb \<and> slot_state_of (token_slot t tb) \<in> {InFlightWaiting, InFlightReady})"
      "try_take_record t tb = (tb', Inr (PollUnavailable k (attach_from_op_token t)))" "same_slots tb tb'"
proof -
  note nf = table_inv_not_finalizing [OF inv, OF named_index]
  consider (r) "names_slot t tb" "slot_state_of (token_slot t tb) = InFlightReady"
    | (w) "names_slot t tb" "slot_state_of (token_slot t tb) = InFlightWaiting"
    | (g) "\<not> (names_slot t tb \<and> slot_state_of (token_slot t tb) \<in> {InFlightWaiting, InFlightReady})" by auto
  then show thesis
  proof cases
    case r
    have "slot_ok (token_slot t tb)" by (rule table_inv_slot [OF inv named_index [OF r(1)]])
    then obtain ev payload detail cleanup where d: "completion_data (token_slot t tb) = DataUser ev payload detail cleanup"
      using r(2) by (cases "completion_data (token_slot t tb)") (auto simp: slot_ok_def)
    show thesis using take_ready_slot [OF r d] Ready [OF r d] by blast
  next
    case w
    then show thesis using Waiting take_waiting by blast
  next
    case g
    then have "names_slot t tb \<Longrightarrow> slot_state_of (token_slot t tb) \<notin> {InFlightWaiting, InFlightReady, Finalizing}"
      using nf by auto
    then show thesis using take_unavailable [of t tb] Gone [OF g] by blast
  qed
qed

lemma taken_conserves:
  assumes inv: "table_inv tb" and i: "i < length (slots tb)" "slot_state_of (slots tb ! i) = InFlightReady"
    and tb': "slots tb' = (slots tb)[i := taken_slot (slots tb ! i)]"
      "unat (ready_completion_count tb') = unat (ready_completion_count tb) - 1"
      "fx_cleaned tb' = fx_cleaned tb @ cl"
    and ids: "cl @ back = data_ids (completion_data (slots tb ! i))"
  shows "conserves tb [] tb' back"
proof -
  have "ready_slots (slots tb) > 0"
    unfolding ready_slots_def using i nth_mem [OF i(1)] by (auto simp: filter_empty_conv)
  then have "unat (ready_completion_count tb) > 0" using inv by (simp add: table_inv_def)
  then have "table_inv tb'"
    using table_inv_update [OF inv i(1) tb'(1)] i(2) tb'(2) by (simp add: slot_ok_def)
  moreover have "owned_ids tb' + mset back = owned_ids tb + {#}"
    by (rule owned_update [OF i(1) tb'(1,3)]) (simp flip: ids)
  ultimately show ?thesis by (simp add: conserves_def)
qed

lemma take_conserves:
  assumes inv: "table_inv tb"
  shows "\<exists>tb' r. try_take_record t tb = (tb', r) \<and> conserves tb [] tb' (poll_ids r)"
  using inv
proof (cases rule: take_cases [where t = t])
  case (Ready ev payload detail cleanup tb')
  have "conserves tb [] tb' (guard_drop cleanup)"
    by (rule taken_conserves [OF inv named_index [OF Ready(1)] Ready(2,5,6), of "[]"]) (simp_all add: Ready)
  then show ?thesis using Ready(4) by simp
next
  case Waiting
  then show ?thesis using inv by (simp add: conserves_def)
next
  case (Gone tb' k)
  then show ?thesis using conserves_same [OF inv, of tb' "[]"] by simp
qed

lemma register_conserves:
  assumes inv: "table_inv tb"
  shows "conserves tb [] (fst (register_waker t w tb)) []"
proof (cases "names_slot t tb")
  case True
  note i = named_index [OF True]
  obtain tb' out where tb': "register_waker t w tb = (tb', out)"
    "slots tb' = (slots tb)[unat (op_index t) := (token_slot t tb)\<lparr>completion_waker := Some w\<rparr>]"
    "ready_completion_count tb' = ready_completion_count tb" "fx_cleaned tb' = fx_cleaned tb @ []"
    using register_named [OF True, of w] by auto
  have "slot_ok ((token_slot t tb)\<lparr>completion_waker := Some w\<rparr>)"
    using table_inv_slot [OF inv i] by (simp add: slot_ok_def)
  then have "table_inv tb'" using table_inv_update [OF inv i tb'(2)] tb'(3) by simp
  moreover have "owned_ids tb' + {#} = owned_ids tb + {#}" by (rule owned_update [OF i tb'(2,4)]) simp
  ultimately show ?thesis using tb'(1) by (simp add: conserves_def)
next
  case False
  obtain tb' out where "register_waker t w tb = (tb', out)" "same_slots tb tb'"
    using register_unnamed [OF False] by blast
  then show ?thesis using conserves_same [OF inv, of tb' "[]"] by simp
qed

lemma waiting_conserves:
  assumes inv: "table_inv tb"
  shows "\<exists>tb' out. mark_waiting t tb = Some (tb', out) \<and> conserves tb [] tb' []"
  using mark_waiting_pure [of t tb] table_inv_not_finalizing [OF inv named_index] conserves_same [OF inv]
  by blast

lemma discard_conserves:
  assumes inv: "table_inv tb"
  shows "\<exists>tb' out. discard_ready_record t tb = Some (tb', out) \<and> conserves tb [] tb' []"
proof (cases "names_slot t tb \<and> slot_state_of (token_slot t tb) = InFlightReady")
  case True
  then obtain tb' where tb': "discard_ready_record t tb = Some (tb', Applied)"
     "slots tb' = (slots tb)[unat (op_index t) := taken_slot (token_slot t tb)]"
     "unat (ready_completion_count tb') = unat (ready_completion_count tb) - 1"
     "fx_cleaned tb' = fx_cleaned tb @ data_ids (completion_data (token_slot t tb))"
    using discard_ready by blast
  have "conserves tb [] tb' []"
    by (rule taken_conserves [OF inv named_index _ tb'(2,3,4)]) (simp_all add: True)
  then show ?thesis using tb'(1) by blast
next
  case False
  then show ?thesis
    using discard_other [of t tb] table_inv_not_finalizing [OF inv] conserves_same [OF inv] by metis
qed

lemma orphan_conserves:
  assumes inv: "table_inv tb"
  shows "\<exists>tb' out. mark_orphaned t tb = Some (tb', out) \<and> conserves tb [] tb' []"
proof -
  consider (w) "names_slot t tb" "slot_state_of (token_slot t tb) = InFlightWaiting"
    | (r) "names_slot t tb" "slot_state_of (token_slot t tb) = InFlightReady"
    | (o) "\<not> (names_slot t tb \<and> slot_state_of (token_slot t tb) \<in> {InFlightWaiting, InFlightReady})" by auto
  then show ?thesis
  proof cases
    case w
    note i = named_index [OF w(1)]
    obtain tb' where tb': "mark_orphaned t tb = Some (tb', Applied)"
      "slots tb' = (slots tb)[unat (op_index t) := slot_set_state InFlightOrphaned (token_slot t tb)]"
      "ready_completion_count tb' = ready_completion_count tb" "fx_cleaned tb' = fx_cleaned tb @ []"
      using orphan_waiting [OF w] by auto
    have "table_inv tb'" using table_inv_update [OF inv i tb'(2)] w(2) tb'(3) by (simp add: slot_ok_def)
    moreover have "owned_ids tb' + {#} = owned_ids tb + {#}" by (rule owned_update [OF i tb'(2,4)]) simp
    ultimately show ?thesis using tb'(1) by (simp add: conserves_def)
  next
    case r
    then show ?thesis using orphan_ready discard_conserves [OF inv] by metis
  next
    case o
    then show ?thesis
      using orphan_other [of t tb] table_inv_not_finalizing [OF inv] conserves_same [OF inv] by metis
  qed
qed

lemma exec_conserves:
  assumes inv: "table_inv tb"
  shows "\<exists>tb' back. exec_call c tb = Some (tb', back) \<and> conserves tb (call_ids c) tb' back"
proof (cases c)
  case (CallRecord p)
  then show ?thesis using record_conserves [OF inv, of p] by auto
next
  case (CallTake t)
  then show ?thesis using take_conserves [OF inv, of t] by auto
next
  case (CallRegister t w)
  then show ?thesis using register_conserves [OF inv] by simp
next
  case (CallWaiting t)
  then show ?thesis using waiting_conserves [OF inv, of t] by auto
next
  case (CallDiscard t)
  then show ?thesis using discard_conserves [OF inv, of t] by auto
next
  case (CallOrphan t)
  then show ?thesis using orphan_conserves [OF inv, of t] by auto
qed

lemma run_conserves:
  assumes "table_inv tb"
  shows "\<exists>tb' back. run_calls cs tb = Some (tb', back) \<and> conserves tb (concat (map call_ids cs)) tb' back"
  using assms
proof (induction cs arbitrary: tb)
  case Nil
  then show ?case by (simp add: conserves_def)
next
  case (Cons c cs)
  obtain tb1 back1 where 1: "exec_call c tb = Some (tb1, back1)" "conserves tb (call_ids c) tb1 back1"
    using exec_conserves [OF Cons.prems] by blast
  then obtain tb2 back2 where 2: "run_calls cs tb1 = Some (tb2, back2)"
    "conserves tb1 (concat (map call_ids cs)) tb2 back2"
    using Cons.IH [of tb1] by (auto simp: conserves_def)
  have "conserves tb (call_ids c @ concat (map call_ids cs)) tb2 (back1 @ back2)"
    using 1(2) 2(2) unfolding conserves_def by (simp add: add_ac) (metis add.assoc add.commute)
  then show ?case using 1(1) 2(1) by simp
qed

subsection \<open>The interface to the futures\<close>

text \<open>The methods of the trait \<^verbatim>\<open>CompletionAccess\<close> that a future calls through its
  \<^verbatim>\<open>dyn\<close> handle, and what the trait promises in terms of one token: the operation is in
  flight (with the waker that will be woken), done (with the record to be taken), or gone.\<close>

record ('s, 'pay, 'det) completion_access =
  ca_record :: "('pay, 'det) completion_packet \<Rightarrow> 's \<Rightarrow> ('s \<times> ('pay, 'det) record_completion_result) option"
  ca_take :: "op_token \<Rightarrow> 's \<Rightarrow> 's \<times> (take_error + ('pay, 'det) poll_record_result)"
  ca_register :: "op_token \<Rightarrow> waker \<Rightarrow> 's \<Rightarrow> 's \<times> completion_mutation_outcome"
  ca_orphan :: "op_token \<Rightarrow> 's \<Rightarrow> ('s \<times> completion_mutation_outcome) option"

datatype ('pay, 'det) op_view =
    InFlight "waker option"
  | Done "('pay, 'det) completion_record"
  | Gone

fun packet_record :: "('pay, 'det) completion_packet \<Rightarrow> ('pay, 'det) completion_record" where
  "packet_record p = (case packet_input p of
     InputUser c \<Rightarrow> \<lparr>rec_event = packet_event p, rec_payload = uc_payload c, rec_detail = uc_detail c,
                     rec_cleanup = uc_cleanup c\<rparr>)"

locale completion_provider =
  fixes ca :: "('s, 'pay, 'det) completion_access"
    and inv :: "'s \<Rightarrow> bool"
    and view :: "op_token \<Rightarrow> 's \<Rightarrow> ('pay, 'det) op_view"
    and woken :: "'s \<Rightarrow> waker list"
  assumes take_law: "inv s \<Longrightarrow> \<exists>s' r. ca_take ca t s = (s', r) \<and> inv s' \<and> woken s' = woken s
      \<and> (\<forall>u. u \<noteq> t \<longrightarrow> view u s' = view u s)
      \<and> (case view t s of
           InFlight w \<Rightarrow> r = Inr PollPending \<and> view t s' = InFlight w
         | Done rec \<Rightarrow> r = Inr (PollReady rec) \<and> view t s' = Gone
         | Gone \<Rightarrow> (\<exists>k. r = Inr (PollUnavailable k (attach_from_op_token t))) \<and> view t s' = Gone)"
    and register_law: "inv s \<Longrightarrow> \<exists>s' out. ca_register ca t w s = (s', out) \<and> inv s'
      \<and> (\<forall>u. u \<noteq> t \<longrightarrow> view u s' = view u s)
      \<and> (case view t s of
           InFlight _ \<Rightarrow> view t s' = InFlight (Some w) \<and> woken s' = woken s
         | Done rec \<Rightarrow> view t s' = Done rec \<and> woken s' = woken s @ [w]
         | Gone \<Rightarrow> view t s' = Gone \<and> woken s' = woken s)"
    and record_law: "inv s \<Longrightarrow> \<exists>s' res. ca_record ca p s = Some (s', res) \<and> inv s'
      \<and> (\<forall>u. u \<noteq> packet_token p \<longrightarrow> view u s' = view u s)
      \<and> (case view (packet_token p) s of
           InFlight w \<Rightarrow> view (packet_token p) s' = Done (packet_record p)
                         \<and> woken s' = woken s @ (case w of None \<Rightarrow> [] | Some x \<Rightarrow> [x])
         | v \<Rightarrow> view (packet_token p) s' = v \<and> woken s' = woken s)"
    and orphan_law: "inv s \<Longrightarrow> \<exists>s' out. ca_orphan ca t s = Some (s', out) \<and> inv s' \<and> woken s' = woken s
      \<and> view t s' = Gone \<and> (\<forall>u. u \<noteq> t \<longrightarrow> view u s' = view u s)"
begin

text \<open>Whichever of the two comes first, registering a waker and recording the completion wake
  it.\<close>

lemma wake_either_order:
  assumes "inv s" "view (packet_token p) s = InFlight w0"
  shows "\<exists>s1 o1 s2 r2. ca_register ca (packet_token p) w s = (s1, o1) \<and> ca_record ca p s1 = Some (s2, r2)
           \<and> w \<in> set (drop (length (woken s)) (woken s2))"
    and "\<exists>s1 r1 s2 o2. ca_record ca p s = Some (s1, r1) \<and> ca_register ca (packet_token p) w s1 = (s2, o2)
           \<and> w \<in> set (drop (length (woken s)) (woken s2))"
proof -
  obtain s1 o1 where s1: "ca_register ca (packet_token p) w s = (s1, o1)" "inv s1"
    "view (packet_token p) s1 = InFlight (Some w)" "woken s1 = woken s"
    using register_law [OF assms(1), of "packet_token p" w] assms(2) by auto
  obtain s2 r2 where "ca_record ca p s1 = Some (s2, r2)" "woken s2 = woken s @ [w]"
    using record_law [OF s1(2), of p] s1(3,4) by auto
  with s1(1) show "\<exists>s1 o1 s2 r2. ca_register ca (packet_token p) w s = (s1, o1) \<and> ca_record ca p s1 = Some (s2, r2)
           \<and> w \<in> set (drop (length (woken s)) (woken s2))" by auto
  obtain s3 r3 where s3: "ca_record ca p s = Some (s3, r3)" "inv s3"
    "view (packet_token p) s3 = Done (packet_record p)"
    "woken s3 = woken s @ (case w0 of None \<Rightarrow> [] | Some x \<Rightarrow> [x])"
    using record_law [OF assms(1), of p] assms(2) by auto
  obtain s4 o4 where "ca_register ca (packet_token p) w s3 = (s4, o4)" "woken s4 = woken s3 @ [w]"
    using register_law [OF s3(2), of "packet_token p" w] s3(3) by auto
  with s3 show "\<exists>s1 r1 s2 o2. ca_record ca p s = Some (s1, r1) \<and> ca_register ca (packet_token p) w s1 = (s2, o2)
           \<and> w \<in> set (drop (length (woken s)) (woken s2))" by (cases w0) auto
qed

end

fun data_record :: "('pay, 'det) completion_data \<Rightarrow> ('pay, 'det) completion_record option" where
  "data_record DataEmpty = None"
| "data_record (DataUser ev payload detail cleanup) =
     Some \<lparr>rec_event = ev, rec_payload = payload, rec_detail = detail, rec_cleanup = cleanup\<rparr>"

definition slot_view :: "('pay, 'det) slot_data \<Rightarrow> ('pay, 'det) op_view" where
  "slot_view s = (case slot_state_of s of
     InFlightWaiting \<Rightarrow> InFlight (completion_waker s)
   | InFlightReady \<Rightarrow> (case data_record (completion_data s) of Some r \<Rightarrow> Done r | None \<Rightarrow> Gone)
   | _ \<Rightarrow> Gone)"

definition table_view :: "op_token \<Rightarrow> ('pay, 'det) slot_table \<Rightarrow> ('pay, 'det) op_view" where
  "table_view t tb = (if names_slot t tb then slot_view (token_slot t tb) else Gone)"

definition slot_table_access :: "(('pay, 'det) slot_table, 'pay, 'det) completion_access" where
  "slot_table_access = \<lparr>ca_record = record_completion, ca_take = try_take_record,
     ca_register = register_waker, ca_orphan = mark_orphaned\<rparr>"

lemma view_same: "same_slots tb tb' \<Longrightarrow> table_view u tb' = table_view u tb"
  by (simp add: table_view_def names_slot_def same_slots_def)

lemma token_eq_iff: "(u :: op_token) = t \<longleftrightarrow> unat (op_index u) = unat (op_index t) \<and> op_generation u = op_generation t"
  by (cases u; cases t) (auto simp only: op_token.simps word_unat_eq_iff unit_eq)


lemma view_update_other:
  assumes "names_slot t tb" "slots tb' = (slots tb)[unat (op_index t) := v]"
    "slot_generation_of v = op_generation t \<or> slot_view v = Gone" "u \<noteq> t"
  shows "table_view u tb' = table_view u tb"
  using assms
  by (cases "unat (op_index u) = unat (op_index t)") (auto simp: table_view_def names_slot_def token_eq_iff)

lemma view_update_own:
  assumes "names_slot t tb" "slots tb' = (slots tb)[unat (op_index t) := v]"
  shows "table_view t tb' = (if slot_generation_of v = op_generation t then slot_view v else Gone)"
  using assms by (auto simp: table_view_def names_slot_def)

lemma taken_view [simp]: "slot_view (taken_slot s) = Gone"
  by (simp add: slot_view_def)

lemma completed_view [simp]: "slot_view (completed_slot p s) = Done (packet_record p)"
  by (cases "packet_input p") (simp add: slot_view_def)

lemma view_InFlight:
  "table_view t tb = InFlight w \<longleftrightarrow> names_slot t tb \<and> slot_state_of (token_slot t tb) = InFlightWaiting
     \<and> completion_waker (token_slot t tb) = w"
  by (auto simp: table_view_def slot_view_def split: slot_state.splits option.splits)

lemma view_Done:
  "table_view t tb = Done r \<longleftrightarrow> names_slot t tb \<and> slot_state_of (token_slot t tb) = InFlightReady
     \<and> data_record (completion_data (token_slot t tb)) = Some r"
  by (auto simp: table_view_def slot_view_def split: slot_state.splits option.splits)

lemma view_Gone:
  assumes "table_inv tb"
  shows "table_view t tb = Gone \<longleftrightarrow>
     \<not> (names_slot t tb \<and> slot_state_of (token_slot t tb) \<in> {InFlightWaiting, InFlightReady})"
proof -
  have "slot_ok (token_slot t tb)" if "names_slot t tb"
    using table_inv_slot [OF assms named_index [OF that]] .
  then show ?thesis
    by (cases "completion_data (token_slot t tb)")
      (auto simp: table_view_def slot_view_def slot_ok_def split: slot_state.splits)
qed

lemma table_take_law:
  assumes inv: "table_inv tb"
  shows "\<exists>tb' r. try_take_record t tb = (tb', r) \<and> table_inv tb' \<and> fx_woken tb' = fx_woken tb
     \<and> (\<forall>u. u \<noteq> t \<longrightarrow> table_view u tb' = table_view u tb)
     \<and> (case table_view t tb of
          InFlight w \<Rightarrow> r = Inr PollPending \<and> table_view t tb' = InFlight w
        | Done rec \<Rightarrow> r = Inr (PollReady rec) \<and> table_view t tb' = Gone
        | Gone \<Rightarrow> (\<exists>k. r = Inr (PollUnavailable k (attach_from_op_token t))) \<and> table_view t tb' = Gone)"
proof -
  obtain tb1 r1 where inv': "try_take_record t tb = (tb1, r1)" "table_inv tb1"
    using take_conserves [OF inv, of t] by (auto simp: conserves_def)
  from inv show ?thesis
  proof (cases rule: take_cases [where t = t])
    case (Ready ev payload detail cleanup tb')
    have "table_view t tb = Done \<lparr>rec_event = ev, rec_payload = payload, rec_detail = detail, rec_cleanup = cleanup\<rparr>"
      using Ready(1-3) by (simp add: view_Done)
    moreover have "table_view t tb' = Gone" using view_update_own [OF Ready(1,5)] by simp
    moreover have "\<forall>u. u \<noteq> t \<longrightarrow> table_view u tb' = table_view u tb"
      using view_update_other [OF Ready(1,5)] by simp
    ultimately show ?thesis using Ready inv' by simp
  next
    case Waiting
    then have "table_view t tb = InFlight (completion_waker (token_slot t tb))" by (simp add: view_InFlight)
    then show ?thesis using Waiting inv by simp
  next
    case (Gone tb' k)
    then have "table_view t tb = Gone" by (simp add: view_Gone [OF inv])
    then show ?thesis using Gone(2,3) inv' view_same [OF Gone(3)] by (simp add: same_slots_def)
  qed
qed

lemma table_register_law:
  assumes inv: "table_inv tb"
  shows "\<exists>tb' out. register_waker t w tb = (tb', out) \<and> table_inv tb'
     \<and> (\<forall>u. u \<noteq> t \<longrightarrow> table_view u tb' = table_view u tb)
     \<and> (case table_view t tb of
          InFlight _ \<Rightarrow> table_view t tb' = InFlight (Some w) \<and> fx_woken tb' = fx_woken tb
        | Done rec \<Rightarrow> table_view t tb' = Done rec \<and> fx_woken tb' = fx_woken tb @ [w]
        | Gone \<Rightarrow> table_view t tb' = Gone \<and> fx_woken tb' = fx_woken tb)"
proof (cases "names_slot t tb")
  case True
  let ?v = "(token_slot t tb)\<lparr>completion_waker := Some w\<rparr>"
  obtain tb' out where tb': "register_waker t w tb = (tb', out)"
    "slots tb' = (slots tb)[unat (op_index t) := ?v]"
    "fx_woken tb' = fx_woken tb @ (if slot_state_of (token_slot t tb) = InFlightReady then [w] else [])"
    using register_named [OF True] by blast
  have gen: "slot_generation_of ?v = op_generation t" using True by (simp add: names_slot_def)
  have others: "\<forall>u. u \<noteq> t \<longrightarrow> table_view u tb' = table_view u tb"
    using view_update_other [OF True tb'(2)] gen by simp
  have own: "table_view t tb' = slot_view ?v" using view_update_own [OF True tb'(2)] gen by simp
  have "table_inv tb'" using register_conserves [OF inv, of t w] tb'(1) by (simp add: conserves_def)
  moreover have "slot_ok (token_slot t tb)" by (rule table_inv_slot [OF inv named_index [OF True]])
  ultimately show ?thesis
    using tb' others own True
    by (cases "completion_data (token_slot t tb)")
      (auto simp: table_view_def slot_view_def slot_ok_def split: slot_state.splits)
next
  case False
  then obtain tb' out where tb': "register_waker t w tb = (tb', out)" "same_slots tb tb'"
    using register_unnamed by blast
  then show ?thesis
    using False table_inv_same [OF inv tb'(2)] view_same [OF tb'(2)]
    by (simp add: table_view_def same_slots_def)
qed

lemma table_record_law:
  assumes inv: "table_inv tb"
  shows "\<exists>tb' res. record_completion p tb = Some (tb', res) \<and> table_inv tb'
     \<and> (\<forall>u. u \<noteq> packet_token p \<longrightarrow> table_view u tb' = table_view u tb)
     \<and> (case table_view (packet_token p) tb of
          InFlight w \<Rightarrow> table_view (packet_token p) tb' = Done (packet_record p)
                        \<and> fx_woken tb' = fx_woken tb @ (case w of None \<Rightarrow> [] | Some x \<Rightarrow> [x])
        | v \<Rightarrow> table_view (packet_token p) tb' = v \<and> fx_woken tb' = fx_woken tb)"
proof -
  let ?t = "packet_token p"
  obtain tb1 r1 where inv': "record_completion p tb = Some (tb1, r1)" "table_inv tb1"
    using record_conserves [OF inv, of p] by (auto simp: conserves_def)
  show ?thesis
  proof (cases "names_slot ?t tb \<and> slot_state_of (token_slot ?t tb) = InFlightWaiting")
    case True
    then have n: "names_slot ?t tb" and st: "slot_state_of (token_slot ?t tb) = InFlightWaiting" by auto
    obtain tb' where tb': "record_completion p tb = Some (tb', RecResRecorded RecordedUser)"
      "slots tb' = (slots tb)[unat (op_index ?t) := completed_slot p (token_slot ?t tb)]"
      "fx_woken tb' = fx_woken tb @ (case completion_waker (token_slot ?t tb) of None \<Rightarrow> [] | Some w \<Rightarrow> [w])"
      using record_waiting [OF n st] by blast
    have gen: "slot_generation_of (completed_slot p (token_slot ?t tb)) = op_generation ?t"
      using n by (simp add: names_slot_def)
    have "table_view ?t tb = InFlight (completion_waker (token_slot ?t tb))"
      using n st by (simp add: view_InFlight)
    moreover have "table_view ?t tb' = Done (packet_record p)" using view_update_own [OF n tb'(2)] gen by simp
    moreover have "\<forall>u. u \<noteq> ?t \<longrightarrow> table_view u tb' = table_view u tb"
      using view_update_other [OF n tb'(2)] gen by simp
    ultimately show ?thesis using tb' inv' by simp
  next
    case False
    obtain tb' out where tb': "record_completion p tb = Some (tb', RecResRejected out p)" "same_slots tb tb'"
      using record_rejected [of p tb] False table_inv_not_finalizing [OF inv] by (metis named_index)
    have "table_view ?t tb \<noteq> InFlight w" for w using False by (auto simp: view_InFlight)
    then show ?thesis
      using tb' inv' view_same [OF tb'(2)]
      by (cases "table_view ?t tb") (auto simp: same_slots_def)
  qed
qed

lemma table_orphan_law:
  assumes inv: "table_inv tb"
  shows "\<exists>tb' out. mark_orphaned t tb = Some (tb', out) \<and> table_inv tb' \<and> fx_woken tb' = fx_woken tb
     \<and> table_view t tb' = Gone \<and> (\<forall>u. u \<noteq> t \<longrightarrow> table_view u tb' = table_view u tb)"
proof -
  obtain tb1 r1 where inv': "mark_orphaned t tb = Some (tb1, r1)" "table_inv tb1"
    using orphan_conserves [OF inv, of t] by (auto simp: conserves_def)
  consider (w) "names_slot t tb" "slot_state_of (token_slot t tb) = InFlightWaiting"
    | (r) "names_slot t tb" "slot_state_of (token_slot t tb) = InFlightReady"
    | (o) "\<not> (names_slot t tb \<and> slot_state_of (token_slot t tb) \<in> {InFlightWaiting, InFlightReady})" by auto
  then show ?thesis
  proof cases
    case w
    let ?v = "slot_set_state InFlightOrphaned (token_slot t tb)"
    obtain tb' where tb': "mark_orphaned t tb = Some (tb', Applied)"
      "slots tb' = (slots tb)[unat (op_index t) := ?v]" "fx_woken tb' = fx_woken tb"
      using orphan_waiting [OF w] by blast
    have v: "slot_view ?v = Gone" by (simp add: slot_view_def)
    show ?thesis using tb' inv' view_update_own [OF w(1) tb'(2)] view_update_other [OF w(1) tb'(2)] v by simp
  next
    case r
    obtain tb' where tb': "mark_orphaned t tb = Some (tb', Applied)"
      "slots tb' = (slots tb)[unat (op_index t) := taken_slot (token_slot t tb)]" "fx_woken tb' = fx_woken tb"
      using discard_ready [OF r] orphan_ready [OF r] by auto
    show ?thesis using tb' inv' view_update_own [OF r(1) tb'(2)] view_update_other [OF r(1) tb'(2)] by simp
  next
    case o
    then have "table_view t tb = Gone" by (simp add: view_Gone [OF inv])
    moreover obtain tb' out where tb': "mark_orphaned t tb = Some (tb', out)" "same_slots tb tb'"
      using orphan_other [of t tb] o table_inv_not_finalizing [OF inv] by metis
    ultimately show ?thesis using inv' view_same [OF tb'(2)] by (simp add: same_slots_def)
  qed
qed

interpretation tab: completion_provider slot_table_access table_inv table_view fx_woken
  by unfold_locales
    (unfold slot_table_access_def completion_access.simps,
      (rule table_take_law table_register_law table_record_law table_orphan_law, assumption)+)


subsection \<open>The registry keeps the table's invariant\<close>

lemma ready_slots_core: "ready_slots sl = length (filter (\<lambda>c. pc_state c = InFlightReady) (map core_state sl))"
  by (simp add: ready_slots_def filter_map comp_def)

lemma table_inv_same_core:
  assumes "table_inv tb" "same_core tb tb'"
  shows "table_inv tb'"
proof -
  have "map core_state (slots tb') = map core_state (slots tb)"
    "map completion_data (slots tb') = map completion_data (slots tb)"
    using same_core_fields [OF assms(2)] same_core_length [OF assms(2)] by (auto intro!: nth_equalityI)
  then have "ready_slots (slots tb') = ready_slots (slots tb)"
    unfolding ready_slots_core by simp
  moreover have "\<forall>s \<in> set (slots tb'). slot_ok s"
    using table_inv_slot [OF assms(1)] same_core_fields(1,2) [OF assms(2)] same_core_length [OF assms(2)]
    by (simp add: slot_ok_def all_set_conv_all_nth)
  ultimately show ?thesis using assms by (simp add: table_inv_def same_core_def)
qed

lemma alloc_table_inv:
  assumes "registry_inv r" "table_inv (shared r)" "alloc data r = Some (r', res)"
  shows "table_inv (shared r')"
proof (cases res)
  case (Inl d)
  then show ?thesis using alloc_spec [OF assms(1), of data] assms(2,3) table_inv_same_core by auto
next
  case (Inr h)
  have len: "length (slots (shared r)) = length (locals r)"
    using assms(1) by (auto simp: registry_inv_def chains_ok_def)
  have h: "h_index h < length (slots (shared r))" "slot_state_of (slots (shared r) ! h_index h) = Idle"
    "claimed (h_index h) data r r' h"
    using alloc_spec [OF assms(1), of data] assms(3) Inr len by auto
  let ?f = "\<lambda>s. slot_set_state Reserved (slot_reset (h_generation h) s)"
  have "table_inv (upd_slot (h_index h) ?f (shared r))"
    by (rule table_inv_update [OF assms(2) h(1) slots_upd_slot]) (simp_all add: slot_ok_def h(2))
  then show ?thesis using table_inv_same_core h(3) by (auto simp: claimed_def)
qed

lemma remove_table_inv:
  assumes "registry_inv r" "table_inv (shared r)" "remove t r = Some (r', d)"
  shows "table_inv (shared r')"
proof (cases "token_live t r")
  case True
  let ?i = "unat (op_index t)"
  have i: "?i < length (slots (shared r))"
    using True assms(1) by (auto simp: token_live_def registry_inv_def chains_ok_def)
  have "slot_ok (slots (shared r) ! ?i)" by (rule table_inv_slot [OF assms(2) i])
  then have "table_inv (upd_slot ?i slot_free (shared r))"
    by (intro table_inv_update [OF assms(2) i slots_upd_slot]) (auto simp: slot_ok_def slot_free_state)
  moreover have "same_core (upd_slot ?i slot_free (shared r)) (shared r')"
    using remove_live [OF assms(1) True] assms(3) by auto
  ultimately show ?thesis using table_inv_same_core by blast
next
  case False
  show ?thesis using assms(2,3) remove_not_live [OF False] by simp
qed

subsection \<open>Properties\<close>

text \<open>A completion is delivered exactly once. Recording the completion of an operation that is
  waiting succeeds, wakes the waker registered for it, and makes exactly the recorded event,
  payload, detail and cleanup available to the owner of the token; taking it frees the slot under
  its next generation; the same token finds nothing from then on, and recording for it again is
  rejected with the packet handed back. No other operation's view of the table changes.\<close>

theorem completion_delivered_once:
  assumes "table_inv tb" "table_view (packet_token p) tb = InFlight w"
  shows "\<exists>tb1 tb2. record_completion p tb = Some (tb1, RecResRecorded RecordedUser)
     \<and> fx_woken tb1 = fx_woken tb @ (case w of None \<Rightarrow> [] | Some x \<Rightarrow> [x])
     \<and> try_take_record (packet_token p) tb1 = (tb2, Inr (PollReady (packet_record p)))
     \<and> slot_state_of (token_slot (packet_token p) tb2) = Idle
     \<and> slot_generation_of (token_slot (packet_token p) tb2) = op_generation (packet_token p) + 1
     \<and> (\<exists>tb3 k att. try_take_record (packet_token p) tb2 = (tb3, Inr (PollUnavailable k att)))
     \<and> (\<forall>q. packet_token q = packet_token p \<longrightarrow>
           (\<exists>tb3 out. record_completion q tb2 = Some (tb3, RecResRejected out q)))
     \<and> (\<forall>u. u \<noteq> packet_token p \<longrightarrow> table_view u tb2 = table_view u tb)"
proof -
  let ?t = "packet_token p"
  have n: "names_slot ?t tb" "slot_state_of (token_slot ?t tb) = InFlightWaiting"
    "completion_waker (token_slot ?t tb) = w"
    using assms(2) by (auto simp: view_InFlight)
  obtain tb1 where tb1: "record_completion p tb = Some (tb1, RecResRecorded RecordedUser)"
    "slots tb1 = (slots tb)[unat (op_index ?t) := completed_slot p (token_slot ?t tb)]"
    "fx_woken tb1 = fx_woken tb @ (case w of None \<Rightarrow> [] | Some x \<Rightarrow> [x])"
    using record_waiting [OF n(1,2)] n(3) by blast
  have inv1: "table_inv tb1" and done1: "table_view ?t tb1 = Done (packet_record p)"
    and other1: "\<forall>u. u \<noteq> ?t \<longrightarrow> table_view u tb1 = table_view u tb"
    using table_record_law [OF assms(1), of p] assms(2) tb1(1) by auto
  have n1: "names_slot ?t tb1" "slot_state_of (token_slot ?t tb1) = InFlightReady"
    using done1 by (simp_all add: view_Done)
  obtain tb2 where tb2: "try_take_record ?t tb1 = (tb2, Inr (PollReady (packet_record p)))"
    "table_inv tb2" "table_view ?t tb2 = Gone"
    "\<forall>u. u \<noteq> ?t \<longrightarrow> table_view u tb2 = table_view u tb1"
    using table_take_law [OF inv1, of ?t] done1 by auto
  from inv1 have sl2: "slots tb2 = (slots tb1)[unat (op_index ?t) := taken_slot (token_slot ?t tb1)]"
    by (cases rule: take_cases [where t = ?t]) (use tb2(1) n1 in auto)
  have i: "unat (op_index ?t) < length (slots tb1)" using n1(1) by (rule named_index)
  have free: "slot_state_of (token_slot ?t tb2) = Idle"
    "slot_generation_of (token_slot ?t tb2) = op_generation ?t + 1"
    using sl2 i n1(1) by (simp_all add: names_slot_def)
  have "\<exists>tb3 k att. try_take_record ?t tb2 = (tb3, Inr (PollUnavailable k att))"
    using table_take_law [OF tb2(2), of ?t] tb2(3) by auto
  moreover have "\<exists>tb3 out. record_completion q tb2 = Some (tb3, RecResRejected out q)"
    if "packet_token q = ?t" for q
    using record_rejected [of q tb2] that free(1) by auto
  ultimately show ?thesis using tb1 tb2 free other1 by metis
qed

text \<open>C11. Cleanup actions are neither lost nor run twice: for any sequence of calls on the table,
  every call returns, and the cleanups that have run, are still held by the table or have been
  handed back to a caller are exactly, with multiplicities, those that were there before and those
  that came in with the recorded packets.\<close>

theorem cleanups_conserved:
  assumes "table_inv tb"
  shows "\<exists>tb' back. run_calls cs tb = Some (tb', back) \<and> table_inv tb'
     \<and> mset (fx_cleaned tb') + stored_ids (slots tb') + mset back
       = mset (fx_cleaned tb) + stored_ids (slots tb) + mset (concat (map call_ids cs))"
  using run_conserves [OF assms, of cs] by (auto simp: conserves_def owned_ids_def)

text \<open>No wake-up is lost: whichever of registering a waker for an operation and recording its
  completion happens first, the waker is woken by the time both have happened.\<close>

theorem no_lost_wakeup:
  assumes "table_inv tb" "table_view (packet_token p) tb = InFlight w0"
  shows "(\<exists>tb1 o1 tb2 r2. register_waker (packet_token p) w tb = (tb1, o1)
            \<and> record_completion p tb1 = Some (tb2, r2)
            \<and> w \<in> set (drop (length (fx_woken tb)) (fx_woken tb2)))
       \<and> (\<exists>tb1 r1 tb2 o2. record_completion p tb = Some (tb1, r1)
            \<and> register_waker (packet_token p) w tb1 = (tb2, o2)
            \<and> w \<in> set (drop (length (fx_woken tb)) (fx_woken tb2)))"
  using tab.wake_either_order [OF assms, of w] by (simp add: slot_table_access_def)

text \<open>C14. A token that does not name the current generation of its slot cannot disturb the
  operation that occupies the slot: recording, taking, registering a waker, marking and discarding
  with it all return, report a rejection, and leave every slot, the free list, the ready count, the
  wake-ups and the cleanups unchanged.\<close>

theorem stale_tokens_harmless:
  assumes "table_inv tb" "\<not> names_slot (packet_token p) tb"
  shows "(\<exists>tb' out. record_completion p tb = Some (tb', RecResRejected out p) \<and> same_slots tb tb')
     \<and> (\<exists>tb' k att. try_take_record (packet_token p) tb = (tb', Inr (PollUnavailable k att)) \<and> same_slots tb tb')
     \<and> (\<exists>tb' out. register_waker (packet_token p) w tb = (tb', out) \<and> out \<noteq> Applied \<and> same_slots tb tb')
     \<and> (\<exists>tb' out. mark_waiting (packet_token p) tb = Some (tb', out) \<and> out \<noteq> Applied \<and> same_slots tb tb')
     \<and> (\<exists>tb' out. discard_ready_record (packet_token p) tb = Some (tb', out) \<and> out \<noteq> Applied \<and> same_slots tb tb')
     \<and> (\<exists>tb' out. mark_orphaned (packet_token p) tb = Some (tb', out) \<and> out \<noteq> Applied \<and> same_slots tb tb')"
proof -
  let ?t = "packet_token p"
  have nf: "unat (op_index ?t) < length (slots tb) \<Longrightarrow> slot_state_of (token_slot ?t tb) \<noteq> Finalizing"
    by (rule table_inv_not_finalizing [OF assms(1)])
  have "\<exists>tb' out. mark_waiting ?t tb = Some (tb', out) \<and> out \<noteq> Applied \<and> same_slots tb tb'"
    using mark_waiting_pure [of ?t tb] assms(2) by auto
  moreover have "\<exists>tb' out. record_completion p tb = Some (tb', RecResRejected out p) \<and> same_slots tb tb'"
    using record_rejected [of p tb] assms(2) by auto
  ultimately show ?thesis
    using take_unavailable [of ?t tb] register_unnamed [OF assms(2), of w]
      discard_other [of ?t tb, OF _ nf] orphan_other [of ?t tb, OF _ nf] assms(2) by metis
qed

text \<open>C15. Abandoning an operation never leaks its cleanup: if the future is dropped while the
  operation is in flight, the later completion is rejected as orphaned and the driver's handling of
  the returned packet runs its cleanup exactly once; if the completion was already there, dropping
  the future runs the stored cleanup exactly once and frees the slot.\<close>

theorem orphan_cleanup_exactly_once:
  assumes "table_inv tb" "names_slot (packet_token p) tb"
  shows "(slot_state_of (token_slot (packet_token p) tb) = InFlightWaiting \<longrightarrow>
            (\<exists>tb1 tb2. mark_orphaned (packet_token p) tb = Some (tb1, Applied)
               \<and> record_completion p tb1 = Some (tb2, RecResRejected OrphanedDropped p)
               \<and> fx_cleaned (run_rejected_cleanup p tb2)
                   = fx_cleaned tb @ guard_drop (input_cleanup (packet_input p))))
     \<and> (slot_state_of (token_slot (packet_token p) tb) = InFlightReady \<longrightarrow>
            (\<exists>tb1. mark_orphaned (packet_token p) tb = Some (tb1, Applied)
               \<and> fx_cleaned tb1 = fx_cleaned tb @ data_ids (completion_data (token_slot (packet_token p) tb))
               \<and> slot_state_of (token_slot (packet_token p) tb1) = Idle))"
proof (intro conjI impI)
  let ?t = "packet_token p"
  assume w: "slot_state_of (token_slot ?t tb) = InFlightWaiting"
  obtain tb1 where tb1: "mark_orphaned ?t tb = Some (tb1, Applied)"
    "slots tb1 = (slots tb)[unat (op_index ?t) := slot_set_state InFlightOrphaned (token_slot ?t tb)]"
    "fx_cleaned tb1 = fx_cleaned tb"
    using orphan_waiting [OF assms(2) w] by blast
  have "record_completion p tb1 = Some (rejected_completion OrphanedDropped (packet_event p) p tb1)"
    using assms(2) tb1(2) by (simp add: record_completion_def Let_def names_slot_def)
  then show "\<exists>tb1 tb2. mark_orphaned ?t tb = Some (tb1, Applied)
               \<and> record_completion p tb1 = Some (tb2, RecResRejected OrphanedDropped p)
               \<and> fx_cleaned (run_rejected_cleanup p tb2)
                   = fx_cleaned tb @ guard_drop (input_cleanup (packet_input p))"
    using tb1(1,3) rejected_completion_simps(5,6) [of OrphanedDropped "packet_event p" p tb1]
    by (metis prod.collapse rejected_cleanup_simps(5))
next
  let ?t = "packet_token p"
  assume r: "slot_state_of (token_slot ?t tb) = InFlightReady"
  show "\<exists>tb1. mark_orphaned ?t tb = Some (tb1, Applied)
               \<and> fx_cleaned tb1 = fx_cleaned tb @ data_ids (completion_data (token_slot ?t tb))
               \<and> slot_state_of (token_slot ?t tb1) = Idle"
    using discard_ready [OF assms(2) r] orphan_ready [OF assms(2) r] named_index [OF assms(2)]
    by fastforce
qed

text \<open>A table with one operation waiting under the token of index 1 and generation 5.\<close>

definition sample_packet :: "(nat, nat) completion_packet" where
  "sample_packet = packet_user_event (user_event_from_parts CoreBackend \<lparr>op_index = 1, op_generation = 5\<rparr> 42 0)
     10 None (guard_new (Cleanup 77 True))"

definition sample_table :: "(nat, nat) slot_table" where
  "sample_table = (slot_table_new 2)\<lparr>slots := [slot_data_new,
     (slot_set_state InFlightWaiting (slot_reset 5 slot_data_new))\<lparr>completion_waker := Some 9\<rparr>]\<rparr>"

lemma sample_packet_token [simp]: "packet_token sample_packet = \<lparr>op_index = 1, op_generation = 5\<rparr>"
  by (simp add: sample_packet_def packet_token_def packet_user_event_def user_event_from_parts_def)

lemma sample_table_inv: "table_inv sample_table"
  by (simp add: table_inv_def sample_table_def slot_table_new_def slot_ok_def slot_data_new_def NULL_INDEX_def
      ready_slots_def slot_reset_def slot_set_state_def with_state_def)

lemma sample_table_view: "table_view \<lparr>op_index = 1, op_generation = 5\<rparr> sample_table = InFlight (Some 9)"
  by (simp add: view_InFlight names_slot_def sample_table_def slot_table_new_def)

lemma completion_delivered_once_witness:
  "\<exists>tb1 tb2. record_completion sample_packet sample_table = Some (tb1, RecResRecorded RecordedUser)
     \<and> fx_woken tb1 = fx_woken sample_table @ [9]
     \<and> try_take_record \<lparr>op_index = 1, op_generation = 5\<rparr> tb1 = (tb2, Inr (PollReady (packet_record sample_packet)))"
  using completion_delivered_once [of sample_table sample_packet "Some 9"] sample_table_inv sample_table_view
  by auto

lemma cleanups_conserved_witness:
  "\<exists>tb' back. run_calls [CallRecord sample_packet, CallOrphan \<lparr>op_index = 1, op_generation = 5\<rparr>] sample_table
       = Some (tb', back)
     \<and> mset (fx_cleaned tb') + stored_ids (slots tb') + mset back = {#77#}"
proof -
  have "stored_ids (slots sample_table) = {#}" "fx_cleaned sample_table = []"
    "call_ids (CallRecord sample_packet) = [77]"
    by (simp_all add: stored_ids_def sample_table_def slot_table_new_def slot_data_new_def slot_reset_def
        slot_set_state_def sample_packet_def packet_user_event_def guard_new_def guard_drop_def)
  then show ?thesis
    using cleanups_conserved [OF sample_table_inv,
        of "[CallRecord sample_packet, CallOrphan \<lparr>op_index = 1, op_generation = 5\<rparr>]"]
    by (auto simp del: run_calls.simps call_ids.simps(1))
qed

lemma no_lost_wakeup_witness:
  "\<exists>tb1 o1 tb2 r2. register_waker \<lparr>op_index = 1, op_generation = 5\<rparr> 3 sample_table = (tb1, o1)
     \<and> record_completion sample_packet tb1 = Some (tb2, r2)
     \<and> 3 \<in> set (drop (length (fx_woken sample_table)) (fx_woken tb2))"
  using no_lost_wakeup [of sample_table sample_packet "Some 9" 3] sample_table_inv sample_table_view by simp

lemma stale_tokens_harmless_witness:
  "let p = sample_packet\<lparr>packet_event := user_event_from_parts CoreBackend \<lparr>op_index = 1, op_generation = 4\<rparr> 0 0\<rparr>
   in \<exists>tb' out. record_completion p sample_table = Some (tb', RecResRejected out p) \<and> same_slots sample_table tb'"
  using stale_tokens_harmless [of sample_table
      "sample_packet\<lparr>packet_event := user_event_from_parts CoreBackend \<lparr>op_index = 1, op_generation = 4\<rparr> 0 0\<rparr>" 0]
    sample_table_inv
  by (simp add: packet_token_def user_event_from_parts_def names_slot_def sample_table_def slot_table_new_def)

lemma orphan_cleanup_exactly_once_witness:
  "\<exists>tb1 tb2. mark_orphaned \<lparr>op_index = 1, op_generation = 5\<rparr> sample_table = Some (tb1, Applied)
     \<and> record_completion sample_packet tb1 = Some (tb2, RecResRejected OrphanedDropped sample_packet)
     \<and> fx_cleaned (run_rejected_cleanup sample_packet tb2) = [77]"
proof -
  have "names_slot (packet_token sample_packet) sample_table"
    "slot_state_of (token_slot (packet_token sample_packet) sample_table) = InFlightWaiting"
    using sample_table_view by (auto simp: view_InFlight)
  moreover have "fx_cleaned sample_table = []" "guard_drop (input_cleanup (packet_input sample_packet)) = [77]"
    by (simp_all add: sample_table_def slot_table_new_def sample_packet_def packet_user_event_def guard_new_def
        guard_drop_def)
  ultimately show ?thesis
    using orphan_cleanup_exactly_once [OF sample_table_inv, of sample_packet] by simp
qed

end
