(* ===== verification/Slot_View.thy ===== *)
theory Slot_View
  imports Completion_Table
begin

text \<open>
  The typed views of a slot (\<^verbatim>\<open>slot.rs\<close>) and the registry accessors they are built from
  (\<^verbatim>\<open>driver/registry.rs\<close>). A value \<^verbatim>\<open>Slot<State, Spec>\<close> borrows the shared entry and the
  driver's private half of one index; it is modelled by that index, the type state by the name of
  the operation, and its methods act on the registry.
\<close>

subsection \<open>Access errors and views\<close>

datatype slot_access_action = InitOp | StartSubmission | OpMut | OpPayloadMut | TakeOp | TakeCompletionData

datatype slot_access_reason = MissingOp | MissingPayload | UnexpectedOp

record slot_access_error =
  sae_action :: slot_access_action
  sae_reason :: slot_access_reason
  sae_snapshot :: slot_snapshot

datatype slot_view_ref = ViewReserved nat | ViewWaiting nat | ViewOrphaned nat

datatype checked_slot_view =
    CheckedValid slot_view_ref
  | CheckedMissing usize u32
  | CheckedEmpty slot_snapshot
  | CheckedStale slot_snapshot

text \<open>The internal errors the core reports while routing a completion.\<close>

datatype core_error =
    CorruptSlot slot_snapshot
  | ReservedBindFailed slot_snapshot
  | ReservedCompleted slot_snapshot
  | FinalizeFailed slot_snapshot
  | UnclassifiedCompletion completion_identity

subsection \<open>Registry accessors\<close>

definition slot_bundle_by_index :: "nat \<Rightarrow> ('op, 'pay, 'det, 'side, 'plat) op_registry \<Rightarrow> nat option" where
  "slot_bundle_by_index i r = (if i < length (slots (shared r)) \<and> i < length (locals r) then Some i else None)"

definition active_slot_bundle :: "op_token \<Rightarrow> ('op, 'pay, 'det, 'side, 'plat) op_registry \<Rightarrow> nat option" where
  "active_slot_bundle t r =
     (if \<not> is_current_active t r then None else slot_bundle_by_index (unat (op_index t)) r)"

definition with_slot_storage ::
  "op_token \<Rightarrow> (('pay, 'det, 'side) slot_storage \<Rightarrow> ('pay, 'det, 'side) slot_storage \<times> 'x)
     \<Rightarrow> ('op, 'pay, 'det, 'side, 'plat) op_registry \<Rightarrow> ('op, 'pay, 'det, 'side, 'plat) op_registry \<times> 'x option" where
  "with_slot_storage t f r =
     (if \<not> is_current_active t r then (r, None)
      else let i = unat (op_index t) in
        if i < length (locals r) then
          (case f (ls_storage (locals r ! i)) of
             (st, x) \<Rightarrow> (upd_local i (\<lambda>l. l\<lparr>ls_storage := st\<rparr>) r, Some x))
        else (r, None))"

definition platform_get :: "op_token \<Rightarrow> ('op, 'pay, 'det, 'side, 'plat) op_registry \<Rightarrow> 'plat option" where
  "platform_get t r = map_option (\<lambda>i. ls_platform (locals r ! i)) (active_slot_bundle t r)"

definition finalize_corrupt_slot ::
  "slot_snapshot \<Rightarrow> ('op, 'pay, 'det, 'side::default, 'plat::default) op_registry
     \<Rightarrow> (('op, 'pay, 'det, 'side, 'plat) op_registry \<times> 'plat option) option" where
  "finalize_corrupt_slot snap r =
     (case op_token_try_new (snap_index snap) (snap_generation snap) of
        Inl _ \<Rightarrow> Some (r, None) | Inr t \<Rightarrow> remove t r)"

subsection \<open>Methods of a slot\<close>

definition snapshot_at :: "nat \<Rightarrow> ('op, 'pay, 'det, 'side, 'plat) op_registry \<Rightarrow> slot_snapshot" where
  "snapshot_at i r = \<lparr>snap_index = of_nat i,
     snap_generation = slot_generation_of (slots (shared r) ! i),
     snap_state = slot_state_of (slots (shared r) ! i),
     snap_has_op = (ls_op (locals r ! i) \<noteq> None),
     snap_has_payload = (st_payload (ls_storage (locals r ! i)) \<noteq> None)\<rparr>"

definition access_error ::
  "slot_access_action \<Rightarrow> slot_access_reason \<Rightarrow> nat \<Rightarrow> ('op, 'pay, 'det, 'side, 'plat) op_registry
     \<Rightarrow> slot_access_error" where
  "access_error act reason i r = \<lparr>sae_action = act, sae_reason = reason, sae_snapshot = snapshot_at i r\<rparr>"

definition with_op_and_payload ::
  "nat \<Rightarrow> ('op \<Rightarrow> 'pay \<Rightarrow> 'op \<times> 'pay \<times> 'x) \<Rightarrow> ('op, 'pay, 'det, 'side, 'plat) op_registry
     \<Rightarrow> ('op, 'pay, 'det, 'side, 'plat) op_registry \<times> (slot_access_error + 'x)" where
  "with_op_and_payload i f r =
     (case ls_op (locals r ! i) of
        None \<Rightarrow> (r, Inl (access_error OpPayloadMut MissingOp i r))
      | Some op \<Rightarrow> (case st_payload (ls_storage (locals r ! i)) of
            None \<Rightarrow> (r, Inl (access_error OpPayloadMut MissingPayload i r))
          | Some pay \<Rightarrow> (case f op pay of (op', pay', x) \<Rightarrow>
              (upd_local i (\<lambda>l. l\<lparr>ls_op := Some op',
                 ls_storage := (ls_storage l)\<lparr>st_payload := Some pay'\<rparr>\<rparr>) r, Inr x))))"

definition try_bind :: "nat \<Rightarrow> ('op, 'pay, 'det, 'side, 'plat) op_registry \<Rightarrow> nat option" where
  "try_bind i r =
     (if slot_state_of (slots (shared r) ! i) = Reserved \<and> ls_op (locals r ! i) = None then Some i else None)"

definition init_op_with ::
  "nat \<Rightarrow> 'op \<Rightarrow> ('side \<Rightarrow> 'side) \<Rightarrow> ('op, 'pay, 'det, 'side, 'plat) op_registry
     \<Rightarrow> ('op, 'pay, 'det, 'side, 'plat) op_registry \<times> (slot_access_error + nat)" where
  "init_op_with i op init_sidecar r =
     (if ls_op (locals r ! i) \<noteq> None then (r, Inl (access_error InitOp UnexpectedOp i r))
      else (upd_local i (\<lambda>l. l\<lparr>ls_op := Some op,
              ls_storage := (ls_storage l)\<lparr>st_sidecar := init_sidecar (st_sidecar (ls_storage l))\<rparr>\<rparr>) r, Inr i))"

record ('op, 'pay, 'det, 'side, 'plat) submission_guard =
  sg_slot :: "nat option"
  sg_rollback :: "(nat \<Rightarrow> ('op, 'pay, 'det, 'side, 'plat) op_registry
                    \<Rightarrow> ('op, 'pay, 'det, 'side, 'plat) op_registry) option"
  sg_persisted :: bool

definition start_submission_with ::
  "nat \<Rightarrow> (nat \<Rightarrow> ('op, 'pay, 'det, 'side, 'plat) op_registry \<Rightarrow> ('op, 'pay, 'det, 'side, 'plat) op_registry) option
     \<Rightarrow> ('op, 'pay, 'det, 'side, 'plat) op_registry
     \<Rightarrow> ('op, 'pay, 'det, 'side, 'plat) op_registry
          \<times> (slot_access_error + ('op, 'pay, 'det, 'side, 'plat) submission_guard)" where
  "start_submission_with i rollback r =
     (if ls_op (locals r ! i) = None then (r, Inl (access_error StartSubmission MissingOp i r))
      else (upd_shared i (slot_set_state InFlightWaiting) r,
            Inr \<lparr>sg_slot = Some i, sg_rollback = rollback, sg_persisted = False\<rparr>))"

text \<open>\<^verbatim>\<open>persist\<close> consumes the guard, whose destructor then sees it persisted and emptied; an empty
  guard panics: \<open>None\<close>.\<close>

definition guard_on_drop ::
  "('op, 'pay, 'det, 'side, 'plat) submission_guard \<Rightarrow> ('op, 'pay, 'det, 'side, 'plat) op_registry
     \<Rightarrow> ('op, 'pay, 'det, 'side, 'plat) op_registry" where
  "guard_on_drop sg r =
     (if sg_persisted sg then r
      else case sg_slot sg of
             None \<Rightarrow> r
           | Some i \<Rightarrow>
               let r1 = (case sg_rollback sg of None \<Rightarrow> r | Some f \<Rightarrow> f i r)
               in upd_shared i (slot_set_state Reserved) r1)"

definition guard_persist ::
  "('op, 'pay, 'det, 'side, 'plat) submission_guard \<Rightarrow> ('op, 'pay, 'det, 'side, 'plat) op_registry
     \<Rightarrow> (('op, 'pay, 'det, 'side, 'plat) op_registry \<times> nat) option" where
  "guard_persist sg r =
     (case sg_slot sg of
        None \<Rightarrow> None
      | Some i \<Rightarrow> Some (guard_on_drop (sg\<lparr>sg_persisted := True, sg_slot := None\<rparr>) r, i))"

definition slot_cancel ::
  "nat \<Rightarrow> ('op, 'pay, 'det, 'side, 'plat) op_registry \<Rightarrow> ('op, 'pay, 'det, 'side, 'plat) op_registry" where
  "slot_cancel i r = upd_shared i (slot_set_state InFlightOrphaned) r"

definition completed_reset ::
  "nat \<Rightarrow> ('op, 'pay, 'det, 'side::default, 'plat) op_registry \<Rightarrow> ('op, 'pay, 'det, 'side, 'plat) op_registry" where
  "completed_reset i r =
     (let r1 = upd_local i (\<lambda>l. l\<lparr>ls_op := None, ls_storage := storage_reset (ls_storage l)\<rparr>) r;
          g = slot_generation_of (slots (shared r1) ! i)
      in upd_shared i (\<lambda>s. slot_set_state Reserved (slot_reset g s)) r1)"

text \<open>The methods of a completed slot touch only the private half, so they are stated on it.\<close>

definition take_op :: "('op, 'pay, 'det, 'side, 'plat) local_slot \<Rightarrow> ('op, 'pay, 'det, 'side, 'plat) local_slot \<times> 'op option" where
  "take_op l = (l\<lparr>ls_op := None\<rparr>, ls_op l)"

definition take_completion_data ::
  "('op, 'pay, 'det, 'side, 'plat) local_slot
     \<Rightarrow> ('op, 'pay, 'det, 'side, 'plat) local_slot \<times> 'pay option \<times> 'det option" where
  "take_completion_data l =
     (l\<lparr>ls_storage := (ls_storage l)\<lparr>st_payload := None, st_result := None\<rparr>\<rparr>,
      st_payload (ls_storage l), st_result (ls_storage l))"

definition with_op_mut ::
  "('op \<Rightarrow> 'op \<times> 'x) \<Rightarrow> ('op, 'pay, 'det, 'side, 'plat) local_slot
     \<Rightarrow> ('op, 'pay, 'det, 'side, 'plat) local_slot \<times> 'x option" where
  "with_op_mut f l =
     (case ls_op l of None \<Rightarrow> (l, None) | Some op \<Rightarrow> (case f op of (op', x) \<Rightarrow> (l\<lparr>ls_op := Some op'\<rparr>, Some x)))"

definition checked_slot_view ::
  "op_token \<Rightarrow> ('op, 'pay, 'det, 'side, 'plat) op_registry \<Rightarrow> core_error + checked_slot_view" where
  "checked_slot_view t r =
     (case slot_bundle_by_index (unat (op_index t)) r of
        None \<Rightarrow> Inr (CheckedMissing (op_index t) (op_generation t))
      | Some i \<Rightarrow>
          let snapshot = snapshot_at i r; state = snap_state snapshot
          in if snap_generation snapshot \<noteq> op_generation t then Inr (CheckedStale snapshot)
             else if state = InFlightWaiting \<or> state = InFlightOrphaned then
               (if \<not> snap_has_op snapshot \<or> \<not> snap_has_payload snapshot then Inl (CorruptSlot snapshot)
                else Inr (CheckedValid (if state = InFlightWaiting then ViewWaiting i else ViewOrphaned i)))
             else if state = Reserved then
               (case try_bind i r of
                  None \<Rightarrow> Inl (ReservedBindFailed snapshot)
                | Some j \<Rightarrow> Inr (CheckedValid (ViewReserved j)))
             else Inr (CheckedEmpty snapshot))"

subsection \<open>Routing a completion\<close>

datatype routed_slot_completion =
    RoutedWaiting nat
  | RoutedOrphaned nat
  | RoutedMissing completion_anomaly_kind
  | RoutedEmpty completion_anomaly_kind
  | RoutedStale completion_anomaly_kind

fun slot_view_kind :: "op_token \<Rightarrow> checked_slot_view \<Rightarrow> completion_anomaly_kind + slot_view_ref" where
  "slot_view_kind t (CheckedValid v) = Inr v"
| "slot_view_kind t (CheckedMissing _ _) = Inl (KUnknownSlot (op_index t) (op_generation t))"
| "slot_view_kind t (CheckedEmpty s) = Inl (KNonActive (snap_index s) (op_generation t) (snap_state s))"
| "slot_view_kind t (CheckedStale s) =
     Inl (KStale (snap_index s) (op_generation t) (snap_generation s) (snap_state s))"

text \<open>\<open>None\<close> is the branch the code marks unreachable.\<close>

definition route_user_completion ::
  "user_completion_event \<Rightarrow> checked_slot_view \<Rightarrow> ('op, 'pay, 'det, 'side, 'plat) op_registry
     \<Rightarrow> (core_error + routed_slot_completion) option" where
  "route_user_completion ev view r =
     (case slot_view_kind (uce_token ev) view of
        Inr (ViewWaiting i) \<Rightarrow> Some (Inr (RoutedWaiting i))
      | Inr (ViewOrphaned i) \<Rightarrow> Some (Inr (RoutedOrphaned i))
      | Inr (ViewReserved i) \<Rightarrow> Some (Inl (ReservedCompleted (snapshot_at i r)))
      | Inl kind \<Rightarrow>
          (case kind_reason kind of
             RUnknownSlot \<Rightarrow> Some (Inr (RoutedMissing kind))
           | RNonActiveSlot \<Rightarrow> Some (Inr (RoutedEmpty kind))
           | RStaleGeneration \<Rightarrow> Some (Inr (RoutedStale kind))
           | _ \<Rightarrow> None))"

fun view_ref_index :: "slot_view_ref \<Rightarrow> nat" where
  "view_ref_index (ViewReserved i) = i"
| "view_ref_index (ViewWaiting i) = i"
| "view_ref_index (ViewOrphaned i) = i"

definition record_finalize_failure ::
  "op_token \<Rightarrow> ('op, 'pay, 'det, 'side, 'plat) op_registry \<Rightarrow> core_error" where
  "record_finalize_failure t r =
     (case checked_slot_view t r of
        Inl e \<Rightarrow> e
      | Inr (CheckedValid v) \<Rightarrow> FinalizeFailed (snapshot_at (view_ref_index v) r)
      | Inr (CheckedMissing i g) \<Rightarrow> FinalizeFailed \<lparr>snap_index = i, snap_generation = g,
            snap_state = Idle, snap_has_op = False, snap_has_payload = False\<rparr>
      | Inr (CheckedEmpty s) \<Rightarrow> FinalizeFailed s
      | Inr (CheckedStale s) \<Rightarrow> FinalizeFailed s)"

definition finalize_waiting_checked ::
  "op_token \<Rightarrow> ('op, 'pay, 'det, 'side::default, 'plat::default) op_registry
     \<Rightarrow> (('op, 'pay, 'det, 'side, 'plat) op_registry \<times> (core_error + unit)) option" where
  "finalize_waiting_checked t r =
     (case finalize_waiting_completion t r of
        None \<Rightarrow> None
      | Some (r', Some _) \<Rightarrow> Some (r', Inr ())
      | Some (r', None) \<Rightarrow> Some (r', Inl (record_finalize_failure t r')))"

definition finalize_orphaned_checked ::
  "op_token \<Rightarrow> ('op, 'pay, 'det, 'side::default, 'plat::default) op_registry
     \<Rightarrow> (('op, 'pay, 'det, 'side, 'plat) op_registry \<times> (core_error + unit)) option" where
  "finalize_orphaned_checked t r =
     (case finalize_orphaned_completion t r of
        None \<Rightarrow> None
      | Some (r', Some _) \<Rightarrow> Some (r', Inr ())
      | Some (r', None) \<Rightarrow> Some (r', Inl (record_finalize_failure t r')))"

subsection \<open>Cancel requests\<close>

datatype cancel_mode = UserVisible | Abandon

record cancel_request =
  cq_target :: op_token
  cq_mode :: cancel_mode

datatype cancel_target_gone_reason = TargetMissing | TargetStale | TargetCorrupt

datatype cancel_submit_outcome =
    CancelSubmitted
  | CancelQueued
  | CancelCompletedLocally
  | CancelTargetGone cancel_target_gone_reason
  | CancelNoBackendHandle

definition cancel_abandon :: "op_token \<Rightarrow> cancel_request" where
  "cancel_abandon t = \<lparr>cq_target = t, cq_mode = Abandon\<rparr>"

definition cancel_target_kind ::
  "op_token \<Rightarrow> checked_slot_view \<Rightarrow> ('op, 'pay, 'det, 'side, 'plat) op_registry
     \<Rightarrow> cancel_target_gone_reason \<times> completion_anomaly_kind" where
  "cancel_target_kind t view r =
     (let kind = (case slot_view_kind t view of
                    Inr v \<Rightarrow> let s = snapshot_at (view_ref_index v) r
                             in KNonActive (snap_index s) (op_generation t) (snap_state s)
                  | Inl k \<Rightarrow> k);
          reason = (case kind_reason kind of RStaleGeneration \<Rightarrow> TargetStale | _ \<Rightarrow> TargetMissing)
      in (reason, kind))"

record cancel_drain_outcome =
  cd_requests :: u64
  cd_submitted :: u64
  cd_queued :: u64
  cd_completed_locally :: u64
  cd_target_missing :: u64
  cd_target_stale :: u64
  cd_target_corrupt :: u64
  cd_no_backend_handle :: u64

definition cancel_drain_record :: "cancel_submit_outcome \<Rightarrow> cancel_drain_outcome \<Rightarrow> cancel_drain_outcome" where
  "cancel_drain_record out d =
     (let d1 = d\<lparr>cd_requests := saturating_inc (cd_requests d)\<rparr>
      in case out of
           CancelSubmitted \<Rightarrow> d1\<lparr>cd_submitted := saturating_inc (cd_submitted d1)\<rparr>
         | CancelQueued \<Rightarrow> d1\<lparr>cd_queued := saturating_inc (cd_queued d1)\<rparr>
         | CancelCompletedLocally \<Rightarrow> d1\<lparr>cd_completed_locally := saturating_inc (cd_completed_locally d1)\<rparr>
         | CancelTargetGone TargetMissing \<Rightarrow> d1\<lparr>cd_target_missing := saturating_inc (cd_target_missing d1)\<rparr>
         | CancelTargetGone TargetStale \<Rightarrow> d1\<lparr>cd_target_stale := saturating_inc (cd_target_stale d1)\<rparr>
         | CancelTargetGone TargetCorrupt \<Rightarrow> d1\<lparr>cd_target_corrupt := saturating_inc (cd_target_corrupt d1)\<rparr>
         | CancelNoBackendHandle \<Rightarrow> d1\<lparr>cd_no_backend_handle := saturating_inc (cd_no_backend_handle d1)\<rparr>)"

end
