(* ===== verification/Completion_Flow.thy ===== *)
theory Completion_Flow
  imports Slot_View
begin

text \<open>
  The completion flow of the driver core (\<^verbatim>\<open>driver/completion/flow.rs\<close>): how a raw completion,
  a synthetic completion or a backend event is routed to its slot, handed to the backend's hooks,
  recorded in the completion table and finalized in the registry.

  The hooks are the methods of the trait \<^verbatim>\<open>CompletionBackendHooks\<close>; a backend is a record of
  functions over its own state. A hook that receives a slot may change the driver's private half of
  that slot (operation, storage, platform data), which is what the methods of a borrowed slot that
  the backends call give access to. The table handed to the flow is the registry's own shared table
  and the diagnostics are those of that table, as in \<^verbatim>\<open>UringDriver::new_internal\<close>.
\<close>

subsection \<open>Ingress, sources and outcomes\<close>

datatype synthetic_source = SynTimer | SynCancel | SynSubmissionFailure

datatype 'ing completion_ingress =
    IngressKernel completion_envelope
  | IngressUser user_completion_event
  | IngressSynthetic user_completion_event synthetic_source
  | IngressBackend 'ing
  | IngressAnomaly completion_anomaly_kind anomaly_attach

datatype 'ing completion_source =
    SourceKernel
  | SourceUser
  | SourceSynthetic synthetic_source
  | SourceBackend 'ing

datatype completion_control = ControlWaker u16 raw_completion | ControlCancel u16 raw_completion

datatype ('pay, 'det, 'eff) hook_outcome =
    HookUser user_completion_event 'pay "'det option" cleanup_guard 'eff
  | HookCleanup cleanup_guard 'eff
  | HookAnomaly completion_anomaly_kind anomaly_attach 'eff
  | HookControlHandled 'eff
  | HookIgnore 'eff

datatype ('pay, 'det, 'eff) ingress_action =
    RouteUser user_completion_event
  | FinishAction "('pay, 'det, 'eff) hook_outcome"

record ('h, 'ing, 'eff, 'op, 'pay, 'det, 'side, 'plat, 'err) completion_hooks =
  hk_handle_control :: "completion_control \<Rightarrow> 'h \<Rightarrow> 'h \<times> ('err + ('pay, 'det, 'eff) hook_outcome)"
  hk_complete_waiting :: "user_completion_event \<Rightarrow> 'ing completion_source
     \<Rightarrow> ('op, 'pay, 'det, 'side, 'plat) local_slot \<Rightarrow> 'h
     \<Rightarrow> 'h \<times> ('op, 'pay, 'det, 'side, 'plat) local_slot \<times> ('err + ('pay, 'det, 'eff) hook_outcome)"
  hk_complete_orphaned :: "user_completion_event \<Rightarrow> 'ing completion_source
     \<Rightarrow> ('op, 'pay, 'det, 'side, 'plat) local_slot \<Rightarrow> 'h
     \<Rightarrow> 'h \<times> ('op, 'pay, 'det, 'side, 'plat) local_slot \<times> ('err + ('pay, 'det, 'eff) hook_outcome)"
  hk_complete_corrupt :: "user_completion_event \<Rightarrow> completion_anomaly_kind \<Rightarrow> 'ing completion_source \<Rightarrow> 'h
     \<Rightarrow> 'h \<times> ('err + ('pay, 'det, 'eff) hook_outcome)"
  hk_backend_ingress :: "'ing \<Rightarrow> 'h \<Rightarrow> 'h \<times> ('err + ('pay, 'det, 'eff) ingress_action)"
  hk_finish_effect :: "'eff \<Rightarrow> 'h \<Rightarrow> 'h \<times> ('err + unit)"

text \<open>The default bodies of two of the trait's methods.\<close>

definition complete_corrupt_default ::
  "user_completion_event \<Rightarrow> completion_anomaly_kind \<Rightarrow> 'ing completion_source \<Rightarrow> 'h
     \<Rightarrow> 'h \<times> ('err + ('pay, 'det, 'eff::default) hook_outcome)" where
  "complete_corrupt_default ev kind src h =
     (h, Inr (HookAnomaly kind (attach_from_raw_completion (uce_raw ev)) default))"

definition backend_ingress_default ::
  "'ing \<Rightarrow> 'h \<Rightarrow> 'h \<times> ('err + ('pay, 'det, 'eff::default) ingress_action)" where
  "backend_ingress_default ing h = (h, Inr (FinishAction (HookIgnore default)))"

record flow_outcome =
  fo_user_completed :: nat
  fo_orphan_cleaned :: nat
  fo_internal :: nat
  fo_anomaly :: nat
  fo_ignored :: nat

definition flow_zero :: flow_outcome where
  "flow_zero = \<lparr>fo_user_completed = 0, fo_orphan_cleaned = 0, fo_internal = 0, fo_anomaly = 0, fo_ignored = 0\<rparr>"

definition flow_user_completed :: flow_outcome where
  "flow_user_completed = flow_zero\<lparr>fo_user_completed := 1\<rparr>"

definition flow_orphan_cleaned :: flow_outcome where
  "flow_orphan_cleaned = flow_zero\<lparr>fo_orphan_cleaned := 1\<rparr>"

definition flow_internal :: flow_outcome where
  "flow_internal = flow_zero\<lparr>fo_internal := 1\<rparr>"

definition flow_anomaly :: flow_outcome where
  "flow_anomaly = flow_zero\<lparr>fo_anomaly := 1\<rparr>"

definition flow_ignored :: flow_outcome where
  "flow_ignored = flow_zero\<lparr>fo_ignored := 1\<rparr>"

definition semantic_count :: "flow_outcome \<Rightarrow> nat" where
  "semantic_count f = fo_user_completed f + fo_orphan_cleaned f + fo_internal f + fo_anomaly f"

definition flow_merge :: "flow_outcome \<Rightarrow> flow_outcome \<Rightarrow> flow_outcome" where
  "flow_merge a b = \<lparr>fo_user_completed = fo_user_completed a + fo_user_completed b,
     fo_orphan_cleaned = fo_orphan_cleaned a + fo_orphan_cleaned b,
     fo_internal = fo_internal a + fo_internal b, fo_anomaly = fo_anomaly a + fo_anomaly b,
     fo_ignored = fo_ignored a + fo_ignored b\<rparr>"

fun completion_progress_from_record :: "record_completion_outcome \<Rightarrow> flow_outcome" where
  "completion_progress_from_record RecordedUser = flow_user_completed"
| "completion_progress_from_record OrphanedDropped = flow_orphan_cleaned"
| "completion_progress_from_record (RRejected _) = flow_anomaly"

datatype finalize_action = FinalizeWaiting user_completion_event | FinalizeOrphaned user_completion_event

datatype 'err flow_error = CoreError core_error | HookError 'err

subsection \<open>Finishing a hook's outcome\<close>

definition on_shared ::
  "(('pay, 'det) slot_table \<Rightarrow> ('pay, 'det) slot_table) \<Rightarrow> ('op, 'pay, 'det, 'side, 'plat) op_registry
     \<Rightarrow> ('op, 'pay, 'det, 'side, 'plat) op_registry" where
  "on_shared f r = r\<lparr>shared := f (shared r)\<rparr>"

definition record_user_completion ::
  "('pay, 'det) completion_packet \<Rightarrow> ('op, 'pay, 'det, 'side, 'plat) op_registry
     \<Rightarrow> (('op, 'pay, 'det, 'side, 'plat) op_registry \<times> record_completion_outcome) option" where
  "record_user_completion p r =
     (case record_completion p (shared r) of
        None \<Rightarrow> None
      | Some (tb, RecResRecorded out) \<Rightarrow> Some (r\<lparr>shared := tb\<rparr>, out)
      | Some (tb, RecResRejected out q) \<Rightarrow> Some (r\<lparr>shared := run_rejected_cleanup q tb\<rparr>, out))"

definition finish_waiting_if_needed ::
  "finalize_action option \<Rightarrow> user_completion_event
     \<Rightarrow> ('op, 'pay, 'det, 'side::default, 'plat::default) op_registry
     \<Rightarrow> (('op, 'pay, 'det, 'side, 'plat) op_registry \<times> (core_error + unit)) option" where
  "finish_waiting_if_needed fin fallback r =
     (let ev = (case fin of Some (FinalizeWaiting e) \<Rightarrow> e | _ \<Rightarrow> fallback)
      in finalize_waiting_checked (uce_token ev) r)"

definition finish_orphaned ::
  "user_completion_event \<Rightarrow> ('op, 'pay, 'det, 'side::default, 'plat::default) op_registry
     \<Rightarrow> (('op, 'pay, 'det, 'side, 'plat) op_registry \<times> (core_error + unit)) option" where
  "finish_orphaned ev r = finalize_orphaned_checked (uce_token ev) r"

text \<open>Running a guard outside the table counts a failing cleanup in the diagnostics; a guard that
  goes out of scope on an early return runs without being counted.\<close>

definition run_guard_here :: "cleanup_guard \<Rightarrow> ('pay, 'det) slot_table \<Rightarrow> ('pay, 'det) slot_table" where
  "run_guard_here g tb =
     (case run_completion_cleanup (table_diagnostics tb) g of
        (d, g', cl, _) \<Rightarrow> note_cleaned (cl @ guard_drop g') (note_diag (\<lambda>_. d) tb))"

definition drop_guard_here :: "cleanup_guard \<Rightarrow> ('pay, 'det) slot_table \<Rightarrow> ('pay, 'det) slot_table" where
  "drop_guard_here g tb = note_cleaned (guard_drop g) tb"

definition finish_with ::
  "flow_outcome \<Rightarrow> (('op, 'pay, 'det, 'side, 'plat) op_registry \<times> (core_error + unit)) option \<Rightarrow> 'h
     \<Rightarrow> (('op, 'pay, 'det, 'side, 'plat) op_registry \<times> 'h \<times> ('err flow_error + flow_outcome)) option" where
  "finish_with progress fin h =
     (case fin of
        None \<Rightarrow> None
      | Some (r, Inr _) \<Rightarrow> Some (r, h, Inr progress)
      | Some (r, Inl e) \<Rightarrow> Some (r, h, Inl (CoreError e)))"

fun finish_hook_outcome ::
  "('h, 'ing, 'eff, 'op, 'pay, 'det, 'side::default, 'plat::default, 'err) completion_hooks
     \<Rightarrow> ('pay, 'det, 'eff) hook_outcome \<Rightarrow> finalize_action option
     \<Rightarrow> ('op, 'pay, 'det, 'side, 'plat) op_registry \<Rightarrow> 'h
     \<Rightarrow> (('op, 'pay, 'det, 'side, 'plat) op_registry \<times> 'h \<times> ('err flow_error + flow_outcome)) option" where
  "finish_hook_outcome hk (HookUser ev payload detail cleanup eff) fin r h =
     (case hk_finish_effect hk eff h of
        (h', Inl e) \<Rightarrow> Some (on_shared (drop_guard_here cleanup) r, h', Inl (HookError e))
      | (h', Inr _) \<Rightarrow>
          (case record_user_completion (packet_user_event ev payload detail cleanup) r of
             None \<Rightarrow> None
           | Some (r1, out) \<Rightarrow>
               finish_with (completion_progress_from_record out) (finish_waiting_if_needed fin ev r1) h'))"
| "finish_hook_outcome hk (HookCleanup cleanup eff) fin r h =
     (case hk_finish_effect hk eff h of
        (h', Inl e) \<Rightarrow> Some (on_shared (drop_guard_here cleanup) r, h', Inl (HookError e))
      | (h', Inr _) \<Rightarrow>
          let r1 = on_shared (run_guard_here cleanup) r
          in finish_with flow_orphan_cleaned
               (case fin of
                  Some (FinalizeWaiting ev) \<Rightarrow> finish_waiting_if_needed fin ev r1
                | Some (FinalizeOrphaned ev) \<Rightarrow> finish_orphaned ev r1
                | None \<Rightarrow> Some (r1, Inr ())) h')"
| "finish_hook_outcome hk (HookAnomaly kind att eff) fin r h =
     (let r1 = on_shared (note_diag (record_anomaly_kind kind att)) r
      in case hk_finish_effect hk eff h of
           (h', Inl e) \<Rightarrow> Some (r1, h', Inl (HookError e))
         | (h', Inr _) \<Rightarrow> Some (r1, h', Inr flow_anomaly))"
| "finish_hook_outcome hk (HookControlHandled eff) fin r h =
     (case hk_finish_effect hk eff h of
        (h', Inl e) \<Rightarrow> Some (r, h', Inl (HookError e))
      | (h', Inr _) \<Rightarrow> Some (r, h', Inr flow_internal))"
| "finish_hook_outcome hk (HookIgnore eff) fin r h =
     (case hk_finish_effect hk eff h of
        (h', Inl e) \<Rightarrow> Some (r, h', Inl (HookError e))
      | (h', Inr _) \<Rightarrow> Some (r, h', Inr flow_ignored))"

text \<open>Propagating a hook's error, or finishing its outcome.\<close>

definition finish_hook_result ::
  "('h, 'ing, 'eff, 'op, 'pay, 'det, 'side::default, 'plat::default, 'err) completion_hooks
     \<Rightarrow> 'err + ('pay, 'det, 'eff) hook_outcome \<Rightarrow> finalize_action option
     \<Rightarrow> ('op, 'pay, 'det, 'side, 'plat) op_registry \<Rightarrow> 'h
     \<Rightarrow> (('op, 'pay, 'det, 'side, 'plat) op_registry \<times> 'h \<times> ('err flow_error + flow_outcome)) option" where
  "finish_hook_result hk res fin r h =
     (case res of Inl e \<Rightarrow> Some (r, h, Inl (HookError e)) | Inr out \<Rightarrow> finish_hook_outcome hk out fin r h)"

subsection \<open>Accepting a completion\<close>

definition accept_user_event ::
  "('h, 'ing, 'eff, 'op, 'pay, 'det, 'side::default, 'plat::default, 'err) completion_hooks
     \<Rightarrow> user_completion_event \<Rightarrow> 'ing completion_source
     \<Rightarrow> ('op, 'pay, 'det, 'side, 'plat) op_registry \<Rightarrow> 'h
     \<Rightarrow> (('op, 'pay, 'det, 'side, 'plat) op_registry \<times> 'h \<times> ('err flow_error + flow_outcome)) option" where
  "accept_user_event hk ev src r h =
     (case checked_slot_view (uce_token ev) r of
        Inl e \<Rightarrow> Some (r, h, Inl (CoreError e))
      | Inr view \<Rightarrow>
          (case route_user_completion ev view r of
             None \<Rightarrow> None
           | Some (Inl e) \<Rightarrow> Some (r, h, Inl (CoreError e))
           | Some (Inr (RoutedWaiting i)) \<Rightarrow>
               (case hk_complete_waiting hk ev src (locals r ! i) h of
                  (h', l, res) \<Rightarrow>
                    finish_hook_result hk res (Some (FinalizeWaiting ev)) (upd_local i (\<lambda>_. l) r) h')
           | Some (Inr (RoutedOrphaned i)) \<Rightarrow>
               (case hk_complete_orphaned hk ev src (locals r ! i) h of
                  (h', l, res) \<Rightarrow>
                    finish_hook_result hk res (Some (FinalizeOrphaned ev)) (upd_local i (\<lambda>_. l) r) h')
           | Some (Inr (RoutedMissing k)) \<Rightarrow>
               (case hk_complete_corrupt hk ev k src h of (h', res) \<Rightarrow> finish_hook_result hk res None r h')
           | Some (Inr (RoutedEmpty k)) \<Rightarrow>
               (case hk_complete_corrupt hk ev k src h of (h', res) \<Rightarrow> finish_hook_result hk res None r h')
           | Some (Inr (RoutedStale k)) \<Rightarrow>
               (case hk_complete_corrupt hk ev k src h of (h', res) \<Rightarrow> finish_hook_result hk res None r h')))"

definition accept_completion ::
  "('h, 'ing, 'eff, 'op, 'pay, 'det, 'side::default, 'plat::default, 'err) completion_hooks
     \<Rightarrow> 'ing completion_ingress \<Rightarrow> ('op, 'pay, 'det, 'side, 'plat) op_registry \<Rightarrow> 'h
     \<Rightarrow> (('op, 'pay, 'det, 'side, 'plat) op_registry \<times> 'h \<times> ('err flow_error + flow_outcome)) option" where
  "accept_completion hk ingress r h =
     (case ingress of
        IngressKernel env \<Rightarrow>
          (case dispatch_envelope env of
             DispatchUser ev \<Rightarrow> accept_user_event hk ev SourceKernel r h
           | DispatchWaker i raw \<Rightarrow>
               (case hk_handle_control hk (ControlWaker i raw) h of (h', res) \<Rightarrow> finish_hook_result hk res None r h')
           | DispatchCancel i raw \<Rightarrow>
               (case hk_handle_control hk (ControlCancel i raw) h of (h', res) \<Rightarrow> finish_hook_result hk res None r h')
           | DispatchUnknown e \<Rightarrow> Some (r, h, Inl (CoreError (UnclassifiedCompletion (env_identity e)))))
      | IngressUser ev \<Rightarrow> accept_user_event hk ev SourceUser r h
      | IngressSynthetic ev src \<Rightarrow> accept_user_event hk ev (SourceSynthetic src) r h
      | IngressBackend ing \<Rightarrow>
          (case hk_backend_ingress hk ing h of
             (h', Inl e) \<Rightarrow> Some (r, h', Inl (HookError e))
           | (h', Inr (RouteUser ev)) \<Rightarrow> accept_user_event hk ev (SourceBackend ing) r h'
           | (h', Inr (FinishAction out)) \<Rightarrow> finish_hook_outcome hk out None r h')
      | IngressAnomaly kind att \<Rightarrow>
          Some (on_shared (note_diag (record_anomaly_kind kind att)) r, h, Inr flow_anomaly))"

subsection \<open>The life cycle of a slot\<close>

text \<open>An active slot carries the generation of its operation and is reserved or in flight, and one
  in flight holds its operation and payload; a slot on a free chain is idle or still holds a
  completion to be taken.\<close>

definition lifecycle_ok :: "('op, 'pay, 'det, 'side, 'plat) local_slot \<Rightarrow> ('pay, 'det) slot_data \<Rightarrow> bool" where
  "lifecycle_ok l s \<longleftrightarrow>
     (if ls_active l
      then slot_generation_of s = ls_generation l
           \<and> slot_state_of s \<in> {Reserved, InFlightWaiting, InFlightOrphaned}
           \<and> (slot_state_of s \<noteq> Reserved \<longrightarrow> ls_op l \<noteq> None \<and> st_payload (ls_storage l) \<noteq> None)
      else slot_state_of s \<in> {Idle, InFlightReady})"

definition inv_except :: "nat set \<Rightarrow> ('op, 'pay, 'det, 'side, 'plat) op_registry \<Rightarrow> bool" where
  "inv_except X r \<longleftrightarrow> registry_inv r \<and> table_inv (shared r)
     \<and> (\<forall>j < length (locals r). j \<notin> X \<longrightarrow> lifecycle_ok (locals r ! j) (slots (shared r) ! j))"

definition driver_inv :: "('op, 'pay, 'det, 'side, 'plat) op_registry \<Rightarrow> bool" where
  "driver_inv r \<longleftrightarrow> inv_except {} r"

lemma lifecycle_core: "core_state s = core_state s' \<Longrightarrow> lifecycle_ok l s = lifecycle_ok l s'"
  by (simp add: lifecycle_ok_def)

lemma registry_len: "registry_inv r \<Longrightarrow> length (slots (shared r)) = length (locals r)"
  by (auto simp: registry_inv_def chains_ok_def)

lemma driver_invD:
  assumes "driver_inv r"
  shows "registry_inv r" "table_inv (shared r)" "length (slots (shared r)) = length (locals r)"
    "j < length (locals r) \<Longrightarrow> lifecycle_ok (locals r ! j) (slots (shared r) ! j)"
  using assms registry_len [of r] by (simp_all add: driver_inv_def inv_except_def)

lemma registry_inv_upd_local:
  assumes "registry_inv r" "ls_active (f (locals r ! i)) = ls_active (locals r ! i)"
  shows "registry_inv (upd_local i f r)"
proof -
  obtain ls rs where ok: "chains_ok ls rs [] r" using assms(1) by (auto simp: registry_inv_def)
  have "ls_active ((locals r)[i := f (locals r ! i)] ! j) = ls_active (locals r ! j)" if "j < length (locals r)" for j
    using assms(2) that by (cases "j = i") simp_all
  then have "chains_ok ls rs [] (upd_local i f r)"
    using ok by (simp add: chains_ok_def upd_local_def)
  then show ?thesis by (auto simp: registry_inv_def)
qed

text \<open>Changes of the shared table that keep length, links and the remote head keep the registry
  well-formed.\<close>

lemma registry_inv_shared:
  assumes "registry_inv r" "length (slots tb) = length (slots (shared r))"
    "\<And>j. j < length (slots tb) \<Longrightarrow> next_free (slots tb ! j) = next_free (slots (shared r) ! j)"
    "remote_free_head tb = remote_free_head (shared r)"
  shows "registry_inv (r\<lparr>shared := tb\<rparr>)"
proof -
  obtain ls rs where ok: "chains_ok ls rs [] r" using assms(1) by (auto simp: registry_inv_def)
  have "free_chain (slots tb) h xs = free_chain (slots (shared r)) h xs"
    if "free_chain (slots (shared r)) h xs" for h xs
    using free_chain_cong [of "slots tb" "slots (shared r)" xs h] assms(2,3) free_chain_bound [OF that] by simp
  then have "chains_ok ls rs [] (r\<lparr>shared := tb\<rparr>)"
    using ok assms(2,4) by (auto simp: chains_ok_def)
  then show ?thesis by (auto simp: registry_inv_def)
qed

lemma view_same_core:
  assumes "same_core tb tb'"
  shows "table_view u tb' = table_view u tb"
  using same_core_fields [OF assms, of "unat (op_index u)"] same_core_length [OF assms]
  by (auto simp: table_view_def names_slot_def slot_view_def split: slot_state.splits)

lemma slot_free_view:
  "slot_state_of s \<noteq> InFlightWaiting \<Longrightarrow> slot_view (slot_free s) = slot_view s"
  by (auto simp: slot_view_def slot_free_state split: slot_state.splits)

lemma release_lifecycle:
  assumes inv: "inv_except {unat (op_index t)} r" and live: "token_live t r" and named: "names_slot t (shared r)"
  shows "\<exists>r' d. remove t r = Some (r', Some d) \<and> driver_inv r' \<and> \<not> token_live t r'
     \<and> (\<forall>u. u \<noteq> t \<longrightarrow> table_view u (shared r') = table_view u (shared r))
     \<and> table_view t (shared r') = (if slot_state_of (token_slot t (shared r)) = InFlightWaiting then Gone
                                   else table_view t (shared r))
     \<and> fx_cleaned (shared r') = fx_cleaned (shared r) \<and> fx_woken (shared r') = fx_woken (shared r)"
proof -
  let ?i = "unat (op_index t)" and ?tb = "upd_slot (unat (op_index t)) slot_free (shared r)"
  have reg: "registry_inv r" and tab: "table_inv (shared r)" using inv by (auto simp: inv_except_def)
  obtain r' where r': "remove t r = Some (r', Some (ls_platform (locals r ! ?i)))" "registry_inv r'"
    "locals r' = (locals r)[?i := released_local (locals r ! ?i)]" "same_core ?tb (shared r')"
    using remove_live [OF reg live] by blast
  have i: "?i < length (slots (shared r))" "?i < length (locals r)"
    using live registry_len [OF reg] by (auto simp: token_live_def)
  have core: "core_state (slots (shared r') ! j) = core_state (slots ?tb ! j)" if "j < length (locals r)" for j
    using same_core_fields(1) [OF r'(4), of j] that registry_len [OF reg] by simp
  have "lifecycle_ok (locals r' ! j) (slots (shared r') ! j)" if j: "j < length (locals r')" for j
  proof (cases "j = ?i")
    case True
    then show ?thesis using r'(3) i core [of j] by (simp add: lifecycle_ok_def released_local_def slot_free_state)
  next
    case False
    then have "lifecycle_ok (locals r ! j) (slots (shared r) ! j)"
      using inv j r'(3) by (simp add: inv_except_def)
    moreover have "core_state (slots (shared r') ! j) = core_state (slots (shared r) ! j)"
      using False core [of j] j r'(3) registry_len [OF reg] by simp
    ultimately show ?thesis using False r'(3) lifecycle_core by fastforce
  qed
  moreover have "table_inv (shared r')" by (rule remove_table_inv [OF reg tab r'(1)])
  ultimately have "driver_inv r'" using r'(2) by (simp add: driver_inv_def inv_except_def)
  moreover have gen: "slot_generation_of (slot_free (token_slot t (shared r))) = op_generation t"
    using named by (simp add: names_slot_def)
  then have "table_view u (shared r') = table_view u (shared r)" if "u \<noteq> t" for u
    using view_same_core [OF r'(4)] view_update_other [OF named slots_upd_slot, of slot_free u] that by simp
  moreover have "table_view t (shared r') = slot_view (slot_free (token_slot t (shared r)))"
    using view_same_core [OF r'(4)] view_update_own [OF named slots_upd_slot, of slot_free] gen by simp
  then have "table_view t (shared r') = (if slot_state_of (token_slot t (shared r)) = InFlightWaiting then Gone
      else table_view t (shared r))"
    using named by (auto simp: table_view_def slot_free_view) (simp add: slot_view_def slot_free_state)
  moreover have "\<not> token_live t r'" using live_after_remove [OF live r'(3)] by auto
  moreover have "fx_cleaned (shared r') = fx_cleaned (shared r)" "fx_woken (shared r') = fx_woken (shared r)"
    using r'(4) by (simp_all add: same_core_def)
  ultimately show ?thesis using r'(1) by blast
qed

subsection \<open>What the flow relies on in a backend\<close>

text \<open>On a slot that holds its operation and payload, a backend's completion hook succeeds with a
  user completion of the same operation or with a cleanup, and leaves the slot's ownership fields
  alone; applying a backend effect succeeds; a completion that matches no operation is an
  anomaly.\<close>

locale completion_backend =
  fixes hk :: "('h, 'ing, 'eff, 'op, 'pay, 'det, 'side::default, 'plat::default, 'err) completion_hooks"
  assumes waiting_law: "\<lbrakk>ls_op l \<noteq> None; st_payload (ls_storage l) \<noteq> None;
        hk_complete_waiting hk ev src l h = (h', l', res)\<rbrakk> \<Longrightarrow>
      ls_active l' = ls_active l \<and> ls_generation l' = ls_generation l
      \<and> ((\<exists>ev' pay det c eff. res = Inr (HookUser ev' pay det c eff) \<and> uce_token ev' = uce_token ev)
         \<or> (\<exists>c eff. res = Inr (HookCleanup c eff)))"
    and orphaned_law: "\<lbrakk>ls_op l \<noteq> None; st_payload (ls_storage l) \<noteq> None;
        hk_complete_orphaned hk ev src l h = (h', l', res)\<rbrakk> \<Longrightarrow>
      ls_active l' = ls_active l \<and> ls_generation l' = ls_generation l
      \<and> (\<exists>c eff. res = Inr (HookCleanup c eff))"
    and corrupt_law: "\<exists>h' att eff. hk_complete_corrupt hk ev k src h = (h', Inr (HookAnomaly k att eff))"
    and effect_law: "\<exists>h'. hk_finish_effect hk eff h = (h', Inr ())"

lemma on_shared_simps [simp]:
  "locals (on_shared f r) = locals r" "shared (on_shared f r) = f (shared r)"
  "local_free_head (on_shared f r) = local_free_head r" "active_count (on_shared f r) = active_count r"
  by (simp_all add: on_shared_def)

lemma upd_local_simps [simp]:
  "shared (upd_local i f r) = shared r" "length (locals (upd_local i f r)) = length (locals r)"
  "j < length (locals r) \<Longrightarrow> locals (upd_local i f r) ! j = (if j = i then f (locals r ! i) else locals r ! j)"
  by (simp_all add: upd_local_def nth_list_update)

lemma run_guard_here_simps [simp]:
  "slots (run_guard_here g tb) = slots tb" "remote_free_head (run_guard_here g tb) = remote_free_head tb"
  "ready_completion_count (run_guard_here g tb) = ready_completion_count tb"
  "fx_woken (run_guard_here g tb) = fx_woken tb" "fx_cleaned (run_guard_here g tb) = fx_cleaned tb @ guard_drop g"
  by (auto simp: run_guard_here_def split: prod.splits dest: run_cleanup_ran)

lemma inv_except_shared:
  assumes "inv_except X r" "table_inv tb" "length (slots tb) = length (slots (shared r))"
    "\<And>j. j < length (slots tb) \<Longrightarrow> next_free (slots tb ! j) = next_free (slots (shared r) ! j)"
    "remote_free_head tb = remote_free_head (shared r)"
    "\<And>j. j < length (slots tb) \<Longrightarrow> j \<notin> X \<Longrightarrow> core_state (slots tb ! j) = core_state (slots (shared r) ! j)"
  shows "inv_except X (r\<lparr>shared := tb\<rparr>)"
proof -
  have reg: "registry_inv r" using assms(1) by (simp add: inv_except_def)
  have "lifecycle_ok (locals r ! j) (slots tb ! j)" if "j < length (locals r)" "j \<notin> X" for j
    using assms(1) assms(6) [of j] that registry_len [OF reg] assms(3) lifecycle_core
    by (metis inv_except_def)
  then show ?thesis
    using registry_inv_shared [OF reg assms(3,4,5)] assms(2) by (simp add: inv_except_def)
qed

lemma inv_except_upd_local:
  assumes "inv_except X r" "ls_active (f (locals r ! i)) = ls_active (locals r ! i)" "i \<in> X"
  shows "inv_except X (upd_local i f r)"
  using assms registry_inv_upd_local [of r f i] by (auto simp: inv_except_def)

lemma inv_except_mono: "driver_inv r \<Longrightarrow> inv_except X r"
  by (auto simp: driver_inv_def inv_except_def)

lemma driver_inv_diag: "driver_inv r \<Longrightarrow> driver_inv (on_shared (note_diag f) r)"
  unfolding driver_inv_def on_shared_def
  by (rule inv_except_shared) (auto simp: inv_except_def table_inv_def)

lemma table_view_diag [simp]: "table_view u (note_diag f tb) = table_view u tb"
  by (simp add: table_view_def names_slot_def)

lemma in_flight_slot:
  assumes inv: "driver_inv r" and named: "names_slot t (shared r)"
    and st: "slot_state_of (token_slot t (shared r)) \<in> {InFlightWaiting, InFlightOrphaned}"
  shows "token_live t r" "ls_op (locals r ! unat (op_index t)) \<noteq> None"
    "st_payload (ls_storage (locals r ! unat (op_index t))) \<noteq> None"
    "checked_slot_view t r = Inr (CheckedValid
       (if slot_state_of (token_slot t (shared r)) = InFlightWaiting then ViewWaiting (unat (op_index t))
        else ViewOrphaned (unat (op_index t))))"
proof -
  let ?i = "unat (op_index t)"
  have i: "?i < length (locals r)" "?i < length (slots (shared r))"
    using named driver_invD(3) [OF inv] by (auto simp: names_slot_def)
  have lc: "lifecycle_ok (locals r ! ?i) (slots (shared r) ! ?i)" by (rule driver_invD(4) [OF inv i(1)])
  have act: "ls_active (locals r ! ?i)" using lc st by (auto simp: lifecycle_ok_def split: if_splits)
  show op: "ls_op (locals r ! ?i) \<noteq> None" and pay: "st_payload (ls_storage (locals r ! ?i)) \<noteq> None"
    using lc st act by (auto simp: lifecycle_ok_def)
  show "token_live t r" using lc act named i by (simp add: token_live_def lifecycle_ok_def names_slot_def)
  show "checked_slot_view t r = Inr (CheckedValid
       (if slot_state_of (token_slot t (shared r)) = InFlightWaiting then ViewWaiting ?i else ViewOrphaned ?i))"
    using i op pay st named
    by (auto simp: checked_slot_view_def slot_bundle_by_index_def snapshot_at_def Let_def names_slot_def)
qed

lemma finalize_waiting_live:
  assumes "remove t r = Some (r', Some d)"
  shows "finalize_waiting_checked t r = Some (r', Inr ())" "finalize_orphaned_checked t r = Some (r', Inr ())"
  using assms
  by (simp_all add: finalize_waiting_checked_def finalize_orphaned_checked_def finalize_waiting_completion_def
      finalize_orphaned_completion_def)

text \<open>The slot whose completion is being processed: everything is in order except, possibly, the
  private half of this slot, which the hook has already emptied.\<close>

definition completing :: "op_token \<Rightarrow> ('op, 'pay, 'det, 'side, 'plat) op_registry \<Rightarrow> bool" where
  "completing t r \<longleftrightarrow> inv_except {unat (op_index t)} r \<and> token_live t r \<and> names_slot t (shared r)"

lemma completing_upd_local:
  assumes "driver_inv r" "token_live t r" "names_slot t (shared r)"
    "ls_active l = ls_active (locals r ! unat (op_index t))"
    "ls_generation l = ls_generation (locals r ! unat (op_index t))"
  shows "completing t (upd_local (unat (op_index t)) (\<lambda>_. l) r)"
proof -
  have "inv_except {unat (op_index t)} (upd_local (unat (op_index t)) (\<lambda>_. l) r)"
    using assms(4) by (intro inv_except_upd_local inv_except_mono [OF assms(1)]) auto
  then show ?thesis using assms(2-5) by (auto simp: completing_def token_live_def)
qed

lemma completing_guard:
  assumes "completing t r"
  shows "completing t (on_shared (run_guard_here g) r)"
proof -
  have "inv_except {unat (op_index t)} (on_shared (run_guard_here g) r)"
    unfolding on_shared_def using assms
    by (intro inv_except_shared) (auto simp: completing_def inv_except_def table_inv_def)
  then show ?thesis using assms by (simp add: completing_def token_live_def names_slot_def)
qed

lemma record_completing:
  assumes c: "completing t r" and st: "slot_state_of (token_slot t (shared r)) = InFlightWaiting"
    and p: "packet_token p = t"
  shows "\<exists>r1. record_user_completion p r = Some (r1, RecordedUser) \<and> completing t r1
     \<and> slot_state_of (token_slot t (shared r1)) = InFlightReady
     \<and> table_view t (shared r1) = Done (packet_record p)
     \<and> (\<forall>u. u \<noteq> t \<longrightarrow> table_view u (shared r1) = table_view u (shared r))
     \<and> fx_woken (shared r1) = fx_woken (shared r)
          @ (case completion_waker (token_slot t (shared r)) of None \<Rightarrow> [] | Some w \<Rightarrow> [w])"
proof -
  let ?i = "unat (op_index t)"
  have inv: "inv_except {?i} r" "table_inv (shared r)" and n: "names_slot t (shared r)"
    using c by (auto simp: completing_def inv_except_def)
  obtain tb where tb: "record_completion p (shared r) = Some (tb, RecResRecorded RecordedUser)"
    "slots tb = (slots (shared r))[?i := completed_slot p (token_slot t (shared r))]"
    "remote_free_head tb = remote_free_head (shared r)"
    "fx_woken tb = fx_woken (shared r)
          @ (case completion_waker (token_slot t (shared r)) of None \<Rightarrow> [] | Some w \<Rightarrow> [w])"
    using record_waiting [of p "shared r"] n st p by auto
  have view: "table_view t (shared r) = InFlight (completion_waker (token_slot t (shared r)))"
    using n st by (simp add: view_InFlight)
  have law: "table_inv tb" "\<forall>u. u \<noteq> t \<longrightarrow> table_view u tb = table_view u (shared r)"
    "table_view t tb = Done (packet_record p)"
    using table_record_law [OF inv(2), of p] tb(1) p view by auto
  have i: "?i < length (slots (shared r))" by (rule named_index [OF n])
  have "inv_except {?i} (r\<lparr>shared := tb\<rparr>)"
    by (rule inv_except_shared [OF inv(1) law(1)]) (use tb(2,3) i in \<open>auto simp: nth_list_update\<close>)
  then have "completing t (r\<lparr>shared := tb\<rparr>)"
    using c tb(2) i by (simp add: completing_def token_live_def names_slot_def)
  then show ?thesis using tb law i by (simp add: record_user_completion_def)
qed

context completion_backend
begin

lemma finish_user:
  assumes c: "completing t r" and st: "slot_state_of (token_slot t (shared r)) = InFlightWaiting"
    and ev: "uce_token ev' = t" "uce_token ev = t"
  shows "\<exists>r' h'. finish_hook_outcome hk (HookUser ev' pay det cl eff) (Some (FinalizeWaiting ev)) r h
       = Some (r', h', Inr flow_user_completed) \<and> driver_inv r' \<and> \<not> token_live t r'
     \<and> table_view t (shared r') = Done (packet_record (packet_user_event ev' pay det cl))
     \<and> (\<forall>u. u \<noteq> t \<longrightarrow> table_view u (shared r') = table_view u (shared r))
     \<and> fx_woken (shared r') = fx_woken (shared r)
          @ (case completion_waker (token_slot t (shared r)) of None \<Rightarrow> [] | Some w \<Rightarrow> [w])"
proof -
  obtain h' where h': "hk_finish_effect hk eff h = (h', Inr ())" using effect_law by blast
  have p: "packet_token (packet_user_event ev' pay det cl) = t"
    using ev(1) by (simp add: packet_token_def packet_user_event_def)
  obtain r1 where r1: "record_user_completion (packet_user_event ev' pay det cl) r = Some (r1, RecordedUser)"
    "completing t r1" "slot_state_of (token_slot t (shared r1)) = InFlightReady"
    "table_view t (shared r1) = Done (packet_record (packet_user_event ev' pay det cl))"
    "\<forall>u. u \<noteq> t \<longrightarrow> table_view u (shared r1) = table_view u (shared r)"
    "fx_woken (shared r1) = fx_woken (shared r)
          @ (case completion_waker (token_slot t (shared r)) of None \<Rightarrow> [] | Some w \<Rightarrow> [w])"
    using record_completing [OF c st p] by blast
  obtain r' d where r': "remove t r1 = Some (r', Some d)" "driver_inv r'" "\<not> token_live t r'"
    "\<forall>u. u \<noteq> t \<longrightarrow> table_view u (shared r') = table_view u (shared r1)"
    "table_view t (shared r') = table_view t (shared r1)" "fx_woken (shared r') = fx_woken (shared r1)"
    using release_lifecycle [of t r1] r1(2,3) by (auto simp: completing_def)
  have "finish_waiting_if_needed (Some (FinalizeWaiting ev)) ev' r1 = Some (r', Inr ())"
    using finalize_waiting_live(1) [OF r'(1)] ev(2) by (simp add: finish_waiting_if_needed_def)
  then have "finish_hook_outcome hk (HookUser ev' pay det cl eff) (Some (FinalizeWaiting ev)) r h
       = Some (r', h', Inr flow_user_completed)"
    using h' r1(1) by (simp add: finish_with_def)
  then show ?thesis using r' r1(4-6) by simp
qed

lemma finish_cleanup:
  assumes c: "completing t r" and ev: "fin = FinalizeWaiting ev \<or> fin = FinalizeOrphaned ev" "uce_token ev = t"
    and st: "slot_state_of (token_slot t (shared r)) \<in> {InFlightWaiting, InFlightOrphaned}"
  shows "\<exists>r' h'. finish_hook_outcome hk (HookCleanup cl eff) (Some fin) r h = Some (r', h', Inr flow_orphan_cleaned)
     \<and> driver_inv r' \<and> \<not> token_live t r' \<and> table_view t (shared r') = Gone
     \<and> (\<forall>u. u \<noteq> t \<longrightarrow> table_view u (shared r') = table_view u (shared r))
     \<and> fx_cleaned (shared r') = fx_cleaned (shared r) @ guard_drop cl"
proof -
  obtain h' where h': "hk_finish_effect hk eff h = (h', Inr ())" using effect_law by blast
  let ?r1 = "on_shared (run_guard_here cl) r"
  have c1: "completing t ?r1" by (rule completing_guard [OF c])
  obtain r' d where r': "remove t ?r1 = Some (r', Some d)" "driver_inv r'" "\<not> token_live t r'"
    "\<forall>u. u \<noteq> t \<longrightarrow> table_view u (shared r') = table_view u (shared ?r1)"
    "table_view t (shared r') = (if slot_state_of (token_slot t (shared ?r1)) = InFlightWaiting then Gone
                                   else table_view t (shared ?r1))"
    "fx_cleaned (shared r') = fx_cleaned (shared ?r1)"
    using release_lifecycle [of t ?r1] c1 by (auto simp: completing_def)
  have same: "table_view u (shared ?r1) = table_view u (shared r)" for u
    by (simp add: table_view_def names_slot_def)
  have gone: "table_view t (shared r') = Gone"
    using r'(5) st by (auto simp: table_view_def slot_view_def)
  have "finish_hook_outcome hk (HookCleanup cl eff) (Some fin) r h = Some (r', h', Inr flow_orphan_cleaned)"
    using h' ev(1) by (elim disjE) (simp_all add: finish_with_def Let_def finish_waiting_if_needed_def
        finish_orphaned_def ev(2) finalize_waiting_live [OF r'(1)])
  then show ?thesis using r'(2-4,6) gone same by simp
qed

lemma accept_waiting:
  assumes inv: "driver_inv r" and view: "table_view (uce_token ev) (shared r) = InFlight w"
  shows "\<exists>r' h' out. accept_user_event hk ev src r h = Some (r', h', Inr out) \<and> driver_inv r'
     \<and> \<not> token_live (uce_token ev) r'
     \<and> (\<forall>u. u \<noteq> uce_token ev \<longrightarrow> table_view u (shared r') = table_view u (shared r))
     \<and> (\<exists>h1 l res. hk_complete_waiting hk ev src (locals r ! unat (op_index (uce_token ev))) h = (h1, l, res)
         \<and> (case res of
              Inr (HookUser ev' pay det c eff) \<Rightarrow> out = flow_user_completed
                \<and> table_view (uce_token ev) (shared r') = Done (packet_record (packet_user_event ev' pay det c))
                \<and> fx_woken (shared r') = fx_woken (shared r) @ (case w of None \<Rightarrow> [] | Some x \<Rightarrow> [x])
            | Inr (HookCleanup c eff) \<Rightarrow> out = flow_orphan_cleaned
                \<and> table_view (uce_token ev) (shared r') = Gone
                \<and> fx_cleaned (shared r') = fx_cleaned (shared r) @ guard_drop c
            | _ \<Rightarrow> False))"
proof -
  let ?t = "uce_token ev" and ?i = "unat (op_index (uce_token ev))"
  have n: "names_slot ?t (shared r)" and st: "slot_state_of (token_slot ?t (shared r)) = InFlightWaiting"
    and w: "completion_waker (token_slot ?t (shared r)) = w"
    using view by (auto simp: view_InFlight)
  note fl = in_flight_slot [OF inv n]
  obtain h1 l res where hk: "hk_complete_waiting hk ev src (locals r ! ?i) h = (h1, l, res)" by (cases "hk_complete_waiting hk ev src (locals r ! ?i) h")
  have law: "ls_active l = ls_active (locals r ! ?i)" "ls_generation l = ls_generation (locals r ! ?i)"
    "(\<exists>ev' pay det c eff. res = Inr (HookUser ev' pay det c eff) \<and> uce_token ev' = ?t) \<or> (\<exists>c eff. res = Inr (HookCleanup c eff))"
    using waiting_law [OF fl(2,3) hk] st by auto
  let ?r1 = "upd_local ?i (\<lambda>_. l) r"
  have c: "completing ?t ?r1" using completing_upd_local [OF inv fl(1) n law(1,2)] st by simp
  have run: "accept_user_event hk ev src r h = finish_hook_result hk res (Some (FinalizeWaiting ev)) ?r1 h1"
    using fl(4) st hk by (simp add: accept_user_event_def route_user_completion_def)
  from law(3) show ?thesis
  proof
    assume "\<exists>ev' pay det c eff. res = Inr (HookUser ev' pay det c eff) \<and> uce_token ev' = ?t"
    then obtain ev' pay det cl eff where res: "res = Inr (HookUser ev' pay det cl eff)" "uce_token ev' = ?t" by blast
    then show ?thesis
      using finish_user [OF c _ res(2), of ev pay det cl eff h1] st w hk run by (auto simp: finish_hook_result_def)
  next
    assume "\<exists>c eff. res = Inr (HookCleanup c eff)"
    then obtain cl eff where res: "res = Inr (HookCleanup cl eff)" by blast
    then show ?thesis
      using finish_cleanup [OF c, of "FinalizeWaiting ev" ev cl eff h1] st hk run by (auto simp: finish_hook_result_def)
  qed
qed

lemma accept_orphaned:
  assumes inv: "driver_inv r" and n: "names_slot (uce_token ev) (shared r)"
    and st: "slot_state_of (token_slot (uce_token ev) (shared r)) = InFlightOrphaned"
  shows "\<exists>r' h' h1 l c eff. accept_user_event hk ev src r h = Some (r', h', Inr flow_orphan_cleaned) \<and> driver_inv r'
     \<and> \<not> token_live (uce_token ev) r'
     \<and> hk_complete_orphaned hk ev src (locals r ! unat (op_index (uce_token ev))) h = (h1, l, Inr (HookCleanup c eff))
     \<and> fx_cleaned (shared r') = fx_cleaned (shared r) @ guard_drop c
     \<and> (\<forall>u. table_view u (shared r') = table_view u (shared r))"
proof -
  let ?t = "uce_token ev" and ?i = "unat (op_index (uce_token ev))"
  note fl = in_flight_slot [OF inv n]
  obtain h1 l res where hk: "hk_complete_orphaned hk ev src (locals r ! ?i) h = (h1, l, res)" by (cases "hk_complete_orphaned hk ev src (locals r ! ?i) h")
  obtain cl eff where law: "ls_active l = ls_active (locals r ! ?i)" "ls_generation l = ls_generation (locals r ! ?i)"
    "res = Inr (HookCleanup cl eff)"
    using orphaned_law [OF fl(2,3) hk] st by auto
  let ?r1 = "upd_local ?i (\<lambda>_. l) r"
  have c: "completing ?t ?r1" using completing_upd_local [OF inv fl(1) n law(1,2)] st by simp
  have run: "accept_user_event hk ev src r h = finish_hook_result hk res (Some (FinalizeOrphaned ev)) ?r1 h1"
    using fl(4) st hk by (simp add: accept_user_event_def route_user_completion_def)
  have gone: "table_view ?t (shared r) = Gone" using n st by (simp add: table_view_def slot_view_def)
  obtain r' h' where r': "finish_hook_outcome hk (HookCleanup cl eff) (Some (FinalizeOrphaned ev)) ?r1 h1 = Some (r', h', Inr flow_orphan_cleaned)"
     "driver_inv r'" "\<not> token_live ?t r'" "table_view ?t (shared r') = Gone"
     "\<forall>u. u \<noteq> ?t \<longrightarrow> table_view u (shared r') = table_view u (shared r)"
     "fx_cleaned (shared r') = fx_cleaned (shared r) @ guard_drop cl"
    using finish_cleanup [OF c, of "FinalizeOrphaned ev" ev cl eff h1] st by auto
  moreover have "table_view u (shared r') = table_view u (shared r)" for u
    using r'(4,5) gone by (cases "u = ?t") simp_all
  ultimately show ?thesis using run law(3) hk by (simp add: finish_hook_result_def)
qed

lemma accept_corrupt:
  assumes inv: "driver_inv r" and view: "checked_slot_view (uce_token ev) r = Inr v"
    and kind: "slot_view_kind (uce_token ev) v = Inl k" "kind_reason k \<in> {RUnknownSlot, RNonActiveSlot, RStaleGeneration}"
  shows "\<exists>r' h'. accept_user_event hk ev src r h = Some (r', h', Inr flow_anomaly) \<and> driver_inv r'
     \<and> (\<forall>u. table_view u (shared r') = table_view u (shared r))"
proof -
  obtain h1 att eff where h1: "hk_complete_corrupt hk ev k src h = (h1, Inr (HookAnomaly k att eff))"
    using corrupt_law by blast
  obtain h2 where h2: "hk_finish_effect hk eff h1 = (h2, Inr ())" using effect_law by blast
  have "accept_user_event hk ev src r h
      = Some (on_shared (note_diag (record_anomaly_kind k att)) r, h2, Inr flow_anomaly)"
    using view kind h1 h2
    by (auto simp: accept_user_event_def route_user_completion_def finish_hook_result_def Let_def)
  then show ?thesis using driver_inv_diag [OF inv] by simp
qed

lemma accept_other:
  assumes inv: "driver_inv r"
    and other: "\<not> (names_slot (uce_token ev) (shared r)
       \<and> slot_state_of (token_slot (uce_token ev) (shared r)) \<in> {InFlightWaiting, InFlightOrphaned})"
  shows "\<exists>r' h' res. accept_user_event hk ev src r h = Some (r', h', res) \<and> driver_inv r'
     \<and> (\<forall>u. table_view u (shared r') = table_view u (shared r))
     \<and> (res = Inr flow_anomaly \<or> (\<exists>e. res = Inl (CoreError e)
          \<and> names_slot (uce_token ev) (shared r) \<and> slot_state_of (token_slot (uce_token ev) (shared r)) = Reserved))"
proof (cases "names_slot (uce_token ev) (shared r) \<and> slot_state_of (token_slot (uce_token ev) (shared r)) = Reserved")
  case True
  let ?i = "unat (op_index (uce_token ev))"
  have i: "?i < length (locals r)" "?i < length (slots (shared r))"
    using True driver_invD(3) [OF inv] by (auto simp: names_slot_def)
  have "\<exists>e. accept_user_event hk ev src r h = Some (r, h, Inl (CoreError e))"
    using True i
    by (auto simp: accept_user_event_def checked_slot_view_def slot_bundle_by_index_def snapshot_at_def Let_def
        names_slot_def try_bind_def route_user_completion_def)
  then show ?thesis using inv True by auto
next
  case False
  let ?i = "unat (op_index (uce_token ev))"
  have "\<exists>v k. checked_slot_view (uce_token ev) r = Inr v \<and> slot_view_kind (uce_token ev) v = Inl k
      \<and> kind_reason k \<in> {RUnknownSlot, RNonActiveSlot, RStaleGeneration}"
    using False other driver_invD(3) [OF inv]
    by (auto simp: checked_slot_view_def slot_bundle_by_index_def snapshot_at_def Let_def names_slot_def)
  then show ?thesis using accept_corrupt [OF inv, of ev _ _ src h] by metis
qed

lemma accept_total:
  assumes inv: "driver_inv r"
  shows "\<exists>r' h' res. accept_user_event hk ev src r h = Some (r', h', res) \<and> driver_inv r'
     \<and> (\<forall>u. u \<noteq> uce_token ev \<longrightarrow> table_view u (shared r') = table_view u (shared r))"
proof -
  let ?t = "uce_token ev"
  consider (w) "names_slot ?t (shared r)" "slot_state_of (token_slot ?t (shared r)) = InFlightWaiting"
    | (o) "names_slot ?t (shared r)" "slot_state_of (token_slot ?t (shared r)) = InFlightOrphaned"
    | (x) "\<not> (names_slot ?t (shared r) \<and> slot_state_of (token_slot ?t (shared r)) \<in> {InFlightWaiting, InFlightOrphaned})"
    by auto
  then show ?thesis
  proof cases
    case w
    then have "table_view ?t (shared r) = InFlight (completion_waker (token_slot ?t (shared r)))"
      by (simp add: view_InFlight)
    then show ?thesis using accept_waiting [OF inv, of ev _ src h] by blast
  next
    case o
    then show ?thesis using accept_orphaned [OF inv, of ev src h] by blast
  next
    case x
    then show ?thesis using accept_other [OF inv, of ev src h] by blast
  qed
qed

text \<open>The completion of an operation whose token does not survive the kernel's fifteen bits of
  generation is classified to another token and never reaches the waiting operation.\<close>

lemma accept_truncated:
  assumes inv: "driver_inv r" and view: "table_view t (shared r) = InFlight w"
    and lim: "op_index t < INDEX_LIMIT" and big: "0x8000 \<le> op_generation t"
  shows "\<exists>r' h'. accept_completion hk (IngressKernel (envelope_from_raw_parts b (token_user t) res fl)) r h
       = Some (r', h', Inr flow_anomaly) \<and> driver_inv r' \<and> table_view t (shared r') = InFlight w
     \<and> fx_woken (shared r') = fx_woken (shared r)"
proof -
  let ?t = "t\<lparr>op_generation := op_generation t AND 0x7fff\<rparr>"
  let ?raw = "\<lparr>rc_backend = b, rc_token = token_user t, rc_res = res, rc_flags = fl\<rparr>"
  let ?ev = "user_event_from_classified ?t ?raw"
  have ev: "dispatch_envelope (envelope_from_raw_parts b (token_user t) res fl) = DispatchUser ?ev"
    by (simp add: envelope_from_raw_parts_def envelope_from_raw_def classify_user [OF lim] dispatch_envelope_def)
  have tok: "uce_token ?ev = ?t" by (simp add: user_event_from_classified_def)
  have ne: "op_generation ?t \<noteq> op_generation t"
  proof -
    have m: "(0x7fff :: u32) = mask 15" by (simp add: mask_eq_exp_minus_1)
    have "unat (op_generation t AND mask 15) < 2 ^ 15" by (simp add: and_mask_unat)
    moreover have "(2 :: nat) ^ 15 \<le> unat (op_generation t)" using big by (simp add: word_le_nat_alt)
    ultimately show ?thesis by (auto simp: m)
  qed
  have n: "names_slot t (shared r)" using view by (simp add: view_InFlight)
  have i: "unat (op_index t) < length (locals r)" "unat (op_index t) < length (slots (shared r))"
    using n driver_invD(3) [OF inv] by (auto simp: names_slot_def)
  have v: "checked_slot_view (uce_token ?ev) r = Inr (CheckedStale (snapshot_at (unat (op_index t)) r))"
    using i n ne tok by (simp add: checked_slot_view_def slot_bundle_by_index_def snapshot_at_def Let_def names_slot_def)
  obtain h1 att eff where h1: "hk_complete_corrupt hk ?ev (KStale (op_index t) (op_generation ?t) (op_generation t)
        (slot_state_of (token_slot t (shared r)))) SourceKernel h = (h1, Inr (HookAnomaly
        (KStale (op_index t) (op_generation ?t) (op_generation t) (slot_state_of (token_slot t (shared r)))) att eff))"
    using corrupt_law by blast
  obtain h2 where h2: "hk_finish_effect hk eff h1 = (h2, Inr ())" using effect_law by blast
  have "accept_user_event hk ?ev SourceKernel r h
      = Some (on_shared (note_diag (record_anomaly_kind (KStale (op_index t) (op_generation ?t) (op_generation t)
          (slot_state_of (token_slot t (shared r)))) att)) r, h2, Inr flow_anomaly)"
    using v h1 h2 n tok
    by (simp add: accept_user_event_def route_user_completion_def finish_hook_result_def Let_def snapshot_at_def names_slot_def)
  then show ?thesis
    using driver_inv_diag [OF inv] view by (simp add: accept_completion_def ev)
qed

end

end
