(* ===== verification/Fd_Interface.thy ===== *)
theory Fd_Interface
  imports Veloq_Prelude
begin

text \<open>
  The contract of a table that hands out descriptors, as the users of a driver see it: a
  registration returns descriptors, closing ends them, replacing changes what they stand for. A
  user's history is an inductive relation over the three operations; the contract is a locale, and
  inside it the histories are shown to keep every descriptor that is in use and none that was
  closed.
\<close>

text \<open>A history: the state of the table, the descriptors issued so far, what each descriptor in use
  stands for, and the number of closings. A registration may fail as a whole (\<open>Inl\<close>); the closing
  operations are given as a list.\<close>

inductive handle_run ::
  "('f list \<Rightarrow> 's \<Rightarrow> ('s \<times> ('e + 'h list)) option) \<Rightarrow> ('h \<Rightarrow> 's \<Rightarrow> 's \<times> ('e + unit)) list
     \<Rightarrow> ('h \<Rightarrow> 'w \<Rightarrow> 's \<Rightarrow> 's \<times> ('e + unit)) \<Rightarrow> ('f \<Rightarrow> 'm) \<Rightarrow> ('w \<Rightarrow> 'm) \<Rightarrow> 's
     \<Rightarrow> 's \<Rightarrow> 'h set \<Rightarrow> ('h \<rightharpoonup> 'm) \<Rightarrow> nat \<Rightarrow> bool"
  for reg cls repl fm wm s0 where
  run_start: "handle_run reg cls repl fm wm s0 s0 {} Map.empty 0"
| run_register:
    "\<lbrakk>handle_run reg cls repl fm wm s0 s I A n; reg fs s = Some (s', Inr hs)\<rbrakk>
     \<Longrightarrow> handle_run reg cls repl fm wm s0 s' (I \<union> set hs) (A ++ map_of (zip hs (map fm fs))) n"
| run_register_error:
    "\<lbrakk>handle_run reg cls repl fm wm s0 s I A n; reg fs s = Some (s', Inl e)\<rbrakk>
     \<Longrightarrow> handle_run reg cls repl fm wm s0 s' I A n"
| run_close:
    "\<lbrakk>handle_run reg cls repl fm wm s0 s I A n; c \<in> set cls; c h s = (s', Inr u)\<rbrakk>
     \<Longrightarrow> handle_run reg cls repl fm wm s0 s' I (A(h := None)) (Suc n)"
| run_close_error:
    "\<lbrakk>handle_run reg cls repl fm wm s0 s I A n; c \<in> set cls; c h s = (s', Inl e)\<rbrakk>
     \<Longrightarrow> handle_run reg cls repl fm wm s0 s' I A n"
| run_replace:
    "\<lbrakk>handle_run reg cls repl fm wm s0 s I A n; repl h w s = (s', Inr u)\<rbrakk>
     \<Longrightarrow> handle_run reg cls repl fm wm s0 s' I (if h \<in> I then A(h \<mapsto> wm w) else A) n"
| run_replace_error:
    "\<lbrakk>handle_run reg cls repl fm wm s0 s I A n; repl h w s = (s', Inl e)\<rbrakk>
     \<Longrightarrow> handle_run reg cls repl fm wm s0 s' I A n"

text \<open>\<open>look\<close> is what a descriptor stands for now, \<open>retired\<close> the descriptors that stand for nothing
  and never will, \<open>aged s n\<close> that at most \<open>n\<close> closings have used up descriptors of \<open>s\<close>.\<close>

locale handle_table =
  fixes inv :: "'s \<Rightarrow> bool" and look :: "'s \<Rightarrow> 'h \<rightharpoonup> 'm" and retired :: "'s \<Rightarrow> 'h set" and aged :: "'s \<Rightarrow> nat \<Rightarrow> bool" and limit :: nat
    and reg :: "'f list \<Rightarrow> 's \<Rightarrow> ('s \<times> ('e + 'h list)) option" and cls :: "('h \<Rightarrow> 's \<Rightarrow> 's \<times> ('e + unit)) list"
    and repl :: "'h \<Rightarrow> 'w \<Rightarrow> 's \<Rightarrow> 's \<times> ('e + unit)" and fm :: "'f \<Rightarrow> 'm" and wm :: "'w \<Rightarrow> 'm"
  assumes retired_law: "\<lbrakk>inv s; h \<in> retired s\<rbrakk> \<Longrightarrow> look s h = None"
    and reg_total: "inv s \<Longrightarrow> \<exists>s' r. reg fs s = Some (s', r)"
    and reg_law: "\<lbrakk>inv s; aged s n; reg fs s = Some (s', r)\<rbrakk> \<Longrightarrow> inv s' \<and> aged s' n \<and> retired s \<subseteq> retired s' \<and> look s \<subseteq>\<^sub>m look s'
      \<and> (\<forall>hs. r = Inr hs \<longrightarrow> length hs = length fs \<and> distinct hs \<and> (\<forall>h\<in>set hs. look s h = None \<and> h \<notin> retired s)
           \<and> look s' = look s ++ map_of (zip hs (map fm fs)))"
    and close_ok: "\<lbrakk>inv s; aged s n; Suc n < limit; c \<in> set cls; c h s = (s', Inr u)\<rbrakk> \<Longrightarrow> inv s' \<and> aged s' (Suc n)
      \<and> look s' = (look s)(h := None) \<and> retired s \<subseteq> retired s' \<and> (look s h \<noteq> None \<longrightarrow> h \<in> retired s')"
    and close_err: "\<lbrakk>inv s; aged s n; c \<in> set cls; c h s = (s', Inl e)\<rbrakk> \<Longrightarrow> inv s' \<and> aged s' n \<and> look s' = look s \<and> retired s' = retired s"
    and repl_ok: "\<lbrakk>inv s; aged s n; repl h w s = (s', Inr u)\<rbrakk> \<Longrightarrow> inv s' \<and> aged s' n \<and> look s h \<noteq> None
      \<and> look s' = (look s)(h \<mapsto> wm w) \<and> retired s' = retired s"
    and repl_err: "\<lbrakk>inv s; aged s n; repl h w s = (s', Inl e)\<rbrakk> \<Longrightarrow> inv s' \<and> aged s' n \<and> look s' = look s \<and> retired s' = retired s"
begin

abbreviation run :: "'s \<Rightarrow> 's \<Rightarrow> 'h set \<Rightarrow> ('h \<rightharpoonup> 'm) \<Rightarrow> nat \<Rightarrow> bool" where
  "run \<equiv> handle_run reg cls repl fm wm"

definition tracked :: "'s \<Rightarrow> 'h set \<Rightarrow> ('h \<rightharpoonup> 'm) \<Rightarrow> bool" where
  "tracked s I A \<longleftrightarrow> A \<subseteq>\<^sub>m look s \<and> dom A \<subseteq> I \<and> I - dom A \<subseteq> retired s"

lemma tracked_grow:
  assumes "tracked s I A" "look s \<subseteq>\<^sub>m look s'" "retired s \<subseteq> retired s'"
  shows "tracked s' I A"
  using assms by (auto simp: tracked_def intro: map_le_trans)

lemma tracked_register:
  assumes "tracked s I A" "inv s" "length hs = length ms" "distinct hs" "\<forall>h\<in>set hs. look s h = None \<and> h \<notin> retired s"
    "look s' = look s ++ map_of (zip hs ms)" "retired s \<subseteq> retired s'"
  shows "tracked s' (I \<union> set hs) (A ++ map_of (zip hs ms))"
proof -
  have "dom (map_of (zip hs ms)) = set hs" using assms(3) by (simp add: dom_map_of_zip)
  moreover have "A ++ map_of (zip hs ms) \<subseteq>\<^sub>m look s'"
    using assms(1,6) by (auto simp: tracked_def map_le_def map_add_def split: option.splits)
  ultimately show ?thesis using assms(1,5,7) by (auto simp: tracked_def)
qed

lemma tracked_close:
  assumes "tracked s I A" "look s' = (look s)(h := None)" "retired s \<subseteq> retired s'" "look s h \<noteq> None \<longrightarrow> h \<in> retired s'"
  shows "tracked s' I (A(h := None))"
proof -
  have "h \<in> dom A \<Longrightarrow> look s h \<noteq> None" using assms(1) by (auto simp: tracked_def map_le_def dom_def)
  then have "h \<in> I \<Longrightarrow> h \<in> retired s'" using assms(1,3,4) unfolding tracked_def by blast
  then show ?thesis using assms(1-3) by (auto simp: tracked_def map_le_def)
qed

lemma run_invariant:
  "\<lbrakk>run s0 s I A n; inv s0; aged s0 0; n < limit\<rbrakk> \<Longrightarrow> inv s \<and> aged s n \<and> tracked s I A"
proof (induction rule: handle_run.induct)
  case run_start
  then show ?case by (simp add: tracked_def)
next
  case (run_register s I A n fs s' hs)
  then have s: "inv s" "aged s n" "tracked s I A" by simp_all
  note r = reg_law [OF s(1,2) run_register.hyps(2)]
  show ?case using r tracked_register [OF s(3,1), of hs "map fm fs" s'] by simp
next
  case (run_register_error s I A n fs s' e)
  then have s: "inv s" "aged s n" "tracked s I A" by simp_all
  show ?case using reg_law [OF s(1,2) run_register_error.hyps(2)] tracked_grow [OF s(3), of s'] by simp
next
  case (run_close s I A n c h s' u)
  then have s: "inv s" "aged s n" "tracked s I A" by simp_all
  show ?case using close_ok [OF s(1,2) run_close.prems(3) run_close.hyps(2,3)] tracked_close [OF s(3), of s' h]
    by (simp add: fun_upd_def)
next
  case (run_close_error s I A n c h s' e)
  then have s: "inv s" "aged s n" "tracked s I A" by simp_all
  show ?case using close_err [OF s(1,2) run_close_error.hyps(2,3)] s(3) by (simp add: tracked_def)
next
  case (run_replace s I A n h w s' u)
  then have s: "inv s" "aged s n" "tracked s I A" by simp_all
  note r = repl_ok [OF s(1,2) run_replace.hyps(2)]
  have "h \<in> I \<Longrightarrow> h \<in> dom A" using r s(3) retired_law [OF s(1)] by (auto simp: tracked_def)
  then show ?case using r s(3) by (auto simp: tracked_def map_le_def)
next
  case (run_replace_error s I A n h w s' e)
  then have s: "inv s" "aged s n" "tracked s I A" by simp_all
  show ?case using repl_err [OF s(1,2) run_replace_error.hyps(2)] s(3) by (simp add: tracked_def)
qed

text \<open>An issued descriptor stands for what its user last gave it, and for nothing once closed.\<close>

lemma run_look:
  assumes "run s0 s I A n" "inv s0" "aged s0 0" "n < limit" "h \<in> I"
  shows "inv s" "look s h = A h"
proof -
  have i: "inv s" "tracked s I A" using run_invariant [OF assms(1-4)] by simp_all
  then show "inv s" by simp
  show "look s h = A h"
    using i assms(5) retired_law [OF i(1), of h] by (cases "A h") (auto simp: tracked_def map_le_def dom_def)
qed

text \<open>A registration never panics.\<close>

lemma run_register_total:
  assumes "run s0 s I A n" "inv s0" "aged s0 0" "n < limit"
  shows "\<exists>s' r. reg fs s = Some (s', r)"
  using reg_total run_invariant [OF assms] by blast

end

end
