(* ===== verification/Uring_Error.thy ===== *)
theory Uring_Error
  imports Veloq_Prelude
begin

text \<open>
  Error reports of the io_uring backend (\<^verbatim>\<open>backend/uring/src/error.rs\<close>): the kind of an error, the
  error code attached to it and the result value that a completion carries for it.
\<close>

datatype uring_error =
    UeDriverInit | UeCompletionWait | UeSubmission | UeRegistration | UeResolveFd | UeSocket
  | UeInvalidInput | UeInvalidState | UeUnsupported | UeInternal

text \<open>What the driver reads of a report: its kind and the error code attached to it, if any.\<close>

record uring_report =
  ur_inner :: uring_error
  ur_error_code :: "int option"

definition i32_abs :: "i32 \<Rightarrow> i32" where
  "i32_abs c = (if sint c < 0 then - c else c)"

definition neg_code :: "i32 \<Rightarrow> i32 option" where
  "neg_code code = (if code \<noteq> 0 then Some (- i32_abs code) else None)"

fun uring_fallback_errno :: "uring_error \<Rightarrow> i32" where
  "uring_fallback_errno UeDriverInit = 5"
| "uring_fallback_errno UeCompletionWait = 5"
| "uring_fallback_errno UeSubmission = 11"
| "uring_fallback_errno UeRegistration = 12"
| "uring_fallback_errno UeResolveFd = 9"
| "uring_fallback_errno UeSocket = 5"
| "uring_fallback_errno UeInvalidInput = 22"
| "uring_fallback_errno UeInvalidState = 5"
| "uring_fallback_errno UeUnsupported = 95"
| "uring_fallback_errno UeInternal = 5"

definition report_of :: "uring_error \<Rightarrow> uring_report" where
  "report_of e = \<lparr>ur_inner = e, ur_error_code = Some (sint (uring_fallback_errno e))\<rparr>"

text \<open>A report built without a code, and the report of a failed system call; the argument is
  \<^verbatim>\<open>raw_os_error\<close> of the \<^verbatim>\<open>io::Error\<close>.\<close>

definition plain_report :: "uring_error \<Rightarrow> uring_report" where
  "plain_report e = \<lparr>ur_inner = e, ur_error_code = None\<rparr>"

definition io_report :: "uring_error \<Rightarrow> i32 option \<Rightarrow> uring_report" where
  "io_report e os_code = \<lparr>ur_inner = e, ur_error_code = map_option sint os_code\<rparr>"

definition i32_try_from :: "int \<Rightarrow> i32 option" where
  "i32_try_from n = (if - (2 ^ 31) \<le> n \<and> n < 2 ^ 31 then Some (word_of_int n) else None)"

definition uring_report_to_event_res :: "uring_report \<Rightarrow> i32" where
  "uring_report_to_event_res rep =
     (case Option.bind (Option.bind (ur_error_code rep) i32_try_from) neg_code of
        Some res \<Rightarrow> res
      | None \<Rightarrow> - uring_fallback_errno (ur_inner rep))"

end
