(* ===== verification/Fixed_Files.thy ===== *)
theory Fixed_Files
  imports Fd_Interface Uring_Error
begin

text \<open>
  The table of registered file descriptors of the io_uring backend
  (\<^verbatim>\<open>backend/uring/src/driver/registration.rs\<close>, with the handle types of \<^verbatim>\<open>config.rs\<close> and of
  \<^verbatim>\<open>driver/core/src/lib.rs\<close>). The driver mirrors the kernel's table of registered files in a vector
  of slots; a descriptor handed out names a slot and the generation of the slot.

  The submitter of the ring is a parameter: \<open>rf_register\<close> and \<open>rf_update\<close> are
  \<^verbatim>\<open>register_files\<close> and \<^verbatim>\<open>register_files_update\<close> on the state of the kernel, with
  \<^verbatim>\<open>raw_os_error\<close> of the error when they fail. \<open>None\<close> is a panic. Dropping an owned handle closes its
  descriptor; the descriptors closed so are logged in \<open>ft_closed\<close>.
\<close>

subsection \<open>Handles\<close>

record io_fd =
  fd_fixed_index :: u32
  fd_generation :: u64

definition fixed_with_generation :: "u32 \<Rightarrow> u64 \<Rightarrow> io_fd" where
  "fixed_with_generation idx g = \<lparr>fd_fixed_index = idx, fd_generation = g\<rparr>"

datatype raw_handle_kind = KindFile | KindSocket

datatype uring_raw_handle = RawFile i32 | RawSocket i32

fun as_fd :: "uring_raw_handle \<Rightarrow> i32" where
  "as_fd (RawFile fd) = fd"
| "as_fd (RawSocket fd) = fd"

fun raw_kind :: "uring_raw_handle \<Rightarrow> raw_handle_kind" where
  "raw_kind (RawFile _) = KindFile"
| "raw_kind (RawSocket _) = KindSocket"

text \<open>The descriptors that closing a handle closes.\<close>

definition raw_close :: "uring_raw_handle \<Rightarrow> i32 list" where
  "raw_close h = (if 0 \<le> sint (as_fd h) then [as_fd h] else [])"

datatype register_fd = RegisterBorrowed uring_raw_handle | RegisterOwned uring_raw_handle

datatype registered_file_entry = BorrowedFd i32 raw_handle_kind | OwnedHandle uring_raw_handle

fun entry_fd :: "registered_file_entry \<Rightarrow> i32" where
  "entry_fd (BorrowedFd fd _) = fd"
| "entry_fd (OwnedHandle h) = as_fd h"

fun entry_kind :: "registered_file_entry \<Rightarrow> raw_handle_kind" where
  "entry_kind (BorrowedFd _ k) = k"
| "entry_kind (OwnedHandle h) = raw_kind h"

fun entry_of :: "register_fd \<Rightarrow> registered_file_entry" where
  "entry_of (RegisterBorrowed b) = BorrowedFd (as_fd b) (raw_kind b)"
| "entry_of (RegisterOwned own) = OwnedHandle own"

text \<open>Dropping an entry closes the handle it owns.\<close>

fun entry_drop :: "registered_file_entry \<Rightarrow> i32 list" where
  "entry_drop (BorrowedFd _ _) = []"
| "entry_drop (OwnedHandle h) = raw_close h"

subsection \<open>The table\<close>

record file_slot =
  fs_entry :: "registered_file_entry option"
  fs_generation :: u64

record 'r ring_files =
  rf_register :: "i32 list \<Rightarrow> 'r \<Rightarrow> 'r \<times> (i32 option + unit)"
  rf_update :: "u32 \<Rightarrow> i32 list \<Rightarrow> 'r \<Rightarrow> 'r \<times> (i32 option + unit)"

text \<open>The free list is a vector: its last element is the next slot handed out.\<close>

record 'r file_table =
  ft_ring :: 'r
  ft_slots :: "file_slot list"
  ft_free :: "u32 list"
  ft_initialized :: bool
  ft_closed :: "i32 list"

definition file_table_new :: "'r \<Rightarrow> 'r file_table" where
  "file_table_new r = \<lparr>ft_ring = r, ft_slots = [], ft_free = [], ft_initialized = False, ft_closed = []\<rparr>"

definition INITIAL_FILE_GENERATION :: u64 where
  "INITIAL_FILE_GENERATION = 1"

definition MIN_FILE_TABLE_CAPACITY :: nat where
  "MIN_FILE_TABLE_CAPACITY = 1"

definition resolve_registered_fixed_fd ::
  "file_slot list \<Rightarrow> io_fd \<Rightarrow> raw_handle_kind option \<Rightarrow> uring_report + u32" where
  "resolve_registered_fixed_fd slots fd expected_kind =
     (let idx = fd_fixed_index fd; index = unat idx
      in if length slots \<le> index then Inl (plain_report UeResolveFd)
         else let slot = slots ! index
              in if fs_generation slot \<noteq> fd_generation fd then Inl (plain_report UeResolveFd)
                 else case fs_entry slot of
                        None \<Rightarrow> Inl (plain_report UeResolveFd)
                      | Some entry \<Rightarrow>
                          (case expected_kind of
                             None \<Rightarrow> Inr idx
                           | Some k \<Rightarrow> if entry_kind entry \<noteq> k then Inl (plain_report UeResolveFd) else Inr idx))"

definition advance_file_generation :: "u64 \<Rightarrow> u64" where
  "advance_file_generation g = (if g + 1 = 0 then INITIAL_FILE_GENERATION else g + 1)"

definition unregister_file_slot ::
  "'r ring_files \<Rightarrow> u32 \<Rightarrow> bool \<Rightarrow> 'r file_table \<Rightarrow> 'r file_table \<times> (uring_report + unit)" where
  "unregister_file_slot rf idx advance_generation ft =
     (let index = unat idx
      in if length (ft_slots ft) \<le> index then (ft, Inr ())
         else let slot = ft_slots ft ! index
              in case fs_entry slot of
                   None \<Rightarrow> (ft, Inr ())
                 | Some entry \<Rightarrow>
                     (case rf_update rf idx [- 1] (ft_ring ft) of
                        (r, Inl e) \<Rightarrow> (ft\<lparr>ft_ring := r\<rparr>, Inl (io_report UeRegistration e))
                      | (r, Inr _) \<Rightarrow>
                          (ft\<lparr>ft_ring := r, ft_free := ft_free ft @ [idx],
                              ft_slots := (ft_slots ft)[index := \<lparr>fs_entry = None,
                                 fs_generation = (if advance_generation then advance_file_generation (fs_generation slot)
                                                  else fs_generation slot)\<rparr>],
                              ft_closed := ft_closed ft @ entry_drop entry\<rparr>, Inr ())))"

text \<open>The vector of registered slots is popped from its end, so the loop runs over its reverse; it
  goes on after an error and reports the first.\<close>

fun rollback_loop ::
  "'r ring_files \<Rightarrow> u32 list \<Rightarrow> uring_report option \<Rightarrow> 'r file_table \<Rightarrow> 'r file_table \<times> uring_report option" where
  "rollback_loop rf [] first_error ft = (ft, first_error)"
| "rollback_loop rf (idx # rest) first_error ft =
     (case unregister_file_slot rf idx False ft of
        (ft', Inl report) \<Rightarrow> rollback_loop rf rest (case first_error of None \<Rightarrow> Some report | Some e \<Rightarrow> Some e) ft'
      | (ft', Inr _) \<Rightarrow> rollback_loop rf rest first_error ft')"

definition rollback_file_slots ::
  "'r ring_files \<Rightarrow> u32 list \<Rightarrow> 'r file_table \<Rightarrow> 'r file_table \<times> (uring_report + unit)" where
  "rollback_file_slots rf registered ft =
     (case rollback_loop rf (rev registered) None ft of
        (ft', Some report) \<Rightarrow> (ft', Inl report)
      | (ft', None) \<Rightarrow> (ft', Inr ()))"

definition unregister_fixed_fd ::
  "'r ring_files \<Rightarrow> io_fd \<Rightarrow> 'r file_table \<Rightarrow> 'r file_table \<times> (uring_report + unit)" where
  "unregister_fixed_fd rf fd ft =
     (if \<not> ft_initialized ft then (ft, Inr ())
      else let idx = fd_fixed_index fd; index = unat idx
           in if index < length (ft_slots ft)
              then if fs_generation (ft_slots ft ! index) \<noteq> fd_generation fd then (ft, Inr ())
                   else unregister_file_slot rf idx True ft
              else (ft, Inr ()))"

text \<open>The entry is not dropped here: the completed close operation has closed the descriptor.\<close>

definition unregister_close_owned_fd ::
  "'r ring_files \<Rightarrow> io_fd \<Rightarrow> 'r file_table \<Rightarrow> 'r file_table \<times> (uring_report + unit)" where
  "unregister_close_owned_fd rf fd ft =
     (if \<not> ft_initialized ft then (ft, Inr ())
      else let idx = fd_fixed_index fd; index = unat idx
           in if length (ft_slots ft) \<le> index then (ft, Inr ())
              else let slot = ft_slots ft ! index
                   in if fs_generation slot \<noteq> fd_generation fd then (ft, Inr ())
                      else case fs_entry slot of
                             None \<Rightarrow> (ft, Inr ())
                           | Some _ \<Rightarrow>
                               (case rf_update rf idx [- 1] (ft_ring ft) of
                                  (r, Inl e) \<Rightarrow> (ft\<lparr>ft_ring := r\<rparr>, Inl (io_report UeRegistration e))
                                | (r, Inr _) \<Rightarrow>
                                    (ft\<lparr>ft_ring := r, ft_free := ft_free ft @ [idx],
                                        ft_slots := (ft_slots ft)[index := \<lparr>fs_entry = None,
                                           fs_generation = advance_file_generation (fs_generation slot)\<rparr>]\<rparr>, Inr ())))"

definition replace_registered_fixed_fd ::
  "'r ring_files \<Rightarrow> io_fd \<Rightarrow> uring_raw_handle \<Rightarrow> 'r file_table \<Rightarrow> 'r file_table \<times> (uring_report + unit)" where
  "replace_registered_fixed_fd rf fixed_fd raw ft =
     (if \<not> ft_initialized ft then (ft, Inl (plain_report UeInvalidState))
      else let idx = fd_fixed_index fixed_fd; index = unat idx
           in if length (ft_slots ft) \<le> index then (ft, Inl (plain_report UeInvalidState))
              else let slot = ft_slots ft ! index
                   in if fs_generation slot \<noteq> fd_generation fixed_fd then (ft, Inl (plain_report UeInvalidState))
                      else case fs_entry slot of
                             None \<Rightarrow> (ft, Inl (plain_report UeInvalidState))
                           | Some old \<Rightarrow>
                               (case rf_update rf idx [as_fd raw] (ft_ring ft) of
                                  (r, Inl e) \<Rightarrow> (ft\<lparr>ft_ring := r\<rparr>, Inl (io_report UeRegistration e))
                                | (r, Inr _) \<Rightarrow>
                                    (ft\<lparr>ft_ring := r,
                                        ft_slots := (ft_slots ft)[index := slot\<lparr>fs_entry := Some (BorrowedFd (as_fd raw) (raw_kind raw))\<rparr>],
                                        ft_closed := ft_closed ft @ entry_drop old\<rparr>, Inr ())))"

text \<open>The capacity is that of the operation registry.\<close>

definition ensure_file_table_initialized ::
  "'r ring_files \<Rightarrow> nat \<Rightarrow> 'r file_table \<Rightarrow> 'r file_table \<times> (uring_report + unit)" where
  "ensure_file_table_initialized rf ops_capacity ft =
     (if ft_initialized ft then (ft, Inr ())
      else let capacity = max ops_capacity MIN_FILE_TABLE_CAPACITY
           in case rf_register rf (replicate capacity (- 1)) (ft_ring ft) of
                (r, Inl e) \<Rightarrow> (ft\<lparr>ft_ring := r\<rparr>, Inl (io_report UeRegistration e))
              | (r, Inr _) \<Rightarrow>
                  (ft\<lparr>ft_ring := r,
                      ft_slots := replicate capacity \<lparr>fs_entry = None, fs_generation = INITIAL_FILE_GENERATION\<rparr>,
                      ft_free := rev (map word_of_nat [0..<unat (word_of_nat capacity :: u32)]),
                      ft_initialized := True\<rparr>, Inr ()))"

text \<open>Files that were not registered are dropped when the function returns.\<close>

definition drop_files :: "register_fd list \<Rightarrow> 'r file_table \<Rightarrow> 'r file_table" where
  "drop_files files ft = ft\<lparr>ft_closed := ft_closed ft @ concat (map (entry_drop \<circ> entry_of) files)\<rparr>"

fun register_loop ::
  "'r ring_files \<Rightarrow> register_fd list \<Rightarrow> u32 list \<Rightarrow> io_fd list \<Rightarrow> 'r file_table
     \<Rightarrow> ('r file_table \<times> (uring_report + io_fd list)) option" where
  "register_loop rf [] registered_slots fixed_fds ft = Some (ft, Inr fixed_fds)"
| "register_loop rf (file # files) registered_slots fixed_fds ft =
     (let entry = entry_of file
      in if ft_free ft = [] then None
         else let idx = last (ft_free ft); ft1 = ft\<lparr>ft_free := butlast (ft_free ft)\<rparr>
              in case rf_update rf idx [entry_fd entry] (ft_ring ft1) of
                   (r, Inl e) \<Rightarrow>
                     (case rollback_file_slots rf registered_slots (ft1\<lparr>ft_ring := r, ft_free := ft_free ft1 @ [idx]\<rparr>) of
                        (ft2, Inl rollback_report) \<Rightarrow> Some (drop_files (file # files) ft2, Inl rollback_report)
                      | (ft2, Inr _) \<Rightarrow> Some (drop_files (file # files) ft2, Inl (io_report UeRegistration e)))
                 | (r, Inr _) \<Rightarrow>
                     if length (ft_slots ft1) \<le> unat idx then None
                     else let slot = ft_slots ft1 ! unat idx
                          in register_loop rf files (registered_slots @ [idx])
                               (fixed_fds @ [fixed_with_generation idx (fs_generation slot)])
                               (ft1\<lparr>ft_ring := r, ft_slots := (ft_slots ft1)[unat idx := slot\<lparr>fs_entry := Some entry\<rparr>]\<rparr>))"

definition register_files_internal ::
  "'r ring_files \<Rightarrow> nat \<Rightarrow> register_fd list \<Rightarrow> 'r file_table \<Rightarrow> ('r file_table \<times> (uring_report + io_fd list)) option" where
  "register_files_internal rf ops_capacity files ft =
     (case ensure_file_table_initialized rf ops_capacity ft of
        (ft1, Inl e) \<Rightarrow> Some (drop_files files ft1, Inl e)
      | (ft1, Inr _) \<Rightarrow>
          if length (ft_free ft1) < length files then Some (drop_files files ft1, Inl (plain_report UeInvalidState))
          else register_loop rf files [] [] ft1)"

fun unregister_files ::
  "'r ring_files \<Rightarrow> io_fd list \<Rightarrow> 'r file_table \<Rightarrow> 'r file_table \<times> (uring_report + unit)" where
  "unregister_files rf [] ft = (ft, Inr ())"
| "unregister_files rf (fd # files) ft =
     (case unregister_fixed_fd rf fd ft of
        (ft', Inl e) \<Rightarrow> (ft', Inl e)
      | (ft', Inr _) \<Rightarrow> unregister_files rf files ft')"
subsection \<open>What the kernel promises\<close>

text \<open>\<open>view r i\<close> is the descriptor in entry \<open>i\<close> of the kernel's table of registered files. An update
  that succeeds writes the entry, one that fails leaves the table alone.\<close>

definition ring_files_ok :: "'r ring_files \<Rightarrow> ('r \<Rightarrow> nat \<Rightarrow> i32) \<Rightarrow> bool" where
  "ring_files_ok rf view \<longleftrightarrow>
     (\<forall>fds r r' u. rf_register rf fds r = (r', Inr u) \<longrightarrow> (\<forall>i<length fds. view r' i = fds ! i))
   \<and> (\<forall>idx fd r r' u. rf_update rf idx [fd] r = (r', Inr u) \<longrightarrow> view r' = (view r)(unat idx := fd))
   \<and> (\<forall>idx fd r r' e. rf_update rf idx [fd] r = (r', Inl e) \<longrightarrow> view r' = view r)"

lemma ring_register_ok: "\<lbrakk>ring_files_ok rf view; rf_register rf fds r = (r', Inr u); i < length fds\<rbrakk> \<Longrightarrow> view r' i = fds ! i"
  by (simp add: ring_files_ok_def)

lemma ring_update_ok: "\<lbrakk>ring_files_ok rf view; rf_update rf idx [fd] r = (r', Inr u)\<rbrakk> \<Longrightarrow> view r' = (view r)(unat idx := fd)"
  by (simp add: ring_files_ok_def)

lemma ring_update_err: "\<lbrakk>ring_files_ok rf view; rf_update rf idx [fd] r = (r', Inl e)\<rbrakk> \<Longrightarrow> view r' = view r"
  unfolding ring_files_ok_def by blast

subsection \<open>The invariant of the table\<close>

fun entry_raw :: "registered_file_entry option \<Rightarrow> i32" where
  "entry_raw None = - 1"
| "entry_raw (Some e) = entry_fd e"

definition entry_meta :: "registered_file_entry \<Rightarrow> i32 \<times> raw_handle_kind" where
  "entry_meta e = (entry_fd e, entry_kind e)"

definition file_inv :: "('r \<Rightarrow> nat \<Rightarrow> i32) \<Rightarrow> 'r file_table \<Rightarrow> bool" where
  "file_inv view ft \<longleftrightarrow>
     (ft_initialized ft \<longleftrightarrow> ft_slots ft \<noteq> [])
   \<and> (\<forall>i<length (ft_slots ft). view (ft_ring ft) i = entry_raw (fs_entry (ft_slots ft ! i)))
   \<and> (\<forall>i<length (ft_slots ft). fs_generation (ft_slots ft ! i) \<noteq> 0)
   \<and> distinct (ft_free ft)
   \<and> unat ` set (ft_free ft) = {i. i < length (ft_slots ft) \<and> fs_entry (ft_slots ft ! i) = None}"

text \<open>What a descriptor stands for, and the descriptors of past generations.\<close>

definition fd_look :: "'r file_table \<Rightarrow> io_fd \<rightharpoonup> i32 \<times> raw_handle_kind" where
  "fd_look ft h =
     (let i = unat (fd_fixed_index h)
      in if i < length (ft_slots ft) \<and> fs_generation (ft_slots ft ! i) = fd_generation h
         then map_option entry_meta (fs_entry (ft_slots ft ! i)) else None)"

definition fd_past :: "'r file_table \<Rightarrow> io_fd set" where
  "fd_past ft = {h. unat (fd_fixed_index h) < length (ft_slots ft)
                    \<and> fd_generation h < fs_generation (ft_slots ft ! unat (fd_fixed_index h))}"

definition fd_aged :: "'r file_table \<Rightarrow> nat \<Rightarrow> bool" where
  "fd_aged ft n \<longleftrightarrow> (\<forall>s\<in>set (ft_slots ft). unat (fs_generation s) \<le> n + 1)"

lemma resolve_look:
  "resolve_registered_fixed_fd (ft_slots ft) h k =
     (case fd_look ft h of
        Some (fd, kd) \<Rightarrow> if k = None \<or> k = Some kd then Inr (fd_fixed_index h) else Inl (plain_report UeResolveFd)
      | None \<Rightarrow> Inl (plain_report UeResolveFd))"
  by (auto simp: resolve_registered_fixed_fd_def fd_look_def Let_def entry_meta_def split: option.splits)

lemma past_not_looked: "h \<in> fd_past ft \<Longrightarrow> fd_look ft h = None"
  by (auto simp: fd_past_def fd_look_def Let_def)

lemma file_inv_new: "file_inv view (file_table_new r)"
  by (simp add: file_inv_def file_table_new_def)

lemma fresh_free_list:
  "distinct (rev (map word_of_nat [0..<unat (w :: u32)]) :: u32 list)"
  "unat ` set (rev (map word_of_nat [0..<unat w]) :: u32 list) = {..<unat w}"
proof -
  have w: "unat w < 2 ^ LENGTH(32)" by (rule unsigned_less)
  have u: "unat (word_of_nat i :: u32) = i" if "i < unat w" for i
    using that w by (simp add: unat_of_nat_mod)
  show "distinct (rev (map word_of_nat [0..<unat w]) :: u32 list)"
    by (auto simp: distinct_map inj_on_def) (metis u)
  show "unat ` set (rev (map word_of_nat [0..<unat w]) :: u32 list) = {..<unat w}"
    using u by (auto simp: image_image)
qed

lemma ensure_initialized_ok:
  assumes "ring_files_ok rf view" "file_inv view ft" "cap < 2 ^ 32" "ensure_file_table_initialized rf cap ft = (ft', res)"
  shows "(\<exists>e. res = Inl e \<and> \<not> ft_initialized ft \<and> (\<exists>r. ft' = ft\<lparr>ft_ring := r\<rparr>)) \<or> res = Inr ()" "file_inv view ft'"
    "fd_look ft' = fd_look ft" "fd_past ft \<subseteq> fd_past ft'" "fd_aged ft n \<Longrightarrow> fd_aged ft' n" "ft_closed ft' = ft_closed ft"
    "res = Inr () \<Longrightarrow> ft_initialized ft'"
proof -
  let ?c = "max cap MIN_FILE_TABLE_CAPACITY" and ?s = "\<lparr>fs_entry = None, fs_generation = INITIAL_FILE_GENERATION\<rparr>"
  have c: "unat (word_of_nat ?c :: u32) = ?c" "0 < ?c"
    using assms(3) by (simp_all add: unat_of_nat_mod MIN_FILE_TABLE_CAPACITY_def)
  have "(res = Inr () \<and> ft' = ft \<and> ft_initialized ft) \<or> (\<not> ft_initialized ft \<and> (\<exists>e r. res = Inl e \<and> ft' = ft\<lparr>ft_ring := r\<rparr>))
     \<or> (\<not> ft_initialized ft \<and> res = Inr () \<and> (\<exists>r. (\<forall>i<?c. view r i = - 1) \<and> ft' = ft\<lparr>ft_ring := r, ft_slots := replicate ?c ?s,
          ft_free := rev (map word_of_nat [0..<unat (word_of_nat ?c :: u32)]), ft_initialized := True\<rparr>))"
    using assms(4) ring_register_ok [OF assms(1), of "replicate ?c (- 1)" "ft_ring ft"]
    by (auto simp: ensure_file_table_initialized_def Let_def split: if_splits prod.splits sum.splits)
  then consider (same) "res = Inr ()" "ft' = ft" "ft_initialized ft" | (err) e r where "\<not> ft_initialized ft" "res = Inl e" "ft' = ft\<lparr>ft_ring := r\<rparr>"
    | (init) r where "\<not> ft_initialized ft" "res = Inr ()" "\<forall>i<?c. view r i = - 1" "ft' = ft\<lparr>ft_ring := r, ft_slots := replicate ?c ?s,
          ft_free := rev (map word_of_nat [0..<unat (word_of_nat ?c :: u32)]), ft_initialized := True\<rparr>"
    by blast
  note cs = this
  have e: "ft_slots ft = []" if "\<not> ft_initialized ft" using assms(2) that by (simp add: file_inv_def)
  show "(\<exists>e. res = Inl e \<and> \<not> ft_initialized ft \<and> (\<exists>r. ft' = ft\<lparr>ft_ring := r\<rparr>)) \<or> res = Inr ()" by (cases rule: cs) auto
  show "file_inv view ft'"
  proof (cases rule: cs)
    case init
    then show ?thesis using fresh_free_list [of "word_of_nat ?c"] c by (auto simp: file_inv_def INITIAL_FILE_GENERATION_def)
  qed (use assms(2) e in \<open>simp_all add: file_inv_def\<close>)
  show "fd_look ft' = fd_look ft" by (cases rule: cs) (auto simp: fd_look_def e fun_eq_iff Let_def)
  show "fd_past ft \<subseteq> fd_past ft'" by (cases rule: cs) (auto simp: fd_past_def e)
  show "fd_aged ft n \<Longrightarrow> fd_aged ft' n" by (cases rule: cs) (auto simp: fd_aged_def e INITIAL_FILE_GENERATION_def)
  show "ft_closed ft' = ft_closed ft" by (cases rule: cs) auto
  show "res = Inr () \<Longrightarrow> ft_initialized ft'" by (cases rule: cs) auto
qed
subsection \<open>Writing one slot\<close>

text \<open>Every operation on a slot writes its entry and generation and the kernel's entry.\<close>

definition slot_put :: "u32 \<Rightarrow> registered_file_entry option \<Rightarrow> u64 \<Rightarrow> 'r \<Rightarrow> u32 list \<Rightarrow> i32 list \<Rightarrow> 'r file_table \<Rightarrow> 'r file_table" where
  "slot_put idx e g r free closed ft =
     ft\<lparr>ft_ring := r, ft_free := free, ft_slots := (ft_slots ft)[unat idx := \<lparr>fs_entry = e, fs_generation = g\<rparr>], ft_closed := closed\<rparr>"

lemma slot_put_sel [simp]:
  "ft_ring (slot_put idx e g r free closed ft) = r" "ft_free (slot_put idx e g r free closed ft) = free"
  "ft_slots (slot_put idx e g r free closed ft) = (ft_slots ft)[unat idx := \<lparr>fs_entry = e, fs_generation = g\<rparr>]"
  "ft_closed (slot_put idx e g r free closed ft) = closed" "ft_initialized (slot_put idx e g r free closed ft) = ft_initialized ft"
  by (simp_all add: slot_put_def)

lemma slot_put_keeps_closed:
  "slot_put idx e g r free (ft_closed ft @ []) ft =
     ft\<lparr>ft_ring := r, ft_free := free, ft_slots := (ft_slots ft)[unat idx := \<lparr>fs_entry = e, fs_generation = g\<rparr>]\<rparr>"
  by (simp add: slot_put_def)

lemma slot_put_inv:
  assumes "file_inv view ft" "view r = (view (ft_ring ft))(unat idx := entry_raw e)" "g \<noteq> 0" "unat idx < length (ft_slots ft)" "distinct free"
    "unat ` set free = (if e = None then insert (unat idx) (unat ` set (ft_free ft)) else unat ` set (ft_free ft) - {unat idx})"
  shows "file_inv view (slot_put idx e g r free closed ft)"
proof -
  let ?ft = "slot_put idx e g r free closed ft"
  have len: "length (ft_slots ?ft) = length (ft_slots ft)" by simp
  have at: "ft_slots ?ft ! i = (if i = unat idx then \<lparr>fs_entry = e, fs_generation = g\<rparr> else ft_slots ft ! i)" for i
    using assms(4) by (simp add: nth_list_update)
  have set: "{i. i < length (ft_slots ft) \<and> fs_entry (ft_slots ?ft ! i) = None} =
      (let old = {i. i < length (ft_slots ft) \<and> fs_entry (ft_slots ft ! i) = None} in if e = None then insert (unat idx) old else old - {unat idx})"
    unfolding at Let_def using assms(4) by auto
  show ?thesis unfolding file_inv_def len set
    using assms by (simp add: file_inv_def nth_list_update Let_def)
qed

lemma slot_put_look:
  assumes "unat idx < length (ft_slots ft)"
  shows "fd_look (slot_put idx e g r free closed ft) h =
    (if fd_fixed_index h = idx then if fd_generation h = g then map_option entry_meta e else None else fd_look ft h)"
proof (cases "fd_fixed_index h = idx")
  case True
  then show ?thesis using assms by (simp add: fd_look_def Let_def)
next
  case False
  then have "unat (fd_fixed_index h) \<noteq> unat idx" by (simp add: word_unat_eq_iff)
  then show ?thesis using False by (simp add: fd_look_def Let_def)
qed

lemma look_other_generation:
  assumes "fs_generation (ft_slots ft ! unat (fd_fixed_index h)) = fd_generation h" "fd_fixed_index k = fd_fixed_index h" "k \<noteq> h"
  shows "fd_look ft k = None"
proof -
  have "fd_generation k \<noteq> fd_generation h" using assms(2,3) by (auto intro: io_fd.equality)
  then show ?thesis using assms(1,2) by (simp add: fd_look_def Let_def)
qed

lemma slot_put_past:
  assumes "fs_generation (ft_slots ft ! unat idx) \<le> g" "unat idx < length (ft_slots ft)"
  shows "fd_past ft \<subseteq> fd_past (slot_put idx e g r free closed ft)"
  using assms by (auto simp: fd_past_def nth_list_update)

lemma slot_put_aged:
  assumes "fd_aged ft n" "unat g \<le> m + 1" "n \<le> m"
  shows "fd_aged (slot_put idx e g r free closed ft) m"
  using assms set_update_subset_insert [of "ft_slots ft" "unat idx" "\<lparr>fs_entry = e, fs_generation = g\<rparr>"] by (fastforce simp: fd_aged_def)

text \<open>A failed update changes nothing but the state of the ring.\<close>

lemma ring_put_same:
  assumes "view r = view (ft_ring ft)"
  shows "file_inv view (ft\<lparr>ft_ring := r\<rparr>) = file_inv view ft" "fd_look (ft\<lparr>ft_ring := r\<rparr>) = fd_look ft"
    "fd_past (ft\<lparr>ft_ring := r\<rparr>) = fd_past ft" "fd_aged (ft\<lparr>ft_ring := r\<rparr>) n = fd_aged ft n"
  using assms by (simp_all add: file_inv_def fd_look_def fd_past_def fd_aged_def fun_eq_iff Let_def)

text \<open>Below the wrap-around a generation only grows.\<close>

lemma advance_generation:
  assumes "unat g \<le> n + 1" "n + 2 < 2 ^ 64"
  shows "unat (advance_file_generation g) = unat g + 1" "g < advance_file_generation g" "advance_file_generation g \<noteq> 0"
proof -
  have u: "unat (g + 1) = unat g + 1" using assms by (simp add: unat_add_mod)
  then have "g + 1 \<noteq> 0" by (metis add_is_0 unat_0 zero_neq_one)
  then show "unat (advance_file_generation g) = unat g + 1" "advance_file_generation g \<noteq> 0"
    using u by (simp_all add: advance_file_generation_def)
  then show "g < advance_file_generation g" by (simp add: word_less_nat_alt)
qed

subsection \<open>Closing\<close>

text \<open>The three outcomes of closing a slot: there was nothing to close, the kernel refused, or the
  slot is empty and free; \<open>adv\<close> says whether its generation advanced and \<open>cl\<close> what was closed.\<close>

definition closing :: "('r \<Rightarrow> nat \<Rightarrow> i32) \<Rightarrow> u32 \<Rightarrow> bool \<Rightarrow> 'r file_table \<Rightarrow> 'r file_table \<Rightarrow> (uring_report + unit) \<Rightarrow> bool" where
  "closing view idx adv ft ft' res \<longleftrightarrow>
     (\<exists>e r. res = Inl e \<and> ft' = ft\<lparr>ft_ring := r\<rparr> \<and> view r = view (ft_ring ft))
   \<or> (\<exists>entry r cl. res = Inr () \<and> unat idx < length (ft_slots ft) \<and> fs_entry (ft_slots ft ! unat idx) = Some entry
        \<and> view r = (view (ft_ring ft))(unat idx := - 1)
        \<and> ft' = slot_put idx None (if adv then advance_file_generation (fs_generation (ft_slots ft ! unat idx))
                                    else fs_generation (ft_slots ft ! unat idx)) r (ft_free ft @ [idx]) (ft_closed ft @ cl) ft)"

lemma closing_errI:
  assumes "ring_files_ok rf view" "rf_update rf idx [- 1] (ft_ring ft) = (r, Inl e)"
  shows "closing view idx adv ft (ft\<lparr>ft_ring := r\<rparr>) (Inl x)"
  unfolding closing_def using ring_update_err [OF assms] by (intro disjI1 exI [of _ x] exI [of _ r]) simp

lemma closing_okI:
  assumes "ring_files_ok rf view" "rf_update rf idx [- 1] (ft_ring ft) = (r, Inr u)" "unat idx < length (ft_slots ft)"
    "fs_entry (ft_slots ft ! unat idx) = Some entry"
  shows "closing view idx adv ft (slot_put idx None (if adv then advance_file_generation (fs_generation (ft_slots ft ! unat idx))
         else fs_generation (ft_slots ft ! unat idx)) r (ft_free ft @ [idx]) (ft_closed ft @ cl) ft) (Inr ())"
  unfolding closing_def using ring_update_ok [OF assms(1,2)] assms(3,4)
  by (intro disjI2 exI [of _ entry] exI [of _ r] exI [of _ cl]) simp

lemma unregister_slot_closing:
  assumes "ring_files_ok rf view" "unregister_file_slot rf idx adv ft = (ft', res)"
  shows "(ft' = ft \<and> res = Inr () \<and> (length (ft_slots ft) \<le> unat idx \<or> fs_entry (ft_slots ft ! unat idx) = None)) \<or> closing view idx adv ft ft' res"
proof (cases "unat idx < length (ft_slots ft)")
  case True
  then show ?thesis
  proof (cases "fs_entry (ft_slots ft ! unat idx)")
    case None
    then show ?thesis using assms(2) True by (simp add: unregister_file_slot_def Let_def)
  next
    case (Some entry)
    obtain r x where u: "rf_update rf idx [- 1] (ft_ring ft) = (r, x)" by fastforce
    show ?thesis
    proof (cases x)
      case (Inl e)
      then show ?thesis using assms(2) True Some u closing_errI [OF assms(1) u [unfolded Inl]]
        by (auto simp: unregister_file_slot_def Let_def)
    next
      case (Inr y)
      then have "ft' = slot_put idx None (if adv then advance_file_generation (fs_generation (ft_slots ft ! unat idx))
                                    else fs_generation (ft_slots ft ! unat idx)) r (ft_free ft @ [idx]) (ft_closed ft @ entry_drop entry) ft" "res = Inr ()"
        using assms(2) True Some u by (simp_all add: unregister_file_slot_def Let_def slot_put_def)
      then show ?thesis using closing_okI [OF assms(1) u [unfolded Inr] True Some] by simp
    qed
  qed
qed (use assms(2) in \<open>simp add: unregister_file_slot_def\<close>)

lemma unregister_closing:
  assumes "ring_files_ok rf view" "unregister_fixed_fd rf h ft = (ft', res)" "file_inv view ft"
  shows "(ft' = ft \<and> res = Inr () \<and> fd_look ft h = None)
    \<or> closing view (fd_fixed_index h) True ft ft' res \<and> fs_generation (ft_slots ft ! unat (fd_fixed_index h)) = fd_generation h"
  using assms(2,3) unregister_slot_closing [OF assms(1), of "fd_fixed_index h" True ft ft' res]
  by (auto simp: unregister_fixed_fd_def Let_def fd_look_def file_inv_def split: if_splits)

lemma close_owned_closing:
  assumes "ring_files_ok rf view" "unregister_close_owned_fd rf h ft = (ft', res)" "file_inv view ft"
  shows "(ft' = ft \<and> res = Inr () \<and> fd_look ft h = None)
    \<or> closing view (fd_fixed_index h) True ft ft' res \<and> fs_generation (ft_slots ft ! unat (fd_fixed_index h)) = fd_generation h"
proof -
  let ?i = "unat (fd_fixed_index h)" and ?none = "ft' = ft \<and> res = Inr ()"
  let ?g = "fs_generation (ft_slots ft ! ?i)" and ?upd = "rf_update rf (fd_fixed_index h) [- 1] (ft_ring ft)"
  have "(?none \<and> \<not> ft_initialized ft) \<or> (?none \<and> length (ft_slots ft) \<le> ?i) \<or> (?none \<and> ?g \<noteq> fd_generation h)
      \<or> (?none \<and> fs_entry (ft_slots ft ! ?i) = None)
      \<or> (?g = fd_generation h \<and> (\<exists>e r. ?upd = (r, Inl e) \<and> ft' = ft\<lparr>ft_ring := r\<rparr> \<and> res = Inl (io_report UeRegistration e)))
      \<or> (?g = fd_generation h \<and> (\<exists>entry r. ?i < length (ft_slots ft) \<and> fs_entry (ft_slots ft ! ?i) = Some entry \<and> ?upd = (r, Inr ()) \<and> res = Inr ()
           \<and> ft' = slot_put (fd_fixed_index h) None (advance_file_generation ?g) r (ft_free ft @ [fd_fixed_index h]) (ft_closed ft @ []) ft))"
    using assms(2) unfolding slot_put_keeps_closed
    by (auto simp: unregister_close_owned_fd_def Let_def split: if_splits option.splits prod.splits sum.splits)
  moreover have "closing view (fd_fixed_index h) True ft ft' res" if "?upd = (r, Inl e)" "ft' = ft\<lparr>ft_ring := r\<rparr>" "res = Inl (io_report UeRegistration e)" for e r
    using that closing_errI [OF assms(1)] by blast
  moreover have "closing view (fd_fixed_index h) True ft ft' res"
    if "?i < length (ft_slots ft)" "fs_entry (ft_slots ft ! ?i) = Some entry" "?upd = (r, Inr ())" "res = Inr ()"
      "ft' = slot_put (fd_fixed_index h) None (advance_file_generation ?g) r (ft_free ft @ [fd_fixed_index h]) (ft_closed ft @ []) ft" for entry r
    using closing_okI [OF assms(1) that(3,1,2), of True "[]"] that(4,5) by simp
  ultimately have "(?none \<and> \<not> ft_initialized ft) \<or> (?none \<and> length (ft_slots ft) \<le> ?i) \<or> (?none \<and> ?g \<noteq> fd_generation h)
      \<or> (?none \<and> fs_entry (ft_slots ft ! ?i) = None) \<or> closing view (fd_fixed_index h) True ft ft' res \<and> ?g = fd_generation h" by blast
  then show ?thesis using assms(3) by (auto simp: fd_look_def Let_def file_inv_def)
qed

lemma closing_err:
  assumes "closing view idx adv ft ft' (Inl e)" "file_inv view ft"
  shows "file_inv view ft'" "fd_look ft' = fd_look ft" "fd_past ft' = fd_past ft" "fd_aged ft' n = fd_aged ft n"
proof -
  obtain r where r: "view r = view (ft_ring ft)" "ft' = ft\<lparr>ft_ring := r\<rparr>" using assms(1) unfolding closing_def by auto
  show "file_inv view ft'" "fd_look ft' = fd_look ft" "fd_past ft' = fd_past ft" "fd_aged ft' n = fd_aged ft n"
    using ring_put_same [OF r(1)] assms(2) unfolding r(2) by simp_all
qed

lemma closing_inv:
  assumes "closing view idx adv ft ft' (Inr u)" "file_inv view ft" "fd_aged ft n" "adv \<longrightarrow> n + 2 < 2 ^ 64"
  shows "file_inv view ft'" "fd_past ft \<subseteq> fd_past ft'" "fd_aged ft' (if adv then Suc n else n)"
proof -
  let ?s = "ft_slots ft ! unat idx"
  let ?g = "if adv then advance_file_generation (fs_generation ?s) else fs_generation ?s"
  obtain entry r cl where c: "unat idx < length (ft_slots ft)" "fs_entry ?s = Some entry" "view r = (view (ft_ring ft))(unat idx := - 1)"
    "ft' = slot_put idx None ?g r (ft_free ft @ [idx]) (ft_closed ft @ cl) ft"
    using assms(1) unfolding closing_def by auto
  have a: "unat (fs_generation ?s) \<le> n + 1" using assms(3) c(1) by (simp add: fd_aged_def)
  have g: "?g \<noteq> 0" "fs_generation ?s \<le> ?g" "unat ?g \<le> (if adv then Suc n else n) + 1"
    using a advance_generation [OF a] assms(2,4) c(1) by (auto simp: file_inv_def)
  have f: "idx \<notin> set (ft_free ft)"
  proof
    assume "idx \<in> set (ft_free ft)"
    then have "unat idx \<in> unat ` set (ft_free ft)" by simp
    then show False using assms(2) c(2) by (simp add: file_inv_def)
  qed
  show "file_inv view ft'" unfolding c(4)
    by (rule slot_put_inv [OF assms(2)]) (use c g f assms(2) in \<open>auto simp: file_inv_def\<close>)
  show "fd_past ft \<subseteq> fd_past ft'" unfolding c(4) by (rule slot_put_past [OF g(2) c(1)])
  show "fd_aged ft' (if adv then Suc n else n)" unfolding c(4) by (rule slot_put_aged [OF assms(3) g(3)]) simp
qed

lemma closing_look:
  assumes "closing view (fd_fixed_index h) True ft ft' (Inr u)" "file_inv view ft" "fd_aged ft n" "n + 2 < 2 ^ 64"
    "fs_generation (ft_slots ft ! unat (fd_fixed_index h)) = fd_generation h"
  shows "fd_look ft' = (fd_look ft)(h := None)" "h \<in> fd_past ft'"
proof -
  let ?i = "unat (fd_fixed_index h)"
  obtain entry r cl where c: "?i < length (ft_slots ft)" "ft' = slot_put (fd_fixed_index h) None (advance_file_generation (fd_generation h)) r
      (ft_free ft @ [fd_fixed_index h]) (ft_closed ft @ cl) ft"
    using assms(1,5) unfolding closing_def by auto
  have "unat (fd_generation h) \<le> n + 1" using assms(3) c(1) nth_mem by (fastforce simp: fd_aged_def assms(5) [symmetric])
  then have g: "fd_generation h < advance_file_generation (fd_generation h)" using advance_generation(2) assms(4) by blast
  have "fd_look ft' k = ((fd_look ft)(h := None)) k" for k
    using look_other_generation [OF assms(5), of k] unfolding c(2) slot_put_look [OF c(1)] by simp
  then show "fd_look ft' = (fd_look ft)(h := None)" by blast
  show "h \<in> fd_past ft'" using c(1) g by (simp add: c(2) fd_past_def)
qed
subsection \<open>Registering\<close>

text \<open>Registration and rollback leave the generations alone.\<close>

definition same_gens :: "'r file_table \<Rightarrow> 'r file_table \<Rightarrow> bool" where
  "same_gens ft ft' \<longleftrightarrow> map fs_generation (ft_slots ft') = map fs_generation (ft_slots ft)"

lemma same_gens_refl [simp]: "same_gens ft ft"
  by (simp add: same_gens_def)

lemma same_gens_trans: "\<lbrakk>same_gens a b; same_gens b c\<rbrakk> \<Longrightarrow> same_gens a c"
  by (simp add: same_gens_def)

lemma same_gens_length: "same_gens ft ft' \<Longrightarrow> length (ft_slots ft') = length (ft_slots ft)"
  unfolding same_gens_def by (metis length_map)

lemma same_gens_nth:
  assumes "same_gens ft ft'" "i < length (ft_slots ft)"
  shows "fs_generation (ft_slots ft' ! i) = fs_generation (ft_slots ft ! i)"
  using assms same_gens_length [OF assms(1)] unfolding same_gens_def by (metis nth_map)

lemma same_gens_past:
  assumes "same_gens ft ft'"
  shows "fd_past ft' = fd_past ft"
  using same_gens_length [OF assms] same_gens_nth [OF assms] by (auto simp: fd_past_def)

lemma same_gens_aged:
  assumes "same_gens ft ft'"
  shows "fd_aged ft' n = fd_aged ft n"
proof -
  have "fd_aged x n \<longleftrightarrow> (\<forall>g\<in>set (map fs_generation (ft_slots x)). unat g \<le> n + 1)" for x :: "'a file_table" by (simp add: fd_aged_def)
  then show ?thesis using assms unfolding same_gens_def by metis
qed

lemma slot_put_same_gens: "same_gens ft (slot_put idx e (fs_generation (ft_slots ft ! unat idx)) r free closed ft)"
  by (simp add: same_gens_def map_update) (metis list_update_id map_update)

lemma ring_put_same_gens [simp]: "same_gens ft (ft\<lparr>ft_ring := r\<rparr>)"
  by (simp add: same_gens_def)

lemma unregister_slot_rollback:
  assumes "ring_files_ok rf view" "file_inv view ft" "unregister_file_slot rf idx False ft = (ft', res)"
  shows "file_inv view ft'" "same_gens ft ft'" "i \<noteq> unat idx \<Longrightarrow> ft_slots ft' ! i = ft_slots ft ! i"
proof -
  let ?n = "\<Sum>s\<leftarrow>ft_slots ft. unat (fs_generation s)"
  have aged: "fd_aged ft ?n" using member_le_sum_list [of _ "map (unat \<circ> fs_generation) (ft_slots ft)"] by (fastforce simp: fd_aged_def comp_def)
  consider "ft' = ft" | e where "closing view idx False ft ft' (Inl e)" | "closing view idx False ft ft' (Inr ())"
    using unregister_slot_closing [OF assms(1,3)] by (cases res) auto
  note cs = this
  show "file_inv view ft'"
  proof (cases rule: cs)
    case (2 e)
    then show ?thesis using closing_err(1) [OF _ assms(2)] by blast
  next
    case 3
    then show ?thesis using closing_inv(1) [OF _ assms(2) aged] by blast
  qed (use assms(2) in simp)
  show "same_gens ft ft'" by (cases rule: cs) (auto simp: closing_def slot_put_same_gens)
  show "i \<noteq> unat idx \<Longrightarrow> ft_slots ft' ! i = ft_slots ft ! i" by (cases rule: cs) (auto simp: closing_def)
qed

lemma rollback_loop_ok:
  "\<lbrakk>ring_files_ok rf view; file_inv view ft; rollback_loop rf L fe ft = (ft', fe')\<rbrakk>
   \<Longrightarrow> file_inv view ft' \<and> same_gens ft ft' \<and> (\<forall>i. i \<notin> unat ` set L \<longrightarrow> ft_slots ft' ! i = ft_slots ft ! i)"
proof (induction L arbitrary: fe ft)
  case Nil
  then show ?case by simp
next
  case (Cons idx L)
  obtain ft1 res where 1: "unregister_file_slot rf idx False ft = (ft1, res)" by fastforce
  obtain fe1 where 2: "rollback_loop rf L fe1 ft1 = (ft', fe')" using Cons.prems(3) 1 by (cases res) auto
  note u = unregister_slot_rollback [OF Cons.prems(1,2) 1]
  show ?case using Cons.IH [OF Cons.prems(1) u(1) 2] u(2,3) by (auto intro: same_gens_trans)
qed

lemma rollback_ok:
  assumes "ring_files_ok rf view" "file_inv view ft" "rollback_file_slots rf regs ft = (ft', res)"
  shows "file_inv view ft'" "same_gens ft ft'" "i \<notin> unat ` set regs \<Longrightarrow> ft_slots ft' ! i = ft_slots ft ! i"
proof -
  obtain fe where "rollback_loop rf (rev regs) None ft = (ft', fe)"
    using assms(3) by (auto simp: rollback_file_slots_def split: prod.splits option.splits)
  from rollback_loop_ok [OF assms(1,2) this]
  show "file_inv view ft'" "same_gens ft ft'" "i \<notin> unat ` set regs \<Longrightarrow> ft_slots ft' ! i = ft_slots ft ! i" by auto
qed

lemma drop_files_sel [simp]:
  "ft_slots (drop_files fs ft) = ft_slots ft" "ft_free (drop_files fs ft) = ft_free ft" "ft_ring (drop_files fs ft) = ft_ring ft"
  "ft_initialized (drop_files fs ft) = ft_initialized ft" "file_inv view (drop_files fs ft) = file_inv view ft"
  "fd_look (drop_files fs ft) = fd_look ft" "fd_past (drop_files fs ft) = fd_past ft" "fd_aged (drop_files fs ft) n = fd_aged ft n"
  "same_gens x (drop_files fs ft) = same_gens x ft"
  by (simp_all add: drop_files_def file_inv_def fd_look_def fd_past_def fd_aged_def same_gens_def fun_eq_iff Let_def)

text \<open>One registration: the slot popped from the free list takes the entry.\<close>

definition taken :: "u32 \<Rightarrow> registered_file_entry \<Rightarrow> 'r \<Rightarrow> 'r file_table \<Rightarrow> 'r file_table" where
  "taken idx entry r ft = slot_put idx (Some entry) (fs_generation (ft_slots ft ! unat idx)) r (butlast (ft_free ft)) (ft_closed ft) ft"

lemma free_last:
  assumes "file_inv view ft" "ft_free ft \<noteq> []"
  shows "unat (last (ft_free ft)) < length (ft_slots ft)" "fs_entry (ft_slots ft ! unat (last (ft_free ft))) = None"
    "set (ft_free ft) = insert (last (ft_free ft)) (set (butlast (ft_free ft)))" "last (ft_free ft) \<notin> set (butlast (ft_free ft))"
proof -
  have "unat (last (ft_free ft)) \<in> unat ` set (ft_free ft)" using assms(2) by simp
  then show "unat (last (ft_free ft)) < length (ft_slots ft)" "fs_entry (ft_slots ft ! unat (last (ft_free ft))) = None"
    using assms(1) by (simp_all add: file_inv_def)
  have s: "ft_free ft = butlast (ft_free ft) @ [last (ft_free ft)]" using assms(2) by simp
  show "set (ft_free ft) = insert (last (ft_free ft)) (set (butlast (ft_free ft)))" by (subst s) simp
  have "distinct (butlast (ft_free ft) @ [last (ft_free ft)])" using assms(1) s by (simp add: file_inv_def)
  then show "last (ft_free ft) \<notin> set (butlast (ft_free ft))" by simp
qed

lemma taken_ok:
  assumes "file_inv view ft" "ft_free ft \<noteq> []" "view r = (view (ft_ring ft))(unat (last (ft_free ft)) := entry_fd entry)"
  shows "file_inv view (taken (last (ft_free ft)) entry r ft)" "same_gens ft (taken (last (ft_free ft)) entry r ft)"
    "ft_free (taken (last (ft_free ft)) entry r ft) = butlast (ft_free ft)"
    "ft_initialized (taken (last (ft_free ft)) entry r ft) = ft_initialized ft"
proof -
  note f = free_last [OF assms(1,2)]
  have i: "unat (last (ft_free ft)) \<notin> unat ` set (butlast (ft_free ft))" using f(4) by (auto simp flip: word_unat_eq_iff)
  show "file_inv view (taken (last (ft_free ft)) entry r ft)" unfolding taken_def
  proof (rule slot_put_inv [OF assms(1)])
    show "unat ` set (butlast (ft_free ft)) = (if Some entry = None then insert (unat (last (ft_free ft))) (unat ` set (ft_free ft))
        else unat ` set (ft_free ft) - {unat (last (ft_free ft))})" unfolding f(3) using i by auto
  qed (use assms f(1) in \<open>simp_all add: file_inv_def distinct_butlast\<close>)
  show "same_gens ft (taken (last (ft_free ft)) entry r ft)" unfolding taken_def by (rule slot_put_same_gens)
qed (simp_all add: taken_def)

lemma taken_look:
  assumes "file_inv view ft" "ft_free ft \<noteq> []"
  defines "h0 \<equiv> fixed_with_generation (last (ft_free ft)) (fs_generation (ft_slots ft ! unat (last (ft_free ft))))"
  shows "fd_look ft h0 = None" "fd_look (taken (last (ft_free ft)) entry r ft) = (fd_look ft)(h0 \<mapsto> entry_meta entry)" "h0 \<notin> fd_past ft"
proof -
  note f = free_last [OF assms(1,2)]
  have h0: "fd_fixed_index h0 = last (ft_free ft)" "fd_generation h0 = fs_generation (ft_slots ft ! unat (last (ft_free ft)))"
    by (simp_all add: h0_def fixed_with_generation_def)
  show "fd_look ft h0 = None" "h0 \<notin> fd_past ft" using f(2) by (simp_all add: fd_look_def fd_past_def Let_def h0)
  have "fd_look (taken (last (ft_free ft)) entry r ft) k = ((fd_look ft)(h0 \<mapsto> entry_meta entry)) k" for k
    using look_other_generation [of ft h0 k] h0 unfolding taken_def slot_put_look [OF f(1)] by simp
  then show "fd_look (taken (last (ft_free ft)) entry r ft) = (fd_look ft)(h0 \<mapsto> entry_meta entry)" by blast
qed
definition file_meta :: "register_fd \<Rightarrow> i32 \<times> raw_handle_kind" where
  "file_meta f = entry_meta (entry_of f)"

text \<open>One round of the loop.\<close>

lemma slot_entry_update: "s\<lparr>fs_entry := e\<rparr> = \<lparr>fs_entry = e, fs_generation = fs_generation s\<rparr>"
  by (cases s) simp


lemma register_loop_round:
  assumes "file_inv view ft" "ft_free ft \<noteq> []"
  defines "idx \<equiv> last (ft_free ft)"
  shows "register_loop rf (fl # files) regs fds ft =
     (case rf_update rf idx [entry_fd (entry_of fl)] (ft_ring ft) of
        (r, Inl e) \<Rightarrow> (case rollback_file_slots rf regs (ft\<lparr>ft_ring := r\<rparr>) of
            (ft2, Inl x) \<Rightarrow> Some (drop_files (fl # files) ft2, Inl x)
          | (ft2, Inr _) \<Rightarrow> Some (drop_files (fl # files) ft2, Inl (io_report UeRegistration e)))
      | (r, Inr _) \<Rightarrow> register_loop rf files (regs @ [idx]) (fds @ [fixed_with_generation idx (fs_generation (ft_slots ft ! unat idx))])
           (taken idx (entry_of fl) r ft))"
proof -
  have b: "ft\<lparr>ft_ring := r, ft_free := butlast (ft_free ft) @ [last (ft_free ft)]\<rparr> = ft\<lparr>ft_ring := r\<rparr>" for r
    using assms(2) by simp
  have t: "ft\<lparr>ft_free := butlast (ft_free ft), ft_ring := r, ft_slots := (ft_slots ft)[unat idx := (ft_slots ft ! unat idx)\<lparr>fs_entry := Some e\<rparr>]\<rparr>
      = taken idx e r ft" for r e
    by (cases ft) (simp add: taken_def slot_put_def idx_def slot_entry_update)
  show ?thesis using assms(2) free_last(1) [OF assms(1,2)] b t
    by (simp add: Let_def idx_def split: prod.splits sum.splits)
qed

lemma register_loop_ok:
  "\<lbrakk>ring_files_ok rf view; file_inv view ft; length files \<le> length (ft_free ft)\<rbrakk> \<Longrightarrow>
    \<exists>ft' res. register_loop rf files regs fds ft = Some (ft', res) \<and> file_inv view ft' \<and> same_gens ft ft'
      \<and> (case res of
           Inl e \<Rightarrow> \<forall>i. i \<notin> unat ` set regs \<union> unat ` set (ft_free ft) \<longrightarrow> ft_slots ft' ! i = ft_slots ft ! i
         | Inr hs \<Rightarrow> \<exists>new. hs = fds @ new \<and> length new = length files \<and> distinct new \<and> (\<forall>h\<in>set new. fd_look ft h = None \<and> h \<notin> fd_past ft)
                      \<and> fd_look ft' = fd_look ft ++ map_of (zip new (map file_meta files)))"
proof (induction files arbitrary: regs fds ft)
  case Nil
  then show ?case by simp
next
  case (Cons fl files)
  let ?idx = "last (ft_free ft)" and ?e = "entry_of fl"
  let ?h = "fixed_with_generation ?idx (fs_generation (ft_slots ft ! unat ?idx))"
  have ne: "ft_free ft \<noteq> []" using Cons.prems(3) by auto
  note rl = register_loop_round [OF Cons.prems(2) ne, where rf = rf and fl = fl and files = files and regs = regs and fds = fds]
  note f = free_last [OF Cons.prems(2) ne]
  obtain r x where u: "rf_update rf ?idx [entry_fd ?e] (ft_ring ft) = (r, x)" by fastforce
  show ?case
  proof (cases x)
    case (Inl e)
    then have v: "view r = view (ft_ring ft)" using u ring_update_err [OF Cons.prems(1)] by blast
    obtain ft2 y where rb: "rollback_file_slots rf regs (ft\<lparr>ft_ring := r\<rparr>) = (ft2, y)" by fastforce
    have i: "file_inv view (ft\<lparr>ft_ring := r\<rparr>)" using ring_put_same(1) [of view r ft, OF v] Cons.prems(2) by simp
    note ok = rollback_ok [OF Cons.prems(1) i rb]
    have g: "same_gens ft ft2" using ok(2) by (simp add: same_gens_def)
    show ?thesis unfolding rl u Inl using ok g rb by (cases y) simp_all
  next
    case (Inr y)
    let ?t = "taken ?idx ?e r ft"
    have v: "view r = (view (ft_ring ft))(unat ?idx := entry_fd ?e)" using u Inr ring_update_ok [OF Cons.prems(1)] by blast
    note t = taken_ok [OF Cons.prems(2) ne v] and l2 = taken_look(2) [OF Cons.prems(2) ne, where entry = ?e and r = r] and l1 = taken_look(1,3) [OF Cons.prems(2) ne]
    have "length files \<le> length (ft_free ?t)" using Cons.prems(3) by (simp add: t(3))
    from Cons.IH [OF Cons.prems(1) t(1) this, of "regs @ [?idx]" "fds @ [?h]"]
    obtain ft' res where ih: "register_loop rf files (regs @ [?idx]) (fds @ [?h]) ?t = Some (ft', res)" "file_inv view ft'" "same_gens ?t ft'"
      "case res of
           Inl e \<Rightarrow> \<forall>i. i \<notin> unat ` set (regs @ [?idx]) \<union> unat ` set (ft_free ?t) \<longrightarrow> ft_slots ft' ! i = ft_slots ?t ! i
         | Inr hs \<Rightarrow> \<exists>new. hs = (fds @ [?h]) @ new \<and> length new = length files \<and> distinct new \<and> (\<forall>h\<in>set new. fd_look ?t h = None \<and> h \<notin> fd_past ?t)
                      \<and> fd_look ft' = fd_look ?t ++ map_of (zip new (map file_meta files))" by blast
    have g: "same_gens ft ft'" using t(2) ih(3) by (rule same_gens_trans)
    have run: "register_loop rf (fl # files) regs fds ft = Some (ft', res)" using ih(1) unfolding rl u Inr by simp
    show ?thesis
    proof (cases res)
      case (Inl e)
      have "ft_slots ft' ! i = ft_slots ft ! i" if "i \<notin> unat ` set regs \<union> unat ` set (ft_free ft)" for i
      proof -
        have n: "i \<noteq> unat ?idx" "i \<notin> unat ` set (butlast (ft_free ft))" using that f(3) by auto
        then have "ft_slots ft' ! i = ft_slots ?t ! i" using ih(4) Inl that t(3) by auto
        then show ?thesis using n(1) by (simp add: taken_def)
      qed
      then show ?thesis using run ih(2) g Inl by simp
    next
      case (Inr hs)
      then obtain new where n: "hs = fds @ ?h # new" "length new = length files" "distinct new" "\<forall>h\<in>set new. fd_look ?t h = None \<and> h \<notin> fd_past ?t"
        "fd_look ft' = fd_look ?t ++ map_of (zip new (map file_meta files))" using ih(4) by auto
      have new: "fd_look ?t h = None" "h \<notin> fd_past ft" if "h \<in> set new" for h
        using n(4) that unfolding same_gens_past [OF t(2)] by blast+
      have fresh: "?h \<notin> set new"
      proof
        assume "?h \<in> set new"
        from new(1) [OF this] show False unfolding l2 by simp
      qed
      have old: "fd_look ft h = None" if "h \<in> set new" for h
        using new(1) [OF that] fresh that unfolding l2 by (simp split: if_splits)
      have "?h \<notin> dom (map_of (zip new (map file_meta files)))" using fresh n(2) by simp
      then have "fd_look ft' = fd_look ft ++ map_of (zip (?h # new) (map file_meta (fl # files)))"
        unfolding n(5) l2 by (simp add: map_add_upd_left file_meta_def)
      then show ?thesis using run ih(2) g Inr n(1-3) fresh new(2) old l1 by (auto intro!: exI [of _ "?h # new"])
    qed
  qed
qed
lemma register_files_ok:
  assumes "ring_files_ok rf view" "file_inv view ft" "cap < 2 ^ 32" "fd_aged ft n"
  obtains ft' res where "register_files_internal rf cap files ft = Some (ft', res)" "file_inv view ft'" "fd_aged ft' n" "fd_past ft \<subseteq> fd_past ft'"
    "fd_look ft \<subseteq>\<^sub>m fd_look ft'"
    "\<And>hs. res = Inr hs \<Longrightarrow> length hs = length files \<and> distinct hs \<and> (\<forall>h\<in>set hs. fd_look ft h = None \<and> h \<notin> fd_past ft)
       \<and> fd_look ft' = fd_look ft ++ map_of (zip hs (map file_meta files))"
proof -
  obtain ft1 x where e: "ensure_file_table_initialized rf cap ft = (ft1, x)" by fastforce
  note i = ensure_initialized_ok [OF assms(1-3) e]
  show thesis
  proof (cases "\<exists>u. x = Inr u \<and> length files \<le> length (ft_free ft1)")
    case False
    then obtain y where "register_files_internal rf cap files ft = Some (drop_files files ft1, Inl y)"
      by (cases x) (auto simp: register_files_internal_def e)
    then show thesis by (rule that) (use i assms(4) in simp_all)
  next
    case True
    then have l: "register_files_internal rf cap files ft = register_loop rf files [] [] ft1" "length files \<le> length (ft_free ft1)"
      by (auto simp: register_files_internal_def e)
    obtain ft' res where r: "register_loop rf files [] [] ft1 = Some (ft', res)" "file_inv view ft'" "same_gens ft1 ft'"
      "case res of
           Inl e \<Rightarrow> \<forall>i. i \<notin> unat ` set ([] :: u32 list) \<union> unat ` set (ft_free ft1) \<longrightarrow> ft_slots ft' ! i = ft_slots ft1 ! i
         | Inr hs \<Rightarrow> \<exists>new. hs = [] @ new \<and> length new = length files \<and> distinct new \<and> (\<forall>h\<in>set new. fd_look ft1 h = None \<and> h \<notin> fd_past ft1)
                      \<and> fd_look ft' = fd_look ft1 ++ map_of (zip new (map file_meta files))"
      using register_loop_ok [OF assms(1) i(2) l(2), where regs = "[]" and fds = "[]"] by blast
    have look: "fd_look ft1 \<subseteq>\<^sub>m fd_look ft'"
    proof (cases res)
      case (Inl e)
      have "fd_look ft' h = fd_look ft1 h" if "fd_look ft1 h \<noteq> None" for h
      proof -
        let ?i = "unat (fd_fixed_index h)"
        have "?i \<notin> unat ` set (ft_free ft1)" "?i < length (ft_slots ft1)"
          using that i(2) by (auto simp: fd_look_def Let_def file_inv_def split: if_splits)
        then have "ft_slots ft' ! ?i = ft_slots ft1 ! ?i" using r(4) Inl by simp
        then show ?thesis using same_gens_length [OF r(3)] by (simp add: fd_look_def Let_def)
      qed
      then show ?thesis by (auto simp: map_le_def)
    next
      case (Inr hs)
      then have "dom (fd_look ft1) \<inter> dom (map_of (zip hs (map file_meta files))) = {}" using r(4) by (auto simp: dom_def dest!: in_set_zipE map_of_SomeD)
      then have "fd_look ft1 ++ map_of (zip hs (map file_meta files)) = map_of (zip hs (map file_meta files)) ++ fd_look ft1" by (rule map_add_comm)
      then show ?thesis using r(4) Inr by (simp add: map_le_map_add)
    qed
    show thesis
      by (rule that [OF l(1) [unfolded r(1)] r(2)])
        (use i r(4) look assms(4) same_gens_past [OF r(3)] same_gens_aged [OF r(3)] in \<open>auto\<close>)
  qed
qed

lemma aged_exists: "fd_aged ft (2 ^ 64)"
  by (auto simp: fd_aged_def intro: order.strict_implies_order [OF unsigned_less [THEN less_trans]])

lemma register_files_inv:
  assumes "ring_files_ok rf view" "file_inv view ft" "cap < 2 ^ 32"
  shows "file_inv view (fst (the (register_files_internal rf cap files ft)))"
  by (rule register_files_ok [OF assms aged_exists, of files]) simp

lemma replace_ok:
  assumes "ring_files_ok rf view" "file_inv view ft" "fd_aged ft n" "replace_registered_fixed_fd rf h raw ft = (ft', res)"
  shows "file_inv view ft'" "fd_aged ft' n" "fd_past ft' = fd_past ft"
    "res = Inl e \<Longrightarrow> fd_look ft' = fd_look ft" "res = Inr u \<Longrightarrow> fd_look ft h \<noteq> None \<and> fd_look ft' = (fd_look ft)(h \<mapsto> (as_fd raw, raw_kind raw))"
proof -
  let ?idx = "fd_fixed_index h" let ?s = "ft_slots ft ! unat ?idx" and ?b = "BorrowedFd (as_fd raw) (raw_kind raw)"
  consider (same) e where "ft' = ft" "res = Inl e" | (err) r e where "view r = view (ft_ring ft)" "ft' = ft\<lparr>ft_ring := r\<rparr>" "res = Inl e"
    | (ok) r old where "unat ?idx < length (ft_slots ft)" "fs_generation ?s = fd_generation h" "fs_entry ?s = Some old"
        "view r = (view (ft_ring ft))(unat ?idx := as_fd raw)" "res = Inr ()"
        "ft' = slot_put ?idx (Some ?b) (fs_generation ?s) r (ft_free ft) (ft_closed ft @ entry_drop old) ft"
  proof -
    obtain r x where u: "rf_update rf ?idx [as_fd raw] (ft_ring ft) = (r, x)" by fastforce
    let ?ok = "\<lambda>old. x = Inr () \<and> unat ?idx < length (ft_slots ft) \<and> fs_generation ?s = fd_generation h \<and> fs_entry ?s = Some old \<and> res = Inr ()
        \<and> ft' = slot_put ?idx (Some ?b) (fs_generation ?s) r (ft_free ft) (ft_closed ft @ entry_drop old) ft"
    have put: "slot_put ?idx (Some ?b) (fs_generation ?s) r (ft_free ft) cl ft =
        ft\<lparr>ft_ring := r, ft_slots := (ft_slots ft)[unat ?idx := ?s\<lparr>fs_entry := Some ?b\<rparr>], ft_closed := cl\<rparr>" for cl
      by (simp add: slot_put_def slot_entry_update)
    have "(ft' = ft \<and> (\<exists>e. res = Inl e)) \<or> (\<exists>e. x = Inl e \<and> ft' = ft\<lparr>ft_ring := r\<rparr> \<and> (\<exists>e. res = Inl e)) \<or> (\<exists>old. ?ok old)"
      using assms(4) u unfolding put replace_registered_fixed_fd_def Let_def
      by (cases x) (auto split: if_splits option.splits)
    then consider e where "ft' = ft" "res = Inl e" | e e' where "x = Inl e" "ft' = ft\<lparr>ft_ring := r\<rparr>" "res = Inl e'" | old where "?ok old" by blast
    then show thesis
    proof cases
      case 1
      then show thesis by (rule same)
    next
      case (2 e e')
      then show thesis using err ring_update_err [OF assms(1)] u by blast
    next
      case (3 old)
      then show thesis using ok ring_update_ok [OF assms(1)] u by blast
    qed
  qed
  note cs = this
  have f: "unat ?idx \<notin> unat ` set (ft_free ft)" if "fs_entry ?s = Some old" for old using assms(2) that by (simp add: file_inv_def)
  show "file_inv view ft'"
  proof (cases rule: cs)
    case ok
    show ?thesis unfolding ok(6) by (rule slot_put_inv [OF assms(2)]) (use ok f [OF ok(3)] assms(2) in \<open>auto simp: file_inv_def\<close>)
  next
    case err
    then show ?thesis using ring_put_same(1) [OF err(1)] assms(2) by simp
  qed (use assms(2) in simp)
  have g: "same_gens ft ft'"
  proof (cases rule: cs)
    case ok
    show ?thesis unfolding ok(6) by (rule slot_put_same_gens)
  qed simp_all
  show "fd_aged ft' n" "fd_past ft' = fd_past ft" using same_gens_aged [OF g] same_gens_past [OF g] assms(3) by simp_all
  show "fd_look ft' = fd_look ft" if "res = Inl e"
  proof (cases rule: cs)
    case err
    then show ?thesis using ring_put_same(2) [OF err(1)] by simp
  qed (use that in simp_all)
  show "fd_look ft h \<noteq> None \<and> fd_look ft' = (fd_look ft)(h \<mapsto> (as_fd raw, raw_kind raw))" if "res = Inr u"
  proof (cases rule: cs)
    case ok
    have "fd_look ft' k = ((fd_look ft)(h \<mapsto> (as_fd raw, raw_kind raw))) k" for k
      using look_other_generation [OF ok(2), of k] ok(2) unfolding ok(6) slot_put_look [OF ok(1)] by (simp add: entry_meta_def)
    then have "fd_look ft' = (fd_look ft)(h \<mapsto> (as_fd raw, raw_kind raw))" by blast
    then show ?thesis using ok(1-3) by (simp add: fd_look_def Let_def)
  qed (use that in simp_all)
qed

subsection \<open>The table meets the contract of descriptors\<close>

text \<open>The state of the interpretation carries the parameters: the ring, the kernel's table, the
  capacity of the operation registry.\<close>

type_synonym 'r files_state = "'r ring_files \<times> ('r \<Rightarrow> nat \<Rightarrow> i32) \<times> nat \<times> 'r file_table"

definition fls_inv :: "'r files_state \<Rightarrow> bool" where
  "fls_inv = (\<lambda>(rf, view, cap, ft). ring_files_ok rf view \<and> cap < 2 ^ 32 \<and> file_inv view ft)"

definition fls_register :: "register_fd list \<Rightarrow> 'r files_state \<Rightarrow> ('r files_state \<times> (uring_report + io_fd list)) option" where
  "fls_register fs = (\<lambda>(rf, view, cap, ft). map_option (\<lambda>(ft', res). ((rf, view, cap, ft'), res)) (register_files_internal rf cap fs ft))"

definition fls_unregister :: "io_fd \<Rightarrow> 'r files_state \<Rightarrow> 'r files_state \<times> (uring_report + unit)" where
  "fls_unregister h = (\<lambda>(rf, view, cap, ft). case unregister_fixed_fd rf h ft of (ft', res) \<Rightarrow> ((rf, view, cap, ft'), res))"

definition fls_close :: "io_fd \<Rightarrow> 'r files_state \<Rightarrow> 'r files_state \<times> (uring_report + unit)" where
  "fls_close h = (\<lambda>(rf, view, cap, ft). case unregister_close_owned_fd rf h ft of (ft', res) \<Rightarrow> ((rf, view, cap, ft'), res))"

definition fls_replace :: "io_fd \<Rightarrow> uring_raw_handle \<Rightarrow> 'r files_state \<Rightarrow> 'r files_state \<times> (uring_report + unit)" where
  "fls_replace h raw = (\<lambda>(rf, view, cap, ft). case replace_registered_fixed_fd rf h raw ft of (ft', res) \<Rightarrow> ((rf, view, cap, ft'), res))"

definition handle_meta :: "uring_raw_handle \<Rightarrow> i32 \<times> raw_handle_kind" where
  "handle_meta raw = (as_fd raw, raw_kind raw)"

lemmas fls_defs = fls_inv_def fls_register_def fls_unregister_def fls_close_def fls_replace_def handle_meta_def

text \<open>Both closing operations, on the state of the interpretation.\<close>

lemma fls_closing:
  assumes "fls_inv (rf, view, cap, ft)" "c \<in> set [fls_unregister, fls_close]" "c h (rf, view, cap, ft) = (s', res)"
  obtains ft' where "s' = (rf, view, cap, ft')" "ring_files_ok rf view" "file_inv view ft"
    "(ft' = ft \<and> res = Inr () \<and> fd_look ft h = None)
      \<or> closing view (fd_fixed_index h) True ft ft' res \<and> fs_generation (ft_slots ft ! unat (fd_fixed_index h)) = fd_generation h"
proof -
  have i: "ring_files_ok rf view" "file_inv view ft" using assms(1) by (simp_all add: fls_inv_def)
  have "c = fls_unregister \<or> c = fls_close" using assms(2) by simp
  then show thesis
    using assms(3) that [OF _ i] unregister_closing [OF i(1) _ i(2), of h] close_owned_closing [OF i(1) _ i(2), of h]
    by (auto simp: fls_defs split: prod.splits)
qed

interpretation fixed: handle_table fls_inv "\<lambda>(rf, view, cap, ft). fd_look ft" "\<lambda>(rf, view, cap, ft). fd_past ft"
  "\<lambda>(rf, view, cap, ft). fd_aged ft" "2 ^ 64 - 2" fls_register "[fls_unregister, fls_close]" fls_replace file_meta handle_meta
proof (unfold_locales, goal_cases)
  case (1 s h)
  then show ?case by (auto simp: past_not_looked split: prod.splits)
next
  case (2 s fs)
  obtain rf view cap ft where s: "s = (rf, view, cap, ft)" by (rule prod_cases4)
  show ?case using 2 register_files_ok [OF _ _ _ aged_exists, of rf view ft cap fs] by (auto simp: s fls_defs) metis
next
  case (3 s n fs s' r)
  obtain rf view cap ft where s: "s = (rf, view, cap, ft)" by (rule prod_cases4)
  from 3(1,2) have i: "ring_files_ok rf view" "file_inv view ft" "cap < 2 ^ 32" "fd_aged ft n" by (simp_all add: s fls_defs)
  obtain ft' res where r: "register_files_internal rf cap fs ft = Some (ft', res)" "file_inv view ft'" "fd_aged ft' n" "fd_past ft \<subseteq> fd_past ft'"
    "fd_look ft \<subseteq>\<^sub>m fd_look ft'"
    "\<And>hs. res = Inr hs \<Longrightarrow> length hs = length fs \<and> distinct hs \<and> (\<forall>h\<in>set hs. fd_look ft h = None \<and> h \<notin> fd_past ft)
       \<and> fd_look ft' = fd_look ft ++ map_of (zip hs (map file_meta fs))"
    using register_files_ok [OF i, of fs] by blast
  have "s' = (rf, view, cap, ft')" "r = res" using 3(3) r(1) by (simp_all add: s fls_defs)
  then show ?case using i r by (simp add: s fls_inv_def)
next
  case (4 s n c h s' u)
  obtain rf view cap ft where s: "s = (rf, view, cap, ft)" by (rule prod_cases4)
  from 4(2) have a: "fd_aged ft n" by (simp add: s)
  obtain ft' where f: "s' = (rf, view, cap, ft')" "ring_files_ok rf view" "file_inv view ft"
    "(ft' = ft \<and> Inr u = Inr () \<and> fd_look ft h = None)
      \<or> closing view (fd_fixed_index h) True ft ft' (Inr u) \<and> fs_generation (ft_slots ft ! unat (fd_fixed_index h)) = fd_generation h"
    using fls_closing [OF 4(1) [unfolded s] 4(4) 4(5) [unfolded s]] by blast
  have n: "n + 2 < 2 ^ 64" using 4(3) by simp
  have c: "cap < 2 ^ 32" using 4(1) by (simp add: s fls_inv_def)
  from f(4) show ?case
  proof
    assume "ft' = ft \<and> Inr u = Inr () \<and> fd_look ft h = None"
    then show ?thesis using f a c by (auto simp: s fls_inv_def fd_aged_def fun_upd_idem)
  next
    assume "closing view (fd_fixed_index h) True ft ft' (Inr u) \<and> fs_generation (ft_slots ft ! unat (fd_fixed_index h)) = fd_generation h"
    then have *: "closing view (fd_fixed_index h) True ft ft' (Inr u)" "fs_generation (ft_slots ft ! unat (fd_fixed_index h)) = fd_generation h"
      by simp_all
    show ?thesis using closing_inv [OF *(1) f(3) a] closing_look [OF *(1) f(3) a n *(2)] f c n by (simp add: s fls_inv_def)
  qed
next
  case (5 s n c h s' e)
  obtain rf view cap ft where s: "s = (rf, view, cap, ft)" by (rule prod_cases4)
  obtain ft' where f: "s' = (rf, view, cap, ft')" "ring_files_ok rf view" "file_inv view ft" "closing view (fd_fixed_index h) True ft ft' (Inl e)"
    using fls_closing [OF 5(1) [unfolded s] 5(3) 5(4) [unfolded s]] by blast
  then show ?case using closing_err [OF f(4,3)] 5(1,2) by (simp add: s fls_inv_def)
next
  case (6 s n h w s' u)
  obtain rf view cap ft where s: "s = (rf, view, cap, ft)" by (rule prod_cases4)
  obtain ft' res where f: "replace_registered_fixed_fd rf h w ft = (ft', res)" by fastforce
  from 6 have i: "ring_files_ok rf view" "file_inv view ft" "cap < 2 ^ 32" "fd_aged ft n" by (simp_all add: s fls_defs)
  show ?case using replace_ok [OF i(1,2,4) f] 6(3) i by (auto simp: s fls_defs f)
next
  case (7 s n h w s' e)
  obtain rf view cap ft where s: "s = (rf, view, cap, ft)" by (rule prod_cases4)
  obtain ft' res where f: "replace_registered_fixed_fd rf h w ft = (ft', res)" by fastforce
  from 7 have i: "ring_files_ok rf view" "file_inv view ft" "cap < 2 ^ 32" "fd_aged ft n" by (simp_all add: s fls_defs)
  show ?case using replace_ok [OF i(1,2,4) f] 7(3) i by (auto simp: s fls_defs f)
qed
subsection \<open>Histories of the table\<close>

abbreviation files_run ::
  "'r ring_files \<Rightarrow> nat \<Rightarrow> 'r file_table \<Rightarrow> 'r file_table \<Rightarrow> io_fd set \<Rightarrow> (io_fd \<rightharpoonup> i32 \<times> raw_handle_kind) \<Rightarrow> nat \<Rightarrow> bool" where
  "files_run rf cap \<equiv> handle_run (register_files_internal rf cap) [unregister_fixed_fd rf, unregister_close_owned_fd rf]
     (replace_registered_fixed_fd rf) file_meta handle_meta"

lemma files_run_fls:
  "files_run rf cap ft0 ft I A n \<Longrightarrow>
   handle_run fls_register [fls_unregister, fls_close] fls_replace file_meta handle_meta (rf, view, cap, ft0) (rf, view, cap, ft) I A n"
proof (induction rule: handle_run.induct)
  case run_start
  show ?case by (rule handle_run.run_start)
next
  case (run_register s I A n fs s' hs)
  show ?case by (rule handle_run.run_register [OF run_register.IH]) (simp add: fls_defs run_register.hyps(2))
next
  case (run_register_error s I A n fs s' e)
  show ?case by (rule handle_run.run_register_error [OF run_register_error.IH, of fs _ e]) (simp add: fls_defs run_register_error.hyps(2))
next
  case (run_close s I A n c h s' u)
  then have "fls_unregister h (rf, view, cap, s) = ((rf, view, cap, s'), Inr u) \<or> fls_close h (rf, view, cap, s) = ((rf, view, cap, s'), Inr u)"
    by (auto simp: fls_defs)
  then have "\<exists>d. d \<in> set [fls_unregister, fls_close] \<and> d h (rf, view, cap, s) = ((rf, view, cap, s'), Inr u)" by auto
  then obtain d where "d \<in> set [fls_unregister, fls_close]" "d h (rf, view, cap, s) = ((rf, view, cap, s'), Inr u)" by blast
  then show ?case by (rule handle_run.run_close [OF run_close.IH])
next
  case (run_close_error s I A n c h s' e)
  then have "fls_unregister h (rf, view, cap, s) = ((rf, view, cap, s'), Inl e) \<or> fls_close h (rf, view, cap, s) = ((rf, view, cap, s'), Inl e)"
    by (auto simp: fls_defs)
  then have "\<exists>d. d \<in> set [fls_unregister, fls_close] \<and> d h (rf, view, cap, s) = ((rf, view, cap, s'), Inl e)" by auto
  then obtain d where "d \<in> set [fls_unregister, fls_close]" "d h (rf, view, cap, s) = ((rf, view, cap, s'), Inl e)" by blast
  then show ?case by (rule handle_run.run_close_error [OF run_close_error.IH])
next
  case (run_replace s I A n h w s' u)
  show ?case by (rule handle_run.run_replace [OF run_replace.IH, of h w _ u]) (simp add: fls_defs run_replace.hyps(2))
next
  case (run_replace_error s I A n h w s' e)
  show ?case by (rule handle_run.run_replace_error [OF run_replace_error.IH, of h w _ e]) (simp add: fls_defs run_replace_error.hyps(2))
qed

lemma kernel_holds:
  assumes "file_inv view ft" "fd_look ft h = Some (fd, kd)"
  shows "view (ft_ring ft) (unat (fd_fixed_index h)) = fd"
  using assms by (auto simp: file_inv_def fd_look_def Let_def entry_meta_def split: if_splits option.splits)

text \<open>A table in memory, as an instance of the kernel's promises; it refuses an index past its end.\<close>

definition vec_ring :: "i32 list ring_files" where
  "vec_ring = \<lparr>rf_register = (\<lambda>fds _. (fds, Inr ())),
     rf_update = (\<lambda>idx fds r. if unat idx < length r then (r[unat idx := hd fds], Inr ()) else (r, Inl (Some 22)))\<rparr>"

definition vec_view :: "i32 list \<Rightarrow> nat \<Rightarrow> i32" where
  "vec_view r i = (if i < length r then r ! i else - 1)"

lemma vec_ring_ok: "ring_files_ok vec_ring vec_view"
  by (auto simp: ring_files_ok_def vec_ring_def vec_view_def fun_eq_iff nth_list_update split: if_splits)

text \<open>C28. Registered descriptors are never confused: whatever registrations, closings (explicit or
  by a completed close operation) and replacements a table has gone through, successful or refused
  by the kernel, a descriptor that was once handed out resolves exactly when it has not been closed
  since, to its own slot and only for the kind it stands for, and then the kernel's table holds in
  that slot the file the descriptor was registered or last replaced with. The generations may not
  have wrapped around: fewer than \<open>2 ^ 64 - 2\<close> closings.\<close>

theorem fixed_fd_resolution:
  assumes "ring_files_ok rf view" "cap < 2 ^ 32" "files_run rf cap (file_table_new r0) ft I A n" "n < 2 ^ 64 - 2" "h \<in> I"
  shows "resolve_registered_fixed_fd (ft_slots ft) h k =
      (case A h of
         Some (fd, kd) \<Rightarrow> if k = None \<or> k = Some kd then Inr (fd_fixed_index h) else Inl (plain_report UeResolveFd)
       | None \<Rightarrow> Inl (plain_report UeResolveFd))
    \<and> (\<forall>fd kd. A h = Some (fd, kd) \<longrightarrow> view (ft_ring ft) (unat (fd_fixed_index h)) = fd)"
proof -
  have i0: "fls_inv (rf, view, cap, file_table_new r0)" using assms(1,2) by (simp add: fls_inv_def file_inv_new)
  have a0: "fd_aged (file_table_new r0) 0" by (simp add: fd_aged_def file_table_new_def)
  have "fls_inv (rf, view, cap, ft)" "fd_look ft h = A h"
    using fixed.run_look [OF files_run_fls [OF assms(3)] i0 _ assms(4,5)] a0 by simp_all
  then show ?thesis using kernel_holds [of view ft h] by (simp add: resolve_look fls_inv_def split: option.split)
qed

definition demo_files :: "i32 list file_table" where
  "demo_files = file_table_new []"

theorem fixed_fd_resolution_witness:
  "\<exists>ft I A. files_run vec_ring 2 demo_files ft I A 1 \<and> fixed_with_generation 0 1 \<in> I \<and> fixed_with_generation 1 1 \<in> I
     \<and> resolve_registered_fixed_fd (ft_slots ft) (fixed_with_generation 0 1) None = Inl (plain_report UeResolveFd)
     \<and> resolve_registered_fixed_fd (ft_slots ft) (fixed_with_generation 1 1) (Some KindSocket) = Inr 1 \<and> vec_view (ft_ring ft) 1 = 6"
proof -
  let ?h0 = "fixed_with_generation 0 1" and ?h1 = "fixed_with_generation 1 1"
  let ?fs = "[RegisterBorrowed (RawFile 5), RegisterOwned (RawSocket 6)]"
  obtain ft1 where 1: "register_files_internal vec_ring 2 ?fs demo_files = Some (ft1, Inr [?h0, ?h1])" "unregister_fixed_fd vec_ring ?h0 ft1 = (fst (unregister_fixed_fd vec_ring ?h0 ft1), Inr ())"
    by (rule that [of "fst (the (register_files_internal vec_ring 2 ?fs demo_files))"]) code_simp+
  let ?ft = "fst (unregister_fixed_fd vec_ring ?h0 ft1)" and ?A = "Map.empty ++ map_of (zip [?h0, ?h1] (map file_meta ?fs))"
  have run0: "files_run vec_ring 2 demo_files demo_files {} Map.empty 0" by (rule handle_run.run_start)
  have run1: "files_run vec_ring 2 demo_files ft1 ({} \<union> set [?h0, ?h1]) ?A 0"
    by (rule handle_run.run_register [where reg = "register_files_internal vec_ring 2" and fs = ?fs, OF run0 1(1)])
  have run: "files_run vec_ring 2 demo_files ?ft ({} \<union> set [?h0, ?h1]) (?A(?h0 := None)) (Suc 0)"
    by (rule handle_run.run_close [where c = "unregister_fixed_fd vec_ring" and h = ?h0, OF run1 _ 1(2)]) simp
  have A: "(?A(?h0 := None)) ?h0 = None" "(?A(?h0 := None)) ?h1 = Some (6, KindSocket)"
    by (simp_all add: fixed_with_generation_def file_meta_def entry_meta_def)
  note r = fixed_fd_resolution [OF vec_ring_ok _ run [unfolded demo_files_def]]
  have "resolve_registered_fixed_fd (ft_slots ?ft) ?h0 None = Inl (plain_report UeResolveFd)" using r [of ?h0 None] unfolding A by simp
  moreover have "resolve_registered_fixed_fd (ft_slots ?ft) ?h1 (Some KindSocket) = Inr 1 \<and> vec_view (ft_ring ?ft) 1 = 6"
    using r [of ?h1 "Some KindSocket"] unfolding A by (simp add: fixed_with_generation_def)
  ultimately show ?thesis using run unfolding One_nat_def [symmetric] by (intro exI conjI) (assumption | simp)+
qed

end
