(* ===== verification/Bit_Set.thy ===== *)
theory Bit_Set
  imports Veloq_Prelude
begin

text \<open>
  The byte-packed bit set (\<^verbatim>\<open>veloq-std/src/collections/bitset.rs\<close>) that the buddy allocator and
  the chunk registration use. An access past the declared size is an error value; an access past
  the byte array would panic (\<open>None\<close>) and the lemmas show that it cannot happen.
\<close>

datatype bit_set_error = OutOfBounds nat nat

record bit_set =
  bs_bits :: "u8 list"
  bs_size :: nat

definition bit_set_new :: "nat \<Rightarrow> bit_set" where
  "bit_set_new capacity = \<lparr>bs_bits = replicate ((capacity + 7) div 8) 0, bs_size = capacity\<rparr>"

definition bit_set_set :: "nat \<Rightarrow> bit_set \<Rightarrow> (bit_set \<times> (bit_set_error + unit)) option" where
  "bit_set_set index b =
     (if bs_size b \<le> index then Some (b, Inl (OutOfBounds index (bs_size b)))
      else let byte_idx = index div 8; bit_idx = index mod 8
           in if byte_idx < length (bs_bits b)
              then Some (b\<lparr>bs_bits := (bs_bits b)[byte_idx := (bs_bits b ! byte_idx) OR push_bit bit_idx 1]\<rparr>, Inr ())
              else None)"

definition bit_set_clear :: "nat \<Rightarrow> bit_set \<Rightarrow> (bit_set \<times> (bit_set_error + unit)) option" where
  "bit_set_clear index b =
     (if bs_size b \<le> index then Some (b, Inl (OutOfBounds index (bs_size b)))
      else let byte_idx = index div 8; bit_idx = index mod 8
           in if byte_idx < length (bs_bits b)
              then Some (b\<lparr>bs_bits := (bs_bits b)[byte_idx := (bs_bits b ! byte_idx) AND NOT (push_bit bit_idx 1)]\<rparr>, Inr ())
              else None)"

definition bit_set_get :: "nat \<Rightarrow> bit_set \<Rightarrow> (bit_set_error + bool) option" where
  "bit_set_get index b =
     (if bs_size b \<le> index then Some (Inl (OutOfBounds index (bs_size b)))
      else let byte_idx = index div 8; bit_idx = index mod 8
           in if byte_idx < length (bs_bits b)
              then Some (Inr ((bs_bits b ! byte_idx) AND push_bit bit_idx 1 \<noteq> 0))
              else None)"

subsection \<open>A set of indices\<close>

definition bit_set_inv :: "bit_set \<Rightarrow> bool" where
  "bit_set_inv b \<longleftrightarrow> bs_size b \<le> 8 * length (bs_bits b)"

definition bit_set_abs :: "bit_set \<Rightarrow> nat set" where
  "bit_set_abs b = {i. i < bs_size b \<and> bit (bs_bits b ! (i div 8)) (i mod 8)}"

lemma byte_in_range: "\<lbrakk>bit_set_inv b; i < bs_size b\<rbrakk> \<Longrightarrow> i div 8 < length (bs_bits b)"
  by (auto simp: bit_set_inv_def)

lemma bit_set_new_abs: "bit_set_inv (bit_set_new n)" "bit_set_abs (bit_set_new n) = {}" "bs_size (bit_set_new n) = n"
proof -
  show "bit_set_inv (bit_set_new n)" by (auto simp: bit_set_inv_def bit_set_new_def)
  have "\<not> bit (replicate ((n + 7) div 8) (0 :: u8) ! (i div 8)) (i mod 8)" if "i < n" for i
  proof -
    have "i div 8 < (n + 7) div 8" using that by simp
    then show ?thesis by simp
  qed
  then show "bit_set_abs (bit_set_new n) = {}" by (auto simp: bit_set_abs_def bit_set_new_def)
  show "bs_size (bit_set_new n) = n" by (simp add: bit_set_new_def)
qed

lemma same_bit: "(i :: nat) div 8 = j div 8 \<Longrightarrow> i mod 8 = j mod 8 \<Longrightarrow> i = j"
  by (metis div_mult_mod_eq)

lemma bit_set_get_abs:
  assumes "bit_set_inv b"
  shows "bit_set_get i b = Some (if i < bs_size b then Inr (i \<in> bit_set_abs b) else Inl (OutOfBounds i (bs_size b)))"
  using byte_in_range [OF assms] by (auto simp: bit_set_get_def Let_def bit_set_abs_def and_exp_eq_0_iff_not_bit)

lemma bit_set_set_abs:
  assumes "bit_set_inv b" "i < bs_size b"
  shows "\<exists>b'. bit_set_set i b = Some (b', Inr ()) \<and> bit_set_inv b' \<and> bs_size b' = bs_size b
           \<and> bit_set_abs b' = insert i (bit_set_abs b)"
proof -
  let ?b = "b\<lparr>bs_bits := (bs_bits b)[i div 8 := (bs_bits b ! (i div 8)) OR push_bit (i mod 8) 1]\<rparr>"
  have i: "i div 8 < length (bs_bits b)" by (rule byte_in_range [OF assms])
  have "bit (bs_bits ?b ! (j div 8)) (j mod 8) \<longleftrightarrow> j = i \<or> bit (bs_bits b ! (j div 8)) (j mod 8)" for j
    using i same_bit [of j i]
    by (cases "j div 8 = i div 8") (auto simp: bit_simps)
  then have "bit_set_abs ?b = insert i (bit_set_abs b)" using assms(2) by (auto simp: bit_set_abs_def)
  then show ?thesis using assms i by (simp add: bit_set_set_def Let_def bit_set_inv_def)
qed

lemma bit_set_clear_abs:
  assumes "bit_set_inv b" "i < bs_size b"
  shows "\<exists>b'. bit_set_clear i b = Some (b', Inr ()) \<and> bit_set_inv b' \<and> bs_size b' = bs_size b
           \<and> bit_set_abs b' = bit_set_abs b - {i}"
proof -
  let ?b = "b\<lparr>bs_bits := (bs_bits b)[i div 8 := (bs_bits b ! (i div 8)) AND NOT (push_bit (i mod 8) 1)]\<rparr>"
  have i: "i div 8 < length (bs_bits b)" by (rule byte_in_range [OF assms])
  have len: "j mod 8 < 8" for j :: nat by simp
  have "bit (bs_bits ?b ! (j div 8)) (j mod 8) \<longleftrightarrow> j \<noteq> i \<and> bit (bs_bits b ! (j div 8)) (j mod 8)" for j
    using i same_bit [of j i] len [of j]
    by (cases "j div 8 = i div 8") (auto simp: bit_simps)
  then have "bit_set_abs ?b = bit_set_abs b - {i}" by (auto simp: bit_set_abs_def)
  then show ?thesis using assms i by (simp add: bit_set_clear_def Let_def bit_set_inv_def)
qed

text \<open>The contract the buddy allocator relies on: an index set with checked access.\<close>

locale index_set =
  fixes inv :: "'s \<Rightarrow> bool" and elems :: "'s \<Rightarrow> nat set" and size_of :: "'s \<Rightarrow> nat"
    and get :: "nat \<Rightarrow> 's \<Rightarrow> (bit_set_error + bool) option"
    and set_at :: "nat \<Rightarrow> 's \<Rightarrow> ('s \<times> (bit_set_error + unit)) option"
    and clear_at :: "nat \<Rightarrow> 's \<Rightarrow> ('s \<times> (bit_set_error + unit)) option"
  assumes get_law: "inv s \<Longrightarrow> get i s = Some (if i < size_of s then Inr (i \<in> elems s) else Inl (OutOfBounds i (size_of s)))"
    and set_law: "\<lbrakk>inv s; i < size_of s\<rbrakk> \<Longrightarrow> \<exists>s'. set_at i s = Some (s', Inr ()) \<and> inv s' \<and> size_of s' = size_of s
           \<and> elems s' = insert i (elems s)"
    and clear_law: "\<lbrakk>inv s; i < size_of s\<rbrakk> \<Longrightarrow> \<exists>s'. clear_at i s = Some (s', Inr ()) \<and> inv s' \<and> size_of s' = size_of s
           \<and> elems s' = elems s - {i}"
begin

lemma set_then_clear:
  assumes "inv s" "i < size_of s" "i \<notin> elems s"
  shows "\<exists>s' s''. set_at i s = Some (s', Inr ()) \<and> get i s' = Some (Inr True)
           \<and> clear_at i s' = Some (s'', Inr ()) \<and> inv s'' \<and> elems s'' = elems s"
proof -
  obtain s' where s': "set_at i s = Some (s', Inr ())" "inv s'" "size_of s' = size_of s" "elems s' = insert i (elems s)"
    using set_law [OF assms(1,2)] by blast
  moreover obtain s'' where "clear_at i s' = Some (s'', Inr ())" "inv s''" "elems s'' = elems s' - {i}"
    using clear_law [OF s'(2), of i] s'(3) assms(2) by auto
  ultimately show ?thesis using get_law [OF s'(2), of i] assms by auto
qed

end

interpretation bits: index_set bit_set_inv bit_set_abs bs_size bit_set_get bit_set_set bit_set_clear
  by unfold_locales (simp_all add: bit_set_get_abs bit_set_set_abs bit_set_clear_abs)

text \<open>The packed bit set implements a set of indices: it starts empty, setting and clearing an
  index below its size change exactly that index, reading reports membership, and an index past the
  size is refused by all three without any change.\<close>

theorem bit_set_refines_set:
  assumes "bit_set_inv b"
  shows "bit_set_abs (bit_set_new n) = {}
     \<and> (i < bs_size b \<longrightarrow>
          (\<exists>b'. bit_set_set i b = Some (b', Inr ()) \<and> bit_set_inv b' \<and> bit_set_abs b' = insert i (bit_set_abs b))
        \<and> (\<exists>b'. bit_set_clear i b = Some (b', Inr ()) \<and> bit_set_inv b' \<and> bit_set_abs b' = bit_set_abs b - {i})
        \<and> bit_set_get i b = Some (Inr (i \<in> bit_set_abs b)))
     \<and> (bs_size b \<le> i \<longrightarrow>
          bit_set_set i b = Some (b, Inl (OutOfBounds i (bs_size b)))
        \<and> bit_set_clear i b = Some (b, Inl (OutOfBounds i (bs_size b)))
        \<and> bit_set_get i b = Some (Inl (OutOfBounds i (bs_size b))))"
proof (intro conjI impI)
  assume i: "i < bs_size b"
  show "\<exists>b'. bit_set_set i b = Some (b', Inr ()) \<and> bit_set_inv b' \<and> bit_set_abs b' = insert i (bit_set_abs b)"
    using bits.set_law [OF assms i] by blast
  show "\<exists>b'. bit_set_clear i b = Some (b', Inr ()) \<and> bit_set_inv b' \<and> bit_set_abs b' = bit_set_abs b - {i}"
    using bits.clear_law [OF assms i] by blast
  show "bit_set_get i b = Some (Inr (i \<in> bit_set_abs b))" using bits.get_law [OF assms] i by simp
qed (simp_all add: bit_set_new_abs bit_set_set_def bit_set_clear_def bit_set_get_def)

lemma bit_set_refines_set_witness:
  "\<exists>b'. bit_set_set 9 (bit_set_new 12) = Some (b', Inr ()) \<and> bit_set_abs b' = {9}"
  using bit_set_refines_set [OF bit_set_new_abs(1), of 0 9 12] by (auto simp: bit_set_new_abs)

end
