(* ===== verification/Chunk_Registration.thy ===== *)
theory Chunk_Registration
  imports Bit_Set Uring_Error
begin

text \<open>
  Lazy registration of buffer chunks with the kernel
  (\<^verbatim>\<open>backend/uring/src/driver/registration.rs\<close>, and the loop over the chunks of an operation that
  \<^verbatim>\<open>submission.rs\<close> runs before it pushes a submission entry). A chunk that is not marked in the
  driver's bit set is registered in the kernel's buffer table; a failed attempt is not repeated for
  250 milliseconds.

  Parameters: the state \<open>'r\<close> of the world outside the driver, the system call
  \<^verbatim>\<open>register_buffers_update\<close> on it, the clock, and the registrar that knows where a chunk lies; it
  reads its records, finds the chunk or not, or panics. \<open>None\<close> is a panic. The registrar of the
  runtime (\<^verbatim>\<open>veloq/src/runtime/context.rs\<close>) is modelled as it behaves when a submission calls it.
\<close>

type_synonym chunk_id = u16

text \<open>A chunk's address and length.\<close>

type_synonym region = "usize \<times> usize"

record chunk_info =
  ci_id :: chunk_id
  ci_region :: region

record 'r chunk_env =
  ce_update :: "u32 \<Rightarrow> region \<Rightarrow> 'r \<Rightarrow> 'r \<times> (i32 option + unit)"
  ce_now :: "'r \<Rightarrow> nat"
  ce_resolve :: "chunk_id \<Rightarrow> 'r \<Rightarrow> chunk_info option option"

record registration_stats =
  rs_chunk_register_attempts :: u64
  rs_chunk_register_success :: u64
  rs_chunk_register_failures :: u64
  rs_chunk_register_skipped_recent_failure :: u64
  rs_submission_missing_chunk_info :: u64

record 'r chunk_state =
  cs_world :: 'r
  cs_registered :: bit_set
  cs_failures_recent :: "chunk_id \<rightharpoonup> nat"
  cs_stats :: registration_stats

definition MAX_CHUNKS :: nat where
  "MAX_CHUNKS = 1024"

text \<open>In nanoseconds.\<close>

definition REGISTER_FAILURE_RETRY_COOLDOWN :: nat where
  "REGISTER_FAILURE_RETRY_COOLDOWN = 250 * 1000000"

definition register_chunk_internal ::
  "'r chunk_env \<Rightarrow> chunk_id \<Rightarrow> region \<Rightarrow> 'r chunk_state \<Rightarrow> ('r chunk_state \<times> (uring_report + unit)) option" where
  "register_chunk_internal env cid reg s =
     (let st = cs_stats s
      in if (case cs_failures_recent s cid of
               None \<Rightarrow> False
             | Some last_fail \<Rightarrow> ce_now env (cs_world s) - last_fail < REGISTER_FAILURE_RETRY_COOLDOWN)
         then Some (s\<lparr>cs_stats := st\<lparr>rs_chunk_register_skipped_recent_failure :=
                        saturating_inc (rs_chunk_register_skipped_recent_failure st)\<rparr>\<rparr>,
                    Inl (plain_report UeRegistration))
         else let index = unat cid
              in if MAX_CHUNKS \<le> index then Some (s, Inl (plain_report UeInvalidInput))
                 else let st1 = st\<lparr>rs_chunk_register_attempts := saturating_inc (rs_chunk_register_attempts st)\<rparr>
                      in case ce_update env (word_of_nat index) reg (cs_world s) of
                           (r, Inl e) \<Rightarrow>
                             Some (s\<lparr>cs_world := r,
                                     cs_stats := st1\<lparr>rs_chunk_register_failures := saturating_inc (rs_chunk_register_failures st1)\<rparr>,
                                     cs_failures_recent := (cs_failures_recent s)(cid \<mapsto> ce_now env r)\<rparr>,
                                   Inl (io_report UeRegistration e))
                         | (r, Inr _) \<Rightarrow>
                             (case bit_set_set index (cs_registered s) of
                                None \<Rightarrow> None
                              | Some (b, _) \<Rightarrow>
                                  Some (s\<lparr>cs_world := r, cs_registered := b,
                                          cs_failures_recent := (cs_failures_recent s)(cid := None),
                                          cs_stats := st1\<lparr>rs_chunk_register_success := saturating_inc (rs_chunk_register_success st1)\<rparr>\<rparr>,
                                        Inr ())))"

text \<open>The loop over the chunks an operation touches; \<open>strict\<close> is the registration mode.\<close>

fun register_chunks ::
  "'r chunk_env \<Rightarrow> bool \<Rightarrow> chunk_id list \<Rightarrow> 'r chunk_state \<Rightarrow> ('r chunk_state \<times> (uring_report + unit)) option" where
  "register_chunks env strict [] s = Some (s, Inr ())"
| "register_chunks env strict (chunk_id # rest) s =
     (case bit_set_get (unat chunk_id) (cs_registered s) of
        None \<Rightarrow> None
      | Some (Inl _) \<Rightarrow> Some (s, Inl (plain_report UeInvalidState))
      | Some (Inr is_registered) \<Rightarrow>
          if is_registered then register_chunks env strict rest s
          else case ce_resolve env chunk_id (cs_world s) of
                 None \<Rightarrow> None
               | Some (Some info) \<Rightarrow>
                   (case register_chunk_internal env (ci_id info) (ci_region info) s of
                      None \<Rightarrow> None
                    | Some (s', Inl e) \<Rightarrow> Some (s', Inl e)
                    | Some (s', Inr _) \<Rightarrow> register_chunks env strict rest s')
               | Some None \<Rightarrow>
                   let st = cs_stats s;
                       s' = s\<lparr>cs_stats := st\<lparr>rs_submission_missing_chunk_info := saturating_inc (rs_submission_missing_chunk_info st)\<rparr>\<rparr>
                   in Some (s', Inl (plain_report (if strict then UeInvalidState else UeInvalidInput))))"

subsection \<open>What the kernel and the registrar promise\<close>

text \<open>\<open>view r i\<close> is the region in entry \<open>i\<close> of the kernel's buffer table.\<close>

definition chunk_env_ok :: "'r chunk_env \<Rightarrow> ('r \<Rightarrow> nat \<Rightarrow> region option) \<Rightarrow> bool" where
  "chunk_env_ok env view \<longleftrightarrow>
     (\<forall>idx reg r r' u. ce_update env idx reg r = (r', Inr u) \<longrightarrow> view r' = (view r)(unat idx \<mapsto> reg))
   \<and> (\<forall>idx reg r r' e. ce_update env idx reg r = (r', Inl e) \<longrightarrow> view r' = view r)
   \<and> (\<forall>c r. \<exists>found. ce_resolve env c r = Some found \<and> (\<forall>info. found = Some info \<longrightarrow> ci_id info = c))"

definition chunk_inv :: "('r \<Rightarrow> nat \<Rightarrow> region option) \<Rightarrow> 'r chunk_state \<Rightarrow> bool" where
  "chunk_inv view s \<longleftrightarrow> bit_set_inv (cs_registered s) \<and> bs_size (cs_registered s) = MAX_CHUNKS
     \<and> (\<forall>i \<in> bit_set_abs (cs_registered s). view (cs_world s) i \<noteq> None)"
lemma chunk_env_D:
  assumes "chunk_env_ok env view"
  shows "ce_update env idx reg r = (r', Inr u) \<Longrightarrow> view r' = (view r)(unat idx \<mapsto> reg)"
    "ce_update env idx reg r = (r', Inl e) \<Longrightarrow> view r' = view r" "ce_resolve env c r \<noteq> None"
    "ce_resolve env c r = Some (Some info) \<Longrightarrow> ci_id info = c"
  using assms unfolding chunk_env_ok_def by (blast, blast, metis option.distinct(1), metis option.inject)

text \<open>An attempt returns, never forgets a chunk, and registers its own chunk when it succeeds.\<close>

lemma register_chunk_ok:
  assumes "chunk_env_ok env view" "chunk_inv view s"
  shows "\<exists>s' res. register_chunk_internal env c reg s = Some (s', res) \<and> chunk_inv view s'
    \<and> bit_set_abs (cs_registered s) \<subseteq> bit_set_abs (cs_registered s')
    \<and> (\<forall>u. res = Inr u \<longrightarrow> unat c \<in> bit_set_abs (cs_registered s') \<and> view (cs_world s') (unat c) = Some reg)"
proof -
  note b = assms(2) [unfolded chunk_inv_def]
  obtain r x where u: "ce_update env (word_of_nat (unat c)) reg (cs_world s) = (r, x)" by fastforce
  have c: "unat (word_of_nat (unat c) :: u32) = unat c" if "unat c < MAX_CHUNKS"
    unfolding unat_of_nat_mod using that by (simp add: MAX_CHUNKS_def)
  let ?cool = "case cs_failures_recent s c of None \<Rightarrow> False | Some t \<Rightarrow> ce_now env (cs_world s) - t < REGISTER_FAILURE_RETRY_COOLDOWN"
  consider "?cool" | "\<not> ?cool" "MAX_CHUNKS \<le> unat c" | e where "\<not> ?cool" "unat c < MAX_CHUNKS" "x = Inl e" | "\<not> ?cool" "unat c < MAX_CHUNKS" "x = Inr ()"
    by (cases x) force+
  then show ?thesis
  proof cases
    case 1
    then show ?thesis using b by (simp add: register_chunk_internal_def Let_def chunk_inv_def)
  next
    case 2
    then show ?thesis using b by (simp add: register_chunk_internal_def Let_def chunk_inv_def)
  next
    case (3 e)
    have "view r = view (cs_world s)" using chunk_env_D(2) [OF assms(1)] u 3(3) by blast
    with 3 show ?thesis using b u by (simp add: register_chunk_internal_def Let_def chunk_inv_def)
  next
    case 4
    obtain b' where bs: "bit_set_set (unat c) (cs_registered s) = Some (b', Inr ())" "bit_set_inv b'" "bs_size b' = MAX_CHUNKS"
      "bit_set_abs b' = insert (unat c) (bit_set_abs (cs_registered s))"
      using bit_set_set_abs [of "cs_registered s" "unat c"] b 4(2) by auto
    have v: "view r = (view (cs_world s))(unat c \<mapsto> reg)" using chunk_env_D(1) [OF assms(1) u [unfolded 4(3)]] c [OF 4(2)] by simp
    from 4 show ?thesis using b u bs v by (auto simp: register_chunk_internal_def Let_def chunk_inv_def)
  qed
qed

text \<open>During the cooldown nothing is asked of the kernel.\<close>

lemma cooldown_skips_kernel:
  assumes "cs_failures_recent s c = Some t" "ce_now env (cs_world s) - t < REGISTER_FAILURE_RETRY_COOLDOWN"
  shows "\<exists>s'. register_chunk_internal env c reg s = Some (s', Inl (plain_report UeRegistration)) \<and> cs_world s' = cs_world s
    \<and> cs_registered s' = cs_registered s \<and> cs_failures_recent s' = cs_failures_recent s"
  using assms by (simp add: register_chunk_internal_def Let_def)

lemma register_chunks_ok:
  assumes "chunk_env_ok env view"
  shows "chunk_inv view s \<Longrightarrow> \<exists>s' res. register_chunks env strict cs s = Some (s', res) \<and> chunk_inv view s'
     \<and> bit_set_abs (cs_registered s) \<subseteq> bit_set_abs (cs_registered s')
     \<and> (res = Inr () \<longrightarrow> unat ` set cs \<subseteq> bit_set_abs (cs_registered s'))"
proof (induction cs arbitrary: s)
  case Nil
  then show ?case by simp
next
  case (Cons c cs)
  have b: "bit_set_inv (cs_registered s)" "bs_size (cs_registered s) = MAX_CHUNKS" using Cons.prems by (simp_all add: chunk_inv_def)
  show ?case
  proof (cases "unat c < MAX_CHUNKS")
    case False
    then show ?thesis using Cons.prems b by (simp add: bit_set_get_abs)
  next
    case True
    then have g: "bit_set_get (unat c) (cs_registered s) = Some (Inr (unat c \<in> bit_set_abs (cs_registered s)))" using b by (simp add: bit_set_get_abs)
    consider "unat c \<in> bit_set_abs (cs_registered s)" | "unat c \<notin> bit_set_abs (cs_registered s)" "ce_resolve env c (cs_world s) = Some None"
      | info where "unat c \<notin> bit_set_abs (cs_registered s)" "ce_resolve env c (cs_world s) = Some (Some info)"
      using chunk_env_D(3) [OF assms, of c "cs_world s"] by fastforce
    then show ?thesis
    proof cases
      case 1
      then show ?thesis using Cons.IH [OF Cons.prems] g by auto
    next
      case 2
      then show ?thesis using Cons.prems g by (simp add: Let_def chunk_inv_def)
    next
      case (3 info)
      obtain s1 x where r: "register_chunk_internal env (ci_id info) (ci_region info) s = Some (s1, x)" "chunk_inv view s1"
        "bit_set_abs (cs_registered s) \<subseteq> bit_set_abs (cs_registered s1)" "\<And>u. x = Inr u \<Longrightarrow> unat (ci_id info) \<in> bit_set_abs (cs_registered s1)"
        using register_chunk_ok [OF assms Cons.prems, of "ci_id info" "ci_region info"] by blast
      have i: "ci_id info = c" using chunk_env_D(4) [OF assms 3(2)] .
      show ?thesis
      proof (cases x)
        case (Inl e)
        then show ?thesis using 3 g r by simp
      next
        case (Inr u)
        obtain s' res where "register_chunks env strict cs s1 = Some (s', res)" "chunk_inv view s'"
          "bit_set_abs (cs_registered s1) \<subseteq> bit_set_abs (cs_registered s')" "res = Inr () \<longrightarrow> unat ` set cs \<subseteq> bit_set_abs (cs_registered s')"
          using Cons.IH [OF r(2)] by blast
        then show ?thesis using 3 g r(1,3) r(4) [OF Inr] Inr i by (intro exI [of _ s'] exI [of _ res]) auto
      qed
    qed
  qed
qed

text \<open>C31. An operation is submitted only over registered memory: with a registrar that answers, the
  registration of the chunks an operation touches always returns, it keeps the driver's marks true to the kernel (every marked
  chunk has its region in the kernel's buffer table) and forgets none, and when it reports success
  every chunk of the operation is marked and known to the kernel.\<close>

theorem chunks_registered_before_submission:
  assumes "chunk_env_ok env view" "chunk_inv view s"
  shows "\<exists>s' res. register_chunks env strict cs s = Some (s', res) \<and> chunk_inv view s'
     \<and> bit_set_abs (cs_registered s) \<subseteq> bit_set_abs (cs_registered s')
     \<and> (res = Inr () \<longrightarrow> (\<forall>c\<in>set cs. bit_set_get (unat c) (cs_registered s') = Some (Inr True) \<and> view (cs_world s') (unat c) \<noteq> None))"
proof -
  obtain s' res where r: "register_chunks env strict cs s = Some (s', res)" "chunk_inv view s'"
    "bit_set_abs (cs_registered s) \<subseteq> bit_set_abs (cs_registered s')" "res = Inr () \<longrightarrow> unat ` set cs \<subseteq> bit_set_abs (cs_registered s')"
    using register_chunks_ok [OF assms] by blast
  have "bit_set_get i (cs_registered s') = Some (Inr True) \<and> view (cs_world s') i \<noteq> None" if "i \<in> bit_set_abs (cs_registered s')" for i
    using that r(2) bit_set_get_abs [of "cs_registered s'" i] by (simp add: chunk_inv_def bit_set_abs_def)
  then show ?thesis using r by (intro exI [of _ s'] exI [of _ res]) auto
qed

text \<open>A kernel that keeps the regions it is given, with the clock standing still.\<close>

definition sample_env :: "(nat \<Rightarrow> region option) chunk_env" where
  "sample_env = \<lparr>ce_update = (\<lambda>idx reg r. (r(unat idx \<mapsto> reg), Inr ())), ce_now = (\<lambda>_. 0),
     ce_resolve = (\<lambda>c r. Some (if c < 8 then Some \<lparr>ci_id = c, ci_region = (4096 * ucast c, 4096)\<rparr> else None))\<rparr>"

definition sample_chunks :: "(nat \<Rightarrow> region option) chunk_state" where
  "sample_chunks = \<lparr>cs_world = (\<lambda>_. None), cs_registered = bit_set_new MAX_CHUNKS, cs_failures_recent = Map.empty,
     cs_stats = \<lparr>rs_chunk_register_attempts = 0, rs_chunk_register_success = 0, rs_chunk_register_failures = 0,
       rs_chunk_register_skipped_recent_failure = 0, rs_submission_missing_chunk_info = 0\<rparr>\<rparr>"

theorem chunks_registered_before_submission_witness:
  "\<exists>s'. register_chunks sample_env True [2, 5, 2] sample_chunks = Some (s', Inr ()) \<and> cs_world s' 2 \<noteq> None \<and> cs_world s' 5 \<noteq> None"
proof -
  have e: "chunk_env_ok sample_env (\<lambda>r. r)" by (auto simp: chunk_env_ok_def sample_env_def split: if_splits)
  have i: "chunk_inv (\<lambda>r. r) sample_chunks" by (simp add: chunk_inv_def sample_chunks_def bit_set_new_abs)
  have "map_option snd (register_chunks sample_env True [2, 5, 2] sample_chunks) = Some (Inr ())" by code_simp
  then obtain s' where s': "register_chunks sample_env True [2, 5, 2] sample_chunks = Some (s', Inr ())" by auto
  then show ?thesis using chunks_registered_before_submission [OF e i, of True "[2, 5, 2]"] by auto
qed

subsection \<open>The registrar of the runtime\<close>

text \<open>\<^verbatim>\<open>resolve_chunk_info_internal\<close> looks the chunk up in the worker's snapshot. On a miss it synchronises
  the snapshot first, for which \<^verbatim>\<open>sync_to_driver_internal\<close> borrows the driver; a submission already holds
  that borrow, so that \<^verbatim>\<open>borrow_mut\<close> panics.\<close>

definition resolve_while_submitting :: "chunk_info list \<Rightarrow> chunk_id \<Rightarrow> chunk_info option option" where
  "resolve_while_submitting chunks c =
     (case List.find (\<lambda>info. ci_id info = c) chunks of Some info \<Rightarrow> Some (Some info) | None \<Rightarrow> None)"

text \<open>So a submission that touches a chunk which is neither marked nor in the snapshot panics, wherever the
  chunk stands in the operation, once the chunks before it are registered.\<close>

theorem unknown_chunk_panics:
  assumes "bit_set_inv (cs_registered s)" "unat c < bs_size (cs_registered s)" "unat c \<notin> bit_set_abs (cs_registered s)"
    "\<forall>info \<in> set chunks. ci_id info \<noteq> c" "\<forall>r. ce_resolve env c r = resolve_while_submitting chunks c"
    "\<forall>b \<in> set before. unat b \<in> bit_set_abs (cs_registered s)"
  shows "register_chunks env strict (before @ c # rest) s = None"
  using assms(6)
proof (induction before)
  case Nil
  have "List.find (\<lambda>info. ci_id info = c) chunks = None" using assms(4) by (simp add: find_None_iff)
  then show ?case using assms(1-3,5) by (simp add: bit_set_get_abs resolve_while_submitting_def)
next
  case (Cons b bs)
  then have "bit_set_get (unat b) (cs_registered s) = Some (Inr True)"
    using assms(1) by (simp add: bit_set_get_abs) (simp add: bit_set_abs_def)
  then show ?case using Cons by simp
qed

end
