(* ===== verification/Uring_Hooks.thy ===== *)
theory Uring_Hooks
  imports Completion_Flow Fixed_Files Chunk_Registration
begin

text \<open>
  The completion hooks of the io_uring backend (\<^verbatim>\<open>backend/uring/src/driver/completion.rs\<close>,
  \<^verbatim>\<open>op.rs\<close>, \<^verbatim>\<open>diagnostics.rs\<close>), as an instance of the contract the completion
  flow relies on. An operation carries a table of functions over its kernel payload; the bodies of
  those functions are parameters of the model. Log output is left out.
\<close>

subsection \<open>Results\<close>

definition driver_result_to_event_res :: "uring_report + usize \<Rightarrow> i32" where
  "driver_result_to_event_res res =
     (case res of Inr v \<Rightarrow> ucast (min v 0x7fffffff) | Inl e \<Rightarrow> uring_report_to_event_res e)"

subsection \<open>Operations, platform data and effects\<close>

datatype 'p uring_payload = PayloadClose u32 u64 | PayloadOther 'p

datatype submission_strategy = SubmitSqe | SoftwareTimer

text \<open>The bytes of a submission entry without its \<^verbatim>\<open>user_data\<close>.\<close>

type_synonym sqe_body = "u8 list"

text \<open>\<^verbatim>\<open>make_sqe\<close> is given the driver; of its state the operations read the table of registered files and
  the marks of registered chunks. \<^verbatim>\<open>resolve_chunks\<close> fills an array of four chunks and returns how many it
  used; a timeout is in nanoseconds.\<close>

record ('k, 'p) op_vtable =
  vt_make_sqe :: "'k \<Rightarrow> 'p uring_payload \<Rightarrow> file_slot list \<Rightarrow> bit_set \<Rightarrow> op_token \<Rightarrow> 'k \<times> 'p uring_payload \<times> (uring_report + sqe_body)"
  vt_on_complete :: "'k \<Rightarrow> 'p uring_payload \<Rightarrow> i32 \<Rightarrow> 'k \<times> 'p uring_payload \<times> (uring_report + usize)"
  vt_completion_cleanup :: "'k \<Rightarrow> i32 \<Rightarrow> 'k \<times> cleanup_guard"
  vt_orphan_cleanup :: "'k \<Rightarrow> i32 \<Rightarrow> 'k \<times> cleanup_guard"
  vt_strategy :: submission_strategy
  vt_get_timeout :: "'k \<Rightarrow> 'p uring_payload \<Rightarrow> nat option"
  vt_resolve_chunks :: "'k \<Rightarrow> 'p uring_payload \<Rightarrow> chunk_id list \<times> nat"

record ('k, 'p) uring_op =
  uo_vtable :: "('k, 'p) op_vtable"
  uo_payload :: 'k

definition op_completion_cleanup :: "i32 \<Rightarrow> ('k, 'p) uring_op \<Rightarrow> ('k, 'p) uring_op \<times> cleanup_guard" where
  "op_completion_cleanup res op =
     (case vt_completion_cleanup (uo_vtable op) (uo_payload op) res of (k, g) \<Rightarrow> (op\<lparr>uo_payload := k\<rparr>, g))"

definition op_orphan_cleanup :: "i32 \<Rightarrow> ('k, 'p) uring_op \<Rightarrow> ('k, 'p) uring_op \<times> cleanup_guard" where
  "op_orphan_cleanup res op =
     (case vt_orphan_cleanup (uo_vtable op) (uo_payload op) res of (k, g) \<Rightarrow> (op\<lparr>uo_payload := k\<rparr>, g))"

datatype uring_submission_state = SubIdle | SubQueued | SubKernelSubmitted | SubTimer

datatype uring_op_state = UringOpState (us_timer_id: "nat option") (us_submission_state: uring_submission_state)

instantiation uring_op_state :: default
begin

definition default_uring_op_state :: uring_op_state where
  "default_uring_op_state = UringOpState None SubIdle"

instance ..

end

fun clear_timer_id :: "uring_op_state \<Rightarrow> uring_op_state" where
  "clear_timer_id (UringOpState _ s) = UringOpState None s"

record pending_cancel =
  pc_target :: op_token
  pc_mode :: cancel_mode

datatype uring_backend_effect =
    EffNone
  | EffWaker bool
  | EffCancelEnoent u16 pending_cancel raw_completion
  | EffCloseCompleted u32 u64

instantiation uring_backend_effect :: default
begin

definition default_uring_backend_effect :: uring_backend_effect where
  "default_uring_backend_effect = EffNone"

instance ..

end

datatype uring_synthetic = SyntheticNone | SyntheticCancel cancel_mode | SyntheticSubmissionFailure "uring_report option"

fun synthetic_cancel_mode :: "uring_synthetic \<Rightarrow> cancel_mode" where
  "synthetic_cancel_mode (SyntheticCancel m) = m"
| "synthetic_cancel_mode _ = UserVisible"

fun take_submission_failure :: "uring_synthetic \<Rightarrow> uring_synthetic \<times> uring_report option" where
  "take_submission_failure (SyntheticSubmissionFailure rep) = (SyntheticSubmissionFailure None, rep)"
| "take_submission_failure s = (s, None)"

record post_effects =
  pe_rebuild_waker :: bool
  pe_resubmit_waker :: bool
  pe_flush_backlog :: bool
  pe_cancel_enoent :: "(u16 \<times> pending_cancel \<times> raw_completion) list"
  pe_close_unregister :: "(u32 \<times> u64) list"

definition post_effects_default :: post_effects where
  "post_effects_default = \<lparr>pe_rebuild_waker = False, pe_resubmit_waker = False, pe_flush_backlog = False,
     pe_cancel_enoent = [], pe_close_unregister = []\<rparr>"

record uring_diag =
  ud_cancel_submitted :: u64
  ud_cancel_queued :: u64
  ud_cancel_local_completed :: u64
  ud_cancel_target_missing :: u64
  ud_cancel_target_stale :: u64
  ud_cancel_target_corrupt :: u64
  ud_cancel_ack_ok :: u64
  ud_cancel_ack_not_found :: u64
  ud_cancel_ack_error :: u64
  ud_cancel_ack_enoent_active :: u64
  ud_waker_ok :: u64
  ud_waker_error :: u64
  ud_waker_rebuild :: u64

definition uring_diag_default :: uring_diag where
  "uring_diag_default = \<lparr>ud_cancel_submitted = 0, ud_cancel_queued = 0, ud_cancel_local_completed = 0,
     ud_cancel_target_missing = 0, ud_cancel_target_stale = 0, ud_cancel_target_corrupt = 0, ud_cancel_ack_ok = 0,
     ud_cancel_ack_not_found = 0, ud_cancel_ack_error = 0, ud_cancel_ack_enoent_active = 0, ud_waker_ok = 0,
     ud_waker_error = 0, ud_waker_rebuild = 0\<rparr>"

text \<open>The hooks borrow part of the driver's state; the last field logs cleanup guards that go out of
  scope while armed.\<close>

record uring_hooks =
  uh_diag :: uring_diag
  uh_pending_cancel_cqes :: "u16 \<rightharpoonup> pending_cancel"
  uh_waker_buf_len :: usize
  uh_waker_armed :: bool
  uh_is_waked :: bool
  uh_synthetic :: uring_synthetic
  uh_post :: post_effects
  uh_dropped :: "nat list"

type_synonym ('k, 'p) uring_local =
  "(('k, 'p) uring_op, 'p uring_payload, uring_report + usize, unit, uring_op_state) local_slot"

type_synonym 'p uring_outcome = "('p uring_payload, uring_report + usize, uring_backend_effect) hook_outcome"

subsection \<open>Control completions\<close>

text \<open>The negation of the kernel's result wraps at the smallest number, as in a build without overflow
  checks; the kernel does not return it.\<close>

definition handle_waker_control :: "raw_completion \<Rightarrow> uring_hooks \<Rightarrow> uring_hooks \<times> uring_backend_effect" where
  "handle_waker_control raw h =
     (let d = uh_diag h in
      if rc_res raw = ucast (uh_waker_buf_len h)
      then (h\<lparr>uh_diag := d\<lparr>ud_waker_ok := ud_waker_ok d + 1\<rparr>\<rparr>, EffWaker False)
      else if 0 \<le> sint (rc_res raw)
      then (h\<lparr>uh_diag := d\<lparr>ud_waker_error := ud_waker_error d + 1\<rparr>\<rparr>, EffWaker True)
      else (h\<lparr>uh_diag := d\<lparr>ud_waker_error := ud_waker_error d + 1\<rparr>\<rparr>,
            EffWaker (\<not> (- rc_res raw = 11 \<or> - rc_res raw = 4))))"

definition handle_cancel_control ::
  "u16 \<Rightarrow> raw_completion \<Rightarrow> uring_hooks \<Rightarrow> uring_hooks \<times> (uring_report + 'p uring_outcome)" where
  "handle_cancel_control cid raw h =
     (let h1 = h\<lparr>uh_pending_cancel_cqes := (uh_pending_cancel_cqes h)(cid := None)\<rparr>; d = uh_diag h
      in case uh_pending_cancel_cqes h cid of
           None \<Rightarrow> (h1, Inl (report_of UeInvalidState))
         | Some request \<Rightarrow>
             if 0 \<le> sint (rc_res raw)
             then (h1\<lparr>uh_diag := d\<lparr>ud_cancel_ack_ok := ud_cancel_ack_ok d + 1\<rparr>\<rparr>, Inr (HookControlHandled EffNone))
             else if rc_res raw = - 2
             then (h1\<lparr>uh_diag := d\<lparr>ud_cancel_ack_not_found := ud_cancel_ack_not_found d + 1\<rparr>\<rparr>,
                   Inr (HookControlHandled (EffCancelEnoent cid request raw)))
             else (h1\<lparr>uh_diag := d\<lparr>ud_cancel_ack_error := ud_cancel_ack_error d + 1\<rparr>\<rparr>,
                   Inr (HookControlHandled EffNone)))"

definition uring_handle_control ::
  "completion_control \<Rightarrow> uring_hooks \<Rightarrow> uring_hooks \<times> (uring_report + 'p uring_outcome)" where
  "uring_handle_control ctl h =
     (case ctl of
        ControlWaker _ raw \<Rightarrow> (case handle_waker_control raw h of (h', eff) \<Rightarrow> (h', Inr (HookControlHandled eff)))
      | ControlCancel cid raw \<Rightarrow> handle_cancel_control cid raw h)"

subsection \<open>Completing a slot\<close>

definition note_dropped :: "cleanup_guard \<Rightarrow> uring_hooks \<Rightarrow> uring_hooks" where
  "note_dropped g h = h\<lparr>uh_dropped := uh_dropped h @ guard_drop g\<rparr>"

definition COMP_BACKEND_URING :: completion_backend where
  "COMP_BACKEND_URING = Backend 2"

definition complete_kernel_waiting_slot ::
  "op_token \<Rightarrow> raw_completion \<Rightarrow> ('k, 'p) uring_local \<Rightarrow> uring_hooks
     \<Rightarrow> uring_hooks \<times> ('k, 'p) uring_local \<times> (uring_report + 'p uring_outcome)" where
  "complete_kernel_waiting_slot t raw l h =
     (case (ls_op l, st_payload (ls_storage l)) of
        (Some op, Some pay) \<Rightarrow>
          (case vt_on_complete (uo_vtable op) (uo_payload op) pay (rc_res raw) of
             (k, pay', final_res) \<Rightarrow>
               (case op_completion_cleanup (rc_res raw) (op\<lparr>uo_payload := k\<rparr>) of
                  (op', cleanup) \<Rightarrow>
                    let l1 = l\<lparr>ls_op := Some op', ls_storage := (ls_storage l)\<lparr>st_payload := Some pay'\<rparr>\<rparr>;
                        res_code = driver_result_to_event_res final_res
                    in case take_completion_data l1 of
                         (l2, None, _) \<Rightarrow> (note_dropped cleanup h, l2, Inl (report_of UeInvalidState))
                       | (l2, Some payload, detail) \<Rightarrow>
                           let eff = (case final_res of
                                        Inr _ \<Rightarrow> (case payload of PayloadClose fd g \<Rightarrow> EffCloseCompleted fd g
                                                  | PayloadOther _ \<Rightarrow> EffNone)
                                      | Inl _ \<Rightarrow> EffNone);
                               detail' = (case detail of
                                            None \<Rightarrow> (case final_res of Inl e \<Rightarrow> Some (Inl e) | Inr _ \<Rightarrow> None)
                                          | Some d \<Rightarrow> Some d)
                           in (h, fst (take_op l2),
                               Inr (HookUser (user_event_from_parts COMP_BACKEND_URING t res_code (rc_flags raw))
                                      payload detail' cleanup eff))))
      | _ \<Rightarrow> (h, l, Inl (report_of UeInvalidState)))"

definition complete_timer_waiting_slot ::
  "user_completion_event \<Rightarrow> ('k, 'p) uring_local \<Rightarrow> uring_hooks
     \<Rightarrow> uring_hooks \<times> ('k, 'p) uring_local \<times> (uring_report + 'p uring_outcome)" where
  "complete_timer_waiting_slot ev l h =
     (let l1 = l\<lparr>ls_platform := clear_timer_id (ls_platform l)\<rparr>; l2 = fst (take_op l1)
      in case take_completion_data l2 of
           (l3, None, _) \<Rightarrow> (h, l3, Inl (report_of UeInvalidState))
         | (l3, Some payload, detail) \<Rightarrow> (h, l3, Inr (HookUser ev payload detail guard_none EffNone)))"

definition complete_local_cancel_slot ::
  "user_completion_event \<Rightarrow> cancel_mode \<Rightarrow> bool \<Rightarrow> ('k, 'p) uring_local \<Rightarrow> uring_hooks
     \<Rightarrow> uring_hooks \<times> ('k, 'p) uring_local \<times> (uring_report + 'p uring_outcome)" where
  "complete_local_cancel_slot ev mode orphaned l h =
     (let res = rc_res (uce_raw ev)
      in case with_op_mut (\<lambda>op. if mode = Abandon \<or> orphaned then op_orphan_cleanup res op
                                else op_completion_cleanup res op) l of
           (l1, g) \<Rightarrow>
             let cleanup = (case g of Some c \<Rightarrow> c | None \<Rightarrow> guard_none)
             in case take_completion_data l1 of
                  (l2, payload, detail) \<Rightarrow>
                    let l3 = fst (take_op l2)
                    in case (mode, payload) of
                         (UserVisible, Some pay) \<Rightarrow> (h, l3, Inr (HookUser ev pay detail cleanup EffNone))
                       | (UserVisible, None) \<Rightarrow> (note_dropped cleanup h, l3, Inl (report_of UeInvalidState))
                       | (Abandon, _) \<Rightarrow> (h, l3, Inr (HookCleanup cleanup EffNone)))"

definition complete_submission_failure_slot ::
  "user_completion_event \<Rightarrow> uring_report option \<Rightarrow> ('k, 'p) uring_local \<Rightarrow> uring_hooks
     \<Rightarrow> uring_hooks \<times> ('k, 'p) uring_local \<times> (uring_report + 'p uring_outcome)" where
  "complete_submission_failure_slot ev report l h =
     (case with_op_mut (op_completion_cleanup (rc_res (uce_raw ev))) l of
        (l1, g) \<Rightarrow>
          let cleanup = (case g of Some c \<Rightarrow> c | None \<Rightarrow> guard_none);
              l2 = fst (take_op l1)
          in case take_completion_data l2 of
               (l3, None, _) \<Rightarrow> (note_dropped cleanup h, l3, Inl (report_of UeInvalidState))
             | (l3, Some payload, detail) \<Rightarrow>
                 (h, l3, Inr (HookUser ev payload
                    (case detail of Some d \<Rightarrow> Some d | None \<Rightarrow> map_option Inl report) cleanup EffNone)))"

definition cleanup_orphaned_slot ::
  "i32 \<Rightarrow> ('k, 'p) uring_local \<Rightarrow> ('k, 'p) uring_local \<times> cleanup_guard" where
  "cleanup_orphaned_slot res l =
     (case with_op_mut (op_orphan_cleanup res) l of
        (l1, g) \<Rightarrow>
          let cleanup = (case g of Some c \<Rightarrow> c | None \<Rightarrow> guard_none)
          in (fst (take_op (fst (take_completion_data l1))), cleanup))"

definition uring_complete_waiting ::
  "user_completion_event \<Rightarrow> unit completion_source \<Rightarrow> ('k, 'p) uring_local \<Rightarrow> uring_hooks
     \<Rightarrow> uring_hooks \<times> ('k, 'p) uring_local \<times> (uring_report + 'p uring_outcome)" where
  "uring_complete_waiting ev src l h =
     (case src of
        SourceSynthetic SynTimer \<Rightarrow> complete_timer_waiting_slot ev l h
      | SourceSynthetic SynCancel \<Rightarrow>
          complete_local_cancel_slot ev (synthetic_cancel_mode (uh_synthetic h)) False l h
      | SourceSynthetic SynSubmissionFailure \<Rightarrow>
          (case take_submission_failure (uh_synthetic h) of
             (s, rep) \<Rightarrow> complete_submission_failure_slot ev rep l (h\<lparr>uh_synthetic := s\<rparr>))
      | _ \<Rightarrow> complete_kernel_waiting_slot (uce_token ev) (uce_raw ev) l h)"

definition uring_complete_orphaned ::
  "user_completion_event \<Rightarrow> unit completion_source \<Rightarrow> ('k, 'p) uring_local \<Rightarrow> uring_hooks
     \<Rightarrow> uring_hooks \<times> ('k, 'p) uring_local \<times> (uring_report + 'p uring_outcome)" where
  "uring_complete_orphaned ev src l h =
     (let res = (case src of SourceSynthetic SynTimer \<Rightarrow> 0 | _ \<Rightarrow> rc_res (uce_raw ev))
      in case cleanup_orphaned_slot res l of (l', cleanup) \<Rightarrow> (h, l', Inr (HookCleanup cleanup EffNone)))"

definition uring_finish_effect :: "uring_backend_effect \<Rightarrow> uring_hooks \<Rightarrow> uring_hooks \<times> (uring_report + unit)" where
  "uring_finish_effect eff h =
     (let p = uh_post h in
      case eff of
        EffNone \<Rightarrow> (h, Inr ())
      | EffWaker should_rebuild \<Rightarrow>
          (h\<lparr>uh_waker_armed := False, uh_is_waked := False,
             uh_post := p\<lparr>pe_rebuild_waker := pe_rebuild_waker p \<or> should_rebuild,
                          pe_resubmit_waker := True, pe_flush_backlog := True\<rparr>\<rparr>, Inr ())
      | EffCancelEnoent cid request raw \<Rightarrow>
          (h\<lparr>uh_post := p\<lparr>pe_cancel_enoent := pe_cancel_enoent p @ [(cid, request, raw)]\<rparr>\<rparr>, Inr ())
      | EffCloseCompleted fd g \<Rightarrow>
          (h\<lparr>uh_post := p\<lparr>pe_close_unregister := pe_close_unregister p @ [(fd, g)]\<rparr>\<rparr>, Inr ()))"

definition uring_completion_hooks ::
  "(uring_hooks, unit, uring_backend_effect, ('k, 'p) uring_op, 'p uring_payload, uring_report + usize, unit,
    uring_op_state, uring_report) completion_hooks" where
  "uring_completion_hooks = \<lparr>hk_handle_control = uring_handle_control,
     hk_complete_waiting = uring_complete_waiting, hk_complete_orphaned = uring_complete_orphaned,
     hk_complete_corrupt = complete_corrupt_default, hk_backend_ingress = backend_ingress_default,
     hk_finish_effect = uring_finish_effect\<rparr>"

subsection \<open>The hooks meet the contract of the completion flow\<close>

lemma take_op_simps [simp]:
  "ls_active (fst (take_op l)) = ls_active l" "ls_generation (fst (take_op l)) = ls_generation l"
  "ls_storage (fst (take_op l)) = ls_storage l"
  by (simp_all add: take_op_def)

lemma with_op_mut_Some:
  assumes "ls_op l \<noteq> None"
  shows "\<exists>op x. with_op_mut f l = (l\<lparr>ls_op := Some op\<rparr>, Some x)"
  using assms by (auto simp: with_op_mut_def split: prod.splits)

text \<open>The detail recorded with a kernel completion: a result stored earlier, else the error of the
  completion function; a plain success is read back from the event.\<close>

definition completion_detail :: "(uring_report + usize) option \<Rightarrow> uring_report + usize \<Rightarrow> (uring_report + usize) option" where
  "completion_detail stored final_res =
     (case stored of
        None \<Rightarrow> (case final_res of Inl e \<Rightarrow> Some (Inl e) | Inr _ \<Rightarrow> None)
      | Some d \<Rightarrow> Some d)"

lemma kernel_waiting_slot:
  assumes "ls_op l = Some op" "st_payload (ls_storage l) = Some pay"
  shows "\<exists>l' cleanup eff k pay' final_res.
     complete_kernel_waiting_slot t raw l h = (h, l', Inr (HookUser
        (user_event_from_parts COMP_BACKEND_URING t (driver_result_to_event_res final_res) (rc_flags raw))
        pay' (completion_detail (st_result (ls_storage l)) final_res) cleanup eff))
     \<and> vt_on_complete (uo_vtable op) (uo_payload op) pay (rc_res raw) = (k, pay', final_res)
     \<and> ls_active l' = ls_active l \<and> ls_generation l' = ls_generation l"
  using assms
  by (auto simp: complete_kernel_waiting_slot_def take_completion_data_def completion_detail_def Let_def split: prod.splits)

lemma uring_waiting_law:
  assumes "ls_op l \<noteq> None" "st_payload (ls_storage l) \<noteq> None" "uring_complete_waiting ev src l h = (h', l', res)"
  shows "ls_active l' = ls_active l \<and> ls_generation l' = ls_generation l
    \<and> ((\<exists>ev' pay det c eff. res = Inr (HookUser ev' pay det c eff) \<and> uce_token ev' = uce_token ev)
       \<or> (\<exists>c eff. res = Inr (HookCleanup c eff)))"
proof -
  obtain op pay where op: "ls_op l = Some op" and pay: "st_payload (ls_storage l) = Some pay"
    using assms(1,2) by auto
  have kern: ?thesis if "complete_kernel_waiting_slot (uce_token ev) (uce_raw ev) l h = (h', l', res)"
    using kernel_waiting_slot [OF op pay, of "uce_token ev" "uce_raw ev" h] that
    by (auto simp: user_event_from_parts_def)
  show ?thesis
  proof (cases src)
    case (SourceSynthetic s)
    show ?thesis
    proof (cases s)
      case SynTimer
      then show ?thesis
        using assms(3) SourceSynthetic op pay
        by (auto simp: uring_complete_waiting_def complete_timer_waiting_slot_def take_completion_data_def Let_def)
    next
      case SynCancel
      let ?f = "\<lambda>op. if synthetic_cancel_mode (uh_synthetic h) = Abandon \<or> False
            then op_orphan_cleanup (rc_res (uce_raw ev)) op else op_completion_cleanup (rc_res (uce_raw ev)) op"
      obtain op' x where "with_op_mut ?f l = (l\<lparr>ls_op := Some op'\<rparr>, Some x)"
        using with_op_mut_Some [OF assms(1), of ?f] by blast
      then show ?thesis
        using assms(3) SourceSynthetic SynCancel pay
        by (auto simp: uring_complete_waiting_def complete_local_cancel_slot_def take_completion_data_def Let_def
            split: cancel_mode.splits)
    next
      case SynSubmissionFailure
      let ?f = "op_completion_cleanup (rc_res (uce_raw ev))"
      obtain op' x where "with_op_mut ?f l = (l\<lparr>ls_op := Some op'\<rparr>, Some x)"
        using with_op_mut_Some [OF assms(1), of ?f] by blast
      then show ?thesis
        using assms(3) SourceSynthetic SynSubmissionFailure pay
        by (auto simp: uring_complete_waiting_def complete_submission_failure_slot_def take_completion_data_def Let_def
            split: prod.splits)
    qed
  qed (use kern assms(3) in \<open>simp_all add: uring_complete_waiting_def\<close>)
qed

lemma uring_orphaned_law:
  assumes "ls_op l \<noteq> None" "uring_complete_orphaned ev src l h = (h', l', res)"
  shows "ls_active l' = ls_active l \<and> ls_generation l' = ls_generation l \<and> (\<exists>c eff. res = Inr (HookCleanup c eff))"
proof -
  let ?res = "case src of SourceSynthetic SynTimer \<Rightarrow> 0 | _ \<Rightarrow> rc_res (uce_raw ev)"
  obtain op' x where "with_op_mut (op_orphan_cleanup ?res) l = (l\<lparr>ls_op := Some op'\<rparr>, Some x)"
    using with_op_mut_Some [OF assms(1), of "op_orphan_cleanup ?res"] by blast
  then show ?thesis
    using assms(2) by (auto simp: uring_complete_orphaned_def cleanup_orphaned_slot_def take_completion_data_def Let_def)
qed

lemma uring_effect_law: "\<exists>h'. uring_finish_effect eff h = (h', Inr ())"
  by (cases eff) (simp_all add: uring_finish_effect_def Let_def)

interpretation uring: completion_backend uring_completion_hooks
proof unfold_locales
  show "ls_active l' = ls_active l \<and> ls_generation l' = ls_generation l
      \<and> ((\<exists>ev' pay det c eff. res = Inr (HookUser ev' pay det c eff) \<and> uce_token ev' = uce_token ev)
         \<or> (\<exists>c eff. res = Inr (HookCleanup c eff)))"
    if "ls_op l \<noteq> None" "st_payload (ls_storage l) \<noteq> None"
      "hk_complete_waiting uring_completion_hooks ev src l h = (h', l', res)" for l l' ev src h h' res
    using uring_waiting_law [OF that(1,2)] that(3) by (simp add: uring_completion_hooks_def)
  show "ls_active l' = ls_active l \<and> ls_generation l' = ls_generation l \<and> (\<exists>c eff. res = Inr (HookCleanup c eff))"
    if "ls_op l \<noteq> None" "st_payload (ls_storage l) \<noteq> None"
      "hk_complete_orphaned uring_completion_hooks ev src l h = (h', l', res)" for l l' ev src h h' res
    using uring_orphaned_law [OF that(1)] that(3) by (simp add: uring_completion_hooks_def)
  show "\<exists>h' att eff. hk_complete_corrupt uring_completion_hooks ev k src h = (h', Inr (HookAnomaly k att eff))"
    for ev k src h
    by (simp add: uring_completion_hooks_def complete_corrupt_default_def)
  show "\<exists>h'. hk_finish_effect uring_completion_hooks eff h = (h', Inr ())" for eff h
    using uring_effect_law by (simp add: uring_completion_hooks_def)
qed

lemma uring_control_finish:
  assumes "driver_inv r" "uring_handle_control ctl h = (h1, res)"
  shows "\<exists>h' out. finish_hook_result uring_completion_hooks res None r h1 = Some (r, h', out)"
proof -
  have "(\<exists>e. res = Inl e) \<or> (\<exists>eff. res = Inr (HookControlHandled eff))"
    using assms(2)
    by (auto simp: uring_handle_control_def handle_cancel_control_def Let_def
        split: completion_control.splits prod.splits option.splits if_splits)
  then show ?thesis
  proof
    assume "\<exists>eff. res = Inr (HookControlHandled eff)"
    then obtain eff where eff: "res = Inr (HookControlHandled eff)" ..
    obtain h' where "uring_finish_effect eff h1 = (h', Inr ())" using uring_effect_law by blast
    then show ?thesis by (simp add: eff finish_hook_result_def uring_completion_hooks_def)
  qed (auto simp: finish_hook_result_def)
qed

subsection \<open>Properties\<close>

lemma uring_accept_ok:
  fixes r :: "(('k, 'p) uring_op, 'p uring_payload, uring_report + usize, unit, uring_op_state) op_registry"
  assumes "driver_inv r"
  shows "\<exists>r' h' res. accept_completion uring_completion_hooks ing r h = Some (r', h', res) \<and> driver_inv r'
     \<and> (\<forall>u. (case ing of
               IngressKernel env \<Rightarrow> (case env_identity env of IdUser t \<Rightarrow> u \<noteq> t | _ \<Rightarrow> True)
             | IngressUser ev \<Rightarrow> u \<noteq> uce_token ev
             | IngressSynthetic ev _ \<Rightarrow> u \<noteq> uce_token ev
             | _ \<Rightarrow> True) \<longrightarrow> table_view u (shared r') = table_view u (shared r))"
proof (cases ing)
  case (IngressKernel env)
  show ?thesis
  proof (cases "env_identity env")
    case (IdUser t)
    then show ?thesis
      using uring.accept_total [OF assms, of "user_event_from_classified t (env_raw env)" SourceKernel h] IngressKernel
      by (auto simp: accept_completion_def dispatch_envelope_def user_event_from_classified_def)
  next
    case (IdWaker i)
    obtain h1 and res :: "uring_report + 'p uring_outcome" where hc: "uring_handle_control (ControlWaker i (env_raw env)) h = (h1, res)" by fastforce
    then have "accept_completion uring_completion_hooks ing r h
        = finish_hook_result uring_completion_hooks res None r h1"
      using IngressKernel IdWaker by (simp add: accept_completion_def dispatch_envelope_def uring_completion_hooks_def)
    then show ?thesis using uring_control_finish [OF assms hc] assms by auto
  next
    case (IdCancel i)
    obtain h1 and res :: "uring_report + 'p uring_outcome" where hc: "uring_handle_control (ControlCancel i (env_raw env)) h = (h1, res)" by fastforce
    then have "accept_completion uring_completion_hooks ing r h
        = finish_hook_result uring_completion_hooks res None r h1"
      using IngressKernel IdCancel by (simp add: accept_completion_def dispatch_envelope_def uring_completion_hooks_def)
    then show ?thesis using uring_control_finish [OF assms hc] assms by auto
  next
    case (IdUnknownControl k i)
    then show ?thesis using assms IngressKernel by (simp add: accept_completion_def dispatch_envelope_def)
  qed
next
  case (IngressBackend i)
  then show ?thesis
    using assms by (simp add: accept_completion_def uring_completion_hooks_def backend_ingress_default_def
        default_uring_backend_effect_def uring_finish_effect_def)
next
  case (IngressAnomaly k att)
  then show ?thesis using driver_inv_diag [OF assms] by (simp add: accept_completion_def)
qed (use uring.accept_total [OF assms] in \<open>simp_all add: accept_completion_def\<close>)

text \<open>The completion path of the io_uring driver never gets stuck or corrupts a slot: in a
  well-formed driver, whatever comes in (a kernel completion of any 64-bit token, a synthetic or
  backend event, an anomaly), processing it returns, the driver is well-formed afterwards, and the
  operations other than the one the event names see no change.\<close>

theorem uring_accept_preserves:
  fixes r :: "(('k, 'p) uring_op, 'p uring_payload, uring_report + usize, unit, uring_op_state) op_registry"
  assumes "driver_inv r"
  shows "\<exists>r' h' res. accept_completion uring_completion_hooks ing r h = Some (r', h', res) \<and> driver_inv r'
     \<and> (\<forall>u. (case ing of
               IngressKernel env \<Rightarrow> (case env_identity env of IdUser t \<Rightarrow> u \<noteq> t | _ \<Rightarrow> True)
             | IngressUser ev \<Rightarrow> u \<noteq> uce_token ev
             | IngressSynthetic ev _ \<Rightarrow> u \<noteq> uce_token ev
             | _ \<Rightarrow> True) \<longrightarrow> table_view u (shared r') = table_view u (shared r))"
  by (rule uring_accept_ok [OF assms])

lemma accept_kernel_waiting:
  assumes "driver_inv r" "table_view t (shared r) = InFlight w"
    "op_index t < INDEX_LIMIT" "op_generation t < 0x8000"
  shows "\<exists>r' h' op pay k pay' final_res rc.
     accept_completion uring_completion_hooks
        (IngressKernel (envelope_from_raw_parts COMP_BACKEND_URING (token_user t) res fl)) r h
       = Some (r', h', Inr flow_user_completed)
     \<and> driver_inv r' \<and> \<not> token_live t r'
     \<and> ls_op (locals r ! unat (op_index t)) = Some op
     \<and> st_payload (ls_storage (locals r ! unat (op_index t))) = Some pay
     \<and> vt_on_complete (uo_vtable op) (uo_payload op) pay res = (k, pay', final_res)
     \<and> table_view t (shared r') = Done rc \<and> rec_payload rc = pay'
     \<and> rec_detail rc = completion_detail (st_result (ls_storage (locals r ! unat (op_index t)))) final_res
     \<and> rec_event rc = user_event_from_parts COMP_BACKEND_URING t (driver_result_to_event_res final_res) fl
     \<and> fx_woken (shared r') = fx_woken (shared r) @ (case w of None \<Rightarrow> [] | Some x \<Rightarrow> [x])"
proof -
  let ?raw = "\<lparr>rc_backend = COMP_BACKEND_URING, rc_token = token_user t, rc_res = res, rc_flags = fl\<rparr>"
  let ?ev = "user_event_from_classified t ?raw" and ?i = "unat (op_index t)"
  have m: "(0x7fff :: u32) = mask 15" by (simp add: mask_eq_exp_minus_1)
  have cls: "token_classify (token_user t) = User t"
    using classify_user [OF assms(3)] small_gen_mask [OF assms(4)] by (simp add: m)
  have disp: "dispatch_envelope (envelope_from_raw_parts COMP_BACKEND_URING (token_user t) res fl) = DispatchUser ?ev"
    by (simp add: envelope_from_raw_parts_def envelope_from_raw_def cls dispatch_envelope_def)
  have tok: "uce_token ?ev = t" "uce_raw ?ev = ?raw" by (simp_all add: user_event_from_classified_def)
  have n: "names_slot t (shared r)" "slot_state_of (token_slot t (shared r)) = InFlightWaiting"
    using assms(2) by (auto simp: view_InFlight)
  obtain op pay where op: "ls_op (locals r ! ?i) = Some op" "st_payload (ls_storage (locals r ! ?i)) = Some pay"
    using in_flight_slot(2,3) [OF assms(1) n(1)] n(2) by auto
  let ?detail = "\<lambda>res. completion_detail (st_result (ls_storage (locals r ! ?i))) res"
  obtain l' cleanup eff k pay' final_res where hook:
    "complete_kernel_waiting_slot t ?raw (locals r ! ?i) h = (h, l', Inr (HookUser
        (user_event_from_parts COMP_BACKEND_URING t (driver_result_to_event_res final_res) fl) pay' (?detail final_res) cleanup eff))"
    "vt_on_complete (uo_vtable op) (uo_payload op) pay res = (k, pay', final_res)"
    using kernel_waiting_slot [OF op, of t ?raw h] by auto
  have hk: "hk_complete_waiting uring_completion_hooks ?ev SourceKernel (locals r ! ?i) h = (h, l', Inr (HookUser
        (user_event_from_parts COMP_BACKEND_URING t (driver_result_to_event_res final_res) fl) pay' (?detail final_res) cleanup eff))"
    using hook(1) tok by (simp add: uring_completion_hooks_def uring_complete_waiting_def)
  have acc: "accept_completion uring_completion_hooks
        (IngressKernel (envelope_from_raw_parts COMP_BACKEND_URING (token_user t) res fl)) r h
      = accept_user_event uring_completion_hooks ?ev SourceKernel r h"
    by (simp add: accept_completion_def disp)
  have view: "table_view (uce_token ?ev) (shared r) = InFlight w" using assms(2) tok by simp
  show ?thesis
    unfolding acc using uring.accept_waiting [OF assms(1) view, of SourceKernel h] hk op hook(2) tok
    by (fastforce simp: packet_user_event_def)
qed

text \<open>C3. A kernel completion reaches the operation that waits for it: for a waiting operation whose
  token survives the round trip (generation below \<^verbatim>\<open>2^15\<close>), the completion queue entry that the
  kernel produces for its packed token is counted as a user completion, the owner of the token can
  take the record carrying the payload and the result computed by the operation's completion
  function, its waker is woken, and the driver's half of the slot is released.\<close>

theorem uring_kernel_completion_delivered:
  assumes "driver_inv r" "table_view t (shared r) = InFlight w"
    "op_index t < INDEX_LIMIT" "op_generation t < 0x8000"
  shows "\<exists>r' h' op pay k pay' final_res rc.
     accept_completion uring_completion_hooks
        (IngressKernel (envelope_from_raw_parts COMP_BACKEND_URING (token_user t) res fl)) r h
       = Some (r', h', Inr flow_user_completed)
     \<and> driver_inv r' \<and> \<not> token_live t r'
     \<and> ls_op (locals r ! unat (op_index t)) = Some op
     \<and> st_payload (ls_storage (locals r ! unat (op_index t))) = Some pay
     \<and> vt_on_complete (uo_vtable op) (uo_payload op) pay res = (k, pay', final_res)
     \<and> table_view t (shared r') = Done rc \<and> rec_payload rc = pay'
     \<and> rec_detail rc = completion_detail (st_result (ls_storage (locals r ! unat (op_index t)))) final_res
     \<and> rec_event rc = user_event_from_parts COMP_BACKEND_URING t (driver_result_to_event_res final_res) fl
     \<and> fx_woken (shared r') = fx_woken (shared r) @ (case w of None \<Rightarrow> [] | Some x \<Rightarrow> [x])"
  by (rule accept_kernel_waiting [OF assms])

text \<open>C13. The completion of an operation whose generation has reached \<^verbatim>\<open>2^15\<close> is lost: the kernel
  returns the packed token, it names another generation, the completion is counted as an anomaly,
  and the operation keeps waiting without being woken.\<close>

theorem uring_completion_lost:
  assumes "driver_inv r" "table_view t (shared r) = InFlight w"
    "op_index t < INDEX_LIMIT" "0x8000 \<le> op_generation t"
  shows "\<exists>r' h'. accept_completion uring_completion_hooks
        (IngressKernel (envelope_from_raw_parts COMP_BACKEND_URING (token_user t) res fl)) r h
       = Some (r', h', Inr flow_anomaly)
     \<and> table_view t (shared r') = InFlight w \<and> fx_woken (shared r') = fx_woken (shared r)"
  using uring.accept_truncated [OF assms] by blast

text \<open>A driver with one slot, whose operation waits under generation \<open>g\<close>.\<close>

definition sample_vtable :: "(unit, nat) op_vtable" where
  "sample_vtable = \<lparr>vt_make_sqe = (\<lambda>k p files chunks t. (k, p, Inr [])), vt_on_complete = (\<lambda>k p res. (k, p, Inr (ucast res))),
     vt_completion_cleanup = (\<lambda>k res. (k, guard_none)), vt_orphan_cleanup = (\<lambda>k res. (k, guard_none)),
     vt_strategy = SubmitSqe, vt_get_timeout = (\<lambda>k p. None), vt_resolve_chunks = (\<lambda>k p. ([0, 0, 0, 0], 0))\<rparr>"

definition sample_driver ::
  "u32 \<Rightarrow> ((unit, nat) uring_op, nat uring_payload, uring_report + usize, unit, uring_op_state) op_registry" where
  "sample_driver g = \<lparr>shared = (slot_table_new 1)\<lparr>slots := [slot_set_state InFlightWaiting (slot_reset g slot_data_new)]\<rparr>,
     locals = [\<lparr>ls_op = Some \<lparr>uo_vtable = sample_vtable, uo_payload = ()\<rparr>, ls_platform = default,
                ls_storage = storage_new\<lparr>st_payload := Some (PayloadOther 7)\<rparr>, ls_active = True, ls_generation = g\<rparr>],
     local_free_head = NULL_INDEX, active_count = 1\<rparr>"

definition sample_hooks :: uring_hooks where
  "sample_hooks = \<lparr>uh_diag = uring_diag_default, uh_pending_cancel_cqes = Map.empty, uh_waker_buf_len = 8,
     uh_waker_armed = True, uh_is_waked = False, uh_synthetic = SyntheticNone, uh_post = post_effects_default,
     uh_dropped = []\<rparr>"

lemma sample_driver_inv: "driver_inv (sample_driver g)"
proof -
  have "chains_ok [] [] [] (sample_driver g)"
    by (simp add: chains_ok_def sample_driver_def slot_table_new_def NULL_INDEX_def)
  then have "registry_inv (sample_driver g)" unfolding registry_inv_def by blast
  moreover have "table_inv (shared (sample_driver g))"
    by (simp add: table_inv_def sample_driver_def slot_table_new_def slot_ok_def NULL_INDEX_def ready_slots_def)
  ultimately show ?thesis
    by (simp add: driver_inv_def inv_except_def lifecycle_ok_def sample_driver_def slot_table_new_def)
qed

lemma sample_driver_view: "table_view \<lparr>op_index = 0, op_generation = g\<rparr> (shared (sample_driver g)) = InFlight None"
  by (simp add: view_InFlight names_slot_def sample_driver_def slot_table_new_def slot_set_state_def slot_reset_def
      slot_data_new_def with_state_def)

lemma uring_accept_preserves_witness:
  "\<exists>r' h' res. accept_completion uring_completion_hooks (IngressAnomaly (KUnknownSlot 3 4) \<lparr>att_token = 0, att_raw = None\<rparr>)
       (sample_driver 5) sample_hooks = Some (r', h', res) \<and> driver_inv r'"
  using uring_accept_preserves [OF sample_driver_inv, of "IngressAnomaly (KUnknownSlot 3 4) \<lparr>att_token = 0, att_raw = None\<rparr>"]
  by blast

lemma uring_kernel_completion_delivered_witness:
  "\<exists>r' h' rc. accept_completion uring_completion_hooks
        (IngressKernel (envelope_from_raw_parts COMP_BACKEND_URING (token_user \<lparr>op_index = 0, op_generation = 5\<rparr>) 12 0))
        (sample_driver 5) sample_hooks = Some (r', h', Inr flow_user_completed)
     \<and> table_view \<lparr>op_index = 0, op_generation = 5\<rparr> (shared r') = Done rc \<and> rec_payload rc = PayloadOther 7"
proof -
  have "vt_on_complete (uo_vtable op) (uo_payload op) pay res = (k, pay', final_res) \<Longrightarrow>
      ls_op (locals (sample_driver 5) ! 0) = Some op \<Longrightarrow>
      st_payload (ls_storage (locals (sample_driver 5) ! 0)) = Some pay \<Longrightarrow> pay' = PayloadOther 7"
    for op pay res k pay' final_res
    by (auto simp: sample_driver_def sample_vtable_def)
  then show ?thesis
    using uring_kernel_completion_delivered [where r = "sample_driver 5" and t = "\<lparr>op_index = 0, op_generation = 5\<rparr>"
        and res = 12 and fl = 0 and h = sample_hooks, OF sample_driver_inv sample_driver_view]
    by (simp add: INDEX_LIMIT_def) metis
qed

lemma uring_completion_lost_witness:
  "\<exists>r' h'. accept_completion uring_completion_hooks
        (IngressKernel (envelope_from_raw_parts COMP_BACKEND_URING (token_user \<lparr>op_index = 0, op_generation = 0x8001\<rparr>) 12 0))
        (sample_driver 0x8001) sample_hooks = Some (r', h', Inr flow_anomaly)
     \<and> table_view \<lparr>op_index = 0, op_generation = 0x8001\<rparr> (shared r') = InFlight None"
  using uring_completion_lost [where r = "sample_driver 0x8001" and t = "\<lparr>op_index = 0, op_generation = 0x8001\<rparr>"
      and res = 12 and fl = 0 and h = sample_hooks, OF sample_driver_inv sample_driver_view]
  by (auto simp: INDEX_LIMIT_def)

end
