(* ===== verification/Timer_Wheel.thy ===== *)
theory Timer_Wheel
  imports Veloq_Prelude
begin

text \<open>
  The hierarchical timer wheel (\<^verbatim>\<open>veloq-wheel/src/config.rs\<close>, \<^verbatim>\<open>veloq-wheel/src/wheel.rs\<close>).
  The entries live in a \<^verbatim>\<open>SlotMap\<close> of the crate \<^verbatim>\<open>slotmap\<close>, which is a parameter: a record of
  the operations the wheel calls. The vector of two levels is two fields. A duration is its number
  of nanoseconds; 64-bit ticks are natural numbers with the wrap-around written out. \<open>None\<close> is
  a panic (a division by a zero ratio, a missing entry) or a list traversal that does not end. A
  level without slots is rejected at once: the code underflows there or, without overflow checks,
  panics at the first access to a slot.
\<close>

subsection \<open>Configuration\<close>

type_synonym duration = nat

definition as_millis :: "duration \<Rightarrow> nat" where
  "as_millis d = d div 1000000"

definition as_u64 :: "nat \<Rightarrow> nat" where
  "as_u64 n = n mod 2 ^ 64"

definition from_millis :: "nat \<Rightarrow> duration" where
  "from_millis ms = ms * 1000000"

record wheel_config =
  l0_tick_duration :: duration
  l0_slot_count :: nat
  l1_tick_duration :: duration
  l1_slot_count :: nat

definition wheel_config_default :: wheel_config where
  "wheel_config_default = \<lparr>l0_tick_duration = from_millis 10, l0_slot_count = 512,
     l1_tick_duration = from_millis 1000, l1_slot_count = 64\<rparr>"

text \<open>The texts of the reasons are left out.\<close>

datatype config_error = InvalidSlotCount nat | InvalidConfiguration string

fun is_power_of_two :: "nat \<Rightarrow> bool" where
  "is_power_of_two n = (if n < 2 then n = 1 else if even n then is_power_of_two (n div 2) else False)"

declare is_power_of_two.simps [simp del]

definition is_multiple_of :: "nat \<Rightarrow> nat \<Rightarrow> bool" where
  "is_multiple_of a b = (if b = 0 then a = 0 else a mod b = 0)"

definition config_build :: "wheel_config \<Rightarrow> config_error + wheel_config" where
  "config_build c =
     (if l0_tick_duration c = 0 then Inl (InvalidConfiguration ''l0_tick_duration'')
      else if l0_slot_count c = 0 then Inl (InvalidSlotCount (l0_slot_count c))
      else if \<not> is_power_of_two (l0_slot_count c) then Inl (InvalidSlotCount (l0_slot_count c))
      else if l1_tick_duration c = 0 then Inl (InvalidConfiguration ''l1_tick_duration'')
      else if l1_slot_count c = 0 then Inl (InvalidSlotCount (l1_slot_count c))
      else if \<not> is_power_of_two (l1_slot_count c) then Inl (InvalidSlotCount (l1_slot_count c))
      else let l0_ms = as_u64 (as_millis (l0_tick_duration c)); l1_ms = as_u64 (as_millis (l1_tick_duration c))
           in if \<not> is_multiple_of l1_ms l0_ms then Inl (InvalidConfiguration ''l1_tick_duration'') else Inr c)"

subsection \<open>The wheel\<close>

record ('a, 'k) wheel_entry =
  we_item :: "'a option"
  we_deadline :: nat
  we_next :: "'k option"
  we_level :: nat
  we_slot_index :: nat

record 'k level =
  lv_slots :: "'k option list"
  lv_mask :: nat

record ('m, 'k) wheel =
  wh_tasks :: 'm
  wh_l0 :: "'k level"
  wh_l1 :: "'k level"
  wh_global_tick :: nat
  wh_tick_duration_ms :: nat
  wh_l1_tick_ratio :: nat
  wh_l0_capacity_ticks :: nat

text \<open>The slot map: creation, insertion with the key chosen by the map, removal, lookup, change in
  place through a mutable reference, emptiness.\<close>

record ('m, 'k, 'v) slot_map_ops =
  sm_new :: 'm
  sm_insert :: "'v \<Rightarrow> 'm \<Rightarrow> 'm \<times> 'k"
  sm_remove :: "'k \<Rightarrow> 'm \<Rightarrow> 'm \<times> 'v option"
  sm_get :: "'k \<Rightarrow> 'm \<Rightarrow> 'v option"
  sm_modify :: "'k \<Rightarrow> ('v \<Rightarrow> 'v) \<Rightarrow> 'm \<Rightarrow> 'm"
  sm_is_empty :: "'m \<Rightarrow> bool"

definition level_new :: "nat \<Rightarrow> 'k level option" where
  "level_new slot_count =
     (if slot_count = 0 then None else Some \<lparr>lv_slots = replicate slot_count None, lv_mask = slot_count - 1\<rparr>)"

definition wheel_new :: "('m, 'k, ('a, 'k) wheel_entry) slot_map_ops \<Rightarrow> wheel_config \<Rightarrow> ('m, 'k) wheel option" where
  "wheel_new sm c =
     (case (level_new (l0_slot_count c), level_new (l1_slot_count c)) of
        (Some l0, Some l1) \<Rightarrow>
          let tick = max (as_u64 (as_millis (l0_tick_duration c))) 1;
              l1_ms = as_u64 (as_millis (l1_tick_duration c))
          in Some \<lparr>wh_tasks = sm_new sm, wh_l0 = l0, wh_l1 = l1, wh_global_tick = 0, wh_tick_duration_ms = tick,
                   wh_l1_tick_ratio = l1_ms div tick, wh_l0_capacity_ticks = l0_slot_count c\<rparr>
      | _ \<Rightarrow> None)"

definition delay_to_ticks :: "duration \<Rightarrow> ('m, 'k) wheel \<Rightarrow> nat" where
  "delay_to_ticks delay w = as_u64 (as_millis delay) div wh_tick_duration_ms w"

definition wrapping_sub :: "nat \<Rightarrow> nat \<Rightarrow> nat" where
  "wrapping_sub a b = (a + (2 ^ 64 - b)) mod 2 ^ 64"

definition determine_location :: "nat \<Rightarrow> ('m, 'k) wheel \<Rightarrow> (nat \<times> nat) option" where
  "determine_location deadline w =
     (let remaining = wrapping_sub deadline (wh_global_tick w)
      in if remaining < wh_l0_capacity_ticks w then Some (0, deadline AND lv_mask (wh_l0 w))
         else if wh_l1_tick_ratio w = 0 then None
         else Some (1, (deadline div wh_l1_tick_ratio w) AND lv_mask (wh_l1 w)))"

definition link ::
  "('m, 'k, ('a, 'k) wheel_entry) slot_map_ops \<Rightarrow> 'k \<Rightarrow> nat \<Rightarrow> nat \<Rightarrow> ('m, 'k) wheel \<Rightarrow> ('m, 'k) wheel" where
  "link sm key lvl i w =
     (let old_head = lv_slots (if lvl = 0 then wh_l0 w else wh_l1 w) ! i;
          w1 = w\<lparr>wh_tasks := sm_modify sm key (\<lambda>e. e\<lparr>we_next := old_head, we_level := lvl mod 2 ^ 8, we_slot_index := i mod 2 ^ 32\<rparr>) (wh_tasks w)\<rparr>
      in if lvl = 0 then w1\<lparr>wh_l0 := (wh_l0 w)\<lparr>lv_slots := (lv_slots (wh_l0 w))[i := Some key]\<rparr>\<rparr>
         else w1\<lparr>wh_l1 := (wh_l1 w)\<lparr>lv_slots := (lv_slots (wh_l1 w))[i := Some key]\<rparr>\<rparr>)"

definition wheel_insert ::
  "('m, 'k, ('a, 'k) wheel_entry) slot_map_ops \<Rightarrow> 'a \<Rightarrow> duration \<Rightarrow> ('m, 'k) wheel \<Rightarrow> (('m, 'k) wheel \<times> 'k) option" where
  "wheel_insert sm item delay w =
     (let ticks = max (delay_to_ticks delay w) 1;
          deadline = as_u64 (wh_global_tick w + ticks)
      in case determine_location deadline w of
           None \<Rightarrow> None
         | Some (lvl, i) \<Rightarrow>
             (case sm_insert sm \<lparr>we_item = Some item, we_deadline = deadline, we_next = None,
                                we_level = lvl mod 2 ^ 8, we_slot_index = i mod 2 ^ 32\<rparr> (wh_tasks w) of
                (m, key) \<Rightarrow> Some (link sm key lvl i (w\<lparr>wh_tasks := m\<rparr>), key)))"

definition wheel_cancel ::
  "('m, 'k, ('a, 'k) wheel_entry) slot_map_ops \<Rightarrow> 'k \<Rightarrow> ('m, 'k) wheel \<Rightarrow> ('m, 'k) wheel \<times> 'a option" where
  "wheel_cancel sm key w =
     (case sm_get sm key (wh_tasks w) of
        None \<Rightarrow> (w, None)
      | Some e \<Rightarrow> (w\<lparr>wh_tasks := sm_modify sm key (\<lambda>e. e\<lparr>we_item := None\<rparr>) (wh_tasks w)\<rparr>, we_item e))"

partial_function (option) drain_list ::
  "('m, 'k, ('a, 'k) wheel_entry) slot_map_ops \<Rightarrow> 'm \<Rightarrow> 'k option \<Rightarrow> 'a list \<Rightarrow> ('m \<times> 'a list) option" where
  "drain_list sm tasks current expired =
     (case current of
        None \<Rightarrow> Some (tasks, expired)
      | Some key \<Rightarrow>
          (case sm_remove sm key tasks of
             (tasks', None) \<Rightarrow> Some (tasks', expired)
           | (tasks', Some e) \<Rightarrow>
               drain_list sm tasks' (we_next e) (case we_item e of Some item \<Rightarrow> expired @ [item] | None \<Rightarrow> expired)))"

text \<open>Draining one slot of the lower level.\<close>

definition drain_slot ::
  "('m, 'k, ('a, 'k) wheel_entry) slot_map_ops \<Rightarrow> nat \<Rightarrow> ('m, 'k) wheel \<times> 'a list \<Rightarrow> (('m, 'k) wheel \<times> 'a list) option" where
  "drain_slot sm i = (\<lambda>(w, expired).
     (case lv_slots (wh_l0 w) ! i of
        None \<Rightarrow> Some (w, expired)
      | Some head \<Rightarrow>
          map_option (\<lambda>(tasks, expired'). (w\<lparr>wh_tasks := tasks, wh_l0 := (wh_l0 w)\<lparr>lv_slots := (lv_slots (wh_l0 w))[i := None]\<rparr>\<rparr>, expired'))
            (drain_list sm (wh_tasks w) (Some head) expired)))"

fun drain_slots ::
  "('m, 'k, ('a, 'k) wheel_entry) slot_map_ops \<Rightarrow> nat list \<Rightarrow> ('m, 'k) wheel \<times> 'a list \<Rightarrow> (('m, 'k) wheel \<times> 'a list) option" where
  "drain_slots sm [] s = Some s"
| "drain_slots sm (i # is) s = (case drain_slot sm i s of None \<Rightarrow> None | Some s' \<Rightarrow> drain_slots sm is s')"

partial_function (option) cascade_list ::
  "('m, 'k, ('a, 'k) wheel_entry) slot_map_ops \<Rightarrow> 'k option \<Rightarrow> ('m, 'k) wheel \<Rightarrow> 'a list \<Rightarrow> (('m, 'k) wheel \<times> 'a list) option" where
  "cascade_list sm current w expired =
     (case current of
        None \<Rightarrow> Some (w, expired)
      | Some curr_key \<Rightarrow>
          (case sm_get sm curr_key (wh_tasks w) of
             None \<Rightarrow> None
           | Some e \<Rightarrow>
               if we_item e = None then
                 cascade_list sm (we_next e) (w\<lparr>wh_tasks := fst (sm_remove sm curr_key (wh_tasks w))\<rparr>) expired
               else if we_deadline e \<le> wh_global_tick w then
                 (case sm_remove sm curr_key (wh_tasks w) of
                    (tasks', removed) \<Rightarrow>
                      cascade_list sm (we_next e) (w\<lparr>wh_tasks := tasks'\<rparr>)
                        (case removed of
                           Some e' \<Rightarrow> (case we_item e' of Some item \<Rightarrow> expired @ [item] | None \<Rightarrow> expired)
                         | None \<Rightarrow> expired))
               else (case determine_location (we_deadline e) w of
                       None \<Rightarrow> None
                     | Some (lvl, i) \<Rightarrow> cascade_list sm (we_next e) (link sm curr_key lvl i w) expired)))"

text \<open>The cascade of the upper slot whose turn begins at the current tick, if one begins.\<close>

definition cascade_due ::
  "('m, 'k, ('a, 'k) wheel_entry) slot_map_ops \<Rightarrow> ('m, 'k) wheel \<Rightarrow> 'a list \<Rightarrow> (('m, 'k) wheel \<times> 'a list) option" where
  "cascade_due sm w expired =
     (if is_multiple_of (wh_global_tick w) (wh_l1_tick_ratio w) then
        let l1_tick = wh_global_tick w div wh_l1_tick_ratio w;
            l1_idx = l1_tick AND lv_mask (wh_l1 w)
        in (case lv_slots (wh_l1 w) ! l1_idx of
              None \<Rightarrow> Some (w, expired)
            | Some head \<Rightarrow>
                cascade_list sm (Some head) (w\<lparr>wh_l1 := (wh_l1 w)\<lparr>lv_slots := (lv_slots (wh_l1 w))[l1_idx := None]\<rparr>\<rparr>) expired)
      else Some (w, expired))"

text \<open>One round of the loop of \<^verbatim>\<open>advance\<close>: the lower slots up to the next cascade point, then
  the cascade of one upper slot if that point is reached.\<close>

definition advance_step ::
  "('m, 'k, ('a, 'k) wheel_entry) slot_map_ops \<Rightarrow> nat \<Rightarrow> ('m, 'k) wheel \<times> 'a list \<Rightarrow> (('m, 'k) wheel \<times> 'a list) option" where
  "advance_step sm step = (\<lambda>(w, expired).
     (case drain_slots sm
             (if wh_l0_capacity_ticks w \<le> step then [0..<length (lv_slots (wh_l0 w))]
              else map (\<lambda>i. as_u64 (wh_global_tick w + i) AND lv_mask (wh_l0 w)) [1..<step + 1]) (w, expired) of
        None \<Rightarrow> None
      | Some (w1, expired1) \<Rightarrow> cascade_due sm (w1\<lparr>wh_global_tick := as_u64 (wh_global_tick w1 + step)\<rparr>) expired1))"

function advance_loop ::
  "('m, 'k, ('a, 'k) wheel_entry) slot_map_ops \<Rightarrow> nat \<Rightarrow> ('m, 'k) wheel \<times> 'a list \<Rightarrow> (('m, 'k) wheel \<times> 'a list) option" where
  "advance_loop sm remaining s =
     (if remaining = 0 then Some s
      else let ratio = wh_l1_tick_ratio (fst s)
           in if ratio = 0 then None
              else let step = min remaining (ratio - wh_global_tick (fst s) mod ratio)
                   in case advance_step sm step s of
                        None \<Rightarrow> None
                      | Some s' \<Rightarrow> advance_loop sm (remaining - step) s')"
  by auto
termination
  by (relation "measure (\<lambda>(_, remaining, _). remaining)") auto

declare advance_loop.simps [simp del]

definition wheel_advance ::
  "('m, 'k, ('a, 'k) wheel_entry) slot_map_ops \<Rightarrow> duration \<Rightarrow> ('m, 'k) wheel \<Rightarrow> 'a list \<Rightarrow> (('m, 'k) wheel \<times> 'a list) option" where
  "wheel_advance sm elapsed w expired =
     (let ticks = delay_to_ticks elapsed w
      in if ticks = 0 then Some (w, expired) else advance_loop sm ticks (w, expired))"

definition tick_duration :: "('m, 'k) wheel \<Rightarrow> duration" where
  "tick_duration w = from_millis (wh_tick_duration_ms w)"

text \<open>The first offset whose slot is not empty.\<close>

definition first_nonempty :: "'k level \<Rightarrow> nat \<Rightarrow> nat option" where
  "first_nonempty lv start =
     find (\<lambda>i. lv_slots lv ! ((start + i) AND lv_mask lv) \<noteq> None) [0..<length (lv_slots lv)]"

definition next_timeout :: "('m, 'k, ('a, 'k) wheel_entry) slot_map_ops \<Rightarrow> ('m, 'k) wheel \<Rightarrow> duration option option" where
  "next_timeout sm w =
     (if sm_is_empty sm (wh_tasks w) then Some None
      else case first_nonempty (wh_l0 w) (wh_global_tick w AND lv_mask (wh_l0 w)) of
        Some i \<Rightarrow> Some (Some (from_millis (as_u64 (i * wh_tick_duration_ms w))))
      | None \<Rightarrow>
          if wh_l1_tick_ratio w = 0 then None
          else
            let l1_tick = wh_global_tick w div wh_l1_tick_ratio w;
                l1_start = l1_tick AND lv_mask (wh_l1 w)
            in (case first_nonempty (wh_l1 w) l1_start of
                  Some i \<Rightarrow>
                    let idx = (l1_start + i) AND lv_mask (wh_l1 w);
                        diff = wrapping_sub idx l1_tick AND lv_mask (wh_l1 w);
                        target0 = as_u64 (l1_tick + diff);
                        target = (if as_u64 (target0 * wh_l1_tick_ratio w) \<le> wh_global_tick w
                                  then as_u64 (target0 + length (lv_slots (wh_l1 w))) else target0);
                        delay_ticks = as_u64 (target * wh_l1_tick_ratio w) - wh_global_tick w
                    in Some (Some (from_millis (as_u64 (delay_ticks * wh_tick_duration_ms w))))
                | None \<Rightarrow> Some (Some (from_millis (as_u64 (wh_l0_capacity_ticks w * wh_tick_duration_ms w))))))"

end
