(* ===== verification/Uring_Driver.thy ===== *)
theory Uring_Driver
  imports Uring_Hooks Timer_Wheel
begin

text \<open>
  The io_uring driver (\<^verbatim>\<open>backend/uring/src/driver.rs\<close>, \<^verbatim>\<open>driver/submission.rs\<close>,
  \<^verbatim>\<open>driver/lifecycle.rs\<close>, \<^verbatim>\<open>driver/completion.rs\<close>): its state and its operations, composed of the registry,
  the completion flow with its hooks, the table of registered files, the registration of chunks and
  the timer wheel.

  The world outside the driver (the rings, the kernel behind them, the clock, the channel of remote
  cancel requests) is the state \<open>'r\<close>; the record \<open>ring_ops\<close> holds the calls the driver makes on it. An
  operation is a function to \<open>outcome\<close>: \<open>None\<close> is a panic, \<open>Inl\<close> an error report. Log output is left out.
\<close>

subsection \<open>The world outside\<close>

record 'r ring_ops =
  ro_build :: "u32 option \<Rightarrow> u32 \<Rightarrow> 'r \<Rightarrow> 'r \<times> (i32 option + unit)"
  ro_build_plain :: "u32 \<Rightarrow> 'r \<Rightarrow> 'r \<times> (i32 option + unit)"
  ro_register_buffers :: "nat \<Rightarrow> 'r \<Rightarrow> 'r \<times> (i32 option + unit)"
  ro_files :: "'r ring_files"
  ro_chunks :: "'r chunk_env"
  ro_push :: "u64 \<Rightarrow> sqe_body \<Rightarrow> 'r \<Rightarrow> 'r \<times> bool"
  ro_enter :: "u32 \<Rightarrow> 'r \<Rightarrow> 'r \<times> (i32 option + unit)"
  ro_setup_sqpoll :: bool
  ro_need_wakeup :: "'r \<Rightarrow> bool"
  ro_submit :: "'r \<Rightarrow> 'r \<times> (i32 option + unit)"
  ro_sq_len :: "'r \<Rightarrow> nat"
  ro_cq_is_empty :: "'r \<Rightarrow> bool"
  ro_submit_with_timeout :: "duration \<Rightarrow> 'r \<Rightarrow> 'r \<times> (i32 option + unit)"
  ro_submit_and_wait :: "'r \<Rightarrow> 'r \<times> (i32 option + unit)"
  ro_drain_completions :: "'r \<Rightarrow> 'r \<times> (u64 \<times> i32 \<times> u32) list"
  ro_eventfd :: "'r \<Rightarrow> 'r \<times> (i32 option + i32)"
  ro_write_eventfd :: "i32 \<Rightarrow> 'r \<Rightarrow> 'r \<times> (i32 option + unit)"
  ro_try_recv_cancel :: "'r \<Rightarrow> 'r \<times> cancel_request option"
  ro_async_cancel :: "u64 \<Rightarrow> sqe_body"
  ro_read_fixed_file :: "u32 \<Rightarrow> sqe_body"

text \<open>The parameters of the model: the world and the slot map under the timer wheel.\<close>

record ('r, 'm) uring_params =
  up_ring :: "'r ring_ops"
  up_slot_map :: "('m, nat, (op_token, nat) wheel_entry) slot_map_ops"

subsection \<open>The state\<close>

record ('k, 'p, 'r, 'm) uring_driver =
  dr_files :: "'r file_table"
  dr_ops :: "(('k, 'p) uring_op, 'p uring_payload, uring_report + usize, unit, uring_op_state) op_registry"
  dr_backlog :: "op_token list"
  dr_pending_cancellations :: "pending_cancel list"
  dr_pending_cancel_cqes :: "u16 \<rightharpoonup> pending_cancel"
  dr_next_cancel_id :: u16
  dr_diag :: uring_diag
  dr_waker_fd :: i32
  dr_closed_eventfds :: "i32 list"
  dr_waker_registered_fd :: "io_fd option"
  dr_waker_armed :: bool
  dr_waker_buf_len :: usize
  dr_registered_chunks :: bit_set
  dr_is_waked :: bool
  dr_wheel :: "('m, nat) wheel"
  dr_timer_buffer :: "op_token list"
  dr_last_timer_poll :: nat
  dr_registration_stats :: registration_stats
  dr_strict_registration :: bool
  dr_chunk_register_failures_recent :: "chunk_id \<rightharpoonup> nat"
  dr_dropped :: "nat list"

type_synonym ('k, 'p, 'r, 'm, 'a) driver_outcome = "(('k, 'p, 'r, 'm) uring_driver, uring_report, 'a) outcome"

text \<open>The ring lives in the driver; the part of the state that registers files carries it.\<close>

definition dr_world :: "('k, 'p, 'r, 'm) uring_driver \<Rightarrow> 'r" where
  "dr_world d = ft_ring (dr_files d)"

definition with_world :: "'r \<Rightarrow> ('k, 'p, 'r, 'm) uring_driver \<Rightarrow> ('k, 'p, 'r, 'm) uring_driver" where
  "with_world r d = d\<lparr>dr_files := (dr_files d)\<lparr>ft_ring := r\<rparr>\<rparr>"

definition chunks_of :: "('k, 'p, 'r, 'm) uring_driver \<Rightarrow> 'r chunk_state" where
  "chunks_of d = \<lparr>cs_world = dr_world d, cs_registered = dr_registered_chunks d,
     cs_failures_recent = dr_chunk_register_failures_recent d, cs_stats = dr_registration_stats d\<rparr>"

definition with_chunks :: "'r chunk_state \<Rightarrow> ('k, 'p, 'r, 'm) uring_driver \<Rightarrow> ('k, 'p, 'r, 'm) uring_driver" where
  "with_chunks s d = (with_world (cs_world s) d)\<lparr>dr_registered_chunks := cs_registered s,
     dr_chunk_register_failures_recent := cs_failures_recent s, dr_registration_stats := cs_stats s\<rparr>"

definition on_ops ::
  "((('k, 'p) uring_op, 'p uring_payload, uring_report + usize, unit, uring_op_state) op_registry
     \<Rightarrow> (('k, 'p) uring_op, 'p uring_payload, uring_report + usize, unit, uring_op_state) op_registry)
     \<Rightarrow> ('k, 'p, 'r, 'm) uring_driver \<Rightarrow> ('k, 'p, 'r, 'm) uring_driver" where
  "on_ops f d = d\<lparr>dr_ops := f (dr_ops d)\<rparr>"

text \<open>\<^verbatim>\<open>UringError::from_core_report\<close> and the errors of the completion flow.\<close>

definition from_core_report :: "core_error \<Rightarrow> uring_report" where
  "from_core_report e = plain_report UeInternal"

fun flow_report :: "uring_report flow_error \<Rightarrow> uring_report" where
  "flow_report (CoreError e) = from_core_report e"
| "flow_report (HookError e) = e"

definition slot_access_report :: "slot_access_error \<Rightarrow> uring_report" where
  "slot_access_report e = plain_report UeInvalidState"

definition checked_view ::
  "op_token \<Rightarrow> ('k, 'p, 'r, 'm) uring_driver \<Rightarrow> uring_report + checked_slot_view" where
  "checked_view t d = (case checked_slot_view t (dr_ops d) of Inl e \<Rightarrow> Inl (from_core_report e) | Inr v \<Rightarrow> Inr v)"

fun with_submission_state :: "uring_submission_state \<Rightarrow> uring_op_state \<Rightarrow> uring_op_state" where
  "with_submission_state s (UringOpState tid _) = UringOpState tid s"

definition set_platform :: "nat \<Rightarrow> (uring_op_state \<Rightarrow> uring_op_state) \<Rightarrow> ('k, 'p, 'r, 'm) uring_driver \<Rightarrow> ('k, 'p, 'r, 'm) uring_driver" where
  "set_platform i f d = on_ops (upd_local i (\<lambda>l. l\<lparr>ls_platform := f (ls_platform l)\<rparr>)) d"

definition platform_at :: "nat \<Rightarrow> ('k, 'p, 'r, 'm) uring_driver \<Rightarrow> uring_op_state" where
  "platform_at i d = ls_platform (locals (dr_ops d) ! i)"

subsection \<open>Pushing a submission entry\<close>

definition push_entry :: "('r, 'm) uring_params \<Rightarrow> u64 \<Rightarrow> sqe_body \<Rightarrow> ('k, 'p, 'r, 'm) uring_driver \<Rightarrow> ('k, 'p, 'r, 'm) uring_driver \<times> bool" where
  "push_entry P user_data body d =
     (let R = up_ring P
      in case ro_push R user_data body (dr_world d) of
           (r1, True) \<Rightarrow> (with_world r1 d, True)
         | (r1, False) \<Rightarrow>
             (case ro_enter R 0 r1 of
                (r2, _) \<Rightarrow> (case ro_push R user_data body r2 of (r3, ok) \<Rightarrow> (with_world r3 d, ok))))"

subsection \<open>Submitting from a slot\<close>

text \<open>The part that a first submission and the submission of a queued operation share: the chunks and
  the entry of the operation are computed, the chunks registered, the entry pushed, and the slot's
  submission state tells which way it went.\<close>

definition make_and_push ::
  "('r, 'm) uring_params \<Rightarrow> nat \<Rightarrow> op_token \<Rightarrow> ('k, 'p, 'r, 'm) uring_driver \<Rightarrow> ('k, 'p, 'r, 'm, bool) driver_outcome" where
  "make_and_push P i token d =
     (case with_op_and_payload i
             (\<lambda>op payload. case vt_resolve_chunks (uo_vtable op) (uo_payload op) payload of
                (chunks, n) \<Rightarrow>
                  (case vt_make_sqe (uo_vtable op) (uo_payload op) payload (ft_slots (dr_files d)) (dr_registered_chunks d) token of
                     (k, payload', sqe) \<Rightarrow> (op\<lparr>uo_payload := k\<rparr>, payload', take n chunks, sqe))) (dr_ops d) of
        (r, Inl err) \<Rightarrow> Some (d\<lparr>dr_ops := r\<rparr>, Inl (slot_access_report err))
      | (r, Inr (chunks, Inl e)) \<Rightarrow> Some (d\<lparr>dr_ops := r\<rparr>, Inl e)
      | (r, Inr (chunks, Inr body)) \<Rightarrow>
          let d1 = d\<lparr>dr_ops := r\<rparr>
          in case register_chunks (ro_chunks (up_ring P)) (dr_strict_registration d1) chunks (chunks_of d1) of
               None \<Rightarrow> None
             | Some (cs, Inl e) \<Rightarrow> Some (with_chunks cs d1, Inl e)
             | Some (cs, Inr _) \<Rightarrow>
                 (case push_entry P (token_user token) body (with_chunks cs d1) of
                    (d2, True) \<Rightarrow> Some (set_platform i (with_submission_state SubKernelSubmitted) d2, Inr True)
                  | (d2, False) \<Rightarrow> Some (set_platform i (with_submission_state SubQueued) d2, Inr False)))"

text \<open>The submission guard is dropped on every error, which takes the slot back to reserved, and
  persisted on success.\<close>

definition finish_submission ::
  "(('k, 'p) uring_op, 'p uring_payload, uring_report + usize, unit, uring_op_state) submission_guard
     \<Rightarrow> ('k, 'p, 'r, 'm, bool) driver_outcome \<Rightarrow> ('k, 'p, 'r, 'm, bool) driver_outcome" where
  "finish_submission guard out =
     (case out of
        None \<Rightarrow> None
      | Some (d, Inl e) \<Rightarrow> Some (on_ops (guard_on_drop guard) d, Inl e)
      | Some (d, Inr ok) \<Rightarrow> (case guard_persist guard (dr_ops d) of None \<Rightarrow> None | Some (r, _) \<Rightarrow> Some (d\<lparr>dr_ops := r\<rparr>, Inr ok)))"

definition start_timer ::
  "('r, 'm) uring_params \<Rightarrow> nat \<Rightarrow> op_token \<Rightarrow> ('k, 'p, 'r, 'm) uring_driver \<Rightarrow> ('k, 'p, 'r, 'm, bool) driver_outcome" where
  "start_timer P i token d =
     (case with_op_and_payload i (\<lambda>op payload. (op, payload, vt_get_timeout (uo_vtable op) (uo_payload op) payload)) (dr_ops d) of
        (r, Inl err) \<Rightarrow> Some (d\<lparr>dr_ops := r\<rparr>, Inl (slot_access_report err))
      | (r, Inr None) \<Rightarrow> Some (d\<lparr>dr_ops := r\<rparr>, Inl (report_of UeInvalidInput))
      | (r, Inr (Some duration)) \<Rightarrow>
          (case wheel_insert (up_slot_map P) token duration (dr_wheel d) of
             None \<Rightarrow> None
           | Some (w, task_id) \<Rightarrow>
               let d1 = d\<lparr>dr_ops := r, dr_wheel := w\<rparr>
               in Some (case active_slot_bundle token (dr_ops d1) of
                          None \<Rightarrow> d1
                        | Some j \<Rightarrow> set_platform j (\<lambda>_. UringOpState (Some task_id) SubTimer) d1, Inr True)))"

definition submit_from_slot_raw ::
  "('r, 'm) uring_params \<Rightarrow> op_token \<Rightarrow> nat \<Rightarrow> ('k, 'p, 'r, 'm) uring_driver \<Rightarrow> ('k, 'p, 'r, 'm, bool) driver_outcome" where
  "submit_from_slot_raw P token i d =
     (case start_submission_with i None (dr_ops d) of
        (r, Inl err) \<Rightarrow> Some (d\<lparr>dr_ops := r\<rparr>, Inl (slot_access_report err))
      | (r, Inr sub_guard) \<Rightarrow>
          let d1 = d\<lparr>dr_ops := r\<rparr>
          in case ls_op (locals r ! i) of
               None \<Rightarrow> finish_submission sub_guard (Some (d1, Inl (plain_report UeInvalidState)))
             | Some op \<Rightarrow>
                 finish_submission sub_guard
                   (case vt_strategy (uo_vtable op) of
                      SubmitSqe \<Rightarrow> make_and_push P i token d1
                    | SoftwareTimer \<Rightarrow> start_timer P i token d1))"

definition submit_from_slot_token ::
  "('r, 'm) uring_params \<Rightarrow> op_token \<Rightarrow> ('k, 'p, 'r, 'm) uring_driver \<Rightarrow> ('k, 'p, 'r, 'm, bool) driver_outcome" where
  "submit_from_slot_token P token d =
     (case checked_view token d of
        Inl e \<Rightarrow> Some (d, Inl e)
      | Inr (CheckedValid (ViewReserved i)) \<Rightarrow> submit_from_slot_raw P token i d
      | Inr _ \<Rightarrow> Some (d, Inl (report_of UeInvalidState)))"

definition submit_queued_from_slot_raw ::
  "('r, 'm) uring_params \<Rightarrow> op_token \<Rightarrow> nat \<Rightarrow> ('k, 'p, 'r, 'm) uring_driver \<Rightarrow> ('k, 'p, 'r, 'm, bool) driver_outcome" where
  "submit_queued_from_slot_raw P token i d =
     (if us_submission_state (platform_at i d) \<noteq> SubQueued then Some (d, Inr True)
      else case ls_op (locals (dr_ops d) ! i) of
             None \<Rightarrow> Some (d, Inl (plain_report UeInvalidState))
           | Some op \<Rightarrow>
               if vt_strategy (uo_vtable op) \<noteq> SubmitSqe then Some (d, Inl (plain_report UeInvalidState))
               else make_and_push P i token d)"

subsection \<open>Submitting an operation\<close>

datatype submit_status = StatusInFlight | StatusVoid

datatype driver_submit_result = Submitted "unit poll" | SubmitFailed uring_report submit_status

definition push_backlog :: "op_token \<Rightarrow> ('k, 'p, 'r, 'm) uring_driver \<Rightarrow> ('k, 'p, 'r, 'm) uring_driver" where
  "push_backlog token d = d\<lparr>dr_backlog := dr_backlog d @ [token]\<rparr>"

text \<open>The result is the driver, what is left in the caller's \<^verbatim>\<open>op_in\<close> and the answer. The view of a
  reserved slot that already holds an operation replaces it.\<close>

definition submit_sqe_internal ::
  "('r, 'm) uring_params \<Rightarrow> op_token \<Rightarrow> ('k, 'p) uring_op \<Rightarrow> ('k, 'p, 'r, 'm) uring_driver
     \<Rightarrow> (('k, 'p, 'r, 'm) uring_driver \<times> ('k, 'p) uring_op option \<times> driver_submit_result) option" where
  "submit_sqe_internal P token op d =
     (case checked_view token d of
        Inl e \<Rightarrow> Some (d, None, SubmitFailed e StatusVoid)
      | Inr (CheckedValid (ViewReserved i)) \<Rightarrow>
          (case (if ls_op (locals (dr_ops d) ! i) \<noteq> None then (upd_local i (\<lambda>l. l\<lparr>ls_op := Some op\<rparr>) (dr_ops d), Inr i)
                 else init_op_with i op (\<lambda>s. s) (dr_ops d)) of
             (r, Inl err) \<Rightarrow> Some (d\<lparr>dr_ops := r\<rparr>, None, SubmitFailed (slot_access_report err) StatusVoid)
           | (r, Inr j) \<Rightarrow>
               (case submit_from_slot_raw P token j (d\<lparr>dr_ops := r\<rparr>) of
                  None \<Rightarrow> None
                | Some (d1, Inr True) \<Rightarrow> Some (d1, None, Submitted (Ready ()))
                | Some (d1, Inr False) \<Rightarrow> Some (push_backlog token d1, None, Submitted Pending)
                | Some (d1, Inl e) \<Rightarrow>
                    (case active_slot_bundle token (dr_ops d1) of
                       None \<Rightarrow> Some (d1, None, SubmitFailed e StatusVoid)
                     | Some n \<Rightarrow> Some (on_ops (upd_local n (\<lambda>l. l\<lparr>ls_op := None\<rparr>)) d1,
                                      ls_op (locals (dr_ops d1) ! n), SubmitFailed e StatusVoid))))
      | Inr _ \<Rightarrow> Some (d, None, SubmitFailed (report_of UeInvalidState) StatusVoid))"

text \<open>\<^verbatim>\<open>submit_timer_internal\<close> repeats the body of \<^verbatim>\<open>submit_sqe_internal\<close> with other log messages.\<close>

definition submit_timer_internal ::
  "('r, 'm) uring_params \<Rightarrow> op_token \<Rightarrow> ('k, 'p) uring_op \<Rightarrow> ('k, 'p, 'r, 'm) uring_driver
     \<Rightarrow> (('k, 'p, 'r, 'm) uring_driver \<times> ('k, 'p) uring_op option \<times> driver_submit_result) option" where
  "submit_timer_internal = submit_sqe_internal"

definition submit_op_raw ::
  "('r, 'm) uring_params \<Rightarrow> op_token \<Rightarrow> ('k, 'p) uring_op option \<Rightarrow> ('k, 'p, 'r, 'm) uring_driver
     \<Rightarrow> (('k, 'p, 'r, 'm) uring_driver \<times> ('k, 'p) uring_op option \<times> driver_submit_result) option" where
  "submit_op_raw P token op_in d =
     (case op_in of
        None \<Rightarrow> Some (d, None, SubmitFailed (report_of UeInvalidState) StatusVoid)
      | Some op \<Rightarrow>
          (case vt_strategy (uo_vtable op) of
             SubmitSqe \<Rightarrow> submit_sqe_internal P token op d
           | SoftwareTimer \<Rightarrow> submit_timer_internal P token op d))"

end
