(* ===== verification/Uring_Lifecycle.thy ===== *)
theory Uring_Lifecycle
  imports Uring_Driver
begin

text \<open>
  Cancelling operations, the backlog and the effects of a completion
  (\<^verbatim>\<open>backend/uring/src/driver/lifecycle.rs\<close>, the driver's half of \<^verbatim>\<open>driver/completion.rs\<close>,
  \<^verbatim>\<open>submit_waker\<close> of \<^verbatim>\<open>driver/submission.rs\<close> and \<^verbatim>\<open>rebuild_waker_fd\<close> of \<^verbatim>\<open>driver.rs\<close>).

  Accepting a completion may flush the backlog, and flushing the backlog accepts completions that the
  driver makes up itself. The operations of the backlog take the function that accepts a completion as
  the argument \<open>acc\<close>; \<open>accept_ingress n\<close> ties the knot for at most \<open>n\<close> nested acceptances and is \<open>None\<close>
  when they are exhausted.
\<close>

type_synonym ('k, 'p, 'r, 'm) acceptor =
  "unit completion_ingress \<Rightarrow> uring_synthetic \<Rightarrow> ('k, 'p, 'r, 'm) uring_driver
     \<Rightarrow> ('k, 'p, 'r, 'm, flow_outcome) driver_outcome"

subsection \<open>Cancel requests to the kernel\<close>

fun cancel_id_scan :: "nat \<Rightarrow> (u16 \<rightharpoonup> pending_cancel) \<Rightarrow> u16 \<Rightarrow> u16 \<times> u16 option" where
  "cancel_id_scan 0 pending next = (next, None)"
| "cancel_id_scan (Suc n) pending next =
     (let next' = (if next + 1 = 0 then 1 else next + 1)
      in if pending next = None then (next', Some next) else cancel_id_scan n pending next')"

definition next_cancel_completion_id ::
  "('k, 'p, 'r, 'm) uring_driver \<Rightarrow> ('k, 'p, 'r, 'm) uring_driver \<times> u16 option" where
  "next_cancel_completion_id d =
     (case cancel_id_scan 65535 (dr_pending_cancel_cqes d) (dr_next_cancel_id d) of
        (next, res) \<Rightarrow> (d\<lparr>dr_next_cancel_id := next\<rparr>, res))"

definition pending_cancel_new :: "cancel_request \<Rightarrow> pending_cancel" where
  "pending_cancel_new request = \<lparr>pc_target = cq_target request, pc_mode = cq_mode request\<rparr>"

definition on_diag :: "(uring_diag \<Rightarrow> uring_diag) \<Rightarrow> ('k, 'p, 'r, 'm) uring_driver \<Rightarrow> ('k, 'p, 'r, 'm) uring_driver" where
  "on_diag f d = d\<lparr>dr_diag := f (dr_diag d)\<rparr>"

definition try_submit_cancel_request ::
  "('r, 'm) uring_params \<Rightarrow> pending_cancel \<Rightarrow> ('k, 'p, 'r, 'm) uring_driver
     \<Rightarrow> ('k, 'p, 'r, 'm) uring_driver \<times> u16 option" where
  "try_submit_cancel_request P request d =
     (case next_cancel_completion_id d of
        (d1, None) \<Rightarrow> (d1, None)
      | (d1, Some cancel_id) \<Rightarrow>
          (case push_entry P (token_cancel cancel_id) (ro_async_cancel (up_ring P) (token_user (pc_target request))) d1 of
             (d2, True) \<Rightarrow>
               (on_diag (\<lambda>g. g\<lparr>ud_cancel_submitted := ud_cancel_submitted g + 1\<rparr>)
                  (d2\<lparr>dr_pending_cancel_cqes := (dr_pending_cancel_cqes d2)(cancel_id \<mapsto> request)\<rparr>), Some cancel_id)
           | (d2, False) \<Rightarrow> (d2, None)))"

definition submit_cancel_request ::
  "('r, 'm) uring_params \<Rightarrow> pending_cancel \<Rightarrow> ('k, 'p, 'r, 'm) uring_driver
     \<Rightarrow> ('k, 'p, 'r, 'm) uring_driver \<times> cancel_submit_outcome" where
  "submit_cancel_request P request d =
     (case try_submit_cancel_request P request d of
        (d1, Some _) \<Rightarrow> (d1, CancelSubmitted)
      | (d1, None) \<Rightarrow>
          (on_diag (\<lambda>g. g\<lparr>ud_cancel_queued := ud_cancel_queued g + 1\<rparr>)
             (d1\<lparr>dr_pending_cancellations := dr_pending_cancellations d1 @ [request]\<rparr>), CancelQueued))"

definition record_cancel_target_gone ::
  "cancel_target_gone_reason \<Rightarrow> ('k, 'p, 'r, 'm) uring_driver \<Rightarrow> ('k, 'p, 'r, 'm) uring_driver" where
  "record_cancel_target_gone reason d =
     on_diag (\<lambda>g. case reason of
        TargetMissing \<Rightarrow> g\<lparr>ud_cancel_target_missing := ud_cancel_target_missing g + 1\<rparr>
      | TargetStale \<Rightarrow> g\<lparr>ud_cancel_target_stale := ud_cancel_target_stale g + 1\<rparr>
      | TargetCorrupt \<Rightarrow> g\<lparr>ud_cancel_target_corrupt := ud_cancel_target_corrupt g + 1\<rparr>) d"

subsection \<open>Completions the driver makes up\<close>

definition accept_synthetic_completion ::
  "('k, 'p, 'r, 'm) acceptor \<Rightarrow> user_completion_event \<Rightarrow> synthetic_source \<Rightarrow> uring_synthetic
     \<Rightarrow> ('k, 'p, 'r, 'm) uring_driver \<Rightarrow> ('k, 'p, 'r, 'm, flow_outcome) driver_outcome" where
  "accept_synthetic_completion acc event source synthetic d = acc (IngressSynthetic event source) synthetic d"

definition accept_completion_anomaly_kind ::
  "('k, 'p, 'r, 'm) acceptor \<Rightarrow> completion_anomaly_kind \<Rightarrow> anomaly_attach
     \<Rightarrow> ('k, 'p, 'r, 'm) uring_driver \<Rightarrow> ('k, 'p, 'r, 'm, flow_outcome) driver_outcome" where
  "accept_completion_anomaly_kind acc kind att d = acc (IngressAnomaly kind att) SyntheticNone d"

text \<open>\<^verbatim>\<open>ECANCELED\<close> is 125.\<close>

definition complete_local_cancel ::
  "('k, 'p, 'r, 'm) acceptor \<Rightarrow> op_token \<Rightarrow> cancel_mode
     \<Rightarrow> ('k, 'p, 'r, 'm) uring_driver \<Rightarrow> ('k, 'p, 'r, 'm, unit) driver_outcome" where
  "complete_local_cancel acc token mode d =
     try_then (accept_synthetic_completion acc (user_event_from_parts COMP_BACKEND_URING token (- 125) 0) SynCancel
                 (SyntheticCancel mode) (on_diag (\<lambda>g. g\<lparr>ud_cancel_local_completed := ud_cancel_local_completed g + 1\<rparr>) d))
       (\<lambda>_ d1. Some (d1, Inr ()))"

text \<open>The answer of the driver to its own completion is ignored; a panic is not.\<close>

definition ignore_result :: "('s, 'e, 'a) outcome \<Rightarrow> ('s, 'e, unit) outcome" where
  "ignore_result out = map_option (\<lambda>(s, _). (s, Inr ())) out"

definition complete_queued_submission_error ::
  "('k, 'p, 'r, 'm) acceptor \<Rightarrow> op_token \<Rightarrow> uring_report
     \<Rightarrow> ('k, 'p, 'r, 'm) uring_driver \<Rightarrow> ('k, 'p, 'r, 'm, unit) driver_outcome" where
  "complete_queued_submission_error acc token report d =
     ignore_result (accept_synthetic_completion acc
       (user_event_from_parts COMP_BACKEND_URING token (uring_report_to_event_res report) 0) SynSubmissionFailure
       (SyntheticSubmissionFailure (Some report)) d)"

subsection \<open>Cancelling an operation\<close>

definition pop_backlog :: "('k, 'p, 'r, 'm) uring_driver \<Rightarrow> ('k, 'p, 'r, 'm) uring_driver" where
  "pop_backlog d = d\<lparr>dr_backlog := tl (dr_backlog d)\<rparr>"

definition remove_backlog_token :: "op_token \<Rightarrow> ('k, 'p, 'r, 'm) uring_driver \<Rightarrow> ('k, 'p, 'r, 'm) uring_driver" where
  "remove_backlog_token token d = d\<lparr>dr_backlog := remove1 token (dr_backlog d)\<rparr>"

definition complete_locally ::
  "('k, 'p, 'r, 'm) acceptor \<Rightarrow> op_token \<Rightarrow> cancel_mode
     \<Rightarrow> ('k, 'p, 'r, 'm) uring_driver \<Rightarrow> ('k, 'p, 'r, 'm, cancel_submit_outcome) driver_outcome" where
  "complete_locally acc token mode d =
     try_then (complete_local_cancel acc token mode d) (\<lambda>_ d1. Some (d1, Inr CancelCompletedLocally))"

text \<open>A reserved slot is completed locally when it holds an operation, and removed otherwise.\<close>

definition cancel_reserved ::
  "('k, 'p, 'r, 'm) acceptor \<Rightarrow> op_token \<Rightarrow> cancel_mode \<Rightarrow> nat
     \<Rightarrow> ('k, 'p, 'r, 'm) uring_driver \<Rightarrow> ('k, 'p, 'r, 'm, cancel_submit_outcome) driver_outcome" where
  "cancel_reserved acc token mode i d =
     (let removed = \<lambda>d. (case remove token (dr_ops d) of
                           None \<Rightarrow> None | Some (r, _) \<Rightarrow> Some (d\<lparr>dr_ops := r\<rparr>, Inr CancelCompletedLocally))
      in if ls_op (locals (dr_ops d) ! i) \<noteq> None
         then (case start_submission_with i None (dr_ops d) of
                 (r, Inl _) \<Rightarrow> removed (d\<lparr>dr_ops := r\<rparr>)
               | (r, Inr guard) \<Rightarrow>
                   (case guard_persist guard r of
                      None \<Rightarrow> None
                    | Some (r1, _) \<Rightarrow> complete_locally acc token mode (d\<lparr>dr_ops := r1\<rparr>)))
         else removed d)"

text \<open>An operation in flight that is still queued or runs on a timer is completed locally; any other
  is cancelled in the kernel after \<open>before\<close>.\<close>

definition cancel_in_flight ::
  "('k, 'p, 'r, 'm) acceptor \<Rightarrow> ('r, 'm) uring_params \<Rightarrow> pending_cancel \<Rightarrow> cancel_mode \<Rightarrow> nat
     \<Rightarrow> (('k, 'p, 'r, 'm) uring_driver \<Rightarrow> ('k, 'p, 'r, 'm) uring_driver)
     \<Rightarrow> ('k, 'p, 'r, 'm) uring_driver \<Rightarrow> ('k, 'p, 'r, 'm, cancel_submit_outcome) driver_outcome" where
  "cancel_in_flight acc P request local_mode i before d =
     (let token = pc_target request
      in if us_submission_state (platform_at i d) = SubQueued
         then complete_locally acc token local_mode (remove_backlog_token token d)
         else let d1 = set_platform i clear_timer_id d
              in case us_timer_id (platform_at i d) of
                   Some tid \<Rightarrow>
                     complete_locally acc token local_mode (d1\<lparr>dr_wheel := fst (wheel_cancel (up_slot_map P) tid (dr_wheel d1))\<rparr>)
                 | None \<Rightarrow> (case submit_cancel_request P request (before d1) of (d2, out) \<Rightarrow> Some (d2, Inr out)))"

text \<open>A request whose operation is gone is counted and recorded as an anomaly.\<close>

definition cancel_gone ::
  "('k, 'p, 'r, 'm) acceptor \<Rightarrow> op_token \<Rightarrow> checked_slot_view
     \<Rightarrow> ('k, 'p, 'r, 'm) uring_driver \<Rightarrow> cancel_target_gone_reason \<times> ('k, 'p, 'r, 'm, flow_outcome) driver_outcome" where
  "cancel_gone acc token view d =
     (case cancel_target_kind token view (dr_ops d) of
        (reason, kind) \<Rightarrow>
          (reason, accept_completion_anomaly_kind acc kind (attach_from_op_token token) (record_cancel_target_gone reason d)))"

definition cancel_op_internal ::
  "('k, 'p, 'r, 'm) acceptor \<Rightarrow> ('r, 'm) uring_params \<Rightarrow> cancel_request
     \<Rightarrow> ('k, 'p, 'r, 'm) uring_driver \<Rightarrow> ('k, 'p, 'r, 'm, cancel_submit_outcome) driver_outcome" where
  "cancel_op_internal acc P creq d =
     (let request = pending_cancel_new creq; token = pc_target request
      in case checked_view token d of
           Inl e \<Rightarrow> Some (d, Inl e)
         | Inr (CheckedValid (ViewReserved i)) \<Rightarrow> cancel_reserved acc token (pc_mode request) i d
         | Inr (CheckedValid (ViewWaiting i)) \<Rightarrow>
             cancel_in_flight acc P request (pc_mode request) i
               (\<lambda>d1. if pc_mode request = Abandon then on_ops (slot_cancel i) d1 else d1) d
         | Inr (CheckedValid (ViewOrphaned i)) \<Rightarrow> cancel_in_flight acc P request Abandon i (\<lambda>d1. d1) d
         | Inr view \<Rightarrow>
             (case cancel_gone acc token view d of
                (reason, out) \<Rightarrow>
                  try_then (ignore_result out) (\<lambda>_ d1. Some (d1, Inr (CancelTargetGone reason)))))"

text \<open>Requests that found the submission queue full wait in a queue of their own; a round sends at
  most as many as were waiting when it began.\<close>

partial_function (option) flush_cancellations_loop ::
  "('k, 'p, 'r, 'm) acceptor \<Rightarrow> ('r, 'm) uring_params \<Rightarrow> nat \<Rightarrow> nat
     \<Rightarrow> ('k, 'p, 'r, 'm) uring_driver \<Rightarrow> ('k, 'p, 'r, 'm, unit) driver_outcome" where
  "flush_cancellations_loop acc P submitted_count limit d =
     (if limit \<le> submitted_count then Some (d, Inr ())
      else case dr_pending_cancellations d of
             [] \<Rightarrow> Some (d, Inr ())
           | request # rest \<Rightarrow>
               (case checked_view (pc_target request) d of
                  Inl e \<Rightarrow> Some (d, Inl e)
                | Inr (CheckedValid _) \<Rightarrow>
                    (case try_submit_cancel_request P request d of
                       (d1, Some _) \<Rightarrow>
                         flush_cancellations_loop acc P (submitted_count + 1) limit
                           (d1\<lparr>dr_pending_cancellations := tl (dr_pending_cancellations d1)\<rparr>)
                     | (d1, None) \<Rightarrow> Some (d1, Inr ()))
                | Inr view \<Rightarrow>
                    try_then (snd (cancel_gone acc (pc_target request) view (d\<lparr>dr_pending_cancellations := rest\<rparr>)))
                      (\<lambda>_ d1. flush_cancellations_loop acc P submitted_count limit d1)))"

definition flush_cancellations ::
  "('k, 'p, 'r, 'm) acceptor \<Rightarrow> ('r, 'm) uring_params
     \<Rightarrow> ('k, 'p, 'r, 'm) uring_driver \<Rightarrow> ('k, 'p, 'r, 'm, unit) driver_outcome" where
  "flush_cancellations acc P d = flush_cancellations_loop acc P 0 (length (dr_pending_cancellations d)) d"

subsection \<open>The backlog\<close>

datatype backlog_action = SubmitReserved | SubmitQueuedOp | CancelQueuedOp | CancelKernelOp | DropEntry

definition backlog_action_of :: "checked_slot_view \<Rightarrow> ('k, 'p, 'r, 'm) uring_driver \<Rightarrow> backlog_action" where
  "backlog_action_of view d =
     (case view of
        CheckedValid (ViewOrphaned i) \<Rightarrow>
          if us_submission_state (platform_at i d) = SubQueued then CancelQueuedOp else CancelKernelOp
      | CheckedValid (ViewReserved i) \<Rightarrow>
          if snap_has_op (snapshot_at i (dr_ops d)) then SubmitReserved else DropEntry
      | CheckedValid (ViewWaiting i) \<Rightarrow>
          if us_submission_state (platform_at i d) = SubQueued then SubmitQueuedOp else DropEntry
      | _ \<Rightarrow> DropEntry)"

text \<open>One round for the front entry; the answer tells whether to go on.\<close>

definition flush_backlog_round ::
  "('k, 'p, 'r, 'm) acceptor \<Rightarrow> ('r, 'm) uring_params \<Rightarrow> op_token
     \<Rightarrow> ('k, 'p, 'r, 'm) uring_driver \<Rightarrow> ('k, 'p, 'r, 'm, bool) driver_outcome" where
  "flush_backlog_round acc P token d =
     (case checked_view token d of
        Inl e \<Rightarrow> Some (d, Inl e)
      | Inr view \<Rightarrow>
          (case backlog_action_of view d of
             CancelQueuedOp \<Rightarrow>
               try_then (complete_local_cancel acc token Abandon (pop_backlog d)) (\<lambda>_ d1. Some (d1, Inr True))
           | CancelKernelOp \<Rightarrow>
               try_then (cancel_op_internal acc P (cancel_abandon token) (pop_backlog d)) (\<lambda>_ d1. Some (d1, Inr True))
           | DropEntry \<Rightarrow> Some (pop_backlog d, Inr True)
           | SubmitReserved \<Rightarrow>
               (case submit_from_slot_token P token d of
                  None \<Rightarrow> None
                | Some (d1, Inr True) \<Rightarrow> Some (pop_backlog d1, Inr True)
                | Some (d1, Inr False) \<Rightarrow> Some (d1, Inr False)
                | Some (d1, Inl _) \<Rightarrow> Some (pop_backlog d1, Inr True))
           | SubmitQueuedOp \<Rightarrow>
               (case checked_view token d of
                  Inl e \<Rightarrow> Some (d, Inl e)
                | Inr view \<Rightarrow>
                    (case (case view of
                             CheckedValid (ViewWaiting i) \<Rightarrow> submit_queued_from_slot_raw P token i d
                           | _ \<Rightarrow> Some (d, Inr True)) of
                       None \<Rightarrow> None
                     | Some (d1, Inr True) \<Rightarrow> Some (pop_backlog d1, Inr True)
                     | Some (d1, Inr False) \<Rightarrow> Some (d1, Inr False)
                     | Some (d1, Inl report) \<Rightarrow>
                         try_then (complete_queued_submission_error acc token report (pop_backlog d1))
                           (\<lambda>_ d2. Some (d2, Inr True))))))"

partial_function (option) flush_loop ::
  "(op_token \<Rightarrow> ('k, 'p, 'r, 'm) uring_driver \<Rightarrow> ('k, 'p, 'r, 'm, bool) driver_outcome)
     \<Rightarrow> ('k, 'p, 'r, 'm) uring_driver \<Rightarrow> ('k, 'p, 'r, 'm, unit) driver_outcome" where
  "flush_loop round d =
     (case dr_backlog d of
        [] \<Rightarrow> Some (d, Inr ())
      | token # _ \<Rightarrow>
          try_then (round token d) (\<lambda>go_on d1. if go_on then flush_loop round d1 else Some (d1, Inr ())))"

definition flush_backlog ::
  "('k, 'p, 'r, 'm) acceptor \<Rightarrow> ('r, 'm) uring_params
     \<Rightarrow> ('k, 'p, 'r, 'm) uring_driver \<Rightarrow> ('k, 'p, 'r, 'm, unit) driver_outcome" where
  "flush_backlog acc P d = flush_loop (flush_backlog_round acc P) d"

end
