(* ===== verification/Uring_Poll.thy ===== *)
theory Uring_Poll
  imports Uring_Lifecycle
begin

text \<open>
  The driver's side of a completion, the waker, and the operations of the trait \<^verbatim>\<open>Driver\<close>
  (\<^verbatim>\<open>backend/uring/src/driver.rs\<close>, \<^verbatim>\<open>driver/completion.rs\<close>, the end of \<^verbatim>\<open>driver/submission.rs\<close>, and
  \<^verbatim>\<open>drain_cancel_requests\<close> of \<^verbatim>\<open>driver/core/src/driver.rs\<close>).
\<close>

subsection \<open>The waker\<close>

definition on_files ::
  "('r file_table \<Rightarrow> 'r file_table \<times> (uring_report + 'a))
     \<Rightarrow> ('k, 'p, 'r, 'm) uring_driver \<Rightarrow> ('k, 'p, 'r, 'm, 'a) driver_outcome" where
  "on_files f d = (case f (dr_files d) of (ft, res) \<Rightarrow> Some (d\<lparr>dr_files := ft\<rparr>, res))"

definition register_files_driver ::
  "('r, 'm) uring_params \<Rightarrow> register_fd list
     \<Rightarrow> ('k, 'p, 'r, 'm) uring_driver \<Rightarrow> ('k, 'p, 'r, 'm, io_fd list) driver_outcome" where
  "register_files_driver P files d =
     (case register_files_internal (ro_files (up_ring P)) (length (locals (dr_ops d))) files (dr_files d) of
        None \<Rightarrow> None
      | Some (ft, res) \<Rightarrow> Some (d\<lparr>dr_files := ft\<rparr>, res))"

definition waker_fixed_fd ::
  "('r, 'm) uring_params \<Rightarrow> ('k, 'p, 'r, 'm) uring_driver \<Rightarrow> ('k, 'p, 'r, 'm, io_fd) driver_outcome" where
  "waker_fixed_fd P d =
     (case dr_waker_registered_fd d of
        Some fd \<Rightarrow> Some (d, Inr fd)
      | None \<Rightarrow>
          try_then (register_files_driver P [RegisterBorrowed (RawFile (dr_waker_fd d))] d)
            (\<lambda>fds d1. if fds = [] then Some (d1, Inl (report_of UeInvalidState))
                      else Some (d1\<lparr>dr_waker_registered_fd := Some (last fds)\<rparr>, Inr (last fds))))"

definition submit_waker ::
  "('r, 'm) uring_params \<Rightarrow> ('k, 'p, 'r, 'm) uring_driver \<Rightarrow> ('k, 'p, 'r, 'm, unit) driver_outcome" where
  "submit_waker P d =
     (if dr_waker_armed d then Some (d, Inr ())
      else try_then (waker_fixed_fd P d)
             (\<lambda>fixed_fd d1.
                case push_entry P (token_waker 0) (ro_read_fixed_file (up_ring P) (fd_fixed_index fixed_fd)) d1 of
                  (d2, True) \<Rightarrow> Some (d2\<lparr>dr_waker_armed := True\<rparr>, Inr ())
                | (d2, False) \<Rightarrow> Some (d2, Inl (report_of UeSubmission))))"

definition create_event_fd ::
  "('r, 'm) uring_params \<Rightarrow> ('k, 'p, 'r, 'm) uring_driver \<Rightarrow> ('k, 'p, 'r, 'm, i32) driver_outcome" where
  "create_event_fd P d =
     (case ro_eventfd (up_ring P) (dr_world d) of
        (r, Inl e) \<Rightarrow> Some (with_world r d, Inl (io_report UeDriverInit e))
      | (r, Inr fd) \<Rightarrow> Some (with_world r d, Inr fd))"

definition close_event_fd :: "i32 \<Rightarrow> ('k, 'p, 'r, 'm) uring_driver \<Rightarrow> ('k, 'p, 'r, 'm) uring_driver" where
  "close_event_fd fd d = d\<lparr>dr_closed_eventfds := dr_closed_eventfds d @ raw_close (RawFile fd)\<rparr>"

text \<open>The new descriptor is closed again when the registration cannot be moved to it; otherwise the old
  one is closed, as no other owner holds it between two calls of \<^verbatim>\<open>wake\<close>.\<close>

definition rebuild_waker_fd ::
  "('r, 'm) uring_params \<Rightarrow> ('k, 'p, 'r, 'm) uring_driver \<Rightarrow> ('k, 'p, 'r, 'm, unit) driver_outcome" where
  "rebuild_waker_fd P d =
     try_then (create_event_fd P d)
       (\<lambda>new_fd d1.
          case (case dr_waker_registered_fd d1 of
                  None \<Rightarrow> Some (d1, Inr ())
                | Some fixed_fd \<Rightarrow> on_files (replace_registered_fixed_fd (ro_files (up_ring P)) fixed_fd (RawFile new_fd)) d1) of
            None \<Rightarrow> None
          | Some (d2, Inl e) \<Rightarrow> Some (close_event_fd new_fd d2, Inl e)
          | Some (d2, Inr _) \<Rightarrow> Some (close_event_fd (dr_waker_fd d2) (d2\<lparr>dr_waker_fd := new_fd\<rparr>), Inr ()))"

text \<open>\<^verbatim>\<open>UringWaker::wake\<close>, on the part of the state that the waker shares with the driver; \<^verbatim>\<open>EAGAIN\<close> is 11,
  \<^verbatim>\<open>EIO\<close> is 5.\<close>

definition remote_wake ::
  "('r, 'm) uring_params \<Rightarrow> ('k, 'p, 'r, 'm) uring_driver \<Rightarrow> ('k, 'p, 'r, 'm, unit) driver_outcome" where
  "remote_wake P d =
     (if dr_is_waked d then Some (d, Inr ())
      else case ro_write_eventfd (up_ring P) (dr_waker_fd d) (dr_world d) of
             (r, Inr _) \<Rightarrow> Some ((with_world r d)\<lparr>dr_is_waked := True\<rparr>, Inr ())
           | (r, Inl e) \<Rightarrow>
               Some ((with_world r d)\<lparr>dr_is_waked := True\<rparr>,
                     if e = Some 11 then Inr ()
                     else Inl \<lparr>ur_inner = UeInternal, ur_error_code = Some (sint (case e of Some c \<Rightarrow> c | None \<Rightarrow> 5))\<rparr>))"

subsection \<open>The effects of a completion\<close>

definition record_cancel_enoent_if_target_active ::
  "u16 \<times> pending_cancel \<times> raw_completion
     \<Rightarrow> ('k, 'p, 'r, 'm) uring_driver \<Rightarrow> ('k, 'p, 'r, 'm, unit) driver_outcome" where
  "record_cancel_enoent_if_target_active = (\<lambda>(cancel_id, request, raw) d.
     case checked_view (pc_target request) d of
       Inl e \<Rightarrow> Some (d, Inl e)
     | Inr view \<Rightarrow>
         if (case view of CheckedValid (ViewWaiting _) \<Rightarrow> True | CheckedValid (ViewOrphaned _) \<Rightarrow> True | _ \<Rightarrow> False)
         then Some (on_diag (\<lambda>g. g\<lparr>ud_cancel_ack_enoent_active := ud_cancel_ack_enoent_active g + 1\<rparr>) d,
                    Inl (report_of UeInvalidState))
         else Some (d, Inr ()))"

definition count_waker_rebuild :: "('k, 'p, 'r, 'm) uring_driver \<Rightarrow> ('k, 'p, 'r, 'm) uring_driver" where
  "count_waker_rebuild d = on_diag (\<lambda>g. g\<lparr>ud_waker_rebuild := ud_waker_rebuild g + 1\<rparr>) d"

definition resubmit_waker ::
  "('r, 'm) uring_params \<Rightarrow> ('k, 'p, 'r, 'm) uring_driver \<Rightarrow> ('k, 'p, 'r, 'm, unit) driver_outcome" where
  "resubmit_waker P d =
     (case submit_waker P d of
        None \<Rightarrow> None
      | Some (d1, Inl e) \<Rightarrow> Some (count_waker_rebuild d1, Inl e)
      | Some (d1, Inr u) \<Rightarrow> Some (d1, Inr u))"

text \<open>\<open>flush\<close> is the flushing of the backlog.\<close>

definition apply_post_completion_effects ::
  "(('k, 'p, 'r, 'm) uring_driver \<Rightarrow> ('k, 'p, 'r, 'm, unit) driver_outcome) \<Rightarrow> ('r, 'm) uring_params \<Rightarrow> post_effects
     \<Rightarrow> ('k, 'p, 'r, 'm) uring_driver \<Rightarrow> ('k, 'p, 'r, 'm, unit) driver_outcome" where
  "apply_post_completion_effects flush P post d =
     try_then (try_each record_cancel_enoent_if_target_active (pe_cancel_enoent post) d) (\<lambda>_ d1.
     try_then (try_each (\<lambda>(idx, g). on_files (unregister_close_owned_fd (ro_files (up_ring P)) (fixed_with_generation idx g)))
                 (pe_close_unregister post) d1) (\<lambda>_ d2.
     try_then (if pe_rebuild_waker post then rebuild_waker_fd P (count_waker_rebuild d2) else Some (d2, Inr ())) (\<lambda>_ d3.
     try_then (if pe_resubmit_waker post then resubmit_waker P d3 else Some (d3, Inr ())) (\<lambda>_ d4.
     if pe_flush_backlog post then flush d4 else Some (d4, Inr ())))))"

text \<open>The hooks borrow fields of the driver and give them back; what they leave for the driver to do is
  lost when accepting the completion fails.\<close>

definition hooks_of :: "uring_synthetic \<Rightarrow> ('k, 'p, 'r, 'm) uring_driver \<Rightarrow> uring_hooks" where
  "hooks_of synthetic d = \<lparr>uh_diag = dr_diag d, uh_pending_cancel_cqes = dr_pending_cancel_cqes d,
     uh_waker_buf_len = dr_waker_buf_len d, uh_waker_armed = dr_waker_armed d, uh_is_waked = dr_is_waked d,
     uh_synthetic = synthetic, uh_post = post_effects_default, uh_dropped = dr_dropped d\<rparr>"

definition with_hooks ::
  "(('k, 'p) uring_op, 'p uring_payload, uring_report + usize, unit, uring_op_state) op_registry \<Rightarrow> uring_hooks
     \<Rightarrow> ('k, 'p, 'r, 'm) uring_driver \<Rightarrow> ('k, 'p, 'r, 'm) uring_driver" where
  "with_hooks r h d = d\<lparr>dr_ops := r, dr_diag := uh_diag h, dr_pending_cancel_cqes := uh_pending_cancel_cqes h,
     dr_waker_armed := uh_waker_armed h, dr_is_waked := uh_is_waked h, dr_dropped := uh_dropped h\<rparr>"

definition accept_with ::
  "(('k, 'p, 'r, 'm) uring_driver \<Rightarrow> ('k, 'p, 'r, 'm, unit) driver_outcome) \<Rightarrow> ('r, 'm) uring_params
     \<Rightarrow> ('k, 'p, 'r, 'm) acceptor" where
  "accept_with flush P ingress synthetic d =
     (case accept_completion uring_completion_hooks ingress (dr_ops d) (hooks_of synthetic d) of
        None \<Rightarrow> None
      | Some (r, h, Inl e) \<Rightarrow> Some (with_hooks r h d, Inl (flow_report e))
      | Some (r, h, Inr outcome) \<Rightarrow>
          try_then (apply_post_completion_effects flush P (uh_post h) (with_hooks r h d)) (\<lambda>_ d1. Some (d1, Inr outcome)))"

fun accept_ingress :: "nat \<Rightarrow> ('r, 'm) uring_params \<Rightarrow> ('k, 'p, 'r, 'm) acceptor" where
  "accept_ingress 0 P ingress synthetic d = None"
| "accept_ingress (Suc n) P ingress synthetic d =
     accept_with (flush_backlog (accept_ingress n P) P) P ingress synthetic d"

text \<open>A kernel completion can flush the backlog, a completion the driver makes up cannot: two levels.\<close>

definition accept_completion_ingress :: "('r, 'm) uring_params \<Rightarrow> ('k, 'p, 'r, 'm) acceptor" where
  "accept_completion_ingress P = accept_ingress 2 P"

subsection \<open>Polling\<close>

definition advance_timers ::
  "('r, 'm) uring_params \<Rightarrow> duration \<Rightarrow> ('k, 'p, 'r, 'm) uring_driver \<Rightarrow> ('k, 'p, 'r, 'm, unit) driver_outcome" where
  "advance_timers P elapsed d =
     (case wheel_advance (up_slot_map P) elapsed (dr_wheel d) (dr_timer_buffer d) of
        None \<Rightarrow> None
      | Some (w, expired) \<Rightarrow>
          try_each (\<lambda>token d1.
              try_then (accept_synthetic_completion (accept_completion_ingress P)
                          (user_event_from_parts COMP_BACKEND_URING token 0 0) SynTimer SyntheticNone d1)
                (\<lambda>_ d2. Some (d2, Inr ())))
            expired (d\<lparr>dr_wheel := w, dr_timer_buffer := []\<rparr>))"

text \<open>The part of \<^verbatim>\<open>wait_internal\<close> and \<^verbatim>\<open>poll_nonblocking_internal\<close> that reads the clock and advances the
  timers by whole ticks.\<close>

definition poll_timers ::
  "('r, 'm) uring_params \<Rightarrow> ('k, 'p, 'r, 'm) uring_driver \<Rightarrow> ('k, 'p, 'r, 'm, unit) driver_outcome" where
  "poll_timers P d =
     (let elapsed = ce_now (ro_chunks (up_ring P)) (dr_world d) - dr_last_timer_poll d;
          tick_ms = as_u64 (as_millis (tick_duration (dr_wheel d)))
      in if tick_ms = 0 then None
         else let ticks = as_u64 (as_millis elapsed) div tick_ms
              in if 0 < ticks then
                   try_then (advance_timers P elapsed d)
                     (\<lambda>_ d1. Some (d1\<lparr>dr_last_timer_poll := dr_last_timer_poll d1 + from_millis (as_u64 (ticks * tick_ms))\<rparr>, Inr ()))
                 else Some (d, Inr ()))"

fun accept_all ::
  "('r, 'm) uring_params \<Rightarrow> (u64 \<times> i32 \<times> u32) list \<Rightarrow> flow_outcome
     \<Rightarrow> ('k, 'p, 'r, 'm) uring_driver \<Rightarrow> ('k, 'p, 'r, 'm, flow_outcome) driver_outcome" where
  "accept_all P [] progress d = Some (d, Inr progress)"
| "accept_all P ((raw_token, cqe_res, cqe_flags) # cqes) progress d =
     try_then (accept_completion_ingress P
                 (IngressKernel (envelope_from_raw_parts COMP_BACKEND_URING raw_token cqe_res cqe_flags)) SyntheticNone d)
       (\<lambda>outcome. accept_all P cqes (flow_merge progress outcome))"

definition process_completions_internal ::
  "('r, 'm) uring_params \<Rightarrow> ('k, 'p, 'r, 'm) uring_driver \<Rightarrow> ('k, 'p, 'r, 'm, flow_outcome) driver_outcome" where
  "process_completions_internal P d =
     (case ro_drain_completions (up_ring P) (fst (ro_enter (up_ring P) 0 (dr_world d))) of
        (r, cqes) \<Rightarrow> accept_all P cqes flow_zero (with_world r d))"

definition submit_to_kernel ::
  "('r, 'm) uring_params \<Rightarrow> ('k, 'p, 'r, 'm) uring_driver \<Rightarrow> ('k, 'p, 'r, 'm, unit) driver_outcome" where
  "submit_to_kernel P d =
     (let R = up_ring P;
          n = ro_sq_len R (dr_world d);
          sent = (if ro_setup_sqpoll R
                  then if ro_need_wakeup R (dr_world d) then ro_submit R (dr_world d) else (dr_world d, Inr ())
                  else if 0 < n then ro_enter R (word_of_nat n) (dr_world d) else (dr_world d, Inr ()))
      in case sent of
           (r, Inl e) \<Rightarrow> Some (with_world r d, Inl (io_report UeSubmission e))
         | (r, Inr _) \<Rightarrow> flush_backlog (accept_completion_ingress P) P (with_world r d))"

partial_function (option) drain_loop ::
  "('r, 'm) uring_params \<Rightarrow> cancel_drain_outcome \<Rightarrow> ('k, 'p, 'r, 'm) uring_driver
     \<Rightarrow> ('k, 'p, 'r, 'm, cancel_drain_outcome) driver_outcome" where
  "drain_loop P outcome d =
     (case ro_try_recv_cancel (up_ring P) (dr_world d) of
        (r, None) \<Rightarrow> Some (with_world r d, Inr outcome)
      | (r, Some request) \<Rightarrow>
          try_then (cancel_op_internal (accept_completion_ingress P) P request (with_world r d))
            (\<lambda>submit_outcome d1. drain_loop P (cancel_drain_record submit_outcome outcome) d1))"

definition cancel_drain_default :: cancel_drain_outcome where
  "cancel_drain_default = \<lparr>cd_requests = 0, cd_submitted = 0, cd_queued = 0, cd_completed_locally = 0,
     cd_target_missing = 0, cd_target_stale = 0, cd_target_corrupt = 0, cd_no_backend_handle = 0\<rparr>"

definition drain_cancel_requests ::
  "('r, 'm) uring_params \<Rightarrow> ('k, 'p, 'r, 'm) uring_driver \<Rightarrow> ('k, 'p, 'r, 'm, cancel_drain_outcome) driver_outcome" where
  "drain_cancel_requests P d = drain_loop P cancel_drain_default d"

text \<open>The queues of cancel requests and of operations, flushed in this order.\<close>

definition flush_queues ::
  "('r, 'm) uring_params \<Rightarrow> ('k, 'p, 'r, 'm) uring_driver \<Rightarrow> ('k, 'p, 'r, 'm, unit) driver_outcome" where
  "flush_queues P d =
     try_then (flush_cancellations (accept_completion_ingress P) P d) (\<lambda>_. flush_backlog (accept_completion_ingress P) P)"

definition poll_nonblocking_internal ::
  "('r, 'm) uring_params \<Rightarrow> ('k, 'p, 'r, 'm) uring_driver \<Rightarrow> ('k, 'p, 'r, 'm, unit) driver_outcome" where
  "poll_nonblocking_internal P d =
     try_then (drain_cancel_requests P d) (\<lambda>_ d1.
     try_then (flush_queues P d1) (\<lambda>_ d2.
     try_then (submit_to_kernel P d2) (\<lambda>_ d3.
     try_then (process_completions_internal P d3) (\<lambda>_ d4.
     try_then (poll_timers P d4) (\<lambda>_. flush_queues P)))))"

text \<open>Blocking in the kernel until a completion arrives or the next timer is due; \<^verbatim>\<open>ETIME\<close> is 62.\<close>

definition wait_in_kernel ::
  "('r, 'm) uring_params \<Rightarrow> ('k, 'p, 'r, 'm) uring_driver \<Rightarrow> ('k, 'p, 'r, 'm, unit) driver_outcome" where
  "wait_in_kernel P d =
     (let R = up_ring P
      in if \<not> ro_cq_is_empty R (dr_world d) then Some (d, Inr ())
         else case next_timeout (up_slot_map P) (dr_wheel d) of
                None \<Rightarrow> None
              | Some (Some duration) \<Rightarrow>
                  (case ro_submit_with_timeout R duration (dr_world d) of
                     (r, Inl e) \<Rightarrow> Some (with_world r d, if e = Some 62 then Inr () else Inl (io_report UeCompletionWait e))
                   | (r, Inr _) \<Rightarrow> Some (with_world r d, Inr ()))
              | Some None \<Rightarrow>
                  (case ro_submit_and_wait R (dr_world d) of
                     (r, Inl e) \<Rightarrow> Some (with_world r d, Inl (io_report UeCompletionWait e))
                   | (r, Inr _) \<Rightarrow> Some (with_world r d, Inr ())))"

definition wait_internal ::
  "('r, 'm) uring_params \<Rightarrow> ('k, 'p, 'r, 'm) uring_driver \<Rightarrow> ('k, 'p, 'r, 'm, unit) driver_outcome" where
  "wait_internal P d =
     try_then (drain_cancel_requests P d) (\<lambda>_ d1.
     try_then (flush_queues P d1) (\<lambda>_ d2.
     if \<not> has_active_ops (dr_ops d2) then Some (d2, Inr ())
     else
       try_then (wait_in_kernel P d2) (\<lambda>_ d3.
       try_then (poll_timers P d3) (\<lambda>_ d4.
       try_then (process_completions_internal P d4) (\<lambda>_. flush_queues P)))))"

subsection \<open>The operations of a driver\<close>

datatype drive_mode = DrivePoll | DriveWait

record drive_outcome =
  do_next_timeout_hint :: "duration option"
  do_pending_progress :: bool

definition pending_progress :: "('k, 'p, 'r, 'm) uring_driver \<Rightarrow> bool" where
  "pending_progress d = (has_active_ops (dr_ops d) \<or> has_ready_completion (shared (dr_ops d)))"

definition drive_report ::
  "('r, 'm) uring_params \<Rightarrow> ('k, 'p, 'r, 'm) uring_driver \<Rightarrow> ('k, 'p, 'r, 'm, drive_outcome) driver_outcome" where
  "drive_report P d =
     (case next_timeout (up_slot_map P) (dr_wheel d) of
        None \<Rightarrow> None
      | Some hint \<Rightarrow> Some (d, Inr \<lparr>do_next_timeout_hint = hint, do_pending_progress = pending_progress d\<rparr>))"

definition drive ::
  "('r, 'm) uring_params \<Rightarrow> drive_mode \<Rightarrow> ('k, 'p, 'r, 'm) uring_driver \<Rightarrow> ('k, 'p, 'r, 'm, drive_outcome) driver_outcome" where
  "drive P mode d =
     (case mode of
        DrivePoll \<Rightarrow> try_then (poll_nonblocking_internal P d) (\<lambda>_. drive_report P)
      | DriveWait \<Rightarrow>
          if \<not> pending_progress d then drive_report P d
          else try_then (wait_internal P d) (\<lambda>_. drive_report P))"

definition reserve_op_raw ::
  "('k, 'p, 'r, 'm) uring_driver \<Rightarrow> ('k, 'p, 'r, 'm, op_token) driver_outcome" where
  "reserve_op_raw d =
     (case alloc default (dr_ops d) of
        None \<Rightarrow> None
      | Some (r, Inl _) \<Rightarrow> Some (d\<lparr>dr_ops := r\<rparr>, Inl (report_of UeInvalidState))
      | Some (r, Inr h) \<Rightarrow>
          (case op_token_try_new (of_nat (h_index h)) (h_generation h) of
             Inl _ \<Rightarrow> Some (d\<lparr>dr_ops := r\<rparr>, Inl (plain_report UeInvalidState))
           | Inr token \<Rightarrow> Some (d\<lparr>dr_ops := r\<rparr>, Inr token)))"

definition slot_set_payload_raw ::
  "op_token \<Rightarrow> 'p uring_payload \<Rightarrow> ('k, 'p, 'r, 'm) uring_driver \<Rightarrow> ('k, 'p, 'r, 'm) uring_driver" where
  "slot_set_payload_raw token payload d =
     on_ops (\<lambda>r. fst (with_slot_storage token (\<lambda>st. (st\<lparr>st_payload := Some payload\<rparr>, ())) r)) d"

definition slot_take_payload_raw ::
  "op_token \<Rightarrow> ('k, 'p, 'r, 'm) uring_driver \<Rightarrow> ('k, 'p, 'r, 'm) uring_driver \<times> 'p uring_payload option" where
  "slot_take_payload_raw token d =
     (case with_slot_storage token (\<lambda>st. (st\<lparr>st_payload := None\<rparr>, st_payload st)) (dr_ops d) of
        (r, res) \<Rightarrow> (d\<lparr>dr_ops := r\<rparr>, Option.bind res (\<lambda>x. x)))"

definition release_op_slot_raw ::
  "op_token \<Rightarrow> ('k, 'p, 'r, 'm) uring_driver \<Rightarrow> ('k, 'p, 'r, 'm, unit) driver_outcome" where
  "release_op_slot_raw token d =
     (case remove token (dr_ops d) of None \<Rightarrow> None | Some (r, _) \<Rightarrow> Some (d\<lparr>dr_ops := r\<rparr>, Inr ()))"

definition cancel_op ::
  "('r, 'm) uring_params \<Rightarrow> cancel_request
     \<Rightarrow> ('k, 'p, 'r, 'm) uring_driver \<Rightarrow> ('k, 'p, 'r, 'm, cancel_submit_outcome) driver_outcome" where
  "cancel_op P request d = cancel_op_internal (accept_completion_ingress P) P request d"

definition register_chunk ::
  "('r, 'm) uring_params \<Rightarrow> chunk_id \<Rightarrow> region
     \<Rightarrow> ('k, 'p, 'r, 'm) uring_driver \<Rightarrow> ('k, 'p, 'r, 'm, unit) driver_outcome" where
  "register_chunk P cid reg d =
     (case register_chunk_internal (ro_chunks (up_ring P)) cid reg (chunks_of d) of
        None \<Rightarrow> None
      | Some (cs, res) \<Rightarrow> Some (with_chunks cs d, res))"

definition unregister_files_driver ::
  "('r, 'm) uring_params \<Rightarrow> io_fd list \<Rightarrow> ('k, 'p, 'r, 'm) uring_driver \<Rightarrow> ('k, 'p, 'r, 'm, unit) driver_outcome" where
  "unregister_files_driver P files d = on_files (unregister_files (ro_files (up_ring P)) files) d"

subsection \<open>Construction\<close>

text \<open>The polling mode carries the idle time of the kernel's polling thread; \<^verbatim>\<open>EINVAL\<close> is 22.\<close>

record uring_config =
  uc_polling :: "u32 option"
  uc_entries :: u32
  uc_strict_registration :: bool

definition build_ring :: "'r ring_ops \<Rightarrow> uring_config \<Rightarrow> 'r \<Rightarrow> 'r \<times> (uring_report + unit)" where
  "build_ring R config r =
     (case ro_build R (uc_polling config) (uc_entries config) r of
        (r1, Inr u) \<Rightarrow> (r1, Inr u)
      | (r1, Inl e) \<Rightarrow>
          (case (if e = Some 22 then ro_build_plain R (uc_entries config) r1 else (r1, Inl e)) of
             (r2, Inr u) \<Rightarrow> (r2, Inr u)
           | (r2, Inl e') \<Rightarrow> (r2, Inl (io_report UeDriverInit e'))))"

definition fresh_driver ::
  "uring_config \<Rightarrow> (('k, 'p) uring_op, 'p uring_payload, uring_report + usize, unit, uring_op_state) op_registry
     \<Rightarrow> i32 \<Rightarrow> ('m, nat) wheel \<Rightarrow> nat \<Rightarrow> 'r \<Rightarrow> ('k, 'p, 'r, 'm) uring_driver" where
  "fresh_driver config ops waker_fd w now r =
     \<lparr>dr_files = file_table_new r, dr_ops = ops, dr_backlog = [], dr_pending_cancellations = [],
      dr_pending_cancel_cqes = Map.empty, dr_next_cancel_id = 1, dr_diag = uring_diag_default,
      dr_waker_fd = waker_fd, dr_closed_eventfds = [], dr_waker_registered_fd = None, dr_waker_armed = False,
      dr_waker_buf_len = 8, dr_registered_chunks = bit_set_new MAX_CHUNKS, dr_is_waked = False, dr_wheel = w,
      dr_timer_buffer = [], dr_last_timer_poll = now,
      dr_registration_stats = \<lparr>rs_chunk_register_attempts = 0, rs_chunk_register_success = 0,
        rs_chunk_register_failures = 0, rs_chunk_register_skipped_recent_failure = 0, rs_submission_missing_chunk_info = 0\<rparr>,
      dr_strict_registration = uc_strict_registration config, dr_chunk_register_failures_recent = Map.empty,
      dr_dropped = []\<rparr>"

text \<open>Errors before the driver exists leave only the world; a failed sparse registration of buffers is
  only logged.\<close>

definition uring_driver_new ::
  "('r, 'm) uring_params \<Rightarrow> uring_config \<Rightarrow> 'r \<Rightarrow> ('r \<times> (uring_report + ('k, 'p, 'r, 'm) uring_driver)) option" where
  "uring_driver_new P config r0 =
     (let R = up_ring P
      in case build_ring R config r0 of
           (r1, Inl e) \<Rightarrow> Some (r1, Inl e)
         | (r1, Inr _) \<Rightarrow>
             (case registry_new (unat (uc_entries config)) of
                None \<Rightarrow> None
              | Some ops \<Rightarrow>
                  (case ro_eventfd R r1 of
                     (r2, Inl e) \<Rightarrow> Some (r2, Inl (io_report UeDriverInit e))
                   | (r2, Inr fd) \<Rightarrow>
                       (case wheel_new (up_slot_map P) wheel_config_default of
                          None \<Rightarrow> None
                        | Some w \<Rightarrow>
                            (case submit_waker P (fresh_driver config ops fd w (ce_now (ro_chunks R) r2) r2) of
                               None \<Rightarrow> None
                             | Some (d, Inl e) \<Rightarrow> Some (dr_world d, Inl e)
                             | Some (d, Inr _) \<Rightarrow>
                                 let d1 = with_world (fst (ro_register_buffers R MAX_CHUNKS (dr_world d))) d
                                 in Some (dr_world d1, Inr d1))))))"

end
