(* ===== verification/Timer_Interface.thy ===== *)
theory Timer_Interface
  imports Veloq_Prelude
begin

text \<open>
  The contract of a timer queue, as its clients (the polling loops of the drivers) see it: timers
  are added with a delay, cancelled by the key of their insertion, and reported when time advances.
  A client is a list of commands; inside the locale its runs are shown to keep every timer until
  its deadline and to report it then.
\<close>

datatype ('a, 'k) timer_cmd = Insert_Timer 'a nat | Cancel_Timer 'k | Advance_Time nat

text \<open>A run on a queue given by its three operations: the state and the items reported so far.\<close>

fun timer_run ::
  "('a \<Rightarrow> nat \<Rightarrow> 's \<Rightarrow> ('s \<times> 'k) option) \<Rightarrow> ('k \<Rightarrow> 's \<Rightarrow> 's \<times> 'a option) \<Rightarrow> (nat \<Rightarrow> 's \<Rightarrow> 'a list \<Rightarrow> ('s \<times> 'a list) option)
     \<Rightarrow> ('a, 'k) timer_cmd list \<Rightarrow> 's \<Rightarrow> 'a list \<Rightarrow> ('s \<times> 'a list) option" where
  "timer_run ins can adv [] s ex = Some (s, ex)"
| "timer_run ins can adv (Insert_Timer x d # cs) s ex =
     (case ins x d s of None \<Rightarrow> None | Some (s', _) \<Rightarrow> timer_run ins can adv cs s' ex)"
| "timer_run ins can adv (Cancel_Timer k # cs) s ex = timer_run ins can adv cs (fst (can k s)) ex"
| "timer_run ins can adv (Advance_Time d # cs) s ex =
     (case adv d s ex of None \<Rightarrow> None | Some (s', ex') \<Rightarrow> timer_run ins can adv cs s' ex')"

text \<open>A bound on the time a run can reach, by the cost of its durations.\<close>

fun cmd_span :: "(nat \<Rightarrow> nat) \<Rightarrow> ('a, 'k) timer_cmd \<Rightarrow> nat" where
  "cmd_span c (Insert_Timer x d) = c d + 1"
| "cmd_span c (Cancel_Timer k) = 0"
| "cmd_span c (Advance_Time d) = c d"

definition run_span :: "(nat \<Rightarrow> nat) \<Rightarrow> ('a, 'k) timer_cmd list \<Rightarrow> nat" where
  "run_span c cs = sum_list (map (cmd_span c) cs)"

lemma run_span_simps [simp]: "run_span c [] = 0" "run_span c (x # cs) = cmd_span c x + run_span c cs"
  by (simp_all add: run_span_def)

locale timer_queue =
  fixes inv :: "'s \<Rightarrow> bool" and now :: "'s \<Rightarrow> nat" and pending :: "'s \<Rightarrow> 'k \<rightharpoonup> nat \<times> 'a" and span :: "nat \<Rightarrow> nat" and limit :: nat
    and ins :: "'a \<Rightarrow> nat \<Rightarrow> 's \<Rightarrow> ('s \<times> 'k) option" and can :: "'k \<Rightarrow> 's \<Rightarrow> 's \<times> 'a option"
    and adv :: "nat \<Rightarrow> 's \<Rightarrow> 'a list \<Rightarrow> ('s \<times> 'a list) option"
  assumes ins_law: "\<lbrakk>inv s; now s + span d + 1 < limit\<rbrakk> \<Longrightarrow>
      \<exists>s' k t. ins x d s = Some (s', k) \<and> inv s' \<and> now s' = now s \<and> pending s k = None \<and> now s < t \<and> pending s' = (pending s)(k \<mapsto> (t, x))"
    and can_law: "inv s \<Longrightarrow> inv (fst (can k s)) \<and> now (fst (can k s)) = now s \<and> snd (can k s) = map_option snd (pending s k)
      \<and> pending (fst (can k s)) = (pending s)(k := None)"
    and adv_law: "\<lbrakk>inv s; now s + span d < limit\<rbrakk> \<Longrightarrow>
      \<exists>s' ks. adv d s ex = Some (s', ex @ map (\<lambda>k. snd (the (pending s k))) ks) \<and> inv s' \<and> now s \<le> now s' \<and> now s' \<le> now s + span d
        \<and> distinct ks \<and> set ks = {k. \<exists>t x. pending s k = Some (t, x) \<and> t \<le> now s'}
        \<and> pending s' = (\<lambda>k. if k \<in> set ks then None else pending s k)"
begin

abbreviation run :: "('a, 'k) timer_cmd list \<Rightarrow> 's \<Rightarrow> 'a list \<Rightarrow> ('s \<times> 'a list) option" where
  "run \<equiv> timer_run ins can adv"

text \<open>A run within the limit ends, keeps the invariant and extends the report.\<close>

lemma run_total:
  "\<lbrakk>inv s; now s + run_span span cs < limit\<rbrakk> \<Longrightarrow>
     \<exists>s' ex'. run cs s ex = Some (s', ex @ ex') \<and> inv s' \<and> now s \<le> now s' \<and> now s' \<le> now s + run_span span cs"
proof (induction cs arbitrary: s ex)
  case Nil
  then show ?case by simp
next
  case (Cons c cs)
  show ?case
  proof (cases c)
    case (Insert_Timer x d)
    then obtain s1 k where 1: "ins x d s = Some (s1, k)" "inv s1" "now s1 = now s"
      using ins_law [OF Cons.prems(1), of d x] Cons.prems(2) by auto
    then show ?thesis using Cons.IH [OF 1(2), of ex] Cons.prems(2) Insert_Timer by fastforce
  next
    case (Cancel_Timer k)
    then show ?thesis using Cons.IH [of "fst (can k s)" ex] can_law [OF Cons.prems(1), of k] Cons.prems(2) by auto
  next
    case (Advance_Time d)
    then obtain s1 ex1 where 1: "adv d s ex = Some (s1, ex @ ex1)" "inv s1" "now s \<le> now s1" "now s1 \<le> now s + span d"
      using adv_law [OF Cons.prems(1), of d ex] Cons.prems(2) by auto
    then show ?thesis using Cons.IH [OF 1(2), of "ex @ ex1"] Cons.prems(2) Advance_Time by fastforce
  qed
qed

text \<open>A timer that is not cancelled is pending until its deadline, and reported when the run
  reaches it.\<close>

lemma timer_kept_or_reported:
  "\<lbrakk>inv s; now s + run_span span cs < limit; pending s k = Some (t, x); Cancel_Timer k \<notin> set cs; run cs s ex = Some (s', ex')\<rbrakk> \<Longrightarrow>
     (now s < t \<longrightarrow> now s' < t \<longrightarrow> pending s' k = Some (t, x)) \<and> (now s < t \<longrightarrow> t \<le> now s' \<longrightarrow> x \<in> set ex')"
proof (induction cs arbitrary: s ex)
  case Nil
  then show ?case by simp
next
  case (Cons c cs)
  show ?case
  proof (cases c)
    case (Insert_Timer y d)
    then obtain s1 j u where 1: "ins y d s = Some (s1, j)" "inv s1" "now s1 = now s" "pending s j = None" "pending s1 = (pending s)(j \<mapsto> (u, y))"
      using ins_law [OF Cons.prems(1), of d y] Cons.prems(2) by auto
    then have "pending s1 k = Some (t, x)" using Cons.prems(3) by auto
    then show ?thesis using Cons.IH [OF 1(2), of ex] Cons.prems 1 Insert_Timer by simp
  next
    case (Cancel_Timer j)
    then have "pending (fst (can j s)) k = Some (t, x)" using Cons.prems(3,4) can_law [OF Cons.prems(1), of j] by auto
    then show ?thesis using Cons.IH [of "fst (can j s)" ex] can_law [OF Cons.prems(1), of j] Cons.prems Cancel_Timer by simp
  next
    case (Advance_Time d)
    then obtain s1 ks where 1: "adv d s ex = Some (s1, ex @ map (\<lambda>k. snd (the (pending s k))) ks)" "inv s1" "now s \<le> now s1"
      "now s1 \<le> now s + span d" "set ks = {k. \<exists>t x. pending s k = Some (t, x) \<and> t \<le> now s1}"
      "pending s1 = (\<lambda>k. if k \<in> set ks then None else pending s k)"
      using adv_law [OF Cons.prems(1), of d ex] Cons.prems(2) by auto
    let ?ex1 = "ex @ map (\<lambda>k. snd (the (pending s k))) ks"
    have rest: "run cs s1 ?ex1 = Some (s', ex')" "now s1 + run_span span cs < limit" using Cons.prems(2,5) 1 Advance_Time by auto
    obtain ex2 where ex2: "ex' = ?ex1 @ ex2" "now s1 \<le> now s'" using run_total [OF 1(2) rest(2), of ?ex1] rest(1) by auto
    show ?thesis
    proof (cases "t \<le> now s1")
      case True
      then have "k \<in> set ks" using 1(5) Cons.prems(3) by blast
      then have "x \<in> set ?ex1" using Cons.prems(3) by (force simp: image_iff)
      then show ?thesis using ex2 True by auto
    next
      case False
      then have "pending s1 k = Some (t, x)" using 1(5,6) Cons.prems(3) by auto
      then show ?thesis using Cons.IH [OF 1(2) rest(2) _ _ rest(1)] Cons.prems(4) False by auto
    qed
  qed
qed

end

end
