(* ===== verification/Timer_Wheel_Inv.thy ===== *)
theory Timer_Wheel_Inv
  imports Timer_Wheel Timer_Interface
begin

text \<open>
  Correctness of the timer wheel: under the documented laws of a slot map, and for a ratio of the
  two ticks that is positive and at most the number of lower slots, every timer fires in exactly
  the tick of its deadline.
\<close>

subsection \<open>The slot map\<close>

text \<open>What the wheel relies on: a slot map is a finite map whose insertion chooses an unused key.\<close>

definition slot_map_ok :: "('m, 'k, 'v) slot_map_ops \<Rightarrow> ('m \<Rightarrow> 'k \<rightharpoonup> 'v) \<Rightarrow> bool" where
  "slot_map_ok sm f \<longleftrightarrow> f (sm_new sm) = Map.empty
     \<and> (\<forall>v m. f m (snd (sm_insert sm v m)) = None \<and> f (fst (sm_insert sm v m)) = (f m)(snd (sm_insert sm v m) \<mapsto> v))
     \<and> (\<forall>k m. snd (sm_remove sm k m) = f m k \<and> f (fst (sm_remove sm k m)) = (f m)(k := None))
     \<and> (\<forall>k m. sm_get sm k m = f m k)
     \<and> (\<forall>k g m. f (sm_modify sm k g m) = (case f m k of None \<Rightarrow> f m | Some v \<Rightarrow> (f m)(k \<mapsto> g v)))
     \<and> (\<forall>m. sm_is_empty sm m \<longleftrightarrow> f m = Map.empty)"

lemma slot_mapD:
  assumes "slot_map_ok sm f"
  shows "f (sm_new sm) = Map.empty"
    "sm_insert sm v m = (m', k) \<Longrightarrow> f m k = None \<and> f m' = (f m)(k \<mapsto> v)"
    "sm_remove sm k m = (m', r) \<Longrightarrow> r = f m k \<and> f m' = (f m)(k := None)"
    "sm_get sm k m = f m k"
    "f (sm_modify sm k g m) = (case f m k of None \<Rightarrow> f m | Some v \<Rightarrow> (f m)(k \<mapsto> g v))"
    "sm_is_empty sm m \<longleftrightarrow> f m = Map.empty"
  using assms unfolding slot_map_ok_def by (auto, (metis fst_conv snd_conv)+)

subsection \<open>Linked lists in the slot map\<close>

fun chain :: "('k \<rightharpoonup> ('a, 'k) wheel_entry) \<Rightarrow> 'k option \<Rightarrow> 'k list \<Rightarrow> bool" where
  "chain T h [] = (h = None)"
| "chain T h (k # ks) = (h = Some k \<and> (\<exists>e. T k = Some e \<and> chain T (we_next e) ks))"

lemma chain_cong: "chain T h ks \<Longrightarrow> (\<And>k. k \<in> set ks \<Longrightarrow> T' k = T k) \<Longrightarrow> chain T' h ks"
  by (induction ks arbitrary: h) auto

lemma chain_dom: "chain T h ks \<Longrightarrow> k \<in> set ks \<Longrightarrow> T k \<noteq> None"
  by (induction ks arbitrary: h) auto

lemma chain_head: "chain T h ks \<Longrightarrow> h = None \<longleftrightarrow> ks = []"
  by (cases ks) auto

text \<open>The timers that can still fire: the deadline and the item of the entries not cancelled.\<close>

definition live :: "('k \<rightharpoonup> ('a, 'k) wheel_entry) \<Rightarrow> 'k \<rightharpoonup> nat \<times> 'a" where
  "live T k = (case T k of None \<Rightarrow> None | Some e \<Rightarrow> map_option (\<lambda>x. (we_deadline e, x)) (we_item e))"

definition items :: "('k \<rightharpoonup> ('a, 'k) wheel_entry) \<Rightarrow> 'k list \<Rightarrow> 'a list" where
  "items T ks = map (\<lambda>k. snd (the (live T k))) (filter (\<lambda>k. live T k \<noteq> None) ks)"

lemma items_simps [simp]: "items T [] = []" "items T (ks @ ks') = items T ks @ items T ks'"
  "items T (k # ks) = (case live T k of None \<Rightarrow> items T ks | Some p \<Rightarrow> snd p # items T ks)"
  by (auto simp: items_def split: option.splits)

lemma items_cong: "(\<And>k. k \<in> set ks \<Longrightarrow> live T' k = live T k) \<Longrightarrow> items T' ks = items T ks"
  by (induction ks) (simp_all split: option.splits)

lemma drain_list_ok:
  assumes sm: "slot_map_ok sm f"
  shows "\<lbrakk>chain (f m) h ks; distinct ks\<rbrakk> \<Longrightarrow>
     \<exists>m'. drain_list sm m h ex = Some (m', ex @ items (f m) ks) \<and> f m' = f m |` (- set ks)"
proof (induction ks arbitrary: m h ex)
  case Nil
  then show ?case by (subst drain_list.simps) (simp add: restrict_map_def)
next
  case (Cons k ks)
  then obtain e where e: "h = Some k" "f m k = Some e" "chain (f m) (we_next e) ks" "k \<notin> set ks" "distinct ks" by auto
  obtain m1 r where rem: "sm_remove sm k m = (m1, r)" by fastforce
  have m1: "r = Some e" "f m1 = (f m)(k := None)" using slot_mapD(3) [OF sm rem] e(2) by auto
  have "chain (f m1) (we_next e) ks" by (rule chain_cong [OF e(3)]) (use e(4) m1(2) in auto)
  then obtain m' where m': "drain_list sm m1 (we_next e) (case we_item e of Some x \<Rightarrow> ex @ [x] | None \<Rightarrow> ex)
      = Some (m', (case we_item e of Some x \<Rightarrow> ex @ [x] | None \<Rightarrow> ex) @ items (f m1) ks)" "f m' = f m1 |` (- set ks)"
    using Cons.IH [OF _ e(5)] by blast
  have "items (f m1) ks = items (f m) ks" by (rule items_cong) (use e(4) m1(2) in \<open>auto simp: live_def\<close>)
  moreover have "f m' = f m |` (- set (k # ks))" using m'(2) m1(2) by (auto simp: restrict_map_def fun_eq_iff)
  moreover have "drain_list sm m h ex = drain_list sm m1 (we_next e) (case we_item e of Some x \<Rightarrow> ex @ [x] | None \<Rightarrow> ex)"
    by (subst drain_list.simps) (simp add: e(1) rem m1(1))
  ultimately show ?case using m'(1) e(2) by (auto simp: live_def split: option.splits)
qed

subsection \<open>Places\<close>

definition head_at :: "('m, 'k) wheel \<Rightarrow> nat \<times> nat \<Rightarrow> 'k option" where
  "head_at w x = lv_slots (if fst x = 0 then wh_l0 w else wh_l1 w) ! snd x"

definition place :: "('m, 'k) wheel \<Rightarrow> nat \<times> nat \<Rightarrow> bool" where
  "place w x \<longleftrightarrow> fst x = 0 \<and> snd x < length (lv_slots (wh_l0 w)) \<or> fst x = 1 \<and> snd x < length (lv_slots (wh_l1 w))"

definition shape_ok :: "('m, 'k) wheel \<Rightarrow> bool" where
  "shape_ok w \<longleftrightarrow> (\<exists>a. length (lv_slots (wh_l0 w)) = 2 ^ a) \<and> (\<exists>b. length (lv_slots (wh_l1 w)) = 2 ^ b)
     \<and> lv_mask (wh_l0 w) = length (lv_slots (wh_l0 w)) - 1 \<and> lv_mask (wh_l1 w) = length (lv_slots (wh_l1 w)) - 1
     \<and> wh_l0_capacity_ticks w = length (lv_slots (wh_l0 w))
     \<and> 0 < wh_l1_tick_ratio w \<and> wh_l1_tick_ratio w \<le> wh_l0_capacity_ticks w
     \<and> 0 < wh_tick_duration_ms w \<and> wh_global_tick w < 2 ^ 64"

text \<open>Where the entry of a deadline may be at tick \<open>g\<close>: a lower slot holds the deadlines of one
  tick of the current turn, an upper slot those whose turn begins at \<open>b\<close> or later.\<close>

definition due_at :: "nat \<Rightarrow> ('m, 'k) wheel \<Rightarrow> nat \<times> nat \<Rightarrow> nat \<Rightarrow> bool" where
  "due_at b w x d \<longleftrightarrow> d < 2 ^ 64 \<and>
     (if fst x = 0 then wh_global_tick w < d \<and> d < wh_global_tick w + wh_l0_capacity_ticks w
        \<and> snd x = d mod length (lv_slots (wh_l0 w))
      else b \<le> d div wh_l1_tick_ratio w * wh_l1_tick_ratio w
        \<and> snd x = d div wh_l1_tick_ratio w mod length (lv_slots (wh_l1 w)))"

text \<open>The lists \<open>L\<close> of the places, with the entries of \<open>H\<close> in the hands of an operation.\<close>

definition lists_at ::
  "nat \<Rightarrow> ('k \<rightharpoonup> ('a, 'k) wheel_entry) \<Rightarrow> ('m, 'k) wheel \<Rightarrow> (nat \<times> nat \<Rightarrow> 'k list) \<Rightarrow> 'k set \<Rightarrow> bool" where
  "lists_at b T w L H \<longleftrightarrow>
     (\<forall>x. distinct (L x)) \<and> (\<forall>x y k. k \<in> set (L x) \<longrightarrow> k \<in> set (L y) \<longrightarrow> x = y)
     \<and> (\<forall>k. T k \<noteq> None \<longleftrightarrow> k \<in> H \<or> (\<exists>x. k \<in> set (L x))) \<and> (\<forall>x. H \<inter> set (L x) = {})
     \<and> (\<forall>x. \<not> place w x \<longrightarrow> L x = []) \<and> (\<forall>x. place w x \<longrightarrow> chain T (head_at w x) (L x))
     \<and> (\<forall>x k e. k \<in> set (L x) \<longrightarrow> T k = Some e \<longrightarrow> due_at b w x (we_deadline e))"

lemma lists_atD:
  assumes "lists_at b T w L H"
  shows "distinct (L x)" "k \<in> set (L x) \<Longrightarrow> k \<in> set (L y) \<Longrightarrow> x = y"
    "T k \<noteq> None \<longleftrightarrow> k \<in> H \<or> (\<exists>x. k \<in> set (L x))" "k \<in> H \<Longrightarrow> k \<notin> set (L x)"
    "\<not> place w x \<Longrightarrow> L x = []" "place w x \<Longrightarrow> chain T (head_at w x) (L x)"
    "k \<in> set (L x) \<Longrightarrow> T k = Some e \<Longrightarrow> due_at b w x (we_deadline e)"
proof -
  note a = assms [unfolded lists_at_def]
  show "distinct (L x)" using a by blast
  show "k \<in> set (L x) \<Longrightarrow> k \<in> set (L y) \<Longrightarrow> x = y" using a by blast
  show "T k \<noteq> None \<longleftrightarrow> k \<in> H \<or> (\<exists>x. k \<in> set (L x))" using a by blast
  show "k \<in> H \<Longrightarrow> k \<notin> set (L x)" using a by blast
  show "\<not> place w x \<Longrightarrow> L x = []" using a by blast
  show "place w x \<Longrightarrow> chain T (head_at w x) (L x)" using a by blast
  show "k \<in> set (L x) \<Longrightarrow> T k = Some e \<Longrightarrow> due_at b w x (we_deadline e)" using a by blast
qed

lemma lists_atI:
  assumes "\<And>x. distinct (L x)" "\<And>x y k. k \<in> set (L x) \<Longrightarrow> k \<in> set (L y) \<Longrightarrow> x = y"
    "\<And>k. T k \<noteq> None \<longleftrightarrow> k \<in> H \<or> (\<exists>x. k \<in> set (L x))" "\<And>x k. k \<in> H \<Longrightarrow> k \<notin> set (L x)"
    "\<And>x. \<not> place w x \<Longrightarrow> L x = []" "\<And>x. place w x \<Longrightarrow> chain T (head_at w x) (L x)"
    "\<And>x k e. k \<in> set (L x) \<Longrightarrow> T k = Some e \<Longrightarrow> due_at b w x (we_deadline e)"
  shows "lists_at b T w L H"
  unfolding lists_at_def using assms by blast

definition wheel_inv :: "('m \<Rightarrow> 'k \<rightharpoonup> ('a, 'k) wheel_entry) \<Rightarrow> ('m, 'k) wheel \<Rightarrow> bool" where
  "wheel_inv f w \<longleftrightarrow> shape_ok w \<and> (\<exists>L. lists_at (wh_global_tick w + 1) (f (wh_tasks w)) w L {})"

lemma and_pow2: "x AND (2 ^ a - 1) = x mod (2 ^ a :: nat)"
  by (metis mask_eq_exp_minus_1 take_bit_eq_mask take_bit_eq_mod)

lemma mask_index:
  assumes "shape_ok w"
  shows "x AND lv_mask (wh_l0 w) = x mod length (lv_slots (wh_l0 w))" "x AND lv_mask (wh_l1 w) = x mod length (lv_slots (wh_l1 w))"
    "0 < length (lv_slots (wh_l0 w))" "0 < length (lv_slots (wh_l1 w))"
  using assms and_pow2 unfolding shape_ok_def by auto

lemma as_u64_small [simp]: "x < 2 ^ 64 \<Longrightarrow> as_u64 x = x"
  by (simp add: as_u64_def)

lemma wrapping_sub_small: "b \<le> a \<Longrightarrow> a < 2 ^ 64 \<Longrightarrow> wrapping_sub a b = a - b"
proof -
  assume a: "b \<le> a" "a < 2 ^ 64"
  then have "a + (2 ^ 64 - b) = (a - b) + 2 ^ 64" by simp
  moreover have "(a - b) mod 2 ^ 64 = a - b" using a by (intro mod_less) simp
  ultimately show ?thesis unfolding wrapping_sub_def by (metis mod_add_self2)
qed

lemma cascade_ahead:
  assumes "(R :: nat) > 0" "R \<le> C" "g + C \<le> d"
  shows "g + 1 \<le> d div R * R"
proof -
  have "d < d div R * R + R" using assms(1) by (metis dividend_less_div_times add.commute)
  then show ?thesis using assms(2,3) by linarith
qed

text \<open>The location chosen for a deadline ahead is a place where it is due.\<close>

lemma location_ok:
  assumes sh: "shape_ok w" and d: "wh_global_tick w < d" "d < 2 ^ 64"
  shows "\<exists>x. determine_location d w = Some x \<and> place w x \<and> due_at (wh_global_tick w + 1) w x d"
proof -
  let ?g = "wh_global_tick w" and ?C = "wh_l0_capacity_ticks w" and ?R = "wh_l1_tick_ratio w"
  have sub: "wrapping_sub d ?g = d - ?g" using d by (intro wrapping_sub_small) auto
  have C: "?C = length (lv_slots (wh_l0 w))" "0 < ?R" "?R \<le> ?C" using sh by (auto simp: shape_ok_def)
  note m = mask_index [OF sh]
  show ?thesis
  proof (cases "d - ?g < ?C")
    case True
    then show ?thesis using sub d m C by (auto simp: determine_location_def place_def due_at_def)
  next
    case False
    then have "?g + ?C \<le> d" using d by linarith
    then have "?g + 1 \<le> d div ?R * ?R" by (rule cascade_ahead [OF C(2,3)])
    then show ?thesis using False sub d m C by (auto simp: determine_location_def place_def due_at_def)
  qed
qed

subsection \<open>Linking\<close>

lemma link_fields [simp]:
  "wh_global_tick (link sm k l i w) = wh_global_tick w" "wh_tick_duration_ms (link sm k l i w) = wh_tick_duration_ms w"
  "wh_l1_tick_ratio (link sm k l i w) = wh_l1_tick_ratio w" "wh_l0_capacity_ticks (link sm k l i w) = wh_l0_capacity_ticks w"
  "length (lv_slots (wh_l0 (link sm k l i w))) = length (lv_slots (wh_l0 w))"
  "length (lv_slots (wh_l1 (link sm k l i w))) = length (lv_slots (wh_l1 w))"
  "lv_mask (wh_l0 (link sm k l i w)) = lv_mask (wh_l0 w)" "lv_mask (wh_l1 (link sm k l i w)) = lv_mask (wh_l1 w)"
  by (simp_all add: link_def Let_def)

lemma link_shape [simp]: "shape_ok (link sm k l i w) = shape_ok w" "place (link sm k l i w) x = place w x"
  "due_at b (link sm k l i w) x d = due_at b w x d"
  by (simp_all add: shape_ok_def place_def due_at_def)

lemma link_head: "place w (l, i) \<Longrightarrow> place w x \<Longrightarrow> head_at (link sm k l i w) x = (if x = (l, i) then Some k else head_at w x)"
  by (cases x) (auto simp: head_at_def link_def Let_def place_def)

lemma link_tasks:
  assumes "slot_map_ok sm f" "f (wh_tasks w) k = Some e"
  shows "f (wh_tasks (link sm k l i w)) = (f (wh_tasks w))(k \<mapsto> e\<lparr>we_next := head_at w (l, i), we_level := l mod 2 ^ 8, we_slot_index := i mod 2 ^ 32\<rparr>)"
  using slot_mapD(5) [OF assms(1)] assms(2) by (simp add: link_def Let_def head_at_def)

lemma live_upd_same: "T k = Some e \<Longrightarrow> we_deadline e' = we_deadline e \<Longrightarrow> we_item e' = we_item e \<Longrightarrow> live (T(k \<mapsto> e')) = live T"
  by (auto simp: live_def fun_eq_iff)

lemma link_ok:
  assumes sm: "slot_map_ok sm f" and ls: "lists_at b (f (wh_tasks w)) w L H" and k: "k \<in> H" "f (wh_tasks w) k = Some e"
    and x: "place w (l, i)" "due_at b w (l, i) (we_deadline e)"
  shows "lists_at b (f (wh_tasks (link sm k l i w))) (link sm k l i w) (L((l, i) := k # L (l, i))) (H - {k})"
    "live (f (wh_tasks (link sm k l i w))) = live (f (wh_tasks w))"
proof -
  let ?T = "f (wh_tasks w)" and ?x = "(l, i)"
  let ?e = "e\<lparr>we_next := head_at w ?x, we_level := l mod 2 ^ 8, we_slot_index := i mod 2 ^ 32\<rparr>"
  note T = link_tasks [OF sm k(2), of l i]
  note D = lists_atD [OF ls]
  have notin: "k \<notin> set (L y)" for y using D(4) [OF k(1)] .
  have ch: "chain (?T(k \<mapsto> ?e)) (head_at w y) (L y)" if "place w y" for y
    by (rule chain_cong [OF D(6) [OF that]]) (use notin [of y] in auto)
  have mem: "k' \<in> set ((L(?x := k # L ?x)) y) \<longleftrightarrow> k' = k \<and> y = ?x \<or> k' \<in> set (L y)" for k' y by auto
  show "lists_at b (f (wh_tasks (link sm k l i w))) (link sm k l i w) (L(?x := k # L ?x)) (H - {k})"
    unfolding T
  proof (rule lists_atI)
    show "distinct ((L(?x := k # L ?x)) y)" for y using D(1) notin by simp
    show "y = z" if "k' \<in> set ((L(?x := k # L ?x)) y)" "k' \<in> set ((L(?x := k # L ?x)) z)" for y z k'
      using that notin D(2) unfolding mem by blast
    show "((?T(k \<mapsto> ?e)) k' \<noteq> None) = (k' \<in> H - {k} \<or> (\<exists>y. k' \<in> set ((L(?x := k # L ?x)) y)))" for k'
      using D(3) [of k'] k(2) unfolding mem by (cases "k' = k") auto
    show "k' \<notin> set ((L(?x := k # L ?x)) y)" if "k' \<in> H - {k}" for k' y using D(4) that unfolding mem by blast
    show "(L(?x := k # L ?x)) y = []" if "\<not> place (link sm k l i w) y" for y using D(5) that x(1) by auto
    show "chain (?T(k \<mapsto> ?e)) (head_at (link sm k l i w) y) ((L(?x := k # L ?x)) y)" if "place (link sm k l i w) y" for y
      using ch [of y] link_head [OF x(1), of y sm k] that by auto
    show "due_at b (link sm k l i w) y (we_deadline e')"
      if "k' \<in> set ((L(?x := k # L ?x)) y)" "(?T(k \<mapsto> ?e)) k' = Some e'" for y k' e'
    proof (cases "k' = k")
      case True
      then show ?thesis using that x(2) notin unfolding mem by auto
    next
      case False
      then show ?thesis using that D(7) unfolding mem by simp
    qed
  qed
  show "live (f (wh_tasks (link sm k l i w))) = live ?T" unfolding T using k(2) by (intro live_upd_same) simp_all
qed

lemma same_places: "place (w\<lparr>wh_tasks := m\<rparr>) = place w" "head_at (w\<lparr>wh_tasks := m\<rparr>) = head_at w" "due_at b (w\<lparr>wh_tasks := m\<rparr>) = due_at b w"
  by (rule ext, simp add: place_def head_at_def)+ (rule ext, rule ext, simp add: due_at_def)

text \<open>Dropping an entry in hand.\<close>

lemma lists_at_drop:
  assumes ls: "lists_at b T w L H" and k: "k \<in> H"
  shows "lists_at b (T(k := None)) (w\<lparr>wh_tasks := m\<rparr>) L (H - {k})"
proof -
  note D = lists_atD [OF ls]
  have notin: "k \<notin> set (L y)" for y using D(4) [OF k] .
  show ?thesis
  proof (rule lists_atI, unfold same_places)
    show "chain (T(k := None)) (head_at w y) (L y)" if "place w y" for y
      by (rule chain_cong [OF D(6) [OF that]]) (use notin [of y] in auto)
    show "((T(k := None)) k' \<noteq> None) = (k' \<in> H - {k} \<or> (\<exists>y. k' \<in> set (L y)))" for k'
      using D(3) [of k'] notin by (cases "k' = k") auto
    show "due_at b w y (we_deadline e)" if "k' \<in> set (L y)" "(T(k := None)) k' = Some e" for y k' e
      using that D(7) by (cases "k' = k") auto
  qed (use D in auto)
qed

subsection \<open>Draining lower slots\<close>

lemma drain_slot_ok:
  assumes sm: "slot_map_ok sm f" and ls: "lists_at b (f (wh_tasks w)) w L H" and i: "i < length (lv_slots (wh_l0 w))"
  shows "\<exists>m l0. drain_slot sm i (w, ex) = Some (w\<lparr>wh_tasks := m, wh_l0 := l0\<rparr>, ex @ items (f (wh_tasks w)) (L (0, i)))
     \<and> f m = f (wh_tasks w) |` (- set (L (0, i))) \<and> lv_mask l0 = lv_mask (wh_l0 w)
     \<and> length (lv_slots l0) = length (lv_slots (wh_l0 w))
     \<and> lists_at b (f m) (w\<lparr>wh_tasks := m, wh_l0 := l0\<rparr>) (L((0, i) := [])) H"
proof -
  let ?T = "f (wh_tasks w)" and ?l0 = "(wh_l0 w)\<lparr>lv_slots := (lv_slots (wh_l0 w))[i := None]\<rparr>"
  note D = lists_atD [OF ls]
  have x: "place w (0, i)" using i by (simp add: place_def)
  have ch: "chain ?T (lv_slots (wh_l0 w) ! i) (L (0, i))" using D(6) [OF x] by (simp add: head_at_def)
  obtain m where m: "drain_list sm (wh_tasks w) (lv_slots (wh_l0 w) ! i) ex = Some (m, ex @ items ?T (L (0, i)))"
    "f m = ?T |` (- set (L (0, i)))"
    using drain_list_ok [OF sm ch D(1)] by blast
  have run: "\<exists>m l0. drain_slot sm i (w, ex) = Some (w\<lparr>wh_tasks := m, wh_l0 := l0\<rparr>, ex @ items ?T (L (0, i)))
      \<and> f m = ?T |` (- set (L (0, i))) \<and> lv_mask l0 = lv_mask (wh_l0 w) \<and> lv_slots l0 = (lv_slots (wh_l0 w))[i := None]"
  proof (cases "lv_slots (wh_l0 w) ! i")
    case None
    then have "L (0, i) = []" using chain_head [OF ch] by simp
    then show ?thesis using None
      by (intro exI [of _ "wh_tasks w"] exI [of _ "wh_l0 w"])
        (simp add: drain_slot_def restrict_map_def, metis list_update_id)
  next
    case (Some h)
    then show ?thesis using m by (intro exI [of _ m] exI [of _ ?l0]) (simp add: drain_slot_def)
  qed
  then obtain m' l0 where r: "drain_slot sm i (w, ex) = Some (w\<lparr>wh_tasks := m', wh_l0 := l0\<rparr>, ex @ items ?T (L (0, i)))"
    "f m' = ?T |` (- set (L (0, i)))" "lv_mask l0 = lv_mask (wh_l0 w)" "lv_slots l0 = (lv_slots (wh_l0 w))[i := None]" by blast
  let ?w = "w\<lparr>wh_tasks := m', wh_l0 := l0\<rparr>"
  have same: "place ?w = place w" "due_at b ?w = due_at b w" "head_at ?w y = (if y = (0, i) then None else head_at w y)"
    if "place w y" for y
    using r(4) i by (simp_all add: place_def due_at_def head_at_def fun_eq_iff, cases y) (auto simp: nth_list_update)
  have pl: "place ?w = place w" "due_at b ?w = due_at b w" using r(4) by (simp_all add: place_def due_at_def fun_eq_iff)
  have mem: "k \<in> set ((L((0, i) := [])) y) \<longleftrightarrow> y \<noteq> (0, i) \<and> k \<in> set (L y)" for k y by auto
  have "lists_at b (f m') ?w (L((0, i) := [])) H"
    unfolding r(2)
  proof (rule lists_atI, unfold pl)
    show "distinct ((L((0, i) := [])) y)" for y using D(1) by simp
    show "y = z" if "k \<in> set ((L((0, i) := [])) y)" "k \<in> set ((L((0, i) := [])) z)" for y z k
      using that D(2) unfolding mem by blast
    show "((?T |` (- set (L (0, i)))) k \<noteq> None) = (k \<in> H \<or> (\<exists>y. k \<in> set ((L((0, i) := [])) y)))" for k
    proof (cases "k \<in> set (L (0, i))")
      case True
      then have "\<not> (\<exists>y. y \<noteq> (0, i) \<and> k \<in> set (L y))" "k \<notin> H" using D(2) D(4) by blast+
      then show ?thesis using True unfolding mem by (simp add: restrict_map_def)
    next
      case False
      then have "(\<exists>y. y \<noteq> (0, i) \<and> k \<in> set (L y)) \<longleftrightarrow> (\<exists>y. k \<in> set (L y))" by metis
      then show ?thesis using False D(3) [of k] unfolding mem by (simp add: restrict_map_def)
    qed
    show "k \<notin> set ((L((0, i) := [])) y)" if "k \<in> H" for k y using D(4) [OF that] unfolding mem by blast
    show "(L((0, i) := [])) y = []" if "\<not> place w y" for y using D(5) [OF that] by simp
    show "chain (?T |` (- set (L (0, i)))) (head_at ?w y) ((L((0, i) := [])) y)" if y: "place w y" for y
    proof (cases "y = (0, i)")
      case False
      then have "k \<notin> set (L (0, i))" if "k \<in> set (L y)" for k using D(2) that by metis
      then have "chain (?T |` (- set (L (0, i)))) (head_at w y) (L y)"
        by (intro chain_cong [OF D(6) [OF y]]) (simp add: restrict_map_def)
      then show ?thesis using False same(3) [OF y] by simp
    qed (use same(3) [OF y] in simp)
    show "due_at b w y (we_deadline e)" if "k \<in> set ((L((0, i) := [])) y)" "(?T |` (- set (L (0, i)))) k = Some e" for y k e
      using that D(7) unfolding mem by (auto simp: restrict_map_def split: if_splits)
  qed
  then show ?thesis using r by (metis length_list_update)
qed

lemma drain_slots_ok:
  assumes sm: "slot_map_ok sm f"
  shows "\<lbrakk>lists_at b (f (wh_tasks w)) w L H; set is \<subseteq> {..<length (lv_slots (wh_l0 w))}\<rbrakk> \<Longrightarrow>
     \<exists>m l0 ks. drain_slots sm is (w, ex) = Some (w\<lparr>wh_tasks := m, wh_l0 := l0\<rparr>, ex @ items (f (wh_tasks w)) ks)
     \<and> distinct ks \<and> set ks = (\<Union>i \<in> set is. set (L (0, i))) \<and> f m = f (wh_tasks w) |` (- set ks)
     \<and> lv_mask l0 = lv_mask (wh_l0 w) \<and> length (lv_slots l0) = length (lv_slots (wh_l0 w))
     \<and> lists_at b (f m) (w\<lparr>wh_tasks := m, wh_l0 := l0\<rparr>) (\<lambda>x. if fst x = 0 \<and> snd x \<in> set is then [] else L x) H"
proof (induction "is" arbitrary: w L ex)
  case Nil
  then show ?case
    by (intro exI [of _ "wh_tasks w"] exI [of _ "wh_l0 w"] exI [of _ "[]"]) (simp add: restrict_map_def)
next
  case (Cons i "is")
  let ?T = "f (wh_tasks w)"
  have i: "i < length (lv_slots (wh_l0 w))" using Cons.prems(2) by simp
  obtain m l0 where 1: "drain_slot sm i (w, ex) = Some (w\<lparr>wh_tasks := m, wh_l0 := l0\<rparr>, ex @ items ?T (L (0, i)))"
    "f m = ?T |` (- set (L (0, i)))" "lv_mask l0 = lv_mask (wh_l0 w)" "length (lv_slots l0) = length (lv_slots (wh_l0 w))"
    "lists_at b (f m) (w\<lparr>wh_tasks := m, wh_l0 := l0\<rparr>) (L((0, i) := [])) H"
    using drain_slot_ok [OF sm Cons.prems(1) i] by blast
  let ?w = "w\<lparr>wh_tasks := m, wh_l0 := l0\<rparr>" and ?L = "L((0, i) := [])"
  have pre: "lists_at b (f (wh_tasks ?w)) ?w ?L H" "set is \<subseteq> {..<length (lv_slots (wh_l0 ?w))}" using 1(4,5) Cons.prems(2) by simp_all
  obtain m' l0' ks where 2: "drain_slots sm is (?w, ex @ items ?T (L (0, i)))
      = Some (?w\<lparr>wh_tasks := m', wh_l0 := l0'\<rparr>, (ex @ items ?T (L (0, i))) @ items (f m) ks)"
    "distinct ks" "set ks = (\<Union>i \<in> set is. set (?L (0, i)))" "f m' = f m |` (- set ks)"
    "lv_mask l0' = lv_mask l0" "length (lv_slots l0') = length (lv_slots l0)"
    "lists_at b (f m') (?w\<lparr>wh_tasks := m', wh_l0 := l0'\<rparr>) (\<lambda>x. if fst x = 0 \<and> snd x \<in> set is then [] else ?L x) H"
    using Cons.IH [OF pre, of "ex @ items ?T (L (0, i))"] by auto
  note D = lists_atD [OF Cons.prems(1)]
  have sub: "set ks \<subseteq> (\<Union>j \<in> set is - {i}. set (L (0, j)))" unfolding 2(3) by (auto split: if_splits)
  have dis: "set (L (0, i)) \<inter> set ks = {}"
  proof (rule ccontr)
    assume "set (L (0, i)) \<inter> set ks \<noteq> {}"
    then obtain k j where "k \<in> set (L (0, i))" "k \<in> set (L (0, j))" "j \<noteq> i" using sub by blast
    then show False using D(2) by blast
  qed
  have "items (f m) ks = items ?T ks" by (rule items_cong) (use dis 1(2) in \<open>auto simp: live_def restrict_map_def\<close>)
  moreover have "set (L (0, i) @ ks) = (\<Union>j \<in> set (i # is). set (L (0, j)))" unfolding set_append 2(3) by (auto split: if_splits)
  moreover have "f m' = ?T |` (- set (L (0, i) @ ks))" using 1(2) 2(4) by (auto simp: restrict_map_def fun_eq_iff)
  moreover have "(\<lambda>x. if fst x = 0 \<and> snd x \<in> set is then [] else ?L x) = (\<lambda>x. if fst x = 0 \<and> snd x \<in> set (i # is) then [] else L x)"
    by (auto simp: fun_eq_iff)
  moreover have "distinct (L (0, i) @ ks)" using 2(2) D(1) dis by simp
  ultimately show ?case
    using 1(1,3,4) 2(1,5,6,7) by (intro exI [of _ m'] exI [of _ l0'] exI [of _ "L (0, i) @ ks"]) simp
qed

subsection \<open>Cascading an upper slot\<close>

definition due :: "('k \<rightharpoonup> ('a, 'k) wheel_entry) \<Rightarrow> nat \<Rightarrow> 'k \<Rightarrow> bool" where
  "due T g k \<longleftrightarrow> (case live T k of Some p \<Rightarrow> fst p \<le> g | None \<Rightarrow> False)"

definition same_geometry :: "('m, 'k) wheel \<Rightarrow> ('m, 'k) wheel \<Rightarrow> bool" where
  "same_geometry w w' \<longleftrightarrow> wh_l1_tick_ratio w' = wh_l1_tick_ratio w \<and> wh_l0_capacity_ticks w' = wh_l0_capacity_ticks w
     \<and> wh_tick_duration_ms w' = wh_tick_duration_ms w
     \<and> length (lv_slots (wh_l0 w')) = length (lv_slots (wh_l0 w)) \<and> length (lv_slots (wh_l1 w')) = length (lv_slots (wh_l1 w))
     \<and> lv_mask (wh_l0 w') = lv_mask (wh_l0 w) \<and> lv_mask (wh_l1 w') = lv_mask (wh_l1 w)"

lemma same_geometry_shape: "same_geometry w w' \<Longrightarrow> shape_ok w \<Longrightarrow> wh_global_tick w' < 2 ^ 64 \<Longrightarrow> shape_ok w'"
  by (simp add: same_geometry_def shape_ok_def)

lemma same_geometry_place: "same_geometry w w' \<Longrightarrow> place w' = place w"
  by (simp add: same_geometry_def place_def fun_eq_iff)

lemma same_geometry_trans: "same_geometry a b \<Longrightarrow> same_geometry b c \<Longrightarrow> same_geometry a c"
  by (simp add: same_geometry_def)

lemma lists_at_weaken:
  assumes ls: "lists_at b T w L H" and w': "same_geometry w w'" "\<And>x. place w x \<Longrightarrow> head_at w' x = head_at w x"
    and due: "\<And>x k e. k \<in> set (L x) \<Longrightarrow> T k = Some e \<Longrightarrow> due_at b w x (we_deadline e) \<Longrightarrow> due_at b' w' x (we_deadline e)"
  shows "lists_at b' T w' L H"
proof -
  note D = lists_atD [OF ls]
  show ?thesis
  proof (rule lists_atI, unfold same_geometry_place [OF w'(1)])
    show "chain T (head_at w' x) (L x)" if "place w x" for x using D(6) [OF that] w'(2) [OF that] by simp
    show "due_at b' w' x (we_deadline e)" if "k \<in> set (L x)" "T k = Some e" for x k e
      using due [OF that D(7) [OF that]] .
  qed (fact D)+
qed

lemma live_remove: "live (T(k := None)) = (live T)(k := None)"
  by (auto simp: live_def fun_eq_iff)

lemma cascade_list_ok:
  assumes sm: "slot_map_ok sm f"
  shows "\<lbrakk>shape_ok w; lists_at (wh_global_tick w + 1) (f (wh_tasks w)) w L (set ks); chain (f (wh_tasks w)) h ks; distinct ks;
     \<forall>k e. k \<in> set ks \<longrightarrow> f (wh_tasks w) k = Some e \<longrightarrow> we_deadline e < 2 ^ 64\<rbrakk> \<Longrightarrow>
     \<exists>w' L'. cascade_list sm h w ex = Some (w', ex @ items (f (wh_tasks w)) (filter (due (f (wh_tasks w)) (wh_global_tick w)) ks))
     \<and> lists_at (wh_global_tick w + 1) (f (wh_tasks w')) w' L' {} \<and> same_geometry w w' \<and> wh_global_tick w' = wh_global_tick w
     \<and> live (f (wh_tasks w')) = (\<lambda>k. if k \<in> set ks \<and> due (f (wh_tasks w)) (wh_global_tick w) k then None else live (f (wh_tasks w)) k)"
proof (induction ks arbitrary: h w L ex)
  case Nil
  then show ?case by (subst cascade_list.simps) (auto simp: same_geometry_def)
next
  case (Cons k ks)
  let ?T = "f (wh_tasks w)" and ?g = "wh_global_tick w"
  obtain e where e: "h = Some k" "?T k = Some e" "chain ?T (we_next e) ks" "k \<notin> set ks" "distinct ks" using Cons.prems(3,4) by auto
  have d64: "we_deadline e < 2 ^ 64" using Cons.prems(5) e(2) by simp
  have H: "set (k # ks) - {k} = set ks" using e(4) by auto
  have get: "sm_get sm k (wh_tasks w) = Some e" using slot_mapD(4) [OF sm] e(2) by simp
  have "\<exists>w1 L1 ex1. cascade_list sm h w ex = cascade_list sm (we_next e) w1 ex1
      \<and> ex1 = ex @ items ?T (filter (due ?T ?g) [k]) \<and> shape_ok w1 \<and> same_geometry w w1 \<and> wh_global_tick w1 = ?g
      \<and> lists_at (?g + 1) (f (wh_tasks w1)) w1 L1 (set ks) \<and> (\<forall>j. j \<noteq> k \<longrightarrow> f (wh_tasks w1) j = ?T j)
      \<and> live (f (wh_tasks w1)) k = (if due ?T ?g k then None else live ?T k)"
  proof (cases "we_item e = None \<or> we_deadline e \<le> ?g")
    case True
    obtain m r where rem: "sm_remove sm k (wh_tasks w) = (m, r)" by fastforce
    have m: "r = Some e" "f m = ?T(k := None)" using slot_mapD(3) [OF sm rem] e(2) by auto
    let ?w = "w\<lparr>wh_tasks := m\<rparr>"
    have "lists_at (?g + 1) (f (wh_tasks ?w)) ?w L (set ks)"
      using lists_at_drop [OF Cons.prems(2), of k m] H m(2) by simp
    moreover have "same_geometry w ?w" "shape_ok ?w" using Cons.prems(1) by (simp_all add: same_geometry_def shape_ok_def)
    moreover have "cascade_list sm h w ex = cascade_list sm (we_next e) ?w (ex @ items ?T (filter (due ?T ?g) [k]))"
      using True e(1,2) get rem m(1) by (subst cascade_list.simps) (auto simp: due_def live_def split: option.splits)
    moreover have "live (f (wh_tasks ?w)) k = (if due ?T ?g k then None else live ?T k)"
      using True e(2) m(2) by (auto simp: live_def due_def split: option.splits)
    ultimately show ?thesis using m(2) by (intro exI [of _ ?w] exI [of _ L]) auto
  next
    case False
    obtain l i where x: "determine_location (we_deadline e) w = Some (l, i)" "place w (l, i)"
      "due_at (?g + 1) w (l, i) (we_deadline e)"
      using location_ok [OF Cons.prems(1), of "we_deadline e"] False d64 by auto
    let ?w = "link sm k l i w"
    note lk = link_ok [OF sm Cons.prems(2) _ e(2) x(2,3)]
    have "lists_at (?g + 1) (f (wh_tasks ?w)) ?w (L((l, i) := k # L (l, i))) (set ks)" using lk(1) H by simp
    moreover have "same_geometry w ?w" "shape_ok ?w" using Cons.prems(1) by (simp_all add: same_geometry_def)
    moreover have "\<not> due ?T ?g k" using False e(2) by (auto simp: due_def live_def)
    moreover have "cascade_list sm h w ex = cascade_list sm (we_next e) ?w ex"
      using False e(1) get x(1) by (subst cascade_list.simps) auto
    moreover have "f (wh_tasks ?w) j = ?T j" if "j \<noteq> k" for j using link_tasks [OF sm e(2)] that by simp
    ultimately show ?thesis using lk(2) by (intro exI [of _ ?w] exI [of _ "L((l, i) := k # L (l, i))"]) simp
  qed
  then obtain w1 L1 where 1: "cascade_list sm h w ex = cascade_list sm (we_next e) w1 (ex @ items ?T (filter (due ?T ?g) [k]))"
    "shape_ok w1" "same_geometry w w1" "wh_global_tick w1 = ?g" "lists_at (?g + 1) (f (wh_tasks w1)) w1 L1 (set ks)"
    "\<forall>j. j \<noteq> k \<longrightarrow> f (wh_tasks w1) j = ?T j" "live (f (wh_tasks w1)) k = (if due ?T ?g k then None else live ?T k)"
    by blast
  have T1: "f (wh_tasks w1) j = ?T j" if "j \<in> set ks" for j using 1(6) e(4) that by metis
  have ch: "chain (f (wh_tasks w1)) (we_next e) ks" by (rule chain_cong [OF e(3) T1])
  have d1: "\<forall>k' e'. k' \<in> set ks \<longrightarrow> f (wh_tasks w1) k' = Some e' \<longrightarrow> we_deadline e' < 2 ^ 64"
    using Cons.prems(5) T1 by simp
  have ls1: "lists_at (wh_global_tick w1 + 1) (f (wh_tasks w1)) w1 L1 (set ks)" using 1(4,5) by simp
  obtain w' L' where 2: "cascade_list sm (we_next e) w1 (ex @ items ?T (filter (due ?T ?g) [k]))
      = Some (w', (ex @ items ?T (filter (due ?T ?g) [k])) @ items (f (wh_tasks w1)) (filter (due (f (wh_tasks w1)) ?g) ks))"
    "lists_at (?g + 1) (f (wh_tasks w')) w' L' {}" "same_geometry w1 w'" "wh_global_tick w' = ?g"
    "live (f (wh_tasks w')) = (\<lambda>k. if k \<in> set ks \<and> due (f (wh_tasks w1)) ?g k then None else live (f (wh_tasks w1)) k)"
    using Cons.IH [OF 1(2) ls1 ch e(5) d1, where ex = "ex @ items ?T (filter (due ?T ?g) [k])"] unfolding 1(4) by blast
  have lv: "live (f (wh_tasks w1)) j = live ?T j" "due (f (wh_tasks w1)) ?g j = due ?T ?g j" if "j \<noteq> k" for j
    using 1(6) that by (simp_all add: live_def due_def)
  have "filter (due (f (wh_tasks w1)) ?g) ks = filter (due ?T ?g) ks" using lv(2) e(4) by (intro filter_cong) (auto, metis+)
  moreover have "items (f (wh_tasks w1)) (filter (due ?T ?g) ks) = items ?T (filter (due ?T ?g) ks)"
    by (rule items_cong, rule lv(1)) (use e(4) in auto)
  moreover have "live (f (wh_tasks w')) = (\<lambda>j. if j \<in> set (k # ks) \<and> due ?T ?g j then None else live ?T j)"
  proof
    fix j show "live (f (wh_tasks w')) j = (if j \<in> set (k # ks) \<and> due ?T ?g j then None else live ?T j)"
      using 2(5) 1(7) lv [of j] e(4) by (cases "j = k") (auto simp: fun_eq_iff)
  qed
  ultimately show ?case using 1(1,3) 2 same_geometry_trans [OF 1(3) 2(3)] items_simps(2) [of ?T "filter (due ?T ?g) [k]"]
    by (intro exI [of _ w'] exI [of _ L']) (auto split: option.splits if_splits)
qed

subsection \<open>Advancing\<close>

text \<open>The lower slots visited by a step are those of the deadlines it passes.\<close>

lemma slot_visited:
  assumes d: "g < d" "d < g + C" and C: "step < (C :: nat)"
  shows "d mod C \<in> (\<lambda>i. (g + i) mod C) ` set [1..<step + 1] \<longleftrightarrow> d \<le> g + step"
proof
  assume "d mod C \<in> (\<lambda>i. (g + i) mod C) ` set [1..<step + 1]"
  then obtain i where i: "1 \<le> i" "i \<le> step" "d mod C = (g + i) mod C" by auto
  show "d \<le> g + step"
  proof (rule ccontr)
    assume "\<not> d \<le> g + step"
    then have lt: "g + i < d" using i(2) by simp
    have "C dvd d - (g + i)" using i(3) lt by (metis less_or_eq_imp_le mod_eq_dvd_iff_nat)
    moreover have "0 < d - (g + i)" "d - (g + i) < C" using lt d i(1) by linarith+
    ultimately show False using nat_dvd_not_less by blast
  qed
next
  assume "d \<le> g + step"
  then have "d - g \<in> set [1..<step + 1]" "g + (d - g) = d" using d by auto
  then show "d mod C \<in> (\<lambda>i. (g + i) mod C) ` set [1..<step + 1]" by (metis image_eqI)
qed

text \<open>A multiple of the ratio ahead is not before the next cascade point.\<close>

lemma next_cascade:
  assumes "(R :: nat) > 0" "g + 1 \<le> q * R" "step \<le> R - g mod R"
  shows "g + step \<le> q * R"
proof -
  have "g div R < q" using assms(1,2) by (metis div_less_iff_less_mult less_eq_Suc_le Suc_eq_plus1)
  then have "(g div R + 1) * R \<le> q * R" by (intro mult_le_mono1) simp
  moreover have "(g div R + 1) * R = g div R * R + R" by simp
  then have "(g div R + 1) * R = g + (R - g mod R)"
    using mod_less_divisor [OF assms(1), of g] div_mult_mod_eq [of g R] by linarith
  ultimately show ?thesis using assms(3) by linarith
qed

lemma due_at_level1: "\<lbrakk>due_at b w x d; fst x \<noteq> 0\<rbrakk> \<Longrightarrow> b \<le> d div wh_l1_tick_ratio w * wh_l1_tick_ratio w
    \<and> snd x = d div wh_l1_tick_ratio w mod length (lv_slots (wh_l1 w)) \<and> d < 2 ^ 64"
  by (simp add: due_at_def)

lemma due_at_raise:
  assumes "due_at g w x d" "g = wh_global_tick w" "fst x \<noteq> 0 \<Longrightarrow> d div wh_l1_tick_ratio w * wh_l1_tick_ratio w \<noteq> g"
  shows "due_at (g + 1) w x d"
  using assms by (auto simp: due_at_def)

text \<open>First phase: the lower slots, then the clock.\<close>

lemma step_lower:
  assumes sm: "slot_map_ok sm f" and sh: "shape_ok w" and ls: "lists_at (wh_global_tick w + 1) (f (wh_tasks w)) w L {}"
    and st: "0 < step" "step \<le> wh_l1_tick_ratio w - wh_global_tick w mod wh_l1_tick_ratio w" "wh_global_tick w + step < 2 ^ 64"
  shows "\<exists>w1 ks L1. drain_slots sm (if wh_l0_capacity_ticks w \<le> step then [0..<length (lv_slots (wh_l0 w))]
              else map (\<lambda>i. as_u64 (wh_global_tick w + i) AND lv_mask (wh_l0 w)) [1..<step + 1]) (w, ex)
            = Some (w1, ex @ items (f (wh_tasks w)) ks)
     \<and> distinct ks \<and> f (wh_tasks w1) = f (wh_tasks w) |` (- set ks) \<and> wh_global_tick w1 = wh_global_tick w
     \<and> (\<forall>k \<in> set ks. \<exists>e. f (wh_tasks w) k = Some e \<and> we_deadline e \<le> wh_global_tick w + step)
     \<and> same_geometry w (w1\<lparr>wh_global_tick := wh_global_tick w + step\<rparr>)
     \<and> lists_at (wh_global_tick w + step) (f (wh_tasks w1)) (w1\<lparr>wh_global_tick := wh_global_tick w + step\<rparr>) L1 {}"
proof -
  let ?g = "wh_global_tick w" and ?C = "length (lv_slots (wh_l0 w))" and ?R = "wh_l1_tick_ratio w" and ?T = "f (wh_tasks w)"
  let ?is = "if wh_l0_capacity_ticks w \<le> step then [0..<?C] else map (\<lambda>i. as_u64 (?g + i) AND lv_mask (wh_l0 w)) [1..<step + 1]"
  have C: "wh_l0_capacity_ticks w = ?C" "0 < ?R" "?R \<le> ?C" using sh by (auto simp: shape_ok_def)
  note D = lists_atD [OF ls]
  have "map (\<lambda>i. as_u64 (?g + i) AND lv_mask (wh_l0 w)) [1..<step + 1] = map (\<lambda>i. (?g + i) mod ?C) [1..<step + 1]"
    using mask_index(1) [OF sh] st(3) by (intro map_cong) auto
  then have is_eq: "?is = (if ?C \<le> step then [0..<?C] else map (\<lambda>i. (?g + i) mod ?C) [1..<step + 1])" using C(1) by simp
  have sub: "set ?is \<subseteq> {..<?C}" unfolding is_eq using mask_index(3) [OF sh] by auto
  have visited: "snd x \<in> set ?is \<longleftrightarrow> we_deadline e \<le> ?g + step" if "k \<in> set (L x)" "?T k = Some e" "fst x = 0" for x k e
  proof -
    have d: "?g < we_deadline e" "we_deadline e < ?g + ?C" "snd x = we_deadline e mod ?C"
      using D(7) [OF that(1,2)] that(3) C(1) by (auto simp: due_at_def)
    show ?thesis
    proof (cases "?C \<le> step")
      case True
      then show ?thesis unfolding is_eq using d mask_index(3) [OF sh] by simp
    next
      case False
      then show ?thesis unfolding is_eq using slot_visited [OF d(1,2), of step] d(3) by simp
    qed
  qed
  obtain m l0 ks where r: "drain_slots sm ?is (w, ex) = Some (w\<lparr>wh_tasks := m, wh_l0 := l0\<rparr>, ex @ items ?T ks)"
    "distinct ks" "set ks = (\<Union>i \<in> set ?is. set (L (0, i)))" "f m = ?T |` (- set ks)"
    "lv_mask l0 = lv_mask (wh_l0 w)" "length (lv_slots l0) = ?C"
    "lists_at (?g + 1) (f m) (w\<lparr>wh_tasks := m, wh_l0 := l0\<rparr>) (\<lambda>x. if fst x = 0 \<and> snd x \<in> set ?is then [] else L x) {}"
    using drain_slots_ok [OF sm ls sub, of ex] by blast
  let ?w1 = "w\<lparr>wh_tasks := m, wh_l0 := l0\<rparr>" and ?L1 = "\<lambda>x. if fst x = 0 \<and> snd x \<in> set ?is then [] else L x"
  let ?w2 = "?w1\<lparr>wh_global_tick := ?g + step\<rparr>"
  have geo: "same_geometry w ?w2" "same_geometry ?w1 ?w2" using r(5,6) by (simp_all add: same_geometry_def)
  have "lists_at (?g + step) (f m) ?w2 ?L1 {}"
  proof (rule lists_at_weaken [OF r(7) geo(2)])
    fix x k e assume k: "k \<in> set (?L1 x)" "f m k = Some e" and d: "due_at (?g + 1) ?w1 x (we_deadline e)"
    have T: "k \<in> set (L x)" "?T k = Some e" using k r(4) by (auto simp: restrict_map_def split: if_splits)
    show "due_at (?g + step) ?w2 x (we_deadline e)"
    proof (cases "fst x = 0")
      case True
      then have "?g + step < we_deadline e" using visited [OF T True] k(1) by (auto split: if_splits)
      then show ?thesis using d True r(6) by (simp add: due_at_def)
    next
      case False
      then show ?thesis using d next_cascade [OF C(2) _ st(2), of "we_deadline e div ?R"] by (simp add: due_at_def)
    qed
  qed (simp add: head_at_def)
  moreover have "\<exists>e. ?T k = Some e \<and> we_deadline e \<le> ?g + step" if k: "k \<in> set ks" for k
  proof -
    obtain i where i: "i \<in> set ?is" "k \<in> set (L (0, i))" using k r(3) by blast
    moreover obtain e where "?T k = Some e" using D(3) [of k] i(2) by blast
    ultimately show ?thesis using visited [of k "(0, i)" e] by simp
  qed
  ultimately show ?thesis using r(1,2,4) geo(1) by (intro exI [of _ ?w1] exI [of _ ks] exI [of _ ?L1]) simp
qed

text \<open>Second phase: the cascade, if the clock stands at a cascade point.\<close>

lemma step_upper:
  assumes sm: "slot_map_ok sm f" and sh: "shape_ok w" and ls: "lists_at (wh_global_tick w) (f (wh_tasks w)) w L {}"
  shows "\<exists>w' ks. cascade_due sm w ex = Some (w', ex @ items (f (wh_tasks w)) ks)
     \<and> distinct ks \<and> (\<forall>k \<in> set ks. due (f (wh_tasks w)) (wh_global_tick w) k)
     \<and> live (f (wh_tasks w')) = (\<lambda>k. if k \<in> set ks then None else live (f (wh_tasks w)) k)
     \<and> wheel_inv f w' \<and> same_geometry w w' \<and> wh_global_tick w' = wh_global_tick w"
proof -
  let ?g = "wh_global_tick w" and ?R = "wh_l1_tick_ratio w" and ?M = "length (lv_slots (wh_l1 w))" and ?T = "f (wh_tasks w)"
  note D = lists_atD [OF ls]
  have R: "0 < ?R" using sh by (simp add: shape_ok_def)
  have mult: "is_multiple_of ?g ?R \<longleftrightarrow> ?g mod ?R = 0" using R by (simp add: is_multiple_of_def)
  show ?thesis
  proof (cases "?g mod ?R = 0")
    case False
    have "lists_at (?g + 1) ?T w L {}"
    proof (rule lists_at_weaken [OF ls])
      fix x k e assume "due_at ?g w x (we_deadline e)"
      moreover have "we_deadline e div ?R * ?R \<noteq> ?g" using False by (metis mod_mult_self2_is_0)
      ultimately show "due_at (?g + 1) w x (we_deadline e)" by (intro due_at_raise) simp_all
    qed (simp_all add: same_geometry_def)
    then have "wheel_inv f w" using sh by (auto simp: wheel_inv_def)
    then show ?thesis using False mult by (intro exI [of _ w] exI [of _ "[]"]) (simp add: cascade_due_def same_geometry_def)
  next
    case True
    let ?j = "?g div ?R mod ?M" and ?x = "(1 :: nat, ?g div ?R mod ?M)"
    let ?w = "w\<lparr>wh_l1 := (wh_l1 w)\<lparr>lv_slots := (lv_slots (wh_l1 w))[?j := None]\<rparr>\<rparr>"
    note m = mask_index(2,4) [OF sh]
    have x: "place w ?x" "head_at w ?x = lv_slots (wh_l1 w) ! ?j" using m(2) by (simp_all add: place_def head_at_def)
    have ahead: "due_at (?g + 1) w y d" if d: "due_at ?g w y d" and y: "y \<noteq> ?x" "place w y" for y d
    proof (rule due_at_raise [OF d refl])
      assume f: "fst y \<noteq> 0"
      then have l: "fst y = 1" using y(2) by (auto simp: place_def)
      show "d div ?R * ?R \<noteq> ?g"
      proof
        assume "d div ?R * ?R = ?g"
        then have "d div ?R = ?g div ?R" using R by (metis nonzero_mult_div_cancel_right less_numeral_extra(3))
        then show False using due_at_level1 [OF d f] l y(1) by (simp add: prod_eq_iff)
      qed
    qed
    have ls2: "lists_at (?g + 1) ?T ?w (L(?x := [])) (set (L ?x))"
    proof (rule lists_atI)
      have pl: "place ?w = place w" by (simp add: place_def fun_eq_iff)
      have hd: "head_at ?w y = (if y = ?x then None else head_at w y)" if "place w y" for y
        using m(2) that by (cases y) (auto simp: head_at_def place_def nth_list_update)
      have mem: "k \<in> set ((L(?x := [])) y) \<longleftrightarrow> y \<noteq> ?x \<and> k \<in> set (L y)" for k y by simp
      show "distinct ((L(?x := [])) y)" for y using D(1) by simp
      show "y = z" if "k \<in> set ((L(?x := [])) y)" "k \<in> set ((L(?x := [])) z)" for y z k
        using that D(2) unfolding mem by metis
      show "(?T k \<noteq> None) = (k \<in> set (L ?x) \<or> (\<exists>y. k \<in> set ((L(?x := [])) y)))" for k
        using D(3) [of k] unfolding mem by (metis empty_iff)
      show "k \<notin> set ((L(?x := [])) y)" if "k \<in> set (L ?x)" for y k using that D(2) unfolding mem by metis
      show "(L(?x := [])) y = []" if "\<not> place ?w y" for y using D(5) that pl by simp
      show "chain ?T (head_at ?w y) ((L(?x := [])) y)" if "place ?w y" for y
        using D(6) [of y] hd [of y] that pl by (cases "y = ?x") simp_all
      show "due_at (?g + 1) ?w y (we_deadline e)" if "k \<in> set ((L(?x := [])) y)" "?T k = Some e" for y k e
      proof -
        have k: "y \<noteq> ?x" "k \<in> set (L y)" using that(1) unfolding mem by simp_all
        then have "place w y" using D(5) [of y] by force
        then have "due_at (?g + 1) w y (we_deadline e)" using ahead [OF D(7) [OF k(2) that(2)] k(1)] by simp
        then show ?thesis by (simp add: due_at_def)
      qed
    qed
    have tk: "wh_global_tick ?w = ?g" "wh_tasks ?w = wh_tasks w" by simp_all
    have ls3: "lists_at (wh_global_tick ?w + 1) (f (wh_tasks ?w)) ?w (L(?x := [])) (set (L ?x))" unfolding tk by (rule ls2)
    have sh2: "shape_ok ?w" using sh by (simp add: shape_ok_def)
    have ch: "chain (f (wh_tasks ?w)) (head_at w ?x) (L ?x)" using D(6) [OF x(1)] by simp
    have d64: "\<forall>k e. k \<in> set (L ?x) \<longrightarrow> f (wh_tasks ?w) k = Some e \<longrightarrow> we_deadline e < 2 ^ 64"
      using D(7) by (auto simp: due_at_def)
    let ?ks = "filter (due ?T ?g) (L ?x)"
    obtain w' L' where c: "cascade_list sm (head_at w ?x) ?w ex = Some (w', ex @ items ?T ?ks)"
      "lists_at (?g + 1) (f (wh_tasks w')) w' L' {}" "same_geometry ?w w'" "wh_global_tick w' = ?g"
      "live (f (wh_tasks w')) = (\<lambda>k. if k \<in> set (L ?x) \<and> due ?T ?g k then None else live ?T k)"
      using cascade_list_ok [OF sm sh2 ls3 ch D(1) d64, where ex = ex] unfolding tk by blast
    have geo: "same_geometry w w'" using c(3) by (simp add: same_geometry_def)
    have inv: "wheel_inv f w'"
      using c(2,4) same_geometry_shape [OF geo sh] sh by (auto simp: wheel_inv_def shape_ok_def)
    show ?thesis
    proof (cases "lv_slots (wh_l1 w) ! ?j")
      case None
      then have "L ?x = []" using chain_head [OF ch] x(2) by simp
      have "?w = w" using None by (metis (no_types) list_update_id surjective level.surjective level.update_convs(1) wheel.surjective wheel.update_convs(3))
      then have "w' = w" using c(1) None x(2) by (subst (asm) cascade_list.simps) simp
      then show ?thesis using None True mult m(1) inv geo \<open>L ?x = []\<close>
        by (intro exI [of _ w] exI [of _ "[]"]) (simp add: cascade_due_def)
    next
      case (Some h)
      then show ?thesis using True mult m(1) c(1,4,5) inv geo x(2) D(1)
        by (intro exI [of _ w'] exI [of _ ?ks]) (auto simp: cascade_due_def fun_eq_iff)
    qed
  qed
qed

lemma due_iff: "due T g k \<longleftrightarrow> (\<exists>d x. live T k = Some (d, x) \<and> d \<le> g)"
  by (auto simp: due_def split: option.splits)

lemma wheel_inv_ahead:
  assumes "wheel_inv f w" "live (f (wh_tasks w)) k = Some (d, x)"
  shows "wh_global_tick w < d" "d < 2 ^ 64"
proof -
  let ?T = "f (wh_tasks w)" and ?R = "wh_l1_tick_ratio w"
  obtain L where ls: "lists_at (wh_global_tick w + 1) ?T w L {}" using assms(1) by (auto simp: wheel_inv_def)
  obtain e where e: "?T k = Some e" "we_deadline e = d" using assms(2) by (auto simp: live_def split: option.splits)
  then obtain y where "k \<in> set (L y)" using lists_atD(3) [OF ls, of k] by auto
  then have "due_at (wh_global_tick w + 1) w y d" using lists_atD(7) [OF ls] e by metis
  moreover have "d div ?R * ?R \<le> d" by simp
  ultimately show "wh_global_tick w < d" "d < 2 ^ 64" by (auto simp: due_at_def simp del: div_times_less_eq_dividend split: if_splits)
qed

text \<open>What advancing by \<open>n\<close> ticks promises: the timers \<open>ks\<close> fire, each once, and they are those
  whose deadline is reached; the others are kept.\<close>

definition fires ::
  "('m \<Rightarrow> 'k \<rightharpoonup> ('a, 'k) wheel_entry) \<Rightarrow> ('m, 'k) wheel \<Rightarrow> nat \<Rightarrow> ('m, 'k) wheel \<Rightarrow> 'k list \<Rightarrow> bool" where
  "fires f w n w' ks \<longleftrightarrow> distinct ks \<and> set ks = {k. due (f (wh_tasks w)) (wh_global_tick w + n) k}
     \<and> live (f (wh_tasks w')) = (\<lambda>k. if due (f (wh_tasks w)) (wh_global_tick w + n) k then None else live (f (wh_tasks w)) k)
     \<and> wheel_inv f w' \<and> same_geometry w w' \<and> wh_global_tick w' = wh_global_tick w + n"

lemma firesI:
  assumes ks: "distinct ks" "\<And>k. k \<in> set ks \<Longrightarrow> live (f (wh_tasks w)) k \<noteq> None \<Longrightarrow> due (f (wh_tasks w)) (wh_global_tick w + n) k"
    and lv: "live (f (wh_tasks w')) = (\<lambda>k. if k \<in> set ks then None else live (f (wh_tasks w)) k)"
    and inv: "wheel_inv f w'" "same_geometry w w'" "wh_global_tick w' = wh_global_tick w + n"
  shows "fires f w n w' (filter (\<lambda>k. live (f (wh_tasks w)) k \<noteq> None) ks)"
proof -
  let ?T = "f (wh_tasks w)" and ?g = "wh_global_tick w + n"
  have iff: "k \<in> set ks \<and> live ?T k \<noteq> None \<longleftrightarrow> due ?T ?g k" for k
  proof
    show "k \<in> set ks \<and> live ?T k \<noteq> None \<Longrightarrow> due ?T ?g k" using ks(2) by blast
    assume d: "due ?T ?g k"
    then obtain dl x where l: "live ?T k = Some (dl, x)" "dl \<le> ?g" by (auto simp: due_iff)
    have "k \<in> set ks"
    proof (rule ccontr)
      assume "k \<notin> set ks"
      then have "live (f (wh_tasks w')) k = Some (dl, x)" using lv l(1) by simp
      then show False using wheel_inv_ahead(1) [OF inv(1), of k] inv(3) l(2) by (metis leD)
    qed
    then show "k \<in> set ks \<and> live ?T k \<noteq> None" using l(1) by simp
  qed
  have "live (f (wh_tasks w')) = (\<lambda>k. if due ?T ?g k then None else live ?T k)"
  proof
    show "live (f (wh_tasks w')) k = (if due ?T ?g k then None else live ?T k)" for k using lv iff [of k] by (cases "live ?T k") auto
  qed
  then show ?thesis using ks(1) iff inv by (auto simp: fires_def)
qed

lemma fires_trans:
  assumes 1: "fires f w a w1 ks1" and 2: "fires f w1 b w2 ks2"
  shows "fires f w (a + b) w2 (ks1 @ ks2)"
    "items (f (wh_tasks w)) (ks1 @ ks2) = items (f (wh_tasks w)) ks1 @ items (f (wh_tasks w1)) ks2"
proof -
  let ?T = "f (wh_tasks w)" and ?T1 = "f (wh_tasks w1)" and ?g = "wh_global_tick w"
  note f1 = 1 [unfolded fires_def] and f2 = 2 [unfolded fires_def]
  have ks: "k \<in> set ks1 \<longleftrightarrow> due ?T (?g + a) k" "k \<in> set ks2 \<longleftrightarrow> due ?T1 (?g + a + b) k" for k using f1 f2 by auto
  have lv: "live ?T1 k = (if due ?T (?g + a) k then None else live ?T k)" for k using f1 by auto
  have split: "due ?T (?g + (a + b)) k \<longleftrightarrow> due ?T (?g + a) k \<or> due ?T1 (?g + a + b) k" for k
    using lv [of k] by (auto simp: due_iff)
  have dis: "\<not> due ?T (?g + a) k" if "due ?T1 (?g + a + b) k" for k using that lv [of k] by (auto simp: due_iff)
  have "distinct (ks1 @ ks2)" using f1 f2 ks dis by auto
  moreover have "set (ks1 @ ks2) = {k. due ?T (?g + (a + b)) k}" using ks split by auto
  moreover have "live (f (wh_tasks w2)) = (\<lambda>k. if due ?T (?g + (a + b)) k then None else live ?T k)"
    using f1 f2 split by (auto simp: fun_eq_iff)
  ultimately show "fires f w (a + b) w2 (ks1 @ ks2)"
    using f1 f2 same_geometry_trans [of w w1 w2] by (simp add: fires_def)
  have "items ?T ks2 = items ?T1 ks2" by (rule items_cong) (use ks(2) dis lv in auto)
  then show "items ?T (ks1 @ ks2) = items ?T ks1 @ items ?T1 ks2" by simp
qed

lemma items_filter: "items T (filter (\<lambda>k. live T k \<noteq> None) ks) = items T ks"
  by (simp add: items_def)

lemma advance_step_ok:
  assumes sm: "slot_map_ok sm f" and inv: "wheel_inv f w"
    and st: "0 < step" "step \<le> wh_l1_tick_ratio w - wh_global_tick w mod wh_l1_tick_ratio w" "wh_global_tick w + step < 2 ^ 64"
  shows "\<exists>w' ks. advance_step sm step (w, ex) = Some (w', ex @ items (f (wh_tasks w)) ks) \<and> fires f w step w' ks"
proof -
  let ?T = "f (wh_tasks w)" and ?g = "wh_global_tick w"
  obtain L where sh: "shape_ok w" and ls: "lists_at (?g + 1) ?T w L {}" using inv by (auto simp: wheel_inv_def)
  obtain w1 ks1 L1 where 1: "drain_slots sm (if wh_l0_capacity_ticks w \<le> step then [0..<length (lv_slots (wh_l0 w))]
              else map (\<lambda>i. as_u64 (?g + i) AND lv_mask (wh_l0 w)) [1..<step + 1]) (w, ex) = Some (w1, ex @ items ?T ks1)"
    "distinct ks1" "f (wh_tasks w1) = ?T |` (- set ks1)" "wh_global_tick w1 = ?g"
    "\<forall>k \<in> set ks1. \<exists>e. ?T k = Some e \<and> we_deadline e \<le> ?g + step" "same_geometry w (w1\<lparr>wh_global_tick := ?g + step\<rparr>)"
    "lists_at (?g + step) (f (wh_tasks w1)) (w1\<lparr>wh_global_tick := ?g + step\<rparr>) L1 {}"
    using step_lower [OF sm sh ls st] by blast
  let ?w2 = "w1\<lparr>wh_global_tick := ?g + step\<rparr>" and ?T1 = "f (wh_tasks w1)"
  have tk: "wh_global_tick ?w2 = ?g + step" "wh_tasks ?w2 = wh_tasks w1" by simp_all
  have sh2: "shape_ok ?w2" using same_geometry_shape [OF 1(6) sh] st(3) by simp
  have ls2: "lists_at (wh_global_tick ?w2) (f (wh_tasks ?w2)) ?w2 L1 {}" unfolding tk by (rule 1(7))
  have tick: "as_u64 (wh_global_tick w1 + step) = ?g + step" using 1(4) st(3) by simp
  obtain w' ks2 where 2: "advance_step sm step (w, ex) = Some (w', (ex @ items ?T ks1) @ items ?T1 ks2)"
    "distinct ks2" "\<forall>k \<in> set ks2. due ?T1 (?g + step) k"
    "live (f (wh_tasks w')) = (\<lambda>k. if k \<in> set ks2 then None else live ?T1 k)"
    "wheel_inv f w'" "same_geometry ?w2 w'" "wh_global_tick w' = ?g + step"
    using step_upper [OF sm sh2 ls2, where ex = "ex @ items ?T ks1"] unfolding tk
    unfolding advance_step_def prod.case 1(1) option.case tick by blast
  have lv1: "live ?T1 k = (if k \<in> set ks1 then None else live ?T k)" for k unfolding 1(3) by (simp add: live_def)
  have dis: "k \<notin> set ks1" "live ?T k = live ?T1 k" if "k \<in> set ks2" for k
    using 2(3) that lv1 [of k] by (auto simp: due_def split: if_splits)
  have it: "items ?T1 ks2 = items ?T ks2" by (rule items_cong) (use dis(2) in simp)
  have fr: "fires f w step w' (filter (\<lambda>k. live ?T k \<noteq> None) (ks1 @ ks2))"
  proof (rule firesI)
    show "distinct (ks1 @ ks2)" using 1(2) 2(2) dis(1) by auto
    show "due ?T (?g + step) k" if "k \<in> set (ks1 @ ks2)" "live ?T k \<noteq> None" for k
    proof (cases "k \<in> set ks1")
      case True
      then obtain e where "?T k = Some e" "we_deadline e \<le> ?g + step" using 1(5) by blast
      then show ?thesis using that(2) by (auto simp: due_def live_def split: option.splits)
    next
      case False
      then have "k \<in> set ks2" using that(1) by simp
      then show ?thesis using 2(3) dis(2) [of k] by (simp add: due_def)
    qed
    show "live (f (wh_tasks w')) = (\<lambda>k. if k \<in> set (ks1 @ ks2) then None else live ?T k)"
      using 2(4) lv1 by (auto simp: fun_eq_iff)
  qed (use 2 same_geometry_trans [OF 1(6) 2(6)] in simp_all)
  have "advance_step sm step (w, ex) = Some (w', ex @ items ?T (filter (\<lambda>k. live ?T k \<noteq> None) (ks1 @ ks2)))"
    using 2(1) it unfolding items_filter by simp
  then show ?thesis using fr by blast
qed

lemma advance_loop_ok:
  assumes sm: "slot_map_ok sm f"
  shows "\<lbrakk>wheel_inv f w; wh_global_tick w + n < 2 ^ 64; n \<noteq> 0\<rbrakk> \<Longrightarrow>
    \<exists>w' ks. advance_loop sm n (w, ex) = Some (w', ex @ items (f (wh_tasks w)) ks) \<and> fires f w n w' ks"
proof (induction n arbitrary: w ex rule: less_induct)
  case (less n)
  let ?T = "f (wh_tasks w)" and ?g = "wh_global_tick w" and ?R = "wh_l1_tick_ratio w"
  define step where "step = min n (?R - ?g mod ?R)"
  have R: "?R \<noteq> 0" using less.prems(1) by (auto simp: wheel_inv_def shape_ok_def)
  then have st: "0 < step" "step \<le> ?R - ?g mod ?R" "?g + step < 2 ^ 64" "step \<le> n" "n - step < n"
    using less.prems(2,3) by (auto simp: step_def min_def)
  obtain w1 ks1 where 1: "advance_step sm step (w, ex) = Some (w1, ex @ items ?T ks1)" "fires f w step w1 ks1"
    using advance_step_ok [OF sm less.prems(1) st(1-3)] by blast
  have loop: "advance_loop sm n (w, ex) = advance_loop sm (n - step) (w1, ex @ items ?T ks1)"
    using less.prems(3) R 1(1) by (subst advance_loop.simps) (simp add: step_def [symmetric] Let_def)
  have w1: "wheel_inv f w1" "wh_global_tick w1 = ?g + step" using 1(2) by (simp_all add: fires_def)
  show ?case
  proof (cases "n - step = 0")
    case True
    then have "step = n" using st(4) by simp
    then show ?thesis using loop 1(2) by (auto simp: advance_loop.simps)
  next
    case False
    then obtain w2 ks2 where 2: "advance_loop sm (n - step) (w1, ex @ items ?T ks1)
        = Some (w2, (ex @ items ?T ks1) @ items (f (wh_tasks w1)) ks2)" "fires f w1 (n - step) w2 ks2"
      using less.IH [OF st(5) w1(1)] w1(2) less.prems(2) st(4) by fastforce
    have "fires f w n w2 (ks1 @ ks2)" using fires_trans(1) [OF 1(2) 2(2)] st(4) by simp
    then show ?thesis using loop 2(1) fires_trans(2) [OF 1(2) 2(2)] by (intro exI [of _ w2] exI [of _ "ks1 @ ks2"]) simp
  qed
qed

subsection \<open>The operations on a wheel\<close>

lemma delay_ticks_le: "shape_ok w \<Longrightarrow> delay_to_ticks d w \<le> as_millis d"
  by (metis as_u64_def delay_to_ticks_def div_le_dividend le_trans mod_less_eq_dividend)

lemma wheel_advance_ok:
  assumes sm: "slot_map_ok sm f" and inv: "wheel_inv f w" and n: "wh_global_tick w + delay_to_ticks elapsed w < 2 ^ 64"
  shows "\<exists>w' ks. wheel_advance sm elapsed w ex = Some (w', ex @ items (f (wh_tasks w)) ks) \<and> fires f w (delay_to_ticks elapsed w) w' ks"
proof (cases "delay_to_ticks elapsed w = 0")
  case True
  have "\<not> due (f (wh_tasks w)) (wh_global_tick w) k" for k
    using wheel_inv_ahead(1) [OF inv, of k] by (auto simp: due_iff)
  then have "fires f w 0 w []" using inv by (simp add: fires_def same_geometry_def)
  then show ?thesis using True by (intro exI [of _ w] exI [of _ "[]"]) (simp add: wheel_advance_def)
next
  case False
  then show ?thesis using advance_loop_ok [OF sm inv n False] by (simp add: wheel_advance_def)
qed

lemma lists_at_insert:
  assumes sm: "slot_map_ok sm f" and ls: "lists_at b T w L {}" and k: "T k = None"
  shows "lists_at b (T(k \<mapsto> e)) (w\<lparr>wh_tasks := m\<rparr>) L {k}"
proof -
  note D = lists_atD [OF ls]
  have notin: "k \<notin> set (L y)" for y using D(3) [of k] k by blast
  show ?thesis
  proof (rule lists_atI, unfold same_places)
    show "chain (T(k \<mapsto> e)) (head_at w y) (L y)" if "place w y" for y
      by (rule chain_cong [OF D(6) [OF that]]) (use notin [of y] in auto)
    show "((T(k \<mapsto> e)) k' \<noteq> None) = (k' \<in> {k} \<or> (\<exists>y. k' \<in> set (L y)))" for k'
      using D(3) [of k'] by (cases "k' = k") auto
    show "due_at b w y (we_deadline e')" if "k' \<in> set (L y)" "(T(k \<mapsto> e)) k' = Some e'" for y k' e'
      using that D(7) notin by (cases "k' = k") auto
  qed (use D notin in auto)
qed

lemma wheel_insert_ok:
  assumes sm: "slot_map_ok sm f" and inv: "wheel_inv f w"
    and n: "wh_global_tick w + max (delay_to_ticks delay w) 1 < 2 ^ 64"
  shows "\<exists>w' key. wheel_insert sm item delay w = Some (w', key) \<and> f (wh_tasks w) key = None \<and> wheel_inv f w' \<and> same_geometry w w'
     \<and> wh_global_tick w' = wh_global_tick w
     \<and> live (f (wh_tasks w')) = (live (f (wh_tasks w)))(key \<mapsto> (wh_global_tick w + max (delay_to_ticks delay w) 1, item))"
proof -
  let ?T = "f (wh_tasks w)" and ?g = "wh_global_tick w"
  let ?d = "?g + max (delay_to_ticks delay w) 1"
  obtain L where sh: "shape_ok w" and ls: "lists_at (?g + 1) ?T w L {}" using inv by (auto simp: wheel_inv_def)
  obtain l i where x: "determine_location ?d w = Some (l, i)" "place w (l, i)" "due_at (?g + 1) w (l, i) ?d"
    using location_ok [OF sh, of ?d] n by (auto simp: max_def split: if_splits)
  define e where "e = \<lparr>we_item = Some item, we_deadline = ?d, we_next = None :: 'b option, we_level = l mod 2 ^ 8, we_slot_index = i mod 2 ^ 32\<rparr>"
  obtain m key where mk: "sm_insert sm e (wh_tasks w) = (m, key)" by fastforce
  have T: "?T key = None" "f m = ?T(key \<mapsto> e)" using slot_mapD(2) [OF sm mk] by auto
  let ?w1 = "w\<lparr>wh_tasks := m\<rparr>"
  let ?w' = "link sm key l i ?w1"
  have run: "wheel_insert sm item delay w = Some (?w', key)"
    using n x(1) mk unfolding wheel_insert_def Let_def by (simp add: e_def)
  have ls1: "lists_at (?g + 1) (f (wh_tasks ?w1)) ?w1 L {key}" using lists_at_insert [OF sm ls T(1)] T(2) by simp
  have x1: "place ?w1 (l, i)" "due_at (?g + 1) ?w1 (l, i) (we_deadline e)" unfolding same_places using x(2,3) by (simp_all only: e_def wheel_entry.simps)
  have k1: "key \<in> {key}" "f (wh_tasks ?w1) key = Some e" using T(2) by simp_all
  note lk = link_ok [OF sm ls1 k1 x1]
  have geo: "same_geometry w ?w'" by (simp add: same_geometry_def)
  have "wheel_inv f ?w'" using lk(1) same_geometry_shape [OF geo sh] sh by (auto simp: wheel_inv_def shape_ok_def)
  moreover have "live (f (wh_tasks ?w')) = (live ?T)(key \<mapsto> (?d, item))"
    unfolding lk(2) using T(2) by (auto simp: live_def e_def fun_eq_iff)
  ultimately show ?thesis using run T(1) geo by simp
qed

lemma lists_at_modify:
  assumes ls: "lists_at b T w L H" and k: "T k = Some e" "we_next e' = we_next e" "we_deadline e' = we_deadline e"
  shows "lists_at b (T(k \<mapsto> e')) (w\<lparr>wh_tasks := m\<rparr>) L H"
proof -
  note D = lists_atD [OF ls]
  have ch: "chain T h ks \<Longrightarrow> chain (T(k \<mapsto> e')) h ks" for h ks
    by (induction ks arbitrary: h) (use k in auto)
  show ?thesis
  proof (rule lists_atI, unfold same_places)
    show "((T(k \<mapsto> e')) k' \<noteq> None) = (k' \<in> H \<or> (\<exists>y. k' \<in> set (L y)))" for k'
      using D(3) [of k'] k(1) by (cases "k' = k") auto
    show "due_at b w y (we_deadline e1)" if "k' \<in> set (L y)" "(T(k \<mapsto> e')) k' = Some e1" for y k' e1
      using that D(7) k by (cases "k' = k") auto
  qed (use D ch in auto)
qed

lemma wheel_cancel_ok:
  assumes sm: "slot_map_ok sm f" and inv: "wheel_inv f w"
  shows "snd (wheel_cancel sm key w) = map_option snd (live (f (wh_tasks w)) key)"
    "live (f (wh_tasks (fst (wheel_cancel sm key w)))) = (live (f (wh_tasks w)))(key := None)"
    "wheel_inv f (fst (wheel_cancel sm key w))" "wh_global_tick (fst (wheel_cancel sm key w)) = wh_global_tick w"
proof -
  let ?T = "f (wh_tasks w)" and ?g = "wh_global_tick w"
  let ?w = "fst (wheel_cancel sm key w)"
  obtain L where sh: "shape_ok w" and ls: "lists_at (?g + 1) ?T w L {}" using inv by (auto simp: wheel_inv_def)
  note get = slot_mapD(4) [OF sm] and mod = slot_mapD(5) [OF sm]
  show "snd (wheel_cancel sm key w) = map_option snd (live ?T key)"
    by (cases "?T key") (simp_all add: wheel_cancel_def get live_def option.map_comp comp_def option.map_ident)
  show "live (f (wh_tasks ?w)) = (live ?T)(key := None)"
    by (cases "?T key") (auto simp: wheel_cancel_def get mod live_def fun_eq_iff)
  show tick: "wh_global_tick ?w = ?g" by (cases "?T key") (simp_all add: wheel_cancel_def get)
  show "wheel_inv f ?w"
  proof (cases "?T key")
    case None
    then show ?thesis using inv by (simp add: wheel_cancel_def get)
  next
    case (Some e)
    let ?m = "sm_modify sm key (\<lambda>e. e\<lparr>we_item := None\<rparr>) (wh_tasks w)"
    have w: "?w = w\<lparr>wh_tasks := ?m\<rparr>" "f ?m = ?T(key \<mapsto> e\<lparr>we_item := None\<rparr>)" using Some by (simp_all add: wheel_cancel_def get mod)
    have "lists_at (?g + 1) (f (wh_tasks ?w)) ?w L {}" unfolding w(1) using lists_at_modify [OF ls Some, of "e\<lparr>we_item := None\<rparr>" ?m] w(2) by simp
    moreover have "shape_ok ?w" unfolding w(1) using sh by (simp add: shape_ok_def)
    ultimately show ?thesis using tick by (auto simp: wheel_inv_def)
  qed
qed

end
