(* ===== verification/Timer_Queue.thy ===== *)
theory Timer_Queue
  imports Timer_Wheel_Inv
begin

text \<open>
  The timer wheel as a timer queue: the contract of \<^verbatim>\<open>Timer_Interface\<close> discharged by the wheel,
  the timer engine of the completion-port driver (\<^verbatim>\<open>iocp/src/driver/polling.rs\<close>) on top of it,
  and the configurations and states on which the wheel misses a deadline.
\<close>

subsection \<open>A new wheel\<close>

lemma is_power_of_two_ex: "is_power_of_two n \<Longrightarrow> \<exists>a. n = 2 ^ a"
proof (induction n rule: is_power_of_two.induct)
  case (1 n)
  show ?case
  proof (cases "n < 2")
    case True
    then show ?thesis using "1.prems" by (subst (asm) is_power_of_two.simps) (auto intro: exI [of _ 0])
  next
    case False
    then have e: "even n" "is_power_of_two (n div 2)"
      using "1.prems" by (subst (asm) is_power_of_two.simps, simp split: if_splits)+
    then obtain a where "n div 2 = 2 ^ a" using "1.IH" [OF False e(1)] by blast
    then have "n = 2 ^ Suc a" using e(1) by auto
    then show ?thesis by blast
  qed
qed

definition config_ratio :: "wheel_config \<Rightarrow> nat" where
  "config_ratio c = as_u64 (as_millis (l1_tick_duration c)) div max (as_u64 (as_millis (l0_tick_duration c))) 1"

lemma config_buildD:
  assumes "config_build c = Inr c'"
  shows "c' = c" "\<exists>a. l0_slot_count c = 2 ^ a" "\<exists>b. l1_slot_count c = 2 ^ b"
  using assms is_power_of_two_ex by (auto simp: config_build_def Let_def split: if_splits)

lemma wheel_new_ok:
  assumes sm: "slot_map_ok sm f" and c: "config_build c = Inr c'" "0 < config_ratio c" "config_ratio c \<le> l0_slot_count c"
  shows "\<exists>w. wheel_new sm c' = Some w \<and> wheel_inv f w \<and> f (wh_tasks w) = Map.empty \<and> wh_global_tick w = 0
     \<and> wh_l1_tick_ratio w = config_ratio c \<and> wh_tick_duration_ms w = max (as_u64 (as_millis (l0_tick_duration c))) 1"
proof -
  note C = config_buildD [OF c(1)]
  obtain a b where ab: "l0_slot_count c = 2 ^ a" "l1_slot_count c = 2 ^ b" using C by blast
  define w :: "('a, 'b) wheel" where "w = \<lparr>wh_tasks = sm_new sm, wh_l0 = \<lparr>lv_slots = replicate (2 ^ a) None, lv_mask = 2 ^ a - 1\<rparr>,
    wh_l1 = \<lparr>lv_slots = replicate (2 ^ b) None, lv_mask = 2 ^ b - 1\<rparr>, wh_global_tick = 0,
    wh_tick_duration_ms = max (as_u64 (as_millis (l0_tick_duration c))) 1, wh_l1_tick_ratio = config_ratio c, wh_l0_capacity_ticks = 2 ^ a\<rparr>"
  have new: "wheel_new sm c = Some w" using ab by (simp add: wheel_new_def level_new_def config_ratio_def Let_def w_def)
  have sh: "shape_ok w" using c(2,3) ab by (auto simp: shape_ok_def w_def)
  have T: "f (wh_tasks w) = Map.empty" using slot_mapD(1) [OF sm] by (simp add: w_def)
  have "lists_at (wh_global_tick w + 1) (f (wh_tasks w)) w (\<lambda>_. []) {}"
    unfolding T by (rule lists_atI) (auto simp: place_def head_at_def w_def)
  then show ?thesis using new sh T C(1) by (auto simp: wheel_inv_def w_def)
qed

subsection \<open>The contract\<close>

text \<open>The state of the queue is a slot map, its meaning and a wheel.\<close>

type_synonym ('m, 'k, 'a) wheel_state =
  "('m, 'k, ('a, 'k) wheel_entry) slot_map_ops \<times> ('m \<Rightarrow> 'k \<rightharpoonup> ('a, 'k) wheel_entry) \<times> ('m, 'k) wheel"

definition ws_inv :: "('m, 'k, 'a) wheel_state \<Rightarrow> bool" where
  "ws_inv = (\<lambda>(sm, f, w). slot_map_ok sm f \<and> wheel_inv f w)"

definition ws_now :: "('m, 'k, 'a) wheel_state \<Rightarrow> nat" where
  "ws_now = (\<lambda>(sm, f, w). wh_global_tick w)"

definition ws_pending :: "('m, 'k, 'a) wheel_state \<Rightarrow> 'k \<rightharpoonup> nat \<times> 'a" where
  "ws_pending = (\<lambda>(sm, f, w). live (f (wh_tasks w)))"

definition ws_insert :: "'a \<Rightarrow> duration \<Rightarrow> ('m, 'k, 'a) wheel_state \<Rightarrow> (('m, 'k, 'a) wheel_state \<times> 'k) option" where
  "ws_insert x d = (\<lambda>(sm, f, w). map_option (\<lambda>(w', k). ((sm, f, w'), k)) (wheel_insert sm x d w))"

definition ws_cancel :: "'k \<Rightarrow> ('m, 'k, 'a) wheel_state \<Rightarrow> ('m, 'k, 'a) wheel_state \<times> 'a option" where
  "ws_cancel k = (\<lambda>(sm, f, w). ((sm, f, fst (wheel_cancel sm k w)), snd (wheel_cancel sm k w)))"

definition ws_advance :: "duration \<Rightarrow> ('m, 'k, 'a) wheel_state \<Rightarrow> 'a list \<Rightarrow> (('m, 'k, 'a) wheel_state \<times> 'a list) option" where
  "ws_advance d = (\<lambda>(sm, f, w) ex. map_option (\<lambda>(w', ex'). ((sm, f, w'), ex')) (wheel_advance sm d w ex))"

lemma ws_steps:
  "ws_insert x d (sm, f, w) = map_option (\<lambda>(w', k). ((sm, f, w'), k)) (wheel_insert sm x d w)"
  "fst (ws_cancel k (sm, f, w)) = (sm, f, fst (wheel_cancel sm k w))"
  "ws_advance d (sm, f, w) ex = map_option (\<lambda>(w', ex'). ((sm, f, w'), ex')) (wheel_advance sm d w ex)"
  by (simp_all add: ws_insert_def ws_cancel_def ws_advance_def)

lemmas ws_defs = ws_inv_def ws_now_def ws_pending_def ws_insert_def ws_cancel_def ws_advance_def

lemma items_due: "\<forall>k \<in> set ks. due T g k \<Longrightarrow> items T ks = map (\<lambda>k. snd (the (live T k))) ks"
  unfolding items_def by (subst filter_True) (auto simp: due_iff)

lemma shape_of_inv: "wheel_inv f w \<Longrightarrow> shape_ok w"
  by (simp add: wheel_inv_def)

interpretation wheel: timer_queue "ws_inv :: ('m, 'k, 'a) wheel_state \<Rightarrow> bool" ws_now ws_pending as_millis "2 ^ 64" ws_insert ws_cancel ws_advance
proof
  fix s :: "('m, 'k, 'a) wheel_state" and d x assume inv: "ws_inv s" and b: "ws_now s + as_millis d + 1 < 2 ^ 64"
  obtain sm f w where s: "s = (sm, f, w)" by (cases s) auto
  have i: "slot_map_ok sm f" "wheel_inv f w" using inv by (simp_all add: s ws_defs)
  have n: "wh_global_tick w + max (delay_to_ticks d w) 1 < 2 ^ 64"
    using b delay_ticks_le [OF shape_of_inv [OF i(2)], of d] by (auto simp: s ws_defs max_def)
  obtain w' k where 1: "wheel_insert sm x d w = Some (w', k)" "f (wh_tasks w) k = None" "wheel_inv f w'"
    "wh_global_tick w' = wh_global_tick w"
    "live (f (wh_tasks w')) = (live (f (wh_tasks w)))(k \<mapsto> (wh_global_tick w + max (delay_to_ticks d w) 1, x))"
    using wheel_insert_ok [OF i n, of x] by blast
  have "live (f (wh_tasks w)) k = None" using 1(2) by (simp add: live_def)
  moreover have "wh_global_tick w < wh_global_tick w + max (delay_to_ticks d w) 1" by (simp add: max_def)
  ultimately show "\<exists>s' k t. ws_insert x d s = Some (s', k) \<and> ws_inv s' \<and> ws_now s' = ws_now s \<and> ws_pending s k = None
      \<and> ws_now s < t \<and> ws_pending s' = (ws_pending s)(k \<mapsto> (t, x))"
    using 1 i(1) unfolding s by (intro exI [of _ "(sm, f, w')"] exI [of _ k] exI [of _ "wh_global_tick w + max (delay_to_ticks d w) 1"])
      (simp only: ws_defs prod.case option.map fun_upd_apply simp_thms)
next
  fix s :: "('m, 'k, 'a) wheel_state" and k assume inv: "ws_inv s"
  obtain sm f w where s: "s = (sm, f, w)" by (cases s) auto
  have i: "slot_map_ok sm f" "wheel_inv f w" using inv by (simp_all add: s ws_defs)
  show "ws_inv (fst (ws_cancel k s)) \<and> ws_now (fst (ws_cancel k s)) = ws_now s \<and> snd (ws_cancel k s) = map_option snd (ws_pending s k)
      \<and> ws_pending (fst (ws_cancel k s)) = (ws_pending s)(k := None)"
    using wheel_cancel_ok [OF i, of k] i(1) by (simp add: s ws_defs)
next
  fix s :: "('m, 'k, 'a) wheel_state" and d ex assume inv: "ws_inv s" and b: "ws_now s + as_millis d < 2 ^ 64"
  obtain sm f w where s: "s = (sm, f, w)" by (cases s) auto
  have i: "slot_map_ok sm f" "wheel_inv f w" using inv by (simp_all add: s ws_defs)
  note le = delay_ticks_le [OF shape_of_inv [OF i(2)], of d]
  then have n: "wh_global_tick w + delay_to_ticks d w < 2 ^ 64" using b by (simp add: s ws_defs)
  obtain w' ks where 1: "wheel_advance sm d w ex = Some (w', ex @ items (f (wh_tasks w)) ks)" "fires f w (delay_to_ticks d w) w' ks"
    using wheel_advance_ok [OF i n] by blast
  have "items (f (wh_tasks w)) ks = map (\<lambda>k. snd (the (live (f (wh_tasks w)) k))) ks"
    by (rule items_due) (use 1(2) in \<open>auto simp: fires_def\<close>)
  moreover have "live (f (wh_tasks w')) = (\<lambda>k. if k \<in> set ks then None else live (f (wh_tasks w)) k)"
    using 1(2) by (simp add: fires_def)
  ultimately show "\<exists>s' ks. ws_advance d s ex = Some (s', ex @ map (\<lambda>k. snd (the (ws_pending s k))) ks) \<and> ws_inv s'
      \<and> ws_now s \<le> ws_now s' \<and> ws_now s' \<le> ws_now s + as_millis d \<and> distinct ks
      \<and> set ks = {k. \<exists>t x. ws_pending s k = Some (t, x) \<and> t \<le> ws_now s'}
      \<and> ws_pending s' = (\<lambda>k. if k \<in> set ks then None else ws_pending s k)"
    using 1 i(1) le unfolding s ws_defs prod.case
    by (intro exI [of _ "(sm, f, w')"] exI [of _ ks]) (simp add: fires_def due_iff)
qed

text \<open>A run of the queue is a run of the wheel.\<close>

lemma ws_run:
  "timer_run ws_insert ws_cancel ws_advance cs (sm, f, w) ex
     = map_option (\<lambda>(w', ex'). ((sm, f, w'), ex')) (timer_run (wheel_insert sm) (wheel_cancel sm) (wheel_advance sm) cs w ex)"
proof (induction cs arbitrary: w ex)
  case (Cons c cs)
  then show ?case by (cases c) (auto simp: ws_steps split: option.splits)
qed simp

subsection \<open>The timer engine\<close>

text \<open>An \<^verbatim>\<open>Instant\<close> is its number of nanoseconds.\<close>

record ('m, 'k, 'a) timer_engine =
  te_wheel :: "('m, 'k) wheel"
  te_buffer :: "'a list"
  te_last_poll :: nat

definition timer_engine_new :: "('m, 'k, ('a, 'k) wheel_entry) slot_map_ops \<Rightarrow> nat \<Rightarrow> ('m, 'k, 'a) timer_engine option" where
  "timer_engine_new sm now =
     map_option (\<lambda>w. \<lparr>te_wheel = w, te_buffer = [], te_last_poll = now\<rparr>) (wheel_new sm wheel_config_default)"

definition te_next_timeout :: "('m, 'k, ('a, 'k) wheel_entry) slot_map_ops \<Rightarrow> ('m, 'k, 'a) timer_engine \<Rightarrow> duration option option" where
  "te_next_timeout sm te = next_timeout sm (te_wheel te)"

definition te_insert ::
  "('m, 'k, ('a, 'k) wheel_entry) slot_map_ops \<Rightarrow> 'a \<Rightarrow> duration \<Rightarrow> ('m, 'k, 'a) timer_engine \<Rightarrow> (('m, 'k, 'a) timer_engine \<times> 'k) option" where
  "te_insert sm token d te = map_option (\<lambda>(w, k). (te\<lparr>te_wheel := w\<rparr>, k)) (wheel_insert sm token d (te_wheel te))"

definition te_cancel :: "('m, 'k, ('a, 'k) wheel_entry) slot_map_ops \<Rightarrow> 'k \<Rightarrow> ('m, 'k, 'a) timer_engine \<Rightarrow> ('m, 'k, 'a) timer_engine" where
  "te_cancel sm k te = te\<lparr>te_wheel := fst (wheel_cancel sm k (te_wheel te))\<rparr>"

definition te_advance_to ::
  "('m, 'k, ('a, 'k) wheel_entry) slot_map_ops \<Rightarrow> nat \<Rightarrow> ('m, 'k, 'a) timer_engine \<Rightarrow> ('m, 'k, 'a) timer_engine option" where
  "te_advance_to sm now te =
     (let elapsed = now - te_last_poll te;
          tick_ms = as_u64 (as_millis (tick_duration (te_wheel te)))
      in if tick_ms = 0 then None
         else let ticks = as_u64 (as_millis elapsed) div tick_ms
              in if 0 < ticks then
                   map_option (\<lambda>(w, b). te\<lparr>te_wheel := w, te_buffer := b,
                       te_last_poll := te_last_poll te + from_millis (as_u64 (ticks * tick_ms))\<rparr>)
                     (wheel_advance sm elapsed (te_wheel te) (te_buffer te))
                 else Some te)"

definition te_take_buffer :: "('m, 'k, 'a) timer_engine \<Rightarrow> ('m, 'k, 'a) timer_engine \<times> 'a list" where
  "te_take_buffer te = (te\<lparr>te_buffer := []\<rparr>, te_buffer te)"

definition te_restore_cleared_buffer :: "'a list \<Rightarrow> ('m, 'k, 'a) timer_engine \<Rightarrow> ('m, 'k, 'a) timer_engine" where
  "te_restore_cleared_buffer b te = te\<lparr>te_buffer := []\<rparr>"

definition calculate_wait_ms ::
  "('m, 'k, ('a, 'k) wheel_entry) slot_map_ops \<Rightarrow> nat \<Rightarrow> ('m, 'k, 'a) timer_engine \<Rightarrow> nat option" where
  "calculate_wait_ms sm timeout_ms te =
     (case te_next_timeout sm te of
        None \<Rightarrow> None
      | Some None \<Rightarrow> Some timeout_ms
      | Some (Some delay) \<Rightarrow> Some (min timeout_ms (min (as_millis delay) (2 ^ 32 - 1))))"

text \<open>The clock of the engine: \<open>t0\<close> is the instant of tick zero.\<close>

definition tick_ns :: "('m, 'k, 'a) timer_engine \<Rightarrow> nat" where
  "tick_ns te = wh_tick_duration_ms (te_wheel te) * 1000000"

definition engine_inv :: "('m \<Rightarrow> 'k \<rightharpoonup> ('a, 'k) wheel_entry) \<Rightarrow> nat \<Rightarrow> ('m, 'k, 'a) timer_engine \<Rightarrow> bool" where
  "engine_inv f t0 te \<longleftrightarrow> wheel_inv f (te_wheel te) \<and> wh_tick_duration_ms (te_wheel te) < 2 ^ 64
     \<and> te_last_poll te = t0 + wh_global_tick (te_wheel te) * tick_ns te"

text \<open>The ticks passed between the last poll and now, in nanoseconds.\<close>

lemma ticks_passed:
  assumes "0 < (c :: nat)" "d > g" "0 < M"
  shows "d \<le> g + (now - (t0 + g * (c * M))) div M div c \<longleftrightarrow> t0 + d * (c * M) \<le> now"
proof -
  have "now - (t0 + g * (c * M)) = now - t0 - g * (c * M)" by simp
  then have "(now - (t0 + g * (c * M))) div M div c = (now - t0 - g * (c * M)) div (c * M)"
    by (simp add: div_mult2_eq [symmetric] mult.commute)
  moreover have "d - g \<le> (now - t0 - g * (c * M)) div (c * M) \<longleftrightarrow> (d - g) * (c * M) \<le> now - t0 - g * (c * M)"
    using assms(1,3) by (simp add: less_eq_div_iff_mult_less_eq)
  moreover have "(d - g) * (c * M) = d * (c * M) - g * (c * M)" by (simp add: diff_mult_distrib)
  moreover have "g * (c * M) < d * (c * M)" using assms by simp
  ultimately show ?thesis using assms(2) by linarith
qed

lemma te_advance_ok:
  assumes sm: "slot_map_ok sm f" and inv: "engine_inv f t0 te"
    and b: "as_millis (now - te_last_poll te) < 2 ^ 64"
      "wh_global_tick (te_wheel te) + as_millis (now - te_last_poll te) div wh_tick_duration_ms (te_wheel te) < 2 ^ 64"
  shows "\<exists>te' ks. te_advance_to sm now te = Some te' \<and> engine_inv f t0 te' \<and> tick_ns te' = tick_ns te
     \<and> te_buffer te' = te_buffer te @ items (f (wh_tasks (te_wheel te))) ks
     \<and> fires f (te_wheel te) (as_millis (now - te_last_poll te) div wh_tick_duration_ms (te_wheel te)) (te_wheel te') ks"
proof -
  let ?w = "te_wheel te" and ?e = "now - te_last_poll te"
  let ?c = "wh_tick_duration_ms ?w"
  let ?n = "as_millis ?e div ?c"
  have i: "wheel_inv f ?w" "?c < 2 ^ 64" "te_last_poll te = t0 + wh_global_tick ?w * tick_ns te" using inv by (simp_all add: engine_inv_def)
  have c: "0 < ?c" "as_u64 (as_millis (tick_duration ?w)) = ?c"
    using shape_of_inv [OF i(1)] i(2) by (simp_all add: shape_ok_def tick_duration_def as_millis_def from_millis_def)
  have n: "delay_to_ticks ?e ?w = ?n" using b(1) by (simp add: delay_to_ticks_def)
  obtain w' ks where 1: "wheel_advance sm ?e ?w (te_buffer te) = Some (w', te_buffer te @ items (f (wh_tasks ?w)) ks)" "fires f ?w ?n w' ks"
    using wheel_advance_ok [OF sm i(1), of ?e] b(2) unfolding n by blast
  have small: "as_u64 (?n * ?c) = ?n * ?c" using b(1) div_times_less_eq_dividend [of "as_millis ?e" ?c] by (intro as_u64_small) linarith
  show ?thesis
  proof (cases "?n = 0")
    case True
    then have "wheel_advance sm ?e ?w (te_buffer te) = Some (?w, te_buffer te)" using n by (simp add: wheel_advance_def)
    then have "fires f ?w ?n ?w ks" "items (f (wh_tasks ?w)) ks = []" using 1 by auto
    then show ?thesis using True c b(1) inv by (intro exI [of _ te] exI [of _ ks]) (simp add: te_advance_to_def Let_def)
  next
    case False
    let ?te = "te\<lparr>te_wheel := w', te_buffer := te_buffer te @ items (f (wh_tasks ?w)) ks, te_last_poll := te_last_poll te + from_millis (?n * ?c)\<rparr>"
    have "te_advance_to sm now te = Some ?te" using False c b(1) 1(1) small by (simp add: te_advance_to_def Let_def)
    moreover have "engine_inv f t0 ?te" "tick_ns ?te = tick_ns te"
      using 1(2) i by (simp_all add: engine_inv_def fires_def tick_ns_def same_geometry_def from_millis_def algebra_simps)
    ultimately show ?thesis using 1(2) by (intro exI [of _ ?te] exI [of _ ks]) simp
  qed
qed

subsection \<open>A concrete slot map\<close>

text \<open>A slot map whose keys are never used again, and a small wheel with one timer, on which the
  hypotheses below can be seen to hold.\<close>

definition vec_slots :: "('v option list, nat, 'v) slot_map_ops" where
  "vec_slots = \<lparr>sm_new = [], sm_insert = (\<lambda>v m. (m @ [Some v], length m)),
     sm_remove = (\<lambda>k m. (m[k := None], if k < length m then m ! k else None)),
     sm_get = (\<lambda>k m. if k < length m then m ! k else None),
     sm_modify = (\<lambda>k g m. if k < length m then m[k := map_option g (m ! k)] else m),
     sm_is_empty = list_all (\<lambda>x. x = None)\<rparr>"

definition vec_map :: "'v option list \<Rightarrow> nat \<rightharpoonup> 'v" where
  "vec_map m k = (if k < length m then m ! k else None)"

lemma vec_slots_ok: "slot_map_ok vec_slots vec_map"
  unfolding slot_map_ok_def vec_slots_def
  by (auto simp: vec_map_def fun_eq_iff nth_append nth_list_update list_all_length split: option.splits if_splits)

lemma distinct_singleton: "distinct ks \<Longrightarrow> set ks = {k} \<Longrightarrow> ks = [k]"
  by (cases ks; cases "tl ks") auto

lemma slot_array_simps: "replicate 4 x = [x, x, x, x]" "replicate 8 x = [x, x, x, x, x, x, x, x]"
  "(y # xs)[numeral n := x] = y # xs[pred_numeral n := x]"
  by (simp_all add: numeral_eq_Suc)

lemma list_walk_simps:
  "drain_list sm m None ex = Some (m, ex)"
  "drain_list sm m (Some k) ex = (case sm_remove sm k m of
      (m', None) \<Rightarrow> Some (m', ex)
    | (m', Some e) \<Rightarrow> drain_list sm m' (we_next e) (case we_item e of Some item \<Rightarrow> ex @ [item] | None \<Rightarrow> ex))"
  "cascade_list sm None w ex = Some (w, ex)"
  by (subst drain_list.simps cascade_list.simps, simp)+

lemma cascade_list_Some:
  "cascade_list sm (Some k) w ex = (case sm_get sm k (wh_tasks w) of
      None \<Rightarrow> None
    | Some e \<Rightarrow>
        if we_item e = None then cascade_list sm (we_next e) (w\<lparr>wh_tasks := fst (sm_remove sm k (wh_tasks w))\<rparr>) ex
        else if we_deadline e \<le> wh_global_tick w then
          (case sm_remove sm k (wh_tasks w) of
             (tasks', removed) \<Rightarrow> cascade_list sm (we_next e) (w\<lparr>wh_tasks := tasks'\<rparr>)
               (case removed of Some e' \<Rightarrow> (case we_item e' of Some item \<Rightarrow> ex @ [item] | None \<Rightarrow> ex) | None \<Rightarrow> ex))
        else (case determine_location (we_deadline e) w of
                None \<Rightarrow> None | Some (lvl, i) \<Rightarrow> cascade_list sm (we_next e) (link sm k lvl i w) ex))"
  by (subst cascade_list.simps) simp

lemmas duration_simps = as_millis_def from_millis_def as_u64_def
lemmas wheel_run_simps = duration_simps wheel_new_def level_new_def wheel_insert_def delay_to_ticks_def determine_location_def
  wrapping_sub_def link_def vec_slots_def upt_rec slot_array_simps list_walk_simps cascade_list_Some drain_slot_def cascade_due_def
  advance_step_def advance_loop.simps wheel_advance_def is_multiple_of_def Let_def numeral_2_eq_2 [symmetric]

definition demo_config :: wheel_config where
  "demo_config = \<lparr>l0_tick_duration = from_millis 10, l0_slot_count = 4, l1_tick_duration = from_millis 20, l1_slot_count = 4\<rparr>"

definition demo_wheel :: "((nat, nat) wheel_entry option list, nat) wheel" where
  "demo_wheel = \<lparr>wh_tasks = [Some \<lparr>we_item = Some 7, we_deadline = 5, we_next = None, we_level = 1, we_slot_index = 2\<rparr>],
     wh_l0 = \<lparr>lv_slots = [None, None, None, None], lv_mask = 3\<rparr>, wh_l1 = \<lparr>lv_slots = [None, None, Some 0, None], lv_mask = 3\<rparr>,
     wh_global_tick = 0, wh_tick_duration_ms = 10, wh_l1_tick_ratio = 2, wh_l0_capacity_ticks = 4\<rparr>"

lemma demo_run:
  "config_build demo_config = Inr demo_config" "config_ratio demo_config = 2"
  "wheel_new (vec_slots :: (_, nat, (nat, nat) wheel_entry) slot_map_ops) demo_config = Some w \<Longrightarrow> wheel_insert vec_slots 7 (from_millis 50) w = Some (demo_wheel, 0)"
proof -
  show "config_build demo_config = Inr demo_config" "config_ratio demo_config = 2"
    by (simp_all add: demo_config_def config_build_def config_ratio_def is_multiple_of_def is_power_of_two.simps duration_simps Let_def)
  have "wheel_insert vec_slots 7 (from_millis 50) (the (wheel_new (vec_slots :: (_, nat, (nat, nat) wheel_entry) slot_map_ops) demo_config)) = Some (demo_wheel, 0)"
    by (simp add: demo_config_def demo_wheel_def wheel_run_simps Let_def)
  then show "wheel_new (vec_slots :: (_, nat, (nat, nat) wheel_entry) slot_map_ops) demo_config = Some w
    \<Longrightarrow> wheel_insert vec_slots 7 (from_millis 50) w = Some (demo_wheel, 0)" by simp
qed

lemma demo_wheel_ok: "wheel_inv vec_map demo_wheel" "live (vec_map (wh_tasks demo_wheel)) = [0 \<mapsto> (5, 7)]"
proof -
  obtain w where w: "wheel_new (vec_slots :: (_, nat, (nat, nat) wheel_entry) slot_map_ops) demo_config = Some w" "wheel_inv vec_map w" "wh_global_tick w = 0"
    "wh_tick_duration_ms w = max (as_u64 (as_millis (l0_tick_duration demo_config))) 1"
    using wheel_new_ok [OF vec_slots_ok demo_run(1)] demo_run(2) by (auto simp: demo_config_def)
  have n: "wh_global_tick w + max (delay_to_ticks (from_millis 50) w) 1 < 2 ^ 64"
    unfolding delay_to_ticks_def w(3,4) by (simp add: demo_config_def duration_simps)
  have "wheel_insert vec_slots 7 (from_millis 50) w = Some (demo_wheel, 0)" by (rule demo_run(3) [OF w(1)])
  then show "wheel_inv vec_map demo_wheel" using wheel_insert_ok [OF vec_slots_ok w(2) n, of 7] by simp
  show "live (vec_map (wh_tasks demo_wheel)) = [0 \<mapsto> (5, 7)]"
    by (auto simp: demo_wheel_def live_def vec_map_def fun_eq_iff)
qed

subsection \<open>Properties\<close>

text \<open>C32. Advancing the wheel reports exactly the timers whose deadline is reached, each once: after
  the elapsed ticks, the report is extended by the items of a list of keys without repetition, the
  keys of the timers not cancelled with a deadline at most the new tick; every other timer stays,
  the invariant holds again, and the clock has moved by the elapsed ticks. (The slot map is any that
  obeys its documentation, the tick counter does not overflow, and the invariant includes that a tick
  of the upper level is at most one turn of the lower one and not zero, as in the default configuration,
  which is the one the drivers use; the builder accepts others.)\<close>

theorem wheel_advance_exact:
  assumes "slot_map_ok sm f" "wheel_inv f w" "wh_global_tick w + delay_to_ticks elapsed w < 2 ^ 64"
  shows "\<exists>w' ks. wheel_advance sm elapsed w ex = Some (w', ex @ map (\<lambda>k. snd (the (live (f (wh_tasks w)) k))) ks)
     \<and> distinct ks \<and> set ks = {k. \<exists>d x. live (f (wh_tasks w)) k = Some (d, x) \<and> d \<le> wh_global_tick w'}
     \<and> live (f (wh_tasks w')) = (\<lambda>k. if k \<in> set ks then None else live (f (wh_tasks w)) k)
     \<and> wheel_inv f w' \<and> wh_global_tick w' = wh_global_tick w + delay_to_ticks elapsed w"
proof -
  obtain w' ks where 1: "wheel_advance sm elapsed w ex = Some (w', ex @ items (f (wh_tasks w)) ks)" "fires f w (delay_to_ticks elapsed w) w' ks"
    using wheel_advance_ok [OF assms] by blast
  have "items (f (wh_tasks w)) ks = map (\<lambda>k. snd (the (live (f (wh_tasks w)) k))) ks"
    by (rule items_due) (use 1(2) in \<open>auto simp: fires_def\<close>)
  then show ?thesis using 1 by (intro exI [of _ w'] exI [of _ ks]) (simp add: fires_def due_iff)
qed

theorem wheel_advance_exact_witness:
  "\<exists>w'. wheel_advance vec_slots (from_millis 50) demo_wheel [] = Some (w', [7]) \<and> wh_global_tick w' = 5 \<and> wheel_inv vec_map w'"
proof -
  have n: "delay_to_ticks (from_millis 50) demo_wheel = 5" "wh_global_tick demo_wheel = 0"
    by (simp_all add: demo_wheel_def delay_to_ticks_def duration_simps)
  obtain w' ks where 1: "wheel_advance vec_slots (from_millis 50) demo_wheel []
      = Some (w', [] @ map (\<lambda>k. snd (the (live (vec_map (wh_tasks demo_wheel)) k))) ks)" "distinct ks" "wheel_inv vec_map w'" "wh_global_tick w' = 5"
    "set ks = {k. \<exists>d x. live (vec_map (wh_tasks demo_wheel)) k = Some (d, x) \<and> d \<le> wh_global_tick w'}"
    using wheel_advance_exact [OF vec_slots_ok demo_wheel_ok(1), of "from_millis 50" "[]"] n by auto
  have "set ks = {0}" unfolding 1(5) demo_wheel_ok(2) 1(4) by auto
  then have "ks = [0]" by (rule distinct_singleton [OF 1(2)])
  then show ?thesis using 1 demo_wheel_ok(2) by simp
qed

text \<open>C33. No timer is lost and none is early, over any use of the wheel: after any sequence of
  insertions, cancellations of other timers and advances, whose total time does not overflow the
  tick counter, the wheel has not panicked, a pending timer is still pending if its deadline is
  ahead, and its item has been reported if the deadline is reached. As before, a tick of the upper
  level is at most one turn of the lower one and not zero.\<close>

theorem timer_run_complete:
  assumes "slot_map_ok sm f" "wheel_inv f w" "wh_global_tick w + run_span as_millis cs < 2 ^ 64"
    "live (f (wh_tasks w)) k = Some (t, x)" "Cancel_Timer k \<notin> set cs"
  shows "\<exists>w' ex'. timer_run (wheel_insert sm) (wheel_cancel sm) (wheel_advance sm) cs w ex = Some (w', ex')
     \<and> wheel_inv f w' \<and> (wh_global_tick w' < t \<longrightarrow> live (f (wh_tasks w')) k = Some (t, x)) \<and> (t \<le> wh_global_tick w' \<longrightarrow> x \<in> set ex')"
proof -
  let ?s = "(sm, f, w)"
  have s: "ws_inv ?s" "ws_now ?s + run_span as_millis cs < 2 ^ 64" "ws_pending ?s k = Some (t, x)"
    using assms by (simp_all add: ws_defs)
  obtain s' ex' where 1: "timer_run ws_insert ws_cancel ws_advance cs ?s ex = Some (s', ex')" "ws_inv s'"
    using wheel.run_total [OF s(1,2)] by blast
  then obtain w' where 2: "timer_run (wheel_insert sm) (wheel_cancel sm) (wheel_advance sm) cs w ex = Some (w', ex')" "s' = (sm, f, w')"
    unfolding ws_run by auto
  have "ws_now ?s < t" using wheel_inv_ahead(1) [OF assms(2,4)] by (simp add: ws_defs)
  then show ?thesis using wheel.timer_kept_or_reported [OF s assms(5) 1(1)] 1(2) 2 by (simp add: ws_defs)
qed

theorem timer_run_complete_witness:
  "\<exists>w' ex'. timer_run (wheel_insert vec_slots) (wheel_cancel vec_slots) (wheel_advance vec_slots)
     [Insert_Timer 9 (from_millis 30), Advance_Time (from_millis 40), Cancel_Timer 1, Advance_Time (from_millis 15)] demo_wheel [] = Some (w', ex')
     \<and> (5 \<le> wh_global_tick w' \<longrightarrow> 7 \<in> set ex')"
  using timer_run_complete [OF vec_slots_ok demo_wheel_ok(1), where k = 0 and t = 5 and x = 7 and ex = "[]" and
      cs = "[Insert_Timer 9 (from_millis 30), Advance_Time (from_millis 40), Cancel_Timer 1, Advance_Time (from_millis 15)]"]
    demo_wheel_ok(2) by (simp add: duration_simps) (auto simp: demo_wheel_def)

lemma te_advance_due:
  assumes "slot_map_ok sm f" "engine_inv f t0 te" "as_millis (now - te_last_poll te) < 2 ^ 64"
    "wh_global_tick (te_wheel te) + as_millis (now - te_last_poll te) div wh_tick_duration_ms (te_wheel te) < 2 ^ 64"
  shows "\<exists>te' ks. te_advance_to sm now te = Some te' \<and> engine_inv f t0 te'
     \<and> te_buffer te' = te_buffer te @ map (\<lambda>k. snd (the (live (f (wh_tasks (te_wheel te))) k))) ks \<and> distinct ks
     \<and> set ks = {k. \<exists>d x. live (f (wh_tasks (te_wheel te))) k = Some (d, x) \<and> t0 + d * tick_ns te \<le> now}"
proof -
  let ?w = "te_wheel te" and ?n = "as_millis (now - te_last_poll te) div wh_tick_duration_ms (te_wheel te)"
  have i: "wheel_inv f ?w" "te_last_poll te = t0 + wh_global_tick ?w * tick_ns te" using assms(2) by (simp_all add: engine_inv_def)
  have c: "0 < wh_tick_duration_ms ?w" using shape_of_inv [OF i(1)] by (simp add: shape_ok_def)
  obtain te' ks where 1: "te_advance_to sm now te = Some te'" "engine_inv f t0 te'"
    "te_buffer te' = te_buffer te @ items (f (wh_tasks ?w)) ks" "fires f ?w ?n (te_wheel te') ks"
    using te_advance_ok [OF assms] by blast
  have due: "due (f (wh_tasks ?w)) (wh_global_tick ?w + ?n) k \<longleftrightarrow> (\<exists>d x. live (f (wh_tasks ?w)) k = Some (d, x) \<and> t0 + d * tick_ns te \<le> now)" for k
    using ticks_passed [OF c wheel_inv_ahead(1) [OF i(1)], of k _ _ 1000000 now t0] i(2)
    by (auto simp: due_iff tick_ns_def as_millis_def)
  have "items (f (wh_tasks ?w)) ks = map (\<lambda>k. snd (the (live (f (wh_tasks ?w)) k))) ks"
    by (rule items_due) (use 1(4) in \<open>auto simp: fires_def\<close>)
  then show ?thesis using 1 due by (intro exI [of _ te'] exI [of _ ks]) (simp add: fires_def)
qed

text \<open>C34. The timer engine keeps real time: however the polls fall, polling at the instant \<open>now\<close>
  puts into the buffer exactly the timers whose deadline, counted in ticks from the instant \<open>t0\<close>
  of tick zero, is not after \<open>now\<close>, and it keeps the last poll on the boundary of a tick, so that
  the fraction of a tick left over is never lost.\<close>

theorem timer_engine_on_time:
  assumes "slot_map_ok sm f" "engine_inv f t0 te" "as_millis (now - te_last_poll te) < 2 ^ 64"
    "wh_global_tick (te_wheel te) + as_millis (now - te_last_poll te) div wh_tick_duration_ms (te_wheel te) < 2 ^ 64"
  shows "\<exists>te' ks. te_advance_to sm now te = Some te' \<and> engine_inv f t0 te'
     \<and> te_buffer te' = te_buffer te @ map (\<lambda>k. snd (the (live (f (wh_tasks (te_wheel te))) k))) ks \<and> distinct ks
     \<and> set ks = {k. \<exists>d x. live (f (wh_tasks (te_wheel te))) k = Some (d, x) \<and> t0 + d * tick_ns te \<le> now}"
  by (rule te_advance_due [OF assms])

theorem timer_engine_on_time_witness:
  "\<exists>te'. te_advance_to vec_slots (from_millis 155) \<lparr>te_wheel = demo_wheel, te_buffer = [], te_last_poll = from_millis 100\<rparr> = Some te'
     \<and> engine_inv vec_map (from_millis 100) te' \<and> te_buffer te' = [7]"
proof -
  define te where "te = \<lparr>te_wheel = demo_wheel, te_buffer = ([] :: nat list), te_last_poll = from_millis 100\<rparr>"
  have e: "te_wheel te = demo_wheel" "te_buffer te = []" "te_last_poll te = from_millis 100" by (simp_all add: te_def)
  have w: "wh_global_tick demo_wheel = 0" "wh_tick_duration_ms demo_wheel = 10" by (simp_all add: demo_wheel_def)
  have inv: "engine_inv vec_map (from_millis 100) te" using demo_wheel_ok(1) w by (simp add: engine_inv_def e)
  have ms: "as_millis (from_millis 155 - te_last_poll te) = 55" by (simp add: e duration_simps)
  have b: "as_millis (from_millis 155 - te_last_poll te) < 2 ^ 64"
    "wh_global_tick (te_wheel te) + as_millis (from_millis 155 - te_last_poll te) div wh_tick_duration_ms (te_wheel te) < 2 ^ 64"
    unfolding ms e(1) w by simp_all
  have due: "{k. \<exists>d x. [0 \<mapsto> (5, 7 :: nat)] k = Some (d, x) \<and> from_millis 100 + d * tick_ns te \<le> from_millis 155} = {0 :: nat}"
  proof -
    have "[0 \<mapsto> (5, 7 :: nat)] k = Some (d, x) \<longleftrightarrow> k = (0 :: nat) \<and> d = (5 :: nat) \<and> x = 7" for k d x by auto
    moreover have "from_millis 100 + 5 * tick_ns te \<le> from_millis 155" by (simp add: tick_ns_def e w duration_simps)
    ultimately show ?thesis by (simp only: simp_thms ex_simps) simp
  qed
  obtain te' ks where t: "te_advance_to vec_slots (from_millis 155) te = Some te'" "engine_inv vec_map (from_millis 100) te'"
    "te_buffer te' = map (\<lambda>k. snd (the ([0 :: nat \<mapsto> (5 :: nat, 7)] k))) ks" "distinct ks" "set ks = {0}"
    using timer_engine_on_time [OF vec_slots_ok inv b] unfolding e demo_wheel_ok(2) due append_Nil
    by (elim exE conjE) (rule that)
  have "te_buffer te' = [7]" using t(3) distinct_singleton [OF t(4,5)] by simp
  then show ?thesis using t(1,2) unfolding te_def by (intro exI conjI)
qed

text \<open>Insertion and cancellation are inverse on the pending timers: inserting an item succeeds,
  adds one timer under an unused key with a deadline of the delay's ticks (at least one) after the
  current tick, and cancelling that key gives the item back and leaves the pending timers as they
  were before the insertion; a second cancellation gives nothing.\<close>

theorem insert_cancel_roundtrip:
  assumes "slot_map_ok sm f" "wheel_inv f w" "wh_global_tick w + max (delay_to_ticks delay w) 1 < 2 ^ 64"
  shows "\<exists>w1 key. wheel_insert sm item delay w = Some (w1, key) \<and> live (f (wh_tasks w)) key = None
     \<and> live (f (wh_tasks w1)) = (live (f (wh_tasks w)))(key \<mapsto> (wh_global_tick w + max (delay_to_ticks delay w) 1, item))
     \<and> (\<exists>w2. wheel_cancel sm key w1 = (w2, Some item) \<and> live (f (wh_tasks w2)) = live (f (wh_tasks w)) \<and> wheel_inv f w2
          \<and> snd (wheel_cancel sm key w2) = None)"
proof -
  obtain w1 key where 1: "wheel_insert sm item delay w = Some (w1, key)" "f (wh_tasks w) key = None" "wheel_inv f w1"
    "live (f (wh_tasks w1)) = (live (f (wh_tasks w)))(key \<mapsto> (wh_global_tick w + max (delay_to_ticks delay w) 1, item))"
    using wheel_insert_ok [OF assms] by blast
  have l: "live (f (wh_tasks w)) key = None" using 1(2) by (simp add: live_def)
  note c = wheel_cancel_ok [OF assms(1) 1(3), of key]
  let ?w2 = "fst (wheel_cancel sm key w1)"
  have "snd (wheel_cancel sm key w1) = Some item" using c(1) 1(4) by simp
  moreover have "live (f (wh_tasks ?w2)) = live (f (wh_tasks w))" using c(2) 1(4) l by (auto simp: fun_eq_iff)
  moreover have "snd (wheel_cancel sm key ?w2) = None" using wheel_cancel_ok(1) [OF assms(1) c(3), of key] calculation(2) l by simp
  ultimately show ?thesis using 1 l c(3) by (metis prod.collapse)
qed

theorem insert_cancel_roundtrip_witness:
  "\<exists>w1 key w2. wheel_insert vec_slots 9 (from_millis 35) demo_wheel = Some (w1, key) \<and> wheel_cancel vec_slots key w1 = (w2, Some 9)
     \<and> live (vec_map (wh_tasks w1)) = [0 \<mapsto> (5, 7), key \<mapsto> (3, 9)] \<and> live (vec_map (wh_tasks w2)) = [0 \<mapsto> (5, 7)]"
proof -
  have n: "delay_to_ticks (from_millis 35) demo_wheel = 3" "wh_global_tick demo_wheel = 0"
    by (simp_all add: demo_wheel_def delay_to_ticks_def duration_simps)
  show ?thesis using insert_cancel_roundtrip [OF vec_slots_ok demo_wheel_ok(1), of "from_millis 35" 9] demo_wheel_ok(2) n by auto
qed

subsection \<open>Missed deadlines\<close>

definition late_config :: wheel_config where
  "late_config = \<lparr>l0_tick_duration = from_millis 10, l0_slot_count = 4, l1_tick_duration = from_millis 100, l1_slot_count = 4\<rparr>"

definition late_wheel :: "((nat, nat) wheel_entry option list, nat) wheel" where
  "late_wheel = \<lparr>wh_tasks = [], wh_l0 = \<lparr>lv_slots = [None, None, None, None], lv_mask = 3\<rparr>,
     wh_l1 = \<lparr>lv_slots = [None, None, None, None], lv_mask = 3\<rparr>,
     wh_global_tick = 0, wh_tick_duration_ms = 10, wh_l1_tick_ratio = 10, wh_l0_capacity_ticks = 4\<rparr>"

text \<open>The builder accepts a configuration whose upper tick is longer than a whole turn of the
  lower level (four slots of 10 ms, upper ticks of 100 ms), and such a wheel misses deadlines: a
  timer of 50 ms is still not reported after 390 ms, and comes out at 400 ms, the next time the
  upper level returns to its slot.\<close>

theorem long_upper_tick_misses_deadline:
  "config_build late_config = Inr late_config \<and> wheel_new vec_slots late_config = Some late_wheel
   \<and> (\<exists>w1 w2 w3. wheel_insert vec_slots 7 (from_millis 50) late_wheel = Some (w1, 0)
        \<and> wheel_advance vec_slots (from_millis 390) w1 [] = Some (w2, []) \<and> wheel_advance vec_slots (from_millis 400) w1 [] = Some (w3, [7]))"
proof -
  have "config_build late_config = Inr late_config"
    by (simp add: late_config_def config_build_def is_multiple_of_def is_power_of_two.simps duration_simps Let_def)
  moreover have "wheel_new vec_slots late_config = Some late_wheel"
    by (simp add: late_config_def late_wheel_def wheel_new_def level_new_def duration_simps Let_def slot_array_simps) (simp add: vec_slots_def)
  moreover obtain w1 where 1: "wheel_insert vec_slots 7 (from_millis 50) late_wheel = Some (w1, 0)"
    "w1 = late_wheel\<lparr>wh_tasks := [Some \<lparr>we_item = Some 7, we_deadline = 5, we_next = None, we_level = 1, we_slot_index = 0\<rparr>],
       wh_l1 := \<lparr>lv_slots = [Some 0, None, None, None], lv_mask = 3\<rparr>\<rparr>"
    by (simp add: late_wheel_def wheel_run_simps)
  moreover have "\<exists>w2. wheel_advance vec_slots (from_millis 390) w1 [] = Some (w2, [])"
    unfolding 1(2) by (simp add: late_wheel_def wheel_run_simps)
  moreover have "\<exists>w3. wheel_advance vec_slots (from_millis 400) w1 [] = Some (w3, [7])"
    unfolding 1(2) by (simp add: late_wheel_def wheel_run_simps)
  ultimately show ?thesis by blast
qed

text \<open>A wheel whose upper tick is below one millisecond passes the builder and panics at the
  first advance by at least one tick: the ratio of the two ticks is zero, and \<^verbatim>\<open>advance\<close>
  divides by it.\<close>

theorem short_upper_tick_panics:
  assumes "config_build c = Inr c" "l1_tick_duration c < from_millis 1" "wheel_new sm c = Some w" "0 < delay_to_ticks elapsed w"
  shows "wheel_advance sm elapsed w ex = None"
proof -
  have "wh_l1_tick_ratio w = 0" using assms(2,3)
    by (auto simp: wheel_new_def Let_def as_millis_def from_millis_def as_u64_def split: option.splits)
  then show ?thesis using assms(4) by (simp add: wheel_advance_def advance_loop.simps)
qed

theorem short_upper_tick_panics_witness:
  "\<exists>w. wheel_new (vec_slots :: (_, nat, (nat, nat) wheel_entry) slot_map_ops) (demo_config\<lparr>l1_tick_duration := 500000\<rparr>) = Some w
     \<and> wheel_advance vec_slots (from_millis 10) w [] = None"
proof -
  let ?c = "demo_config\<lparr>l1_tick_duration := 500000\<rparr>"
  obtain w where w: "wheel_new (vec_slots :: (_, nat, (nat, nat) wheel_entry) slot_map_ops) ?c = Some w" "wh_tick_duration_ms w = 10"
    by (simp add: demo_config_def wheel_new_def level_new_def duration_simps Let_def)
  have "config_build ?c = Inr ?c"
    by (simp add: demo_config_def config_build_def is_multiple_of_def is_power_of_two.simps duration_simps Let_def)
  moreover have "l1_tick_duration ?c < from_millis 1" by (simp add: from_millis_def)
  moreover have "0 < delay_to_ticks (from_millis 10) w" using w(2) by (simp add: delay_to_ticks_def duration_simps)
  ultimately show ?thesis using short_upper_tick_panics [OF _ _ w(1)] w(1) by blast
qed

text \<open>The timeout reported to the polling loop can be later than a pending deadline: \<^verbatim>\<open>next_timeout\<close>
  looks at the upper level only when the lower one is empty. On a wheel of the builder (eight slots
  of 10 ms, four of 20 ms), a timer of 90 ms inserted at tick 0 and one of 70 ms inserted at tick 5,
  the timeout is 70 ms, although advancing by 40 ms already reports the first timer.\<close>

theorem next_timeout_oversleeps:
  "\<exists>w0 w1 w2 w3 w4.
     wheel_new (vec_slots :: (_, nat, (nat, nat) wheel_entry) slot_map_ops) (demo_config\<lparr>l0_slot_count := 8\<rparr>) = Some w0
     \<and> wheel_insert vec_slots 1 (from_millis 90) w0 = Some (w1, 0) \<and> wheel_advance vec_slots (from_millis 50) w1 [] = Some (w2, [])
     \<and> wheel_insert vec_slots 2 (from_millis 70) w2 = Some (w3, 1)
     \<and> next_timeout vec_slots w3 = Some (Some (from_millis 70)) \<and> wheel_advance vec_slots (from_millis 40) w3 [] = Some (w4, [1])"
proof -
  define w0 where "w0 = \<lparr>wh_tasks = ([] :: (nat, nat) wheel_entry option list),
       wh_l0 = \<lparr>lv_slots = [None, None, None, None, None, None, None, None :: nat option], lv_mask = 7\<rparr>,
       wh_l1 = \<lparr>lv_slots = [None, None, None, None], lv_mask = 3\<rparr>,
       wh_global_tick = 0, wh_tick_duration_ms = 10, wh_l1_tick_ratio = 2, wh_l0_capacity_ticks = 8\<rparr>"
  define w1 where "w1 = w0\<lparr>wh_tasks := [Some \<lparr>we_item = Some 1, we_deadline = 9, we_next = None, we_level = 1, we_slot_index = 0\<rparr>],
       wh_l1 := \<lparr>lv_slots = [Some 0, None, None, None], lv_mask = 3\<rparr>\<rparr>"
  define w2 where "w2 = w1\<lparr>wh_global_tick := 5\<rparr>"
  define w3 where "w3 = w2\<lparr>wh_tasks := wh_tasks w2 @ [Some \<lparr>we_item = Some 2, we_deadline = 12, we_next = None, we_level = 0, we_slot_index = 4\<rparr>],
       wh_l0 := \<lparr>lv_slots = [None, None, None, None, Some 1, None, None, None], lv_mask = 7\<rparr>\<rparr>"
  define w4 where "w4 = w3\<lparr>wh_tasks := [None, Some \<lparr>we_item = Some 2, we_deadline = 12, we_next = None, we_level = 0, we_slot_index = 4\<rparr>],
       wh_l1 := \<lparr>lv_slots = [None, None, None, None], lv_mask = 3\<rparr>, wh_global_tick := 9\<rparr>"
  note defs = w4_def w3_def w2_def w1_def w0_def
  have "wheel_new (vec_slots :: (_, nat, (nat, nat) wheel_entry) slot_map_ops) (demo_config\<lparr>l0_slot_count := 8\<rparr>) = Some w0"
    by (simp add: w0_def demo_config_def wheel_new_def level_new_def duration_simps Let_def slot_array_simps) (simp add: vec_slots_def)
  moreover have "wheel_insert vec_slots 1 (from_millis 90) w0 = Some (w1, 0)" unfolding defs by (simp add: wheel_run_simps)
  moreover have "wheel_advance vec_slots (from_millis 50) w1 [] = Some (w2, [])" unfolding defs by (simp add: wheel_run_simps)
  moreover have "wheel_insert vec_slots 2 (from_millis 70) w2 = Some (w3, 1)" unfolding defs by (simp add: wheel_run_simps)
  moreover have "next_timeout vec_slots w3 = Some (Some (from_millis 70))"
    unfolding defs by (simp add: next_timeout_def first_nonempty_def wheel_run_simps)
  moreover have "wheel_advance vec_slots (from_millis 40) w3 [] = Some (w4, [1])" unfolding defs by (simp add: wheel_run_simps)
  ultimately show ?thesis by (intro exI conjI)
qed
text \<open>A timer can fire before its delay has passed: the wheel counts a delay from the instant of
  its last poll, not from the instant of the insertion. If a timer is inserted at an instant \<open>now\<close>
  when the last poll lies at least its delay (in ticks) back, because the worker was busy or idle in
  between, the very next poll at that same instant reports it.\<close>

theorem timer_fires_early_after_gap:
  assumes "slot_map_ok sm f" "engine_inv f t0 te" "as_millis (now - te_last_poll te) < 2 ^ 64"
    "wh_global_tick (te_wheel te) + as_millis (now - te_last_poll te) div wh_tick_duration_ms (te_wheel te) < 2 ^ 64"
    "te_last_poll te + max (delay_to_ticks delay (te_wheel te)) 1 * tick_ns te \<le> now"
  shows "\<exists>te1 k te2. te_insert sm x delay te = Some (te1, k) \<and> te_advance_to sm now te1 = Some te2 \<and> x \<in> set (te_buffer te2)"
proof -
  let ?w = "te_wheel te" and ?d = "max (delay_to_ticks delay (te_wheel te)) 1"
  have i: "wheel_inv f ?w" "te_last_poll te = t0 + wh_global_tick ?w * tick_ns te" using assms(2) by (simp_all add: engine_inv_def)
  have c: "0 < wh_tick_duration_ms ?w" using shape_of_inv [OF i(1)] by (simp add: shape_ok_def)
  have "?d * (wh_tick_duration_ms ?w * 1000000) \<le> now - te_last_poll te" using assms(5) by (simp add: tick_ns_def)
  then have "?d \<le> (now - te_last_poll te) div (wh_tick_duration_ms ?w * 1000000)"
    by (rule less_eq_div_iff_mult_less_eq [THEN iffD2, rotated]) (use c in simp)
  then have "?d \<le> as_millis (now - te_last_poll te) div wh_tick_duration_ms ?w" by (simp add: as_millis_def div_mult2_eq [symmetric] mult.commute)
  then have b: "wh_global_tick ?w + ?d < 2 ^ 64" using assms(4) by linarith
  obtain w1 key where 1: "wheel_insert sm x delay ?w = Some (w1, key)" "wheel_inv f w1" "same_geometry ?w w1" "wh_global_tick w1 = wh_global_tick ?w"
    "live (f (wh_tasks w1)) key = Some (wh_global_tick ?w + ?d, x)"
    using wheel_insert_ok [OF assms(1) i(1) b] by fastforce
  let ?te1 = "te\<lparr>te_wheel := w1\<rparr>"
  have g: "tick_ns ?te1 = tick_ns te" "wh_tick_duration_ms w1 = wh_tick_duration_ms ?w" using 1(3) by (simp_all add: tick_ns_def same_geometry_def)
  have inv: "engine_inv f t0 ?te1" using assms(2) 1(2,4) g by (simp add: engine_inv_def)
  obtain te2 ks where 2: "te_advance_to sm now ?te1 = Some te2"
    "te_buffer te2 = te_buffer ?te1 @ map (\<lambda>k. snd (the (live (f (wh_tasks w1)) k))) ks"
    "set ks = {k. \<exists>d x. live (f (wh_tasks w1)) k = Some (d, x) \<and> t0 + d * tick_ns ?te1 \<le> now}"
    using te_advance_due [OF assms(1) inv, of now] assms(3,4) 1(4) g by auto
  have "key \<in> set ks" using 2(3) 1(5) assms(5) i(2) g(1) by (simp add: algebra_simps)
  then have "x \<in> set (te_buffer te2)" using 2(2) 1(5) by (force simp: image_iff)
  then show ?thesis using 1(1) 2(1) by (intro exI [of _ ?te1] exI [of _ key] exI [of _ te2]) (simp add: te_insert_def)
qed

theorem timer_fires_early_after_gap_witness:
  "\<exists>te1 k te2. te_insert vec_slots 9 (from_millis 50) \<lparr>te_wheel = demo_wheel, te_buffer = [], te_last_poll = from_millis 100\<rparr> = Some (te1, k)
     \<and> te_advance_to vec_slots (from_millis 155) te1 = Some te2 \<and> 9 \<in> set (te_buffer te2)"
proof -
  define te where "te = \<lparr>te_wheel = demo_wheel, te_buffer = ([] :: nat list), te_last_poll = from_millis 100\<rparr>"
  have e: "te_wheel te = demo_wheel" "te_buffer te = []" "te_last_poll te = from_millis 100" by (simp_all add: te_def)
  have w: "wh_global_tick demo_wheel = 0" "wh_tick_duration_ms demo_wheel = 10" by (simp_all add: demo_wheel_def)
  have inv: "engine_inv vec_map (from_millis 100) te" using demo_wheel_ok(1) w by (simp add: engine_inv_def e)
  have ms: "as_millis (from_millis 155 - te_last_poll te) = 55" by (simp add: e duration_simps)
  have b: "as_millis (from_millis 155 - te_last_poll te) < 2 ^ 64"
    "wh_global_tick (te_wheel te) + as_millis (from_millis 155 - te_last_poll te) div wh_tick_duration_ms (te_wheel te) < 2 ^ 64"
    unfolding ms e(1) w by simp_all
  have "delay_to_ticks (from_millis 50) (te_wheel te) = 5" unfolding e(1) by (simp add: delay_to_ticks_def w duration_simps)
  then have d: "te_last_poll te + max (delay_to_ticks (from_millis 50) (te_wheel te)) 1 * tick_ns te \<le> from_millis 155"
    by (simp add: tick_ns_def e w duration_simps)
  show ?thesis using timer_fires_early_after_gap [OF vec_slots_ok inv b d, of 9] unfolding te_def .
qed

end
