(* ===== verification/Uring_World.thy ===== *)
theory Uring_World
  imports Uring_Poll Timer_Queue
begin

text \<open>
  What the io_uring driver relies on in the world outside it, and what its parts leave alone: a call on
  the table of files leaves the table of buffers alone and conversely, accepting a completion keeps
  the capacity of the registry, and a completion the driver makes up asks for no further effect.
\<close>

subsection \<open>What the driver relies on outside\<close>

text \<open>What can be seen of the world: the kernel's tables of registered files and buffers, and the number
  of cancel requests that wait in the channel.\<close>

record 'r world_view =
  wv_files :: "'r \<Rightarrow> nat \<Rightarrow> i32"
  wv_buffers :: "'r \<Rightarrow> nat \<Rightarrow> region option"
  wv_inbox :: "'r \<Rightarrow> nat"

definition keeps_view :: "('r \<Rightarrow> 'x) \<Rightarrow> ('r \<Rightarrow> 'r \<times> 'a) \<Rightarrow> bool" where
  "keeps_view g f \<longleftrightarrow> (\<forall>r. g (fst (f r)) = g r)"

definition quiet :: "'r world_view \<Rightarrow> ('r \<Rightarrow> 'r \<times> 'a) \<Rightarrow> bool" where
  "quiet V f \<longleftrightarrow> keeps_view (wv_files V) f \<and> keeps_view (wv_buffers V) f \<and> keeps_view (wv_inbox V) f"

text \<open>The calls on the rings leave the tables of registered files and buffers alone; the calls that
  change one of the two tables do it as documented; a request taken from the channel is gone from it
  (requests sent while a call of the driver runs count as sent after it). The clock stays below \<open>2 ^ 40\<close>
  milliseconds, some thirty years.\<close>

definition CLOCK_LIMIT :: nat where
  "CLOCK_LIMIT = 2 ^ 40"

definition ring_ok :: "'r ring_ops \<Rightarrow> 'r world_view \<Rightarrow> bool" where
  "ring_ok R V \<longleftrightarrow>
     ring_files_ok (ro_files R) (wv_files V) \<and> chunk_env_ok (ro_chunks R) (wv_buffers V)
   \<and> (\<forall>fds. keeps_view (wv_buffers V) (rf_register (ro_files R) fds) \<and> keeps_view (wv_inbox V) (rf_register (ro_files R) fds))
   \<and> (\<forall>idx fds. keeps_view (wv_buffers V) (rf_update (ro_files R) idx fds) \<and> keeps_view (wv_inbox V) (rf_update (ro_files R) idx fds))
   \<and> (\<forall>idx reg. keeps_view (wv_files V) (ce_update (ro_chunks R) idx reg) \<and> keeps_view (wv_inbox V) (ce_update (ro_chunks R) idx reg))
   \<and> (\<forall>ud body. quiet V (ro_push R ud body)) \<and> (\<forall>n. quiet V (ro_enter R n)) \<and> quiet V (ro_submit R)
   \<and> (\<forall>t. quiet V (ro_submit_with_timeout R t)) \<and> quiet V (ro_submit_and_wait R) \<and> quiet V (ro_drain_completions R)
   \<and> quiet V (ro_eventfd R) \<and> (\<forall>fd. quiet V (ro_write_eventfd R fd))
   \<and> (\<forall>n. keeps_view (wv_files V) (ro_register_buffers R n) \<and> keeps_view (wv_inbox V) (ro_register_buffers R n))
   \<and> (\<forall>r r' c. ro_try_recv_cancel R r = (r', c) \<longrightarrow> wv_files V r' = wv_files V r \<and> wv_buffers V r' = wv_buffers V r
        \<and> (if c = None then wv_inbox V r' \<le> wv_inbox V r else wv_inbox V r' < wv_inbox V r))
   \<and> (\<forall>r. as_millis (ce_now (ro_chunks R) r) < CLOCK_LIMIT)"

lemma keeps_viewD: "\<lbrakk>keeps_view g f; f r = (r', x)\<rbrakk> \<Longrightarrow> g r' = g r"
  unfolding keeps_view_def by (metis fst_conv)

lemma quietD: "\<lbrakk>quiet V f; f r = (r', x)\<rbrakk> \<Longrightarrow> wv_files V r' = wv_files V r \<and> wv_buffers V r' = wv_buffers V r \<and> wv_inbox V r' = wv_inbox V r"
  by (simp add: quiet_def keeps_view_def) (metis fst_conv)

lemma ring_okD:
  assumes "ring_ok R V"
  shows "ring_files_ok (ro_files R) (wv_files V)" "chunk_env_ok (ro_chunks R) (wv_buffers V)"
    "keeps_view (wv_buffers V) (rf_register (ro_files R) fds)" "keeps_view (wv_inbox V) (rf_register (ro_files R) fds)"
    "keeps_view (wv_buffers V) (rf_update (ro_files R) idx fds)" "keeps_view (wv_inbox V) (rf_update (ro_files R) idx fds)"
    "keeps_view (wv_files V) (ce_update (ro_chunks R) idx reg)" "keeps_view (wv_inbox V) (ce_update (ro_chunks R) idx reg)"
    "quiet V (ro_push R ud body)" "quiet V (ro_enter R n)" "quiet V (ro_submit R)" "quiet V (ro_submit_with_timeout R t)"
    "quiet V (ro_submit_and_wait R)" "quiet V (ro_drain_completions R)" "quiet V (ro_eventfd R)" "quiet V (ro_write_eventfd R fd)"
    "as_millis (ce_now (ro_chunks R) r) < CLOCK_LIMIT"
    "keeps_view (wv_files V) (ro_register_buffers R k)" "keeps_view (wv_inbox V) (ro_register_buffers R k)"
  using assms unfolding ring_ok_def by (simp_all del: split_paired_All)

lemma ring_ok_recv:
  assumes "ring_ok R V" "ro_try_recv_cancel R r = (r', c)"
  shows "wv_files V r' = wv_files V r" "wv_buffers V r' = wv_buffers V r" "wv_inbox V r' \<le> wv_inbox V r"
    "c \<noteq> None \<Longrightarrow> wv_inbox V r' < wv_inbox V r"
  using assms unfolding ring_ok_def by (metis le_less)+

subsection \<open>What registering files and chunks leaves alone\<close>

lemma unregister_slot_frame:
  assumes "\<And>idx fds. keeps_view g (rf_update rf idx fds)"
  shows "g (ft_ring (fst (unregister_file_slot rf idx adv ft))) = g (ft_ring ft)"
  by (auto simp: unregister_file_slot_def Let_def split: option.splits prod.splits sum.splits
      dest: keeps_viewD [OF assms])

lemma rollback_frame:
  assumes "\<And>idx fds. keeps_view g (rf_update rf idx fds)"
  shows "g (ft_ring (fst (rollback_file_slots rf regs ft))) = g (ft_ring ft)"
proof -
  have "g (ft_ring (fst (rollback_loop rf is e ft))) = g (ft_ring ft)" for "is" e
    by (induction "is" arbitrary: e ft)
      (use unregister_slot_frame [OF assms] in \<open>auto split: prod.splits sum.splits simp: prod_eq_iff\<close>)
  then show ?thesis by (auto simp: rollback_file_slots_def split: prod.splits option.splits) (metis fst_conv)+
qed


lemma register_loop_frame:
  assumes "\<And>idx fds. keeps_view g (rf_update rf idx fds)"
  shows "register_loop rf files regs fds ft = Some (ft', res) \<Longrightarrow> g (ft_ring ft') = g (ft_ring ft)"
proof (induction files arbitrary: regs fds ft)
  case (Cons x0 files)
  let ?idx = "last (ft_free ft)" and ?ft = "ft\<lparr>ft_free := butlast (ft_free ft)\<rparr>"
  obtain r x where u: "rf_update rf ?idx [entry_fd (entry_of x0)] (ft_ring ft) = (r, x)" by fastforce
  have g: "g r = g (ft_ring ft)" using keeps_viewD [OF assms u] .
  show ?case
  proof (cases x)
    case (Inl e)
    then have "\<exists>ft2. ft_ring ft' = ft_ring ft2 \<and> ft2 = fst (rollback_file_slots rf regs (?ft\<lparr>ft_ring := r, ft_free := butlast (ft_free ft) @ [?idx]\<rparr>))"
      using Cons.prems u by (auto simp: Let_def split: if_splits prod.splits sum.splits)
    then show ?thesis using rollback_frame [OF assms] g by force
  next
    case (Inr y)
    then show ?thesis using Cons u g by (auto simp: Let_def split: if_splits)
  qed
qed simp

lemma register_files_frame:
  assumes "\<And>idx fds. keeps_view g (rf_update rf idx fds)" "\<And>fds. keeps_view g (rf_register rf fds)"
    "register_files_internal rf cap files ft = Some (ft', res)"
  shows "g (ft_ring ft') = g (ft_ring ft)"
proof -
  obtain ft1 x where e: "ensure_file_table_initialized rf cap ft = (ft1, x)" by fastforce
  have "g (ft_ring ft1) = g (ft_ring ft)"
    using e by (auto simp: ensure_file_table_initialized_def Let_def split: if_splits prod.splits sum.splits
        dest: keeps_viewD [OF assms(2)])
  then show ?thesis
    using assms(3) register_loop_frame [OF assms(1)]
    by (fastforce simp: register_files_internal_def e split: sum.splits if_splits)
qed

lemma closing_frame:
  assumes "\<And>idx fds. keeps_view g (rf_update rf idx fds)"
  shows "g (ft_ring (fst (unregister_fixed_fd rf fd ft))) = g (ft_ring ft)"
    "g (ft_ring (fst (unregister_close_owned_fd rf fd ft))) = g (ft_ring ft)"
    "g (ft_ring (fst (replace_registered_fixed_fd rf fd raw ft))) = g (ft_ring ft)"
    "g (ft_ring (fst (unregister_files rf fds ft))) = g (ft_ring ft)"
proof -
  show u: "g (ft_ring (fst (unregister_fixed_fd rf fd ft))) = g (ft_ring ft)" for fd ft
    using unregister_slot_frame [OF assms] by (simp add: unregister_fixed_fd_def Let_def)
  show "g (ft_ring (fst (unregister_files rf fds ft))) = g (ft_ring ft)"
    by (induction fds arbitrary: ft) (auto split: prod.splits sum.splits, (metis fst_conv u)+)
qed (auto simp: unregister_close_owned_fd_def replace_registered_fixed_fd_def Let_def
      split: option.splits prod.splits sum.splits dest: keeps_viewD [OF assms])

lemma closing_file_inv:
  assumes "closing view idx adv ft ft' res" "file_inv view ft"
  shows "file_inv view ft'"
proof (cases res)
  case (Inl e)
  then show ?thesis using closing_err(1) assms by blast
next
  case (Inr u)
  let ?s = "ft_slots ft ! unat idx"
  let ?g = "if adv then advance_file_generation (fs_generation ?s) else fs_generation ?s"
  obtain entry r cl where c: "unat idx < length (ft_slots ft)" "fs_entry ?s = Some entry" "view r = (view (ft_ring ft))(unat idx := - 1)"
    "ft' = slot_put idx None ?g r (ft_free ft @ [idx]) (ft_closed ft @ cl) ft"
    using assms(1) Inr unfolding closing_def by auto
  have g: "?g \<noteq> 0" using assms(2) c(1) by (simp add: file_inv_def advance_file_generation_def INITIAL_FILE_GENERATION_def)
  have "unat idx \<notin> unat ` set (ft_free ft)" using assms(2) c(2) by (simp add: file_inv_def)
  then have f: "idx \<notin> set (ft_free ft)" by blast
  show ?thesis unfolding c(4) by (rule slot_put_inv [OF assms(2)]) (use c g f assms(2) in \<open>auto simp: file_inv_def\<close>)
qed

lemma closing_ops_inv:
  assumes "ring_files_ok rf view" "file_inv view ft"
  shows "file_inv view (fst (unregister_fixed_fd rf fd ft))" "file_inv view (fst (unregister_close_owned_fd rf fd ft))"
    "file_inv view (fst (replace_registered_fixed_fd rf fd raw ft))" "file_inv view (fst (unregister_files rf fds ft))"
proof -
  have u: "file_inv view (fst (unregister_fixed_fd rf fd ft))" if "file_inv view ft" for fd ft
    using unregister_closing [OF assms(1) _ that] closing_file_inv that by (metis prod.collapse)
  then show "file_inv view (fst (unregister_fixed_fd rf fd ft))" using assms(2) .
  show "file_inv view (fst (unregister_close_owned_fd rf fd ft))"
    using close_owned_closing [OF assms(1) _ assms(2)] closing_file_inv assms(2) by (metis prod.collapse)
  show "file_inv view (fst (replace_registered_fixed_fd rf fd raw ft))"
    using replace_ok(1) [OF assms aged_exists] by (metis prod.collapse)
  show "file_inv view (fst (unregister_files rf fds ft))"
    using assms(2)
  proof (induction fds arbitrary: ft)
    case (Cons x xs)
    then show ?case using u [of ft x] by (auto split: prod.splits sum.splits)
  qed simp
qed

lemma register_chunk_frame:
  assumes "\<And>idx reg. keeps_view g (ce_update env idx reg)" "register_chunk_internal env c reg s = Some (s', res)"
  shows "g (cs_world s') = g (cs_world s)"
  using assms(2) by (auto simp: register_chunk_internal_def Let_def split: if_splits option.splits prod.splits sum.splits
      dest: keeps_viewD [OF assms(1)])

lemma register_chunks_frame:
  assumes "\<And>idx reg. keeps_view g (ce_update env idx reg)"
  shows "register_chunks env strict cs s = Some (s', res) \<Longrightarrow> g (cs_world s') = g (cs_world s)"
proof (induction cs arbitrary: s)
  case (Cons c cs)
  note frame = register_chunk_frame [OF assms]
  show ?case
    using Cons.prems by (auto simp: Let_def split: option.splits sum.splits if_splits prod.splits dest!: Cons.IH frame)
qed simp

subsection \<open>What accepting a completion leaves alone\<close>

lemma remove_length: "remove t r = Some (r', x) \<Longrightarrow> length (locals r') = length (locals r)"
  by (auto simp: remove_def remove_at_index_def upd_shared_def upd_local_def Let_def split: if_splits option.splits)

lemma finalize_length:
  "finalize_waiting_checked t r = Some (r', x) \<Longrightarrow> length (locals r') = length (locals r)"
  "finalize_orphaned_checked t r = Some (r', x) \<Longrightarrow> length (locals r') = length (locals r)"
  by (auto simp: finalize_waiting_checked_def finalize_orphaned_checked_def finalize_waiting_completion_def
      finalize_orphaned_completion_def split: option.splits dest: remove_length)

lemma finish_length:
  assumes "finish_hook_result hk res fin r h = Some (r', h', out)"
  shows "length (locals r') = length (locals r)"
proof (cases res)
  case (Inr o1)
  then show ?thesis
    using assms
    by (cases o1) (auto simp: finish_hook_result_def finish_with_def record_user_completion_def finish_waiting_if_needed_def
        finish_orphaned_def Let_def split: option.splits prod.splits sum.splits record_completion_result.splits finalize_action.splits
        dest!: finalize_length)
qed (use assms in \<open>simp add: finish_hook_result_def\<close>)


lemma user_event_length:
  assumes "accept_user_event hk ev src r h = Some (r', h', out)"
  shows "length (locals r') = length (locals r)"
  using assms by (auto simp: accept_user_event_def split: sum.splits option.splits routed_slot_completion.splits prod.splits
      dest!: finish_length)

lemma accept_length:
  assumes "accept_completion hk ing r h = Some (r', h', out)"
  shows "length (locals r') = length (locals r)"
proof (cases ing)
  case (IngressBackend x)
  have finish: "finish_hook_outcome hk act None r h1 = Some (r', h', out) \<Longrightarrow> length (locals r') = length (locals r)" for act h1
    using finish_length [of hk "Inr act" None r h1] by (simp add: finish_hook_result_def)
  show ?thesis
    using assms IngressBackend by (auto simp: accept_completion_def split: prod.splits sum.splits ingress_action.splits
        dest!: user_event_length finish)
qed (use assms in \<open>auto simp: accept_completion_def split: completion_dispatch.splits prod.splits dest!: finish_length user_event_length\<close>)

text \<open>A completion the driver makes up asks for nothing further.\<close>

definition no_effect :: "'p uring_outcome \<Rightarrow> bool" where
  "no_effect o1 = (case o1 of HookUser _ _ _ _ eff \<Rightarrow> eff = EffNone | HookCleanup _ eff \<Rightarrow> eff = EffNone
     | HookAnomaly _ _ eff \<Rightarrow> eff = EffNone | _ \<Rightarrow> False)"

lemma finish_post:
  assumes "finish_hook_result uring_completion_hooks res fin r h = Some (r', h', out)" "\<And>o1. res = Inr o1 \<Longrightarrow> no_effect o1"
  shows "uh_post h' = uh_post h"
proof (cases res)
  case (Inr o1)
  then show ?thesis
    using assms(1) assms(2) [OF Inr]
    by (cases o1) (auto simp: no_effect_def finish_hook_result_def uring_completion_hooks_def uring_finish_effect_def finish_with_def Let_def
        split: option.splits prod.splits sum.splits)
qed (use assms(1) in \<open>simp add: finish_hook_result_def\<close>)

lemma synthetic_waiting_post:
  assumes "uring_complete_waiting ev (SourceSynthetic s) l h = (h', l', res)"
  shows "uh_post h' = uh_post h" "res = Inr o1 \<Longrightarrow> no_effect o1"
  using assms
  by (cases s, auto simp: uring_complete_waiting_def complete_timer_waiting_slot_def complete_local_cancel_slot_def
      complete_submission_failure_slot_def Let_def note_dropped_def no_effect_def
      split: prod.splits option.splits cancel_mode.splits)+

lemma synthetic_post:
  assumes "accept_user_event uring_completion_hooks ev (SourceSynthetic s) r h = Some (r', h', out)"
  shows "uh_post h' = uh_post h"
proof -
  have corrupt: "finish_hook_result uring_completion_hooks res None r h1 = Some (r', h', out) \<Longrightarrow>
      complete_corrupt_default ev k (SourceSynthetic s) h = (h1, res) \<Longrightarrow> ?thesis" for k h1 and res :: "uring_report + 'b uring_outcome"
    using finish_post [of res None r h1] by (auto simp: complete_corrupt_default_def no_effect_def default_uring_backend_effect_def)
  have orphaned: "finish_hook_result uring_completion_hooks res fin r1 h1 = Some (r', h', out) \<Longrightarrow>
      uring_complete_orphaned ev (SourceSynthetic s) l h = (h1, l1, res) \<Longrightarrow> ?thesis" for fin r1 l l1 h1 and res :: "uring_report + 'b uring_outcome"
    using finish_post [of res fin r1 h1] by (auto simp: uring_complete_orphaned_def no_effect_def Let_def split: prod.splits)
  have waiting: "finish_hook_result uring_completion_hooks res fin r1 h1 = Some (r', h', out) \<Longrightarrow>
      uring_complete_waiting ev (SourceSynthetic s) l h = (h1, l1, res) \<Longrightarrow> ?thesis" for fin r1 l l1 h1 and res :: "uring_report + 'b uring_outcome"
    using finish_post [of res fin r1 h1] synthetic_waiting_post [of ev s l h h1 l1 res] by metis
  have hk: "hk_complete_waiting uring_completion_hooks = uring_complete_waiting"
    "hk_complete_orphaned uring_completion_hooks = uring_complete_orphaned"
    "hk_complete_corrupt uring_completion_hooks = complete_corrupt_default"
    by (simp_all add: uring_completion_hooks_def)
  show ?thesis
    using assms unfolding accept_user_event_def hk
    by (auto split: sum.splits option.splits routed_slot_completion.splits prod.splits dest: corrupt orphaned waiting)
qed

end
