(* ===== verification/Uring_Inv.thy ===== *)
theory Uring_Inv
  imports Uring_World
begin

text \<open>
  The invariant of the io_uring driver: in every state the driver can reach, each of its operations
  returns (it neither panics nor loops) and leaves the driver well-formed.
\<close>

subsection \<open>The invariant\<close>

text \<open>The wheel's tick is the default of ten milliseconds, and \<open>t0\<close> is the instant of tick zero. A round of
  polling that fails in the middle of its timers has advanced the wheel without noting it, so the wheel
  may be some ticks ahead of the clock; \<open>T\<close> bounds them.\<close>

definition timers_inv ::
  "('m \<Rightarrow> nat \<rightharpoonup> (op_token, nat) wheel_entry) \<Rightarrow> nat \<Rightarrow> nat \<Rightarrow> ('m, nat) wheel \<Rightarrow> nat \<Rightarrow> bool" where
  "timers_inv f t0 T w last_poll \<longleftrightarrow> wheel_inv f w \<and> wh_tick_duration_ms w = 10 \<and> T \<le> 2 ^ 62 \<and> as_millis last_poll < CLOCK_LIMIT
     \<and> (\<exists>n. last_poll = t0 + n * 10000000 \<and> n \<le> wh_global_tick w \<and> wh_global_tick w \<le> n + T)"

text \<open>What is seen of the world is a parameter, with the meaning of the wheel's slot map.\<close>

record ('r, 'm) uring_model =
  um_world :: "'r world_view"
  um_slot_map :: "'m \<Rightarrow> nat \<rightharpoonup> (op_token, nat) wheel_entry"
  um_start :: nat
  um_drift :: nat

definition env_ok :: "('r, 'm) uring_params \<Rightarrow> ('r, 'm) uring_model \<Rightarrow> bool" where
  "env_ok P M \<longleftrightarrow> ring_ok (up_ring P) (um_world M) \<and> slot_map_ok (up_slot_map P) (um_slot_map M)"

text \<open>The invariant, with the slots in \<open>X\<close> exempt from the life cycle, at most \<open>b\<close> entries in the backlog
  and at most \<open>q\<close> requests in the channel.\<close>

definition uinv ::
  "('r, 'm) uring_model \<Rightarrow> nat set \<Rightarrow> nat \<Rightarrow> nat \<Rightarrow> ('k, 'p, 'r, 'm) uring_driver \<Rightarrow> bool" where
  "uinv M X b q d \<longleftrightarrow> inv_except X (dr_ops d) \<and> length (locals (dr_ops d)) < 2 ^ 32
     \<and> file_inv (wv_files (um_world M)) (dr_files d) \<and> chunk_inv (wv_buffers (um_world M)) (chunks_of d)
     \<and> timers_inv (um_slot_map M) (um_start M) (um_drift M) (dr_wheel d) (dr_last_timer_poll d)
     \<and> dr_next_cancel_id d \<noteq> 0
     \<and> length (dr_backlog d) \<le> b \<and> wv_inbox (um_world M) (dr_world d) \<le> q"

definition uring_inv :: "('r, 'm) uring_model \<Rightarrow> ('k, 'p, 'r, 'm) uring_driver \<Rightarrow> bool" where
  "uring_inv M d \<longleftrightarrow> uinv M {} (length (dr_backlog d)) (wv_inbox (um_world M) (dr_world d)) d"

lemma uinv_uring: "uinv M {} b q d \<Longrightarrow> uring_inv M d"
  by (simp add: uring_inv_def uinv_def)

lemma uinvD:
  assumes "uinv M X b q d"
  shows "inv_except X (dr_ops d)" "X = {} \<Longrightarrow> driver_inv (dr_ops d)"
    "file_inv (wv_files (um_world M)) (dr_files d)" "chunk_inv (wv_buffers (um_world M)) (chunks_of d)"
    "wheel_inv (um_slot_map M) (dr_wheel d)" "length (locals (dr_ops d)) < 2 ^ 32"
  using assms by (simp_all add: uinv_def driver_inv_def timers_inv_def)

lemma uinv_mono: "\<lbrakk>uinv M X b q d; X \<subseteq> Y; b \<le> b'; q \<le> q'\<rbrakk> \<Longrightarrow> uinv M Y b' q' d"
  by (auto simp: uinv_def inv_except_def)

text \<open>Fields outside the invariant.\<close>

lemma uinv_fields [simp]:
  "uinv M X b q (d\<lparr>dr_pending_cancellations := a1\<rparr>) = uinv M X b q d"
  "uinv M X b q (d\<lparr>dr_pending_cancel_cqes := a2\<rparr>) = uinv M X b q d"
  "uinv M X b q (d\<lparr>dr_diag := a3\<rparr>) = uinv M X b q d"
  "uinv M X b q (d\<lparr>dr_waker_fd := a4\<rparr>) = uinv M X b q d"
  "uinv M X b q (d\<lparr>dr_closed_eventfds := a5\<rparr>) = uinv M X b q d"
  "uinv M X b q (d\<lparr>dr_waker_registered_fd := a6\<rparr>) = uinv M X b q d"
  "uinv M X b q (d\<lparr>dr_waker_armed := a7\<rparr>) = uinv M X b q d"
  "uinv M X b q (d\<lparr>dr_is_waked := a8\<rparr>) = uinv M X b q d"
  "uinv M X b q (d\<lparr>dr_timer_buffer := a9\<rparr>) = uinv M X b q d"
  "uinv M X b q (d\<lparr>dr_dropped := a10\<rparr>) = uinv M X b q d"
  "uinv M X b q (on_diag g d) = uinv M X b q d"
  by (simp_all add: uinv_def chunks_of_def dr_world_def on_diag_def)

lemma with_world_simps [simp]:
  "dr_world (with_world r d) = r" "dr_ops (with_world r d) = dr_ops d" "dr_backlog (with_world r d) = dr_backlog d"
  "dr_files (with_world r d) = (dr_files d)\<lparr>ft_ring := r\<rparr>" "dr_wheel (with_world r d) = dr_wheel d"
  "dr_last_timer_poll (with_world r d) = dr_last_timer_poll d" "dr_next_cancel_id (with_world r d) = dr_next_cancel_id d"
  "dr_pending_cancel_cqes (with_world r d) = dr_pending_cancel_cqes d"
  "dr_pending_cancellations (with_world r d) = dr_pending_cancellations d"
  "dr_registered_chunks (with_world r d) = dr_registered_chunks d"
  by (simp_all add: with_world_def dr_world_def)

lemma uinv_world:
  assumes "uinv M X b q d" "wv_files (um_world M) r = wv_files (um_world M) (dr_world d)"
    "wv_buffers (um_world M) r = wv_buffers (um_world M) (dr_world d)" "wv_inbox (um_world M) r \<le> q"
  shows "uinv M X b q (with_world r d)"
proof -
  have "file_inv (wv_files (um_world M)) ((dr_files d)\<lparr>ft_ring := r\<rparr>)"
    using ring_put_same(1) [of "wv_files (um_world M)" r "dr_files d"] assms(1,2) by (simp add: uinv_def dr_world_def)
  moreover have "chunk_inv (wv_buffers (um_world M)) (chunks_of (with_world r d))"
    using assms(1,3) by (simp add: uinv_def chunk_inv_def chunks_of_def)
  ultimately show ?thesis using assms(1,4) by (simp add: uinv_def)
qed

lemma uinv_ops:
  assumes "uinv M X b q d" "inv_except Y r" "length (locals r) = length (locals (dr_ops d))"
  shows "uinv M Y b q (d\<lparr>dr_ops := r\<rparr>)"
  using assms by (simp add: uinv_def chunks_of_def dr_world_def)

lemma uinv_quiet:
  assumes "uinv M X b q d" "quiet (um_world M) f" "f (dr_world d) = (r, x)"
  shows "uinv M X b q (with_world r d)"
  using uinv_world [OF assms(1)] quietD [OF assms(2,3)] assms(1) by (simp add: uinv_def)

subsection \<open>Changes of one private slot\<close>

text \<open>Operations on a slot's private half that keep its ownership fields and do not lose its operation
  or payload.\<close>

definition holds_op :: "('op, 'pay, 'det, 'side, 'plat) local_slot \<Rightarrow> bool" where
  "holds_op l \<longleftrightarrow> ls_op l \<noteq> None \<and> st_payload (ls_storage l) \<noteq> None"

definition refreshed ::
  "nat \<Rightarrow> ('op, 'pay, 'det, 'side, 'plat) op_registry \<Rightarrow> ('op, 'pay, 'det, 'side, 'plat) op_registry \<Rightarrow> bool" where
  "refreshed i r r' \<longleftrightarrow> (\<exists>f. r' = upd_local i f r \<and> (let l = locals r ! i in
     ls_active (f l) = ls_active l \<and> ls_generation (f l) = ls_generation l \<and> (ls_op l \<noteq> None \<longrightarrow> ls_op (f l) \<noteq> None)
     \<and> (holds_op l \<longrightarrow> holds_op (f l))))"

lemma upd_local_out: "\<not> i < length (locals r) \<Longrightarrow> upd_local i f r = r"
  by (simp add: upd_local_def list_update_beyond)

lemma refreshed_refl [simp]: "refreshed i r r"
  unfolding refreshed_def by (intro exI [of _ "\<lambda>l. l"]) (simp add: upd_local_def)

lemma refreshedI:
  "\<lbrakk>ls_active (f (locals r ! i)) = ls_active (locals r ! i); ls_generation (f (locals r ! i)) = ls_generation (locals r ! i);
    ls_op (locals r ! i) \<noteq> None \<Longrightarrow> ls_op (f (locals r ! i)) \<noteq> None; holds_op (locals r ! i) \<Longrightarrow> holds_op (f (locals r ! i))\<rbrakk>
   \<Longrightarrow> refreshed i r (upd_local i f r)"
  unfolding refreshed_def by (intro exI [of _ f]) (simp add: Let_def)

lemma refreshedD:
  assumes "refreshed i r r'"
  shows "shared r' = shared r" "length (locals r') = length (locals r)" "j \<noteq> i \<Longrightarrow> locals r' ! j = locals r ! j"
    "i < length (locals r) \<Longrightarrow> ls_active (locals r' ! i) = ls_active (locals r ! i)"
    "i < length (locals r) \<Longrightarrow> ls_generation (locals r' ! i) = ls_generation (locals r ! i)"
    "i < length (locals r) \<Longrightarrow> holds_op (locals r ! i) \<Longrightarrow> holds_op (locals r' ! i)"
    "i < length (locals r) \<Longrightarrow> ls_op (locals r ! i) \<noteq> None \<Longrightarrow> ls_op (locals r' ! i) \<noteq> None"
  using assms by (auto simp: refreshed_def Let_def upd_local_def)

lemma refreshed_trans:
  assumes "refreshed i r r1" "refreshed i r1 r2"
  shows "refreshed i r r2"
proof (cases "i < length (locals r)")
  case True
  obtain f g where fg: "r1 = upd_local i f r" "r2 = upd_local i g r1"
    "let l = locals r ! i in ls_active (f l) = ls_active l \<and> ls_generation (f l) = ls_generation l
       \<and> (ls_op l \<noteq> None \<longrightarrow> ls_op (f l) \<noteq> None) \<and> (holds_op l \<longrightarrow> holds_op (f l))"
    "let l = locals r1 ! i in ls_active (g l) = ls_active l \<and> ls_generation (g l) = ls_generation l
       \<and> (ls_op l \<noteq> None \<longrightarrow> ls_op (g l) \<noteq> None) \<and> (holds_op l \<longrightarrow> holds_op (g l))"
    using assms unfolding refreshed_def by blast
  then have "r2 = upd_local i (g \<circ> f) r" using True by (simp add: upd_local_def)
  then show ?thesis unfolding refreshed_def using True fg by (intro exI [of _ "g \<circ> f"]) (simp add: Let_def)
next
  case False
  then show ?thesis using assms by (auto simp: refreshed_def upd_local_out)
qed

lemma refreshed_inv:
  assumes "inv_except X r" "refreshed i r r'"
  shows "inv_except X r'"
proof (cases "i < length (locals r)")
  case True
  obtain f where f: "r' = upd_local i f r" "ls_active (f (locals r ! i)) = ls_active (locals r ! i)"
    "ls_generation (f (locals r ! i)) = ls_generation (locals r ! i)" "holds_op (locals r ! i) \<longrightarrow> holds_op (f (locals r ! i))"
    using assms(2) by (auto simp: refreshed_def Let_def)
  have "lifecycle_ok (f (locals r ! i)) s" if "lifecycle_ok (locals r ! i) s" for s :: "('b, 'c) slot_data"
    using that f(2-4) by (auto simp: lifecycle_ok_def holds_op_def split: if_splits)
  then show ?thesis
    using assms(1) registry_inv_upd_local [of r f i] f(1,2) by (auto simp: inv_except_def)
next
  case False
  then show ?thesis using assms by (auto simp: refreshed_def upd_local_out)
qed

lemma uinv_refreshed:
  assumes "uinv M X b q d" "refreshed i (dr_ops d) r"
  shows "uinv M X b q (d\<lparr>dr_ops := r\<rparr>)"
  using uinv_ops [OF assms(1) refreshed_inv [OF uinvD(1) [OF assms(1)] assms(2)] refreshedD(2) [OF assms(2)]] .

lemma with_op_refreshed:
  assumes "with_op_and_payload i f r = (r', x)"
  shows "refreshed i r r'" "x = Inr y \<Longrightarrow> holds_op (locals r ! i)" "x = Inr y \<Longrightarrow> i < length (locals r) \<Longrightarrow> holds_op (locals r' ! i)"
proof -
  show r: "refreshed i r r'"
    using assms by (auto simp: with_op_and_payload_def holds_op_def split: option.splits prod.splits intro!: refreshedI)
  show h: "x = Inr y \<Longrightarrow> holds_op (locals r ! i)"
    using assms by (auto simp: with_op_and_payload_def holds_op_def split: option.splits prod.splits)
  show "x = Inr y \<Longrightarrow> i < length (locals r) \<Longrightarrow> holds_op (locals r' ! i)" using refreshedD(6) [OF r] h by blast
qed

lemma set_platform_refreshed: "refreshed i (dr_ops d) (dr_ops (set_platform i g d))"
  unfolding set_platform_def on_ops_def by (simp, rule refreshedI) (simp_all add: holds_op_def)

lemma set_platform_uinv [simp]: "uinv M X b q d \<Longrightarrow> uinv M X b q (set_platform i g d)"
  using uinv_refreshed [OF _ set_platform_refreshed] by (simp add: set_platform_def on_ops_def)

subsection \<open>Submission\<close>

lemma env_okD: "env_ok P M \<Longrightarrow> ring_ok (up_ring P) (um_world M)" "env_ok P M \<Longrightarrow> slot_map_ok (up_slot_map P) (um_slot_map M)"
  by (simp_all add: env_ok_def)

lemma push_entry_world:
  assumes "env_ok P M" "push_entry P ud body d = (d', ok)"
  shows "\<exists>r. d' = with_world r d \<and> wv_files (um_world M) r = wv_files (um_world M) (dr_world d)
     \<and> wv_buffers (um_world M) r = wv_buffers (um_world M) (dr_world d) \<and> wv_inbox (um_world M) r = wv_inbox (um_world M) (dr_world d)"
proof -
  note R = ring_okD [OF env_okD(1) [OF assms(1)]]
  obtain r1 x1 where p1: "ro_push (up_ring P) ud body (dr_world d) = (r1, x1)" by fastforce
  obtain r2 x2 where e: "ro_enter (up_ring P) 0 r1 = (r2, x2)" by fastforce
  obtain r3 x3 where p2: "ro_push (up_ring P) ud body r2 = (r3, x3)" by fastforce
  note q = quietD [OF R(9) p1] quietD [OF R(10) e] quietD [OF R(9) p2]
  show ?thesis
    using assms(2) q by (cases x1) (auto simp: push_entry_def p1 e p2)
qed

lemma push_entry_uinv:
  assumes "env_ok P M" "push_entry P ud body d = (d', ok)" "uinv M X b q d"
  shows "uinv M X b q d'"
proof -
  obtain r where "d' = with_world r d" "wv_files (um_world M) r = wv_files (um_world M) (dr_world d)"
    "wv_buffers (um_world M) r = wv_buffers (um_world M) (dr_world d)" "wv_inbox (um_world M) r = wv_inbox (um_world M) (dr_world d)"
    using push_entry_world [OF assms(1,2)] by blast
  then show ?thesis using uinv_world [OF assms(3)] assms(3) by (simp add: uinv_def)
qed

lemma with_chunks_simps [simp]:
  "dr_ops (with_chunks cs d) = dr_ops d" "dr_backlog (with_chunks cs d) = dr_backlog d" "dr_wheel (with_chunks cs d) = dr_wheel d"
  "dr_last_timer_poll (with_chunks cs d) = dr_last_timer_poll d" "dr_next_cancel_id (with_chunks cs d) = dr_next_cancel_id d"
  "dr_world (with_chunks cs d) = cs_world cs" "chunks_of (with_chunks cs d) = cs"
  "dr_files (with_chunks cs d) = (dr_files d)\<lparr>ft_ring := cs_world cs\<rparr>"
  by (simp_all add: with_chunks_def with_world_def dr_world_def chunks_of_def)

lemma with_chunks_uinv:
  assumes "uinv M X b q d" "chunk_inv (wv_buffers (um_world M)) cs"
    "wv_files (um_world M) (cs_world cs) = wv_files (um_world M) (dr_world d)" "wv_inbox (um_world M) (cs_world cs) = wv_inbox (um_world M) (dr_world d)"
  shows "uinv M X b q (with_chunks cs d)"
proof -
  have "file_inv (wv_files (um_world M)) ((dr_files d)\<lparr>ft_ring := cs_world cs\<rparr>)"
    using ring_put_same(1) [of "wv_files (um_world M)" "cs_world cs" "dr_files d"] assms(1,3) by (simp add: uinv_def dr_world_def)
  then show ?thesis using assms by (simp add: uinv_def)
qed

lemma register_chunks_uinv:
  assumes "env_ok P M" "uinv M X b q d"
  shows "\<exists>cs res. register_chunks (ro_chunks (up_ring P)) strict chunks (chunks_of d) = Some (cs, res) \<and> uinv M X b q (with_chunks cs d)"
proof -
  note R = ring_okD [OF env_okD(1) [OF assms(1)]]
  obtain cs res where r: "register_chunks (ro_chunks (up_ring P)) strict chunks (chunks_of d) = Some (cs, res)"
    "chunk_inv (wv_buffers (um_world M)) cs"
    using register_chunks_ok [OF R(2) uinvD(4) [OF assms(2)]] by blast
  then show ?thesis
    using with_chunks_uinv [OF assms(2) r(2)] register_chunks_frame [OF R(7) r(1)] register_chunks_frame [OF R(8) r(1)]
    by (simp add: chunks_of_def)
qed

text \<open>The entry of an operation in a slot is made and pushed, or refused.\<close>

lemma make_and_push_ok:
  assumes env: "env_ok P M" and inv: "uinv M X b q d" and i: "i < length (locals (dr_ops d))"
  shows "\<exists>d' res. make_and_push P i token d = Some (d', res) \<and> uinv M X b q d' \<and> refreshed i (dr_ops d) (dr_ops d')
     \<and> dr_backlog d' = dr_backlog d
     \<and> (\<forall>ok. res = Inr ok \<longrightarrow> holds_op (locals (dr_ops d') ! i)
          \<and> us_submission_state (platform_at i d') = (if ok then SubKernelSubmitted else SubQueued))"
proof -
  obtain r x where w: "with_op_and_payload i
             (\<lambda>op payload. case vt_resolve_chunks (uo_vtable op) (uo_payload op) payload of
                (chunks, n) \<Rightarrow>
                  (case vt_make_sqe (uo_vtable op) (uo_payload op) payload (ft_slots (dr_files d)) (dr_registered_chunks d) token of
                     (k, payload', sqe) \<Rightarrow> (op\<lparr>uo_payload := k\<rparr>, payload', take n chunks, sqe))) (dr_ops d) = (r, x)"
    by fastforce
  let ?d = "d\<lparr>dr_ops := r\<rparr>"
  note rf = with_op_refreshed [OF w]
  have inv1: "uinv M X b q ?d" by (rule uinv_refreshed [OF inv rf(1)])
  consider (err) e where "x = Inl e" | (sqe_err) chunks e where "x = Inr (chunks, Inl e)" | (ok) chunks body where "x = Inr (chunks, Inr body)"
    by (metis old.prod.exhaust sum.exhaust)
  then show ?thesis
  proof cases
    case ok
    obtain cs res where c: "register_chunks (ro_chunks (up_ring P)) (dr_strict_registration d) chunks (chunks_of ?d) = Some (cs, res)"
      "uinv M X b q (with_chunks cs ?d)"
      using register_chunks_uinv [OF env inv1] by blast
    obtain d2 pushed where p: "push_entry P (token_user token) body (with_chunks cs ?d) = (d2, pushed)" by fastforce
    obtain r2 where d2: "d2 = with_world r2 (with_chunks cs ?d)" using push_entry_world [OF env p] by blast
    have inv2: "uinv M X b q d2" by (rule push_entry_uinv [OF env p c(2)])
    show ?thesis
    proof (cases res)
      case (Inl e)
      then show ?thesis using w ok c rf(1) by (simp add: make_and_push_def Let_def)
    next
      case (Inr u)
      let ?s = "if pushed then SubKernelSubmitted else SubQueued"
      let ?d3 = "set_platform i (with_submission_state ?s) d2"
      have "make_and_push P i token d = Some (?d3, Inr pushed)"
        using w ok c(1) Inr p by (simp add: make_and_push_def Let_def)
      moreover have rf3: "refreshed i r (dr_ops ?d3)" using set_platform_refreshed [of i d2] d2 by simp
      moreover have "holds_op (locals (dr_ops ?d3) ! i)"
        using refreshedD(6) [OF rf3] refreshedD(2) [OF rf(1)] rf(3) ok i by simp
      moreover have "us_submission_state (platform_at i ?d3) = ?s"
        using i refreshedD(2) [OF rf(1)] d2 by (cases "ls_platform (locals r ! i)") (simp add: platform_at_def set_platform_def on_ops_def)
      moreover have "dr_backlog ?d3 = dr_backlog d" using d2 by (simp add: set_platform_def on_ops_def)
      ultimately show ?thesis using refreshed_trans [OF rf(1)] set_platform_uinv [OF inv2] by blast
    qed
  qed (use w inv1 rf(1) in \<open>simp_all add: make_and_push_def\<close>)
qed

text \<open>The life cycle of one slot.\<close>

lemma upd_shared_sel [simp]:
  "locals (upd_shared i f r) = locals r" "local_free_head (upd_shared i f r) = local_free_head r"
  "active_count (upd_shared i f r) = active_count r" "shared (upd_shared i f r) = upd_slot i f (shared r)"
  by (simp_all add: upd_shared_def)

lemma set_state_inv:
  assumes "inv_except X r" "i < length (locals r)" "slot_state_of (slots (shared r) ! i) \<noteq> InFlightReady" "st \<notin> {InFlightReady, Finalizing}"
  shows "inv_except (insert i X) (upd_shared i (slot_set_state st) r)"
proof -
  have reg: "registry_inv r" and tab: "table_inv (shared r)" using assms(1) by (auto simp: inv_except_def)
  have i: "i < length (slots (shared r))" using registry_len [OF reg] assms(2) by simp
  have "table_inv (upd_slot i (slot_set_state st) (shared r))"
    by (rule table_inv_update [OF tab i slots_upd_slot]) (use assms(3,4) in \<open>auto simp: slot_ok_def\<close>)
  moreover have "inv_except (insert i X) r" using assms(1) by (auto simp: inv_except_def)
  ultimately show ?thesis
    unfolding upd_shared_def by (intro inv_except_shared) auto
qed

lemma inv_except_restore:
  assumes "inv_except (insert i X) r" "i < length (locals r) \<Longrightarrow> lifecycle_ok (locals r ! i) (slots (shared r) ! i)"
  shows "inv_except X r"
  using assms by (auto simp: inv_except_def)

text \<open>A view of a slot names the slot of the token.\<close>

lemma checked_view_valid:
  assumes "checked_slot_view t r = Inr (CheckedValid v)" "inv_except X r"
  shows "view_ref_index v = unat (op_index t)" "unat (op_index t) < length (locals r)"
    "slot_generation_of (slots (shared r) ! unat (op_index t)) = op_generation t"
    "slot_state_of (slots (shared r) ! unat (op_index t)) =
       (case v of ViewReserved _ \<Rightarrow> Reserved | ViewWaiting _ \<Rightarrow> InFlightWaiting | ViewOrphaned _ \<Rightarrow> InFlightOrphaned)"
    "v = ViewReserved i \<Longrightarrow> ls_op (locals r ! unat (op_index t)) = None"
  using assms by (auto simp: checked_slot_view_def slot_bundle_by_index_def snapshot_at_def try_bind_def Let_def split: if_splits option.splits)

lemma checked_view_dr: "checked_view t d = Inr v \<longleftrightarrow> checked_slot_view t (dr_ops d) = Inr v"
  by (auto simp: checked_view_def split: sum.splits)

lemma timers_tick_bound:
  assumes "timers_inv f t0 T w l"
  shows "wh_global_tick w < 2 ^ 63" "wh_global_tick w + max (delay_to_ticks delay w) 1 < 2 ^ 64"
proof -
  obtain n where l: "l = t0 + n * 10000000" "l div 1000000 < 2 ^ 40" "wh_tick_duration_ms w = 10" "wh_global_tick w \<le> n + T" "T \<le> 2 ^ 62"
    using assms unfolding timers_inv_def as_millis_def CLOCK_LIMIT_def by blast
  have "n \<le> l div 1000000" unfolding l(1) by simp
  then show g: "wh_global_tick w < 2 ^ 63" using l(2,4,5) by simp
  have "delay_to_ticks delay w < 2 ^ 62"
    using l(3) mod_less_divisor [of "2 ^ 64 :: nat" "as_millis delay"] by (simp add: delay_to_ticks_def as_u64_def)
  then show "wh_global_tick w + max (delay_to_ticks delay w) 1 < 2 ^ 64" using g by (simp add: max_def)
qed

lemma uinv_wheel:
  assumes "uinv M X b q d" "wheel_inv (um_slot_map M) w" "wh_tick_duration_ms w = wh_tick_duration_ms (dr_wheel d)"
    "wh_global_tick w = wh_global_tick (dr_wheel d)"
  shows "uinv M X b q (d\<lparr>dr_wheel := w\<rparr>)"
  using assms by (auto simp: uinv_def timers_inv_def chunks_of_def dr_world_def)

lemma active_bundle_index: "active_slot_bundle t r = Some j \<Longrightarrow> j = unat (op_index t)"
  by (auto simp: active_slot_bundle_def slot_bundle_by_index_def split: if_splits)

lemma start_timer_ok:
  assumes env: "env_ok P M" and inv: "uinv M X b q d" and i: "i = unat (op_index token)" "i < length (locals (dr_ops d))"
  shows "\<exists>d' res. start_timer P i token d = Some (d', res) \<and> uinv M X b q d' \<and> refreshed i (dr_ops d) (dr_ops d')
     \<and> dr_backlog d' = dr_backlog d \<and> (\<forall>ok. res = Inr ok \<longrightarrow> ok \<and> holds_op (locals (dr_ops d') ! i))"
proof -
  obtain r x where w: "with_op_and_payload i (\<lambda>op payload. (op, payload, vt_get_timeout (uo_vtable op) (uo_payload op) payload)) (dr_ops d) = (r, x)"
    by fastforce
  note rf = with_op_refreshed [OF w]
  have inv1: "uinv M X b q (d\<lparr>dr_ops := r\<rparr>)" by (rule uinv_refreshed [OF inv rf(1)])
  consider (err) e where "x = Inl e" | (none) "x = Inr None" | (ok) delay where "x = Inr (Some delay)"
    by (metis option.exhaust sum.exhaust)
  then show ?thesis
  proof cases
    case ok
    have t: "timers_inv (um_slot_map M) (um_start M) (um_drift M) (dr_wheel d) (dr_last_timer_poll d)" using inv by (simp add: uinv_def)
    obtain w' k where ins: "wheel_insert (up_slot_map P) token delay (dr_wheel d) = Some (w', k)" "wheel_inv (um_slot_map M) w'"
      "same_geometry (dr_wheel d) w'" "wh_global_tick w' = wh_global_tick (dr_wheel d)"
      using wheel_insert_ok [OF env_okD(2) [OF env] uinvD(5) [OF inv] timers_tick_bound(2) [OF t]] by blast
    let ?d = "d\<lparr>dr_ops := r, dr_wheel := w'\<rparr>"
    let ?d' = "case active_slot_bundle token (dr_ops ?d) of None \<Rightarrow> ?d | Some j \<Rightarrow> set_platform j (\<lambda>_. UringOpState (Some k) SubTimer) ?d"
    have inv2: "uinv M X b q ?d"
      using uinv_wheel [OF inv1 ins(2)] ins(3,4) by (simp add: same_geometry_def)
    have rf2: "refreshed i r (dr_ops ?d')"
      using set_platform_refreshed [of i ?d] active_bundle_index [of token r] i(1) by (auto split: option.splits)
    have "start_timer P i token d = Some (?d', Inr True)" using w ok ins(1) by (simp add: start_timer_def Let_def)
    moreover have "uinv M X b q ?d'" using inv2 set_platform_uinv [OF inv2] by (auto split: option.splits)
    moreover have "holds_op (locals (dr_ops ?d') ! i)"
      by (rule refreshedD(6) [OF rf2]) (use refreshedD(2) [OF rf(1)] rf(3) [OF ok i(2)] i(2) in simp_all)
    moreover have "dr_backlog ?d' = dr_backlog d" by (simp add: set_platform_def on_ops_def split: option.splits)
    ultimately show ?thesis using refreshed_trans [OF rf(1) rf2] by (intro exI [of _ ?d'] exI [of _ "Inr True"]) simp
  qed (use w inv1 rf(1) in \<open>simp_all add: start_timer_def\<close>)
qed

text \<open>A submission either puts the slot in flight with its operation and payload, or leaves it reserved.\<close>

lemma submit_from_slot_ok:
  assumes env: "env_ok P M" and inv: "uinv M {} b q d" and i: "i = unat (op_index token)" "i < length (locals (dr_ops d))"
    and st: "slot_state_of (slots (shared (dr_ops d)) ! i) = Reserved"
  shows "\<exists>d' res. submit_from_slot_raw P token i d = Some (d', res) \<and> uinv M {} b q d' \<and> dr_backlog d' = dr_backlog d
     \<and> slot_generation_of (slots (shared (dr_ops d')) ! i) = slot_generation_of (slots (shared (dr_ops d)) ! i)
     \<and> slot_state_of (slots (shared (dr_ops d')) ! i) = (case res of Inl _ \<Rightarrow> Reserved | Inr _ \<Rightarrow> InFlightWaiting)
     \<and> (ls_op (locals (dr_ops d) ! i) \<noteq> None \<longrightarrow> ls_op (locals (dr_ops d') ! i) \<noteq> None)
     \<and> length (locals (dr_ops d')) = length (locals (dr_ops d))"
proof (cases "ls_op (locals (dr_ops d) ! i)")
  case None
  then show ?thesis
    using inv st by (intro exI [of _ d]) (simp add: submit_from_slot_raw_def start_submission_with_def)
next
  case (Some op)
  let ?r = "upd_shared i (slot_set_state InFlightWaiting) (dr_ops d)" and ?g = "\<lparr>sg_slot = Some i, sg_rollback = None, sg_persisted = False\<rparr>"
  let ?d = "d\<lparr>dr_ops := ?r\<rparr>"
  let ?out = "case vt_strategy (uo_vtable op) of SubmitSqe \<Rightarrow> make_and_push P i token ?d | SoftwareTimer \<Rightarrow> start_timer P i token ?d"
  have reg: "length (slots (shared (dr_ops d))) = length (locals (dr_ops d))" using driver_invD(3) [OF uinvD(2) [OF inv]] by simp
  have lc: "lifecycle_ok (locals (dr_ops d) ! i) (slots (shared (dr_ops d)) ! i)" by (rule driver_invD(4) [OF uinvD(2) [OF inv refl] i(2)])
  have inv1: "uinv M {i} b q ?d" using uinv_ops [OF inv set_state_inv [OF uinvD(1) [OF inv] i(2)]] st by simp
  have "\<exists>d1 res. ?out = Some (d1, res) \<and> uinv M {i} b q d1 \<and> refreshed i ?r (dr_ops d1) \<and> dr_backlog d1 = dr_backlog d
      \<and> (\<forall>ok. res = Inr ok \<longrightarrow> holds_op (locals (dr_ops d1) ! i))"
    using make_and_push_ok [OF env inv1, of i token] start_timer_ok [OF env inv1 i(1)] i(2)
    by (cases "vt_strategy (uo_vtable op)") fastforce+
  then obtain d1 res where o: "?out = Some (d1, res)" "uinv M {i} b q d1" "refreshed i ?r (dr_ops d1)" "dr_backlog d1 = dr_backlog d"
    "\<And>ok. res = Inr ok \<Longrightarrow> holds_op (locals (dr_ops d1) ! i)" by blast
  note rf = refreshedD [OF o(3)]
  have len: "i < length (locals (dr_ops d1))" "i < length (slots (shared (dr_ops d)))" using rf(2) reg i(2) by simp_all
  have sh: "shared (dr_ops d1) = upd_slot i (slot_set_state InFlightWaiting) (shared (dr_ops d))" using rf(1) by simp
  have own: "ls_active (locals (dr_ops d1) ! i) \<and> ls_generation (locals (dr_ops d1) ! i) = slot_generation_of (slots (shared (dr_ops d)) ! i)"
    using rf(4,5) i(2) lc st by (auto simp: lifecycle_ok_def split: if_splits)
  have op: "ls_op (locals (dr_ops d1) ! i) \<noteq> None" using rf(7) i(2) Some by simp
  have run: "submit_from_slot_raw P token i d = finish_submission ?g ?out"
    using Some by (simp add: submit_from_slot_raw_def start_submission_with_def Let_def)
  show ?thesis
  proof (cases res)
    case (Inl e)
    let ?r2 = "upd_shared i (slot_set_state Reserved) (dr_ops d1)"
    have "inv_except {} ?r2"
    proof (rule inv_except_restore)
      show "inv_except (insert i {}) ?r2"
        using set_state_inv [OF uinvD(1) [OF o(2)] len(1), of Reserved] sh len(2) by simp
      show "lifecycle_ok (locals ?r2 ! i) (slots (shared ?r2) ! i)"
        using own sh len by (simp add: lifecycle_ok_def)
    qed
    then have "uinv M {} b q (d1\<lparr>dr_ops := ?r2\<rparr>)" by (rule uinv_ops [OF o(2)]) simp
    then show ?thesis
      unfolding run o(1) using Inl o(4) sh len op rf(2) by (simp add: finish_submission_def guard_on_drop_def on_ops_def)
  next
    case (Inr ok)
    have "inv_except {} (dr_ops d1)"
    proof (rule inv_except_restore)
      show "inv_except (insert i {}) (dr_ops d1)" using uinvD(1) [OF o(2)] by simp
      show "lifecycle_ok (locals (dr_ops d1) ! i) (slots (shared (dr_ops d1)) ! i)"
        using own sh len o(5) [OF Inr] by (simp add: lifecycle_ok_def holds_op_def)
    qed
    then have "uinv M {} b q d1" using uinv_ops [OF o(2), of "{}" "dr_ops d1"] by simp
    then show ?thesis
      unfolding run o(1) using Inr o(4) sh len op rf(2) by (simp add: finish_submission_def guard_persist_def guard_on_drop_def)
  qed
qed

lemma submit_token_ok:
  assumes "env_ok P M" and inv: "uinv M {} b q d"
  shows "\<exists>d' res. submit_from_slot_token P token d = Some (d', res) \<and> uinv M {} b q d'"
proof (cases "\<exists>i. checked_view token d = Inr (CheckedValid (ViewReserved i))")
  case True
  then obtain i where v: "checked_view token d = Inr (CheckedValid (ViewReserved i))" by blast
  note c = checked_view_valid [OF v [unfolded checked_view_dr] uinvD(1) [OF inv]]
  show ?thesis
    using submit_from_slot_ok [OF assms(1) inv, of i token] v c by (auto simp: submit_from_slot_token_def)
next
  case False
  then show ?thesis using inv
    by (auto simp: submit_from_slot_token_def split: sum.splits checked_slot_view.splits slot_view_ref.splits)
qed

lemma submit_queued_ok:
  assumes "env_ok P M" "uinv M {} b q d" "i < length (locals (dr_ops d))"
  shows "\<exists>d' res. submit_queued_from_slot_raw P token i d = Some (d', res) \<and> uinv M {} b q d' \<and> dr_backlog d' = dr_backlog d"
  using make_and_push_ok [OF assms, of token] assms(2) by (auto simp: submit_queued_from_slot_raw_def split: option.splits)

text \<open>Submitting an operation: accepted and in flight, queued and in flight, or given back with the
  slot still reserved; a token without a reserved slot is refused.\<close>

lemma init_op_inv:
  assumes "inv_except X r" "slot_state_of (slots (shared r) ! i) = Reserved" "i < length (locals r)"
    "\<And>l. ls_active (f l) = ls_active l" "\<And>l. ls_generation (f l) = ls_generation l"
  shows "inv_except X (upd_local i f r)"
proof -
  have reg: "registry_inv (upd_local i f r)" using registry_inv_upd_local [of r f i] assms(1,4) by (simp add: inv_except_def)
  have "lifecycle_ok (f l) (slots (shared r) ! i) = lifecycle_ok l (slots (shared r) ! i)" for l
    using assms(2,4,5) by (simp add: lifecycle_ok_def)
  then show ?thesis using assms(1) reg by (auto simp: inv_except_def)
qed

lemma submit_op_ok:
  assumes env: "env_ok P M" and inv: "uinv M {} b q d" and v: "checked_view token d = Inr (CheckedValid (ViewReserved i))"
  shows "\<exists>d' back res. submit_sqe_internal P token op d = Some (d', back, res) \<and> uinv M {} (b + 1) q d'
     \<and> names_slot token (shared (dr_ops d'))
     \<and> (case res of
          Submitted (Ready _) \<Rightarrow> back = None \<and> dr_backlog d' = dr_backlog d \<and> slot_state_of (token_slot token (shared (dr_ops d'))) = InFlightWaiting
        | Submitted Pending \<Rightarrow> back = None \<and> dr_backlog d' = dr_backlog d @ [token] \<and> slot_state_of (token_slot token (shared (dr_ops d'))) = InFlightWaiting
        | SubmitFailed e _ \<Rightarrow> back \<noteq> None \<and> dr_backlog d' = dr_backlog d
                              \<and> checked_view token d' = Inr (CheckedValid (ViewReserved (unat (op_index token)))))"
proof -
  note c = checked_view_valid [OF v [unfolded checked_view_dr] uinvD(1) [OF inv]]
  let ?i = "unat (op_index token)"
  have i: "i = ?i" and op0: "ls_op (locals (dr_ops d) ! ?i) = None" and st: "slot_state_of (slots (shared (dr_ops d)) ! ?i) = Reserved"
    using c(1,4) c(5) [OF refl] by simp_all
  let ?r = "upd_local ?i (\<lambda>l. l\<lparr>ls_op := Some op, ls_storage := (ls_storage l)\<lparr>st_sidecar := st_sidecar (ls_storage l)\<rparr>\<rparr>) (dr_ops d)"
  let ?d = "d\<lparr>dr_ops := ?r\<rparr>"
  have inv1: "uinv M {} b q ?d" by (rule uinv_ops [OF inv]) (use init_op_inv [OF uinvD(1) [OF inv] st c(2)] in simp_all)
  have ex: "\<exists>d1 res. submit_from_slot_raw P token ?i ?d = Some (d1, res) \<and> uinv M {} b q d1 \<and> dr_backlog d1 = dr_backlog d
     \<and> slot_generation_of (slots (shared (dr_ops d1)) ! ?i) = op_generation token
     \<and> slot_state_of (slots (shared (dr_ops d1)) ! ?i) = (case res of Inl _ \<Rightarrow> Reserved | Inr _ \<Rightarrow> InFlightWaiting)
     \<and> ls_op (locals (dr_ops d1) ! ?i) \<noteq> None \<and> length (locals (dr_ops d1)) = length (locals (dr_ops d))"
    using submit_from_slot_ok [OF env inv1, of ?i token] st c(2,3) by fastforce
  then obtain d1 res where o: "submit_from_slot_raw P token ?i ?d = Some (d1, res)" "uinv M {} b q d1" "dr_backlog d1 = dr_backlog d"
    "slot_generation_of (slots (shared (dr_ops d1)) ! ?i) = op_generation token"
    "slot_state_of (slots (shared (dr_ops d1)) ! ?i) = (case res of Inl _ \<Rightarrow> Reserved | Inr _ \<Rightarrow> InFlightWaiting)"
    "ls_op (locals (dr_ops d1) ! ?i) \<noteq> None" "length (locals (dr_ops d1)) = length (locals (dr_ops d))" by blast
  have len: "length (slots (shared (dr_ops d1))) = length (locals (dr_ops d1))" using driver_invD(3) [OF uinvD(2) [OF o(2)]] by simp
  have named: "names_slot token (shared (dr_ops d1))" using o(4,7) len c(2) by (simp add: names_slot_def)
  have inv2: "uinv M {} (b + 1) q d1" by (rule uinv_mono [OF o(2)]) simp_all
  have run: "submit_sqe_internal P token op d =
       (case submit_from_slot_raw P token ?i ?d of
                  None \<Rightarrow> None
                | Some (d1, Inr True) \<Rightarrow> Some (d1, None, Submitted (Ready ()))
                | Some (d1, Inr False) \<Rightarrow> Some (push_backlog token d1, None, Submitted Pending)
                | Some (d1, Inl e) \<Rightarrow>
                    (case active_slot_bundle token (dr_ops d1) of
                       None \<Rightarrow> Some (d1, None, SubmitFailed e StatusVoid)
                     | Some n \<Rightarrow> Some (on_ops (upd_local n (\<lambda>l. l\<lparr>ls_op := None\<rparr>)) d1,
                                      ls_op (locals (dr_ops d1) ! n), SubmitFailed e StatusVoid)))"
    using v op0 i by (simp add: submit_sqe_internal_def init_op_with_def)
  show ?thesis
  proof (cases res)
    case (Inl e)
    have b: "active_slot_bundle token (dr_ops d1) = Some ?i"
      using o(4,5,7) Inl len c(2) by (simp add: active_slot_bundle_def is_current_active_def slot_bundle_by_index_def Let_def)
    let ?d2 = "on_ops (upd_local ?i (\<lambda>l. l\<lparr>ls_op := None\<rparr>)) d1"
    have "uinv M {} (b + 1) q ?d2"
      unfolding on_ops_def by (rule uinv_ops [OF inv2]) (use init_op_inv [OF uinvD(1) [OF inv2]] o(5,7) Inl c(2) in simp_all)
    moreover have "checked_view token ?d2 = Inr (CheckedValid (ViewReserved ?i))"
      using o(4,5,7) Inl len c(2)
      by (simp add: checked_view_dr checked_slot_view_def slot_bundle_by_index_def snapshot_at_def try_bind_def Let_def on_ops_def)
    moreover have "submit_sqe_internal P token op d = Some (?d2, ls_op (locals (dr_ops d1) ! ?i), SubmitFailed e StatusVoid)"
      unfolding run o(1) using Inl b by simp
    ultimately show ?thesis using named o(3,6) by (simp add: on_ops_def)
  next
    case (Inr ok)
    have "uinv M {} (b + 1) q (push_backlog token d1)"
      using o(2) by (simp add: uinv_def push_backlog_def chunks_of_def dr_world_def)
    then show ?thesis
      unfolding run o(1) using Inr inv2 named o(3,5) by (cases ok) (simp_all add: push_backlog_def)
  qed
qed

end
