(* ===== verification/Uring_Progress.thy ===== *)
theory Uring_Progress
  imports Uring_Inv
begin

text \<open>
  The operations of the io_uring driver return and keep its invariant: cancellation, the backlog, the
  acceptance of completions and a round of polling.
\<close>

subsection \<open>Cancel requests\<close>

text \<open>The identifiers of cancel requests run through the numbers from 1 to 65535.\<close>

definition cancel_id_after :: "u16 \<Rightarrow> nat \<Rightarrow> u16" where
  "cancel_id_after next k = word_of_nat ((unat next - 1 + k) mod 65535 + 1)"

lemma cancel_id_step:
  assumes "next \<noteq> 0"
  shows "cancel_id_after next 0 = next" "(if next + 1 = 0 then 1 else next + 1 :: u16) \<noteq> 0"
    "cancel_id_after (if next + 1 = 0 then 1 else next + 1) k = cancel_id_after next (Suc k)"
proof -
  have n: "0 < unat next" "unat next < 65536" using assms unsigned_less [of "next"] by (simp_all add: unat_gt_0)
  then have m: "(unat next - 1) mod 65535 + 1 = unat next" by simp
  show "cancel_id_after next 0 = next" unfolding cancel_id_after_def using m by simp
  show "(if next + 1 = 0 then 1 else next + 1 :: u16) \<noteq> 0" by simp
  have s: "unat (next + 1) = (unat next + 1) mod 65536" by (simp add: unat_add_mod)
  have "next + 1 = 0 \<longleftrightarrow> (unat next + 1) mod 65536 = 0" unfolding s [symmetric] by (rule unat_eq_zero [symmetric])
  also have "\<dots> \<longleftrightarrow> unat next = 65535"
  proof (cases "unat next = 65535")
    case False
    then have "unat next + 1 < 65536" using n by linarith
    then show ?thesis using False by (simp only: mod_less) simp
  qed simp
  finally have z: "next + 1 = 0 \<longleftrightarrow> unat next = 65535" .
  show "cancel_id_after (if next + 1 = 0 then 1 else next + 1) k = cancel_id_after next (Suc k)"
  proof (cases "next + 1 = 0")
    case True
    then have "unat next - 1 + Suc k = 65535 + k" using z by simp
    then show ?thesis using True by (simp add: cancel_id_after_def)
  next
    case False
    then have "unat (next + 1) = unat next + 1" using s z n by simp
    then have "unat (next + 1) - 1 + k = unat next - 1 + Suc k" using n by simp
    then show ?thesis using False by (simp add: cancel_id_after_def)
  qed
qed

lemma cancel_id_scan_spec:
  assumes "next \<noteq> 0" "cancel_id_scan n pending next = (next', res)"
  shows "next' \<noteq> 0 \<and> (case res of Some cid \<Rightarrow> cid \<noteq> 0 \<and> pending cid = None
     | None \<Rightarrow> (\<forall>k<n. pending (cancel_id_after next k) \<noteq> None))"
  using assms
proof (induction n arbitrary: "next")
  case (Suc n)
  note st = cancel_id_step [OF Suc.prems(1)]
  show ?case
  proof (cases "pending next")
    case None
    then show ?thesis using Suc.prems st by (auto simp: Let_def)
  next
    case (Some c)
    let ?next = "if next + 1 = 0 then 1 else next + 1"
    have IH: "next' \<noteq> 0 \<and> (case res of Some cid \<Rightarrow> cid \<noteq> 0 \<and> pending cid = None
        | None \<Rightarrow> (\<forall>k<n. pending (cancel_id_after ?next k) \<noteq> None))"
      by (rule Suc.IH [OF st(2)]) (use Suc.prems(2) Some in \<open>simp add: Let_def\<close>)
    have "pending (cancel_id_after next k) \<noteq> None" if "k < Suc n" "res = None" for k
    proof (cases k)
      case 0
      then show ?thesis using st(1) Some by simp
    next
      case (Suc m)
      then show ?thesis using IH that st(3) by simp
    qed
    then show ?thesis using IH by (cases res) simp_all
  qed
qed simp

lemma cancel_id_covers:
  assumes "next \<noteq> 0" "c \<noteq> 0"
  shows "\<exists>k<65535. cancel_id_after next k = c"
proof -
  have n: "0 < unat next" "unat next < 65536" "0 < unat c" "unat c < 65536"
    using assms unsigned_less [of "next"] unsigned_less [of c] by (simp_all add: unat_gt_0)
  let ?k = "(unat c + 65535 - unat next) mod 65535"
  have "(unat next - 1 + ?k) mod 65535 = (unat next - 1 + (unat c + 65535 - unat next)) mod 65535" by (rule mod_add_right_eq)
  also have "unat next - 1 + (unat c + 65535 - unat next) = unat c - 1 + 65535" using n by simp
  also have "(unat c - 1 + 65535) mod 65535 = unat c - 1" using n unfolding mod_add_self2 by (intro mod_less) linarith
  finally have "cancel_id_after next ?k = c" unfolding cancel_id_after_def using n by simp
  then show ?thesis by (intro exI [of _ ?k]) simp
qed

lemma next_id_uinv:
  assumes "uinv M X b q d" "next_cancel_completion_id d = (d', res)"
  shows "uinv M X b q d'" "dr_pending_cancellations d' = dr_pending_cancellations d" "dr_pending_cancel_cqes d' = dr_pending_cancel_cqes d"
proof -
  obtain n where n: "cancel_id_scan 65535 (dr_pending_cancel_cqes d) (dr_next_cancel_id d) = (n, res)" "d' = d\<lparr>dr_next_cancel_id := n\<rparr>"
    using assms(2) by (auto simp: next_cancel_completion_id_def split: prod.splits)
  have "n \<noteq> 0" using cancel_id_scan_spec [OF _ n(1)] assms(1) by (simp add: uinv_def)
  then show "uinv M X b q d'" "dr_pending_cancellations d' = dr_pending_cancellations d" "dr_pending_cancel_cqes d' = dr_pending_cancel_cqes d"
    using assms(1) n(2) by (simp_all add: uinv_def chunks_of_def dr_world_def)
qed

lemma try_submit_cancel_ok:
  assumes env: "env_ok P M" and inv: "uinv M X b q d" and run: "try_submit_cancel_request P request d = (d', res)"
  shows "uinv M X b q d'" "dr_pending_cancellations d' = dr_pending_cancellations d"
proof -
  obtain d1 o1 where n: "next_cancel_completion_id d = (d1, o1)" by fastforce
  note n1 = next_id_uinv [OF inv n]
  have "uinv M X b q d' \<and> dr_pending_cancellations d' = dr_pending_cancellations d"
  proof (cases o1)
    case (Some cid)
    obtain d2 ok where p: "push_entry P (token_cancel cid) (ro_async_cancel (up_ring P) (token_user (pc_target request))) d1 = (d2, ok)"
      by fastforce
    have "uinv M X b q d2" by (rule push_entry_uinv [OF env p n1(1)])
    moreover have "dr_pending_cancellations d2 = dr_pending_cancellations d1" using push_entry_world [OF env p] by auto
    ultimately show ?thesis
      using run n n1 Some p by (cases ok) (auto simp: try_submit_cancel_request_def on_diag_def)
  qed (use run n n1 in \<open>simp add: try_submit_cancel_request_def\<close>)
  then show "uinv M X b q d'" "dr_pending_cancellations d' = dr_pending_cancellations d" by simp_all
qed

lemma submit_cancel_uinv:
  assumes "env_ok P M" "uinv M X b q d" "submit_cancel_request P request d = (d', res)"
  shows "uinv M X b q d'"
  using assms(3) try_submit_cancel_ok(1) [OF assms(1,2)]
  by (fastforce simp: submit_cancel_request_def split: prod.splits option.splits)

lemma remove_uinv:
  assumes "uinv M {} b q d"
  shows "\<exists>r x. remove token (dr_ops d) = Some (r, x) \<and> uinv M {} b q (d\<lparr>dr_ops := r\<rparr>)"
proof (cases "token_live token (dr_ops d)")
  case True
  let ?r = "dr_ops d" let ?i = "unat (op_index token)"
  have inv: "driver_inv ?r" using uinvD(2) [OF assms] by simp
  have "names_slot token (shared ?r)"
    using True driver_invD(3) [OF inv] driver_invD(4) [OF inv, of ?i] by (auto simp: token_live_def names_slot_def lifecycle_ok_def)
  then obtain r' x where "remove token ?r = Some (r', Some x)" "driver_inv r'"
    using release_lifecycle [OF inv_except_mono [OF inv] True] by blast
  then show ?thesis using uinv_ops [OF assms, of "{}" r'] remove_length [of token ?r r'] by (auto simp: driver_inv_def)
qed (use assms remove_not_live [of token "dr_ops d"] in simp)

subsection \<open>Cancelling, given a function that accepts the driver's own completions\<close>

fun driver_made :: "unit completion_ingress \<Rightarrow> bool" where
  "driver_made (IngressSynthetic _ _) = True"
| "driver_made (IngressAnomaly _ _) = True"
| "driver_made _ = False"

definition acc_ok :: "('r, 'm) uring_model \<Rightarrow> ('k, 'p, 'r, 'm) acceptor \<Rightarrow> bool" where
  "acc_ok M acc \<longleftrightarrow> (\<forall>ing syn b q d. driver_made ing \<longrightarrow> uinv M {} b q d \<longrightarrow>
     (\<exists>d' res. acc ing syn d = Some (d', res) \<and> uinv M {} b q d' \<and> dr_pending_cancellations d' = dr_pending_cancellations d))"

lemma acc_okD:
  "\<lbrakk>acc_ok M acc; uinv M {} b q d\<rbrakk> \<Longrightarrow> \<exists>d' res. acc (IngressSynthetic ev src) syn d = Some (d', res) \<and> uinv M {} b q d'
     \<and> dr_pending_cancellations d' = dr_pending_cancellations d"
  "\<lbrakk>acc_ok M acc; uinv M {} b q d\<rbrakk> \<Longrightarrow> \<exists>d' res. acc (IngressAnomaly k att) syn d = Some (d', res) \<and> uinv M {} b q d'
     \<and> dr_pending_cancellations d' = dr_pending_cancellations d"
  unfolding acc_ok_def using driver_made.simps(1,2) by blast+

lemma try_tail:
  assumes "\<exists>d' res. m = Some (d', res) \<and> Q d'"
  shows "\<exists>d' res. try_then m (\<lambda>_ d1. Some (d1, Inr x)) = Some (d', res) \<and> Q d'"
proof -
  obtain d1 res where "m = Some (d1, res)" "Q d1" using assms by blast
  then show ?thesis by (cases res) simp_all
qed

lemma complete_local_ok:
  assumes "acc_ok M acc" "uinv M {} b q d"
  shows "\<exists>d' res. complete_local_cancel acc token mode d = Some (d', res) \<and> uinv M {} b q d'"
  unfolding complete_local_cancel_def accept_synthetic_completion_def
  by (rule try_tail) (use acc_okD(1) [OF assms(1)] assms(2) in \<open>meson uinv_fields(11)\<close>)

lemma complete_locally_ok:
  assumes "acc_ok M acc" "uinv M {} b q d"
  shows "\<exists>d' res. complete_locally acc token mode d = Some (d', res) \<and> uinv M {} b q d'"
  unfolding complete_locally_def by (rule try_tail [OF complete_local_ok [OF assms]])

lemma queued_error_ok:
  assumes "acc_ok M acc" "uinv M {} b q d"
  shows "\<exists>d'. complete_queued_submission_error acc token report d = Some (d', Inr ()) \<and> uinv M {} b q d'"
  using acc_okD(1) [OF assms] unfolding complete_queued_submission_error_def accept_synthetic_completion_def ignore_result_def by fastforce

lemma cancel_gone_ok:
  assumes "acc_ok M acc" "uinv M {} b q d"
  shows "\<exists>d' res. snd (cancel_gone acc token view d) = Some (d', res) \<and> uinv M {} b q d'
     \<and> dr_pending_cancellations d' = dr_pending_cancellations d"
proof -
  obtain reason kind where k: "cancel_target_kind token view (dr_ops d) = (reason, kind)" by fastforce
  have "uinv M {} b q (record_cancel_target_gone reason d)" using assms(2) by (simp add: record_cancel_target_gone_def)
  from acc_okD(2) [OF assms(1) this] show ?thesis
    by (simp add: cancel_gone_def k accept_completion_anomaly_kind_def record_cancel_target_gone_def on_diag_def)
qed

lemma backlog_uinv:
  assumes "uinv M X b q d" "length bl \<le> b"
  shows "uinv M X b q (d\<lparr>dr_backlog := bl\<rparr>)"
  using assms by (simp add: uinv_def chunks_of_def dr_world_def)

lemma remove_backlog_uinv: "uinv M X b q d \<Longrightarrow> uinv M X b q (remove_backlog_token token d)"
  unfolding remove_backlog_token_def by (rule backlog_uinv) (auto simp: uinv_def length_remove1)

lemma pop_backlog_uinv: "uinv M X b q d \<Longrightarrow> dr_backlog d \<noteq> [] \<Longrightarrow> uinv M X (b - 1) q (pop_backlog d)"
  unfolding pop_backlog_def by (auto simp: uinv_def chunks_of_def dr_world_def)

lemma slot_cancel_uinv:
  assumes "uinv M {} b q d" "i < length (locals (dr_ops d))" "slot_state_of (slots (shared (dr_ops d)) ! i) = InFlightWaiting"
  shows "uinv M {} b q (on_ops (slot_cancel i) d)"
proof -
  have inv: "driver_inv (dr_ops d)" using uinvD(2) [OF assms(1)] by simp
  have "inv_except {} (slot_cancel i (dr_ops d))"
  proof (rule inv_except_restore)
    show "inv_except (insert i {}) (slot_cancel i (dr_ops d))"
      unfolding slot_cancel_def using set_state_inv [OF uinvD(1) [OF assms(1)] assms(2)] assms(3) by simp
    show "lifecycle_ok (locals (slot_cancel i (dr_ops d)) ! i) (slots (shared (slot_cancel i (dr_ops d))) ! i)"
      using driver_invD(4) [OF inv assms(2)] driver_invD(3) [OF inv] assms(2,3) by (auto simp: slot_cancel_def lifecycle_ok_def split: if_splits)
  qed
  then show ?thesis unfolding on_ops_def by (rule uinv_ops [OF assms(1)]) (simp add: slot_cancel_def)
qed

lemma cancel_in_flight_ok:
  assumes env: "env_ok P M" and acc: "acc_ok M acc" and inv: "uinv M {} b q d"
    and bf: "\<And>d1. \<lbrakk>uinv M {} b q d1; dr_ops d1 = dr_ops (set_platform i clear_timer_id d)\<rbrakk> \<Longrightarrow> uinv M {} b q (before d1)"
  shows "\<exists>d' res. cancel_in_flight acc P request mode i before d = Some (d', res) \<and> uinv M {} b q d'"
proof -
  let ?d = "set_platform i clear_timer_id d"
  have inv1: "uinv M {} b q ?d" using inv by simp
  have wheel: "uinv M {} b q (?d\<lparr>dr_wheel := fst (wheel_cancel (up_slot_map P) tid (dr_wheel ?d))\<rparr>)" for tid
  proof (rule uinv_wheel [OF inv1])
    note w = wheel_cancel_ok [OF env_okD(2) [OF env] uinvD(5) [OF inv1], of tid]
    show "wheel_inv (um_slot_map M) (fst (wheel_cancel (up_slot_map P) tid (dr_wheel ?d)))"
      "wh_global_tick (fst (wheel_cancel (up_slot_map P) tid (dr_wheel ?d))) = wh_global_tick (dr_wheel ?d)" using w(3,4) by simp_all
  qed (simp add: wheel_cancel_def split: option.splits)
  show ?thesis
    using complete_locally_ok [OF acc remove_backlog_uinv [OF inv]] complete_locally_ok [OF acc wheel]
      submit_cancel_uinv [OF env bf [OF inv1 refl]]
    by (auto simp: cancel_in_flight_def Let_def split: option.splits prod.splits)
qed

lemma cancel_reserved_ok:
  assumes "uinv M {} b q d" "ls_op (locals (dr_ops d) ! i) = None"
  shows "\<exists>d' res. cancel_reserved acc token mode i d = Some (d', res) \<and> uinv M {} b q d'"
  using remove_uinv [OF assms(1), of token] assms(2) by (auto simp: cancel_reserved_def)

lemma cancel_op_ok:
  assumes env: "env_ok P M" and acc: "acc_ok M acc" and inv: "uinv M {} b q d"
  shows "\<exists>d' res. cancel_op_internal acc P request d = Some (d', res) \<and> uinv M {} b q d'"
proof -
  let ?req = "pending_cancel_new request" let ?t = "pc_target ?req"
  have gone: ?thesis if "cancel_op_internal acc P request d =
      (case cancel_gone acc ?t view d of (reason, out) \<Rightarrow> try_then (ignore_result out) (\<lambda>_ d1. Some (d1, Inr (CancelTargetGone reason))))" for view
    using cancel_gone_ok [OF acc inv, of ?t view] unfolding that by (auto simp: ignore_result_def split: prod.splits)
  show ?thesis
  proof (cases "checked_view ?t d")
    case (Inl e)
    then show ?thesis using inv by (simp add: cancel_op_internal_def Let_def)
  next
    case (Inr v)
    show ?thesis
    proof (cases v)
      case (CheckedValid vr)
      note c = checked_view_valid [OF Inr [unfolded checked_view_dr CheckedValid] uinvD(1) [OF inv]]
      show ?thesis
      proof (cases vr)
        case (ViewReserved i)
        then show ?thesis
          using cancel_reserved_ok [OF inv, of i acc ?t "pc_mode ?req"] c(1) c(5) [of i] Inr CheckedValid by (simp add: cancel_op_internal_def Let_def)
      next
        case (ViewWaiting i)
        have ops: "dr_ops (set_platform i clear_timer_id d) = upd_local i (\<lambda>l. l\<lparr>ls_platform := clear_timer_id (ls_platform l)\<rparr>) (dr_ops d)"
          by (simp add: set_platform_def on_ops_def)
        have "\<exists>d' res. cancel_in_flight acc P ?req (pc_mode ?req) i (\<lambda>d1. if pc_mode ?req = Abandon then on_ops (slot_cancel i) d1 else d1) d
            = Some (d', res) \<and> uinv M {} b q d'"
          by (rule cancel_in_flight_ok [OF env acc inv]) (use c ViewWaiting in \<open>auto simp: ops intro!: slot_cancel_uinv\<close>)
        then show ?thesis using Inr CheckedValid ViewWaiting by (simp add: cancel_op_internal_def Let_def)
      next
        case (ViewOrphaned i)
        then show ?thesis
          using cancel_in_flight_ok [OF env acc inv, of i "\<lambda>d1. d1" ?req Abandon] Inr CheckedValid by (simp add: cancel_op_internal_def Let_def)
      qed
    qed (use Inr in \<open>intro gone, simp add: cancel_op_internal_def Let_def\<close>)+
  qed
qed

text \<open>The loop over waiting cancel requests ends: each round takes one from the queue.\<close>

lemma flush_cancellations_loop_ok:
  assumes env: "env_ok P M" and acc: "acc_ok M acc"
  shows "uinv M {} b q d \<Longrightarrow> \<exists>d' res. flush_cancellations_loop acc P n limit d = Some (d', res) \<and> uinv M {} b q d'"
proof (induction "length (dr_pending_cancellations d)" arbitrary: n d)
  case 0
  then show ?case by (subst flush_cancellations_loop.simps) auto
next
  case (Suc m)
  then obtain request rest where p: "dr_pending_cancellations d = request # rest" by (cases "dr_pending_cancellations d") auto
  let ?t = "pc_target request" and ?d = "d\<lparr>dr_pending_cancellations := rest\<rparr>"
  have gone: "\<exists>d' res. try_then (snd (cancel_gone acc ?t view ?d)) (\<lambda>_ d1. flush_cancellations_loop acc P n limit d1) = Some (d', res)
      \<and> uinv M {} b q d'" for view
  proof -
    obtain d1 res1 where g: "snd (cancel_gone acc ?t view ?d) = Some (d1, res1)" "uinv M {} b q d1" "dr_pending_cancellations d1 = rest"
      using cancel_gone_ok [OF acc, of b q ?d ?t view] Suc.prems by auto
    show ?thesis using g Suc.hyps(1) [of d1 n] Suc.hyps(2) p by (cases res1) simp_all
  qed
  show ?case
  proof (cases "n < limit")
    case True
    show ?thesis
    proof (cases "checked_view ?t d")
      case (Inr v)
      show ?thesis
      proof (cases v)
        case (CheckedValid vr)
        obtain d1 x where t: "try_submit_cancel_request P request d = (d1, x)" by fastforce
        note t1 = try_submit_cancel_ok [OF env Suc.prems t]
        have "\<exists>d' res. flush_cancellations_loop acc P (n + 1) limit (d1\<lparr>dr_pending_cancellations := tl (dr_pending_cancellations d1)\<rparr>)
            = Some (d', res) \<and> uinv M {} b q d'"
          by (rule Suc.hyps(1)) (use t1 p Suc.hyps(2) in simp_all)
        then show ?thesis
          using True p Inr CheckedValid t t1(1) by (subst flush_cancellations_loop.simps) (cases x; simp)
      qed (use True p Inr gone in \<open>subst flush_cancellations_loop.simps, simp\<close>)+
    qed (use True p Suc.prems in \<open>subst flush_cancellations_loop.simps, simp\<close>)
  qed (use Suc.prems in \<open>subst flush_cancellations_loop.simps, simp\<close>)
qed

lemma flush_cancellations_ok:
  assumes "env_ok P M" "acc_ok M acc" "uinv M {} b q d"
  shows "\<exists>d' res. flush_cancellations acc P d = Some (d', res) \<and> uinv M {} b q d'"
  unfolding flush_cancellations_def by (rule flush_cancellations_loop_ok [OF assms])

subsection \<open>The backlog\<close>

text \<open>A round takes the front entry off the backlog, or stops the loop.\<close>

lemma flush_round_ok:
  assumes env: "env_ok P M" and acc: "acc_ok M acc" and inv: "uinv M {} (Suc b) q d" and bl: "dr_backlog d = token # rest"
  shows "\<exists>d' res. flush_backlog_round acc P token d = Some (d', res) \<and> uinv M {} (Suc b) q d' \<and> (res = Inr True \<longrightarrow> uinv M {} b q d')"
proof -
  let ?run = "flush_backlog_round acc P token d"
  have popped: "uinv M {} b q (pop_backlog d)" using pop_backlog_uinv [OF inv] bl by simp
  have weaken: "uinv M {} (Suc b) q d'" if "uinv M {} b q d'" for d' by (rule uinv_mono [OF that]) simp_all
  have tail: ?thesis if "?run = try_then m (\<lambda>_ d1. Some (d1, Inr True))" "\<exists>d' res. m = Some (d', res) \<and> uinv M {} b q d'"
    for m :: "('c, 'd, 'a, 'b, 'x) driver_outcome"
    using try_tail [OF that(2), of True] weaken unfolding that(1) by blast
  show ?thesis
  proof (cases "checked_view token d")
    case (Inl e)
    then show ?thesis using inv by (simp add: flush_backlog_round_def)
  next
    case (Inr v)
    show ?thesis
    proof (cases "backlog_action_of v d")
      case SubmitReserved
      then obtain i where "v = CheckedValid (ViewReserved i)" "ls_op (locals (dr_ops d) ! i) \<noteq> None"
        by (auto simp: backlog_action_of_def snapshot_at_def split: checked_slot_view.splits slot_view_ref.splits if_splits)
      then show ?thesis
        using checked_view_valid [OF Inr [unfolded checked_view_dr, unfolded \<open>v = _\<close>] uinvD(1) [OF inv]] by simp
    next
      case SubmitQueuedOp
      then obtain i where v: "v = CheckedValid (ViewWaiting i)"
        by (auto simp: backlog_action_of_def split: checked_slot_view.splits slot_view_ref.splits if_splits)
      note c = checked_view_valid [OF Inr [unfolded checked_view_dr v] uinvD(1) [OF inv]]
      obtain d1 res1 where s: "submit_queued_from_slot_raw P token i d = Some (d1, res1)" "uinv M {} (Suc b) q d1" "dr_backlog d1 = dr_backlog d"
        using submit_queued_ok [OF env inv] c by fastforce
      have p1: "uinv M {} b q (pop_backlog d1)" using pop_backlog_uinv [OF s(2)] s(3) bl by simp
      have run: "?run = (case Some (d1, res1) of
                       None \<Rightarrow> None
                     | Some (d1, Inr True) \<Rightarrow> Some (pop_backlog d1, Inr True)
                     | Some (d1, Inr False) \<Rightarrow> Some (d1, Inr False)
                     | Some (d1, Inl report) \<Rightarrow>
                         try_then (complete_queued_submission_error acc token report (pop_backlog d1)) (\<lambda>_ d2. Some (d2, Inr True)))"
        using Inr SubmitQueuedOp v s(1) by (simp add: flush_backlog_round_def)
      show ?thesis
      proof (cases res1)
        case (Inl report)
        obtain d2 where "complete_queued_submission_error acc token report (pop_backlog d1) = Some (d2, Inr ())" "uinv M {} b q d2"
          using queued_error_ok [OF acc p1] by blast
        then show ?thesis unfolding run using Inl weaken by simp
      next
        case (Inr ok)
        then show ?thesis unfolding run using p1 weaken [OF p1] s(2) by (cases ok) simp_all
      qed
    next
      case CancelQueuedOp
      then show ?thesis using Inr by (intro tail [OF _ complete_local_ok [OF acc popped]]) (simp add: flush_backlog_round_def)
    next
      case CancelKernelOp
      then show ?thesis using Inr by (intro tail [OF _ cancel_op_ok [OF env acc popped]]) (simp add: flush_backlog_round_def)
    next
      case DropEntry
      then show ?thesis using popped weaken [OF popped] Inr by (simp add: flush_backlog_round_def)
    qed
  qed
qed

lemma flush_backlog_ok:
  assumes env: "env_ok P M" and acc: "acc_ok M acc"
  shows "uinv M {} b q d \<Longrightarrow> \<exists>d' res. flush_backlog acc P d = Some (d', res) \<and> uinv M {} b q d'"
  unfolding flush_backlog_def
proof (induction b arbitrary: d)
  case 0
  then have "dr_backlog d = []" by (simp add: uinv_def)
  then show ?case using 0 by (subst flush_loop.simps) simp
next
  case (Suc b)
  show ?case
  proof (cases "dr_backlog d")
    case Nil
    then show ?thesis using Suc.prems by (subst flush_loop.simps) simp
  next
    case (Cons token rest)
    obtain d1 res1 where r: "flush_backlog_round acc P token d = Some (d1, res1)" "uinv M {} (Suc b) q d1" "res1 = Inr True \<longrightarrow> uinv M {} b q d1"
      using flush_round_ok [OF env acc Suc.prems Cons] by blast
    have go: "uinv M {} b q d1 \<Longrightarrow> \<exists>d' res. flush_loop (flush_backlog_round acc P) d1 = Some (d', res) \<and> uinv M {} (Suc b) q d'"
      using Suc.IH [of d1] uinv_mono [of M "{}" b q _ "{}" "Suc b" q] by fastforce
    show ?thesis
      using Cons r go by (subst flush_loop.simps) (cases res1, auto)
  qed
qed

end
