(* ===== verification/Uring_Total.thy ===== *)
theory Uring_Total
  imports Uring_Progress
begin

text \<open>
  Accepting completions and polling: every call of the io_uring driver returns and keeps the invariant,
  and nested acceptances end at the second level.
\<close>

subsection \<open>The tables of files and the waker\<close>

lemma uinv_files:
  assumes "uinv M X b q d" "file_inv (wv_files (um_world M)) ft" "wv_buffers (um_world M) (ft_ring ft) = wv_buffers (um_world M) (dr_world d)"
    "wv_inbox (um_world M) (ft_ring ft) = wv_inbox (um_world M) (dr_world d)"
  shows "uinv M X b q (d\<lparr>dr_files := ft\<rparr>)"
  using assms by (simp add: uinv_def chunk_inv_def chunks_of_def dr_world_def)

lemma on_files_keeps:
  assumes env: "env_ok P M"
  shows "keeps (uinv M X b q) (on_files (unregister_close_owned_fd (ro_files (up_ring P)) fd))"
    "keeps (uinv M X b q) (on_files (replace_registered_fixed_fd (ro_files (up_ring P)) fd raw))"
    "keeps (uinv M X b q) (on_files (unregister_files (ro_files (up_ring P)) fds))"
proof -
  note R = ring_okD [OF env_okD(1) [OF env]]
  have step: "keeps (uinv M X b q) (on_files f)"
    if "\<And>ft. file_inv (wv_files (um_world M)) ft \<Longrightarrow> file_inv (wv_files (um_world M)) (fst (f ft))"
      "\<And>ft. wv_buffers (um_world M) (ft_ring (fst (f ft))) = wv_buffers (um_world M) (ft_ring ft)"
      "\<And>ft. wv_inbox (um_world M) (ft_ring (fst (f ft))) = wv_inbox (um_world M) (ft_ring ft)"
    for f :: "'a file_table \<Rightarrow> 'a file_table \<times> (uring_report + unit)"
  proof (rule keepsI)
    fix d assume inv: "uinv M X b q d"
    obtain ft res where f: "f (dr_files d) = (ft, res)" by fastforce
    have "uinv M X b q (d\<lparr>dr_files := ft\<rparr>)"
      using uinv_files [OF inv] that(1) [OF uinvD(3) [OF inv]] that(2,3) [of "dr_files d"] f by (simp add: dr_world_def)
    then show "\<exists>d' r. on_files f d = Some (d', r) \<and> uinv M X b q d'" using f by (simp add: on_files_def)
  qed
  show "keeps (uinv M X b q) (on_files (unregister_close_owned_fd (ro_files (up_ring P)) fd))"
    by (rule step) (use closing_ops_inv [OF R(1)] closing_frame [OF R(5)] closing_frame [OF R(6)] in simp_all)
  show "keeps (uinv M X b q) (on_files (replace_registered_fixed_fd (ro_files (up_ring P)) fd raw))"
    by (rule step) (use closing_ops_inv [OF R(1)] closing_frame [OF R(5)] closing_frame [OF R(6)] in simp_all)
  show "keeps (uinv M X b q) (on_files (unregister_files (ro_files (up_ring P)) fds))"
    by (rule step) (use closing_ops_inv [OF R(1)] closing_frame [OF R(5)] closing_frame [OF R(6)] in simp_all)
qed

lemma register_files_keeps:
  assumes "env_ok P M"
  shows "keeps (uinv M X b q) (register_files_driver P files)"
proof (rule keepsI)
  fix d assume inv: "uinv M X b q d"
  note R = ring_okD [OF env_okD(1) [OF assms]]
  obtain ft res where r: "register_files_internal (ro_files (up_ring P)) (length (locals (dr_ops d))) files (dr_files d) = Some (ft, res)"
    "file_inv (wv_files (um_world M)) ft"
    by (rule register_files_ok [OF R(1) uinvD(3) [OF inv] uinvD(6) [OF inv] aged_exists, of files])
  then have "uinv M X b q (d\<lparr>dr_files := ft\<rparr>)"
    using uinv_files [OF inv r(2)] register_files_frame [OF R(5) R(3) r(1)] register_files_frame [OF R(6) R(4) r(1)] by (simp add: dr_world_def)
  then show "\<exists>d' x. register_files_driver P files d = Some (d', x) \<and> uinv M X b q d'" using r(1) by (simp add: register_files_driver_def)
qed

lemma waker_fd_keeps:
  assumes "env_ok P M"
  shows "keeps (uinv M X b q) (waker_fixed_fd P)"
proof (rule keepsI)
  fix d assume inv: "uinv M X b q d"
  obtain d1 res where r: "register_files_driver P [RegisterBorrowed (RawFile (dr_waker_fd d))] d = Some (d1, res)" "uinv M X b q d1"
    using keepsD [OF register_files_keeps [OF assms] inv] by blast
  show "\<exists>d' x. waker_fixed_fd P d = Some (d', x) \<and> uinv M X b q d'"
    using inv r by (cases res) (auto simp: waker_fixed_fd_def split: option.splits)
qed

lemma submit_waker_keeps:
  assumes "env_ok P M"
  shows "keeps (uinv M X b q) (submit_waker P)"
proof (rule keepsI)
  fix d assume inv: "uinv M X b q d"
  obtain d1 res where r: "waker_fixed_fd P d = Some (d1, res)" "uinv M X b q d1" using keepsD [OF waker_fd_keeps [OF assms] inv] by blast
  show "\<exists>d' x. submit_waker P d = Some (d', x) \<and> uinv M X b q d'"
  proof (cases "dr_waker_armed d \<or> (\<exists>e. res = Inl e)")
    case True
    then show ?thesis using inv r by (auto simp: submit_waker_def)
  next
    case False
    then obtain fd where fd: "res = Inr fd" by (cases res) auto
    obtain d2 ok where p: "push_entry P (token_waker 0) (ro_read_fixed_file (up_ring P) (fd_fixed_index fd)) d1 = (d2, ok)" by fastforce
    show ?thesis using push_entry_uinv [OF assms p r(2)] False r(1) fd p by (cases ok) (simp_all add: submit_waker_def)
  qed
qed

lemma rebuild_waker_keeps:
  assumes env: "env_ok P M"
  shows "keeps (uinv M X b q) (rebuild_waker_fd P)"
proof (rule keepsI)
  fix d assume inv: "uinv M X b q d"
  obtain r1 x where e: "ro_eventfd (up_ring P) (dr_world d) = (r1, x)" by fastforce
  have inv1: "uinv M X b q (with_world r1 d)" by (rule uinv_quiet [OF inv ring_okD(15) [OF env_okD(1) [OF env]] e])
  show "\<exists>d' y. rebuild_waker_fd P d = Some (d', y) \<and> uinv M X b q d'"
  proof (cases x)
    case (Inl err)
    then show ?thesis using inv1 e by (simp add: rebuild_waker_fd_def create_event_fd_def)
  next
    case (Inr fd)
    have "\<exists>d2 y. (case dr_waker_registered_fd (with_world r1 d) of
                  None \<Rightarrow> Some (with_world r1 d, Inr ())
                | Some fixed_fd \<Rightarrow> on_files (replace_registered_fixed_fd (ro_files (up_ring P)) fixed_fd (RawFile fd)) (with_world r1 d)) = Some (d2, y)
        \<and> uinv M X b q d2"
      using inv1 keepsD [OF on_files_keeps(2) [OF env] inv1] by (auto split: option.splits)
    then show ?thesis using Inr e by (auto simp: rebuild_waker_fd_def create_event_fd_def close_event_fd_def split: sum.splits)
  qed
qed

lemma resubmit_waker_keeps:
  assumes "env_ok P M"
  shows "keeps (uinv M X b q) (resubmit_waker P)"
proof (rule keepsI)
  fix d assume "uinv M X b q d"
  from keepsD [OF submit_waker_keeps [OF assms] this] show "\<exists>d' x. resubmit_waker P d = Some (d', x) \<and> uinv M X b q d'"
    by (auto simp: resubmit_waker_def count_waker_rebuild_def split: sum.splits)
qed

subsection \<open>Accepting a completion\<close>

lemma enoent_keeps: "keeps (uinv M X b q) (record_cancel_enoent_if_target_active x)"
  by (rule keepsI) (auto simp: record_cancel_enoent_if_target_active_def split: prod.splits sum.splits)

lemma keeps_if: "\<lbrakk>keeps Q m; keeps Q m'\<rbrakk> \<Longrightarrow> keeps Q (\<lambda>s. if c then m s else m' s)"
  by (cases c) simp_all

lemma post_effects_keep:
  assumes env: "env_ok P M" and fl: "keeps (uinv M X b q) flush"
  shows "keeps (uinv M X b q) (apply_post_completion_effects flush P post)"
proof -
  have rebuild: "keeps (uinv M X b q) (\<lambda>d. rebuild_waker_fd P (count_waker_rebuild d))"
    by (rule keepsI, rule keepsD [OF rebuild_waker_keeps [OF env]]) (simp add: count_waker_rebuild_def)
  have close: "keeps (uinv M X b q) ((\<lambda>(idx, g). on_files (unregister_close_owned_fd (ro_files (up_ring P)) (fixed_with_generation idx g))) x)" for x
    using on_files_keeps(1) [OF env] by (cases x) simp
  show ?thesis
    unfolding apply_post_completion_effects_def [abs_def]
    by (intro keeps_try keeps_each keeps_if keeps_return enoent_keeps close rebuild resubmit_waker_keeps [OF env] fl)
qed

lemma with_hooks_uinv:
  assumes "uinv M {} b q d" "driver_inv r" "length (locals r) = length (locals (dr_ops d))"
  shows "uinv M {} b q (with_hooks r h d)"
proof -
  have "uinv M {} b q (d\<lparr>dr_ops := r\<rparr>)" using uinv_ops [OF assms(1) _ assms(3)] assms(2) by (simp add: driver_inv_def)
  then show ?thesis by (simp add: with_hooks_def)
qed

lemma accept_keeps:
  assumes env: "env_ok P M" and fl: "keeps (uinv M {} b q) flush"
  shows "keeps (uinv M {} b q) (accept_with flush P ing syn)"
proof (rule keepsI)
  fix d :: "('c, 'd, 'a, 'b) uring_driver" assume inv: "uinv M {} b q d"
  obtain r h res where a: "accept_completion uring_completion_hooks ing (dr_ops d) (hooks_of syn d) = Some (r, h, res)" "driver_inv r"
    using uring_accept_ok [OF uinvD(2) [OF inv refl], of ing "hooks_of syn d"] by blast
  have inv1: "uinv M {} b q (with_hooks r h d)" by (rule with_hooks_uinv [OF inv a(2) accept_length [OF a(1)]])
  have "\<exists>d' x. try_then (apply_post_completion_effects flush P (uh_post h) (with_hooks r h d)) (\<lambda>_ d1. Some (d1, Inr out)) = Some (d', x)
      \<and> uinv M {} b q d'" for out :: flow_outcome
    by (rule try_tail [OF keepsD [OF post_effects_keep [OF env fl] inv1]])
  then show "\<exists>d' x. accept_with flush P ing syn d = Some (d', x) \<and> uinv M {} b q d'"
    using a(1) inv1 by (cases res) (simp_all add: accept_with_def)
qed

text \<open>A completion the driver makes up changes only what its hooks borrow, whatever flushing would do.\<close>

lemma no_post_effects: "apply_post_completion_effects flush P post_effects_default d = Some (d, Inr ())"
  by (simp add: apply_post_completion_effects_def post_effects_default_def)

lemma made_post:
  assumes "driver_made ing" "accept_completion uring_completion_hooks ing r h = Some (r', h', out)"
  shows "uh_post h' = uh_post h"
  using assms by (cases ing) (auto simp: accept_completion_def dest: synthetic_post)

lemma accept_made:
  assumes "driver_made ing"
  shows "accept_with flush P ing syn d =
    (case accept_completion uring_completion_hooks ing (dr_ops d) (hooks_of syn d) of
       None \<Rightarrow> None
     | Some (r, h, res) \<Rightarrow> Some (with_hooks r h d, case res of Inl e \<Rightarrow> Inl (flow_report e) | Inr out \<Rightarrow> Inr out))"
proof (cases "accept_completion uring_completion_hooks ing (dr_ops d) (hooks_of syn d)")
  case (Some x)
  obtain r h res where x: "x = (r, h, res)" by (cases x) auto
  have "uh_post h = post_effects_default" using made_post [OF assms Some [unfolded x]] by (simp add: hooks_of_def)
  then show ?thesis using Some x by (cases res) (simp_all add: accept_with_def no_post_effects)
qed (simp add: accept_with_def)

lemma accept_made_fuel: "driver_made ing \<Longrightarrow> accept_ingress (Suc n) P ing syn d = accept_ingress (Suc m) P ing syn d"
  by (simp add: accept_made)

lemma accept_made_ok:
  assumes "driver_made ing" "uinv M {} b q d"
  shows "\<exists>r h res. accept_with flush P ing syn d = Some (with_hooks r h d, res) \<and> uinv M {} b q (with_hooks r h d)"
proof -
  obtain r h res where a: "accept_completion uring_completion_hooks ing (dr_ops d) (hooks_of syn d) = Some (r, h, res)" "driver_inv r"
    using uring_accept_ok [OF uinvD(2) [OF assms(2) refl], of ing "hooks_of syn d"] by blast
  then show ?thesis
    using with_hooks_uinv [OF assms(2) a(2) accept_length [OF a(1)]] unfolding accept_made [OF assms(1)] a(1)
    by (intro exI [of _ r] exI [of _ h]) simp
qed

lemma accept_ingress_acc_ok: "acc_ok M (accept_ingress (Suc n) P)"
  unfolding acc_ok_def
proof (intro allI impI)
  fix ing :: "unit completion_ingress" and syn b q d
  assume "driver_made ing" and inv: "uinv M {} b q d"
  from accept_made_ok [OF this] obtain r h res where
    "accept_ingress (Suc n) P ing syn d = Some (with_hooks r h d, res)" "uinv M {} b q (with_hooks r h d)"
    unfolding accept_ingress.simps by blast
  then show "\<exists>d' res. accept_ingress (Suc n) P ing syn d = Some (d', res) \<and> uinv M {} b q d'
      \<and> dr_pending_cancellations d' = dr_pending_cancellations d"
    by (intro exI [of _ "with_hooks r h d"] exI [of _ res]) (simp add: with_hooks_def)
qed

lemma accept_completion_acc_ok: "acc_ok M (accept_completion_ingress P)"
  unfolding accept_completion_ingress_def numeral_2_eq_2 by (rule accept_ingress_acc_ok)

lemma flush_backlog_keeps: "env_ok P M \<Longrightarrow> acc_ok M acc \<Longrightarrow> keeps (uinv M {} b q) (flush_backlog acc P)"
  by (intro keepsI flush_backlog_ok)

lemma accept_completion_unfold:
  "accept_completion_ingress P ing syn = accept_with (flush_backlog (accept_ingress (Suc 0) P) P) P ing syn"
  by (rule ext) (simp add: accept_completion_ingress_def numeral_2_eq_2)

lemma accept_completion_keeps:
  assumes "env_ok P M"
  shows "keeps (uinv M {} b q) (accept_completion_ingress P ing syn)"
  unfolding accept_completion_unfold by (intro accept_keeps [OF assms] flush_backlog_keeps [OF assms] accept_ingress_acc_ok)

text \<open>More nesting than two levels changes nothing.\<close>

lemma flush_round_fuel: "flush_backlog_round (accept_ingress (Suc n) P) P = flush_backlog_round (accept_ingress (Suc m) P) P"
proof (intro ext)
  note made = accept_made_fuel [of _ n P _ _ m]
  show "flush_backlog_round (accept_ingress (Suc n) P) P t d = flush_backlog_round (accept_ingress (Suc m) P) P t d" for t d
    unfolding flush_backlog_round_def complete_local_cancel_def complete_queued_submission_error_def accept_synthetic_completion_def
      cancel_op_internal_def cancel_reserved_def cancel_in_flight_def complete_locally_def cancel_gone_def accept_completion_anomaly_kind_def
      made [OF driver_made.simps(1) [THEN iffD2, OF TrueI]] made [OF driver_made.simps(2) [THEN iffD2, OF TrueI]] by (rule refl)
qed

lemma flush_backlog_fuel: "flush_backlog (accept_ingress (Suc n) P) P d = flush_backlog (accept_ingress (Suc m) P) P d"
  unfolding flush_backlog_def flush_round_fuel [of n P m] by (rule refl)

lemma accept_ingress_fuel: "2 \<le> n \<Longrightarrow> accept_ingress n P ing syn d = accept_completion_ingress P ing syn d"
proof -
  assume "2 \<le> n"
  then obtain m where n: "n = Suc (Suc m)" by (metis Suc_le_D numeral_2_eq_2 Suc_le_mono)
  show ?thesis unfolding n accept_completion_ingress_def numeral_2_eq_2 accept_ingress.simps(2) [of "Suc _"]
      flush_backlog_fuel [of m P _ 0] by (rule refl)
qed

subsection \<open>Polling\<close>

lemma flush_queues_keeps:
  assumes "env_ok P M"
  shows "keeps (uinv M {} b q) (flush_queues P)"
  unfolding flush_queues_def [abs_def]
  by (intro keeps_try flush_backlog_keeps [OF assms accept_completion_acc_ok] keepsI
      flush_cancellations_ok [OF assms accept_completion_acc_ok])

lemma submit_to_kernel_keeps:
  assumes env: "env_ok P M"
  shows "keeps (uinv M {} b q) (submit_to_kernel P)"
proof (rule keepsI)
  fix d assume inv: "uinv M {} b q d"
  note R = ring_okD [OF env_okD(1) [OF env]]
  let ?R = "up_ring P" and ?r = "dr_world d"
  let ?sent = "if ro_setup_sqpoll ?R then if ro_need_wakeup ?R ?r then ro_submit ?R ?r else (?r, Inr ())
               else if 0 < ro_sq_len ?R ?r then ro_enter ?R (word_of_nat (ro_sq_len ?R ?r)) ?r else (?r, Inr ())"
  obtain r x where s: "?sent = (r, x)" by fastforce
  have same: "with_world (dr_world d) d = d" by (simp add: with_world_def dr_world_def)
  have inv1: "uinv M {} b q (with_world r d)"
    using s inv same uinv_quiet [OF inv R(11)] uinv_quiet [OF inv R(10)] by (auto split: if_splits)
  show "\<exists>d' y. submit_to_kernel P d = Some (d', y) \<and> uinv M {} b q d'"
    using s inv1 keepsD [OF flush_backlog_keeps [OF env accept_completion_acc_ok] inv1]
    by (cases x) (simp_all only: submit_to_kernel_def Let_def prod.case sum.case, auto)
qed

lemma accept_all_Cons:
  "accept_all P ((t, res, fl) # cqes) progress = (\<lambda>d. try_then (accept_completion_ingress P
      (IngressKernel (envelope_from_raw_parts COMP_BACKEND_URING t res fl)) SyntheticNone d) (\<lambda>outcome. accept_all P cqes (flow_merge progress outcome)))"
  by (rule ext) simp

lemma accept_all_keeps:
  assumes "env_ok P M"
  shows "keeps (uinv M {} b q) (accept_all P cqes progress)"
proof (induction cqes arbitrary: progress)
  case (Cons c cqes)
  then show ?case
    by (cases c) (simp only: accept_all_Cons, intro keeps_try accept_completion_keeps [OF assms], simp)
qed (simp add: keeps_def)

lemma process_completions_keeps:
  assumes env: "env_ok P M"
  shows "keeps (uinv M {} b q) (process_completions_internal P)"
proof (rule keepsI)
  fix d assume inv: "uinv M {} b q d"
  note R = ring_okD [OF env_okD(1) [OF env]]
  obtain r1 x where e: "ro_enter (up_ring P) 0 (dr_world d) = (r1, x)" by fastforce
  obtain r2 cqes where c: "ro_drain_completions (up_ring P) r1 = (r2, cqes)" by fastforce
  have "uinv M {} b q (with_world r2 (with_world r1 d))"
    using uinv_quiet [OF uinv_quiet [OF inv R(10) e] R(14)] c by simp
  then have "uinv M {} b q (with_world r2 d)" by (simp add: with_world_def)
  from keepsD [OF accept_all_keeps [OF env] this]
  show "\<exists>d' y. process_completions_internal P d = Some (d', y) \<and> uinv M {} b q d'"
    by (simp add: process_completions_internal_def e c)
qed

lemma drain_loop_ok:
  assumes env: "env_ok P M"
  shows "uinv M {} b q d \<Longrightarrow> \<exists>d' res. drain_loop P out d = Some (d', res) \<and> uinv M {} b q d'"
proof (induction q arbitrary: d out rule: less_induct)
  case (less q)
  obtain r c where c: "ro_try_recv_cancel (up_ring P) (dr_world d) = (r, c)" by fastforce
  note v = ring_ok_recv [OF env_okD(1) [OF env] c]
  have q: "wv_inbox (um_world M) (dr_world d) \<le> q" using less.prems by (simp add: uinv_def)
  show ?case
  proof (cases c)
    case None
    have "uinv M {} b q (with_world r d)" using uinv_world [OF less.prems v(1,2)] v(3) q by simp
    then show ?thesis using c None by (subst drain_loop.simps) simp
  next
    case (Some request)
    let ?q = "wv_inbox (um_world M) r"
    have lt: "?q < q" using v(4) Some q by simp
    have "uinv M {} b q (with_world r d)" using uinv_world [OF less.prems v(1,2)] lt by simp
    then have "uinv M {} b ?q (with_world r d)" by (simp add: uinv_def)
    then obtain d1 res1 where r: "cancel_op_internal (accept_completion_ingress P) P request (with_world r d) = Some (d1, res1)" "uinv M {} b ?q d1"
      using cancel_op_ok [OF env accept_completion_acc_ok] by blast
    have up: "uinv M {} b q d2" if "uinv M {} b ?q d2" for d2 using uinv_mono [OF that] lt by simp
    have "\<exists>d' res. drain_loop P out' d1 = Some (d', res) \<and> uinv M {} b q d'" for out' using less.IH [OF lt r(2), of out'] up by blast
    then show ?thesis using c Some r up [OF r(2)] by (subst drain_loop.simps) (cases res1; simp)
  qed
qed

lemma wait_in_kernel_keeps:
  assumes env: "env_ok P M"
  shows "keeps (uinv M {} b q) (wait_in_kernel P)"
proof (rule keepsI)
  fix d assume inv: "uinv M {} b q d"
  note R = ring_okD [OF env_okD(1) [OF env]]
  have "shape_ok (dr_wheel d)" using uinvD(5) [OF inv] by (simp add: wheel_inv_def)
  then have "next_timeout (up_slot_map P) (dr_wheel d) \<noteq> None"
    by (auto simp: next_timeout_def shape_ok_def Let_def split: option.splits)
  then obtain t where t: "next_timeout (up_slot_map P) (dr_wheel d) = Some t" by blast
  show "\<exists>d' y. wait_in_kernel P d = Some (d', y) \<and> uinv M {} b q d'"
    using inv uinv_quiet [OF inv R(12)] uinv_quiet [OF inv R(13)]
    by (auto simp: wait_in_kernel_def Let_def t split: option.splits prod.splits sum.splits)
qed

text \<open>A round that fails may leave the wheel ahead of the clock by the time passed since the last round.\<close>

definition ahead :: "('r, 'm) uring_model \<Rightarrow> ('r, 'm) uring_model" where
  "ahead M = M\<lparr>um_drift := um_drift M + CLOCK_LIMIT\<rparr>"

lemma ahead_simps [simp]:
  "um_world (ahead M) = um_world M" "um_slot_map (ahead M) = um_slot_map M" "um_start (ahead M) = um_start M"
  "um_drift (ahead M) = um_drift M + CLOCK_LIMIT" "env_ok P (ahead M) = env_ok P M"
  by (simp_all add: ahead_def env_ok_def)

definition advances ::
  "('r, 'm) uring_model \<Rightarrow> nat \<Rightarrow> nat
     \<Rightarrow> (('k, 'p, 'r, 'm) uring_driver \<Rightarrow> ('k, 'p, 'r, 'm, 'a) driver_outcome) \<Rightarrow> bool" where
  "advances M b q m \<longleftrightarrow> (\<forall>d. uinv M {} b q d \<longrightarrow> (\<exists>d' res. m d = Some (d', res) \<and> uinv (ahead M) {} b q d'
     \<and> (\<forall>x. res = Inr x \<longrightarrow> uinv M {} b q d')))"

lemma uinv_ahead:
  assumes "um_drift M + CLOCK_LIMIT \<le> 2 ^ 62" "uinv M X b q d"
  shows "uinv (ahead M) X b q d"
  using assms by (auto simp: uinv_def timers_inv_def)

lemma advances_keeps: "\<lbrakk>um_drift M + CLOCK_LIMIT \<le> 2 ^ 62; keeps (uinv M {} b q) m\<rbrakk> \<Longrightarrow> advances M b q m"
  unfolding advances_def keeps_def using uinv_ahead by blast

lemma advances_try:
  assumes "advances M b q m" "\<And>x. advances M b q (f x)"
  shows "advances M b q (\<lambda>d. try_then (m d) f)"
  unfolding advances_def
proof (intro allI impI)
  fix d :: "('c, 'd, 'a, 'b) uring_driver" assume "uinv M {} b q d"
  then obtain d1 res where 1: "m d = Some (d1, res)" "uinv (ahead M) {} b q d1" "\<forall>x. res = Inr x \<longrightarrow> uinv M {} b q d1"
    using assms(1) unfolding advances_def by blast
  show "\<exists>d' res. try_then (m d) f = Some (d', res) \<and> uinv (ahead M) {} b q d' \<and> (\<forall>x. res = Inr x \<longrightarrow> uinv M {} b q d')"
    using 1 assms(2) by (cases res) (auto simp: advances_def)
qed

lemma timer_round_keeps:
  "keeps (\<lambda>d. uinv M {} b q d \<and> dr_wheel d = w \<and> dr_last_timer_poll d = l)
     (\<lambda>d. try_then (accept_synthetic_completion (accept_completion_ingress P) ev src syn d) (\<lambda>_ d2. Some (d2, Inr ())))"
proof (rule keepsI, rule try_tail, elim conjE)
  fix d assume d: "uinv M {} b q d" "dr_wheel d = w" "dr_last_timer_poll d = l"
  obtain r h res where "accept_completion_ingress P (IngressSynthetic ev src) syn d = Some (with_hooks r h d, res)" "uinv M {} b q (with_hooks r h d)"
    using accept_made_ok [of "IngressSynthetic ev src", OF _ d(1)] unfolding accept_completion_unfold by fastforce
  then show "\<exists>d' res. accept_synthetic_completion (accept_completion_ingress P) ev src syn d = Some (d', res)
      \<and> uinv M {} b q d' \<and> dr_wheel d' = w \<and> dr_last_timer_poll d' = l"
    using d(2,3) by (intro exI [of _ "with_hooks r h d"] exI [of _ res]) (simp add: accept_synthetic_completion_def with_hooks_def)
qed

lemma advance_timers_ok:
  assumes env: "env_ok P M" and inv: "uinv M {} b q d" and dr: "um_drift M + CLOCK_LIMIT \<le> 2 ^ 62"
    and e: "as_millis elapsed < CLOCK_LIMIT"
  shows "\<exists>d' res. advance_timers P elapsed d = Some (d', res) \<and> uinv (ahead M) {} b q d' \<and> dr_last_timer_poll d' = dr_last_timer_poll d
     \<and> wheel_inv (um_slot_map M) (dr_wheel d') \<and> wh_tick_duration_ms (dr_wheel d') = 10
     \<and> wh_global_tick (dr_wheel d') = wh_global_tick (dr_wheel d) + as_millis elapsed div 10"
proof -
  let ?w = "dr_wheel d" and ?n = "as_millis elapsed div 10"
  have t: "timers_inv (um_slot_map M) (um_start M) (um_drift M) ?w (dr_last_timer_poll d)" using inv by (simp add: uinv_def)
  have tick: "wh_tick_duration_ms ?w = 10" using t by (simp add: timers_inv_def)
  have n: "delay_to_ticks elapsed ?w = ?n" using e by (simp add: delay_to_ticks_def tick as_u64_def CLOCK_LIMIT_def)
  have small: "wh_global_tick ?w + ?n < 2 ^ 64" using timers_tick_bound(1) [OF t] e by (simp add: CLOCK_LIMIT_def)
  obtain w' ks where a: "wheel_advance (up_slot_map P) elapsed ?w (dr_timer_buffer d) = Some (w', dr_timer_buffer d @ items (um_slot_map M (wh_tasks ?w)) ks)"
    "fires (um_slot_map M) ?w ?n w' ks"
    using wheel_advance_ok [OF env_okD(2) [OF env] uinvD(5) [OF inv], of elapsed] small unfolding n by blast
  let ?d = "d\<lparr>dr_wheel := w', dr_timer_buffer := []\<rparr>"
  have w: "wheel_inv (um_slot_map M) w'" "wh_tick_duration_ms w' = 10" "wh_global_tick w' = wh_global_tick ?w + ?n"
    using a(2) tick by (simp_all add: fires_def same_geometry_def)
  have "timers_inv (um_slot_map M) (um_start M) (um_drift M + CLOCK_LIMIT) w' (dr_last_timer_poll d)"
    using t w e dr unfolding timers_inv_def by fastforce
  then have inv1: "uinv (ahead M) {} b q ?d" using inv by (simp add: uinv_def chunks_of_def dr_world_def)
  let ?Q = "\<lambda>d'. uinv (ahead M) {} b q d' \<and> dr_wheel d' = w' \<and> dr_last_timer_poll d' = dr_last_timer_poll d"
  have "?Q ?d" using inv1 by simp
  from keepsD [OF keeps_each [OF timer_round_keeps] this] show ?thesis unfolding advance_timers_def a(1) using w by fastforce
qed

lemma poll_timers_advances:
  assumes env: "env_ok P M" and dr: "um_drift M + CLOCK_LIMIT \<le> 2 ^ 62"
  shows "advances M b q (poll_timers P)"
  unfolding advances_def
proof (intro allI impI)
  fix d assume inv: "uinv M {} b q d"
  let ?now = "ce_now (ro_chunks (up_ring P)) (dr_world d)" and ?l = "dr_last_timer_poll d"
  let ?e = "?now - ?l"
  let ?n = "as_millis ?e div 10"
  have t: "timers_inv (um_slot_map M) (um_start M) (um_drift M) (dr_wheel d) ?l" using inv by (simp add: uinv_def)
  have now: "as_millis ?now < CLOCK_LIMIT" by (rule ring_okD(17) [OF env_okD(1) [OF env]])
  have e: "as_millis ?e < CLOCK_LIMIT" using now div_le_mono [of ?e ?now 1000000] by (simp add: as_millis_def)
  have tick: "as_u64 (as_millis (tick_duration (dr_wheel d))) = 10"
    using t by (simp add: timers_inv_def tick_duration_def as_millis_def from_millis_def as_u64_def)
  have u: "as_u64 (as_millis ?e) = as_millis ?e" "as_u64 (?n * 10) = ?n * 10"
    using e div_times_less_eq_dividend [of "as_millis ?e" 10] by (simp_all add: as_u64_def CLOCK_LIMIT_def)
  show "\<exists>d' res. poll_timers P d = Some (d', res) \<and> uinv (ahead M) {} b q d' \<and> (\<forall>x. res = Inr x \<longrightarrow> uinv M {} b q d')"
  proof (cases "?n = 0")
    case True
    then show ?thesis using inv uinv_ahead [OF dr inv] tick u by (simp add: poll_timers_def Let_def)
  next
    case False
    obtain d1 res where a: "advance_timers P ?e d = Some (d1, res)" "uinv (ahead M) {} b q d1" "dr_last_timer_poll d1 = ?l"
      "wheel_inv (um_slot_map M) (dr_wheel d1)" "wh_tick_duration_ms (dr_wheel d1) = 10"
      "wh_global_tick (dr_wheel d1) = wh_global_tick (dr_wheel d) + ?n"
      using advance_timers_ok [OF env inv dr e] by blast
    let ?l' = "?l + from_millis (?n * 10)"
    have run: "poll_timers P d = try_then (Some (d1, res)) (\<lambda>_ d1. Some (d1\<lparr>dr_last_timer_poll := dr_last_timer_poll d1 + from_millis (?n * 10)\<rparr>, Inr ()))"
      using False tick u a(1) by (simp add: poll_timers_def Let_def)
    have "?l' \<le> ?now"
    proof -
      have "?n * 10 * 1000000 \<le> ?e" unfolding as_millis_def by (simp add: div_mult2_eq [symmetric])
      moreover have "?l \<le> ?now" using False by (cases "?l \<le> ?now") (simp_all add: as_millis_def)
      ultimately show ?thesis by (simp add: from_millis_def)
    qed
    then have "as_millis ?l' < CLOCK_LIMIT" using now div_le_mono [of ?l' ?now 1000000] by (simp add: as_millis_def)
    moreover obtain n where n: "?l = um_start M + n * 10000000" "n \<le> wh_global_tick (dr_wheel d)" "wh_global_tick (dr_wheel d) \<le> n + um_drift M"
      using t unfolding timers_inv_def by blast
    have "?l' = um_start M + (n + ?n) * 10000000" unfolding n(1) by (simp add: from_millis_def add_mult_distrib)
    ultimately have "timers_inv (um_slot_map M) (um_start M) (um_drift M) (dr_wheel d1) ?l'"
      unfolding timers_inv_def using a(4-6) n(2,3) dr by (intro conjI exI [of _ "n + ?n"]) simp_all
    then have "uinv M {} b q (d1\<lparr>dr_last_timer_poll := ?l'\<rparr>)" using a(2) by (simp add: uinv_def chunks_of_def dr_world_def)
    then show ?thesis unfolding run using a(2,3) uinv_ahead [OF dr] by (cases res) simp_all
  qed
qed

lemma poll_advances:
  assumes env: "env_ok P M" and dr: "um_drift M + CLOCK_LIMIT \<le> 2 ^ 62"
  shows "advances M b q (poll_nonblocking_internal P)"
proof -
  note k = advances_keeps [OF dr]
  have drain: "keeps (uinv M {} b q) (drain_cancel_requests P)" unfolding drain_cancel_requests_def [abs_def] by (intro keepsI drain_loop_ok [OF env])
  show ?thesis
    unfolding poll_nonblocking_internal_def [abs_def]
    by (intro advances_try poll_timers_advances [OF env dr] k drain flush_queues_keeps [OF env] submit_to_kernel_keeps [OF env]
        process_completions_keeps [OF env])
qed

lemma advances_if: "\<lbrakk>advances M b q m; advances M b q m'\<rbrakk> \<Longrightarrow> advances M b q (\<lambda>d. if c d then m d else m' d)"
  by (simp add: advances_def)

lemma wait_advances:
  assumes env: "env_ok P M" and dr: "um_drift M + CLOCK_LIMIT \<le> 2 ^ 62"
  shows "advances M b q (wait_internal P)"
proof -
  note k = advances_keeps [OF dr]
  have drain: "keeps (uinv M {} b q) (drain_cancel_requests P)" unfolding drain_cancel_requests_def [abs_def] by (intro keepsI drain_loop_ok [OF env])
  show ?thesis
    unfolding wait_internal_def [abs_def]
    by (intro advances_try advances_if poll_timers_advances [OF env dr] k drain flush_queues_keeps [OF env] keeps_return
        wait_in_kernel_keeps [OF env] process_completions_keeps [OF env])
qed

lemma drive_report_keeps: "keeps (uinv M {} b q) (drive_report P)"
proof (rule keepsI)
  fix d assume inv: "uinv M {} b q d"
  have "shape_ok (dr_wheel d)" using uinvD(5) [OF inv] by (simp add: wheel_inv_def)
  then have "next_timeout (up_slot_map P) (dr_wheel d) \<noteq> None"
    by (auto simp: next_timeout_def shape_ok_def Let_def split: option.splits)
  then show "\<exists>d' y. drive_report P d = Some (d', y) \<and> uinv M {} b q d'" using inv by (auto simp: drive_report_def)
qed

lemma drive_advances:
  assumes env: "env_ok P M" and dr: "um_drift M + CLOCK_LIMIT \<le> 2 ^ 62"
  shows "advances M b q (drive P mode)"
proof (cases mode)
  case DrivePoll
  then show ?thesis
    unfolding drive_def [abs_def]
    by simp (intro advances_try poll_advances [OF env dr] advances_keeps [OF dr] drive_report_keeps)
next
  case DriveWait
  then show ?thesis
    unfolding drive_def [abs_def]
    by simp (intro advances_if advances_try wait_advances [OF env dr] advances_keeps [OF dr] drive_report_keeps)
qed

end
