(* ===== verification/Uring_Reach.thy ===== *)
theory Uring_Reach
  imports Uring_Total
begin

text \<open>
  The io_uring driver as a state machine: the calls of its owner, of the remote waker and of the tasks
  that hold its tokens, in any order, and the states they reach from a new driver.
\<close>

subsection \<open>The remaining calls of the owner\<close>

lemma uinv_upd_local:
  assumes "uinv M {} b q d" "inv_except {} (upd_local i f (dr_ops d))"
  shows "uinv M {} b q (d\<lparr>dr_ops := upd_local i f (dr_ops d)\<rparr>)"
  by (rule uinv_ops [OF assms]) simp

lemma alloc_driver_inv:
  assumes inv: "driver_inv r" and a: "alloc data r = Some (r', res)"
  shows "driver_inv r'" "length (locals r') = length (locals r)"
proof -
  note reg = driver_invD(1) [OF inv] and tab = driver_invD(2) [OF inv] and len = driver_invD(3) [OF inv]
  have tab': "table_inv (shared r')" by (rule alloc_table_inv [OF reg tab a])
  have spec: "registry_inv r'" "case res of
          Inl d \<Rightarrow> same_core (shared r) (shared r') \<and> locals r' = locals r
        | Inr h \<Rightarrow> h_index h < length (locals r) \<and> claimed (h_index h) data r r' h"
    using alloc_spec [OF reg, of data] a by (auto split: sum.splits)
  have "lifecycle_ok (locals r' ! j) (slots (shared r') ! j) \<and> length (locals r') = length (locals r)"
    if j: "j < length (locals r)" for j
  proof (cases res)
    case (Inl x)
    then have "core_state (slots (shared r') ! j) = core_state (slots (shared r) ! j)"
      using spec(2) same_core_fields(1) [of "shared r" "shared r'" j] j len by simp
    from lifecycle_core [OF this, of "locals r ! j"] show ?thesis using driver_invD(4) [OF inv j] spec(2) Inl by simp
  next
    case (Inr h)
    let ?i = "h_index h"
    let ?f = "\<lambda>s. slot_set_state Reserved (slot_reset (h_generation h) s)"
    have c: "?i < length (locals r)" "same_core (upd_slot ?i ?f (shared r)) (shared r')"
      "locals r' = (locals r)[?i := (locals r ! ?i)\<lparr>ls_active := True, ls_generation := h_generation h,
         ls_op := None, ls_platform := data, ls_storage := storage_new\<rparr>]"
      using spec(2) Inr by (simp_all add: claimed_def)
    have core: "core_state (slots (shared r') ! j) = core_state (slots (upd_slot ?i ?f (shared r)) ! j)"
      using same_core_fields(1) [OF c(2), of j] j len by simp
    show ?thesis
    proof (cases "j = ?i")
      case True
      then show ?thesis using core c(1,3) len by (simp add: lifecycle_ok_def slot_reset_def)
    next
      case False
      then have "core_state (slots (shared r') ! j) = core_state (slots (shared r) ! j)" using core j len by simp
      from lifecycle_core [OF this, of "locals r ! j"] show ?thesis using driver_invD(4) [OF inv j] c(3) False by simp
    qed
  qed
  moreover have l: "length (locals r') = length (locals r)" using spec(2) by (auto simp: claimed_def split: sum.splits)
  ultimately show "driver_inv r'" "length (locals r') = length (locals r)"
    using spec(1) tab' by (simp_all add: driver_inv_def inv_except_def)
qed

lemma reserve_keeps: "keeps (uinv M {} b q) reserve_op_raw"
proof (rule keepsI)
  fix d assume inv: "uinv M {} b q d"
  have dinv: "driver_inv (dr_ops d)" using uinvD(2) [OF inv] by simp
  obtain r res where a: "alloc default (dr_ops d) = Some (r, res)" using alloc_spec [OF driver_invD(1) [OF dinv]] by blast
  have "uinv M {} b q (d\<lparr>dr_ops := r\<rparr>)"
    using uinv_ops [OF inv] alloc_driver_inv [OF dinv a] by (simp add: driver_inv_def)
  then show "\<exists>d' x. reserve_op_raw d = Some (d', x) \<and> uinv M {} b q d'"
    using a by (cases res) (auto simp: reserve_op_raw_def split: sum.splits)
qed

lemma release_keeps: "keeps (uinv M {} b q) (release_op_slot_raw token)"
proof (rule keepsI)
  fix d assume "uinv M {} b q d"
  from remove_uinv [OF this, of token] show "\<exists>d' x. release_op_slot_raw token d = Some (d', x) \<and> uinv M {} b q d'"
    by (auto simp: release_op_slot_raw_def)
qed

lemma storage_uinv:
  assumes "uinv M {} b q d" "with_slot_storage token f (dr_ops d) = (r, x)"
    "st_payload (fst (f (ls_storage (locals (dr_ops d) ! unat (op_index token))))) \<noteq> None
       \<or> slot_state_of (token_slot token (shared (dr_ops d))) \<notin> {InFlightWaiting, InFlightOrphaned}"
  shows "uinv M {} b q (d\<lparr>dr_ops := r\<rparr>)"
proof (cases "r = dr_ops d")
  case False
  let ?i = "unat (op_index token)" and ?r = "dr_ops d"
  obtain st y where f: "f (ls_storage (locals ?r ! ?i)) = (st, y)" by fastforce
  have r: "r = upd_local ?i (\<lambda>l. l\<lparr>ls_storage := st\<rparr>) ?r" "?i < length (locals ?r)"
    using assms(2) f False by (auto simp: with_slot_storage_def Let_def split: if_splits)
  have dinv: "driver_inv ?r" using uinvD(2) [OF assms(1)] by simp
  have lc: "lifecycle_ok (locals ?r ! ?i) (slots (shared ?r) ! ?i)" by (rule driver_invD(4) [OF dinv r(2)])
  have "inv_except {} (upd_local ?i (\<lambda>l. l\<lparr>ls_storage := st\<rparr>) ?r)"
  proof (rule inv_except_restore)
    show "inv_except (insert ?i {}) (upd_local ?i (\<lambda>l. l\<lparr>ls_storage := st\<rparr>) ?r)"
      by (rule inv_except_upd_local [OF inv_except_mono [OF dinv]]) simp_all
    show "lifecycle_ok (locals (upd_local ?i (\<lambda>l. l\<lparr>ls_storage := st\<rparr>) ?r) ! ?i) (slots (shared (upd_local ?i (\<lambda>l. l\<lparr>ls_storage := st\<rparr>) ?r)) ! ?i)"
      using lc assms(3) f r(2) by (auto simp: lifecycle_ok_def split: if_splits)
  qed
  then show ?thesis unfolding r(1) by (rule uinv_upd_local [OF assms(1)])
qed (use assms(1) in simp)

lemma register_chunk_keeps:
  assumes env: "env_ok P M"
  shows "keeps (uinv M {} b q) (register_chunk P cid reg)"
proof (rule keepsI)
  fix d assume inv: "uinv M {} b q d"
  note R = ring_okD [OF env_okD(1) [OF env]]
  obtain cs res where r: "register_chunk_internal (ro_chunks (up_ring P)) cid reg (chunks_of d) = Some (cs, res)"
    "chunk_inv (wv_buffers (um_world M)) cs"
    using register_chunk_ok [OF R(2) uinvD(4) [OF inv]] by blast
  have "uinv M {} b q (with_chunks cs d)"
    using with_chunks_uinv [OF inv r(2)] register_chunk_frame [OF R(7) r(1)] register_chunk_frame [OF R(8) r(1)] by (simp add: chunks_of_def)
  then show "\<exists>d' x. register_chunk P cid reg d = Some (d', x) \<and> uinv M {} b q d'" using r(1) by (simp add: register_chunk_def)
qed

lemma remote_wake_keeps:
  assumes env: "env_ok P M"
  shows "keeps (uinv M {} b q) (remote_wake P)"
proof (rule keepsI)
  fix d assume inv: "uinv M {} b q d"
  show "\<exists>d' x. remote_wake P d = Some (d', x) \<and> uinv M {} b q d'"
    using inv uinv_quiet [OF inv ring_okD(16) [OF env_okD(1) [OF env]]]
    by (auto simp: remote_wake_def split: prod.splits sum.splits)
qed

lemma submit_call_ok:
  assumes env: "env_ok P M" and inv: "uinv M {} b q d"
  shows "\<exists>d' back res. submit_op_raw P token op_in d = Some (d', back, res) \<and> uinv M {} (b + 1) q d'"
proof (cases op_in)
  case (Some op)
  have up: "uinv M {} (b + 1) q d" by (rule uinv_mono [OF inv]) simp_all
  have run: "submit_op_raw P token op_in d = submit_sqe_internal P token op d"
    using Some by (cases "vt_strategy (uo_vtable op)") (simp_all add: submit_op_raw_def submit_timer_internal_def)
  show ?thesis
  proof (cases "\<exists>i. checked_view token d = Inr (CheckedValid (ViewReserved i))")
    case True
    then show ?thesis unfolding run using submit_op_ok [OF env inv] by blast
  next
    case False
    then show ?thesis
      unfolding run using up by (auto simp: submit_sqe_internal_def split: sum.splits checked_slot_view.splits slot_view_ref.splits)
  qed
qed (use uinv_mono [OF inv] in \<open>simp add: submit_op_raw_def\<close>)

subsection \<open>The tasks\<close>

lemma uinv_table:
  assumes inv: "uinv M {} b q d" and tab: "table_inv tb"
    and sl: "slots tb = (slots (shared (dr_ops d)))[i := v]" "remote_free_head tb = remote_free_head (shared (dr_ops d))"
    and v: "i < length (locals (dr_ops d)) \<Longrightarrow> next_free v = next_free (slots (shared (dr_ops d)) ! i) \<and> lifecycle_ok (locals (dr_ops d) ! i) v"
  shows "uinv M {} b q (on_ops (\<lambda>r. r\<lparr>shared := tb\<rparr>) d)"
proof -
  let ?r = "dr_ops d"
  have dinv: "driver_inv ?r" using uinvD(2) [OF inv] by simp
  note len = driver_invD(3) [OF dinv]
  have nf: "next_free (slots tb ! j) = next_free (slots (shared ?r) ! j)" if "j < length (slots tb)" for j
    using that sl(1) v len by (cases "j = i") simp_all
  have "inv_except {} (?r\<lparr>shared := tb\<rparr>)"
  proof (rule inv_except_restore)
    show "inv_except (insert i {}) (?r\<lparr>shared := tb\<rparr>)"
      by (rule inv_except_shared [OF inv_except_mono [OF dinv] tab]) (use sl nf in simp_all)
    show "lifecycle_ok (locals (?r\<lparr>shared := tb\<rparr>) ! i) (slots (shared (?r\<lparr>shared := tb\<rparr>)) ! i)" if "i < length (locals (?r\<lparr>shared := tb\<rparr>))"
      using that v sl(1) len by simp
  qed
  then show ?thesis unfolding on_ops_def by (rule uinv_ops [OF inv]) simp
qed

lemma uinv_same_slots:
  assumes inv: "uinv M {} b q d" and "same_slots (shared (dr_ops d)) tb"
  shows "uinv M {} b q (on_ops (\<lambda>r. r\<lparr>shared := tb\<rparr>) d)"
proof -
  have dinv: "driver_inv (dr_ops d)" using uinvD(2) [OF inv] by simp
  show ?thesis
    by (rule uinv_table [OF inv table_inv_same [OF driver_invD(2) [OF dinv] assms(2)], of 0 "slots (shared (dr_ops d)) ! 0"])
      (use assms(2) driver_invD(4) [OF dinv, of 0] in \<open>simp_all add: same_slots_def\<close>)
qed

lemma task_slot:
  assumes "uinv M {} b q d" "names_slot t (shared (dr_ops d))"
  shows "unat (op_index t) < length (locals (dr_ops d))"
    "lifecycle_ok (locals (dr_ops d) ! unat (op_index t)) (token_slot t (shared (dr_ops d)))" "table_inv (shared (dr_ops d))"
proof -
  have dinv: "driver_inv (dr_ops d)" using uinvD(2) [OF assms(1)] by simp
  show l: "unat (op_index t) < length (locals (dr_ops d))" using assms(2) driver_invD(3) [OF dinv] by (simp add: names_slot_def)
  show "lifecycle_ok (locals (dr_ops d) ! unat (op_index t)) (token_slot t (shared (dr_ops d)))" by (rule driver_invD(4) [OF dinv l])
  show "table_inv (shared (dr_ops d))" by (rule driver_invD(2) [OF dinv])
qed

lemma taken_lifecycle: "\<lbrakk>lifecycle_ok l s; slot_state_of s = InFlightReady\<rbrakk> \<Longrightarrow> lifecycle_ok l (taken_slot s) \<and> next_free (taken_slot s) = next_free s"
  by (auto simp: lifecycle_ok_def taken_slot_def split: if_splits)

lemma task_take_uinv:
  assumes inv: "uinv M {} b q d"
  shows "uinv M {} b q (on_ops (\<lambda>r. r\<lparr>shared := fst (try_take_record t (shared r))\<rparr>) d)"
proof -
  let ?tb = "shared (dr_ops d)"
  have tab: "table_inv ?tb" using uinvD(1) [OF inv] by (simp add: inv_except_def)
  obtain tb' x where run: "try_take_record t ?tb = (tb', x)" "table_inv tb'" using table_take_law [OF tab, of t] by blast
  have eq: "on_ops (\<lambda>r. r\<lparr>shared := fst (try_take_record t (shared r))\<rparr>) d = on_ops (\<lambda>r. r\<lparr>shared := tb'\<rparr>) d" by (simp add: on_ops_def run)
  consider (ready) "names_slot t ?tb" "slot_state_of (token_slot t ?tb) = InFlightReady"
    | (wait) "names_slot t ?tb" "slot_state_of (token_slot t ?tb) = InFlightWaiting"
    | (other) "names_slot t ?tb \<Longrightarrow> slot_state_of (token_slot t ?tb) \<notin> {InFlightWaiting, InFlightReady, Finalizing}"
    using table_inv_not_finalizing [OF tab, of "unat (op_index t)"] by (auto simp: names_slot_def)
  then show ?thesis
  proof cases
    case ready
    note s = task_slot [OF inv ready(1)]
    obtain ev pay det cl where "completion_data (token_slot t ?tb) = DataUser ev pay det cl"
      using table_inv_slot [OF tab, of "unat (op_index t)"] ready by (cases "completion_data (token_slot t ?tb)") (auto simp: slot_ok_def names_slot_def)
    then have "slots tb' = (slots ?tb)[unat (op_index t) := taken_slot (token_slot t ?tb)]" "remote_free_head tb' = remote_free_head ?tb"
      using take_ready_slot [OF ready] run(1) by auto
    then show ?thesis
      unfolding eq using taken_lifecycle [OF s(2) ready(2)] by (intro uinv_table [OF inv run(2), of "unat (op_index t)" "taken_slot (token_slot t ?tb)"]) simp_all
  next
    case wait
    then have "tb' = ?tb" using take_waiting run(1) by fastforce
    then show ?thesis unfolding eq using inv by (simp add: on_ops_def)
  next
    case other
    then show ?thesis unfolding eq using take_unavailable [of t ?tb] run(1) by (intro uinv_same_slots [OF inv]) auto
  qed
qed

lemma task_register_uinv:
  assumes inv: "uinv M {} b q d"
  shows "uinv M {} b q (on_ops (\<lambda>r. r\<lparr>shared := fst (register_waker t w (shared r))\<rparr>) d)"
proof -
  let ?tb = "shared (dr_ops d)"
  have tab: "table_inv ?tb" using uinvD(1) [OF inv] by (simp add: inv_except_def)
  obtain tb' x where run: "register_waker t w ?tb = (tb', x)" "table_inv tb'" using table_register_law [OF tab, of t w] by blast
  have eq: "on_ops (\<lambda>r. r\<lparr>shared := fst (register_waker t w (shared r))\<rparr>) d = on_ops (\<lambda>r. r\<lparr>shared := tb'\<rparr>) d" by (simp add: on_ops_def run)
  show ?thesis
  proof (cases "names_slot t ?tb")
    case True
    then have "slots tb' = (slots ?tb)[unat (op_index t) := (token_slot t ?tb)\<lparr>completion_waker := Some w\<rparr>]" "remote_free_head tb' = remote_free_head ?tb"
      using register_named [OF True, of w] run(1) by auto
    then show ?thesis
      unfolding eq using task_slot(2) [OF inv True] lifecycle_core [of "(token_slot t ?tb)\<lparr>completion_waker := Some w\<rparr>" "token_slot t ?tb" "locals (dr_ops d) ! unat (op_index t)"]
      by (intro uinv_table [OF inv run(2), of "unat (op_index t)" "(token_slot t ?tb)\<lparr>completion_waker := Some w\<rparr>"]) simp_all
  next
    case False
    then show ?thesis unfolding eq using register_unnamed [OF False, of w] run(1) by (intro uinv_same_slots [OF inv]) auto
  qed
qed

lemma task_orphan_ok:
  assumes inv: "uinv M {} b q d"
  shows "\<exists>tb' x. mark_orphaned t (shared (dr_ops d)) = Some (tb', x) \<and> uinv M {} b q (on_ops (\<lambda>r. r\<lparr>shared := tb'\<rparr>) d)"
proof -
  let ?tb = "shared (dr_ops d)"
  have tab: "table_inv ?tb" using uinvD(1) [OF inv] by (simp add: inv_except_def)
  have nf: "unat (op_index t) < length (slots ?tb) \<Longrightarrow> slot_state_of (token_slot t ?tb) \<noteq> Finalizing" by (rule table_inv_not_finalizing [OF tab])
  obtain tb' x where run: "mark_orphaned t ?tb = Some (tb', x)" "table_inv tb'" using table_orphan_law [OF tab, of t] by blast
  have "uinv M {} b q (on_ops (\<lambda>r. r\<lparr>shared := tb'\<rparr>) d)"
  proof (cases "names_slot t ?tb \<and> slot_state_of (token_slot t ?tb) \<in> {InFlightWaiting, InFlightReady}")
    case True
    note s = task_slot [OF inv conjunct1 [OF True]]
    show ?thesis
    proof (cases "slot_state_of (token_slot t ?tb) = InFlightWaiting")
      case wait: True
      then have "slots tb' = (slots ?tb)[unat (op_index t) := slot_set_state InFlightOrphaned (token_slot t ?tb)]" "remote_free_head tb' = remote_free_head ?tb"
        using orphan_waiting [of t ?tb] True run(1) by auto
      then show ?thesis using s(2) wait
        by (intro uinv_table [OF inv run(2), of "unat (op_index t)" "slot_set_state InFlightOrphaned (token_slot t ?tb)"]) (auto simp: lifecycle_ok_def split: if_splits)
    next
      case False
      then have ready: "names_slot t ?tb" "slot_state_of (token_slot t ?tb) = InFlightReady" using True by auto
      then have "slots tb' = (slots ?tb)[unat (op_index t) := taken_slot (token_slot t ?tb)]" "remote_free_head tb' = remote_free_head ?tb"
        using discard_ready [OF ready] orphan_ready [OF ready] run(1) by auto
      then show ?thesis using taken_lifecycle [OF s(2) ready(2)]
        by (intro uinv_table [OF inv run(2), of "unat (op_index t)" "taken_slot (token_slot t ?tb)"]) simp_all
    qed
  next
    case False
    then show ?thesis using orphan_other [of t ?tb] nf run(1) by (intro uinv_same_slots [OF inv]) auto
  qed
  then show ?thesis using run(1) by blast
qed

subsection \<open>A new driver\<close>

lemma registry_new_driver_inv:
  assumes "capacity \<le> NULL_INDEX"
  shows "\<exists>r :: ('op, 'pay, 'det, 'side::default, 'plat::default) op_registry.
     registry_new capacity = Some r \<and> driver_inv r \<and> length (locals r) = capacity"
proof -
  let ?tb = "slot_table_new capacity :: ('pay, 'det) slot_table"
  obtain r :: "('op, 'pay, 'det, 'side, 'plat) op_registry" where r: "registry_new capacity = Some r" "registry_inv r" "length (locals r) = capacity"
    "\<forall>i < capacity. core_state (slots (shared r) ! i) = core_state (slot_data_new :: ('pay, 'det) slot_data)
        \<and> completion_data (slots (shared r) ! i) = DataEmpty \<and> locals r ! i = local_slot_new"
    using registry_new_ok [OF assms] by metis
  have pre: "free_chain (slots ?tb) (remote_free_head ?tb) []"
    "\<forall>i \<in> set (rev [0..<capacity]). i < length (slots ?tb)"
    "distinct (rev [0..<capacity])" "set (rev [0..<capacity]) \<inter> set [] = {}"
    "length (slots ?tb) \<le> NULL_INDEX"
    using assms by (simp_all add: slot_table_new_def)
  have "same_core ?tb (shared r)" using push_free_all_chain [OF pre] r(1) by (auto simp: registry_new_def)
  moreover have "table_inv ?tb"
    using assms by (simp add: table_inv_def slot_table_new_def slot_data_new_def slot_ok_def ready_slots_def)
  ultimately have "table_inv (shared r)" using table_inv_same_core by blast
  moreover have "lifecycle_ok (locals r ! i) (slots (shared r) ! i)" if "i < capacity" for i
    using r(4) that by (simp add: lifecycle_ok_def local_slot_new_def slot_data_new_def)
  ultimately have "driver_inv r" using r(2,3) by (simp add: driver_inv_def inv_except_def)
  then show ?thesis using r(1,3) by blast
qed

lemma default_wheel:
  assumes "slot_map_ok sm f"
  shows "\<exists>w. wheel_new sm wheel_config_default = Some w \<and> wheel_inv f w \<and> wh_global_tick w = 0 \<and> wh_tick_duration_ms w = 10"
proof -
  have p: "is_power_of_two 512" "is_power_of_two 64" by (simp_all add: is_power_of_two.simps)
  have c: "config_build wheel_config_default = Inr wheel_config_default"
    using p by (simp add: config_build_def wheel_config_default_def Let_def is_multiple_of_def from_millis_def as_millis_def as_u64_def)
  have r: "config_ratio wheel_config_default = 100"
    by (simp add: config_ratio_def wheel_config_default_def from_millis_def as_millis_def as_u64_def)
  show ?thesis
    using wheel_new_ok [OF assms c] unfolding r by (simp add: wheel_config_default_def from_millis_def as_millis_def as_u64_def) blast
qed

definition started_at :: "nat \<Rightarrow> ('r, 'm) uring_model \<Rightarrow> ('r, 'm) uring_model" where
  "started_at t0 M = M\<lparr>um_start := t0, um_drift := 0\<rparr>"

lemma started_at_simps [simp]:
  "um_world (started_at t0 M) = um_world M" "um_slot_map (started_at t0 M) = um_slot_map M" "um_start (started_at t0 M) = t0"
  "um_drift (started_at t0 M) = 0" "env_ok P (started_at t0 M) = env_ok P M"
  by (simp_all add: started_at_def env_ok_def)

lemma fresh_driver_uinv:
  assumes "driver_inv ops" "length (locals ops) < 2 ^ 32" "wheel_inv (um_slot_map M) w" "wh_global_tick w = 0" "wh_tick_duration_ms w = 10"
    "as_millis now < CLOCK_LIMIT"
  shows "uinv (started_at now M) {} 0 (wv_inbox (um_world M) r) (fresh_driver config ops fd w now r)"
  using assms file_inv_new [of "wv_files (um_world M)" r] bit_set_new_abs [of MAX_CHUNKS]
  by (simp add: uinv_def fresh_driver_def driver_inv_def timers_inv_def chunk_inv_def chunks_of_def dr_world_def file_table_new_def)

lemma submit_waker_chunks:
  fixes P :: "('r, 'm) uring_params" and d d' :: "('k, 'p, 'r, 'm) uring_driver"
  assumes "submit_waker P d = Some (d', res)"
  shows "dr_registered_chunks d' = dr_registered_chunks d"
proof -
  have push: "dr_registered_chunks d2 = dr_registered_chunks d1" if "push_entry P ud body d1 = (d2, ok)" for ud body ok and d1 d2 :: "('k, 'p, 'r, 'm) uring_driver"
    using that by (auto simp: push_entry_def Let_def split: prod.splits bool.splits)
  have fd: "dr_registered_chunks d1 = dr_registered_chunks d" if wf: "waker_fixed_fd P d = Some (d1, x)" for d1 x
  proof (cases "dr_waker_registered_fd d")
    case None
    let ?m = "register_files_driver P [RegisterBorrowed (RawFile (dr_waker_fd d))] d"
    obtain d2 y where r: "?m = Some (d2, y)" using wf None by (cases ?m) (auto simp: waker_fixed_fd_def)
    then have "dr_registered_chunks d2 = dr_registered_chunks d" by (auto simp: register_files_driver_def split: option.splits)
    then show ?thesis using wf None r by (cases y) (auto simp: waker_fixed_fd_def split: if_splits)
  qed (use wf in \<open>simp add: waker_fixed_fd_def\<close>)
  show ?thesis
  proof (cases "dr_waker_armed d")
    case False
    then obtain d1 x where w: "waker_fixed_fd P d = Some (d1, x)" using assms by (cases "waker_fixed_fd P d") (auto simp: submit_waker_def)
    show ?thesis using assms False w fd [OF w] by (cases x) (auto simp: submit_waker_def split: prod.splits bool.splits dest!: push)
  qed (use assms in \<open>simp add: submit_waker_def\<close>)
qed

lemma uring_driver_new_ok:
  assumes env: "env_ok P M"
  shows "\<exists>r res. (uring_driver_new P config r0 :: ('r \<times> (uring_report + ('k, 'p, 'r, 'm) uring_driver)) option) = Some (r, res)
     \<and> (\<forall>d. res = Inr d \<longrightarrow> (\<exists>t0. uring_inv (started_at t0 M) d))"
proof -
  note R = ring_okD [OF env_okD(1) [OF env]]
  let ?R = "up_ring P"
  obtain r1 x1 where b: "build_ring ?R config r0 = (r1, x1)" by fastforce
  have "unat (uc_entries config) < 2 ^ LENGTH(32)" by (rule unsigned_less)
  then have "unat (uc_entries config) \<le> NULL_INDEX" "unat (uc_entries config) < 2 ^ 32" by (simp_all add: NULL_INDEX_def)
  then obtain ops :: "(('k, 'p) uring_op, 'p uring_payload, uring_report + usize, unit, uring_op_state) op_registry"
    where ops: "registry_new (unat (uc_entries config)) = Some ops" "driver_inv ops" "length (locals ops) < 2 ^ 32"
    using registry_new_driver_inv by metis
  obtain r2 x2 where e: "ro_eventfd ?R r1 = (r2, x2)" by fastforce
  obtain w where w: "wheel_new (up_slot_map P) wheel_config_default = Some w" "wheel_inv (um_slot_map M) w" "wh_global_tick w = 0" "wh_tick_duration_ms w = 10"
    using default_wheel [OF env_okD(2) [OF env]] by blast
  let ?now = "ce_now (ro_chunks ?R) r2"
  show ?thesis
  proof (cases "(\<exists>e. x1 = Inl e) \<or> (\<exists>e. x2 = Inl e)")
    case True
    then show ?thesis using b ops(1) e by (cases x1) (auto simp: uring_driver_new_def Let_def)
  next
    case False
    then obtain u fd where x: "x1 = Inr u" "x2 = Inr fd" by (cases x1; cases x2) auto
    let ?d = "fresh_driver config ops fd w ?now r2" and ?M = "started_at ?now M"
    have inv: "uinv ?M {} 0 (wv_inbox (um_world M) r2) ?d" by (rule fresh_driver_uinv [OF ops(2,3) w(2-4) R(17)])
    have env': "env_ok P ?M" using env by simp
    obtain d1 res where s: "submit_waker P ?d = Some (d1, res)" "uinv ?M {} 0 (wv_inbox (um_world M) r2) d1"
      using keepsD [OF submit_waker_keeps [OF env'] inv] by blast
    obtain r3 y where g: "ro_register_buffers ?R MAX_CHUNKS (dr_world d1) = (r3, y)" by fastforce
    have "dr_registered_chunks d1 = bit_set_new MAX_CHUNKS" using submit_waker_chunks [OF s(1)] by (simp add: fresh_driver_def)
    then have "chunk_inv (wv_buffers (um_world M)) (chunks_of (with_world r3 d1))"
      by (simp add: chunk_inv_def chunks_of_def bit_set_new_abs)
    moreover have "file_inv (wv_files (um_world M)) ((dr_files d1)\<lparr>ft_ring := r3\<rparr>)"
      using ring_put_same(1) [of "wv_files (um_world M)" r3 "dr_files d1"] keeps_viewD [OF R(18) g] s(2) by (simp add: uinv_def dr_world_def)
    ultimately have "uring_inv ?M (with_world r3 d1)"
      using s(2) by (simp add: uring_inv_def uinv_def)
    moreover have "uring_driver_new P config r0 = (case res of Inl e \<Rightarrow> Some (dr_world d1, Inl e) | Inr _ \<Rightarrow> Some (r3, Inr (with_world r3 d1)))"
      using b ops(1) e x w(1) s(1) g by (cases res) (simp_all add: uring_driver_new_def Let_def)
    ultimately show ?thesis by (cases res) auto
  qed
qed

subsection \<open>Calls and reachable states\<close>

datatype ('k, 'p) driver_call =
    CallReserve
  | CallSetPayload op_token "'p uring_payload"
  | CallTakePayload op_token
  | CallRelease op_token
  | CallSubmit op_token "('k, 'p) uring_op option"
  | CallCancel cancel_request
  | CallDrive drive_mode
  | CallRegisterChunk chunk_id region
  | CallRegisterFiles "register_fd list"
  | CallUnregisterFiles "io_fd list"
  | CallWake
  | TaskTake op_token
  | TaskRegister op_token waker
  | TaskOrphan op_token

definition failed :: "'e + 'a \<Rightarrow> bool" where
  "failed res = (case res of Inl _ \<Rightarrow> True | Inr _ \<Rightarrow> False)"

definition finished :: "('k, 'p, 'r, 'm, 'a) driver_outcome \<Rightarrow> (('k, 'p, 'r, 'm) uring_driver \<times> bool) option" where
  "finished out = map_option (\<lambda>(d, res). (d, failed res)) out"

text \<open>A call gives the driver after it and whether the driver answered with an error.\<close>

fun run_call ::
  "('r, 'm) uring_params \<Rightarrow> ('k, 'p) driver_call \<Rightarrow> ('k, 'p, 'r, 'm) uring_driver
     \<Rightarrow> (('k, 'p, 'r, 'm) uring_driver \<times> bool) option" where
  "run_call P CallReserve d = finished (reserve_op_raw d)"
| "run_call P (CallSetPayload t p) d = Some (slot_set_payload_raw t p d, False)"
| "run_call P (CallTakePayload t) d = Some (fst (slot_take_payload_raw t d), False)"
| "run_call P (CallRelease t) d = finished (release_op_slot_raw t d)"
| "run_call P (CallSubmit t op_in) d = map_option (\<lambda>(d, _, res). (d, case res of Submitted _ \<Rightarrow> False | SubmitFailed _ _ \<Rightarrow> True)) (submit_op_raw P t op_in d)"
| "run_call P (CallCancel c) d = finished (cancel_op P c d)"
| "run_call P (CallDrive m) d = finished (drive P m d)"
| "run_call P (CallRegisterChunk c reg) d = finished (register_chunk P c reg d)"
| "run_call P (CallRegisterFiles fs) d = finished (register_files_driver P fs d)"
| "run_call P (CallUnregisterFiles fs) d = finished (unregister_files_driver P fs d)"
| "run_call P CallWake d = finished (remote_wake P d)"
| "run_call P (TaskTake t) d = Some (on_ops (\<lambda>r. r\<lparr>shared := fst (try_take_record t (shared r))\<rparr>) d, False)"
| "run_call P (TaskRegister t w) d = Some (on_ops (\<lambda>r. r\<lparr>shared := fst (register_waker t w (shared r))\<rparr>) d, False)"
| "run_call P (TaskOrphan t) d =
     map_option (\<lambda>(tb, _). (on_ops (\<lambda>r. r\<lparr>shared := tb\<rparr>) d, False)) (mark_orphaned t (shared (dr_ops d)))"

text \<open>The owner takes the payload back only from a slot that is not in flight. The driver does not check
  this; \<^verbatim>\<open>recover_payload\<close> is called by the future and by the submission of an operation
  (\<^verbatim>\<open>op/future.rs\<close>, \<^verbatim>\<open>op.rs\<close>) after a submission has failed.\<close>

definition legal_call :: "('k, 'p) driver_call \<Rightarrow> ('k, 'p, 'r, 'm) uring_driver \<Rightarrow> bool" where
  "legal_call c d = (case c of
     CallTakePayload t \<Rightarrow>
       \<not> (names_slot t (shared (dr_ops d)) \<and> slot_state_of (token_slot t (shared (dr_ops d))) \<in> {InFlightWaiting, InFlightOrphaned})
   | _ \<Rightarrow> True)"

text \<open>\<open>reaches P d0 n d\<close>: from \<open>d0\<close> some calls lead to \<open>d\<close>, \<open>n\<close> of them rounds of \<^verbatim>\<open>drive\<close> that failed.\<close>

inductive reaches ::
  "('r, 'm) uring_params \<Rightarrow> ('k, 'p, 'r, 'm) uring_driver \<Rightarrow> nat \<Rightarrow> ('k, 'p, 'r, 'm) uring_driver \<Rightarrow> bool"
  for P d0 where
  reach_start: "reaches P d0 0 d0"
| reach_call: "\<lbrakk>reaches P d0 n d; legal_call c d; run_call P c d = Some (d', err)\<rbrakk>
    \<Longrightarrow> reaches P d0 (if err \<and> (\<exists>m. c = CallDrive m) then Suc n else n) d'"

text \<open>Every call returns and keeps the invariant; a failed round of \<^verbatim>\<open>drive\<close> may let the wheel get ahead.\<close>

lemma finished_keeps:
  assumes "keeps (uinv M {} b q) m" "uinv M {} b q d"
  shows "\<exists>d' err. finished (m d) = Some (d', err) \<and> uring_inv M d'"
  using keepsD [OF assms] uinv_uring by (fastforce simp: finished_def)

lemma run_call_ok:
  assumes env: "env_ok P M" and inv: "uring_inv M d" and leg: "legal_call c d" and dr: "um_drift M + CLOCK_LIMIT \<le> 2 ^ 62"
  shows "\<exists>d' err. run_call P c d = Some (d', err) \<and> (if err \<and> (\<exists>m. c = CallDrive m) then uring_inv (ahead M) d' else uring_inv M d')"
proof -
  let ?b = "length (dr_backlog d)" and ?q = "wv_inbox (um_world M) (dr_world d)"
  have u: "uinv M {} ?b ?q d" using inv by (simp add: uring_inv_def)
  note done_ = finished_keeps [OF _ u]
  show ?thesis
  proof (cases c)
    case (CallSetPayload t p)
    obtain r x where r: "with_slot_storage t (\<lambda>st. (st\<lparr>st_payload := Some p\<rparr>, ())) (dr_ops d) = (r, x)" by fastforce
    have "uinv M {} ?b ?q (d\<lparr>dr_ops := r\<rparr>)" by (rule storage_uinv [OF u r]) simp
    then show ?thesis using CallSetPayload r uinv_uring by (auto simp: slot_set_payload_raw_def on_ops_def)
  next
    case (CallTakePayload t)
    let ?f = "\<lambda>st. (st\<lparr>st_payload := None\<rparr>, st_payload st)"
    obtain r x where r: "with_slot_storage t ?f (dr_ops d) = (r, x)" by fastforce
    have "uinv M {} ?b ?q (d\<lparr>dr_ops := r\<rparr>)"
    proof (cases "names_slot t (shared (dr_ops d))")
      case True
      then show ?thesis using storage_uinv [OF u r] leg CallTakePayload by (simp add: legal_call_def)
    next
      case False
      then have "r = dr_ops d" using r by (auto simp: with_slot_storage_def is_current_active_def names_slot_def Let_def split: if_splits)
      then show ?thesis using u by simp
    qed
    then show ?thesis using CallTakePayload r uinv_uring by (auto simp: slot_take_payload_raw_def)
  next
    case (CallSubmit t op_in)
    obtain d' bk res where "submit_op_raw P t op_in d = Some (d', bk, res)" "uinv M {} (?b + 1) ?q d'"
      using submit_call_ok [OF env u] by blast
    then show ?thesis using CallSubmit uinv_uring by simp
  next
    case (CallDrive m)
    obtain d' res where "drive P m d = Some (d', res)" "uinv (ahead M) {} ?b ?q d'" "\<forall>x. res = Inr x \<longrightarrow> uinv M {} ?b ?q d'"
      using drive_advances [OF env dr, of ?b ?q m] u unfolding advances_def by blast
    then show ?thesis using CallDrive uinv_uring [of "ahead M" ?b ?q d'] uinv_uring [of M ?b ?q d'] by (cases res) (simp_all add: finished_def failed_def ex_bool_eq)
  next
    case (TaskTake t)
    then show ?thesis using uinv_uring [OF task_take_uinv [OF u, of t]] by (simp add: ex_bool_eq)
  next
    case (TaskRegister t w)
    then show ?thesis using uinv_uring [OF task_register_uinv [OF u, of t w]] by (simp add: ex_bool_eq)
  next
    case (TaskOrphan t)
    obtain tb x where "mark_orphaned t (shared (dr_ops d)) = Some (tb, x)" "uinv M {} ?b ?q (on_ops (\<lambda>r. r\<lparr>shared := tb\<rparr>) d)"
      using task_orphan_ok [OF u] by blast
    from this(1) uinv_uring [OF this(2)] show ?thesis using TaskOrphan by (simp add: ex_bool_eq)
  next
    case (CallCancel x)
    have "keeps (uinv M {} ?b ?q) (cancel_op P x)" unfolding cancel_op_def [abs_def] by (intro keepsI cancel_op_ok [OF env accept_completion_acc_ok])
    then show ?thesis using CallCancel done_ by simp
  next
    case (CallUnregisterFiles x)
    then show ?thesis using done_ [OF on_files_keeps(3) [OF env]] by (simp add: unregister_files_driver_def)
  qed (use done_ [OF reserve_keeps] done_ [OF release_keeps] done_ [OF register_chunk_keeps [OF env]] done_ [OF register_files_keeps [OF env]]
      done_ [OF remote_wake_keeps [OF env]] in simp_all)
qed

definition behind :: "nat \<Rightarrow> ('r, 'm) uring_model \<Rightarrow> ('r, 'm) uring_model" where
  "behind n M = M\<lparr>um_drift := um_drift M + n * CLOCK_LIMIT\<rparr>"

lemma behind_simps [simp]: "behind 0 M = M" "ahead (behind n M) = behind (Suc n) M" "env_ok P (behind n M) = env_ok P M"
  "um_drift (behind n M) = um_drift M + n * CLOCK_LIMIT"
  by (simp_all add: behind_def ahead_def env_ok_def)

lemma reaches_inv:
  assumes env: "env_ok P M" and inv: "uring_inv M d0" and n: "um_drift M + (n + 1) * CLOCK_LIMIT \<le> 2 ^ 62" and r: "reaches P d0 n d"
  shows "uring_inv (behind n M) d"
  using r n
proof (induction rule: reaches.induct)
  case reach_start
  then show ?case using inv by simp
next
  case (reach_call n d c d' err)
  let ?drv = "err \<and> (\<exists>m. c = CallDrive m)"
  have n: "um_drift M + (n + 1) * CLOCK_LIMIT \<le> 2 ^ 62" using reach_call.prems by (simp split: if_splits)
  then have "um_drift (behind n M) + CLOCK_LIMIT \<le> 2 ^ 62" by simp
  then have "\<exists>d' err. run_call P c d = Some (d', err) \<and> (if err \<and> (\<exists>m. c = CallDrive m) then uring_inv (ahead (behind n M)) d' else uring_inv (behind n M) d')"
    using run_call_ok [OF _ reach_call.IH [OF n] reach_call.hyps(2), of P] env by simp
  then show ?case using reach_call.hyps(3) by (auto split: if_splits)
qed

end
