(* ===== verification/Uring_Demo.thy ===== *)
theory Uring_Demo
  imports Uring_Reach
begin

text \<open>
  A small world for the driver to run in: a submission queue of one entry that the kernel takes
  nothing from, a list of completions, tables of registered files and buffers, a clock that stands
  still. A driver is built in it, an operation reserved and submitted, and the states it passes
  through serve as concrete inputs.
\<close>

record small_world =
  sw_files :: "nat \<Rightarrow> i32"
  sw_buffers :: "nat \<rightharpoonup> region"
  sw_queue :: "u64 list"
  sw_done :: "(u64 \<times> i32 \<times> u32) list"
  sw_inbox :: "cancel_request list"

definition small_start :: small_world where
  "small_start = \<lparr>sw_files = (\<lambda>_. - 1), sw_buffers = Map.empty, sw_queue = [], sw_done = [], sw_inbox = []\<rparr>"

definition small_files :: "small_world ring_files" where
  "small_files = \<lparr>rf_register = (\<lambda>fds r. (r\<lparr>sw_files := (\<lambda>i. if i < length fds then fds ! i else sw_files r i)\<rparr>, Inr ())),
     rf_update = (\<lambda>idx fds r. case fds of [] \<Rightarrow> (r, Inr ()) | fd # _ \<Rightarrow> (r\<lparr>sw_files := (sw_files r)(unat idx := fd)\<rparr>, Inr ()))\<rparr>"

definition small_chunks :: "small_world chunk_env" where
  "small_chunks = \<lparr>ce_update = (\<lambda>idx reg r. (r\<lparr>sw_buffers := (sw_buffers r)(unat idx \<mapsto> reg)\<rparr>, Inr ())),
     ce_now = (\<lambda>_. 0), ce_resolve = (\<lambda>_ _. Some None)\<rparr>"

definition small_ring :: "small_world ring_ops" where
  "small_ring = \<lparr>ro_build = (\<lambda>_ _ r. (r, Inr ())), ro_build_plain = (\<lambda>_ r. (r, Inr ())), ro_register_buffers = (\<lambda>_ r. (r, Inr ())),
     ro_files = small_files, ro_chunks = small_chunks,
     ro_push = (\<lambda>ud _ r. if sw_queue r = [] then (r\<lparr>sw_queue := [ud]\<rparr>, True) else (r, False)),
     ro_enter = (\<lambda>_ r. (r, Inr ())), ro_setup_sqpoll = False, ro_need_wakeup = (\<lambda>_. False), ro_submit = (\<lambda>r. (r, Inr ())),
     ro_sq_len = (\<lambda>r. length (sw_queue r)), ro_cq_is_empty = (\<lambda>r. sw_done r = []),
     ro_submit_with_timeout = (\<lambda>_ r. (r, Inl (Some 62))), ro_submit_and_wait = (\<lambda>r. (r, Inr ())),
     ro_drain_completions = (\<lambda>r. (r\<lparr>sw_done := []\<rparr>, sw_done r)), ro_eventfd = (\<lambda>r. (r, Inr 9)), ro_write_eventfd = (\<lambda>_ r. (r, Inr ())),
     ro_try_recv_cancel = (\<lambda>r. case sw_inbox r of [] \<Rightarrow> (r, None) | c # cs \<Rightarrow> (r\<lparr>sw_inbox := cs\<rparr>, Some c)),
     ro_async_cancel = (\<lambda>_. []), ro_read_fixed_file = (\<lambda>_. [])\<rparr>"

definition small_view :: "small_world world_view" where
  "small_view = \<lparr>wv_files = sw_files, wv_buffers = sw_buffers, wv_inbox = length \<circ> sw_inbox\<rparr>"

definition small_params :: "(small_world, (op_token, nat) wheel_entry option list) uring_params" where
  "small_params = \<lparr>up_ring = small_ring, up_slot_map = vec_slots\<rparr>"

definition small_model :: "(small_world, (op_token, nat) wheel_entry option list) uring_model" where
  "small_model = \<lparr>um_world = small_view, um_slot_map = vec_map, um_start = 0, um_drift = 0\<rparr>"

lemma small_env_ok: "env_ok small_params small_model"
proof -
  have "ring_files_ok small_files sw_files"
    by (simp add: ring_files_ok_def small_files_def)
  moreover have "chunk_env_ok small_chunks sw_buffers"
    by (simp add: chunk_env_ok_def small_chunks_def)
  ultimately have "ring_ok small_ring small_view"
    unfolding ring_ok_def small_ring_def small_view_def quiet_def keeps_view_def
    by (auto simp: small_files_def small_chunks_def CLOCK_LIMIT_def as_millis_def split: list.splits)
  then show ?thesis by (simp add: env_ok_def small_params_def small_model_def vec_slots_ok)
qed

definition small_config :: uring_config where
  "small_config = \<lparr>uc_polling = None, uc_entries = 2, uc_strict_registration = False\<rparr>"

definition small_op :: "(unit, nat) uring_op" where
  "small_op = \<lparr>uo_vtable = sample_vtable, uo_payload = ()\<rparr>"

type_synonym small_slots = "(op_token, nat) wheel_entry option list"
type_synonym demo_registry = "((unit, nat) uring_op, nat uring_payload, uring_report + usize, unit, uring_op_state) op_registry"
type_synonym small_driver = "(unit, nat, small_world, small_slots) uring_driver"

lemma demo_registry_new:
  "\<exists>r :: demo_registry. registry_new (unat (uc_entries small_config)) = Some r \<and> length (locals r) = 2
     \<and> (\<exists>r' h. alloc default r = Some (r', Inr h))"
proof -
  have c: "unat (uc_entries small_config) = 2" "(2 :: nat) \<le> NULL_INDEX" by (simp_all add: small_config_def NULL_INDEX_def)
  obtain r :: demo_registry where r: "registry_new 2 = Some r" "registry_inv r" "length (locals r) = 2" "local_free_head r = NULL_INDEX"
    "core_state (slots (shared r) ! 0) = core_state (slot_data_new :: (nat uring_payload, uring_report + usize) slot_data)" "locals r ! 0 = local_slot_new"
    using registry_new_ok [OF c(2), where 'op = "(unit, nat) uring_op" and 'pay = "nat uring_payload" and 'det = "uring_report + usize" and 'side = unit
        and 'plat = uring_op_state] by force
  have "\<not> ls_active (locals r ! 0)" "slot_state_of (slots (shared r) ! 0) = Idle"
    using r(5,6) by (simp_all add: local_slot_new_def slot_data_new_def)
  moreover obtain r' res where a: "alloc default r = Some (r', res)" "\<forall>x. res = Inl x \<longrightarrow> (\<forall>i<2. ls_active (locals r ! i) \<or> slot_state_of (slots (shared r) ! i) \<noteq> Idle)"
    using alloc_spec [OF r(2), of default] r(3,4) by (elim exE conjE) (auto split: sum.splits)
  ultimately have "\<exists>r' h. alloc default r = Some (r', Inr h)" by (cases res) (auto dest: spec [of _ 0])
  then show ?thesis using r(1,3) c(1) by simp
qed

text \<open>The new driver has its waker in the queue, which is full with it.\<close>

lemma small_new:
  "\<exists>r d. uring_driver_new small_params small_config small_start = Some (r, Inr (d :: small_driver)) \<and> (\<exists>r' h. alloc default (dr_ops d) = Some (r', Inr h))
     \<and> sw_queue (dr_world d) = [token_waker 0] \<and> dr_waker_registered_fd d = Some \<lparr>fd_fixed_index = 0, fd_generation = 1\<rparr> \<and> dr_waker_buf_len d = 8"
proof -
  obtain w where w: "wheel_new (vec_slots :: (small_slots, _, _) slot_map_ops) wheel_config_default = Some w"
    using default_wheel [OF vec_slots_ok] by blast
  obtain reg :: demo_registry where reg: "registry_new (unat (uc_entries small_config)) = Some reg" "length (locals reg) = 2"
    "\<exists>r' h. alloc default reg = Some (r', Inr h)" using demo_registry_new by blast
  have "case register_files_internal small_files 2 [RegisterBorrowed (RawFile 9)] (file_table_new small_start) of
      Some (ft, Inr fds) \<Rightarrow> fds = [\<lparr>fd_fixed_index = 0, fd_generation = 1\<rparr>] \<and> sw_queue (ft_ring ft) = [] | _ \<Rightarrow> False" by code_simp
  then obtain ft where ft: "register_files_internal small_files 2 [RegisterBorrowed (RawFile 9)] (file_table_new small_start)
      = Some (ft, Inr [\<lparr>fd_fixed_index = 0, fd_generation = 1\<rparr>])" "sw_queue (ft_ring ft) = []"
    by (auto split: option.splits prod.splits sum.splits)
  show ?thesis
    using w ft reg by (simp add: uring_driver_new_def build_ring_def small_params_def small_ring_def small_chunks_def
        submit_waker_def waker_fixed_fd_def register_files_driver_def fresh_driver_def push_entry_def with_world_def dr_world_def Let_def)
qed

lemma small_new_inv:
  assumes "uring_driver_new small_params small_config small_start = Some (r, Inr (d :: small_driver))"
  shows "\<exists>t0. uring_inv (started_at t0 small_model) d"
proof -
  obtain r' res where "uring_driver_new small_params small_config small_start = Some (r', res)"
    "\<forall>d :: small_driver. res = Inr d \<longrightarrow> (\<exists>t0. uring_inv (started_at t0 small_model) d)"
    using uring_driver_new_ok [OF small_env_ok] by blast
  then show ?thesis using assms by auto
qed

text \<open>A driver whose only operation is in flight and waits in the backlog.\<close>

definition queued_driver :: small_driver where
  "queued_driver = (fresh_driver small_config
     (upd_local 0 (\<lambda>l. l\<lparr>ls_platform := UringOpState None SubQueued\<rparr>) (sample_driver 5)) 9
     (the (wheel_new vec_slots wheel_config_default)) 0 small_start)\<lparr>dr_backlog := [\<lparr>op_index = 0, op_generation = 5\<rparr>]\<rparr>"

lemma queued_driver_ok:
  "driver_inv (dr_ops queued_driver)" "table_view \<lparr>op_index = 0, op_generation = 5\<rparr> (shared (dr_ops queued_driver)) = InFlight None"
  "us_submission_state (platform_at 0 queued_driver) = SubQueued"
proof -
  let ?f = "\<lambda>l :: (unit, nat) uring_local. l\<lparr>ls_platform := UringOpState None SubQueued\<rparr>" and ?r = "sample_driver 5"
  have l: "lifecycle_ok (?f (locals ?r ! 0)) (slots (shared ?r) ! 0)"
    by (simp add: sample_driver_def lifecycle_ok_def)
  have "inv_except {} (upd_local 0 ?f ?r)"
  proof (rule inv_except_restore)
    show "inv_except (insert 0 {}) (upd_local 0 ?f ?r)"
      by (rule inv_except_upd_local [OF inv_except_mono [OF sample_driver_inv]]) simp_all
    show "lifecycle_ok (locals (upd_local 0 ?f ?r) ! 0) (slots (shared (upd_local 0 ?f ?r)) ! 0)"
      using l by (simp add: sample_driver_def)
  qed
  then show "driver_inv (dr_ops queued_driver)" by (simp add: queued_driver_def fresh_driver_def driver_inv_def)
  show "table_view \<lparr>op_index = 0, op_generation = 5\<rparr> (shared (dr_ops queued_driver)) = InFlight None"
    using sample_driver_view [of 5] by (simp add: queued_driver_def fresh_driver_def)
  show "us_submission_state (platform_at 0 queued_driver) = SubQueued"
    by (simp add: queued_driver_def fresh_driver_def platform_at_def sample_driver_def)
qed

end
