(* ===== verification/Uring_Props.thy ===== *)
theory Uring_Props
  imports Uring_Demo
begin

text \<open>
  Properties of the io_uring driver as a whole, each tried on a driver of the small world.
\<close>

subsection \<open>A reserved slot\<close>

lemma reserved_view:
  assumes "uring_inv M d" "alloc default (dr_ops d) = Some (r, Inr h)"
  shows "\<exists>d' t. reserve_op_raw d = Some (d', Inr t) \<and> uring_inv M d' \<and> unat (op_index t) < length (locals (dr_ops d)) \<and> op_index t < INDEX_LIMIT
     \<and> checked_view t d' = Inr (CheckedValid (ViewReserved (unat (op_index t))))
     \<and> st_payload (ls_storage (locals (dr_ops d') ! unat (op_index t))) = None"
proof -
  have u: "uinv M {} (length (dr_backlog d)) (wv_inbox (um_world M) (dr_world d)) d" using assms by (simp add: uring_inv_def)
  have dinv: "driver_inv (dr_ops d)" and cap: "length (locals (dr_ops d)) < 2 ^ 32" using u by (simp_all add: uinv_def driver_inv_def)
  let ?i = "h_index h" and ?w = "of_nat (h_index h) :: u64"
  let ?t = "\<lparr>op_index = ?w, op_generation = h_generation h\<rparr>"
  have i: "?i < length (locals (dr_ops d))" "claimed ?i default (dr_ops d) r h"
    using alloc_spec [OF driver_invD(1) [OF dinv], of default] assms(2) by auto
  have w: "unat ?w = ?i" using i(1) cap by (simp add: unat_of_nat)
  have lim: "?w < INDEX_LIMIT" using w i(1) cap by (simp add: INDEX_LIMIT_def word_less_nat_alt)
  have run: "reserve_op_raw d = Some (d\<lparr>dr_ops := r\<rparr>, Inr ?t)"
    using assms(2) lim by (simp add: reserve_op_raw_def op_token_try_new_def)
  then have inv: "uring_inv M (d\<lparr>dr_ops := r\<rparr>)" using keepsD [OF reserve_keeps u] uinv_uring by fastforce
  have len: "length (locals r) = length (locals (dr_ops d))" "length (slots (shared r)) = length (locals (dr_ops d))"
    using i(2) driver_invD(3) [OF dinv] by (auto simp: claimed_def same_core_def)
  have sl: "slot_state_of (slots (shared r) ! ?i) = Reserved" "slot_generation_of (slots (shared r) ! ?i) = h_generation h"
    using i driver_invD(3) [OF dinv] same_core_fields [of "upd_slot ?i (\<lambda>s. slot_set_state Reserved (slot_reset (h_generation h) s)) (shared (dr_ops d))" "shared r" ?i]
    by (simp_all add: claimed_def)
  have "checked_view ?t (d\<lparr>dr_ops := r\<rparr>) = Inr (CheckedValid (ViewReserved ?i))"
    unfolding checked_view_dr using i len sl w
    by (simp add: claimed_def checked_slot_view_def slot_bundle_by_index_def snapshot_at_def try_bind_def Let_def)
  moreover have "st_payload (ls_storage (locals r ! ?i)) = None" using i by (simp add: claimed_def storage_new_def)
  ultimately show ?thesis using run inv i(1) w lim by (intro exI [of _ "d\<lparr>dr_ops := r\<rparr>"] exI [of _ ?t]) simp
qed

subsection \<open>Cancelling a queued operation\<close>

lemma user_cancel_hook:
  assumes "ls_op l \<noteq> None" "st_payload (ls_storage l) = Some pay" "uh_synthetic h = SyntheticCancel UserVisible"
  shows "\<exists>l' det c. uring_complete_waiting ev (SourceSynthetic SynCancel) l h = (h, l', Inr (HookUser ev pay det c EffNone))"
proof -
  let ?f = "\<lambda>op. if UserVisible = Abandon \<or> False then op_orphan_cleanup (rc_res (uce_raw ev)) op else op_completion_cleanup (rc_res (uce_raw ev)) op"
  obtain op' x where "with_op_mut ?f l = (l\<lparr>ls_op := Some op'\<rparr>, Some x)" using with_op_mut_Some [OF assms(1), of ?f] by blast
  then show ?thesis
    using assms(2,3) by (simp add: uring_complete_waiting_def complete_local_cancel_slot_def take_completion_data_def Let_def)
qed

lemma local_cancel_delivers:
  assumes inv: "driver_inv (dr_ops d)" and view: "table_view t (shared (dr_ops d)) = InFlight w"
  shows "\<exists>d' rc pay. complete_local_cancel (accept_completion_ingress P) t UserVisible d = Some (d', Inr ())
     \<and> st_payload (ls_storage (locals (dr_ops d) ! unat (op_index t))) = Some pay
     \<and> table_view t (shared (dr_ops d')) = Done rc \<and> rec_payload rc = pay \<and> rc_res (uce_raw (rec_event rc)) = - 125
     \<and> fx_woken (shared (dr_ops d')) = fx_woken (shared (dr_ops d)) @ (case w of None \<Rightarrow> [] | Some x \<Rightarrow> [x])
     \<and> (\<forall>u. u \<noteq> t \<longrightarrow> table_view u (shared (dr_ops d')) = table_view u (shared (dr_ops d)))
     \<and> dr_backlog d' = dr_backlog d \<and> dr_world d' = dr_world d"
proof -
  let ?ev = "user_event_from_parts COMP_BACKEND_URING t (- 125) 0" and ?i = "unat (op_index t)"
  let ?d = "on_diag (\<lambda>g. g\<lparr>ud_cancel_local_completed := ud_cancel_local_completed g + 1\<rparr>) d"
  let ?h = "hooks_of (SyntheticCancel UserVisible) ?d" and ?src = "SourceSynthetic SynCancel :: unit completion_source"
  have tok: "uce_token ?ev = t" "rc_res (uce_raw ?ev) = - 125" by (simp_all add: user_event_from_parts_def)
  have ops: "dr_ops ?d = dr_ops d" by (simp add: on_diag_def)
  have n: "names_slot t (shared (dr_ops d))" "slot_state_of (token_slot t (shared (dr_ops d))) = InFlightWaiting"
    using view by (auto simp: view_InFlight)
  obtain pay where pay: "ls_op (locals (dr_ops d) ! ?i) \<noteq> None" "st_payload (ls_storage (locals (dr_ops d) ! ?i)) = Some pay"
    using in_flight_slot(2,3) [OF inv n(1)] n(2) by auto
  obtain l' det c where hk: "hk_complete_waiting uring_completion_hooks ?ev ?src (locals (dr_ops d) ! ?i) ?h = (?h, l', Inr (HookUser ?ev pay det c EffNone))"
    using user_cancel_hook [OF pay, of ?h ?ev] by (auto simp: uring_completion_hooks_def hooks_of_def)
  have v: "table_view (uce_token ?ev) (shared (dr_ops d)) = InFlight w" using view tok by simp
  let ?rc = "packet_record (packet_user_event ?ev pay det c)"
  obtain r' h' out where a: "accept_user_event uring_completion_hooks ?ev ?src (dr_ops d) ?h = Some (r', h', Inr out)"
    "table_view t (shared r') = Done ?rc" "fx_woken (shared r') = fx_woken (shared (dr_ops d)) @ (case w of None \<Rightarrow> [] | Some x \<Rightarrow> [x])"
    "\<forall>u. u \<noteq> t \<longrightarrow> table_view u (shared r') = table_view u (shared (dr_ops d))"
    using uring.accept_waiting [OF inv v, of ?src ?h] tok hk by auto
  have "accept_completion_ingress P (IngressSynthetic ?ev SynCancel) (SyntheticCancel UserVisible) ?d = Some (with_hooks r' h' ?d, Inr out)"
    unfolding accept_completion_unfold using a(1) ops by (simp add: accept_made accept_completion_def)
  then have run: "complete_local_cancel (accept_completion_ingress P) t UserVisible d = Some (with_hooks r' h' ?d, Inr ())"
    by (simp add: complete_local_cancel_def accept_synthetic_completion_def)
  have d': "dr_ops (with_hooks r' h' ?d) = r'" "dr_backlog (with_hooks r' h' ?d) = dr_backlog d" "dr_world (with_hooks r' h' ?d) = dr_world d"
    by (simp_all add: with_hooks_def on_diag_def dr_world_def)
  show ?thesis
    by (intro exI [of _ "with_hooks r' h' ?d"] exI [of _ ?rc] exI [of _ pay])
      (simp add: run pay a(2,3) a(4) d' packet_user_event_def tok)
qed

lemma orphan_cancel_hook:
  assumes "ls_op l = Some op"
  shows "\<exists>l'. uring_complete_orphaned ev (SourceSynthetic SynCancel) l h = (h, l', Inr (HookCleanup (snd (op_orphan_cleanup (rc_res (uce_raw ev)) op)) EffNone))"
  using assms by (simp add: uring_complete_orphaned_def cleanup_orphaned_slot_def with_op_mut_def split: prod.split)

lemma local_cancel_cleans:
  assumes inv: "driver_inv (dr_ops d)" and n: "names_slot t (shared (dr_ops d))" "slot_state_of (token_slot t (shared (dr_ops d))) = InFlightOrphaned"
    and op: "ls_op (locals (dr_ops d) ! unat (op_index t)) = Some op"
  shows "\<exists>d'. complete_local_cancel (accept_completion_ingress P) t mode d = Some (d', Inr ())
     \<and> driver_inv (dr_ops d') \<and> \<not> token_live t (dr_ops d')
     \<and> fx_cleaned (shared (dr_ops d')) = fx_cleaned (shared (dr_ops d)) @ guard_drop (snd (op_orphan_cleanup (- 125) op))
     \<and> (\<forall>u. table_view u (shared (dr_ops d')) = table_view u (shared (dr_ops d)))
     \<and> dr_backlog d' = dr_backlog d \<and> dr_world d' = dr_world d"
proof -
  let ?ev = "user_event_from_parts COMP_BACKEND_URING t (- 125) 0" and ?i = "unat (op_index t)"
  let ?d = "on_diag (\<lambda>g. g\<lparr>ud_cancel_local_completed := ud_cancel_local_completed g + 1\<rparr>) d"
  let ?h = "hooks_of (SyntheticCancel mode) ?d" and ?src = "SourceSynthetic SynCancel :: unit completion_source"
  have tok: "uce_token ?ev = t" "rc_res (uce_raw ?ev) = - 125" by (simp_all add: user_event_from_parts_def)
  have ops: "dr_ops ?d = dr_ops d" by (simp add: on_diag_def)
  obtain l where hk: "hk_complete_orphaned uring_completion_hooks ?ev ?src (locals (dr_ops d) ! ?i) ?h
      = (?h, l, Inr (HookCleanup (snd (op_orphan_cleanup (- 125) op)) EffNone))"
    using orphan_cancel_hook [OF op, of ?ev ?h] tok by (auto simp: uring_completion_hooks_def)
  obtain r' h' where a: "accept_user_event uring_completion_hooks ?ev ?src (dr_ops d) ?h = Some (r', h', Inr flow_orphan_cleaned)" "driver_inv r'"
    "\<not> token_live t r'" "fx_cleaned (shared r') = fx_cleaned (shared (dr_ops d)) @ guard_drop (snd (op_orphan_cleanup (- 125) op))"
    "\<forall>u. table_view u (shared r') = table_view u (shared (dr_ops d))"
    using uring.accept_orphaned [OF inv, of ?ev ?src ?h] n tok hk by auto
  have "accept_completion_ingress P (IngressSynthetic ?ev SynCancel) (SyntheticCancel mode) ?d = Some (with_hooks r' h' ?d, Inr flow_orphan_cleaned)"
    unfolding accept_completion_unfold using a(1) ops by (simp add: accept_made accept_completion_def)
  then have run: "complete_local_cancel (accept_completion_ingress P) t mode d = Some (with_hooks r' h' ?d, Inr ())"
    by (simp add: complete_local_cancel_def accept_synthetic_completion_def)
  have d': "dr_ops (with_hooks r' h' ?d) = r'" "dr_backlog (with_hooks r' h' ?d) = dr_backlog d" "dr_world (with_hooks r' h' ?d) = dr_world d"
    by (simp_all add: with_hooks_def on_diag_def dr_world_def)
  show ?thesis by (intro exI [of _ "with_hooks r' h' ?d"]) (simp add: run a d')
qed

lemma backlog_ops [simp]: "dr_ops (remove_backlog_token t d) = dr_ops d" "dr_world (remove_backlog_token t d) = dr_world d"
  "dr_backlog (remove_backlog_token t d) = remove1 t (dr_backlog d)"
  by (simp_all add: remove_backlog_token_def dr_world_def)

lemma cancel_queued_waiting:
  assumes "driver_inv (dr_ops d)" "table_view t (shared (dr_ops d)) = InFlight w"
    "us_submission_state (platform_at (unat (op_index t)) d) = SubQueued"
  shows "\<exists>d' rc pay. cancel_op P \<lparr>cq_target = t, cq_mode = UserVisible\<rparr> d = Some (d', Inr CancelCompletedLocally)
     \<and> st_payload (ls_storage (locals (dr_ops d) ! unat (op_index t))) = Some pay
     \<and> table_view t (shared (dr_ops d')) = Done rc \<and> rec_payload rc = pay \<and> rc_res (uce_raw (rec_event rc)) = - 125
     \<and> fx_woken (shared (dr_ops d')) = fx_woken (shared (dr_ops d)) @ (case w of None \<Rightarrow> [] | Some x \<Rightarrow> [x])
     \<and> (\<forall>u. u \<noteq> t \<longrightarrow> table_view u (shared (dr_ops d')) = table_view u (shared (dr_ops d)))
     \<and> dr_backlog d' = remove1 t (dr_backlog d) \<and> dr_world d' = dr_world d"
proof -
  let ?i = "unat (op_index t)"
  have n: "names_slot t (shared (dr_ops d))" "slot_state_of (token_slot t (shared (dr_ops d))) = InFlightWaiting"
    using assms(2) by (auto simp: view_InFlight)
  have v: "checked_view t d = Inr (CheckedValid (ViewWaiting ?i))"
    unfolding checked_view_dr using in_flight_slot(4) [OF assms(1) n(1)] n(2) by simp
  have run: "cancel_op P \<lparr>cq_target = t, cq_mode = UserVisible\<rparr> d
      = complete_locally (accept_completion_ingress P) t UserVisible (remove_backlog_token t d)"
    using v assms(3) by (simp add: cancel_op_def cancel_op_internal_def pending_cancel_new_def cancel_in_flight_def Let_def)
  show ?thesis
    unfolding run complete_locally_def
    using local_cancel_delivers [of "remove_backlog_token t d" t w P] assms(1,2) by fastforce
qed

text \<open>C6. Cancelling an operation that is still in the backlog completes it on the spot, without asking the
  kernel: the request returns as completed locally and the token leaves the backlog. When the request is
  user visible and the future of the operation waits, the owner of the token can take a completion that
  carries its payload and the result ECANCELED, its waker is woken and no other operation changes. When
  the future has been dropped, with a request of either mode, the orphan cleanup of the operation for
  ECANCELED runs, once, the token names no operation any more, and no operation's view changes.\<close>

theorem cancel_queued_completes_locally:
  assumes "driver_inv (dr_ops d)" "us_submission_state (platform_at (unat (op_index t)) d) = SubQueued"
  shows "(\<forall>w. table_view t (shared (dr_ops d)) = InFlight w \<longrightarrow>
      (\<exists>d' rc pay. cancel_op P \<lparr>cq_target = t, cq_mode = UserVisible\<rparr> d = Some (d', Inr CancelCompletedLocally)
         \<and> st_payload (ls_storage (locals (dr_ops d) ! unat (op_index t))) = Some pay
         \<and> table_view t (shared (dr_ops d')) = Done rc \<and> rec_payload rc = pay \<and> rc_res (uce_raw (rec_event rc)) = - 125
         \<and> fx_woken (shared (dr_ops d')) = fx_woken (shared (dr_ops d)) @ (case w of None \<Rightarrow> [] | Some x \<Rightarrow> [x])
         \<and> (\<forall>u. u \<noteq> t \<longrightarrow> table_view u (shared (dr_ops d')) = table_view u (shared (dr_ops d)))
         \<and> dr_backlog d' = remove1 t (dr_backlog d) \<and> dr_world d' = dr_world d))
    \<and> (names_slot t (shared (dr_ops d)) \<and> slot_state_of (token_slot t (shared (dr_ops d))) = InFlightOrphaned \<longrightarrow>
      (\<exists>d' op. cancel_op P \<lparr>cq_target = t, cq_mode = mode\<rparr> d = Some (d', Inr CancelCompletedLocally)
         \<and> ls_op (locals (dr_ops d) ! unat (op_index t)) = Some op
         \<and> fx_cleaned (shared (dr_ops d')) = fx_cleaned (shared (dr_ops d)) @ guard_drop (snd (op_orphan_cleanup (- 125) op))
         \<and> driver_inv (dr_ops d') \<and> \<not> token_live t (dr_ops d')
         \<and> (\<forall>u. table_view u (shared (dr_ops d')) = table_view u (shared (dr_ops d)))
         \<and> dr_backlog d' = remove1 t (dr_backlog d) \<and> dr_world d' = dr_world d))"
proof (intro conjI allI impI)
  assume n: "names_slot t (shared (dr_ops d)) \<and> slot_state_of (token_slot t (shared (dr_ops d))) = InFlightOrphaned"
  let ?i = "unat (op_index t)"
  have v: "checked_view t d = Inr (CheckedValid (ViewOrphaned ?i))"
    unfolding checked_view_dr using in_flight_slot(4) [OF assms(1)] n by simp
  obtain op where op: "ls_op (locals (dr_ops d) ! ?i) = Some op" using in_flight_slot(2) [OF assms(1)] n by auto
  have "cancel_op P \<lparr>cq_target = t, cq_mode = mode\<rparr> d = complete_locally (accept_completion_ingress P) t Abandon (remove_backlog_token t d)"
    using v assms(2) by (simp add: cancel_op_def cancel_op_internal_def pending_cancel_new_def cancel_in_flight_def Let_def)
  then show "\<exists>d' op. cancel_op P \<lparr>cq_target = t, cq_mode = mode\<rparr> d = Some (d', Inr CancelCompletedLocally)
         \<and> ls_op (locals (dr_ops d) ! ?i) = Some op
         \<and> fx_cleaned (shared (dr_ops d')) = fx_cleaned (shared (dr_ops d)) @ guard_drop (snd (op_orphan_cleanup (- 125) op))
         \<and> driver_inv (dr_ops d') \<and> \<not> token_live t (dr_ops d')
         \<and> (\<forall>u. table_view u (shared (dr_ops d')) = table_view u (shared (dr_ops d)))
         \<and> dr_backlog d' = remove1 t (dr_backlog d) \<and> dr_world d' = dr_world d"
    using local_cancel_cleans [of "remove_backlog_token t d" t op P Abandon] n op assms(1) by (fastforce simp: complete_locally_def)
qed (rule cancel_queued_waiting [OF assms(1) _ assms(2)])

theorem cancel_queued_completes_locally_witness:
  "\<exists>d' rc. cancel_op small_params \<lparr>cq_target = \<lparr>op_index = 0, op_generation = 5\<rparr>, cq_mode = UserVisible\<rparr> queued_driver
       = Some (d', Inr CancelCompletedLocally)
     \<and> table_view \<lparr>op_index = 0, op_generation = 5\<rparr> (shared (dr_ops d')) = Done rc \<and> rec_payload rc = PayloadOther 7 \<and> dr_backlog d' = []"
proof -
  let ?t = "\<lparr>op_index = 0, op_generation = 5\<rparr> :: op_token"
  have "st_payload (ls_storage (locals (dr_ops queued_driver) ! 0)) = Some (PayloadOther 7)" "dr_backlog queued_driver = [?t]"
    by (simp_all add: queued_driver_def fresh_driver_def sample_driver_def)
  then show ?thesis
    using cancel_queued_completes_locally [OF queued_driver_ok(1), of ?t small_params, THEN conjunct1] queued_driver_ok(2,3) by fastforce
qed

subsection \<open>Cancel identifiers\<close>

text \<open>C7. The identifier of a cancel request is never zero and never one that a request in the kernel
  still carries; it is refused only when all 65535 of them are in use.\<close>

theorem cancel_id_fresh:
  assumes "dr_next_cancel_id d \<noteq> 0" "next_cancel_completion_id d = (d', res)"
  shows "dr_next_cancel_id d' \<noteq> 0 \<and> dr_pending_cancel_cqes d' = dr_pending_cancel_cqes d
     \<and> (case res of
          Some cid \<Rightarrow> cid \<noteq> 0 \<and> dr_pending_cancel_cqes d cid = None
        | None \<Rightarrow> \<forall>cid. cid \<noteq> 0 \<longrightarrow> dr_pending_cancel_cqes d cid \<noteq> None)"
proof -
  obtain n where n: "cancel_id_scan 65535 (dr_pending_cancel_cqes d) (dr_next_cancel_id d) = (n, res)" "d' = d\<lparr>dr_next_cancel_id := n\<rparr>"
    using assms(2) by (auto simp: next_cancel_completion_id_def split: prod.splits)
  note s = cancel_id_scan_spec [OF assms(1) n(1)]
  have "\<forall>cid. cid \<noteq> 0 \<longrightarrow> dr_pending_cancel_cqes d cid \<noteq> None" if "res = None"
    using s that cancel_id_covers [OF assms(1)] by fastforce
  then show ?thesis using s n(2) by (cases res) simp_all
qed

theorem cancel_id_fresh_witness:
  "\<exists>d'. next_cancel_completion_id (queued_driver\<lparr>dr_next_cancel_id := - 1,
       dr_pending_cancel_cqes := [- 1 \<mapsto> pending_cancel_new (cancel_abandon \<lparr>op_index = 0, op_generation = 5\<rparr>)]\<rparr>) = (d', Some 1) \<and> dr_next_cancel_id d' \<noteq> 0"
proof -
  let ?d = "queued_driver\<lparr>dr_next_cancel_id := - 1,
       dr_pending_cancel_cqes := [- 1 \<mapsto> pending_cancel_new (cancel_abandon \<lparr>op_index = 0, op_generation = 5\<rparr>)]\<rparr>"
  obtain d' where d': "next_cancel_completion_id ?d = (d', Some 1)"
    using cancel_id_scan.simps(2) [of 65534] cancel_id_scan.simps(2) [of 65533] by (simp add: next_cancel_completion_id_def Let_def)
  then show ?thesis using cancel_id_fresh [of ?d d' "Some 1"] by simp
qed

subsection \<open>Submission\<close>

text \<open>C5. Submitting an operation to a reserved slot has one of three outcomes. It is accepted and in
  flight; the submission queue is full, and it is in flight at the end of the backlog; or it is refused
  and given back to the caller, and the slot is reserved as before. The driver is well-formed in each.\<close>

theorem submission_outcomes:
  assumes "env_ok P M" "uring_inv M d" "checked_view token d = Inr (CheckedValid (ViewReserved i))"
  shows "\<exists>d' back res. submit_op_raw P token (Some op) d = Some (d', back, res) \<and> uring_inv M d'
     \<and> names_slot token (shared (dr_ops d'))
     \<and> (case res of
          Submitted (Ready _) \<Rightarrow> back = None \<and> dr_backlog d' = dr_backlog d \<and> slot_state_of (token_slot token (shared (dr_ops d'))) = InFlightWaiting
        | Submitted Pending \<Rightarrow> back = None \<and> dr_backlog d' = dr_backlog d @ [token] \<and> slot_state_of (token_slot token (shared (dr_ops d'))) = InFlightWaiting
        | SubmitFailed e _ \<Rightarrow> back \<noteq> None \<and> dr_backlog d' = dr_backlog d
                              \<and> checked_view token d' = Inr (CheckedValid (ViewReserved (unat (op_index token)))))"
proof -
  have "submit_op_raw P token (Some op) d = submit_sqe_internal P token op d"
    by (cases "vt_strategy (uo_vtable op)") (simp_all add: submit_op_raw_def submit_timer_internal_def)
  then show ?thesis
    using submit_op_ok [OF assms(1) assms(2) [unfolded uring_inv_def] assms(3), of op] uinv_uring [of M _ _ _] by fastforce
qed

theorem submission_outcomes_witness:
  "\<exists>M d token d' res. uring_inv M d \<and> submit_op_raw small_params token (Some small_op) d = Some (d', res)
     \<and> uring_inv M d' \<and> names_slot token (shared (dr_ops d'))"
proof -
  obtain r d t0 where d: "uring_driver_new small_params small_config small_start = Some (r, Inr (d :: small_driver))"
    "\<exists>r' h. alloc default (dr_ops d) = Some (r', Inr h)" "uring_inv (started_at t0 small_model) d"
    using small_new small_new_inv by blast
  obtain r' h where al: "alloc default (dr_ops d) = Some (r', Inr h)" using d(2) by blast
  obtain d1 :: small_driver and t where d1: "uring_inv (started_at t0 small_model) d1" "checked_view t d1 = Inr (CheckedValid (ViewReserved (unat (op_index t))))"
    using reserved_view [OF d(3) al] by auto
  have "env_ok small_params (started_at t0 small_model)" using small_env_ok by simp
  from submission_outcomes [OF this d1, of small_op] d1(1) show ?thesis by blast
qed

subsection \<open>Progress\<close>

text \<open>C4. The driver's loops end: flushing the backlog and the queue of cancel requests returns, and so
  does accepting any completion, although flushing accepts completions and accepting flushes. The
  nesting is never deeper than two: a deeper allowance gives the same result.\<close>

theorem flushing_terminates:
  assumes "env_ok P M" "uring_inv M d"
  shows "(\<exists>d' res. flush_backlog (accept_completion_ingress P) P d = Some (d', res))
     \<and> (\<exists>d' res. flush_cancellations (accept_completion_ingress P) P d = Some (d', res))
     \<and> (\<exists>d' res. accept_completion_ingress P ing syn d = Some (d', res))
     \<and> accept_ingress (n + 2) P ing syn d = accept_completion_ingress P ing syn d"
proof -
  note inv = assms(2) [unfolded uring_inv_def]
  have "\<exists>d' res. flush_backlog (accept_completion_ingress P) P d = Some (d', res)"
    using flush_backlog_ok [OF assms(1) accept_completion_acc_ok inv] by blast
  moreover have "\<exists>d' res. flush_cancellations (accept_completion_ingress P) P d = Some (d', res)"
    using flush_cancellations_ok [OF assms(1) accept_completion_acc_ok inv] by blast
  moreover have "\<exists>d' res. accept_completion_ingress P ing syn d = Some (d', res)"
    using keepsD [OF accept_completion_keeps [OF assms(1)] inv] by blast
  ultimately show ?thesis using accept_ingress_fuel [of "n + 2" P ing syn d] by simp
qed

theorem flushing_terminates_witness:
  "\<exists>d :: small_driver. (\<exists>d' res. flush_backlog (accept_completion_ingress small_params) small_params d = Some (d', res))
     \<and> accept_ingress 7 small_params (IngressSynthetic (user_event_from_parts COMP_BACKEND_URING \<lparr>op_index = 0, op_generation = 1\<rparr> 0 0) SynTimer) SyntheticNone d
       = accept_completion_ingress small_params (IngressSynthetic (user_event_from_parts COMP_BACKEND_URING \<lparr>op_index = 0, op_generation = 1\<rparr> 0 0) SynTimer) SyntheticNone d"
proof -
  obtain r d t0 where d: "uring_driver_new small_params small_config small_start = Some (r, Inr (d :: small_driver))"
    "uring_inv (started_at t0 small_model) d"
    using small_new small_new_inv by blast
  have "env_ok small_params (started_at t0 small_model)" using small_env_ok by simp
  note p = flushing_terminates [OF this d(2), where n = 5 and syn = SyntheticNone and
      ing = "IngressSynthetic (user_event_from_parts COMP_BACKEND_URING \<lparr>op_index = 0, op_generation = 1\<rparr> 0 0) SynTimer"]
  show ?thesis by (rule exI [of _ d]) (use p in simp)
qed

subsection \<open>Reachable states\<close>

text \<open>C1. Under the calls of its owner, the remote waker and the tasks, in any order and with any answers of
  the kernel, a driver stays well-formed from its construction on: every slot's state agrees with what it
  holds, the free list, the registered files, the registered chunks and the timers are consistent; and
  every call returns, none panics and none loops. It rests on three conditions: the owner takes a payload
  back only from a slot that is not in flight, as the callers of \<^verbatim>\<open>recover_payload\<close> do after a failed
  submission, although the driver does not check it; the registrar answers instead of panicking
  (part of \<^verbatim>\<open>env_ok\<close>; \<^verbatim>\<open>unknown_chunk_panics\<close> is about the one that does not); and fewer than \<open>2 ^ 22\<close> rounds of
  polling have failed half way, since each may let the timers run ahead of the clock.\<close>

theorem driver_reachable_safe:
  fixes d :: "('k, 'p, 'r, 'm) uring_driver"
  assumes "env_ok P M" "uring_driver_new P config r0 = Some (r1, Inr d0)" "reaches P d0 n d" "n < 2 ^ 22"
  shows "(\<exists>t0. uring_inv (behind n (started_at t0 M)) d)
     \<and> (\<forall>c. legal_call c d \<longrightarrow> (\<exists>d' err. run_call P c d = Some (d', err)))"
proof -
  obtain r res where new: "uring_driver_new P config r0 = Some (r, res)" "\<forall>d :: ('k, 'p, 'r, 'm) uring_driver. res = Inr d \<longrightarrow> (\<exists>t0. uring_inv (started_at t0 M) d)"
    using uring_driver_new_ok [OF assms(1), of config r0] by blast
  then obtain t0 where i: "uring_inv (started_at t0 M) d0" using assms(2) by auto
  let ?M = "started_at t0 M"
  have env: "env_ok P ?M" "env_ok P (behind n ?M)" using assms(1) by simp_all
  have n: "um_drift ?M + (n + 1) * CLOCK_LIMIT \<le> 2 ^ 62" using assms(4) by (simp add: CLOCK_LIMIT_def)
  have inv: "uring_inv (behind n ?M) d" by (rule reaches_inv [OF env(1) i n assms(3)])
  have "\<exists>d' err. run_call P c d = Some (d', err)" if "legal_call c d" for c
    using run_call_ok [OF env(2) inv that] n by fastforce
  then show ?thesis using inv by blast
qed

theorem driver_reachable_safe_witness:
  "\<exists>r (d :: small_driver). uring_driver_new small_params small_config small_start = Some (r, Inr d)
     \<and> reaches small_params d 0 d \<and> (\<exists>d' err. run_call small_params (CallDrive DrivePoll) d = Some (d', err))"
proof -
  obtain r d where d: "uring_driver_new small_params small_config small_start = Some (r, Inr (d :: small_driver))" using small_new by blast
  have "legal_call (CallDrive DrivePoll) d" by (simp add: legal_call_def)
  then have "\<exists>d' err. run_call small_params (CallDrive DrivePoll) d = Some (d', err)"
    using driver_reachable_safe [OF small_env_ok d reaches.reach_start, THEN conjunct2] by (simp del: run_call.simps)
  then show ?thesis using d reaches.reach_start by blast
qed

text \<open>C8. Reserving a slot always answers. The token it hands out is one the token encoding can carry, is
  below the registry's capacity and names a slot that is reserved for it and not yet submitted; the
  branch that reports a token which does not fit is never taken.\<close>

theorem reserve_gives_typed_token:
  assumes "uring_inv M d"
  shows "\<exists>d' res. reserve_op_raw d = Some (d', res) \<and> uring_inv M d'
     \<and> (case res of
          Inl e \<Rightarrow> e = report_of UeInvalidState
        | Inr t \<Rightarrow> unat (op_index t) < length (locals (dr_ops d)) \<and> op_index t < INDEX_LIMIT
                  \<and> checked_view t d' = Inr (CheckedValid (ViewReserved (unat (op_index t))))
                  \<and> st_payload (ls_storage (locals (dr_ops d') ! unat (op_index t))) = None)"
proof -
  have u: "uinv M {} (length (dr_backlog d)) (wv_inbox (um_world M) (dr_world d)) d" using assms by (simp add: uring_inv_def)
  obtain d' res where run: "reserve_op_raw d = Some (d', res)" "uring_inv M d'" using keepsD [OF reserve_keeps u] uinv_uring by blast
  then obtain r a where al: "alloc default (dr_ops d) = Some (r, a)" by (auto simp: reserve_op_raw_def split: option.splits)
  show ?thesis
  proof (cases a)
    case (Inl x)
    then show ?thesis using run al by (auto simp: reserve_op_raw_def)
  next
    case (Inr h)
    then show ?thesis using reserved_view [OF assms] al by fastforce
  qed
qed

theorem reserve_gives_typed_token_witness:
  "\<exists>M (d :: small_driver) d' t. uring_inv M d \<and> reserve_op_raw d = Some (d', Inr t) \<and> op_index t < INDEX_LIMIT"
proof -
  obtain r d t0 where d: "uring_driver_new small_params small_config small_start = Some (r, Inr (d :: small_driver))"
    "\<exists>r' h. alloc default (dr_ops d) = Some (r', Inr h)" "uring_inv (started_at t0 small_model) d"
    using small_new small_new_inv by blast
  obtain d1 t where "reserve_op_raw d = Some (d1, Inr t)" using reserved_view [OF d(3)] d(2) by blast
  then show ?thesis using reserve_gives_typed_token [OF d(3)] d(3) by auto
qed

subsection \<open>A full submission queue\<close>

lemma waker_accept:
  "uh_waker_buf_len h = n \<Longrightarrow> accept_completion uring_completion_hooks
     (IngressKernel (envelope_from_raw_parts COMP_BACKEND_URING (token_waker 0) (ucast n) fl)) r h
   = Some (r, h\<lparr>uh_diag := (uh_diag h)\<lparr>ud_waker_ok := ud_waker_ok (uh_diag h) + 1\<rparr>, uh_waker_armed := False, uh_is_waked := False,
       uh_post := (uh_post h)\<lparr>pe_resubmit_waker := True, pe_flush_backlog := True\<rparr>\<rparr>, Inr flow_internal)"
  by (simp add: accept_completion_def envelope_from_raw_parts_def envelope_from_raw_def token_waker_def classify_control_internal
      dispatch_envelope_def uring_completion_hooks_def uring_handle_control_def handle_waker_control_def finish_hook_result_def
      uring_finish_effect_def Let_def)

text \<open>C9. When the waker's read completes and the submission queue is full, the read cannot be armed again
  and the batch is given up: the remaining completions, already taken off the completion queue, change
  no operation, whatever they are, and the waker stays disarmed.\<close>

theorem full_queue_drops_completions:
  assumes "R = up_ring P"
    "ro_drain_completions R (fst (ro_enter R 0 (dr_world d))) = (r1, (token_waker 0, ucast (dr_waker_buf_len d), fl) # cqes)"
    "dr_waker_registered_fd d = Some fd"
    "ro_push R (token_waker 0) (ro_read_fixed_file R (fd_fixed_index fd)) r1 = (r2, False)" "ro_enter R 0 r2 = (r3, x)"
    "ro_push R (token_waker 0) (ro_read_fixed_file R (fd_fixed_index fd)) r3 = (r4, False)"
  shows "\<exists>d'. process_completions_internal P d = Some (d', Inl (report_of UeSubmission))
     \<and> dr_ops d' = dr_ops d \<and> \<not> dr_waker_armed d' \<and> dr_world d' = r4"
  using assms
  by (simp add: process_completions_internal_def accept_completion_unfold accept_with_def hooks_of_def with_hooks_def waker_accept
      apply_post_completion_effects_def post_effects_default_def resubmit_waker_def submit_waker_def waker_fixed_fd_def push_entry_def
      with_world_def dr_world_def on_diag_def count_waker_rebuild_def Let_def)

theorem full_queue_drops_completions_witness:
  "\<exists>d d'. process_completions_internal small_params (d :: small_driver) = Some (d', Inl (report_of UeSubmission))
     \<and> sw_done (dr_world d) = [(token_waker 0, 8, 0), (token_user \<lparr>op_index = 0, op_generation = 1\<rparr>, 4, 0)] \<and> dr_ops d' = dr_ops d
     \<and> sw_done (dr_world d') = [] \<and> \<not> dr_waker_armed d'"
proof -
  let ?q = "[(token_waker 0, 8, 0), (token_user \<lparr>op_index = 0, op_generation = 1\<rparr>, 4, 0)] :: (u64 \<times> i32 \<times> u32) list"
  obtain d :: small_driver where d: "sw_queue (dr_world d) = [token_waker 0]"
    "dr_waker_registered_fd d = Some \<lparr>fd_fixed_index = 0, fd_generation = 1\<rparr>" "dr_waker_buf_len d = 8" using small_new by blast
  let ?r = "(dr_world d)\<lparr>sw_done := ?q\<rparr>" and ?r' = "(dr_world d)\<lparr>sw_done := []\<rparr>"
  let ?d = "with_world ?r d"
  have e: "dr_world ?d = ?r" "dr_waker_registered_fd ?d = dr_waker_registered_fd d" "dr_waker_buf_len ?d = 8"
    using d(3) by (simp_all add: with_world_def dr_world_def)
  obtain d' where "process_completions_internal small_params ?d = Some (d', Inl (report_of UeSubmission))"
      "dr_ops d' = dr_ops ?d" "\<not> dr_waker_armed d'" "dr_world d' = ?r'"
    using full_queue_drops_completions [OF refl, of small_params ?d ?r' 0 "tl ?q" "\<lparr>fd_fixed_index = 0, fd_generation = 1\<rparr>" ?r' ?r' "Inr ()" ?r'] d(1,2) e
    by (auto simp: small_params_def small_ring_def)
  then show ?thesis using e(1) by (intro exI [of _ ?d] exI [of _ d']) simp
qed

subsection \<open>A failed wake-up\<close>

text \<open>A wake-up whose write fails leaves the flag set, and every later one returns without writing: the
  flag is cleared only by the completion of the waker's read, which no write can bring about any more.\<close>

theorem failed_wake_sticks:
  assumes "\<not> dr_is_waked d" "ro_write_eventfd (up_ring P) (dr_waker_fd d) (dr_world d) = (r, Inl e)" "e \<noteq> Some 11"
  shows "\<exists>d1 rep. remote_wake P d = Some (d1, Inl rep) \<and> remote_wake P d1 = Some (d1, Inr ())"
  using assms by (simp add: remote_wake_def)

end
