(* ===== verification/Files_Ownership.thy ===== *)
theory Files_Ownership
  imports Fixed_Files "HOL-Library.Multiset"
begin

text \<open>
  Ownership in the table of registered files: every handle given to the table is either held by a
  slot or has been closed, exactly once, and a registration that fails leaves the table as it was.
\<close>

subsection \<open>Accounting for owned handles\<close>

definition slot_drops :: "file_slot \<Rightarrow> i32 multiset" where
  "slot_drops s = (case fs_entry s of None \<Rightarrow> {#} | Some e \<Rightarrow> mset (entry_drop e))"

text \<open>The descriptors the slots would close, and those with the ones closed already.\<close>

definition held :: "'r file_table \<Rightarrow> i32 multiset" where
  "held ft = sum_list (map slot_drops (ft_slots ft))"

definition account :: "'r file_table \<Rightarrow> i32 multiset" where
  "account ft = held ft + mset (ft_closed ft)"

definition files_drops :: "register_fd list \<Rightarrow> i32 multiset" where
  "files_drops files = mset (concat (map (entry_drop \<circ> entry_of) files))"

lemma account_put:
  assumes "unat idx < length (ft_slots ft)"
  shows "account (slot_put idx e g r free (ft_closed ft @ cl) ft) + slot_drops (ft_slots ft ! unat idx) =
     account ft + slot_drops \<lparr>fs_entry = e, fs_generation = g\<rparr> + mset cl"
  using sum_list_map_update [OF assms, of slot_drops "\<lparr>fs_entry = e, fs_generation = g\<rparr>"]
  by (simp add: account_def held_def ac_simps)

lemma account_ring [simp]: "account (ft\<lparr>ft_ring := r\<rparr>) = account ft"
  by (simp add: account_def held_def)

lemma account_drop [simp]: "account (drop_files fs ft) = account ft + files_drops fs"
  by (simp add: account_def held_def drop_files_def files_drops_def)

lemma account_unregister_slot: "account (fst (unregister_file_slot rf idx adv ft)) = account ft"
proof (cases "unat idx < length (ft_slots ft)")
  case i: True
  show ?thesis
  proof (cases "fs_entry (ft_slots ft ! unat idx)")
    case (Some e)
    note p = account_put [OF i, of None _ _ _ "entry_drop e"]
    show ?thesis using p i Some
      by (simp add: unregister_file_slot_def Let_def slot_put_def slot_drops_def split: prod.split sum.split)
  qed (simp add: unregister_file_slot_def Let_def)
qed (simp add: unregister_file_slot_def)

lemma account_rollback_loop: "account (fst (rollback_loop rf L fe ft)) = account ft"
proof (induction L arbitrary: fe ft)
  case (Cons idx L)
  show ?case using account_unregister_slot [of rf idx False ft]
    by (auto simp: Cons.IH split: prod.split sum.split)
qed simp

lemma account_rollback: "account (fst (rollback_file_slots rf regs ft)) = account ft"
  using account_rollback_loop [of rf "rev regs" None ft] by (auto simp: rollback_file_slots_def split: prod.split option.split)

lemma account_taken:
  assumes "file_inv view ft" "ft_free ft \<noteq> []"
  shows "account (taken (last (ft_free ft)) entry r ft) = account ft + mset (entry_drop entry)"
  using account_put [OF free_last(1) [OF assms], of "Some entry" _ r "butlast (ft_free ft)" "[]"] free_last(2) [OF assms]
  by (simp add: taken_def slot_drops_def)

lemma account_register_loop:
  "\<lbrakk>ring_files_ok rf view; file_inv view ft; length files \<le> length (ft_free ft); register_loop rf files regs fds ft = Some (ft', res)\<rbrakk>
   \<Longrightarrow> account ft' = account ft + files_drops files"
proof (induction files arbitrary: regs fds ft)
  case Nil
  then show ?case by (simp add: files_drops_def)
next
  case (Cons fl files)
  have ne: "ft_free ft \<noteq> []" using Cons.prems(3) by auto
  let ?idx = "last (ft_free ft)"
  obtain r x where u: "rf_update rf ?idx [entry_fd (entry_of fl)] (ft_ring ft) = (r, x)" by fastforce
  show ?case
  proof (cases x)
    case (Inl e)
    obtain ft2 y where rb: "rollback_file_slots rf regs (ft\<lparr>ft_ring := r\<rparr>) = (ft2, y)" by fastforce
    have "ft' = drop_files (fl # files) ft2"
      using Cons.prems(4) rb unfolding register_loop_round [OF Cons.prems(2) ne] u Inl by (cases y) simp_all
    then show ?thesis using account_rollback [of rf regs "ft\<lparr>ft_ring := r\<rparr>"] rb by simp
  next
    case (Inr y)
    let ?t = "taken ?idx (entry_of fl) r ft"
    have v: "view r = (view (ft_ring ft))(unat ?idx := entry_fd (entry_of fl))" using u Inr ring_update_ok [OF Cons.prems(1)] by blast
    note t = taken_ok [OF Cons.prems(2) ne v]
    have l: "length files \<le> length (ft_free ?t)" using Cons.prems(3) by (simp add: t(3))
    have "account ft' = account ?t + files_drops files"
      using Cons.IH [OF Cons.prems(1) t(1) l] Cons.prems(4) unfolding register_loop_round [OF Cons.prems(2) ne] u Inr by simp
    then show ?thesis by (simp add: account_taken [OF Cons.prems(2) ne] files_drops_def)
  qed
qed

lemma no_drops: "sum_list (replicate n {#}) = {#}"
  by (induction n) simp_all

lemma account_register:
  assumes "ring_files_ok rf view" "file_inv view ft" "cap < 2 ^ 32" "register_files_internal rf cap files ft = Some (ft', res)"
  shows "account ft' = account ft + files_drops files"
proof -
  obtain ft1 x where e: "ensure_file_table_initialized rf cap ft = (ft1, x)" by fastforce
  note i = ensure_initialized_ok [OF assms(1-3) e]
  have h: "held ft1 = held ft"
    using e assms(2) by (auto simp: ensure_file_table_initialized_def Let_def held_def file_inv_def slot_drops_def no_drops
        split: if_splits prod.splits sum.splits)
  have a: "account ft1 = account ft" using h i(6) by (simp add: account_def)
  show ?thesis
  proof (cases "\<exists>u. x = Inr u \<and> length files \<le> length (ft_free ft1)")
    case True
    then show ?thesis using account_register_loop [OF assms(1) i(2), of files "[]" "[]" ft' res] assms(4) a e by (auto simp: register_files_internal_def)
  next
    case False
    then have "ft' = drop_files files ft1" using assms(4) by (cases x) (auto simp: register_files_internal_def e)
    then show ?thesis using a by simp
  qed
qed

lemma account_unregister: "account (fst (unregister_files rf hs ft)) = account ft"
proof (induction hs arbitrary: ft)
  case (Cons h hs)
  have "account (fst (unregister_fixed_fd rf h ft)) = account ft"
    using account_unregister_slot [of rf "fd_fixed_index h" True ft] by (simp add: unregister_fixed_fd_def Let_def)
  then show ?case by (auto simp: Cons.IH split: prod.split sum.split)
qed simp

lemma account_replace: "account (fst (replace_registered_fixed_fd rf h raw ft)) = account ft"
proof (cases "unat (fd_fixed_index h) < length (ft_slots ft)")
  case i: True
  let ?s = "ft_slots ft ! unat (fd_fixed_index h)"
  show ?thesis
  proof (cases "fs_entry ?s")
    case (Some e)
    note p = account_put [OF i, of "Some (BorrowedFd (as_fd raw) (raw_kind raw))" "fd_generation h" _ "ft_free ft" "entry_drop e"]
    show ?thesis using p i Some
      by (simp add: replace_registered_fixed_fd_def Let_def slot_put_def slot_drops_def slot_entry_update split: prod.split sum.split)
  qed (simp add: replace_registered_fixed_fd_def Let_def)
qed (simp add: replace_registered_fixed_fd_def Let_def)

lemma account_close:
  assumes "file_inv view ft" "unregister_close_owned_fd rf h ft = (ft', Inr ())"
  shows "account ft' + (if fd_look ft h = None then {#} else slot_drops (ft_slots ft ! unat (fd_fixed_index h))) = account ft"
proof (cases "fd_look ft h")
  case None
  then have "ft' = ft" using assms by (auto simp: unregister_close_owned_fd_def fd_look_def Let_def file_inv_def split: if_splits option.splits)
  then show ?thesis using None by simp
next
  case (Some m)
  let ?s = "ft_slots ft ! unat (fd_fixed_index h)"
  have i: "unat (fd_fixed_index h) < length (ft_slots ft)" "fs_generation ?s = fd_generation h" "fs_entry ?s \<noteq> None" "ft_initialized ft"
    using Some assms(1) by (auto simp: fd_look_def Let_def file_inv_def split: if_splits)
  note p = account_put [OF i(1), of None "advance_file_generation (fs_generation ?s)" _ "ft_free ft @ [fd_fixed_index h]" "[]"]
  show ?thesis using p i assms(2) Some unfolding slot_put_keeps_closed
    by (auto simp: unregister_close_owned_fd_def Let_def slot_drops_def split: prod.splits sum.splits)
qed

text \<open>C30. Every owned handle given to the table is closed exactly once or handed over: registration,
  whether it succeeds, fails or is rolled back, adds the owned handles it was given to those held or
  closed; unregistering and replacing only move them from held to closed; the close operation takes
  exactly its own descriptor's handle out of the account, because the kernel has closed it.\<close>

theorem owned_handles_accounted:
  assumes "ring_files_ok rf view" "file_inv view ft" "cap < 2 ^ 32"
  shows "(\<forall>ft' res. register_files_internal rf cap files ft = Some (ft', res) \<longrightarrow> account ft' = account ft + files_drops files)
    \<and> account (fst (unregister_files rf hs ft)) = account ft
    \<and> account (fst (replace_registered_fixed_fd rf h raw ft)) = account ft
    \<and> (\<forall>ft'. unregister_close_owned_fd rf h ft = (ft', Inr ()) \<longrightarrow>
         account ft' + (if fd_look ft h = None then {#} else slot_drops (ft_slots ft ! unat (fd_fixed_index h))) = account ft)"
proof (intro conjI allI impI)
  show "account ft' = account ft + files_drops files" if "register_files_internal rf cap files ft = Some (ft', res)" for ft' res
    using account_register [OF assms that] .
  show "account (fst (unregister_files rf hs ft)) = account ft" by (rule account_unregister)
  show "account (fst (replace_registered_fixed_fd rf h raw ft)) = account ft" by (rule account_replace)
  show "account ft' + (if fd_look ft h = None then {#} else slot_drops (ft_slots ft ! unat (fd_fixed_index h))) = account ft"
    if "unregister_close_owned_fd rf h ft = (ft', Inr ())" for ft'
    by (rule account_close [OF assms(2) that])
qed
definition demo_table :: "i32 list file_table" where
  "demo_table = fst (the (register_files_internal vec_ring 3 [RegisterOwned (RawFile 4)] demo_files))"

lemma demo_table_inv: "file_inv vec_view demo_table"
  unfolding demo_table_def by (rule register_files_inv [OF vec_ring_ok]) (simp_all add: demo_files_def file_inv_new)

theorem owned_handles_accounted_witness:
  "account (fst (the (register_files_internal vec_ring 3 [RegisterOwned (RawSocket 6), RegisterBorrowed (RawFile 5)] demo_table)))
     = account demo_table + {#6#}
   \<and> account (fst (unregister_files vec_ring [fixed_with_generation 0 1] demo_table)) = {#4#}
   \<and> account (fst (unregister_close_owned_fd vec_ring (fixed_with_generation 0 1) demo_table)) + {#4#} = account demo_table"
proof -
  let ?fs = "[RegisterOwned (RawSocket 6), RegisterBorrowed (RawFile 5)]" and ?h = "fixed_with_generation 0 1"
  note p = owned_handles_accounted [OF vec_ring_ok demo_table_inv, of 3 ?fs "[?h]" ?h "RawFile 0"]
  have "register_files_internal vec_ring 3 ?fs demo_table = Some (the (register_files_internal vec_ring 3 ?fs demo_table))" by code_simp
  then obtain ft' res where 1: "register_files_internal vec_ring 3 ?fs demo_table = Some (ft', res)" by (metis surj_pair)
  have 2: "unregister_close_owned_fd vec_ring ?h demo_table = (fst (unregister_close_owned_fd vec_ring ?h demo_table), Inr ())" by code_simp
  have d: "files_drops ?fs = {#6#}" "account demo_table = {#4#}"
    "(if fd_look demo_table ?h = None then {#} else slot_drops (ft_slots demo_table ! unat (fd_fixed_index ?h))) = {#4#}" by code_simp+
  show ?thesis using p 1 2 by (simp add: d)
qed

subsection \<open>A failed registration is undone\<close>

abbreviation core :: "'r file_table \<Rightarrow> file_slot list \<times> u32 list" where
  "core ft \<equiv> (ft_slots ft, ft_free ft)"

lemma unregister_undoes_take:
  assumes "file_inv view ft" "ft_free ft \<noteq> []" "core ft1 = core (taken (last (ft_free ft)) entry r0 ft)"
    "\<And>idx r. \<exists>r'. rf_update rf idx [- 1] r = (r', Inr ())"
  shows "\<exists>ft2. unregister_file_slot rf (last (ft_free ft)) False ft1 = (ft2, Inr ()) \<and> core ft2 = core ft"
proof -
  let ?idx = "last (ft_free ft)" let ?s = "ft_slots ft ! unat ?idx"
  note f = free_last [OF assms(1,2)]
  have s: "?s = \<lparr>fs_entry = None, fs_generation = fs_generation ?s\<rparr>" using f(2) by (cases ?s) simp
  have c: "ft_slots ft1 = (ft_slots ft)[unat ?idx := \<lparr>fs_entry = Some entry, fs_generation = fs_generation ?s\<rparr>]" "ft_free ft1 = butlast (ft_free ft)"
    using assms(3) by (simp_all add: taken_def)
  obtain r' where "rf_update rf ?idx [- 1] (ft_ring ft1) = (r', Inr ())" using assms(4) by blast
  then show ?thesis using f(1) assms(2) s c by (simp add: unregister_file_slot_def Let_def)
qed

lemma register_loop_undone:
  "\<lbrakk>ring_files_ok rf view; file_inv view ft; length files \<le> length (ft_free ft); \<And>idx r. \<exists>r'. rf_update rf idx [- 1] r = (r', Inr ());
    \<And>ft1. core ft1 = core ft \<Longrightarrow> \<exists>ft2. rollback_loop rf (rev regs) None ft1 = (ft2, None) \<and> core ft2 = core ft0;
    register_loop rf files regs fds ft = Some (ft', Inl e)\<rbrakk>
   \<Longrightarrow> core ft' = core ft0"
proof (induction files arbitrary: regs fds ft)
  case Nil
  then show ?case by simp
next
  case (Cons fl files)
  have ne: "ft_free ft \<noteq> []" using Cons.prems(3) by auto
  let ?idx = "last (ft_free ft)"
  obtain r x where u: "rf_update rf ?idx [entry_fd (entry_of fl)] (ft_ring ft) = (r, x)" by fastforce
  show ?case
  proof (cases x)
    case (Inl e)
    obtain ft2 where rb: "rollback_loop rf (rev regs) None (ft\<lparr>ft_ring := r\<rparr>) = (ft2, None)" "core ft2 = core ft0"
      using Cons.prems(5) [of "ft\<lparr>ft_ring := r\<rparr>"] by auto
    have "rollback_file_slots rf regs (ft\<lparr>ft_ring := r\<rparr>) = (ft2, Inr ())" by (simp add: rollback_file_slots_def rb(1))
    then have "ft' = drop_files (fl # files) ft2"
      using Cons.prems(6) unfolding register_loop_round [OF Cons.prems(2) ne] u Inl by simp
    then show ?thesis using rb(2) by simp
  next
    case (Inr y)
    let ?t = "taken ?idx (entry_of fl) r ft"
    have v: "view r = (view (ft_ring ft))(unat ?idx := entry_fd (entry_of fl))" using u Inr ring_update_ok [OF Cons.prems(1)] by blast
    note t = taken_ok [OF Cons.prems(2) ne v]
    have l: "length files \<le> length (ft_free ?t)" using Cons.prems(3) by (simp add: t(3))
    have undo: "\<exists>ft2. rollback_loop rf (rev (regs @ [?idx])) None ft1 = (ft2, None) \<and> core ft2 = core ft0" if c: "core ft1 = core ?t" for ft1
    proof -
      obtain ft3 where 3: "unregister_file_slot rf ?idx False ft1 = (ft3, Inr ())" "core ft3 = core ft"
        using unregister_undoes_take [OF Cons.prems(2) ne c Cons.prems(4)] by blast
      then show ?thesis using Cons.prems(5) [OF 3(2)] by simp
    qed
    show ?thesis
      using Cons.IH [OF Cons.prems(1) t(1) l Cons.prems(4) undo] Cons.prems(6) unfolding register_loop_round [OF Cons.prems(2) ne] u Inr by simp
  qed
qed

lemma register_undone:
  assumes "ring_files_ok rf view" "file_inv view ft" "ft_initialized ft" "\<And>idx r. \<exists>r'. rf_update rf idx [- 1] r = (r', Inr ())"
    "register_files_internal rf cap files ft = Some (ft', Inl e)"
  shows "core ft' = core ft"
proof (cases "length files \<le> length (ft_free ft)")
  case True
  then have "register_loop rf files [] [] ft = Some (ft', Inl e)"
    using assms(3,5) by (simp add: register_files_internal_def ensure_file_table_initialized_def)
  then show ?thesis by (rule register_loop_undone [OF assms(1,2) True assms(4), rotated]) simp
next
  case False
  then have "ft' = drop_files files ft" using assms(3,5) by (simp add: register_files_internal_def ensure_file_table_initialized_def)
  then show ?thesis by simp
qed

text \<open>C29. Registering files in an initialised table is all or nothing as long as the kernel does not refuse
  to take files out again: when the registration reports an error (the table is full, or the kernel
  refuses one of the files after accepting others), the slots, the free list down to its order and the kernel's table are what they were before, and
  every owned handle that was passed in has been closed exactly once.\<close>

theorem register_files_atomic:
  assumes "ring_files_ok rf view" "file_inv view ft" "cap < 2 ^ 32" "ft_initialized ft"
    "\<And>idx r. \<exists>r'. rf_update rf idx [- 1] r = (r', Inr ())" "register_files_internal rf cap files ft = Some (ft', Inl e)"
  shows "ft_slots ft' = ft_slots ft \<and> ft_free ft' = ft_free ft
    \<and> (\<forall>i<length (ft_slots ft). view (ft_ring ft') i = view (ft_ring ft) i)
    \<and> mset (ft_closed ft') = mset (ft_closed ft) + files_drops files"
proof -
  have c: "ft_slots ft' = ft_slots ft" "ft_free ft' = ft_free ft" using register_undone [OF assms(1,2,4,5,6)] by simp_all
  have a: "account ft' = account ft + files_drops files" by (rule account_register [OF assms(1-3,6)])
  have "file_inv view ft'" using register_files_inv [OF assms(1-3), of files] assms(6) by simp
  then show ?thesis using c a assms(2) by (simp add: account_def held_def file_inv_def)
qed

text \<open>A kernel that refuses to register descriptor 9 and never refuses a removal.\<close>

definition picky_ring :: "(nat \<Rightarrow> i32) ring_files" where
  "picky_ring = \<lparr>rf_register = (\<lambda>fds r. (\<lambda>i. if i < length fds then fds ! i else r i, Inr ())),
     rf_update = (\<lambda>idx fds r. if fds = [9] then (r, Inl (Some 9)) else (r(unat idx := hd fds), Inr ()))\<rparr>"

lemma picky_ring_ok: "ring_files_ok picky_ring (\<lambda>r. r)" "\<exists>r'. rf_update picky_ring idx [- 1] r = (r', Inr ())"
proof -
  show "ring_files_ok picky_ring (\<lambda>r. r)" by (auto simp: ring_files_ok_def picky_ring_def split: if_splits)
  have "(- 1 :: i32) \<noteq> 9" by simp
  then show "\<exists>r'. rf_update picky_ring idx [- 1] r = (r', Inr ())" by (simp add: picky_ring_def)
qed

definition picky_table :: "(nat \<Rightarrow> i32) file_table" where
  "picky_table = fst (the (register_files_internal picky_ring 3 [RegisterOwned (RawFile 4)] (file_table_new (\<lambda>_. 0))))"

lemma picky_table_inv: "file_inv (\<lambda>r. r) picky_table"
  unfolding picky_table_def by (rule register_files_inv [OF picky_ring_ok(1) file_inv_new]) simp

theorem register_files_atomic_witness:
  "\<exists>ft' e. register_files_internal picky_ring 3 [RegisterOwned (RawFile 7), RegisterOwned (RawSocket 9)] picky_table = Some (ft', Inl e)
     \<and> ft_slots ft' = ft_slots picky_table \<and> ft_free ft' = [2, 1] \<and> ft_ring ft' 1 = - 1 \<and> mset (ft_closed ft') = {#7, 9#}"
proof -
  let ?fs = "[RegisterOwned (RawFile 7), RegisterOwned (RawSocket 9)]"
  have "case register_files_internal picky_ring 3 ?fs picky_table of Some (ft', Inl e) \<Rightarrow> True | _ \<Rightarrow> False" by code_simp
  then obtain ft' e where 1: "register_files_internal picky_ring 3 ?fs picky_table = Some (ft', Inl e)"
    by (auto split: option.splits prod.splits sum.splits)
  have t: "ft_free picky_table = [2, 1]" "ft_ring picky_table 1 = - 1" "ft_closed picky_table = []" "files_drops ?fs = {#7, 9#}"
    "ft_initialized picky_table" "length (ft_slots picky_table) = 3" by code_simp+
  note p = register_files_atomic [OF picky_ring_ok(1) picky_table_inv _ t(5) picky_ring_ok(2) 1]
  have "ft_ring ft' 1 = - 1" using p t(2,6) by simp
  then show ?thesis using p 1 by (intro exI [of _ ft'] exI [of _ e]) (simp add: t)
qed

end
