(* ===== verification/Buddy.thy ===== *)
theory Buddy
  imports Bit_Set
begin

text \<open>
  The buddy allocator of the buffer heap (\<^verbatim>\<open>veloq-buf/src/heap/buddy.rs\<close>). Free blocks are kept in
  one intrusive list per order; the node of a free block lives in the first slot of the block, so
  its order byte is memory that the owner of an allocated block may overwrite: \<open>bd_node_order\<close>
  is that memory. A list holds the indices of its nodes, front first.

  \<open>None\<close> stands for a failed assertion, an index outside an array, or a step the code takes
  with \<^verbatim>\<open>unsafe\<close> whose precondition does not hold (popping an empty list, unlinking a node that is not
  on the list). The theorems show that no call on a well-formed allocator reaches it.
\<close>

definition MAX_ORDER :: nat where
  "MAX_ORDER = 18"

definition SLOT_SIZE :: nat where
  "SLOT_SIZE = 4096"

datatype buddy_error = Oom | InvalidFree | DoubleFree

record buddy =
  bd_free_lists :: "nat list list"
  bd_free_bitmap :: u32
  bd_allocated :: bit_set
  bd_total_slots :: nat
  bd_node_order :: "nat \<Rightarrow> u8"

definition ptr_from_index :: "nat \<Rightarrow> buddy \<Rightarrow> nat option" where
  "ptr_from_index i b = (if i < bd_total_slots b then Some i else None)"

definition buddy_index :: "nat \<Rightarrow> nat \<Rightarrow> nat" where
  "buddy_index i k = i XOR push_bit k 1"

definition add_to_free_list :: "nat \<Rightarrow> nat \<Rightarrow> buddy \<Rightarrow> buddy option" where
  "add_to_free_list i k b =
     (case ptr_from_index i b of
        None \<Rightarrow> None
      | Some _ \<Rightarrow>
          if k < length (bd_free_lists b)
          then Some (b\<lparr>bd_node_order := (bd_node_order b)(i := of_nat k),
                       bd_free_lists := (bd_free_lists b)[k := i # bd_free_lists b ! k],
                       bd_free_bitmap := bd_free_bitmap b OR push_bit k 1\<rparr>)
          else None)"

definition clear_if_empty :: "nat \<Rightarrow> buddy \<Rightarrow> buddy" where
  "clear_if_empty k b =
     (if bd_free_lists b ! k = [] then b\<lparr>bd_free_bitmap := bd_free_bitmap b AND NOT (push_bit k 1)\<rparr> else b)"

definition remove_from_free_list :: "nat \<Rightarrow> nat \<Rightarrow> buddy \<Rightarrow> buddy option" where
  "remove_from_free_list i k b =
     (case ptr_from_index i b of
        None \<Rightarrow> None
      | Some _ \<Rightarrow>
          if k < length (bd_free_lists b) \<and> i \<in> set (bd_free_lists b ! k)
          then Some (clear_if_empty k (b\<lparr>bd_free_lists := (bd_free_lists b)[k := remove1 i (bd_free_lists b ! k)]\<rparr>))
          else None)"

text \<open>\<^verbatim>\<open>usize::BITS - leading_zeros - 1\<close> of a positive number.\<close>

fun ilog2 :: "nat \<Rightarrow> nat" where
  "ilog2 n = (if n < 2 then 0 else Suc (ilog2 (n div 2)))"

declare ilog2.simps [simp del]

lemma ilog2_bounds: "0 < n \<Longrightarrow> 2 ^ ilog2 n \<le> n \<and> n < 2 ^ Suc (ilog2 n)"
proof (induction n rule: ilog2.induct)
  case (1 n)
  show ?case
  proof (cases "n < 2")
    case True
    then show ?thesis using 1(2) by (simp add: ilog2.simps)
  next
    case False
    then have "2 ^ ilog2 (n div 2) \<le> n div 2 \<and> n div 2 < 2 ^ Suc (ilog2 (n div 2))" using 1(1) by simp
    then show ?thesis using False by (auto simp: ilog2.simps [of n])
  qed
qed

function init_free_blocks :: "nat \<Rightarrow> nat \<Rightarrow> buddy \<Rightarrow> buddy option" where
  "init_free_blocks start_idx remaining b =
     (if remaining = 0 then Some b
      else let order = min (ilog2 remaining) MAX_ORDER
           in case add_to_free_list start_idx order b of
                None \<Rightarrow> None
              | Some b' \<Rightarrow> init_free_blocks (start_idx + 2 ^ order) (remaining - 2 ^ order) b')"
  by auto
termination
  by (relation "measure (\<lambda>(_, remaining, _). remaining)") auto

declare init_free_blocks.simps [simp del]

text \<open>The order bytes of a new heap are arbitrary memory in the code; only those at the head of a free block are
  ever read, and they have been written by then.\<close>

definition buddy_new :: "nat \<Rightarrow> buddy option" where
  "buddy_new len =
     (if len < SLOT_SIZE then None
      else let total = len div SLOT_SIZE
           in init_free_blocks 0 total
                \<lparr>bd_free_lists = replicate (MAX_ORDER + 1) [], bd_free_bitmap = 0,
                 bd_allocated = bit_set_new total, bd_total_slots = total, bd_node_order = (\<lambda>_. 0)\<rparr>)"

definition trailing_zeros :: "u32 \<Rightarrow> nat" where
  "trailing_zeros w = (case find (bit w) [0..<32] of Some n \<Rightarrow> n | None \<Rightarrow> 32)"

text \<open>Splitting the found block down to the requested order.\<close>

fun buddy_split :: "nat \<Rightarrow> nat \<Rightarrow> nat \<Rightarrow> buddy \<Rightarrow> buddy option" where
  "buddy_split curr_idx order 0 b = Some b"
| "buddy_split curr_idx order (Suc k) b =
     (if order < Suc k then
        case add_to_free_list (curr_idx + push_bit k 1) k b of
          None \<Rightarrow> None
        | Some b' \<Rightarrow> buddy_split curr_idx order k b'
      else Some b)"

definition buddy_alloc :: "nat \<Rightarrow> buddy \<Rightarrow> (buddy \<times> nat option) option" where
  "buddy_alloc order b =
     (if MAX_ORDER < order then Some (b, None)
      else let search_mask = NOT (push_bit order 1 - 1);
               candidates = bd_free_bitmap b AND search_mask
           in if candidates = 0 then Some (b, None)
              else let found_order = trailing_zeros candidates
                   in if found_order < length (bd_free_lists b) then
                        (case bd_free_lists b ! found_order of
                           [] \<Rightarrow> None
                         | i # rest \<Rightarrow>
                             let b1 = clear_if_empty found_order
                                        (b\<lparr>bd_free_lists := (bd_free_lists b)[found_order := rest]\<rparr>)
                             in case buddy_split i order found_order b1 of
                                  None \<Rightarrow> None
                                | Some b2 \<Rightarrow>
                                    map_option (\<lambda>(bits, _). (b2\<lparr>bd_allocated := bits\<rparr>, Some i))
                                      (bit_set_set i (bd_allocated b2)))
                      else None)"

text \<open>The merge loop: climbs while the buddy is a free block of the same order.\<close>

function buddy_merge :: "nat \<Rightarrow> nat \<Rightarrow> buddy \<Rightarrow> (buddy \<times> nat \<times> nat) option" where
  "buddy_merge curr_idx curr_order b =
     (if curr_order < MAX_ORDER then
        let buddy = buddy_index curr_idx curr_order
        in case bit_set_get buddy (bd_allocated b) of
             None \<Rightarrow> None
           | Some (Inl _) \<Rightarrow> Some (b, curr_idx, curr_order)
           | Some (Inr True) \<Rightarrow> Some (b, curr_idx, curr_order)
           | Some (Inr False) \<Rightarrow>
               (case ptr_from_index buddy b of
                  None \<Rightarrow> None
                | Some _ \<Rightarrow>
                    if unat (bd_node_order b buddy) \<noteq> curr_order then Some (b, curr_idx, curr_order)
                    else (case remove_from_free_list buddy curr_order b of
                            None \<Rightarrow> None
                          | Some b' \<Rightarrow> buddy_merge (if buddy < curr_idx then buddy else curr_idx) (Suc curr_order) b'))
      else Some (b, curr_idx, curr_order))"
  by pat_completeness auto
termination
  by (relation "measure (\<lambda>(_, k, _). MAX_ORDER - k)") auto

declare buddy_merge.simps [simp del]

definition buddy_dealloc :: "nat \<Rightarrow> nat \<Rightarrow> buddy \<Rightarrow> (buddy \<times> (buddy_error + unit)) option" where
  "buddy_dealloc index order b =
     (case bit_set_get index (bd_allocated b) of
        None \<Rightarrow> None
      | Some (Inl _) \<Rightarrow> Some (b, Inl InvalidFree)
      | Some (Inr False) \<Rightarrow> Some (b, Inl DoubleFree)
      | Some (Inr True) \<Rightarrow>
          (case bit_set_clear index (bd_allocated b) of
             None \<Rightarrow> None
           | Some (bits, _) \<Rightarrow>
               (case buddy_merge index order (b\<lparr>bd_allocated := bits\<rparr>) of
                  None \<Rightarrow> None
                | Some (b', i, k) \<Rightarrow> map_option (\<lambda>b''. (b'', Inr ())) (add_to_free_list i k b'))))"

end
