(* ===== verification/Buddy_Blocks.thy ===== *)
theory Buddy_Blocks
  imports Buddy
begin

text \<open>
  Aligned power-of-two blocks of slots, sets of them that tile an initial segment, and the
  arithmetic of buddies. A tiling is what the allocator maintains: free and allocated blocks
  together cover every slot exactly once.
\<close>

definition blk :: "nat \<times> nat \<Rightarrow> nat set" where
  "blk x = {fst x..<fst x + 2 ^ snd x}"

text \<open>A set of aligned blocks that covers the slots below \<open>N\<close> without overlap.\<close>

definition tiling :: "nat \<Rightarrow> (nat \<times> nat) set \<Rightarrow> bool" where
  "tiling N B \<longleftrightarrow> (\<forall>(i, k) \<in> B. k \<le> MAX_ORDER \<and> 2 ^ k dvd i)
     \<and> (\<forall>x \<in> B. \<forall>y \<in> B. x \<noteq> y \<longrightarrow> blk x \<inter> blk y = {}) \<and> \<Union> (blk ` B) = {..<N}"

lemma tiling_disjoint: "tiling N B \<Longrightarrow> x \<in> B \<Longrightarrow> y \<in> B \<Longrightarrow> x \<noteq> y \<Longrightarrow> blk x \<inter> blk y = {}"
  by (simp add: tiling_def)

lemma tiling_cover: "tiling N B \<Longrightarrow> i < N \<Longrightarrow> \<exists>x \<in> B. i \<in> blk x"
  by (metis UN_E lessThan_iff tiling_def)

lemma blk_head [simp]: "i \<in> blk (i, k)"
  by (simp add: blk_def)

lemma blk_split: "blk (i, Suc k) = blk (i, k) \<union> blk (i + 2 ^ k, k)" "blk (i, k) \<inter> blk (i + 2 ^ k, k) = {}"
  by (auto simp: blk_def)

lemma tiling_head:
  assumes "tiling N B" "(i, k) \<in> B" "(i, k') \<in> B"
  shows "k = k'"
  using assms blk_head [of i k] blk_head [of i k'] unfolding tiling_def by (metis disjoint_iff prod.inject)

lemma tiling_bound: "tiling N B \<Longrightarrow> (i, k) \<in> B \<Longrightarrow> i < N \<and> i + 2 ^ k \<le> N \<and> k \<le> MAX_ORDER \<and> 2 ^ k dvd i"
proof -
  assume t: "tiling N B" and b: "(i, k) \<in> B"
  then have "blk (i, k) \<subseteq> {..<N}" unfolding tiling_def by blast
  moreover obtain m where m: "(2 :: nat) ^ k = Suc m" using gr0_implies_Suc [of "2 ^ k"] by auto
  then have "i + m \<in> blk (i, k)" "i \<in> blk (i, k)" by (simp_all add: blk_def)
  ultimately have "i + m < N" "i < N" by auto
  then show ?thesis using t b m by (auto simp: tiling_def)
qed

lemma tiling_part:
  assumes t: "tiling N (F \<union> B)" and d: "F \<inter> B = {}"
  shows "\<Union> (blk ` F) = {..<N} - \<Union> (blk ` B)"
proof -
  have "\<Union> (blk ` F) \<union> \<Union> (blk ` B) = {..<N}" using t unfolding tiling_def by (simp add: image_Un)
  moreover have "blk x \<inter> blk y = {}" if "x \<in> F" "y \<in> B" for x y
  proof -
    have "x \<noteq> y" using d that by auto
    then show ?thesis using tiling_disjoint [OF t] that by simp
  qed
  then have "\<Union> (blk ` F) \<inter> \<Union> (blk ` B) = {}" by fast
  ultimately show ?thesis by auto
qed

lemma tiling_replace:
  assumes t: "tiling N (C \<union> B)" and d: "C \<inter> B = {}" "\<Union> (blk ` C') = \<Union> (blk ` C)"
    and ok: "\<forall>(i, k) \<in> C'. k \<le> MAX_ORDER \<and> 2 ^ k dvd i"
    and dis: "\<forall>x \<in> C'. \<forall>y \<in> C'. x \<noteq> y \<longrightarrow> blk x \<inter> blk y = {}"
  shows "tiling N (C' \<union> B)" "C' \<inter> B = {}"
proof -
  have sep: "blk x \<inter> blk y = {}" if x: "x \<in> C'" and y: "y \<in> B" for x y
  proof -
    have "blk x \<subseteq> \<Union> (blk ` C)" using x d(2) by blast
    moreover have "blk c \<inter> blk y = {}" if "c \<in> C" for c
    proof -
      have "c \<noteq> y" "c \<in> C \<union> B" "y \<in> C \<union> B" using d(1) y that by auto
      then show ?thesis using tiling_disjoint [OF t] by simp
    qed
    ultimately show ?thesis by fast
  qed
  have ne: "blk x \<noteq> {}" for x by (simp add: blk_def)
  show "C' \<inter> B = {}"
  proof (rule ccontr)
    assume "C' \<inter> B \<noteq> {}"
    then obtain x where "x \<in> C'" "x \<in> B" by auto
    then show False using sep [of x x] ne [of x] by simp
  qed
  have "blk x \<inter> blk y = {}" if "x \<in> C' \<union> B" "y \<in> C' \<union> B" "x \<noteq> y" for x y
    using that dis sep t unfolding tiling_def by (metis Un_iff inf_commute)
  moreover have "\<Union> (blk ` (C' \<union> B)) = {..<N}" using t d(2) unfolding tiling_def by (simp add: image_Un)
  moreover have "\<forall>(i, k) \<in> B. k \<le> MAX_ORDER \<and> 2 ^ k dvd i" using t unfolding tiling_def by blast
  ultimately show "tiling N (C' \<union> B)" using ok unfolding tiling_def by blast
qed

lemma tiling_split:
  assumes "tiling N (insert (i, Suc k) B)" "(i, Suc k) \<notin> B"
  shows "tiling N (insert (i, k) (insert (i + 2 ^ k, k) B))" "(i, k) \<notin> insert (i + 2 ^ k, k) B" "(i + 2 ^ k, k) \<notin> B"
proof -
  have al: "2 ^ Suc k dvd i" "Suc k \<le> MAX_ORDER" using assms(1) by (auto simp: tiling_def)
  then have "2 ^ k dvd i" by (metis dvd_mult_right power_Suc)
  then have 1: "tiling N ({(i, k), (i + 2 ^ k, k)} \<union> B)" "{(i, k), (i + 2 ^ k, k)} \<inter> B = {}"
    using tiling_replace [of N "{(i, Suc k)}" B "{(i, k), (i + 2 ^ k, k)}"] assms al blk_split [of i k]
    by (auto simp: Int_commute)
  then show "tiling N (insert (i, k) (insert (i + 2 ^ k, k) B))"
    "(i, k) \<notin> insert (i + 2 ^ k, k) B" "(i + 2 ^ k, k) \<notin> B" by auto
qed

lemma tiling_merge:
  assumes "tiling N (insert (i, k) (insert (i + 2 ^ k, k) B))" "(i, k) \<notin> B" "(i + 2 ^ k, k) \<notin> B"
    "2 ^ Suc k dvd i" "Suc k \<le> MAX_ORDER"
  shows "tiling N (insert (i, Suc k) B)" "(i, Suc k) \<notin> B"
  using tiling_replace [of N "{(i, k), (i + 2 ^ k, k)}" B "{(i, Suc k)}"] assms blk_split [of i k] by auto

lemma buddy_index_aligned:
  assumes "2 ^ k dvd i"
  shows "buddy_index i k = (if even (i div 2 ^ k) then i + 2 ^ k else i - 2 ^ k)"
proof -
  obtain q where q: "i = q * 2 ^ k" using assms by (metis dvd_def mult.commute)
  have "buddy_index i k = push_bit k q XOR push_bit k 1"
    by (simp only: buddy_index_def q push_bit_eq_mult)
  also have "\<dots> = push_bit k (q XOR 1)" by (simp only: push_bit_xor)
  also have "\<dots> = (if even q then q + 1 else q - 1) * 2 ^ k"
    by (auto simp: push_bit_eq_mult xor_Suc_0_eq)
  finally show ?thesis by (simp add: q algebra_simps diff_mult_distrib)
qed

text \<open>The two halves of the parent block.\<close>

lemma buddy_cases:
  assumes "2 ^ k dvd i"
  obtains (low) "2 ^ Suc k dvd i" "buddy_index i k = i + 2 ^ k"
  | (high) p where "i = p + 2 ^ k" "2 ^ Suc k dvd p" "buddy_index i k = p"
proof -
  obtain q where q: "i = 2 ^ k * q" using assms by (auto simp: dvd_def)
  show thesis
  proof (cases "even q")
    case True
    then have "2 ^ Suc k dvd i" by (auto simp: q elim!: evenE)
    then show thesis using low buddy_index_aligned [OF assms] True by (simp add: q)
  next
    case False
    then obtain m where m: "q = 2 * m + 1" by (auto elim!: oddE)
    have "i = 2 ^ Suc k * m + 2 ^ k" by (simp add: q m algebra_simps)
    moreover have "buddy_index i k = 2 ^ Suc k * m" using buddy_index_aligned [OF assms] False by (simp add: q m algebra_simps)
    ultimately show thesis using high by (metis dvd_triv_left)
  qed
qed

lemma buddy_involution:
  assumes "2 ^ k dvd i"
  shows "2 ^ k dvd buddy_index i k \<and> buddy_index (buddy_index i k) k = i \<and> buddy_index i k \<noteq> i"
  using assms
proof (cases rule: buddy_cases)
  case low
  have d: "2 ^ k dvd i + 2 ^ k" using assms by simp
  obtain m where m: "i = 2 ^ Suc k * m" using low(1) by (auto simp: dvd_def)
  have "i + 2 ^ k = 2 ^ k * Suc (2 * m)" by (simp add: m algebra_simps)
  then have "(i + 2 ^ k) div 2 ^ k = Suc (2 * m)" by (metis nonzero_mult_div_cancel_left power_not_zero zero_neq_numeral)
  then have "odd ((i + 2 ^ k) div 2 ^ k)" by simp
  then show ?thesis using low(2) buddy_index_aligned [OF d] d by simp
next
  case (high p)
  have d: "2 ^ k dvd p" using high(2) by (metis dvd_mult_right power_Suc)
  obtain m where "p = 2 ^ Suc k * m" using high(2) by (auto simp: dvd_def)
  then have "p = 2 ^ k * (2 * m)" by simp
  then have "p div 2 ^ k = 2 * m" by (metis nonzero_mult_div_cancel_left power_not_zero zero_neq_numeral)
  then have "even (p div 2 ^ k)" by simp
  then show ?thesis using high(1,3) buddy_index_aligned [OF d] d by simp
qed

lemma pow_mult_less: "(2 :: nat) ^ k * a < 2 ^ k * b \<longleftrightarrow> a < b"
  by simp

text \<open>In a tiling that contains the block \<open>(i, k)\<close>, the buddy of that block is the head of a
  block of at most the same order.\<close>

lemma buddy_is_head:
  assumes t: "tiling N B" and b: "(i, k) \<in> B" and lt: "buddy_index i k < N"
  shows "\<exists>k' \<le> k. (buddy_index i k, k') \<in> B"
proof -
  let ?c = "buddy_index i k"
  have al: "2 ^ k dvd i" using tiling_bound [OF t b] by simp
  obtain j k' where j: "(j, k') \<in> B" "?c \<in> blk (j, k')" using tiling_cover [OF t lt] by auto
  have alj: "2 ^ k' dvd j" using tiling_bound [OF t j(1)] by simp
  obtain m where m: "j = 2 ^ k' * m" using alj by (auto simp: dvd_def)
  show ?thesis
  proof (cases "k' \<le> k")
    case True
    then have "2 ^ k' dvd ?c" using buddy_involution [OF al] le_imp_power_dvd [OF True, of "2 :: nat"] dvd_trans by blast
    then obtain q where q: "?c = 2 ^ k' * q" by (auto simp: dvd_def)
    have "m \<le> q" "2 ^ k' * q < 2 ^ k' * Suc m" using j(2) unfolding blk_def m q by simp_all
    then have "m \<le> q" "q < Suc m" unfolding pow_mult_less by simp_all
    then have "q = m" by simp
    then show ?thesis using True j(1) by (auto simp: q m)
  next
    case False
    then have k': "Suc k \<le> k'" by simp
    obtain p where p: "2 ^ Suc k dvd p" "{i, ?c} = {p, p + 2 ^ k}"
      using al by (cases rule: buddy_cases) auto
    obtain q where q: "p = 2 ^ Suc k * q" using p(1) by (auto simp: dvd_def)
    obtain d where d: "(2::nat) ^ k' = 2 ^ Suc k * d" using k' by (metis le_imp_power_dvd dvd_def)
    have c: "?c = p \<or> ?c = p + 2 ^ k" using p(2) by auto
    have "2 ^ Suc k * (d * m) \<le> ?c" "?c < 2 ^ Suc k * (d * m + d)"
      using j(2) by (auto simp: blk_def m d algebra_simps)
    moreover have "2 ^ Suc k * q \<le> ?c" "?c < 2 ^ Suc k * Suc q" using c by (auto simp: q)
    ultimately have "2 ^ Suc k * (d * m) < 2 ^ Suc k * Suc q" "2 ^ Suc k * q < 2 ^ Suc k * (d * m + d)" by linarith+
    then have "d * m < Suc q" "q < d * m + d" unfolding pow_mult_less by simp_all
    then have "d * m \<le> q" "Suc q \<le> d * m + d" by simp_all
    then have "2 ^ Suc k * (d * m) \<le> 2 ^ Suc k * q" "2 ^ Suc k * Suc q \<le> 2 ^ Suc k * (d * m + d)" by (blast intro: mult_le_mono2)+
    moreover have "i = p \<or> i = p + 2 ^ k" using p(2) by auto
    moreover have "2 ^ Suc k * Suc q = p + 2 * 2 ^ k" by (simp add: q)
    moreover have "2 ^ Suc k * (d * m + d) = j + 2 ^ k'" "2 ^ Suc k * (d * m) = j" by (simp_all add: m d algebra_simps)
    moreover have "0 < (2 :: nat) ^ k" by simp
    ultimately have "j \<le> i \<and> i < j + 2 ^ k'" unfolding q [symmetric] by linarith
    then have "i \<in> blk (j, k')" by (simp add: blk_def)
    then have "(i, k) = (j, k')" using t b j(1) blk_head [of i k] unfolding tiling_def by (metis disjoint_iff)
    then show ?thesis using False by simp
  qed
qed

subsection \<open>Alignment\<close>

lemma blk_mem: "2 ^ k dvd i \<Longrightarrow> x \<in> blk (i, k) \<longleftrightarrow> x div 2 ^ k = i div 2 ^ k"
proof -
  assume "2 ^ k dvd i"
  then obtain q where q: "i = 2 ^ k * q" by (auto simp: dvd_def)
  have "x \<in> blk (i, k) \<longleftrightarrow> q * 2 ^ k \<le> x \<and> x < Suc q * 2 ^ k" by (auto simp: blk_def q algebra_simps)
  also have "\<dots> \<longleftrightarrow> q \<le> x div 2 ^ k \<and> x div 2 ^ k < Suc q"
    by (simp add: less_eq_div_iff_mult_less_eq div_less_iff_less_mult del: mult_Suc)
  finally show ?thesis by (auto simp: q)
qed

lemma div_pow_mono: "k \<le> k' \<Longrightarrow> (x :: nat) div 2 ^ k = y div 2 ^ k \<Longrightarrow> x div 2 ^ k' = y div 2 ^ k'"
proof -
  assume le: "k \<le> k'" and eq: "x div 2 ^ k = y div 2 ^ k"
  have "z div 2 ^ k' = z div 2 ^ k div 2 ^ (k' - k)" for z :: nat
    using le by (metis div_mult2_eq le_add_diff_inverse power_add)
  then show ?thesis using eq by metis
qed

text \<open>Two aligned blocks are nested or apart.\<close>

lemma blk_nested:
  assumes "2 ^ k dvd i" "2 ^ k' dvd j" "k \<le> k'" "blk (i, k) \<inter> blk (j, k') \<noteq> {}"
  shows "blk (i, k) \<subseteq> blk (j, k')"
proof
  obtain x where x: "x \<in> blk (i, k)" "x \<in> blk (j, k')" using assms(4) by blast
  fix y assume "y \<in> blk (i, k)"
  then have "y div 2 ^ k = x div 2 ^ k" using x(1) assms(1) by (simp add: blk_mem)
  then show "y \<in> blk (j, k')" using x(2) assms(2,3) div_pow_mono by (metis blk_mem)
qed

lemma buddy_same_parent:
  assumes "2 ^ k dvd i" "k < k'"
  shows "buddy_index i k div 2 ^ k' = i div 2 ^ k'"
proof -
  have half: "(p + 2 ^ k) div 2 ^ Suc k = p div 2 ^ Suc k" if p: "2 ^ Suc k dvd p" for p :: nat
  proof -
    have "p + 2 ^ k \<in> blk (p, Suc k)" by (simp add: blk_def)
    then show ?thesis using blk_mem [OF p] by simp
  qed
  have "buddy_index i k div 2 ^ Suc k = i div 2 ^ Suc k"
    using assms(1) half by (cases rule: buddy_cases) (metis, metis)
  then show ?thesis by (rule div_pow_mono [OF Suc_leI [OF assms(2)]])
qed

subsection \<open>Coalesced tilings\<close>

definition coalesced :: "(nat \<times> nat) set \<Rightarrow> bool" where
  "coalesced B \<longleftrightarrow> (\<forall>(i, k) \<in> B. k < MAX_ORDER \<longrightarrow> (buddy_index i k, k) \<notin> B)"

lemma tiling_extend:
  assumes t: "tiling N B" and a: "2 ^ k dvd N" "k \<le> MAX_ORDER"
  shows "tiling (N + 2 ^ k) (insert (N, k) B)" "\<And>k'. (N, k') \<notin> B"
proof -
  have below: "blk x \<subseteq> {..<N}" if "x \<in> B" for x using t that unfolding tiling_def by blast
  have apart: "{..<N} \<inter> blk (N, k) = {}" by (auto simp: blk_def)
  then have "blk x \<inter> blk (N, k) = {}" "blk (N, k) \<inter> blk x = {}" if "x \<in> B" for x using below [OF that] by blast+
  moreover have "\<Union> (blk ` insert (N, k) B) = {..<N + 2 ^ k}" using t by (auto simp: tiling_def blk_def)
  ultimately show "tiling (N + 2 ^ k) (insert (N, k) B)" using t a unfolding tiling_def by auto
  show "(N, k') \<notin> B" for k' using below [of "(N, k')"] blk_head [of N k'] by blast
qed

lemma coalesced_insert:
  assumes "coalesced B" "2 ^ k dvd i" "k < MAX_ORDER \<Longrightarrow> (buddy_index i k, k) \<notin> B" "\<forall>(j, m) \<in> B. 2 ^ m dvd j"
  shows "coalesced (insert (i, k) B)"
  unfolding coalesced_def
proof (intro ballI, clarsimp)
  fix j m assume m: "j = i \<and> m = k \<or> (j, m) \<in> B" "m < MAX_ORDER"
  show "(buddy_index j m = i \<longrightarrow> m \<noteq> k) \<and> (buddy_index j m, m) \<notin> B"
  proof (cases "j = i \<and> m = k")
    case True
    then show ?thesis using assms(3) m(2) buddy_involution [OF assms(2)] by auto
  next
    case False
    then have b: "(j, m) \<in> B" using m(1) by blast
    then have "2 ^ m dvd j" using assms(4) by auto
    then have "buddy_index (buddy_index j m) m = j" using buddy_involution by simp
    then have "buddy_index j m = i \<Longrightarrow> m \<noteq> k" using assms(3) b m(2) by auto
    moreover have "(buddy_index j m, m) \<notin> B" using assms(1) b m(2) by (auto simp: coalesced_def)
    ultimately show ?thesis by blast
  qed
qed

lemma coalesced_subset: "coalesced B \<Longrightarrow> B' \<subseteq> B \<Longrightarrow> coalesced B'"
  by (auto simp: coalesced_def)

text \<open>Let \<open>F\<close> be the coalesced part of a tiling. An aligned block that meets no other part lies
  inside one block of \<open>F\<close>: otherwise the smallest block inside it would have its buddy beside it.\<close>

lemma coalesced_maximal:
  assumes t: "tiling N B" and c: "coalesced F" and a: "2 ^ K dvd j" "K \<le> MAX_ORDER" "j + 2 ^ K \<le> N"
    and F: "\<And>x. x \<in> B \<Longrightarrow> blk x \<inter> blk (j, K) \<noteq> {} \<Longrightarrow> x \<in> F"
  shows "\<exists>x \<in> F. blk (j, K) \<subseteq> blk x"
proof (rule ccontr)
  assume none: "\<not> ?thesis"
  have small: "m < K \<and> i div 2 ^ K = j div 2 ^ K" if b: "(i, m) \<in> B" "blk (i, m) \<inter> blk (j, K) \<noteq> {}" for i m
  proof -
    have al: "2 ^ m dvd i" using tiling_bound [OF t b(1)] by simp
    have "\<not> K \<le> m" using none b(2) F [OF b] blk_nested [OF a(1) al] by (auto simp: Int_commute)
    moreover from this have "blk (i, m) \<subseteq> blk (j, K)" using blk_nested [OF al a(1)] b(2) by simp
    then have "i \<in> blk (j, K)" by auto
    ultimately show ?thesis using blk_mem [OF a(1)] by simp
  qed
  define P where "P m = (\<exists>i. (i, m) \<in> B \<and> i \<in> blk (j, K))" for m
  have ex: "\<exists>m. P m"
  proof -
    have "j < N" using a(3) zero_less_power [of "2 :: nat" K] by linarith
    then obtain i m where b: "(i, m) \<in> B" "j \<in> blk (i, m)" using tiling_cover [OF t, of j] by auto
    then have "i div 2 ^ K = j div 2 ^ K" using small [of i m] blk_head [of j K] by blast
    then show ?thesis using b(1) blk_mem [OF a(1)] unfolding P_def by blast
  qed
  obtain i where i: "(i, Least P) \<in> B" "i \<in> blk (j, K)" using LeastI_ex [OF ex] unfolding P_def by blast
  let ?m = "Least P" let ?c = "buddy_index i ?m"
  have al: "2 ^ ?m dvd i" using tiling_bound [OF t i(1)] by simp
  have m: "?m < K" using small [OF i(1)] i(2) blk_head [of i ?m] by blast
  then have cj: "?c \<in> blk (j, K)" using buddy_same_parent [OF al m] i(2) blk_mem [OF a(1)] by simp
  then have "?c < N" using a(3) by (simp add: blk_def)
  then obtain k' where k': "k' \<le> ?m" "(?c, k') \<in> B" using buddy_is_head [OF t i(1)] by blast
  then have "P k'" using cj unfolding P_def by blast
  then have "k' = ?m" using k'(1) Least_le [of P k'] by simp
  moreover have "(i, ?m) \<in> F" using F [OF i(1)] i(2) blk_head [of i ?m] by blast
  moreover have "(?c, k') \<in> F" using F [OF k'(2)] cj blk_head [of ?c k'] by blast
  ultimately show False using c m a(2) by (auto simp: coalesced_def)
qed

text \<open>Hence there is only one coalesced tiling of a given size.\<close>

lemma coalesced_unique_half:
  assumes t: "tiling N B" "tiling N B'" and c: "coalesced B" "coalesced B'" and x: "x \<in> B"
  shows "x \<in> B'"
proof -
  obtain i k where ik: "x = (i, k)" by (cases x)
  have a: "2 ^ k dvd i" "k \<le> MAX_ORDER" "i + 2 ^ k \<le> N" using tiling_bound [OF t(1)] x ik by auto
  obtain y where y: "y \<in> B'" "blk x \<subseteq> blk y" using coalesced_maximal [OF t(2) c(2) a] ik by auto
  obtain j m where jm: "y = (j, m)" by (cases y)
  have a': "2 ^ m dvd j" "m \<le> MAX_ORDER" "j + 2 ^ m \<le> N" using tiling_bound [OF t(2)] y(1) jm by auto
  obtain z where z: "z \<in> B" "blk y \<subseteq> blk z" using coalesced_maximal [OF t(1) c(1) a'] jm by auto
  have "x = z" using tiling_disjoint [OF t(1) x z(1)] y(2) z(2) blk_head [of i k] ik by blast
  then have eq: "blk (i, k) = blk (j, m)" using y(2) z(2) ik jm by simp
  have "Min (blk (i, k)) = i" "card (blk (i, k)) = 2 ^ k" for i k by (auto simp: blk_def intro: Min_eqI)
  then have "i = j" "(2 :: nat) ^ k = 2 ^ m" using eq by metis+
  then show ?thesis using y(1) ik jm by simp
qed

lemma coalesced_unique: "\<lbrakk>tiling N B; tiling N B'; coalesced B; coalesced B'\<rbrakk> \<Longrightarrow> B = B'"
  using coalesced_unique_half [of N B B'] coalesced_unique_half [of N B' B] by blast

end
