(* ===== verification/Buddy_Inv.thy ===== *)
theory Buddy_Inv
  imports Buddy_Blocks
begin

text \<open>
  Correctness of the buddy allocator. The ghost map \<open>A\<close> records the blocks that are handed out and
  their orders; the code itself only keeps one bit per slot for them. \<open>buddy_inv A b\<close> says that the
  free lists and \<open>A\<close> tile the managed slots, that the bitmaps agree with the lists and with
  \<open>A\<close>, and that no two free buddies are left unmerged.
\<close>

definition FB :: "buddy \<Rightarrow> (nat \<times> nat) set" where
  "FB b = {(i, k). k < length (bd_free_lists b) \<and> i \<in> set (bd_free_lists b ! k)}"

definition AB :: "(nat \<rightharpoonup> nat) \<Rightarrow> (nat \<times> nat) set" where
  "AB A = {(i, k). A i = Some k}"

definition lists_ok :: "buddy \<Rightarrow> bool" where
  "lists_ok b \<longleftrightarrow> length (bd_free_lists b) = MAX_ORDER + 1
     \<and> (\<forall>k < MAX_ORDER + 1. distinct (bd_free_lists b ! k))
     \<and> (\<forall>k. bit (bd_free_bitmap b) k \<longleftrightarrow> k < MAX_ORDER + 1 \<and> bd_free_lists b ! k \<noteq> [])
     \<and> (\<forall>(i, k) \<in> FB b. unat (bd_node_order b i) = k)"

definition bits_ok :: "(nat \<rightharpoonup> nat) \<Rightarrow> buddy \<Rightarrow> bool" where
  "bits_ok A b \<longleftrightarrow> bit_set_inv (bd_allocated b) \<and> bs_size (bd_allocated b) = bd_total_slots b
     \<and> bit_set_abs (bd_allocated b) = dom A"

text \<open>The state inside an operation, with the blocks \<open>C\<close> in its hands.\<close>

definition buddy_state :: "(nat \<rightharpoonup> nat) \<Rightarrow> (nat \<times> nat) set \<Rightarrow> buddy \<Rightarrow> bool" where
  "buddy_state A C b \<longleftrightarrow> lists_ok b \<and> bits_ok A b \<and> tiling (bd_total_slots b) (C \<union> (FB b \<union> AB A))
     \<and> FB b \<inter> AB A = {} \<and> C \<inter> (FB b \<union> AB A) = {}"

definition buddy_inv :: "(nat \<rightharpoonup> nat) \<Rightarrow> buddy \<Rightarrow> bool" where
  "buddy_inv A b \<longleftrightarrow> buddy_state A {} b \<and> coalesced (FB b)"

lemma FB_order: "lists_ok b \<Longrightarrow> (i, k) \<in> FB b \<Longrightarrow> k \<le> MAX_ORDER \<and> unat (bd_node_order b i) = k"
  by (auto simp: lists_ok_def FB_def)

lemma bit_order: "bit (2 ^ k :: u32) n \<longleftrightarrow> n = k \<and> k < 32"
  by (auto simp: bit_simps)

lemma clear_if_empty_same [simp]:
  "bd_free_lists (clear_if_empty k b) = bd_free_lists b" "bd_node_order (clear_if_empty k b) = bd_node_order b"
  "bd_allocated (clear_if_empty k b) = bd_allocated b" "bd_total_slots (clear_if_empty k b) = bd_total_slots b"
  by (simp_all add: clear_if_empty_def)

lemma clear_if_empty_bit:
  "bit (bd_free_bitmap (clear_if_empty k b)) n
     \<longleftrightarrow> bit (bd_free_bitmap b) n \<and> \<not> (n = k \<and> k < 32 \<and> bd_free_lists b ! k = [])"
  by (auto simp: clear_if_empty_def bit_and_iff bit_not_iff bit_order dest: bit_imp_le_length)

subsection \<open>The list operations\<close>

lemma add_to_free_list_ok:
  assumes ok: "lists_ok b" and i: "i < bd_total_slots b" "\<And>k'. (i, k') \<notin> FB b" and k: "k \<le> MAX_ORDER"
  shows "\<exists>b'. add_to_free_list i k b = Some b' \<and> lists_ok b' \<and> FB b' = insert (i, k) (FB b)
           \<and> bd_allocated b' = bd_allocated b \<and> bd_total_slots b' = bd_total_slots b"
proof -
  let ?b = "b\<lparr>bd_node_order := (bd_node_order b)(i := of_nat k),
              bd_free_lists := (bd_free_lists b)[k := i # bd_free_lists b ! k],
              bd_free_bitmap := bd_free_bitmap b OR push_bit k 1\<rparr>"
  have len: "length (bd_free_lists b) = 19" "k < 19" using ok k by (auto simp: lists_ok_def MAX_ORDER_def)
  have u: "unat (of_nat k :: u8) = k" using len(2) by (simp add: unat_of_nat)
  have fb: "FB ?b = insert (i, k) (FB b)" using len by (auto simp: FB_def nth_list_update)
  have fresh: "i \<notin> set (bd_free_lists b ! k)" using i(2) [of k] len by (auto simp: FB_def)
  have "lists_ok ?b"
    unfolding lists_ok_def
  proof (intro conjI)
    show "\<forall>(i', k') \<in> FB ?b. unat (bd_node_order ?b i') = k'"
      using ok u i(2) unfolding fb by (auto simp: lists_ok_def split: if_splits)
    show "\<forall>n. bit (bd_free_bitmap ?b) n \<longleftrightarrow> n < MAX_ORDER + 1 \<and> bd_free_lists ?b ! n \<noteq> []"
      using ok len by (auto simp: lists_ok_def MAX_ORDER_def bit_or_iff bit_order nth_list_update)
    show "\<forall>k' < MAX_ORDER + 1. distinct (bd_free_lists ?b ! k')"
      using ok fresh len by (auto simp: lists_ok_def nth_list_update)
  qed (use len in \<open>simp add: MAX_ORDER_def\<close>)
  moreover have "add_to_free_list i k b = Some ?b" using i(1) len by (simp add: add_to_free_list_def ptr_from_index_def)
  ultimately show ?thesis using fb by simp
qed

lemma remove_from_free_list_ok:
  assumes ok: "lists_ok b" and i: "i < bd_total_slots b" "(i, k) \<in> FB b"
  shows "\<exists>b'. remove_from_free_list i k b = Some b' \<and> lists_ok b' \<and> FB b' = FB b - {(i, k)}
           \<and> bd_allocated b' = bd_allocated b \<and> bd_total_slots b' = bd_total_slots b"
proof -
  let ?b0 = "b\<lparr>bd_free_lists := (bd_free_lists b)[k := remove1 i (bd_free_lists b ! k)]\<rparr>"
  let ?b = "clear_if_empty k ?b0"
  have len: "length (bd_free_lists b) = 19" "k < 19" "i \<in> set (bd_free_lists b ! k)"
    using ok i(2) by (auto simp: lists_ok_def MAX_ORDER_def FB_def)
  have d: "distinct (bd_free_lists b ! k)" using ok len by (simp add: lists_ok_def MAX_ORDER_def)
  have fb: "FB ?b = FB b - {(i, k)}" using len d by (auto simp: FB_def nth_list_update)
  have "lists_ok ?b"
    unfolding lists_ok_def
  proof (intro conjI)
    show "\<forall>(i', k') \<in> FB ?b. unat (bd_node_order ?b i') = k'"
      using ok unfolding fb by (auto simp: lists_ok_def)
    show "\<forall>n. bit (bd_free_bitmap ?b) n \<longleftrightarrow> n < MAX_ORDER + 1 \<and> bd_free_lists ?b ! n \<noteq> []"
      using ok len by (auto simp: lists_ok_def MAX_ORDER_def clear_if_empty_bit nth_list_update)
    show "\<forall>k' < MAX_ORDER + 1. distinct (bd_free_lists ?b ! k')"
      using ok len by (auto simp: lists_ok_def nth_list_update)
  qed (use len in \<open>simp add: MAX_ORDER_def\<close>)
  moreover have "remove_from_free_list i k b = Some ?b"
    using i(1) len by (simp add: remove_from_free_list_def ptr_from_index_def)
  ultimately show ?thesis using fb by simp
qed

lemma bits_ok_cong: "bits_ok A b \<Longrightarrow> bd_allocated b' = bd_allocated b \<Longrightarrow> bd_total_slots b' = bd_total_slots b \<Longrightarrow> bits_ok A b'"
  by (simp add: bits_ok_def)

lemma lists_ok_allocated [simp]: "lists_ok (b\<lparr>bd_allocated := x\<rparr>) = lists_ok b" "FB (b\<lparr>bd_allocated := x\<rparr>) = FB b"
  by (simp_all add: lists_ok_def FB_def)

text \<open>No two blocks of a state share their first slot.\<close>

lemma state_head:
  assumes "buddy_state A {(i, k)} b"
  shows "(i, m) \<notin> FB b" "A i = None" "i < bd_total_slots b" "k \<le> MAX_ORDER" "2 ^ k dvd i"
proof -
  have t: "tiling (bd_total_slots b) ({(i, k)} \<union> (FB b \<union> AB A))" and d: "(i, k) \<notin> FB b" "(i, k) \<notin> AB A"
    using assms by (auto simp: buddy_state_def)
  show "(i, m) \<notin> FB b" using tiling_head [OF t, of i k m] d by auto
  show "A i = None"
  proof (cases "A i")
    case (Some m)
    then have "(i, m) \<in> AB A" by (simp add: AB_def)
    then show ?thesis using tiling_head [OF t, of i k m] d by auto
  qed
  show "i < bd_total_slots b" "k \<le> MAX_ORDER" "2 ^ k dvd i" using tiling_bound [OF t, of i k] by auto
qed

lemma FB_aligned: "buddy_state A C b \<Longrightarrow> \<forall>(j, m) \<in> FB b. 2 ^ m dvd j"
  using tiling_bound unfolding buddy_state_def by blast

text \<open>Freeing the block in hand.\<close>

lemma release_block:
  assumes st: "buddy_state A {(i, k)} b"
  shows "\<exists>b'. add_to_free_list i k b = Some b' \<and> buddy_state A {} b' \<and> FB b' = insert (i, k) (FB b)
           \<and> bd_total_slots b' = bd_total_slots b"
proof -
  note h = state_head [OF st]
  have ok: "lists_ok b" using st by (simp add: buddy_state_def)
  obtain b' where b': "add_to_free_list i k b = Some b'" "lists_ok b'" "FB b' = insert (i, k) (FB b)"
    "bd_allocated b' = bd_allocated b" "bd_total_slots b' = bd_total_slots b"
    using add_to_free_list_ok [OF ok h(3,1,4)] by blast
  have "bits_ok A b'" using st b'(4,5) by (auto simp: buddy_state_def bits_ok_def)
  then have "buddy_state A {} b'" using st b' by (auto simp: buddy_state_def)
  then show ?thesis using b' by blast
qed

subsection \<open>Allocation\<close>

text \<open>Halving the block in hand and freeing the upper half.\<close>

lemma split_step:
  assumes st: "buddy_state A {(i, Suc k)} b" and c: "coalesced (FB b)"
  shows "\<exists>b'. add_to_free_list (i + push_bit k 1) k b = Some b' \<and> buddy_state A {(i, k)} b'
           \<and> coalesced (FB b') \<and> bd_total_slots b' = bd_total_slots b"
proof -
  let ?j = "i + 2 ^ k"
  note h = state_head [OF st]
  have ok: "lists_ok b" and d: "(i, Suc k) \<notin> FB b \<union> AB A" using st by (auto simp: buddy_state_def)
  have "tiling (bd_total_slots b) (insert (i, Suc k) (FB b \<union> AB A))" using st by (simp add: buddy_state_def)
  note t = tiling_split [OF this d]
  have up: "?j < bd_total_slots b" "2 ^ k dvd ?j" using tiling_bound [OF t(1), of ?j k] by auto
  have fresh: "(?j, m) \<notin> FB b" for m using tiling_head [OF t(1), of ?j k m] t(3) by auto
  obtain b' where b': "add_to_free_list ?j k b = Some b'" "lists_ok b'" "FB b' = insert (?j, k) (FB b)"
    "bd_allocated b' = bd_allocated b" "bd_total_slots b' = bd_total_slots b"
    using add_to_free_list_ok [OF ok up(1) fresh, of k] h(4) by auto
  have "bits_ok A b'" using st b'(4,5) by (auto simp: buddy_state_def bits_ok_def)
  then have "buddy_state A {(i, k)} b'"
    using st b'(2,3,5) t by (auto simp: buddy_state_def insert_commute)
  moreover have "buddy_index i k = ?j"
    using buddy_index_aligned [of k i] h(5) by (auto simp: dvd_def)
  then have "buddy_index ?j k = i" using buddy_involution [of k i] h(5) by (metis dvd_mult_right power_Suc)
  then have "coalesced (FB b')"
    using coalesced_insert [OF c up(2)] h(1) [of k] FB_aligned [OF st] b'(3) by simp
  ultimately show ?thesis using b' by (auto simp: push_bit_eq_mult)
qed

lemma buddy_split_ok:
  "\<lbrakk>buddy_state A {(i, k)} b; coalesced (FB b); order \<le> k\<rbrakk>
     \<Longrightarrow> \<exists>b'. buddy_split i order k b = Some b' \<and> buddy_state A {(i, order)} b' \<and> coalesced (FB b')
           \<and> bd_total_slots b' = bd_total_slots b"
proof (induction k arbitrary: b)
  case (Suc k)
  show ?case
  proof (cases "order = Suc k")
    case False
    obtain b1 where b1: "add_to_free_list (i + push_bit k 1) k b = Some b1" "buddy_state A {(i, k)} b1"
      "coalesced (FB b1)" "bd_total_slots b1 = bd_total_slots b"
      using split_step [OF Suc.prems(1,2)] by blast
    then show ?thesis using Suc.IH [OF b1(2,3)] Suc.prems(3) False by (simp del: push_bit_of_1)
  qed (use Suc.prems in simp)
qed simp

text \<open>Marking the block in hand as handed out, and the converse.\<close>

lemma hand_out:
  assumes st: "buddy_state A {(i, k)} b"
  shows "\<exists>bits. bit_set_set i (bd_allocated b) = Some (bits, Inr ())
           \<and> buddy_state (A(i \<mapsto> k)) {} (b\<lparr>bd_allocated := bits\<rparr>)"
proof -
  note h = state_head [OF st]
  have bo: "bit_set_inv (bd_allocated b)" "bs_size (bd_allocated b) = bd_total_slots b" "bit_set_abs (bd_allocated b) = dom A"
    using st by (auto simp: buddy_state_def bits_ok_def)
  have "i < bs_size (bd_allocated b)" using bo(2) h(3) by simp
  then obtain bits where bits: "bit_set_set i (bd_allocated b) = Some (bits, Inr ())" "bit_set_inv bits"
    "bs_size bits = bd_total_slots b" "bit_set_abs bits = insert i (dom A)"
    using bits.set_law [OF bo(1)] bo(2,3) by metis
  have ab: "AB (A(i \<mapsto> k)) = insert (i, k) (AB A)" using h(2) by (auto simp: AB_def split: if_splits)
  have "buddy_state (A(i \<mapsto> k)) {} (b\<lparr>bd_allocated := bits\<rparr>)"
    using st bits(2-4) unfolding buddy_state_def bits_ok_def ab by auto
  then show ?thesis using bits(1) by blast
qed

lemma take_back:
  assumes st: "buddy_state A {} b" and a: "A i = Some k"
  shows "\<exists>bits. bit_set_clear i (bd_allocated b) = Some (bits, Inr ())
           \<and> buddy_state (A(i := None)) {(i, k)} (b\<lparr>bd_allocated := bits\<rparr>)"
proof -
  have ab: "AB A = insert (i, k) (AB (A(i := None)))" "(i, k) \<notin> AB (A(i := None))" using a by (auto simp: AB_def split: if_splits)
  have t: "tiling (bd_total_slots b) (FB b \<union> AB A)" using st by (simp add: buddy_state_def)
  have bo: "bit_set_inv (bd_allocated b)" "bs_size (bd_allocated b) = bd_total_slots b" "bit_set_abs (bd_allocated b) = dom A"
    using st by (auto simp: buddy_state_def bits_ok_def)
  have "i < bs_size (bd_allocated b)" using tiling_bound [OF t, of i k] ab(1) bo(2) by simp
  then obtain bits where bits: "bit_set_clear i (bd_allocated b) = Some (bits, Inr ())" "bit_set_inv bits"
    "bs_size bits = bd_total_slots b" "bit_set_abs bits = dom A - {i}"
    using bits.clear_law [OF bo(1)] bo(2,3) by metis
  have "buddy_state (A(i := None)) {(i, k)} (b\<lparr>bd_allocated := bits\<rparr>)"
    using st bits(2-4) ab unfolding buddy_state_def bits_ok_def by auto
  then show ?thesis using bits(1) by blast
qed

text \<open>The candidate mask selects the smallest non-empty order that is large enough.\<close>

lemma mask_bit: "k < 32 \<Longrightarrow> bit (NOT (push_bit k 1 - 1) :: u32) n \<longleftrightarrow> n < 32 \<and> k \<le> n"
proof -
  assume k: "k < 32"
  have "(push_bit k 1 - 1 :: u32) = mask k" by (simp add: mask_eq_exp_minus_1)
  then show ?thesis using k by (auto simp: bit_not_iff bit_mask_iff)
qed

lemma trailing_zeros_least:
  assumes "w \<noteq> 0"
  shows "bit w (trailing_zeros w) \<and> (\<forall>n. bit w n \<longrightarrow> trailing_zeros w \<le> n)"
proof -
  obtain n where n: "bit w n" using assms by (auto simp: bit_eq_iff)
  then have "n < 32" using bit_imp_le_length [of w n] by simp
  then have "find (bit w) [0..<32] \<noteq> None" using n by (auto simp: find_None_iff)
  then obtain m where m: "find (bit w) [0..<32] = Some m" by auto
  then obtain i where i: "i < 32" "bit w ([0..<32] ! i)" "m = [0..<32] ! i" "\<And>j. j < i \<Longrightarrow> \<not> bit w ([0..<32] ! j)"
    by (auto simp: find_Some_iff)
  then have "m = i" by simp
  moreover have "\<not> bit w j" if "j < i" for j using i(1) i(4) [of j] that by simp
  ultimately show ?thesis using i(1,2) m by (auto simp: trailing_zeros_def not_less [symmetric])
qed

lemma candidates_bit:
  assumes ok: "lists_ok b" and o: "order \<le> MAX_ORDER"
  shows "bit (bd_free_bitmap b AND NOT (push_bit order 1 - 1)) n \<longleftrightarrow> order \<le> n \<and> (\<exists>i. (i, n) \<in> FB b)"
proof -
  have "(\<exists>i. (i, n) \<in> FB b) \<longleftrightarrow> n < length (bd_free_lists b) \<and> bd_free_lists b ! n \<noteq> []"
    by (auto simp: FB_def ex_in_conv)
  also have "\<dots> \<longleftrightarrow> bit (bd_free_bitmap b) n" using ok by (simp add: lists_ok_def)
  finally have "(\<exists>i. (i, n) \<in> FB b) \<longleftrightarrow> bit (bd_free_bitmap b) n" .
  moreover have "order < 32" using o by (simp add: MAX_ORDER_def)
  ultimately show ?thesis using mask_bit [of order n] bit_imp_le_length [of "bd_free_bitmap b" n] by (auto simp: bit_and_iff)
qed

text \<open>The successful branch.\<close>

lemma buddy_alloc_some:
  assumes inv: "buddy_inv A b" and o: "order \<le> MAX_ORDER" and f: "(j, k) \<in> FB b" "order \<le> k"
  shows "\<exists>b' i f. buddy_alloc order b = Some (b', Some i) \<and> buddy_inv (A(i \<mapsto> order)) b' \<and> A i = None
           \<and> bd_total_slots b' = bd_total_slots b
           \<and> (i, f) \<in> FB b \<and> order \<le> f \<and> (\<forall>(j, k) \<in> FB b. order \<le> k \<longrightarrow> f \<le> k)"
proof -
  let ?w = "bd_free_bitmap b AND NOT (push_bit order 1 - 1)"
  let ?f = "trailing_zeros ?w"
  have st: "buddy_state A {} b" and c: "coalesced (FB b)" and ok: "lists_ok b"
    using inv by (auto simp: buddy_inv_def buddy_state_def)
  note cand = candidates_bit [OF ok o]
  have w: "?w \<noteq> 0" using cand [of k] f by (metis bit_0_eq bot_apply bot_bool_def)
  have least: "order \<le> ?f" "\<exists>i. (i, ?f) \<in> FB b" "\<And>j k. (j, k) \<in> FB b \<Longrightarrow> order \<le> k \<Longrightarrow> ?f \<le> k"
    using trailing_zeros_least [OF w] cand by blast+
  then have len: "?f < length (bd_free_lists b)" "bd_free_lists b ! ?f \<noteq> []" by (auto simp: FB_def)
  then obtain i rest where ir: "bd_free_lists b ! ?f = i # rest" by (meson neq_Nil_conv)
  let ?b1 = "clear_if_empty ?f (b\<lparr>bd_free_lists := (bd_free_lists b)[?f := rest]\<rparr>)"
  have i: "(i, ?f) \<in> FB b" using len ir by (simp add: FB_def)
  have t: "tiling (bd_total_slots b) (FB b \<union> AB A)" and d: "FB b \<inter> AB A = {}" using st by (auto simp: buddy_state_def)
  have il: "i < bd_total_slots b" using tiling_bound [OF t, of i ?f] i by simp
  have "remove_from_free_list i ?f b = Some ?b1"
    using il len ir by (simp add: remove_from_free_list_def ptr_from_index_def)
  then have b1: "lists_ok ?b1" "FB ?b1 = FB b - {(i, ?f)}" "bd_allocated ?b1 = bd_allocated b" "bd_total_slots ?b1 = bd_total_slots b"
    using remove_from_free_list_ok [OF ok il i] by simp_all
  have "insert (i, ?f) (FB ?b1 \<union> AB A) = FB b \<union> AB A" using i unfolding b1(2) by blast
  then have st1: "buddy_state A {(i, ?f)} ?b1"
    using st b1(1) i d unfolding buddy_state_def bits_ok_def b1(2-4) by auto
  have c1: "coalesced (FB ?b1)" using coalesced_subset [OF c] unfolding b1(2) by blast
  obtain b2 where b2: "buddy_split i order ?f ?b1 = Some b2" "buddy_state A {(i, order)} b2" "coalesced (FB b2)"
    "bd_total_slots b2 = bd_total_slots b"
    using buddy_split_ok [OF st1 c1 least(1)] b1(4) by auto
  obtain bits where bits: "bit_set_set i (bd_allocated b2) = Some (bits, Inr ())"
    "buddy_state (A(i \<mapsto> order)) {} (b2\<lparr>bd_allocated := bits\<rparr>)"
    using hand_out [OF b2(2)] by blast
  have "buddy_alloc order b = Some (b2\<lparr>bd_allocated := bits\<rparr>, Some i)"
    using o w len ir b2(1) bits(1) by (simp add: buddy_alloc_def Let_def del: push_bit_of_1)
  moreover have "buddy_inv (A(i \<mapsto> order)) (b2\<lparr>bd_allocated := bits\<rparr>)" using bits(2) b2(3) by (simp add: buddy_inv_def)
  moreover have "A i = None" using state_head(2) [OF b2(2)] .
  ultimately show ?thesis using i least(1,3) b2(4) by fastforce
qed

lemma buddy_alloc_none:
  assumes inv: "buddy_inv A b" and none: "\<And>j k. (j, k) \<in> FB b \<Longrightarrow> order \<le> k \<Longrightarrow> MAX_ORDER < order"
  shows "buddy_alloc order b = Some (b, None)"
proof (cases "MAX_ORDER < order")
  case False
  have ok: "lists_ok b" using inv by (auto simp: buddy_inv_def buddy_state_def)
  have "\<not> bit (bd_free_bitmap b AND NOT (push_bit order 1 - 1)) n" for n
    using candidates_bit [OF ok, of order n] none False by (auto simp: not_less)
  then have "bd_free_bitmap b AND NOT (push_bit order 1 - 1) = 0" by (simp add: bit_eq_iff)
  then show ?thesis using False by (simp add: buddy_alloc_def)
qed (simp add: buddy_alloc_def)

subsection \<open>Deallocation\<close>

text \<open>The bit of the buddy decides between the three exits of the merge loop: a clear bit below the
  size means that the buddy is the head of a free block, so that its node can be read.\<close>

lemma free_buddy:
  assumes st: "buddy_state A {(i, k)} b" and lt: "buddy_index i k < bd_total_slots b" and a: "A (buddy_index i k) = None"
  shows "\<exists>k' \<le> k. (buddy_index i k, k') \<in> FB b"
proof -
  let ?c = "buddy_index i k"
  have t: "tiling (bd_total_slots b) ({(i, k)} \<union> (FB b \<union> AB A))" using st by (simp add: buddy_state_def)
  obtain k' where k': "k' \<le> k" "(?c, k') \<in> {(i, k)} \<union> (FB b \<union> AB A)" using buddy_is_head [OF t _ lt] by blast
  moreover have "?c \<noteq> i" using buddy_involution state_head(5) [OF st] by blast
  moreover have "(?c, k') \<notin> AB A" using a by (simp add: AB_def)
  ultimately show ?thesis by blast
qed

text \<open>Joining the block in hand with its free buddy.\<close>

lemma merge_step:
  assumes st: "buddy_state A {(i, k)} b" and c: "(buddy_index i k, k) \<in> FB b" and k: "k < MAX_ORDER"
  shows "\<exists>b'. remove_from_free_list (buddy_index i k) k b = Some b'
           \<and> buddy_state A {(min (buddy_index i k) i, Suc k)} b' \<and> FB b' \<subseteq> FB b \<and> bd_total_slots b' = bd_total_slots b"
proof -
  let ?c = "buddy_index i k"
  let ?p = "min ?c i"
  note h = state_head [OF st]
  have ok: "lists_ok b" and t: "tiling (bd_total_slots b) ({(i, k)} \<union> (FB b \<union> AB A))"
    and d: "FB b \<inter> AB A = {}" "(i, k) \<notin> FB b" "(i, k) \<notin> AB A"
    using st by (auto simp: buddy_state_def)
  have lt: "?c < bd_total_slots b" using tiling_bound [OF t, of ?c k] c by simp
  obtain b' where b': "remove_from_free_list ?c k b = Some b'" "lists_ok b'" "FB b' = FB b - {(?c, k)}"
    "bd_allocated b' = bd_allocated b" "bd_total_slots b' = bd_total_slots b"
    using remove_from_free_list_ok [OF ok lt c] by blast
  have pair: "{(i, k), (?c, k)} = {(?p, k), (?p + 2 ^ k, k)}" "2 ^ Suc k dvd ?p"
    using h(5) by (cases rule: buddy_cases; auto simp: min_def)+
  let ?B = "FB b' \<union> AB A"
  have nB: "(i, k) \<notin> ?B" "(?c, k) \<notin> ?B" using d c unfolding b'(3) by auto
  have "{(i, k)} \<union> (FB b \<union> AB A) = {(i, k), (?c, k)} \<union> ?B" using c unfolding b'(3) by blast
  then have "tiling (bd_total_slots b) ({(?p, k), (?p + 2 ^ k, k)} \<union> ?B)" using t pair(1) by simp
  then have t1: "tiling (bd_total_slots b) (insert (?p, k) (insert (?p + 2 ^ k, k) ?B))" by simp
  have "{(?p, k), (?p + 2 ^ k, k)} \<inter> ?B = {}" using nB unfolding pair(1) [symmetric] by simp
  then have nB': "(?p, k) \<notin> ?B" "(?p + 2 ^ k, k) \<notin> ?B" by simp_all
  note m = tiling_merge [OF t1 nB' pair(2)]
  have "bits_ok A b'" using st b'(4,5) by (auto simp: buddy_state_def bits_ok_def)
  then have "buddy_state A {(?p, Suc k)} b'"
    using m k d(1) b'(2,3,5) by (auto simp: buddy_state_def)
  then show ?thesis using b' by blast
qed

lemma buddy_merge_ok:
  "\<lbrakk>buddy_state A {(i, k)} b; coalesced (FB b)\<rbrakk>
     \<Longrightarrow> \<exists>b' i' k'. buddy_merge i k b = Some (b', i', k') \<and> buddy_state A {(i', k')} b' \<and> coalesced (FB b')
           \<and> (k' < MAX_ORDER \<longrightarrow> (buddy_index i' k', k') \<notin> FB b') \<and> bd_total_slots b' = bd_total_slots b"
proof (induction i k b rule: buddy_merge.induct)
  case (1 i k b)
  note st = 1(2) and c = 1(3)
  let ?c = "buddy_index i k"
  have ok: "lists_ok b" and t: "tiling (bd_total_slots b) ({(i, k)} \<union> (FB b \<union> AB A))"
    and bo: "bit_set_inv (bd_allocated b)" "bs_size (bd_allocated b) = bd_total_slots b" "bit_set_abs (bd_allocated b) = dom A"
    using st by (auto simp: buddy_state_def bits_ok_def)
  have get: "bit_set_get ?c (bd_allocated b)
      = Some (if ?c < bd_total_slots b then Inr (?c \<in> dom A) else Inl (OutOfBounds ?c (bd_total_slots b)))"
    using bits.get_law [OF bo(1)] bo(2,3) by simp
  have bound: "(?c, m) \<in> FB b \<Longrightarrow> ?c < bd_total_slots b" for m using tiling_bound [OF t, of ?c m] by simp
  have notA: "(?c, m) \<in> FB b \<Longrightarrow> A ?c = None" for m
  proof -
    assume f: "(?c, m) \<in> FB b"
    have d: "FB b \<inter> AB A = {}" using st by (simp add: buddy_state_def)
    show ?thesis
    proof (cases "A ?c")
      case (Some n)
      then have "(?c, n) \<in> AB A" by (simp add: AB_def)
      then show ?thesis using tiling_head [OF t, of ?c m n] f d by auto
    qed
  qed
  show ?case
  proof (cases "k < MAX_ORDER \<and> (?c, k) \<in> FB b")
    case True
    have order: "unat (bd_node_order b ?c) = k" using FB_order [OF ok] True by blast
    obtain b' where b': "remove_from_free_list ?c k b = Some b'" "buddy_state A {(min ?c i, Suc k)} b'"
      "FB b' \<subseteq> FB b" "bd_total_slots b' = bd_total_slots b"
      using merge_step [OF st] True by blast
    have g: "bit_set_get ?c (bd_allocated b) = Some (Inr False)" and p: "ptr_from_index ?c b = Some ?c"
      using get bound notA True by (auto simp: ptr_from_index_def dom_def)
    have m: "(if ?c < i then ?c else i) = min ?c i" by simp
    have "buddy_merge i k b = buddy_merge (min ?c i) (Suc k) b'"
      using True order g p b'(1) m by (subst buddy_merge.simps) (simp add: Let_def)
    moreover note 1(1) [OF _ refl g refl refl p _ b'(1)]
    ultimately show ?thesis using True order b' coalesced_subset [OF c b'(3)] m by auto
  next
    case False
    have "buddy_merge i k b = Some (b, i, k)"
    proof (cases "k < MAX_ORDER")
      case lt: True
      show ?thesis
      proof (cases "?c < bd_total_slots b \<and> A ?c = None")
        case True
        then obtain k' where k': "(?c, k') \<in> FB b" using free_buddy [OF st] by blast
        then have "unat (bd_node_order b ?c) = k'" using FB_order [OF ok] by blast
        moreover have "k' \<noteq> k" using False lt k' by blast
        ultimately show ?thesis
          using True get by (subst buddy_merge.simps) (auto simp: Let_def ptr_from_index_def dom_def)
      next
        case False
        then show ?thesis using get by (subst buddy_merge.simps) (auto simp: Let_def dom_def)
      qed
    qed (subst buddy_merge.simps, simp)
    then show ?thesis using st c False by auto
  qed
qed

lemma buddy_dealloc_ok:
  assumes inv: "buddy_inv A b" and a: "A i = Some k"
  shows "\<exists>b'. buddy_dealloc i k b = Some (b', Inr ()) \<and> buddy_inv (A(i := None)) b' \<and> bd_total_slots b' = bd_total_slots b"
proof -
  have st: "buddy_state A {} b" and c: "coalesced (FB b)" using inv by (auto simp: buddy_inv_def)
  obtain bits where bits: "bit_set_clear i (bd_allocated b) = Some (bits, Inr ())"
    "buddy_state (A(i := None)) {(i, k)} (b\<lparr>bd_allocated := bits\<rparr>)"
    using take_back [OF st a] by blast
  obtain b1 j m where b1: "buddy_merge i k (b\<lparr>bd_allocated := bits\<rparr>) = Some (b1, j, m)"
    "buddy_state (A(i := None)) {(j, m)} b1" "coalesced (FB b1)"
    "m < MAX_ORDER \<longrightarrow> (buddy_index j m, m) \<notin> FB b1" "bd_total_slots b1 = bd_total_slots b"
    using buddy_merge_ok [OF bits(2)] c by auto
  obtain b2 where b2: "add_to_free_list j m b1 = Some b2" "buddy_state (A(i := None)) {} b2"
    "FB b2 = insert (j, m) (FB b1)" "bd_total_slots b2 = bd_total_slots b1"
    using release_block [OF b1(2)] by blast
  have "coalesced (FB b2)"
    using coalesced_insert [OF b1(3) state_head(5) [OF b1(2)]] b1(4) FB_aligned [OF b1(2)] b2(3) by auto
  moreover have "i < bd_total_slots b" using state_head(3) [OF bits(2)] by simp
  then have "bit_set_get i (bd_allocated b) = Some (Inr True)"
    using st a by (auto simp: buddy_state_def bits_ok_def bits.get_law)
  then have "buddy_dealloc i k b = Some (b2, Inr ())" using bits(1) b1(1) b2(1) by (simp add: buddy_dealloc_def)
  ultimately show ?thesis using b2 b1(5) by (auto simp: buddy_inv_def)
qed

lemma buddy_dealloc_err:
  assumes inv: "buddy_inv A b" and a: "A i = None"
  shows "buddy_dealloc i k b = Some (b, Inl (if i < bd_total_slots b then DoubleFree else InvalidFree))"
  using inv a by (auto simp: buddy_inv_def buddy_state_def bits_ok_def buddy_dealloc_def bits.get_law dom_def)

subsection \<open>The fresh allocator\<close>

lemma init_free_blocks_ok:
  "\<lbrakk>lists_ok b; coalesced (FB b); tiling s (FB b); bd_total_slots b = s + r;
    0 < r \<longrightarrow> 2 ^ min (ilog2 r) MAX_ORDER dvd s; \<forall>(i, k) \<in> FB b. k < MAX_ORDER \<longrightarrow> r < 2 ^ k\<rbrakk>
     \<Longrightarrow> \<exists>b'. init_free_blocks s r b = Some b' \<and> lists_ok b' \<and> coalesced (FB b') \<and> tiling (s + r) (FB b')
           \<and> bd_allocated b' = bd_allocated b \<and> bd_total_slots b' = bd_total_slots b"
proof (induction s r b rule: init_free_blocks.induct)
  case (1 s r b)
  note pre = 1(2-)
  show ?case
  proof (cases "r = 0")
    case True
    then show ?thesis using pre by (subst init_free_blocks.simps) simp
  next
    case False
    let ?k = "min (ilog2 r) MAX_ORDER"
    let ?r = "r - 2 ^ ?k"
    have lb: "2 ^ ilog2 r \<le> r" "r < 2 ^ Suc (ilog2 r)" using ilog2_bounds [of r] False by auto
    have "(2 :: nat) ^ ?k \<le> 2 ^ ilog2 r" by (rule power_increasing) auto
    then have le: "2 ^ ?k \<le> r" using lb(1) by linarith
    have al: "2 ^ ?k dvd s" using pre(5) False by simp
    note ext = tiling_extend [OF pre(3) al min.cobounded2]
    obtain b' where b': "add_to_free_list s ?k b = Some b'" "lists_ok b'" "FB b' = insert (s, ?k) (FB b)"
      "bd_allocated b' = bd_allocated b" "bd_total_slots b' = bd_total_slots b"
      using add_to_free_list_ok [OF pre(1) _ ext(2), of ?k] pre(4) False by auto
    have sm: "?k < MAX_ORDER \<Longrightarrow> ?r < 2 ^ ?k" using lb by (simp add: min_def split: if_splits)
    have c: "coalesced (FB b')"
    proof -
      have "?k < MAX_ORDER \<Longrightarrow> (buddy_index s ?k, ?k) \<notin> FB b" using pre(6) le by fastforce
      then show ?thesis using coalesced_insert [OF pre(2) al] tiling_bound [OF pre(3)] b'(3) by auto
    qed
    have dv: "2 ^ min (ilog2 ?r) MAX_ORDER dvd s + 2 ^ ?k" if r: "0 < ?r"
    proof -
      have "min (ilog2 ?r) MAX_ORDER \<le> ?k"
      proof (cases "?k < MAX_ORDER")
        case True
        then have "(2 :: nat) ^ ilog2 ?r < 2 ^ ?k" using sm ilog2_bounds [OF r] by linarith
        then show ?thesis by (simp add: power_strict_increasing_iff)
      qed simp
      then show ?thesis using al by (meson dvd_add dvd_refl dvd_trans le_imp_power_dvd)
    qed
    have old: "\<forall>(i, m) \<in> FB b'. m < MAX_ORDER \<longrightarrow> ?r < 2 ^ m"
      using pre(6) sm unfolding b'(3) by fastforce
    have "tiling (s + 2 ^ ?k) (FB b')" "bd_total_slots b' = s + 2 ^ ?k + ?r" using ext(1) b'(3,5) pre(4) le by simp_all
    then obtain b'' where "init_free_blocks (s + 2 ^ ?k) ?r b' = Some b''" "lists_ok b''" "coalesced (FB b'')"
      "tiling (s + 2 ^ ?k + ?r) (FB b'')" "bd_allocated b'' = bd_allocated b'" "bd_total_slots b'' = bd_total_slots b'"
      using 1(1) [OF False refl b'(1) b'(2) c] dv old by blast
    then show ?thesis using False b' le by (subst init_free_blocks.simps) (simp add: Let_def)
  qed
qed

lemma buddy_new_ok:
  assumes "SLOT_SIZE \<le> len"
  shows "\<exists>b. buddy_new len = Some b \<and> buddy_inv Map.empty b \<and> bd_total_slots b = len div SLOT_SIZE"
proof -
  let ?n = "len div SLOT_SIZE"
  let ?b = "\<lparr>bd_free_lists = replicate (MAX_ORDER + 1) [], bd_free_bitmap = 0,
                 bd_allocated = bit_set_new ?n, bd_total_slots = ?n, bd_node_order = (\<lambda>_. 0)\<rparr>"
  have e: "FB ?b = {}" "AB Map.empty = {}" by (auto simp: FB_def AB_def nth_append simp del: replicate_Suc)
  have "lists_ok ?b" unfolding lists_ok_def e(1) by (auto simp del: replicate_Suc)
  moreover have "coalesced (FB ?b)" "tiling 0 (FB ?b)" unfolding e by (auto simp: coalesced_def tiling_def)
  ultimately obtain b where b: "init_free_blocks 0 ?n ?b = Some b" "lists_ok b" "coalesced (FB b)" "tiling ?n (FB b)"
    "bd_allocated b = bit_set_new ?n" "bd_total_slots b = ?n"
    using init_free_blocks_ok [of ?b 0 ?n] e(1) by auto
  have "buddy_inv Map.empty b"
    using b bit_set_new_abs [of ?n] e(2) by (auto simp: buddy_inv_def buddy_state_def bits_ok_def)
  then show ?thesis using b(1,6) assms by (auto simp: buddy_new_def Let_def)
qed

subsection \<open>Reachable heaps\<close>

text \<open>Every history of a heap of \<open>len\<close> bytes: allocations, frees by the owner (who passes the order
  of its block, as the contract of \<^verbatim>\<open>dealloc\<close> asks), frees of an index that is not the head of an
  allocated block, and writes of an owner into the slots of its block, which may hit the memory
  that holds a free node later.\<close>

inductive buddy_reach :: "nat \<Rightarrow> (nat \<rightharpoonup> nat) \<Rightarrow> buddy \<Rightarrow> bool" for len where
  fresh: "buddy_new len = Some b \<Longrightarrow> buddy_reach len Map.empty b"
| alloc: "\<lbrakk>buddy_reach len A b; buddy_alloc order b = Some (b', Some i)\<rbrakk> \<Longrightarrow> buddy_reach len (A(i \<mapsto> order)) b'"
| alloc_none: "\<lbrakk>buddy_reach len A b; buddy_alloc order b = Some (b', None)\<rbrakk> \<Longrightarrow> buddy_reach len A b'"
| free: "\<lbrakk>buddy_reach len A b; A i = Some order; buddy_dealloc i order b = Some (b', r)\<rbrakk> \<Longrightarrow> buddy_reach len (A(i := None)) b'"
| bad_free: "\<lbrakk>buddy_reach len A b; A i = None; buddy_dealloc i order b = Some (b', r)\<rbrakk> \<Longrightarrow> buddy_reach len A b'"
| owner_write: "\<lbrakk>buddy_reach len A b; A i = Some order; x \<in> blk (i, order)\<rbrakk>
    \<Longrightarrow> buddy_reach len A (b\<lparr>bd_node_order := (bd_node_order b)(x := v)\<rparr>)"

lemma owner_write_inv:
  assumes inv: "buddy_inv A b" and a: "A i = Some k" "x \<in> blk (i, k)"
  shows "buddy_inv A (b\<lparr>bd_node_order := (bd_node_order b)(x := v)\<rparr>)"
proof -
  let ?b = "b\<lparr>bd_node_order := (bd_node_order b)(x := v)\<rparr>"
  have t: "tiling (bd_total_slots b) (FB b \<union> AB A)" and d: "FB b \<inter> AB A = {}" and ok: "lists_ok b"
    using inv by (auto simp: buddy_inv_def buddy_state_def)
  have fb: "FB ?b = FB b" by (simp add: FB_def)
  have ab: "(i, k) \<in> AB A" using a(1) by (simp add: AB_def)
  have "(x, m) \<notin> FB b" for m
  proof
    assume f: "(x, m) \<in> FB b"
    then have "(x, m) \<noteq> (i, k)" using d ab by auto
    then show False using tiling_disjoint [OF t, of "(x, m)" "(i, k)"] f ab a(2) blk_head [of x m] by blast
  qed
  then have "\<forall>(j, m) \<in> FB ?b. unat (bd_node_order ?b j) = m" using ok unfolding fb by (auto simp: lists_ok_def)
  then have "lists_ok ?b" using ok by (simp add: lists_ok_def)
  then show ?thesis using inv fb by (simp add: buddy_inv_def buddy_state_def bits_ok_def)
qed

lemma buddy_alloc_result:
  assumes inv: "buddy_inv A b" and r: "buddy_alloc order b = Some (b', r)"
  shows "(r = None \<longrightarrow> b' = b) \<and> (\<forall>i. r = Some i \<longrightarrow> buddy_inv (A(i \<mapsto> order)) b') \<and> bd_total_slots b' = bd_total_slots b"
proof (cases "\<exists>j k. (j, k) \<in> FB b \<and> order \<le> k \<and> order \<le> MAX_ORDER")
  case True
  then show ?thesis using buddy_alloc_some [OF inv] r by fastforce
next
  case False
  then have "buddy_alloc order b = Some (b, None)" using buddy_alloc_none [OF inv] not_le by metis
  then show ?thesis using r by simp
qed

lemma buddy_reach_inv: "buddy_reach len A b \<Longrightarrow> buddy_inv A b \<and> bd_total_slots b = len div SLOT_SIZE"
proof (induction rule: buddy_reach.induct)
  case (fresh b)
  then have "SLOT_SIZE \<le> len" by (simp add: buddy_new_def split: if_splits)
  then show ?case using buddy_new_ok fresh by fastforce
next
  case (alloc A b order b' i)
  then show ?case using buddy_alloc_result [of A b order b' "Some i"] by (simp add: fun_upd_def)
next
  case (alloc_none A b order b')
  then show ?case using buddy_alloc_result [of A b order b' None] by simp
next
  case (free A b i order b' r)
  then show ?case using buddy_dealloc_ok [of A b i order] by (auto simp: fun_upd_def)
next
  case (bad_free A b i order b' r)
  then show ?case using buddy_dealloc_err by fastforce
next
  case (owner_write A b i order x v)
  then show ?case using owner_write_inv by auto
qed

lemma free_run_in_block:
  assumes inv: "buddy_inv A b" and a: "2 ^ k dvd j" "k \<le> MAX_ORDER" "j + 2 ^ k \<le> bd_total_slots b"
    and f: "\<forall>x \<in> AB A. blk x \<inter> blk (j, k) = {}"
  shows "\<exists>i m. (i, m) \<in> FB b \<and> k \<le> m"
proof -
  have t: "tiling (bd_total_slots b) (FB b \<union> AB A)" and c: "coalesced (FB b)"
    using inv by (auto simp: buddy_inv_def buddy_state_def)
  have "\<exists>x \<in> FB b. blk (j, k) \<subseteq> blk x" by (rule coalesced_maximal [OF t c a]) (use f in blast)
  then obtain i m where x: "(i, m) \<in> FB b" "blk (j, k) \<subseteq> blk (i, m)" by auto
  have "card (blk (j, k)) \<le> card (blk (i, m))" using x(2) by (intro card_mono) (simp_all add: blk_def)
  then have "(2 :: nat) ^ k \<le> 2 ^ m" by (simp add: blk_def)
  then show ?thesis using x(1) by auto
qed

text \<open>C39. Allocation is correct and complete. On every reachable heap a request of order \<open>order\<close> is
  served exactly when some aligned run of \<open>2 ^ order\<close> slots is disjoint from all blocks that are
  handed out; the result is such a run, it comes from the smallest free block that can serve the
  request, and a request that cannot be served leaves the heap unchanged. In particular no assertion
  fails, no empty list is popped and fragmentation by unmerged buddies never refuses a request.\<close>

theorem buddy_alloc_correct:
  assumes "buddy_reach len A b"
  shows "if order \<le> MAX_ORDER \<and> (\<exists>j. 2 ^ order dvd j \<and> j + 2 ^ order \<le> len div SLOT_SIZE
                                    \<and> (\<forall>x \<in> AB A. blk x \<inter> blk (j, order) = {}))
     then \<exists>b' i f. buddy_alloc order b = Some (b', Some i) \<and> 2 ^ order dvd i \<and> i + 2 ^ order \<le> len div SLOT_SIZE
            \<and> (\<forall>x \<in> AB A. blk x \<inter> blk (i, order) = {})
            \<and> (i, f) \<in> FB b \<and> order \<le> f \<and> (\<forall>(j, k) \<in> FB b. order \<le> k \<longrightarrow> f \<le> k)
     else buddy_alloc order b = Some (b, None)"
proof -
  have inv: "buddy_inv A b" and n: "bd_total_slots b = len div SLOT_SIZE" using buddy_reach_inv [OF assms] by auto
  show ?thesis
  proof (cases "order \<le> MAX_ORDER \<and> (\<exists>j k. (j, k) \<in> FB b \<and> order \<le> k)")
    case True
    then obtain b' i f where r: "buddy_alloc order b = Some (b', Some i)" "buddy_inv (A(i \<mapsto> order)) b'" "A i = None"
      "bd_total_slots b' = bd_total_slots b" "(i, f) \<in> FB b" "order \<le> f" "\<forall>(j, k) \<in> FB b. order \<le> k \<longrightarrow> f \<le> k"
      using buddy_alloc_some [OF inv] by blast
    have t: "tiling (bd_total_slots b') (FB b' \<union> AB (A(i \<mapsto> order)))" using r(2) by (simp add: buddy_inv_def buddy_state_def)
    have m: "(i, order) \<in> AB (A(i \<mapsto> order))" "AB A \<subseteq> AB (A(i \<mapsto> order))" "(i, k) \<notin> AB A" for k using r(3) by (auto simp: AB_def)
    have run: "2 ^ order dvd i" "i + 2 ^ order \<le> len div SLOT_SIZE" using tiling_bound [OF t, of i order] m(1) r(4) n by auto
    have "\<forall>x \<in> AB A. blk x \<inter> blk (i, order) = {}"
      using tiling_disjoint [OF t, of _ "(i, order)"] m by blast
    then show ?thesis using r(1,5,6,7) run True by (subst if_P) blast+
  next
    case False
    then have "buddy_alloc order b = Some (b, None)" using buddy_alloc_none [OF inv] not_le by metis
    moreover have "\<not> (order \<le> MAX_ORDER \<and> (\<exists>j. 2 ^ order dvd j \<and> j + 2 ^ order \<le> len div SLOT_SIZE
                                    \<and> (\<forall>x \<in> AB A. blk x \<inter> blk (j, order) = {})))"
      using False free_run_in_block [OF inv] n by metis
    ultimately show ?thesis by (simp only: if_False)
  qed
qed

text \<open>C40. Freeing is correct on every branch: the owner's free succeeds, every other index is refused
  with \<^verbatim>\<open>DoubleFree\<close> below the size of the heap and \<^verbatim>\<open>InvalidFree\<close> past it, and a refused
  free changes nothing. Whatever the owner wrote into its block, the freed slots are free again:
  the free blocks afterwards cover exactly the slots of the old free blocks and of the block freed.\<close>

theorem buddy_dealloc_correct:
  assumes "buddy_reach len A b"
  shows "case A i of
       Some order \<Rightarrow> \<exists>b'. buddy_dealloc i order b = Some (b', Inr ())
                       \<and> \<Union> (blk ` FB b') = \<Union> (blk ` FB b) \<union> blk (i, order)
     | None \<Rightarrow> buddy_dealloc i order b = Some (b, Inl (if i < len div SLOT_SIZE then DoubleFree else InvalidFree))"
proof -
  have inv: "buddy_inv A b" and n: "bd_total_slots b = len div SLOT_SIZE" using buddy_reach_inv [OF assms] by auto
  show ?thesis
  proof (cases "A i")
    case None
    then show ?thesis using buddy_dealloc_err [OF inv] n by simp
  next
    case (Some order)
    then obtain b' where b': "buddy_dealloc i order b = Some (b', Inr ())" "buddy_inv (A(i := None)) b'" "bd_total_slots b' = bd_total_slots b"
      using buddy_dealloc_ok [OF inv] by blast
    have t: "tiling (bd_total_slots b) (FB b \<union> AB A)" and d: "FB b \<inter> AB A = {}"
      and t': "tiling (bd_total_slots b) (FB b' \<union> AB (A(i := None)))" and d': "FB b' \<inter> AB (A(i := None)) = {}"
      using inv b'(2,3) by (auto simp: buddy_inv_def buddy_state_def)
    have ab: "AB A = insert (i, order) (AB (A(i := None)))" "(i, order) \<notin> AB (A(i := None))"
      using Some by (auto simp: AB_def split: if_splits)
    have "\<Union> (blk ` FB b') = {..<bd_total_slots b} - \<Union> (blk ` AB (A(i := None)))" by (rule tiling_part [OF t' d'])
    moreover have "\<Union> (blk ` (insert (i, order) (FB b))) = {..<bd_total_slots b} - \<Union> (blk ` AB (A(i := None)))"
      using t ab d by (intro tiling_part) auto
    ultimately show ?thesis using Some b'(1) by auto
  qed
qed

text \<open>Nothing is lost to fragmentation: whenever every block has been freed, in whatever order,
  the free blocks are those of a fresh allocator of the same length.\<close>

theorem buddy_heap_restored:
  assumes "buddy_reach len Map.empty b" "buddy_new len = Some b0"
  shows "FB b = FB b0"
proof -
  have "AB Map.empty = {}" by (simp add: AB_def)
  then have "tiling (len div SLOT_SIZE) (FB x) \<and> coalesced (FB x)" if "buddy_reach len Map.empty x" for x
    using buddy_reach_inv [OF that] by (auto simp: buddy_inv_def buddy_state_def)
  then show ?thesis
    using assms(1) buddy_reach.fresh [OF assms(2)] coalesced_unique [of "len div SLOT_SIZE" "FB b" "FB b0"] by blast
qed

text \<open>A heap of eight slots: one block of one slot is allocated, written to and freed.\<close>

definition demo_heap :: buddy where
  "demo_heap = the (buddy_new 32768)"

definition demo_used :: buddy where
  "demo_used = fst (the (buddy_alloc 0 demo_heap))"

definition demo_freed :: buddy where
  "demo_freed = fst (the (buddy_dealloc 0 0 demo_used))"

lemma demo_ilog2: "ilog2 8 = 3"
  by (simp add: ilog2.simps)

lemma demo_eval: "case buddy_new 32768 of Some b \<Rightarrow> map_option snd (buddy_alloc 0 b) = Some (Some 0) | None \<Rightarrow> False"
  by (simp add: buddy_new_def init_free_blocks.simps demo_ilog2 add_to_free_list_def ptr_from_index_def MAX_ORDER_def SLOT_SIZE_def
      buddy_alloc_def trailing_zeros_def upt_rec clear_if_empty_def bit_set_set_def bit_set_new_def numeral_3_eq_3 Let_def)

lemma demo_reach:
  "buddy_new 32768 = Some demo_heap" "buddy_reach 32768 Map.empty demo_heap"
  "buddy_alloc 0 demo_heap = Some (demo_used, Some 0)"
  "buddy_reach 32768 [0 \<mapsto> 0] demo_used" "buddy_reach 32768 Map.empty demo_freed"
proof -
  obtain b where b: "buddy_new 32768 = Some b" using buddy_new_ok [of 32768] by (auto simp: SLOT_SIZE_def)
  then show new: "buddy_new 32768 = Some demo_heap" by (simp add: demo_heap_def)
  then show r0: "buddy_reach 32768 Map.empty demo_heap" by (rule buddy_reach.fresh)
  have "map_option snd (buddy_alloc 0 demo_heap) = Some (Some 0)" using demo_eval new by auto
  then show al: "buddy_alloc 0 demo_heap = Some (demo_used, Some 0)" by (auto simp: demo_used_def)
  show r1: "buddy_reach 32768 [0 \<mapsto> 0] demo_used" by (rule buddy_reach.alloc [OF r0 al])
  obtain b' where b': "buddy_dealloc 0 0 demo_used = Some (b', Inr ())"
    using buddy_dealloc_ok [of "[0 \<mapsto> 0]" demo_used 0 0] buddy_reach_inv [OF r1] by auto
  then have "buddy_reach 32768 ([0 \<mapsto> 0](0 := None)) b'" using buddy_reach.free [OF r1, of 0 0] by simp
  then show "buddy_reach 32768 Map.empty demo_freed" using b' by (simp add: demo_freed_def)
qed

theorem buddy_alloc_correct_witness:
  "(\<exists>b' i. buddy_alloc 2 demo_used = Some (b', Some i) \<and> 4 dvd i \<and> i + 4 \<le> 8 \<and> blk (0, 0) \<inter> blk (i, 2) = {})
     \<and> buddy_alloc 3 demo_used = Some (demo_used, None)"
proof
  have ab: "AB [0 \<mapsto> 0] = {(0, 0)}" by (auto simp: AB_def split: if_splits)
  have n: "32768 div SLOT_SIZE = 8" by (simp add: SLOT_SIZE_def)
  have "\<exists>j. 2 ^ 2 dvd j \<and> j + 2 ^ 2 \<le> (8 :: nat) \<and> blk (0, 0) \<inter> blk (j, 2) = {}"
    by (rule exI [of _ 4]) (simp add: blk_def)
  then show "\<exists>b' i. buddy_alloc 2 demo_used = Some (b', Some i) \<and> 4 dvd i \<and> i + 4 \<le> 8 \<and> blk (0, 0) \<inter> blk (i, 2) = {}"
    using buddy_alloc_correct [OF demo_reach(4), of 2] unfolding ab n by (auto simp: MAX_ORDER_def)
  have "j = 0" if "(8 :: nat) dvd j" "j + 8 \<le> 8" for j using that by simp
  then show "buddy_alloc 3 demo_used = Some (demo_used, None)"
    using buddy_alloc_correct [OF demo_reach(4), of 3] unfolding ab n by (auto simp: MAX_ORDER_def blk_def split: if_splits)
qed

theorem buddy_dealloc_correct_witness:
  "(\<exists>b'. buddy_dealloc 0 0 demo_used = Some (b', Inr ()) \<and> \<Union> (blk ` FB b') = \<Union> (blk ` FB demo_used) \<union> blk (0, 0))
     \<and> buddy_dealloc 1 0 demo_used = Some (demo_used, Inl DoubleFree)
     \<and> buddy_dealloc 9 0 demo_used = Some (demo_used, Inl InvalidFree)"
  using buddy_dealloc_correct [OF demo_reach(4), of 0] buddy_dealloc_correct [OF demo_reach(4), of 1 0]
    buddy_dealloc_correct [OF demo_reach(4), of 9 0] by (simp add: SLOT_SIZE_def)

theorem buddy_heap_restored_witness: "FB demo_freed = FB demo_heap"
  by (rule buddy_heap_restored [OF demo_reach(5,1)])

end
