(* ===== verification/Op_Future.thy ===== *)
theory Op_Future
  imports Slot_View
begin

text \<open>
  The future of a detached operation (\<^verbatim>\<open>op/future.rs\<close>): what it returns for a completion record,
  how it polls the completion table through the trait \<^verbatim>\<open>CompletionAccess\<close>, and what dropping
  it does. The trait \<^verbatim>\<open>IntoPlatformOp\<close>, which an operation type implements, is the record
  \<open>platform_op\<close>; a report is represented by what it was built from. \<open>None\<close> is a panic.
\<close>

subsection \<open>Results\<close>

datatype lost_reason = GenerationMismatch | PayloadMissing | PayloadTypeMismatch | LostOther

datatype 'err op_source =
    SrcReport 'err
  | SrcPayloadMissing
  | SrcAnomaly completion_anomaly_kind anomaly_attach
  | SrcTake take_error

record 'err op_error =
  oe_reason :: lost_reason
  oe_source :: "'err op_source"

datatype ('out, 'err, 'cpl) op_result =
    OpCompleted "'err + 'cpl" 'out
  | ResourceLost "'err op_error"

definition is_lethal :: "'err op_error \<Rightarrow> bool" where
  "is_lethal e \<longleftrightarrow> oe_reason e = GenerationMismatch"

fun op_result_into_inner :: "('out, 'err, 'cpl) op_result \<Rightarrow> ('err op_source + 'cpl) \<times> 'out option" where
  "op_result_into_inner (OpCompleted (Inl e) out) = (Inl (SrcReport e), Some out)"
| "op_result_into_inner (OpCompleted (Inr c) out) = (Inr c, Some out)"
| "op_result_into_inner (ResourceLost e) = (Inl (oe_source e), None)"

fun from_anomaly_reason :: "completion_anomaly_reason \<Rightarrow> lost_reason" where
  "from_anomaly_reason RStaleGeneration = GenerationMismatch"
| "from_anomaly_reason _ = LostOther"

definition payload_missing :: "'err op_error" where
  "payload_missing = \<lparr>oe_reason = PayloadMissing, oe_source = SrcPayloadMissing\<rparr>"

definition payload_projection :: "'err \<Rightarrow> 'err op_error" where
  "payload_projection e = \<lparr>oe_reason = PayloadTypeMismatch, oe_source = SrcReport e\<rparr>"

definition from_completion_anomaly :: "completion_anomaly_kind \<Rightarrow> anomaly_attach \<Rightarrow> 'err op_error" where
  "from_completion_anomaly kind att =
     \<lparr>oe_reason = from_anomaly_reason (kind_reason kind), oe_source = SrcAnomaly kind att\<rparr>"

text \<open>What an operation type provides: splitting into kernel operation and payload, erasing the
  payload and recovering it, projecting the result, and reading a result from an event.\<close>

record ('t, 'op, 'upay, 'pay, 'err, 'comp, 'cpl, 'out) platform_op =
  ip_into_kernel_and_payload :: "'t \<Rightarrow> 'op \<times> 'upay"
  ip_payload_into_erased :: "'upay \<Rightarrow> 'pay"
  ip_try_payload_from_erased :: "'pay \<Rightarrow> 'err + 'upay"
  ip_complete :: "'upay \<Rightarrow> 'err + 'comp \<Rightarrow> ('err + 'cpl) \<times> 'out"
  ip_from_event_res :: "i32 \<Rightarrow> 'err + 'comp"

text \<open>The second component lists the cleanups that run: on a payload of the wrong type the guard
  runs, otherwise it is disarmed and dropped.\<close>

definition from_completion_record ::
  "('t, 'op, 'upay, 'pay, 'err, 'comp, 'cpl, 'out) platform_op \<Rightarrow> ('pay, 'err + 'comp) completion_record
     \<Rightarrow> ('out, 'err, 'cpl) op_result \<times> nat list" where
  "from_completion_record ip rc =
     (case ip_try_payload_from_erased ip (rec_payload rc) of
        Inl report \<Rightarrow>
          (case guard_run (rec_cleanup rc) of
             (g, cl, _) \<Rightarrow> (ResourceLost (payload_projection report), cl @ guard_drop g))
      | Inr payload \<Rightarrow>
          let g = fst (guard_disarm (rec_cleanup rc));
              res = (case rec_detail rc of Some d \<Rightarrow> d | None \<Rightarrow> ip_from_event_res ip (rc_res (uce_raw (rec_event rc))))
          in (case ip_complete ip payload res of (result, output) \<Rightarrow> (OpCompleted result output, guard_drop g)))"

definition poll_table_once ::
  "('t, 'op, 'upay, 'pay, 'err, 'comp, 'cpl, 'out) platform_op
     \<Rightarrow> ('s, 'pay, 'err + 'comp) completion_access \<Rightarrow> op_token \<Rightarrow> 's
     \<Rightarrow> 's \<times> nat list \<times> ('out, 'err, 'cpl) op_result poll" where
  "poll_table_once ip ca t s =
     (case ca_take ca t s of
        (s', Inr (PollReady rc)) \<Rightarrow>
          (case from_completion_record ip rc of (res, cl) \<Rightarrow> (s', cl, Ready res))
      | (s', Inr (PollUnavailable kind att)) \<Rightarrow> (s', [], Ready (ResourceLost (from_completion_anomaly kind att)))
      | (s', Inr PollPending) \<Rightarrow> (s', [], Pending)
      | (s', Inl e) \<Rightarrow> (s', [], Ready (ResourceLost \<lparr>oe_reason = LostOther, oe_source = SrcTake e\<rparr>)))"

subsection \<open>The detached future\<close>

text \<open>The handles are options in the code; whether they are present is all that matters here, the
  objects behind them are arguments of the operations.\<close>

record ('err, 'upay) detached_op =
  do_completion_table :: bool
  do_cancel_sender :: bool
  do_cancel_waker :: bool
  do_token :: "op_token option"
  do_immediate_failure :: "('err \<times> 'upay) option"
  do_immediate_lost :: "'err op_error option"

definition detached_poll ::
  "('t, 'op, 'upay, 'pay, 'err, 'comp, 'cpl, 'out) platform_op
     \<Rightarrow> ('s, 'pay, 'err + 'comp) completion_access \<Rightarrow> waker \<Rightarrow> ('err, 'upay) detached_op \<Rightarrow> 's
     \<Rightarrow> (('err, 'upay) detached_op \<times> 's \<times> nat list \<times> ('out, 'err, 'cpl) op_result poll) option" where
  "detached_poll ip ca w f s =
     (case do_immediate_failure f of
        Some (e, payload) \<Rightarrow>
          (case ip_complete ip payload (Inl e) of
             (result, output) \<Rightarrow> Some (f\<lparr>do_immediate_failure := None\<rparr>, s, [], Ready (OpCompleted result output)))
      | None \<Rightarrow>
          (case do_immediate_lost f of
             Some err \<Rightarrow> Some (f\<lparr>do_immediate_lost := None\<rparr>, s, [], Ready (ResourceLost err))
           | None \<Rightarrow>
               if \<not> do_completion_table f then None
               else (case do_token f of
                   None \<Rightarrow> None
                 | Some t \<Rightarrow>
                     (case poll_table_once ip ca t s of
                        (s1, cl, Ready res) \<Rightarrow> Some (f, s1, cl, Ready res)
                      | (s1, cl, Pending) \<Rightarrow>
                          (case ca_register ca t w s1 of
                             (s2, _) \<Rightarrow> (case poll_table_once ip ca t s2 of
                                (s3, cl', res) \<Rightarrow> Some (f, s3, cl @ cl', res)))))))"

text \<open>Dropping the future orphans the operation, queues a cancel request for the driver and wakes
  it; the result lists the requests sent and whether the driver was woken.\<close>

definition detached_drop ::
  "('s, 'pay, 'det) completion_access \<Rightarrow> ('err, 'upay) detached_op \<Rightarrow> 's
     \<Rightarrow> ('s \<times> cancel_request list \<times> bool) option" where
  "detached_drop ca f s =
     (case do_token f of
        None \<Rightarrow> Some (s, [], do_cancel_waker f)
      | Some t \<Rightarrow>
          (case (if do_completion_table f then map_option fst (ca_orphan ca t s) else Some s) of
             None \<Rightarrow> None
           | Some s' \<Rightarrow> Some (s', if do_cancel_sender f then [cancel_abandon t] else [], do_cancel_waker f)))"

definition submitted_future :: "op_token \<Rightarrow> ('err, 'upay) detached_op" where
  "submitted_future t = \<lparr>do_completion_table = True, do_cancel_sender = True, do_cancel_waker = True,
     do_token = Some t, do_immediate_failure = None, do_immediate_lost = None\<rparr>"

subsection \<open>The future as a client of the table\<close>

locale detached_client = completion_provider ca inv view woken
  for ca :: "('s, 'pay, 'err + 'comp) completion_access" and inv :: "'s \<Rightarrow> bool"
    and view :: "op_token \<Rightarrow> 's \<Rightarrow> ('pay, 'err + 'comp) op_view" and woken :: "'s \<Rightarrow> waker list" +
  fixes ip :: "('t, 'op, 'upay, 'pay, 'err, 'comp, 'cpl, 'out) platform_op"
begin

lemma once_pending:
  assumes "inv s" "view t s = InFlight w0"
  shows "\<exists>s'. poll_table_once ip ca t s = (s', [], Pending) \<and> inv s' \<and> view t s' = InFlight w0
           \<and> woken s' = woken s \<and> (\<forall>u. u \<noteq> t \<longrightarrow> view u s' = view u s)"
  using take_law [OF assms(1), of t] assms(2) by (auto simp: poll_table_once_def)

lemma once_ready:
  assumes "inv s" "view t s = Done rc"
  shows "\<exists>s'. poll_table_once ip ca t s = (s', snd (from_completion_record ip rc), Ready (fst (from_completion_record ip rc)))
           \<and> inv s' \<and> view t s' = Gone \<and> woken s' = woken s \<and> (\<forall>u. u \<noteq> t \<longrightarrow> view u s' = view u s)"
  using take_law [OF assms(1), of t] assms(2) by (auto simp: poll_table_once_def split: prod.splits)

lemma once_gone:
  assumes "inv s" "view t s = Gone"
  shows "\<exists>s' e. poll_table_once ip ca t s = (s', [], Ready (ResourceLost e)) \<and> inv s' \<and> view t s' = Gone
           \<and> woken s' = woken s \<and> (\<forall>u. u \<noteq> t \<longrightarrow> view u s' = view u s)"
  using take_law [OF assms(1), of t] assms(2) by (auto simp: poll_table_once_def)

lemma poll_in_flight:
  assumes "inv s" "view t s = InFlight w0"
  shows "\<exists>s'. detached_poll ip ca w (submitted_future t) s = Some (submitted_future t, s', [], Pending)
           \<and> inv s' \<and> view t s' = InFlight (Some w) \<and> woken s' = woken s \<and> (\<forall>u. u \<noteq> t \<longrightarrow> view u s' = view u s)"
proof -
  obtain s1 where s1: "poll_table_once ip ca t s = (s1, [], Pending)" "inv s1" "view t s1 = InFlight w0"
    "woken s1 = woken s" "\<forall>u. u \<noteq> t \<longrightarrow> view u s1 = view u s"
    using once_pending [OF assms] by blast
  obtain s2 out where s2: "ca_register ca t w s1 = (s2, out)" "inv s2" "view t s2 = InFlight (Some w)"
    "woken s2 = woken s1" "\<forall>u. u \<noteq> t \<longrightarrow> view u s2 = view u s1"
    using register_law [OF s1(2), of t w] s1(3) by auto
  obtain s3 where "poll_table_once ip ca t s2 = (s3, [], Pending)" "inv s3" "view t s3 = InFlight (Some w)"
    "woken s3 = woken s2" "\<forall>u. u \<noteq> t \<longrightarrow> view u s3 = view u s2"
    using once_pending [OF s2(2,3)] by blast
  then show ?thesis using s1 s2 by (simp add: detached_poll_def submitted_future_def)
qed

lemma poll_done:
  assumes "inv s" "view t s = Done rc"
  shows "\<exists>s'. detached_poll ip ca w (submitted_future t) s = Some (submitted_future t, s',
             snd (from_completion_record ip rc), Ready (fst (from_completion_record ip rc)))
           \<and> inv s' \<and> view t s' = Gone \<and> woken s' = woken s \<and> (\<forall>u. u \<noteq> t \<longrightarrow> view u s' = view u s)"
  using once_ready [OF assms] by (auto simp: detached_poll_def submitted_future_def)

lemma poll_gone:
  assumes "inv s" "view t s = Gone"
  shows "\<exists>s' e. detached_poll ip ca w (submitted_future t) s = Some (submitted_future t, s', [], Ready (ResourceLost e))
           \<and> inv s' \<and> view t s' = Gone \<and> woken s' = woken s \<and> (\<forall>u. u \<noteq> t \<longrightarrow> view u s' = view u s)"
  using once_gone [OF assms] by (auto simp: detached_poll_def submitted_future_def)

lemma drop_abandons:
  assumes "inv s"
  shows "\<exists>s'. detached_drop ca (submitted_future t) s = Some (s', [cancel_abandon t], True)
           \<and> inv s' \<and> view t s' = Gone \<and> woken s' = woken s \<and> (\<forall>u. u \<noteq> t \<longrightarrow> view u s' = view u s)"
  using orphan_law [OF assms, of t] by (auto simp: detached_drop_def submitted_future_def)

text \<open>The life of a future: pending with its waker stored, woken by the record, ready with the
  record's result, and gone.\<close>

lemma await_record:
  assumes "inv s" "view (packet_token p) s = InFlight w0"
  shows "\<exists>s1 s2 r s3. detached_poll ip ca w (submitted_future (packet_token p)) s
             = Some (submitted_future (packet_token p), s1, [], Pending)
           \<and> ca_record ca p s1 = Some (s2, r) \<and> woken s2 = woken s @ [w]
           \<and> detached_poll ip ca w' (submitted_future (packet_token p)) s2
             = Some (submitted_future (packet_token p), s3, snd (from_completion_record ip (packet_record p)),
                 Ready (fst (from_completion_record ip (packet_record p))))
           \<and> inv s3 \<and> view (packet_token p) s3 = Gone \<and> (\<forall>u. u \<noteq> packet_token p \<longrightarrow> view u s3 = view u s)"
proof -
  let ?t = "packet_token p"
  obtain s1 where s1: "detached_poll ip ca w (submitted_future ?t) s = Some (submitted_future ?t, s1, [], Pending)"
    "inv s1" "view ?t s1 = InFlight (Some w)" "woken s1 = woken s" "\<forall>u. u \<noteq> ?t \<longrightarrow> view u s1 = view u s"
    using poll_in_flight [OF assms] by blast
  obtain s2 r where s2: "ca_record ca p s1 = Some (s2, r)" "inv s2" "view ?t s2 = Done (packet_record p)"
    "woken s2 = woken s1 @ [w]" "\<forall>u. u \<noteq> ?t \<longrightarrow> view u s2 = view u s1"
    using record_law [OF s1(2), of p] s1(3) by auto
  obtain s3 where "detached_poll ip ca w' (submitted_future ?t) s2 = Some (submitted_future ?t, s3,
      snd (from_completion_record ip (packet_record p)), Ready (fst (from_completion_record ip (packet_record p))))"
    "inv s3" "view ?t s3 = Gone" "\<forall>u. u \<noteq> ?t \<longrightarrow> view u s3 = view u s2"
    using poll_done [OF s2(2,3)] by blast
  then show ?thesis using s1 s2 by (intro exI [of _ s1] exI [of _ s2] exI [of _ r] exI [of _ s3]) simp
qed

end

interpretation fut: detached_client slot_table_access table_inv table_view fx_woken ip
  for ip :: "('t, 'op, 'upay, 'pay, 'err, 'comp, 'cpl, 'out) platform_op"
  by unfold_locales

subsection \<open>Properties\<close>

lemma record_result_armed:
  "ip_try_payload_from_erased ip (rec_payload rc) = Inr payload
     \<Longrightarrow> from_completion_record ip rc = (let res = (case rec_detail rc of Some d \<Rightarrow> d | None \<Rightarrow> ip_from_event_res ip (rc_res (uce_raw (rec_event rc))))
           in (OpCompleted (fst (ip_complete ip payload res)) (snd (ip_complete ip payload res)), []))"
  by (simp add: from_completion_record_def guard_disarm_def guard_drop_def Let_def split: prod.splits)

text \<open>C16. Awaiting an operation: while it is in flight the future is pending and its waker is the one
  that will be woken; recording the completion wakes it; the next poll returns the operation's own
  projection of the recorded payload and result, without running the cleanup of the completion; a
  further poll reports the resource lost, and other operations see nothing of all this.\<close>

theorem detached_future_completes:
  fixes ip :: "('t, 'op, 'upay, 'pay, 'err, 'comp, 'cpl, 'out) platform_op"
  assumes "table_inv tb" "table_view (packet_token p) tb = InFlight w0"
    "packet_input p = InputUser c" "ip_try_payload_from_erased ip (uc_payload c) = Inr payload"
  shows "\<exists>f tb1 tb2 r tb3 tb4 e.
       detached_poll ip slot_table_access w (submitted_future (packet_token p)) tb = Some (f, tb1, [], Pending)
     \<and> record_completion p tb1 = Some (tb2, r) \<and> fx_woken tb2 = fx_woken tb @ [w]
     \<and> detached_poll ip slot_table_access w' f tb2 = Some (f, tb3, [],
         (let res = (case uc_detail c of Some d \<Rightarrow> d | None \<Rightarrow> ip_from_event_res ip (rc_res (uce_raw (packet_event p))))
          in Ready (OpCompleted (fst (ip_complete ip payload res)) (snd (ip_complete ip payload res)))))
     \<and> detached_poll ip slot_table_access w'' f tb3 = Some (f, tb4, [], Ready (ResourceLost e))
     \<and> (\<forall>u. u \<noteq> packet_token p \<longrightarrow> table_view u tb4 = table_view u tb)"
proof -
  let ?f = "submitted_future (packet_token p)"
  have rc: "rec_payload (packet_record p) = uc_payload c" "rec_detail (packet_record p) = uc_detail c"
    "rec_event (packet_record p) = packet_event p" using assms(3) by simp_all
  obtain tb1 tb2 r tb3 where a: "detached_poll ip slot_table_access w ?f tb = Some (?f, tb1, [], Pending)"
    "record_completion p tb1 = Some (tb2, r)" "fx_woken tb2 = fx_woken tb @ [w]"
    "detached_poll ip slot_table_access w' ?f tb2 = Some (?f, tb3, snd (from_completion_record ip (packet_record p)),
        Ready (fst (from_completion_record ip (packet_record p))))"
    "table_inv tb3" "table_view (packet_token p) tb3 = Gone"
    "\<forall>u. u \<noteq> packet_token p \<longrightarrow> table_view u tb3 = table_view u tb"
    using fut.await_record [OF assms(1,2), of ip w w'] by (auto simp: slot_table_access_def)
  obtain tb4 e where "detached_poll ip slot_table_access w'' ?f tb3 = Some (?f, tb4, [], Ready (ResourceLost e))"
    "\<forall>u. u \<noteq> packet_token p \<longrightarrow> table_view u tb4 = table_view u tb3"
    using fut.poll_gone [OF a(5,6), of ip w''] by blast
  moreover have "from_completion_record ip (packet_record p) = (let res = (case uc_detail c of Some d \<Rightarrow> d
        | None \<Rightarrow> ip_from_event_res ip (rc_res (uce_raw (packet_event p))))
      in (OpCompleted (fst (ip_complete ip payload res)) (snd (ip_complete ip payload res)), []))"
    using record_result_armed [of ip "packet_record p" payload] assms(4) unfolding rc by simp
  ultimately show ?thesis using a(1-4,7) by (simp add: Let_def)
qed

text \<open>Abandoning an operation: dropping the future asks the driver to cancel it and wakes the
  driver; the operation is gone for every later call, other operations are untouched. If the
  completion was already recorded, its cleanup runs during the drop; if the payload of a completion
  cannot be projected, its cleanup runs during the poll that reports the loss: exactly once in
  either case.\<close>

theorem detached_future_abandoned:
  fixes ip :: "('t, 'op, 'upay, 'pay, 'err, 'comp, 'cpl, 'out) platform_op"
  assumes "table_inv tb"
  shows "(\<exists>tb'. detached_drop slot_table_access (submitted_future t :: ('err, 'upay) detached_op) tb
              = Some (tb', [cancel_abandon t], True)
            \<and> table_view t tb' = Gone \<and> (\<forall>u. u \<noteq> t \<longrightarrow> table_view u tb' = table_view u tb)
            \<and> (\<forall>rc. table_view t tb = Done rc \<longrightarrow> fx_cleaned tb' = fx_cleaned tb @ guard_drop (rec_cleanup rc)))
     \<and> (\<forall>rc report. table_view t tb = Done rc \<and> ip_try_payload_from_erased ip (rec_payload rc) = Inl report
          \<longrightarrow> (\<exists>tb'. detached_poll ip slot_table_access w (submitted_future t) tb
                 = Some (submitted_future t, tb', guard_drop (rec_cleanup rc), Ready (ResourceLost (payload_projection report)))
               \<and> table_view t tb' = Gone))"
proof (intro conjI allI impI)
  obtain tb' where d: "detached_drop slot_table_access (submitted_future t :: ('err, 'upay) detached_op) tb = Some (tb', [cancel_abandon t], True)"
    "table_view t tb' = Gone" "\<forall>u. u \<noteq> t \<longrightarrow> table_view u tb' = table_view u tb"
    using fut.drop_abandons [OF assms, of t] by blast
  have "fx_cleaned tb' = fx_cleaned tb @ guard_drop (rec_cleanup rc)" if "table_view t tb = Done rc" for rc
  proof -
    have v: "names_slot t tb" "slot_state_of (token_slot t tb) = InFlightReady"
      "data_record (completion_data (token_slot t tb)) = Some rc" using that by (auto simp: view_Done)
    have "mark_orphaned t tb = map_option (\<lambda>x. (tb', x)) (map_option snd (mark_orphaned t tb))"
      using d(1) by (auto simp: detached_drop_def submitted_future_def slot_table_access_def split: option.splits)
    moreover obtain tb'' where "mark_orphaned t tb = Some (tb'', Applied)"
      "fx_cleaned tb'' = fx_cleaned tb @ data_ids (completion_data (token_slot t tb))"
      using discard_ready [OF v(1,2)] orphan_ready [OF v(1,2)] by auto
    ultimately show ?thesis using v(3) by (cases "completion_data (token_slot t tb)") auto
  qed
  then show "\<exists>tb'. detached_drop slot_table_access (submitted_future t :: ('err, 'upay) detached_op) tb = Some (tb', [cancel_abandon t], True)
            \<and> table_view t tb' = Gone \<and> (\<forall>u. u \<noteq> t \<longrightarrow> table_view u tb' = table_view u tb)
            \<and> (\<forall>rc. table_view t tb = Done rc \<longrightarrow> fx_cleaned tb' = fx_cleaned tb @ guard_drop (rec_cleanup rc))"
    using d by blast
next
  fix rc report assume a: "table_view t tb = Done rc \<and> ip_try_payload_from_erased ip (rec_payload rc) = Inl report"
  have "from_completion_record ip rc = (ResourceLost (payload_projection report), guard_drop (rec_cleanup rc))"
    using a guard_run_then_drop [of "rec_cleanup rc"] by (auto simp: from_completion_record_def split: prod.splits)
  then show "\<exists>tb'. detached_poll ip slot_table_access w (submitted_future t) tb
                 = Some (submitted_future t, tb', guard_drop (rec_cleanup rc), Ready (ResourceLost (payload_projection report)))
               \<and> table_view t tb' = Gone"
    using fut.poll_done [OF assms conjunct1 [OF a], of ip w] by auto
qed

text \<open>An operation type with natural numbers as payloads that refuses payload 0, and two tables whose
  only operation, under index 0 and generation 5, waits or has completed with payload 0.\<close>

definition demo_op :: "(nat, unit, nat, nat, nat, nat, nat, nat) platform_op" where
  "demo_op = \<lparr>ip_into_kernel_and_payload = (\<lambda>n. ((), n)), ip_payload_into_erased = (\<lambda>n. n),
     ip_try_payload_from_erased = (\<lambda>n. if n = 0 then Inl 1 else Inr n), ip_complete = (\<lambda>n res. (res, n)),
     ip_from_event_res = (\<lambda>res. Inr (unat res))\<rparr>"

definition demo_packet :: "(nat, nat + nat) completion_packet" where
  "demo_packet = packet_user_event (user_event_from_parts CoreBackend \<lparr>op_index = 0, op_generation = 5\<rparr> 42 0)
     10 None (guard_new (Cleanup 77 True))"

definition demo_table :: "(nat, nat + nat) slot_table" where
  "demo_table = (slot_table_new 1)\<lparr>slots := [slot_set_state InFlightWaiting (slot_reset 5 slot_data_new)]\<rparr>"

definition demo_ready_table :: "(nat, nat + nat) slot_table" where
  "demo_ready_table = (slot_table_new 1)\<lparr>slots := [(slot_set_state InFlightReady (slot_reset 5 slot_data_new))
     \<lparr>completion_data := DataUser (packet_event demo_packet) 0 None (guard_new (Cleanup 77 True))\<rparr>],
     ready_completion_count := 1\<rparr>"

lemma demo_tables:
  "table_inv demo_table" "table_inv demo_ready_table"
  "table_view (packet_token demo_packet) demo_table = InFlight None"
  "\<exists>rc. table_view (packet_token demo_packet) demo_ready_table = Done rc \<and> rec_payload rc = 0
     \<and> guard_drop (rec_cleanup rc) = [77]"
  by (simp_all add: table_inv_def demo_table_def demo_ready_table_def slot_table_new_def slot_ok_def slot_data_new_def
      NULL_INDEX_def ready_slots_def slot_reset_def slot_set_state_def with_state_def view_InFlight view_Done
      names_slot_def demo_packet_def packet_token_def packet_user_event_def user_event_from_parts_def guard_drop_def guard_new_def)

lemma detached_future_completes_witness:
  "\<exists>f tb1 tb2 r tb3. detached_poll demo_op slot_table_access 3 (submitted_future (packet_token demo_packet)) demo_table
         = Some (f, tb1, [], Pending)
     \<and> record_completion demo_packet tb1 = Some (tb2, r) \<and> fx_woken tb2 = fx_woken demo_table @ [3]
     \<and> detached_poll demo_op slot_table_access 4 f tb2 = Some (f, tb3, [], Ready (OpCompleted (Inr 42) 10))"
proof -
  let ?c = "\<lparr>uc_payload = 10, uc_detail = None, uc_cleanup = guard_new (Cleanup 77 True)\<rparr>"
  have c: "packet_input demo_packet = InputUser ?c" "rc_res (uce_raw (packet_event demo_packet)) = 42"
    by (simp_all add: demo_packet_def packet_user_event_def user_event_from_parts_def)
  have p: "ip_try_payload_from_erased demo_op (uc_payload ?c) = Inr 10" by (simp add: demo_op_def)
  have "(let res = (case uc_detail ?c of Some d \<Rightarrow> d
          | None \<Rightarrow> ip_from_event_res demo_op (rc_res (uce_raw (packet_event demo_packet))))
        in Ready (OpCompleted (fst (ip_complete demo_op 10 res)) (snd (ip_complete demo_op 10 res))))
      = Ready (OpCompleted (Inr 42) 10)" by (simp add: c demo_op_def)
  then show ?thesis
    using detached_future_completes [OF demo_tables(1,3) c(1) p, where w = 3 and w' = 4 and w'' = 5] by auto
qed

lemma detached_future_abandoned_witness:
  "(\<exists>tb'. detached_drop slot_table_access (submitted_future (packet_token demo_packet) :: (nat, nat) detached_op)
       demo_ready_table = Some (tb', [cancel_abandon (packet_token demo_packet)], True) \<and> fx_cleaned tb' = [77])
   \<and> (\<exists>tb'. detached_poll demo_op slot_table_access 3 (submitted_future (packet_token demo_packet)) demo_ready_table
       = Some (submitted_future (packet_token demo_packet), tb', [77], Ready (ResourceLost (payload_projection 1))))"
proof -
  obtain rc where rc: "table_view (packet_token demo_packet) demo_ready_table = Done rc" "rec_payload rc = 0"
    "guard_drop (rec_cleanup rc) = [77]" using demo_tables(4) by blast
  moreover have "fx_cleaned demo_ready_table = []" by (simp add: demo_ready_table_def slot_table_new_def)
  moreover have "ip_try_payload_from_erased demo_op 0 = Inl 1" by (simp add: demo_op_def)
  ultimately show ?thesis
    using detached_future_abandoned [OF demo_tables(2), where ip = demo_op and t = "packet_token demo_packet" and w = 3]
    by (metis append_Nil)
qed

end
