(* ===== verification/Local_Channel.thy ===== *)
theory Local_Channel
  imports Veloq_Prelude
begin

text \<open>
  The vocabulary of the single-threaded channels (\<^verbatim>\<open>veloq-local/src/common.rs\<close>) and the contract
  they share: a channel is a first-in first-out queue. The contract is a locale over a send and a
  receive operation; the ring buffer channel and the waiter-list channel interpret it.
\<close>

datatype channel_capacity = Unbounded | Bounded nat

datatype 'a send_error = SendClosed 'a | SendFull 'a

datatype try_recv_error = RecvEmpty | RecvClosed

text \<open>\<^verbatim>\<open>will_wake\<close> is equality of wakers.\<close>

definition update_waker :: "waker option \<Rightarrow> waker \<Rightarrow> waker option" where
  "update_waker slot new = (if slot = Some new then slot else Some new)"

lemma update_waker_eq [simp]: "update_waker slot new = Some new"
  by (simp add: update_waker_def)

subsection \<open>The contract\<close>

text \<open>A client's run: its commands are answered one by one. \<open>None\<close> is a panic or a read of memory
  that was never written.\<close>

datatype 'a chan_cmd = Send_Item 'a | Recv_Item

datatype 'a chan_reply = Sent "'a send_error + unit" | Received "try_recv_error + 'a"

fun chan_run ::
  "('a \<Rightarrow> 's \<Rightarrow> ('s \<times> ('a send_error + unit)) option) \<Rightarrow> ('s \<Rightarrow> ('s \<times> (try_recv_error + 'a)) option)
     \<Rightarrow> 'a chan_cmd list \<Rightarrow> 's \<Rightarrow> ('s \<times> 'a chan_reply list) option" where
  "chan_run snd_op rcv_op [] s = Some (s, [])"
| "chan_run snd_op rcv_op (Send_Item x # cs) s =
     Option.bind (snd_op x s) (\<lambda>(s', r). map_option (map_prod id ((#) (Sent r))) (chan_run snd_op rcv_op cs s'))"
| "chan_run snd_op rcv_op (Recv_Item # cs) s =
     Option.bind (rcv_op s) (\<lambda>(s', r). map_option (map_prod id ((#) (Received r))) (chan_run snd_op rcv_op cs s'))"

text \<open>The specification is a list of items with a limit. A send is refused when the channel is closed
  or the limit is reached and appends its item otherwise; a receive takes the first item, and when
  there is none says whether one can still come.\<close>

definition queue_send :: "nat option \<Rightarrow> bool \<Rightarrow> 'a \<Rightarrow> 'a list \<Rightarrow> 'a list \<times> ('a send_error + unit)" where
  "queue_send limit closed x q =
     (if closed then (q, Inl (SendClosed x))
      else if (case limit of None \<Rightarrow> False | Some n \<Rightarrow> n \<le> length q) then (q, Inl (SendFull x))
      else (q @ [x], Inr ()))"

definition queue_recv :: "bool \<Rightarrow> 'a list \<Rightarrow> 'a list \<times> (try_recv_error + 'a)" where
  "queue_recv ended q = (case q of [] \<Rightarrow> ([], Inl (if ended then RecvClosed else RecvEmpty)) | y # ys \<Rightarrow> (ys, Inr y))"

fun queue_run :: "nat option \<Rightarrow> bool \<Rightarrow> bool \<Rightarrow> 'a chan_cmd list \<Rightarrow> 'a list \<Rightarrow> 'a list \<times> 'a chan_reply list" where
  "queue_run limit closed ended [] q = (q, [])"
| "queue_run limit closed ended (Send_Item x # cs) q =
     (let (q', r) = queue_send limit closed x q in map_prod id ((#) (Sent r)) (queue_run limit closed ended cs q'))"
| "queue_run limit closed ended (Recv_Item # cs) q =
     (let (q', r) = queue_recv ended q in map_prod id ((#) (Received r)) (queue_run limit closed ended cs q'))"

text \<open>What the specification means over a run: what was received followed by what is inside is what was
  inside followed by what was accepted.\<close>

fun accepted_items :: "'a chan_cmd list \<Rightarrow> 'a chan_reply list \<Rightarrow> 'a list" where
  "accepted_items (Send_Item x # cs) (Sent (Inr _) # rs) = x # accepted_items cs rs"
| "accepted_items (_ # cs) (_ # rs) = accepted_items cs rs"
| "accepted_items _ _ = []"

fun received_items :: "'a chan_reply list \<Rightarrow> 'a list" where
  "received_items (Received (Inr y) # rs) = y # received_items rs"
| "received_items (_ # rs) = received_items rs"
| "received_items [] = []"

lemma queue_run_fifo:
  "queue_run limit closed ended cs q = (q', rs) \<Longrightarrow> received_items rs @ q' = q @ accepted_items cs rs"
proof (induction cs arbitrary: q q' rs)
  case (Cons c cs)
  show ?case
  proof (cases c)
    case (Send_Item x)
    obtain q1 r where 1: "queue_send limit closed x q = (q1, r)" by fastforce
    obtain q2 rs' where 2: "queue_run limit closed ended cs q1 = (q2, rs')" by fastforce
    have "q2 = q'" "rs = Sent r # rs'" using Cons.prems Send_Item 1 2 by simp_all
    then show ?thesis using Cons.IH [OF 2] Send_Item 1 by (auto simp: queue_send_def split: if_splits)
  next
    case Recv_Item
    obtain q1 r where 1: "queue_recv ended q = (q1, r)" by fastforce
    obtain q2 rs' where 2: "queue_run limit closed ended cs q1 = (q2, rs')" by fastforce
    have "q2 = q'" "rs = Received r # rs'" using Cons.prems Recv_Item 1 2 by simp_all
    then show ?thesis using Cons.IH [OF 2] Recv_Item 1 by (auto simp: queue_recv_def split: list.splits)
  qed
qed simp

locale fifo_channel =
  fixes inv :: "'s \<Rightarrow> bool" and contents :: "'s \<Rightarrow> 'a list" and limit :: "'s \<Rightarrow> nat option" and closed ended :: "'s \<Rightarrow> bool"
    and snd_op :: "'a \<Rightarrow> 's \<Rightarrow> ('s \<times> ('a send_error + unit)) option" and rcv_op :: "'s \<Rightarrow> ('s \<times> (try_recv_error + 'a)) option"
  assumes send_law: "inv s \<Longrightarrow> \<exists>s' r. snd_op x s = Some (s', r) \<and> inv s' \<and> (contents s', r) = queue_send (limit s) (closed s) x (contents s)
      \<and> limit s' = limit s \<and> closed s' = closed s \<and> ended s' = ended s"
    and recv_law: "inv s \<Longrightarrow> \<exists>s' r. rcv_op s = Some (s', r) \<and> inv s' \<and> (contents s', r) = queue_recv (ended s) (contents s)
      \<and> limit s' = limit s \<and> closed s' = closed s \<and> ended s' = ended s"
begin

text \<open>Every run ends, and every answer is the one of the specification.\<close>

lemma run_refines:
  "inv s \<Longrightarrow> \<exists>s' rs. chan_run snd_op rcv_op cs s = Some (s', rs) \<and> inv s'
    \<and> (contents s', rs) = queue_run (limit s) (closed s) (ended s) cs (contents s)"
proof (induction cs arbitrary: s)
  case Nil
  then show ?case by simp
next
  case (Cons c cs)
  show ?case
  proof (cases c)
    case (Send_Item x)
    obtain s1 r where 1: "snd_op x s = Some (s1, r)" "inv s1" "(contents s1, r) = queue_send (limit s) (closed s) x (contents s)"
      "limit s1 = limit s" "closed s1 = closed s" "ended s1 = ended s"
      using send_law [OF Cons.prems, of x] by blast
    obtain s' rs where "chan_run snd_op rcv_op cs s1 = Some (s', rs)" "inv s'"
      "(contents s', rs) = queue_run (limit s1) (closed s1) (ended s1) cs (contents s1)"
      using Cons.IH [OF 1(2)] by blast
    then show ?thesis using Send_Item 1 by (auto simp flip: 1(3) simp: map_prod_def split: prod.splits)
  next
    case Recv_Item
    obtain s1 r where 1: "rcv_op s = Some (s1, r)" "inv s1" "(contents s1, r) = queue_recv (ended s) (contents s)"
      "limit s1 = limit s" "closed s1 = closed s" "ended s1 = ended s"
      using recv_law [OF Cons.prems] by blast
    obtain s' rs where "chan_run snd_op rcv_op cs s1 = Some (s', rs)" "inv s'"
      "(contents s', rs) = queue_run (limit s1) (closed s1) (ended s1) cs (contents s1)"
      using Cons.IH [OF 1(2)] by blast
    then show ?thesis using Recv_Item 1 by (auto simp flip: 1(3) simp: map_prod_def split: prod.splits)
  qed
qed

end

end
