(* ===== verification/Local_Spsc.thy ===== *)
theory Local_Spsc
  imports Local_Channel
begin

text \<open>
  The single-producer single-consumer channel (\<^verbatim>\<open>veloq-local/src/spsc.rs\<close>): a ring buffer with
  free-running head and tail counters, two stored wakers and a closed flag. A cell of the buffer is
  \<open>None\<close> as long as it has never been written; an operation that would read such a cell, panic
  or leave the allocation gives \<open>None\<close>. The item type is not zero-sized; \<open>sz\<close> is its size in
  bytes, on which only the check of the allocation size depends. Wakers that were woken are
  appended to \<open>sp_woken\<close>.
\<close>

record 'a spsc =
  sp_buffer :: "'a option list"
  sp_capacity :: usize
  sp_mask :: usize
  sp_head :: usize
  sp_tail :: usize
  sp_is_closed :: bool
  sp_producer_waker :: "waker option"
  sp_consumer_waker :: "waker option"
  sp_is_bounded :: bool
  sp_woken :: "waker list"

function next_pow2_from :: "nat \<Rightarrow> nat \<Rightarrow> nat" where
  "next_pow2_from p n = (if p = 0 \<or> n \<le> p then p else next_pow2_from (2 * p) n)"
  by auto
termination
  by (relation "measure (\<lambda>(p, n). n - p)") auto

declare next_pow2_from.simps [simp del]

definition next_power_of_two :: "nat \<Rightarrow> nat" where
  "next_power_of_two n = next_pow2_from 1 n"

text \<open>\<^verbatim>\<open>Layout::array\<close> fails above the largest \<^verbatim>\<open>isize\<close>.\<close>

definition layout_array :: "nat \<Rightarrow> nat \<Rightarrow> bool" where
  "layout_array sz n \<longleftrightarrow> n * sz < 2 ^ 63"

definition spsc_new :: "nat \<Rightarrow> channel_capacity \<Rightarrow> 'a spsc option" where
  "spsc_new sz capacity =
     (let (cap, bounded) = (case capacity of Unbounded \<Rightarrow> (8, False) | Bounded n \<Rightarrow> (next_power_of_two (max n 1), True))
      in if layout_array sz cap then
           Some \<lparr>sp_buffer = replicate cap None, sp_capacity = of_nat cap, sp_mask = of_nat cap - 1, sp_head = 0, sp_tail = 0,
                 sp_is_closed = False, sp_producer_waker = None, sp_consumer_waker = None, sp_is_bounded = bounded, sp_woken = []\<rparr>
         else None)"

definition spsc_len :: "'a spsc \<Rightarrow> usize" where
  "spsc_len s = sp_tail s - sp_head s"

definition spsc_is_empty :: "'a spsc \<Rightarrow> bool" where
  "spsc_is_empty s \<longleftrightarrow> sp_head s = sp_tail s"

definition spsc_is_full :: "'a spsc \<Rightarrow> bool" where
  "spsc_is_full s \<longleftrightarrow> spsc_len s = sp_capacity s"

text \<open>The copied range must lie in the old buffer and the target in the new one.\<close>

definition spsc_grow :: "nat \<Rightarrow> 'a spsc \<Rightarrow> 'a spsc option" where
  "spsc_grow sz s =
     (let old_cap = unat (sp_capacity s);
          new_cap = old_cap * 2;
          count = unat (spsc_len s);
          head_idx = unat (sp_head s AND sp_mask s);
          tail_idx = unat (sp_tail s AND sp_mask s)
      in if \<not> layout_array sz new_cap then None
         else
           map_option
             (\<lambda>copied. let s1 = s\<lparr>sp_buffer := copied @ replicate (new_cap - length copied) None,
                                  sp_capacity := of_nat new_cap, sp_mask := of_nat new_cap - 1, sp_head := 0\<rparr>
                       in s1\<lparr>sp_tail := spsc_len s1\<rparr>)
             (if head_idx < tail_idx then
                (if head_idx + count \<le> old_cap then Some (take count (drop head_idx (sp_buffer s))) else None)
              else
                let first_part = old_cap - head_idx
                in if first_part \<le> count \<and> head_idx \<le> old_cap \<and> count - first_part \<le> old_cap
                   then Some (drop head_idx (sp_buffer s) @ take (count - first_part) (sp_buffer s)) else None))"

text \<open>The write at the tail, and the whole push; the rejected item is handed back.\<close>

definition spsc_write :: "'a \<Rightarrow> 'a spsc \<Rightarrow> 'a spsc option" where
  "spsc_write item s =
     (let offset = unat (sp_tail s AND sp_mask s)
      in if offset < length (sp_buffer s) then Some (s\<lparr>sp_buffer := (sp_buffer s)[offset := Some item], sp_tail := sp_tail s + 1\<rparr>)
         else None)"

definition spsc_push :: "nat \<Rightarrow> 'a \<Rightarrow> 'a spsc \<Rightarrow> ('a spsc \<times> 'a option) option" where
  "spsc_push sz item s =
     (if spsc_is_full s then
        if sp_is_bounded s then Some (s, Some item)
        else (case spsc_grow sz s of None \<Rightarrow> None | Some s1 \<Rightarrow> map_option (\<lambda>s2. (s2, None)) (spsc_write item s1))
      else map_option (\<lambda>s2. (s2, None)) (spsc_write item s))"

definition spsc_pop :: "'a spsc \<Rightarrow> ('a spsc \<times> 'a option) option" where
  "spsc_pop s =
     (if spsc_is_empty s then Some (s, None)
      else
        let offset = unat (sp_head s AND sp_mask s)
        in if offset < length (sp_buffer s) then
             (case sp_buffer s ! offset of
                None \<Rightarrow> None
              | Some item \<Rightarrow> Some (s\<lparr>sp_head := sp_head s + 1\<rparr>, Some item))
           else None)"

definition wake_consumer :: "'a spsc \<Rightarrow> 'a spsc" where
  "wake_consumer s = s\<lparr>sp_consumer_waker := None, sp_woken := sp_woken s @ (case sp_consumer_waker s of None \<Rightarrow> [] | Some w \<Rightarrow> [w])\<rparr>"

definition wake_producer :: "'a spsc \<Rightarrow> 'a spsc" where
  "wake_producer s = s\<lparr>sp_producer_waker := None, sp_woken := sp_woken s @ (case sp_producer_waker s of None \<Rightarrow> [] | Some w \<Rightarrow> [w])\<rparr>"

definition spsc_sender_drop :: "'a spsc \<Rightarrow> 'a spsc" where
  "spsc_sender_drop s = wake_consumer (s\<lparr>sp_is_closed := True\<rparr>)"

definition spsc_receiver_drop :: "'a spsc \<Rightarrow> 'a spsc" where
  "spsc_receiver_drop s = wake_producer (s\<lparr>sp_is_closed := True\<rparr>)"

definition spsc_try_send :: "nat \<Rightarrow> 'a \<Rightarrow> 'a spsc \<Rightarrow> ('a spsc \<times> ('a send_error + unit)) option" where
  "spsc_try_send sz item s =
     (if sp_is_closed s then Some (s, Inl (SendClosed item))
      else map_option (\<lambda>(s1, r). case r of Some item' \<Rightarrow> (s1, Inl (SendFull item')) | None \<Rightarrow> (wake_consumer s1, Inr ()))
             (spsc_push sz item s))"

text \<open>The future of a send holds its item until it is done.\<close>

definition spsc_send_poll ::
  "nat \<Rightarrow> waker \<Rightarrow> 'a option \<Rightarrow> 'a spsc \<Rightarrow> ('a spsc \<times> 'a option \<times> ('a send_error + unit) poll) option" where
  "spsc_send_poll sz cx fut s =
     (case fut of
        None \<Rightarrow> None
      | Some item \<Rightarrow>
          if sp_is_closed s then Some (s, None, Ready (Inl (SendClosed item)))
          else
            map_option
              (\<lambda>(s1, r). case r of
                   None \<Rightarrow> (wake_consumer s1, None, Ready (Inr ()))
                 | Some item' \<Rightarrow> (s1\<lparr>sp_producer_waker := update_waker (sp_producer_waker s1) cx\<rparr>, Some item', Pending))
              (spsc_push sz item s))"

definition spsc_try_recv :: "'a spsc \<Rightarrow> ('a spsc \<times> (try_recv_error + 'a)) option" where
  "spsc_try_recv s =
     map_option
       (\<lambda>(s1, r). case r of
            Some item \<Rightarrow> (wake_producer s1, Inr item)
          | None \<Rightarrow> (s1, Inl (if sp_is_closed s1 then RecvClosed else RecvEmpty)))
       (spsc_pop s)"

text \<open>\<^verbatim>\<open>RecvFuture\<close>, \<^verbatim>\<open>ChannelStream\<close> and \<^verbatim>\<open>OwnedChannelStream\<close> poll alike.\<close>

definition spsc_recv_poll :: "waker \<Rightarrow> 'a spsc \<Rightarrow> ('a spsc \<times> 'a option poll) option" where
  "spsc_recv_poll cx s =
     map_option
       (\<lambda>(s1, r). case r of
            Some item \<Rightarrow> (wake_producer s1, Ready (Some item))
          | None \<Rightarrow>
              if sp_is_closed s1 then (s1, Ready None)
              else (s1\<lparr>sp_consumer_waker := update_waker (sp_consumer_waker s1) cx\<rparr>, Pending))
       (spsc_pop s)"

subsection \<open>The ring as a queue\<close>

definition spsc_inv :: "'a spsc \<Rightarrow> bool" where
  "spsc_inv s \<longleftrightarrow> (\<exists>k \<le> 62. unat (sp_capacity s) = 2 ^ k \<and> sp_mask s = mask k) \<and> length (sp_buffer s) = unat (sp_capacity s)
     \<and> unat (spsc_len s) \<le> unat (sp_capacity s)
     \<and> (\<forall>i < unat (spsc_len s). sp_buffer s ! ((unat (sp_head s) + i) mod unat (sp_capacity s)) \<noteq> None)"

definition spsc_contents :: "'a spsc \<Rightarrow> 'a list" where
  "spsc_contents s =
     map (\<lambda>i. the (sp_buffer s ! ((unat (sp_head s) + i) mod unat (sp_capacity s)))) [0..<unat (spsc_len s)]"

lemma length_spsc_contents: "length (spsc_contents s) = unat (spsc_len s)"
  by (simp add: spsc_contents_def)

lemma spsc_index:
  assumes "spsc_inv s"
  shows "unat (w AND sp_mask s) = unat w mod unat (sp_capacity s)" "0 < unat (sp_capacity s)"
    "unat (sp_capacity s) \<le> 2 ^ 62" "unat (sp_capacity s) dvd 2 ^ 64" "length (sp_buffer s) = unat (sp_capacity s)"
    "unat (spsc_len s) \<le> unat (sp_capacity s)"
proof -
  obtain k where k: "k \<le> 62" "unat (sp_capacity s) = 2 ^ k" "sp_mask s = mask k" using assms by (auto simp: spsc_inv_def)
  show "unat (w AND sp_mask s) = unat w mod unat (sp_capacity s)" using k by (simp add: and_mask_unat)
  show "0 < unat (sp_capacity s)" using k by simp
  have "(2 :: nat) ^ k \<le> 2 ^ 62" using k(1) by (intro power_increasing) simp_all
  then show "unat (sp_capacity s) \<le> 2 ^ 62" using k by simp
  show "unat (sp_capacity s) dvd 2 ^ 64" unfolding k(2) by (rule le_imp_power_dvd) (use k(1) in simp)
qed (use assms in \<open>simp_all add: spsc_inv_def\<close>)

text \<open>Counters are only read modulo the capacity, which divides the range of the counters.\<close>

lemma unat_wrap: "c dvd 2 ^ 64 \<Longrightarrow> unat ((a :: usize) + b) mod c = (unat a + unat b) mod c"
  by (simp add: unat_word_ariths mod_mod_cancel)

lemma spsc_tail_index:
  assumes "spsc_inv s"
  shows "unat (sp_tail s) mod unat (sp_capacity s) = (unat (sp_head s) + unat (spsc_len s)) mod unat (sp_capacity s)"
proof -
  have "sp_tail s = sp_head s + spsc_len s" by (simp add: spsc_len_def)
  then show ?thesis using unat_wrap [OF spsc_index(4) [OF assms]] by metis
qed

lemma unat_len_Suc:
  assumes "unat (l :: usize) < c" "c \<le> 2 ^ 62"
  shows "unat (l + 1) = Suc (unat l)"
proof -
  have "unat l + 1 < 2 ^ 64" using assms by simp
  then show ?thesis by (simp add: unat_word_ariths)
qed

lemma spsc_write_ok:
  assumes inv: "spsc_inv s" and room: "\<not> spsc_is_full s"
  shows "\<exists>s'. spsc_write x s = Some s' \<and> spsc_inv s' \<and> spsc_contents s' = spsc_contents s @ [x]
     \<and> s' = s\<lparr>sp_buffer := sp_buffer s', sp_tail := sp_tail s'\<rparr>"
proof -
  note I = spsc_index [OF inv]
  let ?c = "unat (sp_capacity s)" and ?h = "unat (sp_head s)" and ?n = "unat (spsc_len s)"
  let ?o = "(?h + ?n) mod ?c"
  have off: "unat (sp_tail s AND sp_mask s) = ?o" using I(1) spsc_tail_index [OF inv] by simp
  have lt: "?n < ?c" using room I(6) unfolding spsc_is_full_def by (metis le_neq_implies_less unsigned_word_eqI)
  define s' where "s' = s\<lparr>sp_buffer := (sp_buffer s)[?o := Some x], sp_tail := sp_tail s + 1\<rparr>"
  have w: "spsc_write x s = Some s'" using off I(2,5) by (simp add: spsc_write_def s'_def Let_def)
  have "spsc_len s' = spsc_len s + 1" by (simp add: spsc_len_def s'_def)
  then have n': "unat (spsc_len s') = Suc ?n" using unat_len_Suc [OF lt I(3)] by simp
  have f: "sp_capacity s' = sp_capacity s" "sp_mask s' = sp_mask s" "sp_head s' = sp_head s"
    "sp_buffer s' = (sp_buffer s)[?o := Some x]" by (simp_all add: s'_def)
  have cell: "sp_buffer s' ! ((?h + i) mod ?c) = (if i = ?n then Some x else sp_buffer s ! ((?h + i) mod ?c))" if "i \<le> ?n" for i
  proof (cases "i = ?n")
    case False
    then have "(?h + i) mod ?c \<noteq> ?o" using ring_index_inj [of i ?c ?n ?h] that lt by auto
    then show ?thesis using False f(4) by simp
  qed (use f(4) I(2,5) in simp)
  have "spsc_inv s'" unfolding spsc_inv_def n' f(1-3)
  proof (intro conjI allI impI)
    show "\<exists>k\<le>62. ?c = 2 ^ k \<and> sp_mask s = mask k" using inv by (simp add: spsc_inv_def)
    show "length (sp_buffer s') = ?c" using I(5) f(4) by simp
    show "Suc ?n \<le> ?c" using lt by simp
    show "sp_buffer s' ! ((?h + i) mod ?c) \<noteq> None" if "i < Suc ?n" for i
      using cell [of i] that inv by (auto simp: spsc_inv_def)
  qed
  moreover have "spsc_contents s' = spsc_contents s @ [x]"
    unfolding spsc_contents_def n' f(1,3) using cell by (auto simp: cell intro!: map_cong)
  ultimately show ?thesis using w by (auto simp: s'_def)
qed

lemma spsc_pop_ok:
  assumes inv: "spsc_inv s"
  shows "\<exists>s' r. spsc_pop s = Some (s', r) \<and> spsc_inv s' \<and> s' = s\<lparr>sp_head := sp_head s'\<rparr>
     \<and> (case spsc_contents s of [] \<Rightarrow> r = None \<and> s' = s | y # ys \<Rightarrow> r = Some y \<and> spsc_contents s' = ys)"
proof -
  note I = spsc_index [OF inv]
  let ?c = "unat (sp_capacity s)" and ?h = "unat (sp_head s)" and ?n = "unat (spsc_len s)"
  show ?thesis
  proof (cases "sp_head s = sp_tail s")
    case True
    then have "spsc_contents s = []" by (simp add: spsc_contents_def spsc_len_def)
    then show ?thesis using True inv by (intro exI [of _ s] exI [of _ None]) (simp add: spsc_pop_def spsc_is_empty_def)
  next
    case False
    then have nz: "spsc_len s \<noteq> 0" by (auto simp: spsc_len_def)
    then have pos: "0 < ?n" by (simp add: unat_gt_0)
    obtain y where y: "sp_buffer s ! (?h mod ?c) = Some y" using inv pos unfolding spsc_inv_def by fastforce
    define s' where "s' = s\<lparr>sp_head := sp_head s + 1\<rparr>"
    have p: "spsc_pop s = Some (s', Some y)" using False I(1,2,5) y by (simp add: spsc_pop_def spsc_is_empty_def s'_def Let_def)
    have "spsc_len s' = spsc_len s - 1" by (simp add: spsc_len_def s'_def)
    then have n': "unat (spsc_len s') = ?n - 1" using unat_minus_one [OF nz] by simp
    have f: "sp_capacity s' = sp_capacity s" "sp_mask s' = sp_mask s" "sp_buffer s' = sp_buffer s" by (simp_all add: s'_def)
    have h: "(unat (sp_head s') + i) mod ?c = (?h + Suc i) mod ?c" for i
      using unat_wrap [OF I(4), of "sp_head s" 1] by (simp add: s'_def) (metis add_Suc mod_add_left_eq)
    have "spsc_inv s'" unfolding spsc_inv_def n' f h
    proof (intro conjI allI impI)
      show "\<exists>k\<le>62. ?c = 2 ^ k \<and> sp_mask s = mask k" using inv by (simp add: spsc_inv_def)
      show "sp_buffer s ! ((?h + Suc i) mod ?c) \<noteq> None" if "i < ?n - 1" for i
      proof -
        have "Suc i < ?n" using that by simp
        then show ?thesis using inv unfolding spsc_inv_def by blast
      qed
    qed (use I(5,6) in auto)
    moreover have "spsc_contents s = y # spsc_contents s'"
    proof -
      have "[0..<?n] = 0 # map Suc [0..<?n - 1]" using pos by (simp add: map_Suc_upt upt_conv_Cons)
      then show ?thesis using y unfolding spsc_contents_def n' f h by (simp add: comp_def)
    qed
    ultimately show ?thesis using p by (auto simp: s'_def)
  qed
qed

lemma next_pow2_from_ok: "n \<le> next_pow2_from (2 ^ j) n \<and> (\<exists>k. next_pow2_from (2 ^ j) n = 2 ^ k)"
proof (induction "2 ^ j :: nat" n arbitrary: j rule: next_pow2_from.induct)
  case (1 n)
  show ?case
  proof (cases "n \<le> 2 ^ j")
    case True
    then show ?thesis by (subst (1 2) next_pow2_from.simps) auto
  next
    case False
    then show ?thesis using "1.hyps" [of "Suc j"] by (subst (1 2) next_pow2_from.simps) simp
  qed
qed

lemma next_power_of_two_ok: "n \<le> next_power_of_two n" "\<exists>k. next_power_of_two n = 2 ^ k"
  using next_pow2_from_ok [of n 0] by (simp_all add: next_power_of_two_def)

lemma layout_exponent:
  assumes "layout_array sz (2 ^ k)" "0 < sz"
  shows "k \<le> 62"
proof (rule ccontr)
  assume "\<not> k \<le> 62"
  then have "(2 :: nat) ^ 63 \<le> 2 ^ k" by (intro power_increasing) simp_all
  moreover have "(2 :: nat) ^ k \<le> 2 ^ k * sz" using assms(2) by simp
  ultimately show False using assms(1) unfolding layout_array_def by linarith
qed

lemma word_pow2:
  assumes "k \<le> 62"
  shows "unat (of_nat (2 ^ k) :: usize) = 2 ^ k" "(of_nat (2 ^ k) - 1 :: usize) = mask k"
proof -
  have "(2 :: nat) ^ k < 2 ^ 64" using assms by (intro power_strict_increasing) simp_all
  then show "unat (of_nat (2 ^ k) :: usize) = 2 ^ k" by (simp only: unat_of_nat_mod) simp
  show "(of_nat (2 ^ k) - 1 :: usize) = mask k" by (simp add: mask_eq_exp_minus_1)
qed

lemma spsc_new_ok:
  assumes "spsc_new sz c = Some s" "0 < sz"
  shows "spsc_inv s" "spsc_contents s = []" "sp_is_bounded s \<longleftrightarrow> c \<noteq> Unbounded" "sp_head s = 0" "\<not> sp_is_closed s"
    "unat (sp_capacity s) = (case c of Unbounded \<Rightarrow> 8 | Bounded n \<Rightarrow> next_power_of_two (max n 1))"
proof -
  let ?cap = "case c of Unbounded \<Rightarrow> 8 | Bounded n \<Rightarrow> next_power_of_two (max n 1)"
  obtain k where k: "?cap = 2 ^ k"
  proof (cases c)
    case Unbounded
    then show ?thesis using that [of 3] by simp
  next
    case (Bounded n)
    then show ?thesis using that next_power_of_two_ok(2) by auto
  qed
  have s: "layout_array sz ?cap" "s = \<lparr>sp_buffer = replicate ?cap None, sp_capacity = of_nat ?cap, sp_mask = of_nat ?cap - 1, sp_head = 0, sp_tail = 0,
      sp_is_closed = False, sp_producer_waker = None, sp_consumer_waker = None, sp_is_bounded = (c \<noteq> Unbounded), sp_woken = []\<rparr>"
    using assms(1) by (auto simp: spsc_new_def Let_def split: channel_capacity.splits if_splits)
  have k62: "k \<le> 62" using layout_exponent [OF _ assms(2)] s(1) k by metis
  note w = word_pow2 [OF k62]
  have cap: "unat (sp_capacity s) = 2 ^ k" "sp_mask s = mask k" unfolding s(2) k using w by simp_all
  then show "unat (sp_capacity s) = ?cap" using k by simp
  show "spsc_inv s" using cap k62 k unfolding spsc_inv_def by (auto simp: s(2) spsc_len_def)
  show "spsc_contents s = []" "sp_is_bounded s \<longleftrightarrow> c \<noteq> Unbounded" "sp_head s = 0" "\<not> sp_is_closed s"
    by (simp_all add: s(2) spsc_contents_def spsc_len_def)
qed

subsection \<open>Growing\<close>

lemma ring_wrap: "a < c \<Longrightarrow> i < c \<Longrightarrow> (a + i) mod (c :: nat) = (if a + i < c then a + i else a + i - c)"
  by (simp add: le_mod_geq)

text \<open>Growing a full ring lays its items out from the start of the new buffer, and resets the head;
  the tail keeps its old value.\<close>

lemma spsc_grow_ok:
  assumes inv: "spsc_inv s" and full: "spsc_is_full s" and lay: "layout_array sz (unat (sp_capacity s) * 2)" "0 < sz"
  shows "spsc_grow sz s = Some (s\<lparr>sp_buffer := map Some (spsc_contents s) @ replicate (unat (sp_capacity s)) None,
       sp_capacity := of_nat (unat (sp_capacity s) * 2), sp_mask := of_nat (unat (sp_capacity s) * 2) - 1, sp_head := 0\<rparr>)"
    "\<exists>k \<le> 62. unat (sp_capacity s) * 2 = 2 ^ k"
proof -
  note I = spsc_index [OF inv]
  let ?c = "unat (sp_capacity s)" and ?h = "unat (sp_head s)"
  obtain k where k: "?c = 2 ^ k" using inv by (auto simp: spsc_inv_def)
  then have "Suc k \<le> 62" using layout_exponent [of sz "Suc k"] lay by (simp add: mult.commute)
  then show "\<exists>k \<le> 62. ?c * 2 = 2 ^ k" using k by (intro exI [of _ "Suc k"]) simp
  have n: "unat (spsc_len s) = ?c" using full by (simp add: spsc_is_full_def)
  have hi: "unat (sp_head s AND sp_mask s) = ?h mod ?c" "unat (sp_tail s AND sp_mask s) = ?h mod ?c"
    using I(1) spsc_tail_index [OF inv] n by simp_all
  have lt: "?h mod ?c < ?c" using I(2) by simp
  have rot: "drop (?h mod ?c) (sp_buffer s) @ take (?h mod ?c) (sp_buffer s) = map Some (spsc_contents s)"
  proof (rule nth_equalityI)
    show "length (drop (?h mod ?c) (sp_buffer s) @ take (?h mod ?c) (sp_buffer s)) = length (map Some (spsc_contents s))"
      using I(5) lt n by (simp add: spsc_contents_def)
    fix i assume i: "i < length (drop (?h mod ?c) (sp_buffer s) @ take (?h mod ?c) (sp_buffer s))"
    then have ic: "i < ?c" using I(5) lt by simp
    have idx: "(?h + i) mod ?c = (if ?h mod ?c + i < ?c then ?h mod ?c + i else ?h mod ?c + i - ?c)"
    proof -
      have "(?h + i) mod ?c = (?h mod ?c + i) mod ?c" by (simp add: mod_add_left_eq)
      then show ?thesis using ring_wrap [OF lt ic] by simp
    qed
    have "map Some (spsc_contents s) ! i = sp_buffer s ! ((?h + i) mod ?c)"
      using inv ic n by (simp add: spsc_contents_def spsc_inv_def)
    moreover have "(drop (?h mod ?c) (sp_buffer s) @ take (?h mod ?c) (sp_buffer s)) ! i = sp_buffer s ! ((?h + i) mod ?c)"
      unfolding idx using I(5) lt ic by (auto simp: nth_append add.commute)
    ultimately show "(drop (?h mod ?c) (sp_buffer s) @ take (?h mod ?c) (sp_buffer s)) ! i = map Some (spsc_contents s) ! i" by simp
  qed
  have len: "length (spsc_contents s) = ?c" using n by (simp add: spsc_contents_def)
  let ?f = "\<lambda>copied. let s1 = s\<lparr>sp_buffer := copied @ replicate (?c * 2 - length copied) None,
      sp_capacity := of_nat (?c * 2), sp_mask := of_nat (?c * 2) - 1, sp_head := 0\<rparr> in s1\<lparr>sp_tail := spsc_len s1\<rparr>"
  have "spsc_grow sz s = map_option ?f (Some (drop (?h mod ?c) (sp_buffer s) @ take (?h mod ?c) (sp_buffer s)))"
    using lay(1) lt unfolding spsc_grow_def Let_def n hi by simp
  then show "spsc_grow sz s = Some (s\<lparr>sp_buffer := map Some (spsc_contents s) @ replicate ?c None,
       sp_capacity := of_nat (?c * 2), sp_mask := of_nat (?c * 2) - 1, sp_head := 0\<rparr>)"
    unfolding rot by (simp add: len spsc_len_def Let_def)
qed

subsection \<open>The contract, for bounded channels\<close>

definition spsc_bounded_inv :: "nat \<Rightarrow> 'a spsc \<Rightarrow> bool" where
  "spsc_bounded_inv c s \<longleftrightarrow> spsc_inv s \<and> sp_is_bounded s \<and> unat (sp_capacity s) = c"

lemma wake_simps [simp]:
  "spsc_inv (wake_consumer s) = spsc_inv s" "spsc_contents (wake_consumer s) = spsc_contents s"
  "sp_is_bounded (wake_consumer s) = sp_is_bounded s" "sp_capacity (wake_consumer s) = sp_capacity s" "sp_head (wake_consumer s) = sp_head s"
  "spsc_inv (wake_producer s) = spsc_inv s" "spsc_contents (wake_producer s) = spsc_contents s"
  "sp_is_bounded (wake_producer s) = sp_is_bounded s" "sp_capacity (wake_producer s) = sp_capacity s"
  "sp_is_closed (wake_consumer s) = sp_is_closed s" "sp_is_closed (wake_producer s) = sp_is_closed s"
  by (simp_all add: wake_consumer_def wake_producer_def spsc_inv_def spsc_contents_def spsc_len_def)

lemma spsc_push_bounded:
  assumes "spsc_bounded_inv c s"
  shows "\<exists>s' r. spsc_push sz x s = Some (s', r) \<and> spsc_bounded_inv c s' \<and> s' = s\<lparr>sp_buffer := sp_buffer s', sp_tail := sp_tail s'\<rparr>
     \<and> (if length (spsc_contents s) = c then r = Some x \<and> s' = s else r = None \<and> spsc_contents s' = spsc_contents s @ [x])"
proof -
  have i: "spsc_inv s" "sp_is_bounded s" "unat (sp_capacity s) = c" using assms by (simp_all add: spsc_bounded_inv_def)
  have full: "spsc_is_full s \<longleftrightarrow> length (spsc_contents s) = c"
    using i(3) by (auto simp: spsc_is_full_def spsc_contents_def intro: unsigned_word_eqI)
  show ?thesis
  proof (cases "spsc_is_full s")
    case True
    then show ?thesis using full i assms by (intro exI [of _ s] exI [of _ "Some x"]) (simp add: spsc_push_def)
  next
    case False
    obtain s' where s': "spsc_write x s = Some s'" "spsc_inv s'" "spsc_contents s' = spsc_contents s @ [x]"
      "s' = s\<lparr>sp_buffer := sp_buffer s', sp_tail := sp_tail s'\<rparr>"
      using spsc_write_ok [OF i(1) False] by blast
    have "sp_is_bounded s'" "sp_capacity s' = sp_capacity s" by (subst s'(4), simp add: i(2))+
    then show ?thesis using False full s' i by (intro exI [of _ s'] exI [of _ None]) (simp add: spsc_push_def spsc_bounded_inv_def)
  qed
qed

lemma spsc_send_law:
  assumes inv: "spsc_bounded_inv c s"
  shows "\<exists>s' r. spsc_try_send sz x s = Some (s', r) \<and> spsc_bounded_inv c s'
     \<and> (spsc_contents s', r) = queue_send (Some c) (sp_is_closed s) x (spsc_contents s) \<and> sp_is_closed s' = sp_is_closed s"
proof -
  have "length (spsc_contents s) \<le> c" using inv spsc_index(6) by (auto simp: spsc_bounded_inv_def spsc_contents_def)
  moreover obtain s' r where p: "spsc_push sz x s = Some (s', r)" "spsc_bounded_inv c s'" "s' = s\<lparr>sp_buffer := sp_buffer s', sp_tail := sp_tail s'\<rparr>"
    "if length (spsc_contents s) = c then r = Some x \<and> s' = s else r = None \<and> spsc_contents s' = spsc_contents s @ [x]"
    using spsc_push_bounded [OF inv, of sz x] by blast
  moreover have "sp_is_closed s' = sp_is_closed s" by (subst p(3)) simp
  ultimately show ?thesis using inv
    by (auto simp: spsc_try_send_def queue_send_def spsc_bounded_inv_def split: if_splits)
qed

lemma spsc_recv_law:
  assumes inv: "spsc_bounded_inv c s"
  shows "\<exists>s' r. spsc_try_recv s = Some (s', r) \<and> spsc_bounded_inv c s'
     \<and> (spsc_contents s', r) = queue_recv (sp_is_closed s) (spsc_contents s) \<and> sp_is_closed s' = sp_is_closed s"
proof -
  have i: "spsc_inv s" using inv by (simp add: spsc_bounded_inv_def)
  obtain s' r where p: "spsc_pop s = Some (s', r)" "spsc_inv s'" "s' = s\<lparr>sp_head := sp_head s'\<rparr>"
    "case spsc_contents s of [] \<Rightarrow> r = None \<and> s' = s | y # ys \<Rightarrow> r = Some y \<and> spsc_contents s' = ys"
    using spsc_pop_ok [OF i] by blast
  have "sp_is_bounded s' = sp_is_bounded s" "sp_capacity s' = sp_capacity s" "sp_is_closed s' = sp_is_closed s" by (subst p(3), simp)+
  then show ?thesis using p(1,2,4) inv
    by (cases "spsc_contents s") (auto simp: spsc_try_recv_def spsc_bounded_inv_def queue_recv_def)
qed

interpretation spsc: fifo_channel "spsc_bounded_inv c" spsc_contents "\<lambda>_. Some c" sp_is_closed sp_is_closed "spsc_try_send sz" spsc_try_recv for c sz
proof
  show "\<exists>s' r. spsc_try_send sz x s = Some (s', r) \<and> spsc_bounded_inv c s' \<and> (spsc_contents s', r) = queue_send (Some c) (sp_is_closed s) x (spsc_contents s)
      \<and> Some c = Some c \<and> sp_is_closed s' = sp_is_closed s \<and> sp_is_closed s' = sp_is_closed s" if "spsc_bounded_inv c s" for s :: "'a spsc" and x
    using spsc_send_law [OF that, of sz x] by simp
  show "\<exists>s' r. spsc_try_recv s = Some (s', r) \<and> spsc_bounded_inv c s' \<and> (spsc_contents s', r) = queue_recv (sp_is_closed s) (spsc_contents s)
      \<and> Some c = Some c \<and> sp_is_closed s' = sp_is_closed s \<and> sp_is_closed s' = sp_is_closed s" if "spsc_bounded_inv c s" for s :: "'a spsc"
    using spsc_recv_law [OF that] by simp
qed

text \<open>C37. A bounded ring buffer channel is a first-in first-out queue of its capacity rounded up to
  a power of two, at least one. From a new channel, every sequence of sends and receives, through any
  wrap-around of the ring, returns without reading memory never written, and every answer is the one
  of the queue: a send is accepted exactly while fewer items than the capacity are inside and handed
  back as refused otherwise, a receive gives the oldest item inside exactly when there is one. The
  contents agree as well.\<close>

theorem spsc_bounded_fifo:
  assumes "spsc_new sz (Bounded n) = Some s" "0 < sz"
  shows "\<exists>s' rs. chan_run (spsc_try_send sz) spsc_try_recv cs s = Some (s', rs)
     \<and> (spsc_contents s', rs) = queue_run (Some (next_power_of_two (max n 1))) False False cs []"
proof -
  note new = spsc_new_ok [OF assms]
  have "spsc_bounded_inv (next_power_of_two (max n 1)) s" using new by (simp add: spsc_bounded_inv_def)
  moreover have "\<not> sp_is_closed s" using assms(1) by (auto simp: spsc_new_def Let_def split: if_splits)
  ultimately show ?thesis using spsc.run_refines [of "next_power_of_two (max n 1)" s sz cs] new(2) by auto
qed

theorem spsc_bounded_fifo_witness:
  "\<exists>s s'. spsc_new 4 (Bounded 1) = Some s
     \<and> chan_run (spsc_try_send 4) spsc_try_recv [Send_Item 1, Send_Item (2 :: nat), Recv_Item, Recv_Item] s
       = Some (s', [Sent (Inr ()), Sent (Inl (SendFull 2)), Received (Inr 1), Received (Inl RecvEmpty)]) \<and> spsc_contents s' = []"
proof -
  have one: "next_power_of_two 1 = 1" by (simp add: next_power_of_two_def next_pow2_from.simps)
  then obtain s :: "nat spsc" where s: "spsc_new 4 (Bounded 1) = Some s" by (simp add: spsc_new_def layout_array_def Let_def)
  show ?thesis using spsc_bounded_fifo [OF s, of "[Send_Item 1, Send_Item 2, Recv_Item, Recv_Item]"] s one
    by (auto simp: queue_send_def queue_recv_def)
qed

text \<open>C38. Growing an unbounded channel keeps its items exactly when nothing has been received yet, or
  more precisely when the head counter is zero: the head is reset, but the tail is set from the
  difference to the new head instead of the old one. With any other head the length of the channel
  after growing is wrong.\<close>

theorem spsc_grow_keeps_items_iff:
  assumes "spsc_inv s" "spsc_is_full s" "layout_array sz (unat (sp_capacity s) * 2)" "0 < sz"
  shows "\<exists>s'. spsc_grow sz s = Some s' \<and> (spsc_inv s' \<and> spsc_contents s' = spsc_contents s \<longleftrightarrow> sp_head s = 0)
     \<and> (sp_head s \<noteq> 0 \<longrightarrow> spsc_len s' \<noteq> spsc_len s \<and> spsc_contents s' \<noteq> spsc_contents s)"
proof -
  let ?c = "unat (sp_capacity s)"
  let ?s = "s\<lparr>sp_buffer := map Some (spsc_contents s) @ replicate ?c None, sp_capacity := of_nat (?c * 2), sp_mask := of_nat (?c * 2) - 1, sp_head := 0\<rparr>"
  note I = spsc_index [OF assms(1)]
  note g = spsc_grow_ok [OF assms]
  obtain k where k: "k \<le> 62" "?c * 2 = 2 ^ k" using g(2) by auto
  have cap: "unat (sp_capacity ?s) = ?c * 2" "sp_mask ?s = mask k" using word_pow2 [OF k(1)] k(2) by simp_all
  have n: "unat (spsc_len s) = ?c" "length (spsc_contents s) = ?c" using assms(2) by (simp_all add: spsc_is_full_def spsc_contents_def)
  have len: "spsc_len ?s = spsc_len s + sp_head s" by (simp add: spsc_len_def)
  have neq: "spsc_len ?s \<noteq> spsc_len s" if "sp_head s \<noteq> 0" using len that by simp
  have no: "spsc_contents ?s \<noteq> spsc_contents s" if "sp_head s \<noteq> 0"
  proof
    assume "spsc_contents ?s = spsc_contents s"
    then have "unat (spsc_len ?s) = unat (spsc_len s)" using length_spsc_contents by metis
    then show False using neq [OF that] unsigned_word_eqI by blast
  qed
  have yes: "spsc_inv ?s \<and> spsc_contents ?s = spsc_contents s" if z: "sp_head s = 0"
  proof -
    have n': "unat (spsc_len ?s) = ?c" using len z n(1) by simp
    have cell: "sp_buffer ?s ! ((unat (sp_head ?s) + i) mod unat (sp_capacity ?s)) = Some (spsc_contents s ! i)" if "i < ?c" for i
      unfolding cap(1) using that n(2) by (simp add: nth_append)
    have "spsc_inv ?s" unfolding spsc_inv_def n'
      using k cap cell n(2) by (auto simp: cap(1) simp del: spsc.select_convs)
    moreover have "spsc_contents ?s = spsc_contents s"
      unfolding spsc_contents_def [of ?s] n' using cell n(2) by (intro nth_equalityI) simp_all
    ultimately show ?thesis ..
  qed
  show ?thesis using g(1) no yes neq by (intro exI [of _ ?s]) blast
qed

lemmas spsc_run_simps = spsc_try_send_def spsc_try_recv_def spsc_push_def spsc_pop_def spsc_write_def
  spsc_grow_def spsc_is_full_def spsc_is_empty_def spsc_len_def wake_consumer_def wake_producer_def layout_array_def Let_def

lemma short_lists: "replicate 4 x = [x, x, x, x]" "replicate 8 x = [x, x, x, x, x, x, x, x]"
  "[0..<4] = [0, 1, 2, 3]" "[0..<8] = [0, 1, 2, 3, 4, 5, 6, 7]" "[0..<9] = [0, 1, 2, 3, 4, 5, 6, 7, 8]"
  "(y # xs)[numeral n := x] = y # xs[pred_numeral n := x]"
  by (simp_all add: numeral_eq_Suc)

theorem spsc_grow_keeps_items_iff_witness:
  "\<exists>s s'. spsc_inv (s :: nat spsc) \<and> spsc_is_full s \<and> spsc_grow 4 s = Some s' \<and> spsc_contents s' \<noteq> spsc_contents s \<and> spsc_len s' \<noteq> spsc_len s"
proof -
  define s :: "nat spsc" where "s = \<lparr>sp_buffer = [Some 5, Some 6], sp_capacity = 2, sp_mask = 1, sp_head = 1, sp_tail = 3,
    sp_is_closed = False, sp_producer_waker = None, sp_consumer_waker = None, sp_is_bounded = False, sp_woken = []\<rparr>"
  have m: "sp_mask s = mask 1" by (simp add: mask_eq_exp_minus_1 s_def)
  have c: "unat (sp_capacity s) = 2" "unat (spsc_len s) = 2" "unat (sp_head s) = 1" by (simp_all add: s_def spsc_len_def)
  have "sp_buffer s ! ((1 + i) mod 2) \<noteq> None" if "i < 2" for i
    using that by (cases "i = 0") (auto simp: s_def less_2_cases_iff)
  then have "spsc_inv s" unfolding spsc_inv_def c m
    by (intro conjI exI [of _ 1] allI impI) (simp_all add: s_def)
  moreover have f: "spsc_is_full s" "layout_array 4 (unat (sp_capacity s) * 2)" "sp_head s \<noteq> 0"
    by (simp_all add: s_def spsc_is_full_def spsc_len_def layout_array_def)
  ultimately show ?thesis using spsc_grow_keeps_items_iff [of s 4] by auto
qed

text \<open>An unbounded channel reads memory that was never written, after an ordinary use: four items
  sent and received, then nine items sent; the ninth send grows the buffer and leaves a gap of four
  cells, and the ninth receive after that reads the first of them (undefined behaviour in the code).
  The first eight receives still give the right items, and the channel reports a length of thirteen.\<close>

theorem spsc_unbounded_reads_uninitialised:
  "\<exists>s s1 rs. spsc_new 4 Unbounded = Some (s :: nat spsc)
     \<and> chan_run (spsc_try_send 4) spsc_try_recv (map Send_Item [0..<4] @ replicate 4 Recv_Item @ map Send_Item [0..<9] @ replicate 8 Recv_Item) s
         = Some (s1, rs) \<and> received_items rs = [0..<4] @ [0..<8] \<and> spsc_len s1 = 5 \<and> spsc_try_recv s1 = None"
proof -
  define s :: "nat spsc" where "s = \<lparr>sp_buffer = replicate 8 None, sp_capacity = 8, sp_mask = 7, sp_head = 0, sp_tail = 0,
    sp_is_closed = False, sp_producer_waker = None, sp_consumer_waker = None, sp_is_bounded = False, sp_woken = []\<rparr>"
  have "spsc_new 4 Unbounded = Some s" by (simp add: spsc_new_def layout_array_def s_def Let_def)
  moreover have "map_option (\<lambda>(s1, rs). (received_items rs, spsc_len s1, spsc_try_recv s1)) (chan_run (spsc_try_send 4) spsc_try_recv
      (map Send_Item [0..<4] @ replicate 4 Recv_Item @ map Send_Item [0..<9] @ replicate 8 Recv_Item) s)
      = Some ([0..<4] @ [0..<8], 5, None)"
    unfolding s_def unfolding short_lists by (simp add: spsc_run_simps short_lists)
  then have "\<exists>s1 rs. chan_run (spsc_try_send 4) spsc_try_recv
      (map Send_Item [0..<4] @ replicate 4 Recv_Item @ map Send_Item [0..<9] @ replicate 8 Recv_Item) s
      = Some (s1, rs) \<and> received_items rs = [0..<4] @ [0..<8] \<and> spsc_len s1 = 5 \<and> spsc_try_recv s1 = None" by auto
  ultimately show ?thesis by blast
qed

end
