(* ===== verification/Local_Mpmc.thy ===== *)
theory Local_Mpmc
  imports Local_Channel
begin

text \<open>
  The multi-producer multi-consumer channel of one thread (\<^verbatim>\<open>veloq-local/src/mpmc.rs\<close>): a queue,
  the counts of its handles, and two lists of waiter nodes. A waiter node is a number, one name
  space for the futures that wait for room and one for those that wait for an item; the wakers of
  the nodes are part of the state. Wakers that were woken are appended to \<open>ch_woken\<close>. \<open>None\<close> is a
  panic.
\<close>

datatype waiter_action = SenderAction | ReceiverAction

record 'a chan =
  ch_capacity :: channel_capacity
  ch_channel :: "'a list"
  ch_tx_count :: nat
  ch_rx_count :: nat
  ch_is_closed :: bool
  ch_recv_waiters :: "nat list"
  ch_send_waiters :: "nat list"
  ch_node_waker :: "waiter_action \<Rightarrow> nat \<Rightarrow> waker option"
  ch_woken :: "waker list"

definition chan_new :: "channel_capacity \<Rightarrow> 'a chan" where
  "chan_new capacity = \<lparr>ch_capacity = capacity, ch_channel = [], ch_tx_count = 1, ch_rx_count = 1, ch_is_closed = False,
     ch_recv_waiters = [], ch_send_waiters = [], ch_node_waker = (\<lambda>_ _. None), ch_woken = []\<rparr>"

definition chan_split :: "'a chan \<Rightarrow> 'a chan" where
  "chan_split c = c\<lparr>ch_tx_count := 1, ch_rx_count := 1, ch_is_closed := False\<rparr>"

fun get_list :: "waiter_action \<Rightarrow> 'a chan \<Rightarrow> nat list" where
  "get_list SenderAction c = ch_send_waiters c"
| "get_list ReceiverAction c = ch_recv_waiters c"

fun set_list :: "waiter_action \<Rightarrow> nat list \<Rightarrow> 'a chan \<Rightarrow> 'a chan" where
  "set_list SenderAction ns c = c\<lparr>ch_send_waiters := ns\<rparr>"
| "set_list ReceiverAction ns c = c\<lparr>ch_recv_waiters := ns\<rparr>"

definition set_node_waker :: "waiter_action \<Rightarrow> nat \<Rightarrow> waker option \<Rightarrow> 'a chan \<Rightarrow> 'a chan" where
  "set_node_waker a n w c = c\<lparr>ch_node_waker := (ch_node_waker c)(a := (ch_node_waker c a)(n := w))\<rparr>"

definition wake_opt :: "waker option \<Rightarrow> 'a chan \<Rightarrow> 'a chan" where
  "wake_opt w c = c\<lparr>ch_woken := ch_woken c @ (case w of None \<Rightarrow> [] | Some x \<Rightarrow> [x])\<rparr>"

definition chan_is_full :: "'a chan \<Rightarrow> bool" where
  "chan_is_full c = (case ch_capacity c of Unbounded \<Rightarrow> False | Bounded x \<Rightarrow> length (ch_channel c) \<ge> x)"

definition chan_push :: "'a \<Rightarrow> 'a chan \<Rightarrow> ('a chan \<times> ('a send_error + waker option)) option" where
  "chan_push item c =
     (if ch_is_closed c then Some (c, Inl (SendClosed item))
      else if chan_is_full c then Some (c, Inl (SendFull item))
      else
        let c1 = c\<lparr>ch_channel := ch_channel c @ [item]\<rparr>
        in case ch_recv_waiters c1 of
             [] \<Rightarrow> Some (c1, Inr None)
           | n # ns \<Rightarrow>
               (case ch_node_waker c1 ReceiverAction n of
                  None \<Rightarrow> None
                | Some w \<Rightarrow> Some (set_node_waker ReceiverAction n None (c1\<lparr>ch_recv_waiters := ns\<rparr>), Inr (Some w))))"

definition wait_for_room :: "'a chan \<Rightarrow> 'a chan \<times> unit poll" where
  "wait_for_room c = (c, if ch_is_closed c \<or> \<not> chan_is_full c then Ready () else Pending)"

definition recv_one :: "'a chan \<Rightarrow> 'a chan \<times> ('a \<times> waker option) option poll" where
  "recv_one c =
     (case ch_channel c of
        item # rest \<Rightarrow>
          let c1 = c\<lparr>ch_channel := rest\<rparr>
          in (case ch_send_waiters c1 of
                [] \<Rightarrow> (c1, Ready (Some (item, None)))
              | n # ns \<Rightarrow>
                  (set_node_waker SenderAction n None (c1\<lparr>ch_send_waiters := ns\<rparr>),
                   Ready (Some (item, ch_node_waker c1 SenderAction n))))
      | [] \<Rightarrow> (c, if 0 < ch_tx_count c \<and> \<not> ch_is_closed c then Pending else Ready None))"

definition register_into_waiting_queue :: "waiter_action \<Rightarrow> nat \<Rightarrow> 'a chan \<Rightarrow> 'a chan" where
  "register_into_waiting_queue a n c = (if n \<in> set (get_list a c) then c else set_list a (get_list a c @ [n]) c)"

definition remove_from_the_waiting_queue :: "waiter_action \<Rightarrow> nat \<Rightarrow> 'a chan \<Rightarrow> 'a chan" where
  "remove_from_the_waiting_queue a n c = (if n \<notin> set (get_list a c) then c else set_list a (remove1 n (get_list a c)) c)"

definition waiter_poll ::
  "waiter_action \<Rightarrow> ('a chan \<Rightarrow> 'a chan \<times> 'r poll) \<Rightarrow> nat \<Rightarrow> waker \<Rightarrow> 'a chan \<Rightarrow> 'a chan \<times> 'r poll" where
  "waiter_poll a poll_fn n cx c =
     (case poll_fn c of
        (c1, Pending) \<Rightarrow>
          let c2 = set_node_waker a n (update_waker (ch_node_waker c1 a n) cx) c1
          in (if n \<notin> set (get_list a c2) then register_into_waiting_queue a n c2 else c2, Pending)
      | (c1, Ready r) \<Rightarrow> (remove_from_the_waiting_queue a n c1, Ready r))"

definition waiter_drop :: "waiter_action \<Rightarrow> nat \<Rightarrow> 'a chan \<Rightarrow> 'a chan" where
  "waiter_drop a n c = (if n \<in> set (get_list a c) then remove_from_the_waiting_queue a n c else c)"

definition chan_try_send :: "'a \<Rightarrow> 'a chan \<Rightarrow> ('a chan \<times> ('a send_error + unit)) option" where
  "chan_try_send item c =
     (case chan_push item c of
        None \<Rightarrow> None
      | Some (c1, Inl e) \<Rightarrow> Some (c1, Inl e)
      | Some (c1, Inr w) \<Rightarrow> Some (wake_opt w c1, Inr ()))"

text \<open>One poll of the future of \<^verbatim>\<open>send\<close>: the waiter, then the send in the same poll.\<close>

definition chan_send_poll :: "nat \<Rightarrow> waker \<Rightarrow> 'a \<Rightarrow> 'a chan \<Rightarrow> ('a chan \<times> ('a send_error + unit) poll) option" where
  "chan_send_poll n cx item c =
     (case waiter_poll SenderAction wait_for_room n cx c of
        (c1, Pending) \<Rightarrow> Some (c1, Pending)
      | (c1, Ready _) \<Rightarrow> map_option (\<lambda>(c2, r). (c2, Ready r)) (chan_try_send item (waiter_drop SenderAction n c1)))"

fun wake_nodes :: "waiter_action \<Rightarrow> nat list \<Rightarrow> 'a chan \<Rightarrow> 'a chan" where
  "wake_nodes a [] c = c"
| "wake_nodes a (n # ns) c =
     wake_nodes a ns (set_list a ns (wake_opt (ch_node_waker c a n) (set_node_waker a n None c)))"

definition wake_up_all :: "waiter_action \<Rightarrow> 'a chan \<Rightarrow> 'a chan" where
  "wake_up_all a c = wake_nodes a (get_list a c) c"

definition sender_clone :: "'a chan \<Rightarrow> 'a chan" where
  "sender_clone c = c\<lparr>ch_tx_count := ch_tx_count c + 1\<rparr>"

definition sender_drop :: "'a chan \<Rightarrow> 'a chan" where
  "sender_drop c =
     (let c1 = c\<lparr>ch_tx_count := ch_tx_count c - 1\<rparr>
      in if ch_tx_count c1 = 0 then wake_up_all ReceiverAction (wake_up_all SenderAction c1) else c1)"

definition receiver_clone :: "'a chan \<Rightarrow> 'a chan" where
  "receiver_clone c = c\<lparr>ch_rx_count := ch_rx_count c + 1\<rparr>"

definition receiver_drop :: "'a chan \<Rightarrow> 'a chan" where
  "receiver_drop c =
     (let c1 = c\<lparr>ch_rx_count := ch_rx_count c - 1\<rparr>
      in if ch_rx_count c1 = 0 then wake_up_all SenderAction (wake_up_all ReceiverAction (c1\<lparr>ch_is_closed := True\<rparr>)) else c1)"

text \<open>\<^verbatim>\<open>Receiver::recv_one\<close> wakes the sender it made room for.\<close>

definition receiver_recv_one :: "'a chan \<Rightarrow> 'a chan \<times> 'a option poll" where
  "receiver_recv_one c =
     (case recv_one c of
        (c1, Pending) \<Rightarrow> (c1, Pending)
      | (c1, Ready None) \<Rightarrow> (c1, Ready None)
      | (c1, Ready (Some (item, w))) \<Rightarrow> (wake_opt w c1, Ready (Some item)))"

definition chan_recv_poll :: "nat \<Rightarrow> waker \<Rightarrow> 'a chan \<Rightarrow> 'a chan \<times> 'a option poll" where
  "chan_recv_poll n cx c = waiter_poll ReceiverAction receiver_recv_one n cx c"

definition stream_poll_next :: "nat \<Rightarrow> waker \<Rightarrow> 'a chan \<Rightarrow> 'a chan \<times> 'a option poll" where
  "stream_poll_next n cx c =
     (case recv_one c of
        (c1, Pending) \<Rightarrow>
          let c2 = set_node_waker ReceiverAction n (update_waker (ch_node_waker c1 ReceiverAction n) cx) c1
          in (if n \<notin> set (ch_recv_waiters c2) then register_into_waiting_queue ReceiverAction n c2 else c2, Pending)
      | (c1, Ready r) \<Rightarrow>
          let c2 = remove_from_the_waiting_queue ReceiverAction n c1
          in (case r of None \<Rightarrow> (c2, Ready None) | Some (ret, mw) \<Rightarrow> (wake_opt mw c2, Ready (Some ret))))"

definition stream_drop :: "nat \<Rightarrow> 'a chan \<Rightarrow> 'a chan" where
  "stream_drop n c = remove_from_the_waiting_queue ReceiverAction n c"

definition chan_try_recv :: "'a chan \<Rightarrow> 'a chan \<times> (try_recv_error + 'a)" where
  "chan_try_recv c =
     (case recv_one c of
        (c1, Pending) \<Rightarrow> (c1, Inl RecvEmpty)
      | (c1, Ready (Some (ret, mw))) \<Rightarrow> (wake_opt mw c1, Inr ret)
      | (c1, Ready None) \<Rightarrow> (c1, Inl RecvClosed))"

subsection \<open>Waiters and notifications\<close>

text \<open>A future whose node has been taken off its list, and which has not been polled since, is
  notified; the sets \<open>N\<close> of the notified futures are not part of the code.\<close>

type_synonym note_sets = "waiter_action \<Rightarrow> nat set"

definition notified :: "(waiter_action \<times> nat) set \<Rightarrow> 'a chan \<Rightarrow> 'a chan \<Rightarrow> note_sets \<Rightarrow> note_sets" where
  "notified P c c' N = (\<lambda>a. (N a \<union> (set (get_list a c) - set (get_list a c'))) - {n. (a, n) \<in> P})"

text \<open>The nodes on a list have a waker, and there are at least as many notified receivers as items
  while a receiver waits, and as many notified senders as free places while a sender waits.\<close>

definition nodes_ok :: "waiter_action \<Rightarrow> 'a chan \<Rightarrow> note_sets \<Rightarrow> bool" where
  "nodes_ok a c N \<longleftrightarrow> distinct (get_list a c) \<and> set (get_list a c) \<inter> N a = {} \<and> finite (N a)
     \<and> (\<forall>n \<in> set (get_list a c). ch_node_waker c a n \<noteq> None)"

definition chan_ok :: "'a chan \<Rightarrow> note_sets \<Rightarrow> bool" where
  "chan_ok c N \<longleftrightarrow> nodes_ok SenderAction c N \<and> nodes_ok ReceiverAction c N
     \<and> (ch_recv_waiters c \<noteq> [] \<longrightarrow> length (ch_channel c) \<le> card (N ReceiverAction))
     \<and> (ch_send_waiters c \<noteq> [] \<longrightarrow> (\<exists>x. ch_capacity c = Bounded x \<and> x \<le> length (ch_channel c) + card (N SenderAction)))
     \<and> (ch_is_closed c \<or> ch_tx_count c = 0 \<longrightarrow> ch_recv_waiters c = []) \<and> (ch_is_closed c \<longrightarrow> ch_send_waiters c = [])"

lemma chan_field_simps [simp]:
  "ch_channel (wake_opt w c) = ch_channel c" "ch_tx_count (wake_opt w c) = ch_tx_count c" "ch_is_closed (wake_opt w c) = ch_is_closed c"
  "ch_capacity (wake_opt w c) = ch_capacity c" "ch_recv_waiters (wake_opt w c) = ch_recv_waiters c" "ch_send_waiters (wake_opt w c) = ch_send_waiters c"
  "ch_node_waker (wake_opt w c) = ch_node_waker c" "get_list a (wake_opt w c) = get_list a c" "ch_rx_count (wake_opt w c) = ch_rx_count c"
  "ch_channel (set_node_waker b n v c) = ch_channel c" "ch_tx_count (set_node_waker b n v c) = ch_tx_count c" "ch_is_closed (set_node_waker b n v c) = ch_is_closed c"
  "ch_capacity (set_node_waker b n v c) = ch_capacity c" "ch_recv_waiters (set_node_waker b n v c) = ch_recv_waiters c"
  "ch_send_waiters (set_node_waker b n v c) = ch_send_waiters c" "get_list a (set_node_waker b n v c) = get_list a c"
  "ch_rx_count (set_node_waker b n v c) = ch_rx_count c" "ch_woken (set_node_waker b n v c) = ch_woken c"
  "ch_node_waker (set_node_waker b n v c) a k = (if a = b \<and> k = n then v else ch_node_waker c a k)"
  by (cases a; simp add: wake_opt_def set_node_waker_def)+

lemma set_list_simps [simp]:
  "get_list a (set_list a ns c) = ns" "a \<noteq> b \<Longrightarrow> get_list a (set_list b ns c) = get_list a c"
  "ch_channel (set_list b ns c) = ch_channel c" "ch_tx_count (set_list b ns c) = ch_tx_count c" "ch_is_closed (set_list b ns c) = ch_is_closed c"
  "ch_capacity (set_list b ns c) = ch_capacity c" "ch_node_waker (set_list b ns c) = ch_node_waker c" "ch_rx_count (set_list b ns c) = ch_rx_count c"
  by (cases a; cases b; simp)+

lemma chan_ok_wake [simp]: "chan_ok (wake_opt w c) N = chan_ok c N" "notified P c (wake_opt w c') N = notified P c c' N"
  by (simp_all add: chan_ok_def nodes_ok_def notified_def)

lemma notified_simps:
  "notified P c c' N SenderAction = (N SenderAction \<union> (set (ch_send_waiters c) - set (ch_send_waiters c'))) - {n. (SenderAction, n) \<in> P}"
  "notified P c c' N ReceiverAction = (N ReceiverAction \<union> (set (ch_recv_waiters c) - set (ch_recv_waiters c'))) - {n. (ReceiverAction, n) \<in> P}"
  by (simp_all add: notified_def)

lemma chan_okD:
  assumes "chan_ok c N"
  shows "distinct (ch_send_waiters c)" "set (ch_send_waiters c) \<inter> N SenderAction = {}" "finite (N SenderAction)"
    "n \<in> set (ch_send_waiters c) \<Longrightarrow> ch_node_waker c SenderAction n \<noteq> None"
    "distinct (ch_recv_waiters c)" "set (ch_recv_waiters c) \<inter> N ReceiverAction = {}" "finite (N ReceiverAction)"
    "n \<in> set (ch_recv_waiters c) \<Longrightarrow> ch_node_waker c ReceiverAction n \<noteq> None"
    "ch_recv_waiters c \<noteq> [] \<Longrightarrow> length (ch_channel c) \<le> card (N ReceiverAction)"
    "ch_send_waiters c \<noteq> [] \<Longrightarrow> \<exists>x. ch_capacity c = Bounded x \<and> x \<le> length (ch_channel c) + card (N SenderAction)"
    "ch_is_closed c \<Longrightarrow> ch_recv_waiters c = []" "ch_tx_count c = 0 \<Longrightarrow> ch_recv_waiters c = []" "ch_is_closed c \<Longrightarrow> ch_send_waiters c = []"
  using assms unfolding chan_ok_def nodes_ok_def by auto

lemma chan_okI:
  assumes "distinct (ch_send_waiters c)" "set (ch_send_waiters c) \<inter> N SenderAction = {}" "finite (N SenderAction)"
    "\<And>n. n \<in> set (ch_send_waiters c) \<Longrightarrow> ch_node_waker c SenderAction n \<noteq> None"
    "distinct (ch_recv_waiters c)" "set (ch_recv_waiters c) \<inter> N ReceiverAction = {}" "finite (N ReceiverAction)"
    "\<And>n. n \<in> set (ch_recv_waiters c) \<Longrightarrow> ch_node_waker c ReceiverAction n \<noteq> None"
    "ch_recv_waiters c \<noteq> [] \<Longrightarrow> length (ch_channel c) \<le> card (N ReceiverAction)"
    "ch_send_waiters c \<noteq> [] \<Longrightarrow> \<exists>x. ch_capacity c = Bounded x \<and> x \<le> length (ch_channel c) + card (N SenderAction)"
    "ch_is_closed c \<Longrightarrow> ch_recv_waiters c = []" "ch_tx_count c = 0 \<Longrightarrow> ch_recv_waiters c = []" "ch_is_closed c \<Longrightarrow> ch_send_waiters c = []"
  shows "chan_ok c N"
  using assms unfolding chan_ok_def nodes_ok_def by auto

lemma card_less_one: "finite A \<Longrightarrow> card A \<le> Suc (card (A - {n}))"
  using card_Suc_Diff1 [of A n] by (cases "n \<in> A") auto

lemma chan_push_ok:
  assumes ok: "chan_ok c N"
  shows "\<exists>c' r. chan_push x c = Some (c', r) \<and> chan_ok c' (notified {} c c' N)"
proof (cases "ch_is_closed c \<or> chan_is_full c")
  case True
  then show ?thesis using ok by (auto simp: chan_push_def notified_def)
next
  case False
  note D = chan_okD [OF ok]
  show ?thesis
  proof (cases "ch_recv_waiters c")
    case Nil
    let ?c = "c\<lparr>ch_channel := ch_channel c @ [x]\<rparr>"
    have "chan_ok ?c (notified {} c ?c N)"
      by (rule chan_okI) (use D Nil False in \<open>auto simp: notified_simps\<close>)
    then show ?thesis using False Nil by (simp add: chan_push_def)
  next
    case (Cons n ns)
    then obtain w where w: "ch_node_waker c ReceiverAction n = Some w" using D(8) [of n] by auto
    let ?c = "set_node_waker ReceiverAction n None (c\<lparr>ch_channel := ch_channel c @ [x], ch_recv_waiters := ns\<rparr>)"
    have push: "chan_push x c = Some (?c, Inr (Some w))" using False Cons w by (simp add: chan_push_def Let_def)
    have N: "N ReceiverAction \<union> (set (ch_recv_waiters c) - set ns) = insert n (N ReceiverAction)" using D(5) Cons by auto
    have "card (insert n (N ReceiverAction)) = Suc (card (N ReceiverAction))" using D(6,7) Cons by (intro card_insert_disjoint) auto
    then have "chan_ok ?c (notified {} c ?c N)"
      by (intro chan_okI) (use D Cons False N in \<open>auto simp: notified_simps\<close>)
    then show ?thesis using push by blast
  qed
qed

lemma chan_try_send_ok:
  assumes "chan_ok c N"
  shows "\<exists>c' r. chan_try_send x c = Some (c', r) \<and> chan_ok c' (notified {} c c' N)"
  using chan_push_ok [OF assms, of x] by (auto simp: chan_try_send_def split: sum.splits)

lemma recv_one_cases:
  obtains (item) x xs where "ch_channel c = x # xs" "ch_send_waiters c = []" "recv_one c = (c\<lparr>ch_channel := xs\<rparr>, Ready (Some (x, None)))"
  | (item_wake) x xs n ns where "ch_channel c = x # xs" "ch_send_waiters c = n # ns"
      "recv_one c = (set_node_waker SenderAction n None (c\<lparr>ch_channel := xs, ch_send_waiters := ns\<rparr>), Ready (Some (x, ch_node_waker c SenderAction n)))"
  | (wait) "ch_channel c = []" "0 < ch_tx_count c" "\<not> ch_is_closed c" "recv_one c = (c, Pending)"
  | (finished) "ch_channel c = []" "ch_tx_count c = 0 \<or> ch_is_closed c" "recv_one c = (c, Ready None)"
  by (cases "ch_channel c"; cases "ch_send_waiters c"; cases "0 < ch_tx_count c \<and> \<not> ch_is_closed c") (auto simp: recv_one_def Let_def)

text \<open>Taking an item, by a receiver whose node \<open>n\<close> leaves the lists (or by no node at all).\<close>

lemma chan_ok_taken:
  assumes ok: "chan_ok c N" and ch: "ch_channel c = x # xs" and P: "P \<subseteq> {(ReceiverAction, n)}"
    and c': "ch_channel c' = xs" "ch_tx_count c' = ch_tx_count c" "ch_is_closed c' = ch_is_closed c" "ch_capacity c' = ch_capacity c"
      "ch_send_waiters c' = drop 1 (ch_send_waiters c)" "ch_recv_waiters c' = (if P = {} then ch_recv_waiters c else remove1 n (ch_recv_waiters c))"
    and wk: "\<And>a k. k \<in> set (get_list a c') \<Longrightarrow> ch_node_waker c' a k = ch_node_waker c a k"
  shows "chan_ok c' (notified P c c' N)"
proof -
  note D = chan_okD [OF ok]
  have s: "N SenderAction \<union> (set (ch_send_waiters c) - set (ch_send_waiters c')) = N SenderAction \<union> set (take 1 (ch_send_waiters c))"
    using D(1) c'(5) by (cases "ch_send_waiters c") auto
  have scard: "card (N SenderAction \<union> set (take 1 (ch_send_waiters c))) = card (N SenderAction) + length (take 1 (ch_send_waiters c))"
  proof (cases "ch_send_waiters c")
    case (Cons m ms)
    then have "m \<notin> N SenderAction" using D(2) by auto
    then show ?thesis using Cons D(3) by simp
  qed simp
  have noS: "{k. (SenderAction, k) \<in> P} = {}" using P by auto
  have r: "notified P c c' N ReceiverAction \<supseteq> N ReceiverAction - {n}" "ch_recv_waiters c = [] \<Longrightarrow> ch_recv_waiters c' = []"
    "set (ch_recv_waiters c') \<subseteq> set (ch_recv_waiters c)"
    using P c'(6) set_remove1_subset by (auto simp: notified_simps)
  have fin: "finite (notified P c c' N ReceiverAction)" using D(7) by (simp add: notified_simps)
  show ?thesis
  proof (rule chan_okI)
    show "distinct (ch_send_waiters c')" using D(1) c'(5) by (simp add: distinct_drop)
    show "set (ch_send_waiters c') \<inter> notified P c c' N SenderAction = {}" using D(2) c'(5) in_set_dropD by (fastforce simp: notified_simps)
    show "finite (notified P c c' N SenderAction)" using D(3) by (simp add: notified_simps)
    show "ch_node_waker c' SenderAction k \<noteq> None" if "k \<in> set (ch_send_waiters c')" for k
      using wk [of k SenderAction] that D(4) [of k] c'(5) in_set_dropD by fastforce
    show "distinct (ch_recv_waiters c')" using D(5) c'(6) by (simp add: distinct_remove1)
    show "set (ch_recv_waiters c') \<inter> notified P c c' N ReceiverAction = {}" using D(6) r(3) by (auto simp: notified_simps)
    show "finite (notified P c c' N ReceiverAction)" by (rule fin)
    show "ch_node_waker c' ReceiverAction k \<noteq> None" if "k \<in> set (ch_recv_waiters c')" for k
      using wk [of k ReceiverAction] that D(8) [of k] r(3) by auto
    show "length (ch_channel c') \<le> card (notified P c c' N ReceiverAction)" if "ch_recv_waiters c' \<noteq> []"
    proof -
      have "Suc (length xs) \<le> card (N ReceiverAction)" using D(9) that r(2) ch by auto
      then have "length xs \<le> card (N ReceiverAction - {n})" using card_less_one [OF D(7), of n] by linarith
      then show ?thesis unfolding c'(1) using card_mono [OF fin r(1)] by linarith
    qed
    show "\<exists>y. ch_capacity c' = Bounded y \<and> y \<le> length (ch_channel c') + card (notified P c c' N SenderAction)" if "ch_send_waiters c' \<noteq> []"
    proof -
      have ne: "ch_send_waiters c \<noteq> []" using that c'(5) by auto
      then have "length (take 1 (ch_send_waiters c)) = 1" by (cases "ch_send_waiters c") auto
      then show ?thesis using D(10) [OF ne] ch c'(1,4) scard s by (auto simp: notified_simps noS)
    qed
  qed (use D(11-13) c' r(2) in auto)
qed

lemma remove_simps [simp]:
  "get_list b (remove_from_the_waiting_queue a n c) = (if b = a then remove1 n (get_list a c) else get_list b c)"
  "ch_channel (remove_from_the_waiting_queue a n c) = ch_channel c" "ch_tx_count (remove_from_the_waiting_queue a n c) = ch_tx_count c"
  "ch_is_closed (remove_from_the_waiting_queue a n c) = ch_is_closed c" "ch_capacity (remove_from_the_waiting_queue a n c) = ch_capacity c"
  "ch_node_waker (remove_from_the_waiting_queue a n c) = ch_node_waker c"
  by (auto simp: remove_from_the_waiting_queue_def remove1_idem)

lemma remove_lists [simp]:
  "ch_send_waiters (remove_from_the_waiting_queue a n c) = (if a = SenderAction then remove1 n (ch_send_waiters c) else ch_send_waiters c)"
  "ch_recv_waiters (remove_from_the_waiting_queue a n c) = (if a = ReceiverAction then remove1 n (ch_recv_waiters c) else ch_recv_waiters c)"
  using remove_simps(1) [of SenderAction a n c] remove_simps(1) [of ReceiverAction a n c] by (auto simp del: remove_simps split: if_splits)

lemma chan_ok_unpark:
  assumes ok: "chan_ok c N" and n: "a = ReceiverAction \<Longrightarrow> n \<in> N a \<Longrightarrow> ch_channel c = []"
    "a = SenderAction \<Longrightarrow> n \<in> N a \<Longrightarrow> ch_send_waiters c = []"
  shows "chan_ok (remove_from_the_waiting_queue a n c) (notified {(a, n)} c (remove_from_the_waiting_queue a n c) N)"
proof -
  note D = chan_okD [OF ok]
  let ?c = "remove_from_the_waiting_queue a n c"
  have dis: "distinct (get_list b c)" "set (get_list b c) \<inter> N b = {}" for b using D by (cases b; simp)+
  have N: "notified {(a, n)} c ?c N = N(a := N a - {n})"
    using dis by (auto simp: notified_def fun_eq_iff set_remove1_eq)
  show ?thesis unfolding N
  proof (cases a)
    case SenderAction
    then show "chan_ok ?c (N(a := N a - {n}))" using n D
      by (cases "n \<in> N a"; cases "get_list a c = []"; intro chan_okI) (auto simp: distinct_remove1 set_remove1_eq)
  next
    case ReceiverAction
    then show "chan_ok ?c (N(a := N a - {n}))" using n D
      by (cases "n \<in> N a"; cases "get_list a c = []"; intro chan_okI) (auto simp: distinct_remove1 set_remove1_eq)
  qed
qed

lemma notified_same [simp]: "notified {} c c N = N"
  by (simp add: notified_def)

text \<open>The state after a pending poll: the node has the waker of the poll and is on its list.\<close>

definition parked :: "waiter_action \<Rightarrow> nat \<Rightarrow> waker \<Rightarrow> 'a chan \<Rightarrow> 'a chan" where
  "parked a n cx c = (let c2 = set_node_waker a n (Some cx) c
     in if n \<in> set (get_list a c) then c2 else set_list a (get_list a c @ [n]) c2)"

lemma waiter_poll_pending: "poll_fn c = (c1, Pending) \<Longrightarrow> waiter_poll a poll_fn n cx c = (parked a n cx c1, Pending)"
  by (simp add: waiter_poll_def parked_def register_into_waiting_queue_def Let_def)

lemma chan_ok_park:
  assumes ok: "chan_ok c N" and "\<not> ch_is_closed c"
    and a: "a = ReceiverAction \<Longrightarrow> ch_channel c = [] \<and> 0 < ch_tx_count c" "a = SenderAction \<Longrightarrow> chan_is_full c"
  shows "chan_ok (parked a n cx c) (notified {(a, n)} c (parked a n cx c) N)"
proof -
  note D = chan_okD [OF ok]
  show ?thesis
  proof (cases a)
    case SenderAction
    obtain x where x: "ch_capacity c = Bounded x" "x \<le> length (ch_channel c)"
      using a(2) SenderAction by (auto simp: chan_is_full_def split: channel_capacity.splits)
    then show ?thesis using SenderAction D assms(2)
      by (cases "n \<in> set (ch_send_waiters c)"; intro chan_okI) (auto simp: parked_def notified_simps Let_def split: if_splits)
  next
    case ReceiverAction
    then show ?thesis using a(1) D assms(2)
      by (cases "n \<in> set (ch_recv_waiters c)"; intro chan_okI) (auto simp: parked_def notified_simps Let_def split: if_splits)
  qed
qed

lemma chan_recv_poll_ok:
  assumes ok: "chan_ok c N"
  shows "chan_ok (fst (chan_recv_poll n cx c)) (notified {(ReceiverAction, n)} c (fst (chan_recv_poll n cx c)) N)"
proof (cases rule: recv_one_cases [of c])
  case (item x xs)
  then show ?thesis
    by (simp add: chan_recv_poll_def waiter_poll_def receiver_recv_one_def) (rule chan_ok_taken [OF ok item(1)], auto)
next
  case (item_wake x xs m ms)
  have "distinct (m # ms)" using chan_okD(1) [OF ok] item_wake(2) by simp
  with item_wake show ?thesis
    by (simp add: chan_recv_poll_def waiter_poll_def receiver_recv_one_def) (rule chan_ok_taken [OF ok item_wake(1)], auto)
next
  case wait
  then show ?thesis using chan_ok_park [OF ok, of ReceiverAction n cx]
    by (simp add: chan_recv_poll_def waiter_poll_pending receiver_recv_one_def)
next
  case finished
  then show ?thesis using chan_ok_unpark [OF ok, of ReceiverAction n]
    by (simp add: chan_recv_poll_def waiter_poll_def receiver_recv_one_def)
qed

lemma chan_try_recv_ok:
  assumes ok: "chan_ok c N"
  shows "chan_ok (fst (chan_try_recv c)) (notified {} c (fst (chan_try_recv c)) N)"
proof (cases rule: recv_one_cases [of c])
  case (item x xs)
  then show ?thesis by (simp add: chan_try_recv_def) (rule chan_ok_taken [OF ok item(1), where n = 0], auto)
next
  case (item_wake x xs m ms)
  have "distinct (m # ms)" using chan_okD(1) [OF ok] item_wake(2) by simp
  with item_wake show ?thesis by (simp add: chan_try_recv_def) (rule chan_ok_taken [OF ok item_wake(1), where n = 0], auto)
qed (use ok in \<open>simp_all add: chan_try_recv_def\<close>)

lemma chan_ok_woken:
  assumes ok: "chan_ok c N" and c': "ch_channel c' = ch_channel c" "ch_capacity c' = ch_capacity c" "ch_recv_waiters c' = []" "ch_send_waiters c' = []"
  shows "chan_ok c' (notified {} c c' N)"
  using chan_okD [OF ok] c' by (intro chan_okI) (auto simp: notified_simps)

lemma wake_nodes_fields:
  "get_list a (wake_nodes a ns c) = (if ns = [] then get_list a c else [])" "b \<noteq> a \<Longrightarrow> get_list b (wake_nodes a ns c) = get_list b c"
  "ch_channel (wake_nodes a ns c) = ch_channel c" "ch_capacity (wake_nodes a ns c) = ch_capacity c"
  "ch_tx_count (wake_nodes a ns c) = ch_tx_count c" "ch_rx_count (wake_nodes a ns c) = ch_rx_count c" "ch_is_closed (wake_nodes a ns c) = ch_is_closed c"
  by (induction ns arbitrary: c) auto

lemma wake_up_all_fields [simp]:
  "get_list a (wake_up_all a c) = []" "b \<noteq> a \<Longrightarrow> get_list b (wake_up_all a c) = get_list b c"
  "ch_channel (wake_up_all a c) = ch_channel c" "ch_capacity (wake_up_all a c) = ch_capacity c"
  "ch_tx_count (wake_up_all a c) = ch_tx_count c" "ch_rx_count (wake_up_all a c) = ch_rx_count c" "ch_is_closed (wake_up_all a c) = ch_is_closed c"
  by (auto simp: wake_up_all_def wake_nodes_fields)

lemma wake_both_lists [simp]:
  "ch_recv_waiters (wake_up_all ReceiverAction c) = []" "ch_send_waiters (wake_up_all SenderAction c) = []"
  "ch_recv_waiters (wake_up_all SenderAction c) = ch_recv_waiters c" "ch_send_waiters (wake_up_all ReceiverAction c) = ch_send_waiters c"
  using wake_up_all_fields(1) [of ReceiverAction c] wake_up_all_fields(1) [of SenderAction c]
    wake_up_all_fields(2) [of ReceiverAction SenderAction c] wake_up_all_fields(2) [of SenderAction ReceiverAction c]
  by (simp_all del: wake_up_all_fields)

lemma chan_handles_ok:
  assumes ok: "chan_ok c N"
  shows "chan_ok (sender_clone c) (notified {} c (sender_clone c) N)"
    "chan_ok (sender_drop c) (notified {} c (sender_drop c) N)"
    "chan_ok (receiver_clone c) (notified {} c (receiver_clone c) N)"
    "chan_ok (receiver_drop c) (notified {} c (receiver_drop c) N)"
proof -
  note D = chan_okD [OF ok]
  show "chan_ok (sender_clone c) (notified {} c (sender_clone c) N)"
    by (intro chan_okI) (use D in \<open>auto simp: sender_clone_def notified_simps\<close>)
  show "chan_ok (receiver_clone c) (notified {} c (receiver_clone c) N)"
    by (intro chan_okI) (use D in \<open>auto simp: receiver_clone_def notified_simps\<close>)
  show "chan_ok (sender_drop c) (notified {} c (sender_drop c) N)"
  proof (cases "ch_tx_count c - 1 = 0")
    case True
    then show ?thesis by (intro chan_ok_woken [OF ok]) (simp_all add: sender_drop_def Let_def)
  next
    case False
    then show ?thesis by (intro chan_okI) (use D in \<open>auto simp: sender_drop_def notified_simps Let_def\<close>)
  qed
  show "chan_ok (receiver_drop c) (notified {} c (receiver_drop c) N)"
  proof (cases "ch_rx_count c - 1 = 0")
    case True
    then show ?thesis by (intro chan_ok_woken [OF ok]) (simp_all add: receiver_drop_def Let_def)
  next
    case False
    then show ?thesis by (intro chan_okI) (use D in \<open>auto simp: receiver_drop_def notified_simps Let_def\<close>)
  qed
qed

text \<open>Adding an item, by a sender whose node \<open>n\<close> leaves the lists.\<close>

lemma chan_ok_sent:
  assumes ok: "chan_ok c N" and open_: "\<not> ch_is_closed c"
    and c': "ch_channel c' = ch_channel c @ [x]" "ch_tx_count c' = ch_tx_count c" "ch_is_closed c' = ch_is_closed c" "ch_capacity c' = ch_capacity c"
      "ch_recv_waiters c' = drop 1 (ch_recv_waiters c)" "ch_send_waiters c' = remove1 n (ch_send_waiters c)"
    and wk: "\<And>a k. k \<in> set (get_list a c') \<Longrightarrow> ch_node_waker c' a k = ch_node_waker c a k"
  shows "chan_ok c' (notified {(SenderAction, n)} c c' N)"
proof -
  let ?N = "notified {(SenderAction, n)} c c' N"
  note D = chan_okD [OF ok]
  have rN: "?N ReceiverAction = N ReceiverAction \<union> set (take 1 (ch_recv_waiters c))"
    using D(5) c'(5) by (cases "ch_recv_waiters c") (auto simp: notified_simps)
  have rcard: "card (?N ReceiverAction) = card (N ReceiverAction) + length (take 1 (ch_recv_waiters c))"
  proof (cases "ch_recv_waiters c")
    case (Cons m ms)
    then have "m \<notin> N ReceiverAction" using D(6) by auto
    then show ?thesis unfolding rN using Cons D(7) by simp
  qed (simp add: rN)
  have sN: "?N SenderAction = N SenderAction - {n}" using D(1,2) c'(6) by (auto simp: notified_simps)
  show ?thesis
  proof (rule chan_okI)
    show "distinct (ch_send_waiters c')" "distinct (ch_recv_waiters c')" using D(1,5) c'(5,6) by (simp_all add: distinct_drop distinct_remove1)
    show "set (ch_send_waiters c') \<inter> ?N SenderAction = {}" using D(1,2) c'(6) sN by auto
    show "set (ch_recv_waiters c') \<inter> ?N ReceiverAction = {}" using D(5,6) c'(5) unfolding rN by (cases "ch_recv_waiters c") auto
    show "finite (?N SenderAction)" "finite (?N ReceiverAction)" using D(3,7) sN rN by simp_all
    show "ch_node_waker c' SenderAction k \<noteq> None" if "k \<in> set (ch_send_waiters c')" for k
      using wk [of k SenderAction] that D(1,4) c'(6) by auto
    show "ch_node_waker c' ReceiverAction k \<noteq> None" if "k \<in> set (ch_recv_waiters c')" for k
      using wk [of k ReceiverAction] that D(8) [of k] c'(5) in_set_dropD by fastforce
    show "length (ch_channel c') \<le> card (?N ReceiverAction)" if "ch_recv_waiters c' \<noteq> []"
    proof -
      have "ch_recv_waiters c \<noteq> []" using that c'(5) by auto
      then have "length (take 1 (ch_recv_waiters c)) = 1" "length (ch_channel c) \<le> card (N ReceiverAction)"
        using D(9) by (cases "ch_recv_waiters c"; simp)+
      then show ?thesis using rcard c'(1) by simp
    qed
    show "\<exists>y. ch_capacity c' = Bounded y \<and> y \<le> length (ch_channel c') + card (?N SenderAction)" if "ch_send_waiters c' \<noteq> []"
    proof -
      have "ch_send_waiters c \<noteq> []" using that c'(6) by auto
      then show ?thesis unfolding sN using D(10) card_less_one [OF D(3), of n] c'(1,4) by fastforce
    qed
  qed (use D c' open_ in auto)
qed

lemma chan_push_room:
  assumes "\<not> ch_is_closed c" "\<not> chan_is_full c" "ch_recv_waiters c \<noteq> [] \<Longrightarrow> ch_node_waker c ReceiverAction (hd (ch_recv_waiters c)) \<noteq> None"
    "distinct (ch_recv_waiters c)"
  obtains c' w where "chan_push x c = Some (c', Inr w)" "ch_channel c' = ch_channel c @ [x]" "ch_tx_count c' = ch_tx_count c"
    "ch_is_closed c' = ch_is_closed c" "ch_capacity c' = ch_capacity c" "ch_recv_waiters c' = drop 1 (ch_recv_waiters c)"
    "ch_send_waiters c' = ch_send_waiters c" "\<And>a k. k \<in> set (get_list a c') \<Longrightarrow> ch_node_waker c' a k = ch_node_waker c a k"
proof (cases "ch_recv_waiters c")
  case Nil
  then show ?thesis using that [of "c\<lparr>ch_channel := ch_channel c @ [x]\<rparr>" None] assms by (simp add: chan_push_def)
next
  case (Cons n ns)
  then obtain w where w: "ch_node_waker c ReceiverAction n = Some w" using assms(3) by auto
  let ?c = "set_node_waker ReceiverAction n None (c\<lparr>ch_channel := ch_channel c @ [x], ch_recv_waiters := ns\<rparr>)"
  have "ch_node_waker ?c a k = ch_node_waker c a k" if "k \<in> set (get_list a ?c)" for a k
    using that Cons assms(4) by (cases a) auto
  then show ?thesis using that [of ?c "Some w"] assms Cons w by (simp add: chan_push_def Let_def)
qed

lemma chan_send_poll_ok:
  assumes ok: "chan_ok c N"
  shows "\<exists>c' r. chan_send_poll n cx x c = Some (c', r) \<and> chan_ok c' (notified {(SenderAction, n)} c c' N)"
proof (cases "ch_is_closed c \<or> \<not> chan_is_full c")
  case False
  then have "waiter_poll SenderAction wait_for_room n cx c = (parked SenderAction n cx c, Pending)"
    by (intro waiter_poll_pending) (simp add: wait_for_room_def)
  then show ?thesis using chan_ok_park [OF ok, of SenderAction n cx] False by (simp add: chan_send_poll_def)
next
  case True
  note D = chan_okD [OF ok]
  let ?c1 = "remove_from_the_waiting_queue SenderAction n c"
  have "waiter_poll SenderAction wait_for_room n cx c = (?c1, Ready ())" using True by (simp add: waiter_poll_def wait_for_room_def)
  moreover have "waiter_drop SenderAction n ?c1 = ?c1" using D(1) by (simp add: waiter_drop_def)
  ultimately have poll: "chan_send_poll n cx x c = map_option (\<lambda>(c2, r). (c2, Ready r)) (chan_try_send x ?c1)"
    by (simp add: chan_send_poll_def)
  show ?thesis
  proof (cases "ch_is_closed c")
    case True
    then show ?thesis using poll chan_ok_unpark [OF ok, of SenderAction n] D(13) by (simp add: chan_try_send_def chan_push_def)
  next
    case False
    then have room: "\<not> ch_is_closed ?c1" "\<not> chan_is_full ?c1" using True by (auto simp: chan_is_full_def split: channel_capacity.splits)
    have hd: "ch_recv_waiters ?c1 \<noteq> [] \<Longrightarrow> ch_node_waker ?c1 ReceiverAction (hd (ch_recv_waiters ?c1)) \<noteq> None"
      using D(8) by (simp add: hd_in_set)
    obtain c' w where p: "chan_push x ?c1 = Some (c', Inr w)" "ch_channel c' = ch_channel ?c1 @ [x]" "ch_tx_count c' = ch_tx_count ?c1"
      "ch_is_closed c' = ch_is_closed ?c1" "ch_capacity c' = ch_capacity ?c1" "ch_recv_waiters c' = drop 1 (ch_recv_waiters ?c1)"
      "ch_send_waiters c' = ch_send_waiters ?c1" "\<And>a k. k \<in> set (get_list a c') \<Longrightarrow> ch_node_waker c' a k = ch_node_waker ?c1 a k"
      using chan_push_room [OF room hd, of x] D(5) by auto
    have "chan_ok c' (notified {(SenderAction, n)} c c' N)"
      by (rule chan_ok_sent [OF ok False]) (use p in auto)
    then show ?thesis using poll p(1) by (simp add: chan_try_send_def)
  qed
qed

subsection \<open>Runs of a channel\<close>

text \<open>The calls of the tasks of one thread, in any order, with the sets \<open>N\<close> of the futures notified
  and not polled since and \<open>D\<close> of the dropped futures, which are not polled again. A future that is
  dropped although it has been notified stays in \<open>N\<close>: nobody will act on its notification. The
  state may be split again while handles exist, which sets the counts back; a call may then come
  from a handle that is not counted. A handle is dropped while the count is not zero: below that
  the code overflows.\<close>

definition drop_note :: "waiter_action \<Rightarrow> nat \<Rightarrow> 'a chan \<Rightarrow> 'a chan \<Rightarrow> note_sets \<Rightarrow> note_sets" where
  "drop_note a n c c' N = (if n \<in> N a then N else notified {(a, n)} c c' N)"

inductive chan_step :: "'a chan \<times> note_sets \<times> note_sets \<Rightarrow> 'a chan \<times> note_sets \<times> note_sets \<Rightarrow> bool" where
  try_send: "chan_try_send x c = Some (c', r) \<Longrightarrow> chan_step (c, N, D) (c', notified {} c c' N, D)"
| send_poll: "n \<notin> D SenderAction \<Longrightarrow> chan_send_poll n cx x c = Some (c', r) \<Longrightarrow> chan_step (c, N, D) (c', notified {(SenderAction, n)} c c' N, D)"
| try_recv: "chan_try_recv c = (c', r) \<Longrightarrow> chan_step (c, N, D) (c', notified {} c c' N, D)"
| recv_poll: "n \<notin> D ReceiverAction \<Longrightarrow> chan_recv_poll n cx c = (c', r') \<Longrightarrow> chan_step (c, N, D) (c', notified {(ReceiverAction, n)} c c' N, D)"
| next_poll: "n \<notin> D ReceiverAction \<Longrightarrow> stream_poll_next n cx c = (c', r') \<Longrightarrow> chan_step (c, N, D) (c', notified {(ReceiverAction, n)} c c' N, D)"
| drop_waiter: "c' = waiter_drop a n c \<Longrightarrow> chan_step (c, N, D) (c', drop_note a n c c' N, D(a := insert n (D a)))"
| drop_stream: "c' = stream_drop n c \<Longrightarrow> chan_step (c, N, D) (c', drop_note ReceiverAction n c c' N, D(ReceiverAction := insert n (D ReceiverAction)))"
| clone_sender: "c' = sender_clone c \<Longrightarrow> chan_step (c, N, D) (c', notified {} c c' N, D)"
| drop_sender: "0 < ch_tx_count c \<Longrightarrow> c' = sender_drop c \<Longrightarrow> chan_step (c, N, D) (c', notified {} c c' N, D)"
| clone_receiver: "c' = receiver_clone c \<Longrightarrow> chan_step (c, N, D) (c', notified {} c c' N, D)"
| drop_receiver: "0 < ch_rx_count c \<Longrightarrow> c' = receiver_drop c \<Longrightarrow> chan_step (c, N, D) (c', notified {} c c' N, D)"
| split_again: "c' = chan_split c \<Longrightarrow> chan_step (c, N, D) (c', notified {} c c' N, D)"

inductive chan_reachable :: "channel_capacity \<Rightarrow> 'a chan \<times> note_sets \<times> note_sets \<Rightarrow> bool" for cap where
  start: "chan_reachable cap (chan_split (chan_new cap), \<lambda>_. {}, \<lambda>_. {})"
| step: "chan_reachable cap s \<Longrightarrow> chan_step s s' \<Longrightarrow> chan_reachable cap s'"

text \<open>The stream polls like the future of \<^verbatim>\<open>recv\<close>.\<close>

lemma remove_wake: "remove_from_the_waiting_queue a n (wake_opt w c) = wake_opt w (remove_from_the_waiting_queue a n c)"
  by (cases a) (simp_all add: remove_from_the_waiting_queue_def wake_opt_def)

lemma stream_poll_eq: "stream_poll_next n cx c = chan_recv_poll n cx c"
  by (auto simp: stream_poll_next_def chan_recv_poll_def waiter_poll_def receiver_recv_one_def Let_def remove_wake
      split: prod.splits poll.splits option.splits)

lemma chan_waiter_drop_ok:
  assumes ok: "chan_ok c N"
  shows "chan_ok (waiter_drop a n c) (drop_note a n c (waiter_drop a n c) N)"
    "chan_ok (stream_drop n c) (drop_note ReceiverAction n c (stream_drop n c) N)"
proof -
  have w: "waiter_drop b n c = remove_from_the_waiting_queue b n c" for b
    by (simp add: waiter_drop_def remove_from_the_waiting_queue_def)
  have "chan_ok (remove_from_the_waiting_queue b n c) (drop_note b n c (remove_from_the_waiting_queue b n c) N)" for b
  proof (cases "n \<in> N b")
    case True
    then have "n \<notin> set (get_list b c)" using chan_okD(2,6) [OF ok] by (cases b) auto
    then show ?thesis using True ok by (simp add: drop_note_def remove_from_the_waiting_queue_def)
  next
    case False
    then show ?thesis using chan_ok_unpark [OF ok, of b n] by (auto simp: drop_note_def)
  qed
  then show "chan_ok (waiter_drop a n c) (drop_note a n c (waiter_drop a n c) N)"
    "chan_ok (stream_drop n c) (drop_note ReceiverAction n c (stream_drop n c) N)"
    unfolding w stream_drop_def by blast+
qed

lemma chan_split_ok:
  assumes ok: "chan_ok c N"
  shows "chan_ok (chan_split c) (notified {} c (chan_split c) N)"
  by (rule chan_okI) (use chan_okD [OF ok] in \<open>auto simp: chan_split_def notified_simps\<close>)

lemma chan_step_ok: "chan_step s s' \<Longrightarrow> chan_ok (fst s) (fst (snd s)) \<Longrightarrow> chan_ok (fst s') (fst (snd s'))"
proof (induction rule: chan_step.induct)
  case (try_send x c c' r N D)
  then show ?case using chan_try_send_ok [of c N x] by auto
next
  case (send_poll n D cx x c c' r N)
  then show ?case using chan_send_poll_ok [of c N n cx x] by auto
next
  case (try_recv c c' r N D)
  then show ?case using chan_try_recv_ok [of c N] by simp
next
  case (recv_poll n D cx c c' r' N)
  then show ?case using chan_recv_poll_ok [of c N n cx] by simp
next
  case (next_poll n D cx c c' r' N)
  then show ?case using chan_recv_poll_ok [of c N n cx] by (simp add: stream_poll_eq)
next
  case (drop_waiter c' a n c N D)
  then show ?case using chan_waiter_drop_ok(1) [of c N a n] by simp
next
  case (drop_stream c' n c N D)
  then show ?case using chan_waiter_drop_ok(2) [of c N n] by simp
qed (use chan_handles_ok chan_split_ok in auto)

lemma chan_reachable_ok: "chan_reachable cap s \<Longrightarrow> chan_ok (fst s) (fst (snd s))"
proof (induction rule: chan_reachable.induct)
  case start
  show ?case by (rule chan_okI) (auto simp: chan_split_def chan_new_def)
next
  case (step s s')
  then show ?case using chan_step_ok by blast
qed




text \<open>Dropping a notified future loses its wake-up, and nobody may be left to run: on a channel of one place,
  full, two senders wait; a receive takes the item and wakes the first sender, whose future is
  dropped before it runs (a timeout or a select does that); then the receiver waits for an item and
  the second sender waits for room, although the channel is empty, and the only waker that was
  woken belongs to the dropped future.\<close>

theorem chan_dropped_notification_deadlock:
  "\<exists>c1 c2 c3 c4 c5 c6. chan_try_send 1 (chan_split (chan_new (Bounded 1))) = Some (c1 :: nat chan, Inr ())
     \<and> chan_send_poll 1 10 2 c1 = Some (c2, Pending) \<and> chan_send_poll 2 20 3 c2 = Some (c3, Pending)
     \<and> chan_try_recv c3 = (c4, Inr 1) \<and> waiter_drop SenderAction 1 c4 = c5 \<and> chan_recv_poll 1 30 c5 = (c6, Pending)
     \<and> ch_channel c6 = [] \<and> ch_recv_waiters c6 = [1] \<and> ch_send_waiters c6 = [2] \<and> ch_woken c6 = [10]"
  by (simp add: chan_recv_poll_def waiter_poll_def receiver_recv_one_def recv_one_def chan_split_def chan_new_def wait_for_room_def
    chan_send_poll_def chan_try_recv_def waiter_drop_def chan_try_send_def chan_push_def register_into_waiting_queue_def
    set_node_waker_def wake_opt_def chan_is_full_def Let_def)

subsection \<open>The contract\<close>

definition chan_inv :: "'a chan \<Rightarrow> bool" where
  "chan_inv c \<longleftrightarrow> (\<exists>N. chan_ok c N)"

definition chan_limit :: "'a chan \<Rightarrow> nat option" where
  "chan_limit c = (case ch_capacity c of Unbounded \<Rightarrow> None | Bounded x \<Rightarrow> Some x)"

definition chan_ended :: "'a chan \<Rightarrow> bool" where
  "chan_ended c \<longleftrightarrow> ch_is_closed c \<or> ch_tx_count c = 0"

definition chan_recv_op :: "'a chan \<Rightarrow> ('a chan \<times> (try_recv_error + 'a)) option" where
  "chan_recv_op c = Some (chan_try_recv c)"

lemma chan_push_law:
  "chan_push x c = Some (c', r) \<Longrightarrow>
     (ch_channel c', case r of Inl e \<Rightarrow> Inl e | Inr _ \<Rightarrow> Inr ()) = queue_send (chan_limit c) (ch_is_closed c) x (ch_channel c)
     \<and> chan_limit c' = chan_limit c \<and> ch_is_closed c' = ch_is_closed c \<and> chan_ended c' = chan_ended c"
  by (auto simp: chan_push_def Let_def chan_limit_def chan_ended_def chan_is_full_def queue_send_def
      split: if_splits list.splits option.splits channel_capacity.splits)

lemma chan_recv_law:
  "chan_try_recv c = (c', r) \<Longrightarrow> (ch_channel c', r) = queue_recv (chan_ended c) (ch_channel c)
     \<and> chan_limit c' = chan_limit c \<and> ch_is_closed c' = ch_is_closed c \<and> chan_ended c' = chan_ended c"
  by (auto simp: chan_try_recv_def recv_one_def Let_def chan_limit_def chan_ended_def queue_recv_def
      split: if_splits list.splits)

lemma chan_wake_simps [simp]: "chan_limit (wake_opt w c) = chan_limit c" "chan_ended (wake_opt w c) = chan_ended c"
  by (simp_all add: chan_limit_def chan_ended_def)

interpretation mpmc: fifo_channel chan_inv ch_channel chan_limit ch_is_closed chan_ended chan_try_send chan_recv_op
proof
  fix s :: "'a chan" and x assume "chan_inv s"
  then obtain N where ok: "chan_ok s N" by (auto simp: chan_inv_def)
  obtain c r where p: "chan_push x s = Some (c, r)" "chan_ok c (notified {} s c N)" using chan_push_ok [OF ok] by blast
  show "\<exists>s' r. chan_try_send x s = Some (s', r) \<and> chan_inv s' \<and> (ch_channel s', r) = queue_send (chan_limit s) (ch_is_closed s) x (ch_channel s)
      \<and> chan_limit s' = chan_limit s \<and> ch_is_closed s' = ch_is_closed s \<and> chan_ended s' = chan_ended s"
    using p chan_push_law [OF p(1)] by (cases r) (fastforce simp: chan_try_send_def chan_inv_def)+
next
  fix s :: "'a chan" assume "chan_inv s"
  then obtain N where ok: "chan_ok s N" by (auto simp: chan_inv_def)
  have "chan_inv (fst (chan_try_recv s))" using chan_try_recv_ok [OF ok] by (auto simp: chan_inv_def)
  then show "\<exists>s' r. chan_recv_op s = Some (s', r) \<and> chan_inv s' \<and> (ch_channel s', r) = queue_recv (chan_ended s) (ch_channel s)
      \<and> chan_limit s' = chan_limit s \<and> ch_is_closed s' = ch_is_closed s \<and> chan_ended s' = chan_ended s"
    using chan_recv_law [of s "fst (chan_try_recv s)" "snd (chan_try_recv s)"] unfolding chan_recv_op_def prod.collapse by (metis prod.collapse)
qed

text \<open>C36. From every reachable state of a channel, whatever futures wait on it, whatever handles and
  futures were dropped, any further sequence of \<^verbatim>\<open>try_send\<close> and \<^verbatim>\<open>try_recv\<close> returns and every answer is the
  one of a first-in first-out queue: a send is refused as closed when the receivers are gone, as full exactly
  when the capacity is reached, and is accepted otherwise; a receive gives the oldest item exactly when there
  is one, and otherwise says whether the channel has ended. The contents agree as well.\<close>

theorem chan_fifo:
  assumes "chan_reachable cap (c, N, D)"
  shows "\<exists>c' rs. chan_run chan_try_send chan_recv_op cs c = Some (c', rs)
    \<and> (ch_channel c', rs) = queue_run (chan_limit c) (ch_is_closed c) (chan_ended c) cs (ch_channel c)"
proof -
  have "chan_inv c" using chan_reachable_ok [OF assms] by (auto simp: chan_inv_def)
  then show ?thesis using mpmc.run_refines by blast
qed

theorem chan_fifo_witness:
  "\<exists>c'. chan_run chan_try_send chan_recv_op [Send_Item (4 :: nat), Send_Item 5, Recv_Item, Recv_Item] (chan_split (chan_new (Bounded 1)))
     = Some (c', [Sent (Inr ()), Sent (Inl (SendFull 5)), Received (Inr 4), Received (Inl RecvEmpty)]) \<and> ch_channel c' = []"
proof -
  let ?c = "chan_split (chan_new (Bounded 1)) :: nat chan"
  have "ch_channel ?c = []" "chan_limit ?c = Some 1" "\<not> ch_is_closed ?c" "\<not> chan_ended ?c"
    by (simp_all add: chan_split_def chan_new_def chan_limit_def chan_ended_def)
  then show ?thesis
    using chan_fifo [OF chan_reachable.start [of "Bounded 1"], where cs = "[Send_Item (4 :: nat), Send_Item 5, Recv_Item, Recv_Item]"]
    by (auto simp: queue_send_def queue_recv_def)
qed

end
