(* ===== verification/Local_Oneshot.thy ===== *)
theory Local_Oneshot
  imports Local_Channel
begin

text \<open>
  The single-threaded one-shot channel (\<^verbatim>\<open>veloq-local/src/oneshot.rs\<close>). The sender is consumed by
  \<^verbatim>\<open>send\<close>, whose end drops it. Woken wakers are appended to \<open>os_woken\<close>.
\<close>

record 'a oneshot =
  os_value :: "'a option"
  os_waker :: "waker option"
  os_is_tx_closed :: bool
  os_is_rx_closed :: bool
  os_woken :: "waker list"

datatype recv_error = RecvError

definition oneshot_new :: "'a oneshot" where
  "oneshot_new = \<lparr>os_value = None, os_waker = None, os_is_tx_closed = False, os_is_rx_closed = False, os_woken = []\<rparr>"

definition oneshot_wake :: "'a oneshot \<Rightarrow> 'a oneshot" where
  "oneshot_wake s = s\<lparr>os_waker := None, os_woken := os_woken s @ (case os_waker s of None \<Rightarrow> [] | Some w \<Rightarrow> [w])\<rparr>"

definition oneshot_sender_drop :: "'a oneshot \<Rightarrow> 'a oneshot" where
  "oneshot_sender_drop s =
     (let s1 = s\<lparr>os_is_tx_closed := True\<rparr>
      in if os_value s1 = None then oneshot_wake s1 else s1)"

definition oneshot_send :: "'a \<Rightarrow> 'a oneshot \<Rightarrow> 'a oneshot \<times> ('a + unit)" where
  "oneshot_send t s =
     (if os_is_rx_closed s then (oneshot_sender_drop s, Inl t)
      else (oneshot_sender_drop (oneshot_wake (s\<lparr>os_value := Some t\<rparr>)), Inr ()))"

definition oneshot_is_closed :: "'a oneshot \<Rightarrow> bool" where
  "oneshot_is_closed s = os_is_rx_closed s"

definition oneshot_poll :: "waker \<Rightarrow> 'a oneshot \<Rightarrow> 'a oneshot \<times> (recv_error + 'a) poll" where
  "oneshot_poll cx s =
     (case os_value s of
        Some v \<Rightarrow> (s\<lparr>os_value := None\<rparr>, Ready (Inr v))
      | None \<Rightarrow>
          if os_is_tx_closed s then (s, Ready (Inl RecvError))
          else (s\<lparr>os_waker := update_waker (os_waker s) cx\<rparr>, Pending))"

definition oneshot_try_recv :: "'a oneshot \<Rightarrow> 'a oneshot \<times> (try_recv_error + 'a)" where
  "oneshot_try_recv s =
     (case os_value s of
        Some v \<Rightarrow> (s\<lparr>os_value := None\<rparr>, Inr v)
      | None \<Rightarrow> (s, Inl (if os_is_tx_closed s then RecvClosed else RecvEmpty)))"

definition oneshot_close :: "'a oneshot \<Rightarrow> 'a oneshot" where
  "oneshot_close s = s\<lparr>os_is_rx_closed := True\<rparr>"

definition oneshot_receiver_drop :: "'a oneshot \<Rightarrow> 'a oneshot" where
  "oneshot_receiver_drop s = s\<lparr>os_is_rx_closed := True\<rparr>"

subsection \<open>Runs of the receiver\<close>

text \<open>What the receiver does while it is alive, and what it observed.\<close>

datatype oneshot_cmd = Poll_Recv waker | Try_Recv | Close_Recv

fun oneshot_run :: "oneshot_cmd list \<Rightarrow> 'a oneshot \<Rightarrow> 'a oneshot \<times> 'a list" where
  "oneshot_run [] s = (s, [])"
| "oneshot_run (Poll_Recv w # cs) s =
     (case oneshot_poll w s of
        (s', Ready (Inr v)) \<Rightarrow> (let (t, vs) = oneshot_run cs s' in (t, v # vs))
      | (s', _) \<Rightarrow> oneshot_run cs s')"
| "oneshot_run (Try_Recv # cs) s =
     (case oneshot_try_recv s of
        (s', Inr v) \<Rightarrow> (let (t, vs) = oneshot_run cs s' in (t, v # vs))
      | (s', _) \<Rightarrow> oneshot_run cs s')"
| "oneshot_run (Close_Recv # cs) s = oneshot_run cs (oneshot_close s)"

text \<open>The last waker of a pending poll is the one stored.\<close>

fun last_poll :: "oneshot_cmd list \<Rightarrow> waker option \<Rightarrow> waker option" where
  "last_poll [] w = w"
| "last_poll (Poll_Recv x # cs) w = last_poll cs (Some x)"
| "last_poll (_ # cs) w = last_poll cs w"

lemma oneshot_run_before:
  "\<lbrakk>os_value s = None; \<not> os_is_tx_closed s\<rbrakk> \<Longrightarrow>
     oneshot_run cs s = (s\<lparr>os_waker := last_poll cs (os_waker s), os_is_rx_closed := os_is_rx_closed s \<or> Close_Recv \<in> set cs\<rparr>, [])"
proof (induction cs s rule: oneshot_run.induct)
  case (1 s)
  then show ?case by simp
next
  case (2 w cs s)
  then show ?case by (simp add: oneshot_poll_def)
next
  case (3 cs s)
  then show ?case by (simp add: oneshot_try_recv_def)
next
  case (4 cs s)
  then show ?case by (simp add: oneshot_close_def)
qed

definition is_recv :: "oneshot_cmd \<Rightarrow> bool" where
  "is_recv c \<longleftrightarrow> c \<noteq> Close_Recv"

lemma oneshot_run_after:
  "os_is_tx_closed s \<Longrightarrow> snd (oneshot_run cs s) = (case os_value s of None \<Rightarrow> [] | Some v \<Rightarrow> if \<exists>c \<in> set cs. is_recv c then [v] else [])"
proof (induction cs s rule: oneshot_run.induct)
  case (1 s)
  then show ?case by (simp split: option.splits)
next
  case (2 w cs s)
  then show ?case by (cases "os_value s") (auto simp: oneshot_poll_def is_recv_def Let_def split: prod.splits)
next
  case (3 cs s)
  then show ?case by (cases "os_value s") (auto simp: oneshot_try_recv_def is_recv_def Let_def split: prod.splits)
next
  case (4 cs s)
  then show ?case by (cases "os_value s") (auto simp: oneshot_close_def is_recv_def)
qed

text \<open>A one-shot channel delivers its value exactly once, whatever the receiver does before and
  after the send: polls before the send are pending and keep only the last waker; the send wakes
  exactly that waker; the first poll or attempt to receive after the send gets the value and no
  later one does. If the receiver was closed before, the send hands the value back, and the
  receiver gets nothing.\<close>

theorem oneshot_exactly_once:
  "let (s, before) = oneshot_run cs (oneshot_new :: 'a oneshot); (s1, r) = oneshot_send v s; (s2, after) = oneshot_run ds s1
   in before = [] \<and> os_woken s1 = (case last_poll cs None of None \<Rightarrow> [] | Some w \<Rightarrow> [w])
     \<and> (if Close_Recv \<in> set cs then r = Inl v \<and> after = []
        else r = Inr () \<and> after = (if \<exists>c \<in> set ds. is_recv c then [v] else []))"
proof -
  let ?s = "oneshot_new\<lparr>os_waker := last_poll cs None, os_is_rx_closed := Close_Recv \<in> set cs\<rparr> :: 'a oneshot"
  have run: "oneshot_run cs (oneshot_new :: 'a oneshot) = (?s, [])"
    using oneshot_run_before [of "oneshot_new :: 'a oneshot" cs] by (simp add: oneshot_new_def)
  have send: "snd (oneshot_send v ?s) = (if Close_Recv \<in> set cs then Inl v else Inr ())"
    "os_woken (fst (oneshot_send v ?s)) = (case last_poll cs None of None \<Rightarrow> [] | Some w \<Rightarrow> [w])"
    "os_value (fst (oneshot_send v ?s)) = (if Close_Recv \<in> set cs then None else Some v)" "os_is_tx_closed (fst (oneshot_send v ?s))"
    by (simp_all add: oneshot_send_def oneshot_new_def oneshot_sender_drop_def oneshot_wake_def Let_def split: option.splits)
  obtain s1 r where 1: "oneshot_send v ?s = (s1, r)" by fastforce
  obtain s2 vs where 2: "oneshot_run ds s1 = (s2, vs)" by fastforce
  have "vs = (if Close_Recv \<in> set cs then [] else if \<exists>c \<in> set ds. is_recv c then [v] else [])"
    using oneshot_run_after [OF send(4), of ds] send(3) 1 2 by (simp split: if_splits)
  then show ?thesis using run send(1,2) 1 2 by (simp split: if_splits)
qed

end
