(* ===== verification/Waker_Cell.thy ===== *)
theory Waker_Cell
  imports Veloq_Prelude
begin

unbundle bit_operations_syntax

text \<open>
  The cells that hold the waker of a task (\<^verbatim>\<open>utils/veloq-waker/src\<close>): \<^verbatim>\<open>AtomicWaker\<close>, which any thread may
  register with, and \<^verbatim>\<open>MwsrWaker\<close>, which one thread registers with and any thread wakes. A cell is a
  pointer to a waker's table with a tag in its two lowest bits and a data pointer, both atomic, and a
  cache of the last waker registered.

  A call is a sequence of steps, one for each access to the memory of the cell, and a schedule
  interleaves the steps of all threads; the memory is sequentially consistent. Cloning a waker is a
  function of the waker's table and so a parameter. Which clones are alive, which wakers were woken and
  whether a waker was made of pointers that belong to none are recorded beside the cell.
\<close>

subsection \<open>Tagged pointers\<close>

definition TAG_MASK :: u64 where "TAG_MASK = 3"

definition REGISTERED :: u64 where "REGISTERED = 1"

definition WAKING :: u64 where "WAKING = 2"

definition REGISTERING :: u64 where "REGISTERING = 3"

definition ptr_set :: "u64 \<Rightarrow> u64 \<Rightarrow> u64" where
  "ptr_set p t = (p AND NOT TAG_MASK) OR t"

definition ptr_unset :: "u64 \<Rightarrow> u64 \<Rightarrow> u64" where
  "ptr_unset p t = p AND NOT t"

definition ptr_tag :: "u64 \<Rightarrow> u64" where
  "ptr_tag p = p AND TAG_MASK"

subsection \<open>The cell and its clients\<close>

text \<open>A waker is the pair of its table and its data.\<close>

type_synonym raw_waker = "u64 \<times> u64"

record waker_env =
  we_noop :: u64
  we_clone :: "raw_waker \<Rightarrow> raw_waker"

record waker_cell =
  wc_vtable :: u64
  wc_data :: u64
  wc_cached_vtable :: u64
  wc_cached_data :: u64
  wc_owned :: "raw_waker list"
  wc_log :: "raw_waker list"
  wc_ub :: bool

definition cell_new :: "waker_env \<Rightarrow> waker_cell" where
  "cell_new E = \<lparr>wc_vtable = we_noop E, wc_data = 0, wc_cached_vtable = 0, wc_cached_data = 0, wc_owned = [],
     wc_log = [], wc_ub = False\<rparr>"

text \<open>A clone is alive until it is dropped, woken by value or handed out; doing so with anything else is
  undefined behaviour. The log holds the wakers woken or handed out, oldest first.\<close>

definition own :: "raw_waker \<Rightarrow> waker_cell \<Rightarrow> waker_cell" where
  "own w c = c\<lparr>wc_owned := w # wc_owned c\<rparr>"

definition disown :: "raw_waker \<Rightarrow> waker_cell \<Rightarrow> waker_cell" where
  "disown w c = (if w \<in> set (wc_owned c) then c\<lparr>wc_owned := remove1 w (wc_owned c)\<rparr> else c\<lparr>wc_ub := True\<rparr>)"

definition signal :: "raw_waker \<Rightarrow> waker_cell \<Rightarrow> waker_cell" where
  "signal w c = c\<lparr>wc_log := wc_log c @ [w]\<rparr>"

text \<open>The place where a thread is in its call. The places of \<^verbatim>\<open>register\<close> carry the waker being
  registered, those after the cell was locked also the tagged pointer it was locked with (\<open>None\<close> when
  \<^verbatim>\<open>MwsrWaker\<close> publishes without a lock) and the clone; those of \<^verbatim>\<open>take\<close> and \<^verbatim>\<open>wake\<close> whether the waker is
  to be woken.\<close>

datatype cell_pc =
    CellIdle
  | RegCachedVtable raw_waker
  | RegCachedData raw_waker u64
  | RegFast raw_waker
  | RegLoad raw_waker
  | RegLoop raw_waker u64
  | RegDropOld raw_waker u64 u64
  | RegStoreData raw_waker "u64 option"
  | RegPublish raw_waker raw_waker "u64 option"
  | RegCacheVtable raw_waker
  | RegCacheData raw_waker
  | RegAbort raw_waker
  | RegClearData raw_waker
  | RegClearVtable raw_waker
  | RegClearCache raw_waker
  | RegWake raw_waker
  | TakeLoad bool
  | TakeLoop bool u64
  | TakeData bool u64
  | TakeClear bool raw_waker
  | TakeRelease bool raw_waker
  | TakeWake raw_waker

definition cas :: "u64 \<Rightarrow> u64 \<Rightarrow> waker_cell \<Rightarrow> waker_cell \<times> bool" where
  "cas old new c = (if wc_vtable c = old then (c\<lparr>wc_vtable := new\<rparr>, True) else (c, False))"

subsection \<open>Registering\<close>

text \<open>The loop of \<^verbatim>\<open>AtomicWaker::register\<close> with the pointer it last read.\<close>

definition atomic_register_loop :: "waker_env \<Rightarrow> raw_waker \<Rightarrow> u64 \<Rightarrow> waker_cell \<Rightarrow> waker_cell \<times> cell_pc" where
  "atomic_register_loop E w v c =
     (let tag = ptr_tag v in
      if tag = WAKING then (signal w c, CellIdle)
      else if tag = REGISTERING then (c, CellIdle)
      else if tag = 0 \<and> v = we_noop E then
        (let r = ptr_set v REGISTERING
         in case cas v r c of
              (c', True) \<Rightarrow> (c', RegStoreData w (Some r))
            | (c', False) \<Rightarrow> (c', RegLoop w (wc_vtable c')))
      else if tag = REGISTERED then
        (let r = ptr_set v REGISTERING
         in case cas v r c of
              (c', True) \<Rightarrow> (c', RegDropOld w r (ptr_unset v TAG_MASK))
            | (c', False) \<Rightarrow> (c', RegLoop w (wc_vtable c')))
      else (c, RegLoad w))"

text \<open>The loop of \<^verbatim>\<open>MwsrWaker::register\<close>: it waits for another registration to end, and an empty cell
  needs no lock.\<close>

definition mwsr_register_loop :: "waker_env \<Rightarrow> raw_waker \<Rightarrow> u64 \<Rightarrow> waker_cell \<Rightarrow> waker_cell \<times> cell_pc" where
  "mwsr_register_loop E w v c =
     (let tag = ptr_tag v in
      if tag = WAKING then (signal w c, CellIdle)
      else if tag = REGISTERING then (c, RegLoad w)
      else if tag = 0 \<and> v = we_noop E then (c, RegStoreData w None)
      else if tag = REGISTERED then
        (let r = ptr_set v REGISTERING
         in case cas v r c of
              (c', True) \<Rightarrow> (c', RegDropOld w r (ptr_unset v TAG_MASK))
            | (c', False) \<Rightarrow> (c', RegLoop w (wc_vtable c')))
      else (c, RegLoad w))"

text \<open>The rest of \<^verbatim>\<open>register\<close> is the same in both.\<close>

fun register_step ::
  "(raw_waker \<Rightarrow> u64 \<Rightarrow> waker_cell \<Rightarrow> waker_cell \<times> cell_pc) \<Rightarrow> waker_env \<Rightarrow> cell_pc \<Rightarrow> waker_cell \<Rightarrow> waker_cell \<times> cell_pc" where
  "register_step loop E (RegCachedVtable w) c = (c, RegCachedData w (wc_cached_vtable c))"
| "register_step loop E (RegCachedData w cv) c =
     (c, if fst w = cv \<and> snd w = wc_cached_data c then RegFast w else RegLoad w)"
| "register_step loop E (RegFast w) c = (c, if wc_vtable c = ptr_set (fst w) REGISTERED then CellIdle else RegLoad w)"
| "register_step loop E (RegLoad w) c = (c, RegLoop w (wc_vtable c))"
| "register_step loop E (RegLoop w v) c = loop w v c"
| "register_step loop E (RegDropOld w r clean) c =
     (if clean \<noteq> we_noop E then disown (clean, wc_data c) c else c, RegStoreData w (Some r))"
| "register_step loop E (RegStoreData w lock) c =
     (let owned = we_clone E w in (own owned (c\<lparr>wc_data := snd owned\<rparr>), RegPublish w owned lock))"
| "register_step loop E (RegPublish w owned lock) c =
     (let new = ptr_set (fst owned) REGISTERED
      in case lock of
           None \<Rightarrow> (c\<lparr>wc_vtable := new\<rparr>, RegCacheVtable w)
         | Some r \<Rightarrow> (case cas r new c of (c', True) \<Rightarrow> (c', RegCacheVtable w) | (c', False) \<Rightarrow> (c', RegAbort owned)))"
| "register_step loop E (RegCacheVtable w) c = (c\<lparr>wc_cached_vtable := fst w\<rparr>, RegCacheData w)"
| "register_step loop E (RegCacheData w) c = (c\<lparr>wc_cached_data := snd w\<rparr>, CellIdle)"
| "register_step loop E (RegAbort owned) c = (c\<lparr>wc_vtable := we_noop E\<rparr>, RegClearData owned)"
| "register_step loop E (RegClearData owned) c = (c\<lparr>wc_data := 0\<rparr>, RegClearVtable owned)"
| "register_step loop E (RegClearVtable owned) c = (c\<lparr>wc_cached_vtable := 0\<rparr>, RegClearCache owned)"
| "register_step loop E (RegClearCache owned) c = (c\<lparr>wc_cached_data := 0\<rparr>, RegWake owned)"
| "register_step loop E (RegWake owned) c = (signal owned (disown owned c), CellIdle)"
| "register_step loop E pc c = (c, pc)"

subsection \<open>Taking and waking\<close>

text \<open>\<^verbatim>\<open>take\<close> hands the waker to its caller, \<^verbatim>\<open>wake\<close> wakes it.\<close>

fun take_step :: "waker_env \<Rightarrow> cell_pc \<Rightarrow> waker_cell \<Rightarrow> waker_cell \<times> cell_pc" where
  "take_step E (TakeLoad wk) c = (c, TakeLoop wk (wc_vtable c))"
| "take_step E (TakeLoop wk v) c =
     (let tag = ptr_tag v in
      if tag = REGISTERING then
        (case cas v (ptr_set v WAKING) c of (c', True) \<Rightarrow> (c', CellIdle) | (c', False) \<Rightarrow> (c', TakeLoop wk (wc_vtable c')))
      else if tag = REGISTERED then
        (case cas v (ptr_set v WAKING) c of
           (c', True) \<Rightarrow> (c', TakeData wk (ptr_unset v TAG_MASK))
         | (c', False) \<Rightarrow> (c', TakeLoop wk (wc_vtable c')))
      else (c, CellIdle))"
| "take_step E (TakeData wk clean) c = (c, TakeClear wk (clean, wc_data c))"
| "take_step E (TakeClear wk w) c = (c\<lparr>wc_data := 0\<rparr>, TakeRelease wk w)"
| "take_step E (TakeRelease wk w) c =
     (let c' = c\<lparr>wc_vtable := we_noop E\<rparr> in if wk then (c', TakeWake w) else (signal w (disown w c'), CellIdle))"
| "take_step E (TakeWake w) c = (signal w (disown w c), CellIdle)"
| "take_step E pc c = (c, pc)"

fun is_take :: "cell_pc \<Rightarrow> bool" where
  "is_take (TakeLoad _) = True"
| "is_take (TakeLoop _ _) = True"
| "is_take (TakeData _ _) = True"
| "is_take (TakeClear _ _) = True"
| "is_take (TakeRelease _ _) = True"
| "is_take (TakeWake _) = True"
| "is_take _ = False"

text \<open>The two kinds of cell.\<close>

datatype cell_kind = AtomicCell | MwsrCell

fun register_loop :: "cell_kind \<Rightarrow> waker_env \<Rightarrow> raw_waker \<Rightarrow> u64 \<Rightarrow> waker_cell \<Rightarrow> waker_cell \<times> cell_pc" where
  "register_loop AtomicCell = atomic_register_loop"
| "register_loop MwsrCell = mwsr_register_loop"

definition cell_step :: "cell_kind \<Rightarrow> waker_env \<Rightarrow> cell_pc \<Rightarrow> waker_cell \<Rightarrow> waker_cell \<times> cell_pc" where
  "cell_step k E pc c = (if is_take pc then take_step E pc c else register_step (register_loop k E) E pc c)"

text \<open>\<^verbatim>\<open>drop\<close>, once no call is under way.\<close>

definition cell_drop :: "waker_env \<Rightarrow> waker_cell \<Rightarrow> waker_cell" where
  "cell_drop E c =
     (let clean = ptr_unset (wc_vtable c) TAG_MASK
      in if ptr_tag (wc_vtable c) = REGISTERED \<and> clean \<noteq> we_noop E then disown (clean, wc_data c) c else c)"

subsection \<open>Schedules\<close>

datatype cell_call = Register raw_waker | Take | Wake

fun call_pc :: "cell_call \<Rightarrow> cell_pc" where
  "call_pc (Register w) = RegCachedVtable w"
| "call_pc Take = TakeLoad False"
| "call_pc Wake = TakeLoad True"

text \<open>Beside the cell and the threads the system remembers the last waker registered and how long the
  log was then.\<close>

record cell_system =
  cy_cell :: waker_cell
  cy_pcs :: "cell_pc list"
  cy_request :: "(raw_waker \<times> nat) option"

definition system_new :: "waker_env \<Rightarrow> nat \<Rightarrow> cell_system" where
  "system_new E n = \<lparr>cy_cell = cell_new E, cy_pcs = replicate n CellIdle, cy_request = None\<rparr>"

text \<open>An event of a schedule: a thread begins a call, or takes a step of the one it is in.\<close>

datatype cell_event = Begin nat cell_call | Step nat

definition run_event :: "cell_kind \<Rightarrow> waker_env \<Rightarrow> cell_event \<Rightarrow> cell_system \<Rightarrow> cell_system" where
  "run_event k E e s =
     (case e of
        Begin i call \<Rightarrow>
          s\<lparr>cy_pcs := (cy_pcs s)[i := call_pc call],
            cy_request := (case call of Register w \<Rightarrow> Some (w, length (wc_log (cy_cell s))) | _ \<Rightarrow> cy_request s)\<rparr>
      | Step i \<Rightarrow> (case cell_step k E (cy_pcs s ! i) (cy_cell s) of (c, pc) \<Rightarrow> s\<lparr>cy_cell := c, cy_pcs := (cy_pcs s)[i := pc]\<rparr>))"

definition run_schedule :: "cell_kind \<Rightarrow> waker_env \<Rightarrow> cell_event list \<Rightarrow> cell_system \<Rightarrow> cell_system" where
  "run_schedule k E es s = fold (run_event k E) es s"

end
