(* ===== verification/Waker_Cell_Inv.thy ===== *)
theory Waker_Cell_Inv
  imports Waker_Cell "HOL-Library.Multiset"
begin

unbundle bit_operations_syntax

text \<open>
  What a waker cell guarantees. With one thread registering, in every schedule and with any number of
  threads waking: no waker is made of pointers that belong to none, every clone is released once, and a
  registered waker is stored, woken, or on its way to be woken. With two threads registering,
  \<^verbatim>\<open>AtomicWaker\<close> loses both guarantees.
\<close>

subsection \<open>Pointers\<close>

lemma tag_mask: "(3 :: u64) = mask 2"
  by (simp add: mask_eq_exp_minus_1)

lemma tags [simp]: "TAG_MASK = 3" "REGISTERED = 1" "WAKING = 2" "REGISTERING = 3"
  by (simp_all add: TAG_MASK_def REGISTERED_def WAKING_def REGISTERING_def)

definition is_tag :: "u64 \<Rightarrow> bool" where
  "is_tag t \<longleftrightarrow> t AND 3 = t"

lemma tag_consts [simp]: "is_tag 0" "is_tag 1" "is_tag 2" "is_tag 3"
  by (simp_all add: is_tag_def)

lemma tag_bit: "is_tag t \<Longrightarrow> bit t n \<Longrightarrow> n < 2"
  unfolding is_tag_def tag_mask by (metis bit_and_iff bit_mask_iff)

lemma ptr_tag_is_tag [simp]: "is_tag (ptr_tag p)"
  by (simp add: is_tag_def ptr_tag_def and.assoc)

lemma ptr_tag_set [simp]: "is_tag t \<Longrightarrow> ptr_tag (ptr_set p t) = t"
  by (rule bit_word_eqI) (auto simp: ptr_tag_def ptr_set_def tag_mask bit_simps dest: tag_bit)

lemma ptr_set_set [simp]: "is_tag t \<Longrightarrow> ptr_set (ptr_set p t) u = ptr_set p u"
  by (rule bit_word_eqI) (auto simp: ptr_set_def tag_mask bit_simps dest: tag_bit)

lemma ptr_unset_set [simp]: "is_tag t \<Longrightarrow> ptr_unset (ptr_set p t) 3 = ptr_unset p 3"
  by (rule bit_word_eqI) (auto simp: ptr_set_def ptr_unset_def tag_mask bit_simps dest: tag_bit)

lemma ptr_unset_aligned [simp]: "ptr_tag p = 0 \<Longrightarrow> ptr_unset p 3 = p"
proof -
  assume a: "ptr_tag p = 0"
  have "\<not> bit p n" if "n < 2" for n using arg_cong [OF a, of "\<lambda>w. bit w n"] that by (simp add: ptr_tag_def tag_mask bit_simps)
  then show ?thesis by (intro bit_word_eqI) (auto simp: ptr_unset_def tag_mask bit_simps)
qed

lemma ptr_set_unset [simp]: "ptr_set (ptr_unset p 3) t = ptr_set p t"
  by (rule bit_word_eqI) (auto simp: ptr_set_def ptr_unset_def tag_mask bit_simps)

lemma ptr_tag_unset [simp]: "ptr_tag (ptr_unset p 3) = 0"
  by (rule bit_word_eqI) (auto simp: ptr_tag_def ptr_unset_def tag_mask bit_simps)

lemma ptr_set_tag [simp]: "ptr_set p (ptr_tag p) = p"
  by (rule bit_word_eqI) (auto simp: ptr_set_def ptr_tag_def tag_mask bit_simps)

lemma ptr_tag_cases: "ptr_tag p = 0 \<or> ptr_tag p = 1 \<or> ptr_tag p = 2 \<or> ptr_tag p = 3"
proof -
  have "unat (ptr_tag p) < 2 ^ 2" unfolding ptr_tag_def tags(1) tag_mask and_mask_unat by simp
  then have "unat (ptr_tag p) \<in> {0, 1, 2, 3}" by auto
  then show ?thesis by (auto simp: word_unat_eq_iff)
qed

lemma ptr_eq_set: "ptr_tag v = t \<Longrightarrow> ptr_set (ptr_unset v 3) t = v"
  using ptr_set_tag [of v] by simp

subsection \<open>The invariant\<close>

definition good_waker :: "waker_env \<Rightarrow> raw_waker \<Rightarrow> bool" where
  "good_waker E w \<longleftrightarrow> ptr_tag (fst w) = 0 \<and> fst w \<noteq> we_noop E"

definition waker_env_ok :: "waker_env \<Rightarrow> bool" where
  "waker_env_ok E \<longleftrightarrow> ptr_tag (we_noop E) = 0 \<and> (\<forall>w. good_waker E w \<longrightarrow> good_waker E (we_clone E w))"

abbreviation cell_tag :: "waker_cell \<Rightarrow> u64" where
  "cell_tag c \<equiv> ptr_tag (wc_vtable c)"

definition stored :: "waker_cell \<Rightarrow> raw_waker" where
  "stored c = (ptr_unset (wc_vtable c) 3, wc_data c)"

text \<open>The lock a registering thread holds, and the threads that have the cell to themselves.\<close>

fun lock_of :: "cell_pc \<Rightarrow> u64 option" where
  "lock_of (RegDropOld w r clean) = Some r"
| "lock_of (RegStoreData w lock) = lock"
| "lock_of (RegPublish w owned lock) = lock"
| "lock_of _ = None"

fun exclusive :: "cell_pc \<Rightarrow> bool" where
  "exclusive (TakeData _ _) = True"
| "exclusive (TakeClear _ _) = True"
| "exclusive (TakeRelease _ _) = True"
| "exclusive (RegAbort _) = True"
| "exclusive pc = (lock_of pc \<noteq> None)"

text \<open>The clones a thread has in its hands.\<close>

fun held :: "waker_cell \<Rightarrow> cell_pc \<Rightarrow> raw_waker multiset" where
  "held c (TakeData wk clean) = {#(clean, wc_data c)#}"
| "held c (TakeClear wk w) = {#w#}"
| "held c (TakeRelease wk w) = {#w#}"
| "held c (TakeWake w) = {#w#}"
| "held c (RegDropOld w r clean) = {#(clean, wc_data c)#}"
| "held c (RegPublish w owned lock) = {#owned#}"
| "held c (RegAbort owned) = {#owned#}"
| "held c (RegClearData owned) = {#owned#}"
| "held c (RegClearVtable owned) = {#owned#}"
| "held c (RegClearCache owned) = {#owned#}"
| "held c (RegWake owned) = {#owned#}"
| "held c _ = {#}"

definition held_all :: "waker_cell \<Rightarrow> cell_pc list \<Rightarrow> raw_waker multiset" where
  "held_all c pcs = (if cell_tag c = 1 then {#stored c#} else {#}) + (\<Sum>pc\<leftarrow>pcs. held c pc)"

text \<open>What holds of the cell while a thread is at a place.\<close>

definition lock_ok :: "waker_cell \<Rightarrow> u64 option \<Rightarrow> bool" where
  "lock_ok c lock \<longleftrightarrow> (case lock of None \<Rightarrow> cell_tag c = 0 | Some r \<Rightarrow> ptr_tag r = 3 \<and> (wc_vtable c = r \<or> wc_vtable c = ptr_set r 2))"

fun pc_ok :: "waker_env \<Rightarrow> waker_cell \<Rightarrow> cell_pc \<Rightarrow> bool" where
  "pc_ok E c (TakeData wk clean) \<longleftrightarrow> cell_tag c = 2 \<and> clean = ptr_unset (wc_vtable c) 3"
| "pc_ok E c (TakeClear wk w) \<longleftrightarrow> cell_tag c = 2"
| "pc_ok E c (TakeRelease wk w) \<longleftrightarrow> cell_tag c = 2"
| "pc_ok E c (RegCachedVtable w) \<longleftrightarrow> good_waker E w"
| "pc_ok E c (RegCachedData w cv) \<longleftrightarrow> good_waker E w \<and> cv = wc_cached_vtable c"
| "pc_ok E c (RegFast w) \<longleftrightarrow> good_waker E w \<and> w = (wc_cached_vtable c, wc_cached_data c)"
| "pc_ok E c (RegLoad w) \<longleftrightarrow> good_waker E w"
| "pc_ok E c (RegLoop w v) \<longleftrightarrow> good_waker E w \<and> ptr_tag v \<noteq> 3 \<and> (ptr_tag v = 0 \<longrightarrow> cell_tag c = 0)"
| "pc_ok E c (RegDropOld w r clean) \<longleftrightarrow> good_waker E w \<and> clean \<noteq> we_noop E \<and> lock_ok c (Some r)"
| "pc_ok E c (RegStoreData w lock) \<longleftrightarrow> good_waker E w \<and> lock_ok c lock"
| "pc_ok E c (RegPublish w owned lock) \<longleftrightarrow> good_waker E w \<and> owned = we_clone E w \<and> wc_data c = snd owned \<and> lock_ok c lock"
| "pc_ok E c (RegCacheData w) \<longleftrightarrow> wc_cached_vtable c = fst w"
| "pc_ok E c (RegAbort owned) \<longleftrightarrow> cell_tag c = 2"
| "pc_ok E c (RegClearData owned) \<longleftrightarrow> cell_tag c = 0"
| "pc_ok E c (RegClearVtable owned) \<longleftrightarrow> cell_tag c = 0"
| "pc_ok E c (RegClearCache owned) \<longleftrightarrow> cell_tag c = 0"
| "pc_ok E c (RegWake owned) \<longleftrightarrow> cell_tag c = 0"
| "pc_ok E c _ \<longleftrightarrow> True"

text \<open>The cache names the stored waker whenever the registering thread looks at it.\<close>

fun cache_ok :: "waker_env \<Rightarrow> waker_cell \<Rightarrow> cell_pc \<Rightarrow> bool" where
  "cache_ok E c (RegCacheVtable w) \<longleftrightarrow> (cell_tag c = 1 \<longrightarrow> stored c = we_clone E w)"
| "cache_ok E c (RegCacheData w) \<longleftrightarrow> (cell_tag c = 1 \<longrightarrow> stored c = we_clone E w)"
| "cache_ok E c _ \<longleftrightarrow> (cell_tag c = 1 \<longrightarrow> stored c = we_clone E (wc_cached_vtable c, wc_cached_data c))"

text \<open>The last request: under way, or stored, or in the hands of a thread that will wake it or hand it
  out, or woken or handed out since it began.\<close>

fun carries :: "waker_cell \<Rightarrow> cell_pc \<Rightarrow> raw_waker \<Rightarrow> bool" where
  "carries c (TakeData wk clean) w \<longleftrightarrow> w = (clean, wc_data c)"
| "carries c (TakeClear wk x) w \<longleftrightarrow> w = x"
| "carries c (TakeRelease wk x) w \<longleftrightarrow> w = x"
| "carries c (TakeWake x) w \<longleftrightarrow> w = x"
| "carries c _ w \<longleftrightarrow> False"

definition answered :: "waker_env \<Rightarrow> raw_waker \<Rightarrow> nat \<Rightarrow> waker_cell \<Rightarrow> cell_pc list \<Rightarrow> bool" where
  "answered E w k c pcs \<longleftrightarrow>
     (\<exists>i < length pcs. carries c (pcs ! i) (we_clone E w)) \<or> (\<exists>x \<in> set (drop k (wc_log c)). x = w \<or> x = we_clone E w)"

definition settled :: "waker_env \<Rightarrow> raw_waker \<Rightarrow> nat \<Rightarrow> waker_cell \<Rightarrow> cell_pc list \<Rightarrow> bool" where
  "settled E w k c pcs \<longleftrightarrow> cell_tag c = 1 \<and> stored c = we_clone E w \<or> answered E w k c pcs"

fun request_of :: "waker_env \<Rightarrow> cell_pc \<Rightarrow> raw_waker \<Rightarrow> bool option" where
  "request_of E (RegCachedVtable w') w = Some (w' = w)"
| "request_of E (RegCachedData w' _) w = Some (w' = w)"
| "request_of E (RegFast w') w = Some (w' = w)"
| "request_of E (RegLoad w') w = Some (w' = w)"
| "request_of E (RegLoop w' _) w = Some (w' = w)"
| "request_of E (RegDropOld w' _ _) w = Some (w' = w)"
| "request_of E (RegStoreData w' _) w = Some (w' = w)"
| "request_of E (RegPublish w' _ _) w = Some (w' = w)"
| "request_of E (RegAbort owned) w = Some (owned = we_clone E w)"
| "request_of E (RegClearData owned) w = Some (owned = we_clone E w)"
| "request_of E (RegClearVtable owned) w = Some (owned = we_clone E w)"
| "request_of E (RegClearCache owned) w = Some (owned = we_clone E w)"
| "request_of E (RegWake owned) w = Some (owned = we_clone E w)"
| "request_of E _ w = None"

definition request_ok :: "waker_env \<Rightarrow> (raw_waker \<times> nat) option \<Rightarrow> waker_cell \<Rightarrow> cell_pc list \<Rightarrow> bool" where
  "request_ok E req c pcs \<longleftrightarrow>
     (case req of
        None \<Rightarrow> \<forall>w. request_of E (pcs ! 0) w = None
      | Some (w, k) \<Rightarrow> k \<le> length (wc_log c)
          \<and> (case request_of E (pcs ! 0) w of Some same \<Rightarrow> same | None \<Rightarrow> settled E w k c pcs))"

definition cell_inv :: "waker_env \<Rightarrow> nat option \<Rightarrow> cell_system \<Rightarrow> bool" where
  "cell_inv E x s \<longleftrightarrow> (let c = cy_cell s; pcs = cy_pcs s in
       pcs \<noteq> [] \<and> (\<forall>i < length pcs. i \<noteq> 0 \<longrightarrow> is_take (pcs ! i) \<or> pcs ! i = CellIdle)
     \<and> (\<forall>i < length pcs. exclusive (pcs ! i) \<longleftrightarrow> x = Some i) \<and> (x \<noteq> None \<longleftrightarrow> cell_tag c = 2 \<or> cell_tag c = 3) \<and> (\<forall>i. x = Some i \<longrightarrow> i < length pcs)
     \<and> (\<forall>i < length pcs. pc_ok E c (pcs ! i))
     \<and> (cell_tag c = 0 \<longrightarrow> wc_vtable c = we_noop E) \<and> (cell_tag c = 1 \<longrightarrow> ptr_unset (wc_vtable c) 3 \<noteq> we_noop E)
     \<and> mset (wc_owned c) = held_all c pcs \<and> cache_ok E c (pcs ! 0) \<and> \<not> wc_ub c
     \<and> request_ok E (cy_request s) c pcs)"

lemma cell_invD:
  assumes "cell_inv E x s"
  shows "cy_pcs s \<noteq> []" "\<And>i. i < length (cy_pcs s) \<Longrightarrow> i \<noteq> 0 \<Longrightarrow> is_take (cy_pcs s ! i) \<or> cy_pcs s ! i = CellIdle"
    "\<And>i. i < length (cy_pcs s) \<Longrightarrow> exclusive (cy_pcs s ! i) \<longleftrightarrow> x = Some i"
    "x \<noteq> None \<longleftrightarrow> cell_tag (cy_cell s) = 2 \<or> cell_tag (cy_cell s) = 3" "\<And>i. x = Some i \<Longrightarrow> i < length (cy_pcs s)"
    "\<And>i. i < length (cy_pcs s) \<Longrightarrow> pc_ok E (cy_cell s) (cy_pcs s ! i)"
    "cell_tag (cy_cell s) = 0 \<Longrightarrow> wc_vtable (cy_cell s) = we_noop E" "cell_tag (cy_cell s) = 1 \<Longrightarrow> ptr_unset (wc_vtable (cy_cell s)) 3 \<noteq> we_noop E"
    "mset (wc_owned (cy_cell s)) = held_all (cy_cell s) (cy_pcs s)" "cache_ok E (cy_cell s) (cy_pcs s ! 0)" "\<not> wc_ub (cy_cell s)"
    "request_ok E (cy_request s) (cy_cell s) (cy_pcs s)"
  using assms by (simp_all add: cell_inv_def Let_def)

text \<open>A thread that does not have the cell depends on its data only where the cell is empty.\<close>

lemma held_data: "wc_data c' = wc_data c \<or> \<not> exclusive pc \<Longrightarrow> held c' pc = held c pc"
  by (cases pc) auto

lemma carries_data: "wc_data c' = wc_data c \<or> \<not> exclusive pc \<Longrightarrow> carries c' pc = carries c pc"
  by (cases pc) (auto simp: fun_eq_iff)

lemma mset_exchange:
  assumes "B + a = (A :: 'x multiset) + b" "ow = st + A" "ow' + (st + a) = ow + (st' + b)"
  shows "ow' = st' + B"
proof (rule multiset_eqI)
  fix x
  have "count B x + count a x = count A x + count b x" "count ow x = count st x + count A x"
    "count ow' x + (count st x + count a x) = count ow x + (count st' x + count b x)"
    using assms by (metis count_union)+
  then show "count ow' x = count (st' + B) x" by simp
qed

lemma mset_swap:
  assumes "X + b = (B :: 'x multiset) + a'" "X + a = A + a'"
  shows "B + a = A + b"
proof (rule multiset_eqI)
  fix x
  have "count X x + count b x = count B x + count a' x" "count X x + count a x = count A x + count a' x"
    using assms by (metis count_union)+
  then show "count (B + a) x = count (A + b) x" by simp
qed

lemma held_all_update:
  assumes "i < length pcs" "\<And>j. j < length pcs \<Longrightarrow> j \<noteq> i \<Longrightarrow> held c' (pcs ! j) = held c (pcs ! j)" "mset (wc_owned c) = held_all c pcs"
    "mset (wc_owned c') + ((if cell_tag c = 1 then {#stored c#} else {#}) + held c (pcs ! i))
       = mset (wc_owned c) + ((if cell_tag c' = 1 then {#stored c'#} else {#}) + held c' pc')"
  shows "mset (wc_owned c') = held_all c' (pcs[i := pc'])"
proof -
  have "map (held c) (pcs[i := pc']) = (map (held c') (pcs[i := pc']))[i := held c pc']"
    using assms(1,2) by (auto simp: list_eq_iff_nth_eq nth_list_update)
  then have "(\<Sum>pc\<leftarrow>pcs[i := pc']. held c pc) + held c' pc' = (\<Sum>pc\<leftarrow>pcs[i := pc']. held c' pc) + held c pc'"
    using sum_list_map_update [of i "map (held c') (pcs[i := pc'])" "\<lambda>x. x" "held c pc'"] assms(1) by simp
  moreover have "(\<Sum>pc\<leftarrow>pcs[i := pc']. held c pc) + held c (pcs ! i) = (\<Sum>pc\<leftarrow>pcs. held c pc) + held c pc'"
    by (rule sum_list_map_update [OF assms(1)])
  ultimately have "(\<Sum>pc\<leftarrow>pcs[i := pc']. held c' pc) + held c (pcs ! i) = (\<Sum>pc\<leftarrow>pcs. held c pc) + held c' pc'"
    by (rule mset_swap)
  from mset_exchange [OF this assms(3) [unfolded held_all_def] assms(4)] show ?thesis unfolding held_all_def .
qed

text \<open>One step of a thread: the obligations that are left when the parts that do not change are
  discharged.\<close>

lemma cell_inv_step:
  assumes inv: "cell_inv E x s" and i: "i < length (cy_pcs s)"
    and role: "i \<noteq> 0 \<Longrightarrow> is_take pc' \<or> pc' = CellIdle"
    and x': "exclusive pc' \<longleftrightarrow> x' = Some i" "\<And>j. j \<noteq> i \<Longrightarrow> x' = Some j \<longleftrightarrow> x = Some j"
    and tag: "x' \<noteq> None \<longleftrightarrow> cell_tag c' = 2 \<or> cell_tag c' = 3"
    and others: "\<And>j. j < length (cy_pcs s) \<Longrightarrow> j \<noteq> i \<Longrightarrow> pc_ok E c' (cy_pcs s ! j)" and own: "pc_ok E c' pc'"
    and cell: "cell_tag c' = 0 \<Longrightarrow> wc_vtable c' = we_noop E" "cell_tag c' = 1 \<Longrightarrow> ptr_unset (wc_vtable c') 3 \<noteq> we_noop E" "\<not> wc_ub c'"
    and data: "wc_data c' = wc_data (cy_cell s) \<or> x = Some i \<or> x = None"
    and owned: "mset (wc_owned c') + ((if cell_tag (cy_cell s) = 1 then {#stored (cy_cell s)#} else {#}) + held (cy_cell s) (cy_pcs s ! i))
       = mset (wc_owned (cy_cell s)) + ((if cell_tag c' = 1 then {#stored c'#} else {#}) + held c' pc')"
    and cache: "cache_ok E c' ((cy_pcs s)[i := pc'] ! 0)"
    and req: "request_ok E (cy_request s) c' ((cy_pcs s)[i := pc'])"
  shows "cell_inv E x' (s\<lparr>cy_cell := c', cy_pcs := (cy_pcs s)[i := pc']\<rparr>)"
proof -
  note I = cell_invD [OF inv]
  have "held c' (cy_pcs s ! j) = held (cy_cell s) (cy_pcs s ! j)" if "j < length (cy_pcs s)" "j \<noteq> i" for j
    by (rule held_data) (use data I(3) [OF that(1)] that(2) in auto)
  then have "mset (wc_owned c') = held_all c' ((cy_pcs s)[i := pc'])" using held_all_update [OF i _ I(9) owned] by blast
  moreover have "exclusive ((cy_pcs s)[i := pc'] ! j) \<longleftrightarrow> x' = Some j" if "j < length (cy_pcs s)" for j
    using that i x' I(3) by (cases "j = i") simp_all
  moreover have "pc_ok E c' ((cy_pcs s)[i := pc'] ! j)" if "j < length (cy_pcs s)" for j
    using that i others own by (cases "j = i") simp_all
  moreover have "is_take ((cy_pcs s)[i := pc'] ! j) \<or> (cy_pcs s)[i := pc'] ! j = CellIdle" if "j < length (cy_pcs s)" "j \<noteq> 0" for j
    using that i role I(2) by (cases "j = i") simp_all
  moreover have "j < length (cy_pcs s)" if "x' = Some j" for j using that x'(2) [of j] i I(5) by (cases "j = i") auto
  ultimately show ?thesis
    unfolding cell_inv_def using I(1) tag cell cache req by (simp add: Let_def)
qed

lemma pc_ok_same:
  "\<lbrakk>wc_vtable c' = wc_vtable c; wc_data c' = wc_data c; wc_cached_vtable c' = wc_cached_vtable c; wc_cached_data c' = wc_cached_data c\<rbrakk>
     \<Longrightarrow> pc_ok E c' pc = pc_ok E c pc"
  by (cases pc) (auto simp: lock_ok_def split: option.splits)

lemma pc_ok_busy:
  "\<lbrakk>pc_ok E c pc; \<not> exclusive pc; cell_tag c \<noteq> 0; wc_cached_vtable c' = wc_cached_vtable c; wc_cached_data c' = wc_cached_data c\<rbrakk>
     \<Longrightarrow> pc_ok E c' pc"
  by (cases pc) (auto simp: lock_ok_def)

lemma pc_ok_signalled:
  "\<lbrakk>pc_ok E c pc; cell_tag c = 3\<rbrakk> \<Longrightarrow> pc_ok E (c\<lparr>wc_vtable := ptr_set (wc_vtable c) 2\<rparr>) pc"
  by (cases pc) (auto simp: lock_ok_def split: option.splits)

lemma cache_take:
  "\<lbrakk>cache_ok E c p; cell_tag c' = 1 \<Longrightarrow> cell_tag c = 1 \<and> stored c' = stored c; wc_cached_vtable c' = wc_cached_vtable c;
     wc_cached_data c' = wc_cached_data c; p' = p \<or> is_take p \<and> (is_take p' \<or> p' = CellIdle)\<rbrakk> \<Longrightarrow> cache_ok E c' p'"
  by (cases p; cases p') auto

lemma request_of_take: "is_take pc \<or> pc = CellIdle \<Longrightarrow> request_of E pc w = None"
  by (cases pc) auto

lemma answered_step:
  assumes "answered E w k c pcs" "k \<le> length (wc_log c)" "wc_log c' = wc_log c @ l" "i < length pcs"
    and oth: "\<And>j. j < length pcs \<Longrightarrow> j \<noteq> i \<Longrightarrow> carries c' (pcs ! j) = carries c (pcs ! j)"
    and own: "\<And>v. carries c (pcs ! i) v \<Longrightarrow> carries c' pc' v \<or> v \<in> set l"
  shows "answered E w k c' (pcs[i := pc'])"
proof -
  have l: "set (drop k (wc_log c')) = set (drop k (wc_log c)) \<union> set l" using assms(2,3) by simp
  consider (carry) j where "j < length pcs" "carries c (pcs ! j) (we_clone E w)"
    | (log) y where "y \<in> set (drop k (wc_log c))" "y = w \<or> y = we_clone E w"
    using assms(1) by (auto simp: answered_def)
  then show ?thesis
  proof cases
    case carry
    show ?thesis
    proof (cases "j = i")
      case True
      then consider "carries c' (pcs[i := pc'] ! i) (we_clone E w)" | "we_clone E w \<in> set l"
        using own [of "we_clone E w"] carry(2) assms(4) by auto
      then show ?thesis using l assms(4) by cases (auto simp: answered_def)
    next
      case False
      then have "carries c' (pcs[i := pc'] ! j) (we_clone E w)" using oth carry by simp
      then show ?thesis using carry(1) by (auto simp: answered_def)
    qed
  next
    case log
    then show ?thesis using l by (auto simp: answered_def)
  qed
qed

lemma settled_step:
  assumes "settled E w k c pcs" "k \<le> length (wc_log c)" "wc_log c' = wc_log c @ l" "i < length pcs"
    and st: "cell_tag c = 1 \<Longrightarrow> (cell_tag c' = 1 \<and> stored c' = stored c) \<or> carries c' pc' (stored c)"
    and oth: "\<And>j. j < length pcs \<Longrightarrow> j \<noteq> i \<Longrightarrow> carries c' (pcs ! j) = carries c (pcs ! j)"
    and own: "\<And>v. carries c (pcs ! i) v \<Longrightarrow> carries c' pc' v \<or> v \<in> set l"
  shows "settled E w k c' (pcs[i := pc'])"
proof (cases "answered E w k c pcs")
  case True
  then show ?thesis using answered_step [OF _ assms(2-4) oth own] by (simp add: settled_def)
next
  case False
  then have t: "cell_tag c = 1" "stored c = we_clone E w" using assms(1) by (auto simp: settled_def)
  have "answered E w k c' (pcs[i := pc'])" if "carries c' pc' (stored c)"
    unfolding answered_def using that t(2) assms(4) by (intro disjI1 exI [of _ i]) simp
  then show ?thesis using st [OF t(1)] t by (auto simp: settled_def)
qed

lemma request_take:
  assumes "request_ok E req c pcs" "i < length pcs" "is_take (pcs ! i)" "is_take pc' \<or> pc' = CellIdle" "wc_log c' = wc_log c @ l"
    and "cell_tag c = 1 \<Longrightarrow> (cell_tag c' = 1 \<and> stored c' = stored c) \<or> carries c' pc' (stored c)"
    and "\<And>j. j < length pcs \<Longrightarrow> j \<noteq> i \<Longrightarrow> carries c' (pcs ! j) = carries c (pcs ! j)"
    and "\<And>v. carries c (pcs ! i) v \<Longrightarrow> carries c' pc' v \<or> v \<in> set l"
  shows "request_ok E req c' (pcs[i := pc'])"
proof -
  have r: "request_of E (pcs[i := pc'] ! 0) w = request_of E (pcs ! 0) w" for w
    using assms(2-4) by (cases "i = 0") (simp_all add: request_of_take)
  show ?thesis
  proof (cases req)
    case (Some wk)
    then show ?thesis using assms(1) settled_step [OF _ _ assms(5) assms(2) assms(6-8), of E "fst wk" "snd wk"]
      by (cases wk) (auto simp: request_ok_def r assms(5) split: option.splits)
  qed (use assms(1) in \<open>simp add: request_ok_def r\<close>)
qed

lemma in_sum_mset: "x \<in> set xs \<Longrightarrow> w \<in># f x \<Longrightarrow> w \<in># (\<Sum>y\<leftarrow>xs. f y)"
  by (induction xs) auto

lemma held_owned:
  assumes "cell_inv E x s" "i < length (cy_pcs s)" "w \<in># held (cy_cell s) (cy_pcs s ! i)"
  shows "w \<in> set (wc_owned (cy_cell s))"
proof -
  have "w \<in># (\<Sum>pc\<leftarrow>cy_pcs s. held (cy_cell s) pc)" by (rule in_sum_mset [where f = "held (cy_cell s)", OF nth_mem [OF assms(2)] assms(3)])
  then have "w \<in># mset (wc_owned (cy_cell s))" unfolding cell_invD(9) [OF assms(1)] held_all_def by simp
  then show ?thesis by simp
qed

subsection \<open>Taking\<close>

lemma take_role:
  assumes "i < length pcs" "is_take (pcs ! i)" "is_take pc' \<or> pc' = CellIdle"
  shows "pcs[i := pc'] ! 0 = pcs ! 0 \<or> is_take (pcs ! 0) \<and> (is_take (pcs[i := pc'] ! 0) \<or> pcs[i := pc'] ! 0 = CellIdle)"
  using assms by (cases "i = 0") auto

text \<open>A step that only reads the cell.\<close>

lemma take_reads:
  assumes inv: "cell_inv E x s" and i: "i < length (cy_pcs s)" and t: "is_take (cy_pcs s ! i)" and t': "is_take pc' \<or> pc' = CellIdle"
    and same: "exclusive pc' = exclusive (cy_pcs s ! i)" "held (cy_cell s) pc' = held (cy_cell s) (cy_pcs s ! i)"
      "\<And>v. carries (cy_cell s) (cy_pcs s ! i) v \<Longrightarrow> carries (cy_cell s) pc' v" "pc_ok E (cy_cell s) pc'"
  shows "cell_inv E x (s\<lparr>cy_cell := cy_cell s, cy_pcs := (cy_pcs s)[i := pc']\<rparr>)"
proof -
  note I = cell_invD [OF inv]
  have cache: "cache_ok E (cy_cell s) ((cy_pcs s)[i := pc'] ! 0)" by (rule cache_take [OF I(10) _ _ _ take_role [OF i t t']]) simp_all
  have req: "request_ok E (cy_request s) (cy_cell s) ((cy_pcs s)[i := pc'])"
    by (rule request_take [OF I(12) i t t', where l = "[]"]) (use same(3) in simp_all)
  show ?thesis
    by (rule cell_inv_step [OF inv i t']) (use I(3) [OF i] I(4,6,7,8,11) same cache req in simp_all)
qed

text \<open>A waker leaves the hands of a thread.\<close>

lemma released:
  assumes inv: "cell_inv E x s" and i: "i < length (cy_pcs s)" and t: "is_take (cy_pcs s ! i)"
    and h: "held (cy_cell s) (cy_pcs s ! i) = {#w#}" "\<And>v. carries (cy_cell s) (cy_pcs s ! i) v \<longleftrightarrow> v = w"
    and x: "exclusive (cy_pcs s ! i) \<Longrightarrow> v = we_noop E \<and> cell_tag (cy_cell s) = 2" "\<not> exclusive (cy_pcs s ! i) \<Longrightarrow> v = wc_vtable (cy_cell s)"
    and c: "c = (cy_cell s)\<lparr>wc_vtable := v\<rparr>" and noop: "ptr_tag (we_noop E) = 0"
  shows "\<exists>x'. cell_inv E x' (s\<lparr>cy_cell := signal w (disown w c), cy_pcs := (cy_pcs s)[i := CellIdle]\<rparr>)"
proof -
  let ?c = "signal w (disown w c)"
  note I = cell_invD [OF inv]
  have w: "w \<in> set (wc_owned (cy_cell s))" using held_owned [OF inv i] h by simp
  have o: "wc_owned c = wc_owned (cy_cell s)" "wc_data c = wc_data (cy_cell s)" "wc_cached_vtable c = wc_cached_vtable (cy_cell s)"
    "wc_cached_data c = wc_cached_data (cy_cell s)" "wc_log c = wc_log (cy_cell s)" "wc_ub c = wc_ub (cy_cell s)"
    unfolding c by simp_all
  have c': "wc_vtable ?c = v" "wc_data ?c = wc_data (cy_cell s)" "wc_cached_vtable ?c = wc_cached_vtable (cy_cell s)"
    "wc_cached_data ?c = wc_cached_data (cy_cell s)" "wc_log ?c = wc_log (cy_cell s) @ [w]" "wc_ub ?c = wc_ub (cy_cell s)"
    "wc_owned ?c = remove1 w (wc_owned (cy_cell s))"
    using w o by (simp_all add: signal_def disown_def c)
  let ?x = "if exclusive (cy_pcs s ! i) then None else x"
  have tag: "exclusive (cy_pcs s ! i) \<Longrightarrow> cell_tag ?c = 0" "\<not> exclusive (cy_pcs s ! i) \<Longrightarrow> wc_vtable ?c = wc_vtable (cy_cell s)"
    using x noop c'(1) by auto
  have "cell_inv E ?x (s\<lparr>cy_cell := ?c, cy_pcs := (cy_pcs s)[i := CellIdle]\<rparr>)"
  proof (rule cell_inv_step [OF inv i])
    show "exclusive CellIdle = (?x = Some i)" using I(3) [OF i] by simp
    show "?x = Some j \<longleftrightarrow> x = Some j" if "j \<noteq> i" for j using I(3) [OF i] that by auto
    show "?x \<noteq> None \<longleftrightarrow> cell_tag ?c = 2 \<or> cell_tag ?c = 3" using I(4) tag by auto
    show "pc_ok E ?c (cy_pcs s ! j)" if j: "j < length (cy_pcs s)" "j \<noteq> i" for j
    proof (cases "exclusive (cy_pcs s ! i)")
      case True
      then show ?thesis using pc_ok_busy [OF I(6) [OF j(1)]] I(3) [OF i] I(3) [OF j(1)] j(2) x(1) c' by simp
    next
      case False
      then show ?thesis using pc_ok_same [of ?c "cy_cell s" E] I(6) [OF j(1)] tag(2) c' by simp
    qed
    show "cell_tag ?c = 0 \<Longrightarrow> wc_vtable ?c = we_noop E" using I(7) tag x c'(1) by (cases "exclusive (cy_pcs s ! i)") auto
    show "cell_tag ?c = 1 \<Longrightarrow> ptr_unset (wc_vtable ?c) 3 \<noteq> we_noop E" using I(8) tag by (cases "exclusive (cy_pcs s ! i)") auto
    show "mset (wc_owned ?c) + ((if cell_tag (cy_cell s) = 1 then {#stored (cy_cell s)#} else {#}) + held (cy_cell s) (cy_pcs s ! i))
       = mset (wc_owned (cy_cell s)) + ((if cell_tag ?c = 1 then {#stored ?c#} else {#}) + held ?c CellIdle)"
      using w h x tag c' by (cases "exclusive (cy_pcs s ! i)") (auto simp: stored_def)
    show "cache_ok E ?c ((cy_pcs s)[i := CellIdle] ! 0)"
      by (rule cache_take [OF I(10) _ _ _ take_role [OF i t]]) (use tag c' in \<open>cases "exclusive (cy_pcs s ! i)"; simp add: stored_def\<close>)+
    show "request_ok E (cy_request s) ?c ((cy_pcs s)[i := CellIdle])"
    proof (rule request_take [OF I(12) i t _ c'(5)])
      show "carries ?c (cy_pcs s ! j) = carries (cy_cell s) (cy_pcs s ! j)" for j by (rule carries_data) (use c' in simp)
    qed (use h tag x c' in \<open>cases "exclusive (cy_pcs s ! i)"; simp add: stored_def\<close>)+
  qed (use I(11) c' in simp_all)
  then show ?thesis by blast
qed

text \<open>The cell is empty, and the waker in the hands of the thread.\<close>

lemma cleared_data:
  assumes inv: "cell_inv E x s" and i: "i < length (cy_pcs s)" and p: "cy_pcs s ! i = TakeClear wk w"
  shows "cell_inv E x (s\<lparr>cy_cell := (cy_cell s)\<lparr>wc_data := 0\<rparr>, cy_pcs := (cy_pcs s)[i := TakeRelease wk w]\<rparr>)"
proof -
  let ?c = "(cy_cell s)\<lparr>wc_data := 0\<rparr>"
  note I = cell_invD [OF inv]
  have t: "is_take (cy_pcs s ! i)" and x: "x = Some i" and tag: "cell_tag (cy_cell s) = 2"
    using I(3) [OF i] I(6) [OF i] p by simp_all
  have ne: "\<not> exclusive (cy_pcs s ! j)" if "j < length (cy_pcs s)" "j \<noteq> i" for j using I(3) [OF that(1)] that(2) x by simp
  show ?thesis
  proof (rule cell_inv_step [OF inv i])
    show "pc_ok E ?c (cy_pcs s ! j)" if "j < length (cy_pcs s)" "j \<noteq> i" for j
      by (rule pc_ok_busy [OF I(6) [OF that(1)] ne [OF that]]) (use tag in simp_all)
    show "cache_ok E ?c ((cy_pcs s)[i := TakeRelease wk w] ! 0)"
      by (rule cache_take [OF I(10) _ _ _ take_role [OF i t]]) (use tag in simp_all)
    show "request_ok E (cy_request s) ?c ((cy_pcs s)[i := TakeRelease wk w])"
    proof (rule request_take [OF I(12) i t, where l = "[]"])
      show "carries ?c (cy_pcs s ! j) = carries (cy_cell s) (cy_pcs s ! j)" if "j < length (cy_pcs s)" "j \<noteq> i" for j
        by (rule carries_data) (use ne [OF that] in simp)
    qed (use tag p in simp_all)
  qed (use I(3) [OF i] I(4,7,8,11) p x tag in simp_all)
qed

text \<open>The waker goes from the cell to the thread, or the registering thread is told to wake it.\<close>

lemma taken_waker:
  assumes inv: "cell_inv E x s" and i: "i < length (cy_pcs s)" and p: "cy_pcs s ! i = TakeLoop wk (wc_vtable (cy_cell s))"
    and tag: "cell_tag (cy_cell s) = 1"
  shows "cell_inv E (Some i) (s\<lparr>cy_cell := (cy_cell s)\<lparr>wc_vtable := ptr_set (wc_vtable (cy_cell s)) 2\<rparr>,
      cy_pcs := (cy_pcs s)[i := TakeData wk (ptr_unset (wc_vtable (cy_cell s)) 3)]\<rparr>)"
proof -
  let ?c = "(cy_cell s)\<lparr>wc_vtable := ptr_set (wc_vtable (cy_cell s)) 2\<rparr>" and ?p = "TakeData wk (ptr_unset (wc_vtable (cy_cell s)) 3)"
  note I = cell_invD [OF inv]
  have t: "is_take (cy_pcs s ! i)" and x: "x = None" using p I(4) tag by auto
  have ne: "\<not> exclusive (cy_pcs s ! j)" if "j < length (cy_pcs s)" for j using I(3) [OF that] x by simp
  show ?thesis
  proof (rule cell_inv_step [OF inv i])
    show "pc_ok E ?c (cy_pcs s ! j)" if "j < length (cy_pcs s)" "j \<noteq> i" for j
      by (rule pc_ok_busy [OF I(6) [OF that(1)] ne [OF that(1)]]) (use tag in simp_all)
    show "cache_ok E ?c ((cy_pcs s)[i := ?p] ! 0)" by (rule cache_take [OF I(10) _ _ _ take_role [OF i t]]) simp_all
    show "request_ok E (cy_request s) ?c ((cy_pcs s)[i := ?p])"
    proof (rule request_take [OF I(12) i t, where l = "[]"])
      show "carries ?c (cy_pcs s ! j) = carries (cy_cell s) (cy_pcs s ! j)" for j by (rule carries_data) simp
    qed (use tag p in \<open>simp_all add: stored_def\<close>)
  qed (use I(11) p x tag in \<open>auto simp: stored_def\<close>)
qed

lemma signalled_lock:
  assumes inv: "cell_inv E x s" and i: "i < length (cy_pcs s)" and p: "cy_pcs s ! i = TakeLoop wk (wc_vtable (cy_cell s))"
    and tag: "cell_tag (cy_cell s) = 3"
  shows "cell_inv E x (s\<lparr>cy_cell := (cy_cell s)\<lparr>wc_vtable := ptr_set (wc_vtable (cy_cell s)) 2\<rparr>, cy_pcs := (cy_pcs s)[i := CellIdle]\<rparr>)"
proof -
  let ?c = "(cy_cell s)\<lparr>wc_vtable := ptr_set (wc_vtable (cy_cell s)) 2\<rparr>"
  note I = cell_invD [OF inv]
  have t: "is_take (cy_pcs s ! i)" and x: "x \<noteq> None" "x \<noteq> Some i" using p I(4) I(3) [OF i] tag by auto
  show ?thesis
  proof (rule cell_inv_step [OF inv i])
    show "pc_ok E ?c (cy_pcs s ! j)" if "j < length (cy_pcs s)" for j by (rule pc_ok_signalled [OF I(6) [OF that] tag])
    show "cache_ok E ?c ((cy_pcs s)[i := CellIdle] ! 0)" by (rule cache_take [OF I(10) _ _ _ take_role [OF i t]]) simp_all
    show "request_ok E (cy_request s) ?c ((cy_pcs s)[i := CellIdle])"
    proof (rule request_take [OF I(12) i t, where l = "[]"])
      show "carries ?c (cy_pcs s ! j) = carries (cy_cell s) (cy_pcs s ! j)" for j by (rule carries_data) simp
    qed (use tag p in simp_all)
  qed (use I(11) p x tag in auto)
qed

lemma freed_cell:
  assumes inv: "cell_inv E x s" and i: "i < length (cy_pcs s)" and p: "cy_pcs s ! i = TakeRelease wk w" and noop: "ptr_tag (we_noop E) = 0"
  shows "cell_inv E None (s\<lparr>cy_cell := (cy_cell s)\<lparr>wc_vtable := we_noop E\<rparr>, cy_pcs := (cy_pcs s)[i := TakeWake w]\<rparr>)"
proof -
  let ?c = "(cy_cell s)\<lparr>wc_vtable := we_noop E\<rparr>"
  note I = cell_invD [OF inv]
  have t: "is_take (cy_pcs s ! i)" and x: "x = Some i" and tag: "cell_tag (cy_cell s) = 2"
    using I(3) [OF i] I(6) [OF i] p by simp_all
  have ne: "\<not> exclusive (cy_pcs s ! j)" if "j < length (cy_pcs s)" "j \<noteq> i" for j using I(3) [OF that(1)] that(2) x by simp
  show ?thesis
  proof (rule cell_inv_step [OF inv i])
    show "pc_ok E ?c (cy_pcs s ! j)" if "j < length (cy_pcs s)" "j \<noteq> i" for j
      by (rule pc_ok_busy [OF I(6) [OF that(1)] ne [OF that]]) (use tag in simp_all)
    show "cache_ok E ?c ((cy_pcs s)[i := TakeWake w] ! 0)"
      by (rule cache_take [OF I(10) _ _ _ take_role [OF i t]]) (use noop in simp_all)
    show "request_ok E (cy_request s) ?c ((cy_pcs s)[i := TakeWake w])"
    proof (rule request_take [OF I(12) i t, where l = "[]"])
      show "carries ?c (cy_pcs s ! j) = carries (cy_cell s) (cy_pcs s ! j)" for j by (rule carries_data) simp
    qed (use tag p in simp_all)
  qed (use I(11) p x tag noop in auto)
qed

lemma take_step_inv:
  assumes env: "waker_env_ok E" and inv: "cell_inv E x s" and i: "i < length (cy_pcs s)" and t: "is_take (cy_pcs s ! i)"
    and st: "take_step E (cy_pcs s ! i) (cy_cell s) = (c', pc')"
  shows "\<exists>x'. cell_inv E x' (s\<lparr>cy_cell := c', cy_pcs := (cy_pcs s)[i := pc']\<rparr>)"
proof -
  note I = cell_invD [OF inv] and reads = take_reads [OF inv i t]
  have noop: "ptr_tag (we_noop E) = 0" using env by (simp add: waker_env_ok_def)
  show ?thesis
  proof (cases "cy_pcs s ! i")
    case (TakeLoad wk)
    then show ?thesis using st reads [of "TakeLoop wk (wc_vtable (cy_cell s))"] by auto
  next
    case (TakeLoop wk v)
    consider (signal) "ptr_tag v = 3" "wc_vtable (cy_cell s) = v" | (took) "ptr_tag v = 1" "wc_vtable (cy_cell s) = v"
      | (again) "c' = cy_cell s" "pc' = TakeLoop wk (wc_vtable (cy_cell s))" | (none) "c' = cy_cell s" "pc' = CellIdle"
      using st TakeLoop by (auto simp: cas_def Let_def split: if_splits)
    then show ?thesis
    proof cases
      case signal
      then show ?thesis using signalled_lock [OF inv i] st TakeLoop by (auto simp: cas_def)
    next
      case took
      then show ?thesis using taken_waker [OF inv i] st TakeLoop by (auto simp: cas_def)
    next
      case again
      then show ?thesis using reads [of pc'] TakeLoop by auto
    next
      case none
      then show ?thesis using reads [of pc'] TakeLoop by auto
    qed
  next
    case (TakeData wk clean)
    then show ?thesis using st reads [of "TakeClear wk (clean, wc_data (cy_cell s))"] I(6) [OF i] by auto
  next
    case (TakeClear wk w)
    then show ?thesis using st cleared_data [OF inv i] by auto
  next
    case (TakeRelease wk w)
    show ?thesis
    proof (cases wk)
      case True
      then show ?thesis using st TakeRelease freed_cell [OF inv i TakeRelease noop] by auto
    next
      case False
      then have "c' = signal w (disown w ((cy_cell s)\<lparr>wc_vtable := we_noop E\<rparr>))" "pc' = CellIdle" using st TakeRelease by simp_all
      then show ?thesis
        using released [OF inv i t, of w "we_noop E" "(cy_cell s)\<lparr>wc_vtable := we_noop E\<rparr>"] TakeRelease I(6) [OF i] noop by simp
    qed
  next
    case (TakeWake w)
    then show ?thesis using st released [OF inv i t, of w "wc_vtable (cy_cell s)" "cy_cell s"] noop by auto
  qed (use t in simp_all)
qed

subsection \<open>Registering\<close>

lemma pc_ok_take:
  "\<lbrakk>pc_ok E c pc; is_take pc \<or> pc = CellIdle; wc_vtable c' = wc_vtable c \<or> \<not> exclusive pc\<rbrakk> \<Longrightarrow> pc_ok E c' pc"
  by (cases pc) auto

lemma reg_inv_step:
  assumes inv: "cell_inv E x s"
    and x': "exclusive pc' \<longleftrightarrow> x' = Some 0" "x' = x \<or> (x = None \<or> x = Some 0) \<and> (x' = None \<or> x' = Some 0)"
    and tag: "x' \<noteq> None \<longleftrightarrow> cell_tag c' = 2 \<or> cell_tag c' = 3" and own: "pc_ok E c' pc'"
    and cell: "cell_tag c' = 0 \<Longrightarrow> wc_vtable c' = we_noop E" "cell_tag c' = 1 \<Longrightarrow> ptr_unset (wc_vtable c') 3 \<noteq> we_noop E" "\<not> wc_ub c'"
    and same: "wc_vtable c' = wc_vtable (cy_cell s) \<and> wc_data c' = wc_data (cy_cell s) \<or> x = None \<or> x = Some 0"
    and owned: "mset (wc_owned c') + ((if cell_tag (cy_cell s) = 1 then {#stored (cy_cell s)#} else {#}) + held (cy_cell s) (cy_pcs s ! 0))
       = mset (wc_owned (cy_cell s)) + ((if cell_tag c' = 1 then {#stored c'#} else {#}) + held c' pc')"
    and cache: "cache_ok E c' pc'" and req: "request_ok E (cy_request s) c' ((cy_pcs s)[0 := pc'])"
  shows "cell_inv E x' (s\<lparr>cy_cell := c', cy_pcs := (cy_pcs s)[0 := pc']\<rparr>)"
proof -
  note I = cell_invD [OF inv]
  have i: "0 < length (cy_pcs s)" using I(1) by simp
  show ?thesis
  proof (rule cell_inv_step [OF inv i])
    show "x' = Some j \<longleftrightarrow> x = Some j" if "j \<noteq> 0" for j using x'(2) that by auto
    show "pc_ok E c' (cy_pcs s ! j)" if j: "j < length (cy_pcs s)" "j \<noteq> 0" for j
      by (rule pc_ok_take [OF I(6) [OF j(1)] I(2) [OF j]]) (use same I(3) [OF j(1)] j(2) in auto)
    show "wc_data c' = wc_data (cy_cell s) \<or> x = Some 0 \<or> x = None" using same by auto
    show "cache_ok E c' ((cy_pcs s)[0 := pc'] ! 0)" using cache i by simp
  qed (use x' tag own cell owned req in simp_all)
qed

lemma request_under_way:
  assumes "request_ok E req c pcs" "\<And>w. request_of E (pcs ! 0) w \<noteq> None"
  obtains w k where "req = Some (w, k)" "k \<le> length (wc_log c)" "request_of E (pcs ! 0) w = Some True"
proof (cases req)
  case None
  then show ?thesis using assms by (simp add: request_ok_def)
next
  case (Some wk)
  obtain b where "request_of E (pcs ! 0) (fst wk) = Some b" using assms(2) [of "fst wk"] by auto
  then show ?thesis using that [of "fst wk" "snd wk"] assms(1) Some by (cases wk) (simp add: request_ok_def)
qed

lemma tag_locked:
  assumes "cell_inv E x s" "cell_tag (cy_cell s) = 3"
  shows "x = Some 0" "lock_of (cy_pcs s ! 0) = Some (wc_vtable (cy_cell s))"
proof -
  note I = cell_invD [OF assms(1)]
  obtain j where j: "x = Some j" "j < length (cy_pcs s)" using I(4,5) assms(2) by auto
  have e: "exclusive (cy_pcs s ! j)" "pc_ok E (cy_cell s) (cy_pcs s ! j)" using I(3,6) j by simp_all
  have "\<not> is_take (cy_pcs s ! j)" using e assms(2) by (cases "cy_pcs s ! j") auto
  then show x: "x = Some 0" using I(2) [OF j(2)] j(1) e by (cases "j = 0") auto
  show "lock_of (cy_pcs s ! 0) = Some (wc_vtable (cy_cell s))"
    using e x j(1) assms(2) by (cases "cy_pcs s ! j") (auto simp: lock_ok_def split: option.splits)
qed

text \<open>A step that leaves the tagged pointer and the data alone, except for the log.\<close>

lemma reg_reads:
  assumes inv: "cell_inv E x s" and p: "\<not> exclusive (cy_pcs s ! 0)" "held (cy_cell s) (cy_pcs s ! 0) = {#}"
    and pc': "\<not> exclusive pc'" "held c' pc' = {#}" "pc_ok E c' pc'" "cache_ok E c' pc'"
    and c': "wc_vtable c' = wc_vtable (cy_cell s)" "wc_data c' = wc_data (cy_cell s)" "wc_owned c' = wc_owned (cy_cell s)" "wc_ub c' = wc_ub (cy_cell s)"
    and req: "request_ok E (cy_request s) c' ((cy_pcs s)[0 := pc'])"
  shows "cell_inv E x (s\<lparr>cy_cell := c', cy_pcs := (cy_pcs s)[0 := pc']\<rparr>)"
proof -
  note I = cell_invD [OF inv]
  have "0 < length (cy_pcs s)" using I(1) by simp
  then show ?thesis
    by (intro reg_inv_step [OF inv]) (use I(3) [of 0] I(4,7,8,11) p pc' c' req in \<open>simp_all add: stored_def\<close>)
qed

lemma request_goes_on:
  assumes "request_ok E req c pcs" "pcs \<noteq> []" "\<And>w. request_of E (pcs ! 0) w \<noteq> None" "wc_log c' = wc_log c @ l"
    "\<And>w k. request_of E (pcs ! 0) w = Some True \<Longrightarrow> k \<le> length (wc_log c) \<Longrightarrow> request_of E pc' w = Some True \<or> request_of E pc' w = None \<and> settled E w k c' (pcs[0 := pc'])"
  shows "request_ok E req c' (pcs[0 := pc'])"
proof -
  obtain w k where r: "req = Some (w, k)" "k \<le> length (wc_log c)" "request_of E (pcs ! 0) w = Some True"
    by (rule request_under_way [OF assms(1,3)])
  then show ?thesis using assms(5) [OF r(3,2)] assms(2,4) by (auto simp: request_ok_def)
qed

lemma stored_settled: "cell_tag c = 1 \<Longrightarrow> stored c = we_clone E w \<Longrightarrow> settled E w k c pcs"
  by (simp add: settled_def)

lemma logged_settled: "\<lbrakk>wc_log c' = wc_log c @ [y]; k \<le> length (wc_log c); y = w \<or> y = we_clone E w\<rbrakk> \<Longrightarrow> settled E w k c' pcs"
  by (auto simp: settled_def answered_def)

lemma not_locked_tag: "\<lbrakk>cell_inv E x s; lock_of (cy_pcs s ! 0) = None\<rbrakk> \<Longrightarrow> cell_tag (cy_cell s) \<noteq> 3"
  using tag_locked(2) by fastforce

text \<open>Looking for a way in.\<close>

lemma reg_search_inv:
  assumes env: "waker_env_ok E" and inv: "cell_inv E x s"
    and p: "cy_pcs s ! 0 \<in> {RegCachedVtable w, RegCachedData w cv, RegFast w, RegLoad w}"
    and st: "register_step loop E (cy_pcs s ! 0) (cy_cell s) = (c', pc')"
  shows "\<exists>x'. cell_inv E x' (s\<lparr>cy_cell := c', cy_pcs := (cy_pcs s)[0 := pc']\<rparr>)"
proof -
  let ?c = "cy_cell s"
  note I = cell_invD [OF inv]
  have l: "0 < length (cy_pcs s)" using I(1) by simp
  have c: "c' = ?c" using st p by auto
  have nl: "cell_tag ?c \<noteq> 3" by (rule not_locked_tag [OF inv]) (use p in auto)
  have pc': "\<not> exclusive pc'" "held ?c pc' = {#}" "pc_ok E ?c pc'" "cache_ok E ?c pc'"
    using st p I(6) [OF l] I(10) nl by (auto simp: prod_eq_iff split: if_splits)
  have r: "request_of E pc' v = Some True \<or> request_of E pc' v = None \<and> settled E v k ?c ((cy_pcs s)[0 := pc'])"
    if v: "request_of E (cy_pcs s ! 0) v = Some True" for v k
  proof (cases "pc' = CellIdle")
    case True
    then have "wc_vtable ?c = ptr_set (fst w) 1" "cy_pcs s ! 0 = RegFast w" using st p by (auto split: if_splits)
    then have "cell_tag ?c = 1 \<and> stored ?c = we_clone E v" using I(6) [OF l] I(10) v by simp
    then show ?thesis using True stored_settled by simp
  next
    case False
    then show ?thesis using st p v by (auto split: if_splits)
  qed
  have "request_ok E (cy_request s) ?c ((cy_pcs s)[0 := pc'])"
    by (rule request_goes_on [OF I(12,1), where l = "[]"]) (use p r in auto)
  then have "cell_inv E x (s\<lparr>cy_cell := ?c, cy_pcs := (cy_pcs s)[0 := pc']\<rparr>)"
    by (intro reg_reads [OF inv]) (use p pc' in auto)
  then show ?thesis using c by blast
qed

text \<open>Locking the cell, empty or not.\<close>

lemma reg_lock_inv:
  assumes inv: "cell_inv E x s" and p: "cy_pcs s ! 0 = RegLoop w v" and v: "wc_vtable (cy_cell s) = v" "ptr_tag v = 0 \<or> ptr_tag v = 1"
  shows "\<exists>x'. cell_inv E x' (s\<lparr>cy_cell := (cy_cell s)\<lparr>wc_vtable := ptr_set v 3\<rparr>,
      cy_pcs := (cy_pcs s)[0 := if ptr_tag v = 0 then RegStoreData w (Some (ptr_set v 3)) else RegDropOld w (ptr_set v 3) (ptr_unset v 3)]\<rparr>)"
proof -
  let ?c = "(cy_cell s)\<lparr>wc_vtable := ptr_set v 3\<rparr>"
    and ?p = "if ptr_tag v = 0 then RegStoreData w (Some (ptr_set v 3)) else RegDropOld w (ptr_set v 3) (ptr_unset v 3)"
  note I = cell_invD [OF inv]
  have l: "0 < length (cy_pcs s)" and x: "x = None" using I(1,4) v by auto
  have ok: "pc_ok E ?c ?p" "cache_ok E ?c ?p" using I(6) [OF l] I(8) p v by (auto simp: lock_ok_def)
  have req: "request_ok E (cy_request s) ?c ((cy_pcs s)[0 := ?p])"
    by (rule request_goes_on [OF I(12,1), where l = "[]"]) (use p in auto)
  have "cell_inv E (Some 0) (s\<lparr>cy_cell := ?c, cy_pcs := (cy_pcs s)[0 := ?p]\<rparr>)"
    by (rule reg_inv_step [OF inv]) (use I(11) x v p ok req in \<open>auto simp: stored_def\<close>)
  then show ?thesis by blast
qed

lemma register_loop_cases:
  assumes "ptr_tag v \<noteq> 3"
  shows "register_loop kind E w v c = (signal w c, CellIdle)
     \<or> register_loop kind E w v c = (c, RegStoreData w None) \<and> ptr_tag v = 0
     \<or> register_loop kind E w v c = (c\<lparr>wc_vtable := ptr_set v 3\<rparr>,
          if ptr_tag v = 0 then RegStoreData w (Some (ptr_set v 3)) else RegDropOld w (ptr_set v 3) (ptr_unset v 3))
         \<and> wc_vtable c = v \<and> (ptr_tag v = 0 \<or> ptr_tag v = 1)
     \<or> register_loop kind E w v c = (c, RegLoop w (wc_vtable c)) \<or> register_loop kind E w v c = (c, RegLoad w)"
  using assms
  by (cases kind; cases "wc_vtable c = v"; cases "v = we_noop E"; cases "ptr_tag v = 0"; cases "ptr_tag v = 1"; cases "ptr_tag v = 2")
    (simp_all add: atomic_register_loop_def mwsr_register_loop_def cas_def Let_def)

lemma reg_loop_inv:
  assumes env: "waker_env_ok E" and inv: "cell_inv E x s" and p: "cy_pcs s ! 0 = RegLoop w v"
    and st: "register_loop kind E w v (cy_cell s) = (c', pc')"
  shows "\<exists>x'. cell_inv E x' (s\<lparr>cy_cell := c', cy_pcs := (cy_pcs s)[0 := pc']\<rparr>)"
proof -
  let ?c = "cy_cell s"
  note I = cell_invD [OF inv]
  have l: "0 < length (cy_pcs s)" using I(1) by simp
  have nl: "cell_tag ?c \<noteq> 3" by (rule not_locked_tag [OF inv]) (use p in simp)
  have pv: "good_waker E w" "ptr_tag v \<noteq> 3" "ptr_tag v = 0 \<Longrightarrow> cell_tag ?c = 0" using I(6) [OF l] p by simp_all
  have go: "\<exists>x'. cell_inv E x' (s\<lparr>cy_cell := ?c, cy_pcs := (cy_pcs s)[0 := q]\<rparr>)"
    if "\<not> exclusive q" "held ?c q = {#}" "pc_ok E ?c q" "cache_ok E ?c q" "\<And>v. request_of E q v = request_of E (cy_pcs s ! 0) v" for q
  proof -
    have "request_ok E (cy_request s) ?c ((cy_pcs s)[0 := q])"
      by (rule request_goes_on [OF I(12,1), where l = "[]"]) (use that(5) p in auto)
    then have "cell_inv E x (s\<lparr>cy_cell := ?c, cy_pcs := (cy_pcs s)[0 := q]\<rparr>)"
      by (intro reg_reads [OF inv]) (use p that in auto)
    then show ?thesis by blast
  qed
  consider (wake) "c' = signal w ?c" "pc' = CellIdle"
    | (direct) "c' = ?c" "pc' = RegStoreData w None" "ptr_tag v = 0"
    | (lock) "wc_vtable ?c = v" "ptr_tag v = 0 \<or> ptr_tag v = 1" "c' = ?c\<lparr>wc_vtable := ptr_set v 3\<rparr>"
        "pc' = (if ptr_tag v = 0 then RegStoreData w (Some (ptr_set v 3)) else RegDropOld w (ptr_set v 3) (ptr_unset v 3))"
    | (again) "c' = ?c" "pc' = RegLoop w (wc_vtable ?c) \<or> pc' = RegLoad w"
    using register_loop_cases [OF pv(2), of kind E w ?c] unfolding st prod.inject by argo
  then show ?thesis
  proof cases
    case wake
    have c: "wc_vtable c' = wc_vtable ?c" "wc_data c' = wc_data ?c" "wc_owned c' = wc_owned ?c" "wc_ub c' = wc_ub ?c"
      "wc_cached_vtable c' = wc_cached_vtable ?c" "wc_cached_data c' = wc_cached_data ?c" "wc_log c' = wc_log ?c @ [w]"
      unfolding wake(1) signal_def by simp_all
    have "request_ok E (cy_request s) c' ((cy_pcs s)[0 := pc'])"
      by (rule request_goes_on [OF I(12,1) _ c(7)]) (use p wake(2) logged_settled [OF c(7)] in auto)
    then have "cell_inv E x (s\<lparr>cy_cell := c', cy_pcs := (cy_pcs s)[0 := pc']\<rparr>)"
      by (intro reg_reads [OF inv]) (use p wake(2) c I(10) in \<open>simp_all add: stored_def\<close>)
    then show ?thesis by blast
  next
    case direct
    then show ?thesis using go [of pc'] pv p I(10) by (auto simp: lock_ok_def)
  next
    case lock
    then show ?thesis using reg_lock_inv [OF inv p lock(1,2)] by simp
  next
    case again
    then show ?thesis using go [of pc'] pv p I(10) nl by auto
  qed
qed

text \<open>Storing the waker and publishing it.\<close>

lemma reg_keeps_pointer:
  assumes inv: "cell_inv E x s" and x: "x = None \<or> x = Some 0" and tag: "cell_tag (cy_cell s) \<noteq> 1"
    and c: "wc_vtable c' = wc_vtable (cy_cell s)" "wc_log c' = wc_log (cy_cell s)" "wc_ub c' = wc_ub (cy_cell s)"
      "mset (wc_owned c') + held (cy_cell s) (cy_pcs s ! 0) = mset (wc_owned (cy_cell s)) + held c' pc'"
      "exclusive pc' = exclusive (cy_pcs s ! 0)" "pc_ok E c' pc'" "cache_ok E c' pc'"
    and r: "\<And>v. request_of E pc' v = request_of E (cy_pcs s ! 0) v" "\<And>v. request_of E (cy_pcs s ! 0) v \<noteq> None"
  shows "cell_inv E x (s\<lparr>cy_cell := c', cy_pcs := (cy_pcs s)[0 := pc']\<rparr>)"
proof -
  note I = cell_invD [OF inv]
  have l: "0 < length (cy_pcs s)" using I(1) by simp
  have "request_ok E (cy_request s) c' ((cy_pcs s)[0 := pc'])"
    by (rule request_goes_on [OF I(12,1), where l = "[]"]) (use c(2) r in auto)
  then show ?thesis
    by (intro reg_inv_step [OF inv]) (use I(3) [OF l] I(4,7,11) c tag x in simp_all)
qed

lemma reg_store_inv:
  assumes inv: "cell_inv E x s" and p: "cy_pcs s ! 0 \<in> {RegDropOld w r clean, RegStoreData w lock}"
    and st: "register_step loop E (cy_pcs s ! 0) (cy_cell s) = (c', pc')"
  shows "\<exists>x'. cell_inv E x' (s\<lparr>cy_cell := c', cy_pcs := (cy_pcs s)[0 := pc']\<rparr>)"
proof -
  note I = cell_invD [OF inv]
  have l: "0 < length (cy_pcs s)" using I(1) by simp
  note ok = I(6) [OF l]
  consider (drop) "cy_pcs s ! 0 = RegDropOld w r clean" | (store) "cy_pcs s ! 0 = RegStoreData w lock" using p by auto
  then have "cell_inv E x (s\<lparr>cy_cell := c', cy_pcs := (cy_pcs s)[0 := pc']\<rparr>)"
  proof cases
    case drop
    have "(clean, wc_data (cy_cell s)) \<in> set (wc_owned (cy_cell s))" using held_owned [OF inv l] drop by simp
    then show ?thesis
      by (intro reg_keeps_pointer [OF inv]) (use st ok drop I(3) [OF l] in \<open>auto simp: disown_def lock_ok_def\<close>)
  next
    case store
    then have x: "x = None \<or> x = Some 0" using I(3) [OF l] I(4) ok by (cases lock) (auto simp: lock_ok_def)
    show ?thesis
      by (rule reg_keeps_pointer [OF inv x]) (use st ok store in \<open>auto simp: own_def lock_ok_def Let_def split: option.splits\<close>)
  qed
  then show ?thesis by blast
qed

lemma reg_publish_inv:
  assumes env: "waker_env_ok E" and inv: "cell_inv E x s" and p: "cy_pcs s ! 0 = RegPublish w owned lock"
    and st: "register_step loop E (cy_pcs s ! 0) (cy_cell s) = (c', pc')"
  shows "\<exists>x'. cell_inv E x' (s\<lparr>cy_cell := c', cy_pcs := (cy_pcs s)[0 := pc']\<rparr>)"
proof -
  let ?c = "cy_cell s" and ?v = "ptr_set (fst owned) 1"
  note I = cell_invD [OF inv]
  have l: "0 < length (cy_pcs s)" using I(1) by simp
  have ok: "good_waker E w" "owned = we_clone E w" "wc_data ?c = snd owned" "lock_ok ?c lock" using I(6) [OF l] p by simp_all
  have good: "good_waker E owned" using env ok(1,2) unfolding waker_env_ok_def by blast
  then have v: "ptr_unset ?v 3 = fst owned" "fst owned \<noteq> we_noop E" by (simp_all add: good_waker_def)
  have x: "x = None \<or> x = Some 0" "cell_tag ?c \<noteq> 1"
    using I(3) [OF l] I(4) ok(4) p by (cases lock; auto simp: lock_ok_def)+
  consider (published) "c' = ?c\<lparr>wc_vtable := ?v\<rparr>" "pc' = RegCacheVtable w" | (abort) r where "lock = Some r" "wc_vtable ?c \<noteq> r" "c' = ?c" "pc' = RegAbort owned"
    using st p by (auto simp: cas_def Let_def split: option.splits if_splits)
  then show ?thesis
  proof cases
    case published
    have s: "cell_tag c' = 1" "stored c' = owned" using published(1) v ok(3) by (simp_all add: stored_def)
    have "request_ok E (cy_request s) c' ((cy_pcs s)[0 := pc'])"
      by (rule request_goes_on [OF I(12,1), where l = "[]"]) (use published p ok(2) stored_settled [OF s(1)] s(2) in auto)
    then have "cell_inv E None (s\<lparr>cy_cell := c', cy_pcs := (cy_pcs s)[0 := pc']\<rparr>)"
      by (intro reg_inv_step [OF inv]) (use published x s v p ok(2) I(11) in auto)
    then show ?thesis by blast
  next
    case abort
    have "cell_tag ?c = 2" using ok(4) abort by (auto simp: lock_ok_def)
    moreover have "request_ok E (cy_request s) c' ((cy_pcs s)[0 := pc'])"
      by (rule request_goes_on [OF I(12,1), where l = "[]"]) (use abort p ok(2) in auto)
    ultimately have "cell_inv E x (s\<lparr>cy_cell := c', cy_pcs := (cy_pcs s)[0 := pc']\<rparr>)"
      by (intro reg_inv_step [OF inv]) (use abort x p I(3) [OF l] I(4,11) in auto)
    then show ?thesis by blast
  qed
qed

text \<open>Keeping the cache, or giving up.\<close>

lemma reg_cache_inv:
  assumes inv: "cell_inv E x s" and p: "cy_pcs s ! 0 \<in> {RegCacheVtable w, RegCacheData w}"
    and st: "register_step loop E (cy_pcs s ! 0) (cy_cell s) = (c', pc')"
  shows "\<exists>x'. cell_inv E x' (s\<lparr>cy_cell := c', cy_pcs := (cy_pcs s)[0 := pc']\<rparr>)"
proof -
  let ?c = "cy_cell s"
  note I = cell_invD [OF inv]
  have l: "0 < length (cy_pcs s)" using I(1) by simp
  have c: "wc_vtable c' = wc_vtable ?c" "wc_data c' = wc_data ?c" "wc_owned c' = wc_owned ?c" "wc_ub c' = wc_ub ?c" "wc_log c' = wc_log ?c @ []"
    using st p by auto
  have r: "request_of E (cy_pcs s ! 0) v = None" "request_of E pc' v = None" for v using st p by auto
  have "settled E v k c' ((cy_pcs s)[0 := pc'])" if "settled E v k ?c (cy_pcs s)" "k \<le> length (wc_log ?c)" for v k
    by (rule settled_step [OF that c(5) l]) (use c p in \<open>auto simp: stored_def intro!: carries_data\<close>)
  then have "request_ok E (cy_request s) c' ((cy_pcs s)[0 := pc'])"
    using I(12) l c(5) by (auto simp: request_ok_def r split: option.splits prod.splits)
  then have "cell_inv E x (s\<lparr>cy_cell := c', cy_pcs := (cy_pcs s)[0 := pc']\<rparr>)"
    by (intro reg_reads [OF inv]) (use st p c I(6) [OF l] I(10) in \<open>auto simp: stored_def prod_eq_iff\<close>)
  then show ?thesis by blast
qed

lemma reg_abort_inv:
  assumes env: "waker_env_ok E" and inv: "cell_inv E x s"
    and p: "cy_pcs s ! 0 \<in> {RegAbort owned, RegClearData owned, RegClearVtable owned, RegClearCache owned, RegWake owned}"
    and st: "register_step loop E (cy_pcs s ! 0) (cy_cell s) = (c', pc')"
  shows "\<exists>x'. cell_inv E x' (s\<lparr>cy_cell := c', cy_pcs := (cy_pcs s)[0 := pc']\<rparr>)"
proof -
  let ?c = "cy_cell s" and ?p = "cy_pcs s ! 0"
  note I = cell_invD [OF inv]
  have l: "0 < length (cy_pcs s)" using I(1) by simp
  have noop: "ptr_tag (we_noop E) = 0" using env by (simp add: waker_env_ok_def)
  have h: "owned \<in> set (wc_owned ?c)" using held_owned [OF inv l, of owned] p by auto
  have x: "x = None \<or> x = Some 0" "cell_tag ?c \<noteq> 1" using I(3) [OF l] I(4) I(6) [OF l] p by auto
  have v: "wc_vtable c' = we_noop E" "wc_ub c' = wc_ub ?c" using st p h I(6) [OF l] I(7) by (auto simp: signal_def disown_def)
  have o: "mset (wc_owned c') + held ?c ?p = mset (wc_owned ?c) + held c' pc'" "\<not> exclusive pc'" "pc_ok E c' pc'" "cache_ok E c' pc'"
    using st p h v noop by (auto simp: signal_def disown_def)
  have "request_ok E (cy_request s) c' ((cy_pcs s)[0 := pc'])"
  proof (cases "?p = RegWake owned")
    case True
    then have c: "pc' = CellIdle" "wc_log c' = wc_log ?c @ [owned]" using st by (auto simp: signal_def disown_def)
    show ?thesis by (rule request_goes_on [OF I(12,1) _ c(2)]) (use True c logged_settled [OF c(2)] in auto)
  next
    case False
    then show ?thesis by (intro request_goes_on [OF I(12,1), where l = "[]"]) (use st p in auto)
  qed
  then have "cell_inv E None (s\<lparr>cy_cell := c', cy_pcs := (cy_pcs s)[0 := pc']\<rparr>)"
    by (intro reg_inv_step [OF inv]) (use x v o noop I(11) in auto)
  then show ?thesis by blast
qed

subsection \<open>Schedules with one registering thread\<close>

lemma step_inv:
  assumes env: "waker_env_ok E" and inv: "cell_inv E x s" and i: "i < length (cy_pcs s)"
    and st: "cell_step k E (cy_pcs s ! i) (cy_cell s) = (c', pc')"
  shows "\<exists>x'. cell_inv E x' (s\<lparr>cy_cell := c', cy_pcs := (cy_pcs s)[i := pc']\<rparr>)"
proof -
  note I = cell_invD [OF inv]
  consider (take) "is_take (cy_pcs s ! i)" | (idle) "cy_pcs s ! i = CellIdle" | (reg) "i = 0" "\<not> is_take (cy_pcs s ! 0)" "cy_pcs s ! 0 \<noteq> CellIdle"
    using I(2) [OF i] by (cases "i = 0") auto
  then show ?thesis
  proof cases
    case take
    then show ?thesis using take_step_inv [OF env inv i] st by (simp add: cell_step_def)
  next
    case idle
    then have "s\<lparr>cy_cell := c', cy_pcs := (cy_pcs s)[i := pc']\<rparr> = s"
      using st list_update_id [of "cy_pcs s" i] by (auto simp: cell_step_def)
    then show ?thesis using inv by auto
  next
    case reg
    then have st: "register_step (register_loop k E) E (cy_pcs s ! 0) (cy_cell s) = (c', pc')" using st by (simp add: cell_step_def)
    show ?thesis unfolding reg(1)
    proof (cases "cy_pcs s ! 0")
      case (RegLoop w v)
      then show "\<exists>x'. cell_inv E x' (s\<lparr>cy_cell := c', cy_pcs := (cy_pcs s)[0 := pc']\<rparr>)"
        using reg_loop_inv [OF env inv RegLoop] st by simp
    qed (use reg st reg_search_inv [OF env inv] reg_store_inv [OF inv] reg_publish_inv [OF env inv] reg_cache_inv [OF inv] reg_abort_inv [OF env inv] in auto)
  qed
qed

text \<open>The events of a schedule that keeps the contract: thread 0 alone registers, with wakers whose table
  is aligned and not the cell's own.\<close>

fun legal_event :: "waker_env \<Rightarrow> cell_event \<Rightarrow> cell_system \<Rightarrow> bool" where
  "legal_event E (Begin i call) s \<longleftrightarrow> i < length (cy_pcs s) \<and> cy_pcs s ! i = CellIdle
     \<and> (case call of Register w \<Rightarrow> i = 0 \<and> good_waker E w | _ \<Rightarrow> True)"
| "legal_event E (Step i) s \<longleftrightarrow> i < length (cy_pcs s)"

fun legal_schedule :: "cell_kind \<Rightarrow> waker_env \<Rightarrow> cell_event list \<Rightarrow> cell_system \<Rightarrow> bool" where
  "legal_schedule k E [] s \<longleftrightarrow> True"
| "legal_schedule k E (e # es) s \<longleftrightarrow> legal_event E e s \<and> legal_schedule k E es (run_event k E e s)"

lemma begin_inv:
  assumes inv: "cell_inv E x s" and leg: "legal_event E (Begin i call) s"
  shows "cell_inv E x (run_event k E (Begin i call) s)"
proof -
  let ?c = "cy_cell s" and ?pcs = "cy_pcs s"
  note I = cell_invD [OF inv]
  have i: "i < length ?pcs" "?pcs ! i = CellIdle" using leg by simp_all
  let ?p = "call_pc call"
  have p: "\<not> exclusive ?p" "held ?c ?p = {#}" "pc_ok E ?c ?p" "i \<noteq> 0 \<Longrightarrow> is_take ?p"
    using leg by (cases call; simp)+
  have inv0: "\<not> exclusive (?pcs ! i)" "held ?c (?pcs ! i) = {#}" using i by simp_all
  have "mset (wc_owned ?c) = held_all ?c (?pcs[i := ?p])"
    by (rule held_all_update [OF i(1) refl I(9)]) (use inv0 p in simp)
  moreover have "exclusive (?pcs[i := ?p] ! j) \<longleftrightarrow> x = Some j" if "j < length ?pcs" for j
    using that i p(1) I(3) [OF i(1)] I(3) [OF that] by (cases "j = i") simp_all
  moreover have "pc_ok E ?c (?pcs[i := ?p] ! j)" if "j < length ?pcs" for j using that i p(3) I(6) by (cases "j = i") simp_all
  moreover have "is_take (?pcs[i := ?p] ! j) \<or> ?pcs[i := ?p] ! j = CellIdle" if "j < length ?pcs" "j \<noteq> 0" for j
    using that i p(4) I(2) by (cases "j = i") simp_all
  moreover have "cache_ok E ?c (?pcs[i := ?p] ! 0)" using I(10) i by (cases "i = 0"; cases call) simp_all
  moreover have "request_ok E (case call of Register w \<Rightarrow> Some (w, length (wc_log ?c)) | _ \<Rightarrow> cy_request s) ?c (?pcs[i := ?p])"
  proof (cases "\<exists>w. call = Register w")
    case True
    then show ?thesis using leg I(1) by (auto simp: request_ok_def)
  next
    case False
    have r: "request_of E (?pcs[i := ?p] ! 0) w = request_of E (?pcs ! 0) w" for w
      using False i by (cases "i = 0"; cases call) simp_all
    have "settled E w n ?c (?pcs[i := ?p])" if "settled E w n ?c ?pcs" "n \<le> length (wc_log ?c)" for w n
      by (rule settled_step [OF that, where l = "[]"]) (use i in simp_all)
    then have "request_ok E (cy_request s) ?c (?pcs[i := ?p])"
      using I(12) by (auto simp: request_ok_def r simp del: call_pc.simps split: option.splits prod.splits)
    then show ?thesis using False by (cases call) simp_all
  qed
  ultimately show ?thesis using I(1,4,5,7,8,11) by (simp add: cell_inv_def run_event_def Let_def)
qed

lemma schedule_inv:
  assumes "waker_env_ok E"
  shows "cell_inv E x s \<Longrightarrow> legal_schedule k E es s \<Longrightarrow> \<exists>x'. cell_inv E x' (run_schedule k E es s)"
proof (induction es arbitrary: s x)
  case (Cons e es)
  have "\<exists>x'. cell_inv E x' (run_event k E e s)"
  proof (cases e)
    case (Begin i call)
    then show ?thesis using begin_inv [OF Cons.prems(1)] Cons.prems(2) by auto
  next
    case (Step i)
    then show ?thesis using step_inv [OF assms Cons.prems(1), of i k] Cons.prems(2) by (auto simp: run_event_def split: prod.splits)
  qed
  then show ?case using Cons.IH Cons.prems(2) by (auto simp: run_schedule_def)
qed (auto simp: run_schedule_def)

lemma system_new_inv:
  assumes "waker_env_ok E" "0 < n"
  shows "cell_inv E None (system_new E n)"
proof -
  have "sum_list (replicate n ({#} :: raw_waker multiset)) = {#}" by (induction n) simp_all
  then show ?thesis using assms
    by (simp add: cell_inv_def system_new_def cell_new_def held_all_def request_ok_def waker_env_ok_def Let_def map_replicate_const)
qed

subsection \<open>Waking\<close>

definition all_taking :: "cell_system \<Rightarrow> bool" where
  "all_taking s \<longleftrightarrow> (\<forall>i < length (cy_pcs s). is_take (cy_pcs s ! i) \<or> cy_pcs s ! i = CellIdle)"

lemma take_step_carries:
  "take_step E pc c = (c', pc') \<Longrightarrow> \<exists>l. wc_log c' = wc_log c @ l \<and> (\<forall>v. carries c pc v \<longrightarrow> carries c' pc' v \<or> v \<in> set l)"
  by (cases pc) (auto simp: signal_def disown_def cas_def Let_def split: if_splits prod.splits)

lemma take_step_take: "take_step E pc c = (c', pc') \<Longrightarrow> is_take pc \<or> pc = CellIdle \<Longrightarrow> is_take pc' \<or> pc' = CellIdle"
  by (cases pc) (auto simp: cas_def Let_def split: if_splits prod.splits)

lemma take_step_data: "take_step E pc c = (c', pc') \<Longrightarrow> wc_data c' = wc_data c \<or> exclusive pc"
  by (cases pc) (auto simp: signal_def disown_def cas_def Let_def split: if_splits prod.splits)

text \<open>A thread that began to wake after the registration has found the waker, or someone else has.\<close>

definition wake_under_way :: "waker_env \<Rightarrow> raw_waker \<Rightarrow> nat \<Rightarrow> nat \<Rightarrow> cell_system \<Rightarrow> bool" where
  "wake_under_way E w k i s \<longleftrightarrow> answered E w k (cy_cell s) (cy_pcs s)
     \<or> (\<exists>wk. cy_pcs s ! i = TakeLoad wk \<or> (\<exists>v. cy_pcs s ! i = TakeLoop wk v \<and> ptr_tag v = 1))"

lemma waking_settled:
  assumes "cell_inv E x s" "all_taking s" "cy_request s = Some (w, k)"
  shows "settled E w k (cy_cell s) (cy_pcs s)" "k \<le> length (wc_log (cy_cell s))"
proof -
  note I = cell_invD [OF assms(1)]
  have "request_of E (cy_pcs s ! 0) w = None" using assms(2) I(1) by (auto simp: all_taking_def intro!: request_of_take)
  then show "settled E w k (cy_cell s) (cy_pcs s)" "k \<le> length (wc_log (cy_cell s))" using I(12) assms(3) by (auto simp: request_ok_def)
qed

lemma waking_step:
  assumes inv: "cell_inv E x s" and all: "all_taking s" and req: "cy_request s = Some (w, k)" and j: "j < length (cy_pcs s)" "i < length (cy_pcs s)"
    and uw: "wake_under_way E w k i s"
  shows "wake_under_way E w k i (run_event kind E (Step j) s) \<and> all_taking (run_event kind E (Step j) s) \<and> cy_request (run_event kind E (Step j) s) = Some (w, k)"
proof -
  let ?c = "cy_cell s" and ?pcs = "cy_pcs s"
  note I = cell_invD [OF inv] and sk = waking_settled [OF inv all req]
  obtain c' pc' where st: "take_step E (?pcs ! j) ?c = (c', pc')" by fastforce
  have take: "is_take (?pcs ! j) \<or> ?pcs ! j = CellIdle" using all j by (simp add: all_taking_def)
  then have run: "run_event kind E (Step j) s = s\<lparr>cy_cell := c', cy_pcs := ?pcs[j := pc']\<rparr>"
    using st by (auto simp: run_event_def cell_step_def)
  have all': "all_taking (run_event kind E (Step j) s)"
    unfolding run all_taking_def using all take_step_take [OF st take] j(1) by (auto simp: all_taking_def nth_list_update)
  obtain l where l: "wc_log c' = wc_log ?c @ l" "\<And>v. carries ?c (?pcs ! j) v \<Longrightarrow> carries c' pc' v \<or> v \<in> set l"
    using take_step_carries [OF st] by blast
  have oth: "carries c' (?pcs ! m) = carries ?c (?pcs ! m)" if "m < length ?pcs" "m \<noteq> j" for m
    by (rule carries_data) (use take_step_data [OF st] I(3) [OF j(1)] I(3) [OF that(1)] that(2) in auto)
  have "wake_under_way E w k i (s\<lparr>cy_cell := c', cy_pcs := ?pcs[j := pc']\<rparr>)"
  proof (cases "answered E w k ?c ?pcs \<or> j \<noteq> i")
    case True
    then show ?thesis using answered_step [OF _ sk(2) l(1) j(1) oth l(2), of E w] uw j by (auto simp: wake_under_way_def)
  next
    case False
    then have t: "cell_tag ?c = 1" "stored ?c = we_clone E w" "j = i" using sk(1) by (auto simp: settled_def)
    obtain wk v where "?pcs ! i = TakeLoad wk \<or> ?pcs ! i = TakeLoop wk v \<and> ptr_tag v = 1" using uw False by (auto simp: wake_under_way_def)
    then consider "pc' = TakeLoop wk (wc_vtable ?c)" | "carries c' pc' (we_clone E w)"
      using st t by (auto simp: cas_def stored_def split: if_splits)
    then show ?thesis using t j by cases (auto simp: wake_under_way_def answered_def)
  qed
  then show ?thesis using all' req unfolding run by simp
qed

definition no_register :: "cell_event list \<Rightarrow> bool" where
  "no_register es \<longleftrightarrow> (\<forall>e \<in> set es. case e of Begin _ (Register _) \<Rightarrow> False | _ \<Rightarrow> True)"

lemma waking_begin:
  assumes "cell_inv E x s" "all_taking s" "cy_request s = Some (w, k)" "legal_event E (Begin j call) s" "no_register [Begin j call]"
    "wake_under_way E w k i s" "cy_pcs s ! i = CellIdle \<Longrightarrow> answered E w k (cy_cell s) (cy_pcs s)"
  shows "wake_under_way E w k i (run_event kind E (Begin j call) s) \<and> all_taking (run_event kind E (Begin j call) s)
    \<and> cy_request (run_event kind E (Begin j call) s) = Some (w, k)"
proof -
  have call: "is_take (call_pc call)" "cy_request (run_event kind E (Begin j call) s) = cy_request s"
    using assms(5) by (cases call; simp add: no_register_def run_event_def)+
  have j: "j < length (cy_pcs s)" "cy_pcs s ! j = CellIdle" using assms(4) by simp_all
  have "answered E w k (cy_cell s) (cy_pcs s) \<Longrightarrow> answered E w k (cy_cell s) ((cy_pcs s)[j := call_pc call])"
    by (rule answered_step [OF _ waking_settled(2) [OF assms(1-3)], where l = "[]"]) (use j in auto)
  then have "wake_under_way E w k i (run_event kind E (Begin j call) s)"
    using assms(6,7) j by (cases "j = i") (auto simp: wake_under_way_def run_event_def)
  moreover have "all_taking (run_event kind E (Begin j call) s)"
    using assms(2) call(1) j(1) by (auto simp: all_taking_def run_event_def nth_list_update)
  ultimately show ?thesis using call(2) assms(3) by simp
qed

lemma waking_schedule:
  assumes env: "waker_env_ok E"
  shows "\<lbrakk>cell_inv E x s; all_taking s; cy_request s = Some (w, k); i < length (cy_pcs s); wake_under_way E w k i s;
      legal_schedule kind E es s; no_register es\<rbrakk>
    \<Longrightarrow> wake_under_way E w k i (run_schedule kind E es s)"
proof (induction es arbitrary: s x)
  case (Cons e es)
  let ?s = "run_event kind E e s"
  have leg: "legal_event E e s" "legal_schedule kind E es ?s" and nr: "no_register [e]" "no_register es"
    using Cons.prems by (simp_all add: no_register_def)
  have "wake_under_way E w k i ?s \<and> all_taking ?s \<and> cy_request ?s = Some (w, k)"
  proof (cases e)
    case (Begin j call)
    have "answered E w k (cy_cell s) (cy_pcs s)" if "cy_pcs s ! i = CellIdle" using Cons.prems(5) that by (simp add: wake_under_way_def)
    then show ?thesis using waking_begin [OF Cons.prems(1-3) _ _ Cons.prems(5)] leg nr unfolding Begin by blast
  next
    case (Step j)
    then show ?thesis using waking_step [OF Cons.prems(1-3) _ Cons.prems(4,5)] leg by simp
  qed
  moreover have "\<exists>x'. cell_inv E x' ?s" using schedule_inv [OF env Cons.prems(1), of kind "[e]"] leg by (simp add: run_schedule_def)
  moreover have "length (cy_pcs ?s) = length (cy_pcs s)" by (auto simp: run_event_def split: cell_event.splits prod.splits)
  ultimately show ?case using Cons.IH [OF _ _ _ _ _ leg(2) nr(2)] Cons.prems(4) by (auto simp: run_schedule_def)
qed (simp add: run_schedule_def)

subsection \<open>Properties\<close>

lemma reached_inv:
  assumes "waker_env_ok E" "0 < n" "legal_schedule kind E es (system_new E n)"
  shows "\<exists>x. cell_inv E x (run_schedule kind E es (system_new E n))"
  by (rule schedule_inv [OF assms(1) system_new_inv [OF assms(1,2)] assms(3)])

lemma idle_held: "\<forall>pc \<in> set pcs. pc = CellIdle \<Longrightarrow> (\<Sum>pc\<leftarrow>pcs. held c pc) = {#}"
  by (induction pcs) auto

text \<open>C26. With one thread registering wakers whose tables are aligned and not the cell's own, whatever the schedule and however many threads take and wake, a
  waker cell of either kind never makes a waker of pointers that belong to none and never releases a
  clone twice; and when all calls have returned, dropping the cell releases the last clone, so none is
  leaked.\<close>

theorem waker_cell_safe:
  assumes "waker_env_ok E" "0 < n" "legal_schedule kind E es (system_new E n)" "s = run_schedule kind E es (system_new E n)"
  shows "\<not> wc_ub (cy_cell s)
     \<and> ((\<forall>pc \<in> set (cy_pcs s). pc = CellIdle) \<longrightarrow> \<not> wc_ub (cell_drop E (cy_cell s)) \<and> wc_owned (cell_drop E (cy_cell s)) = [])"
proof -
  obtain x where inv: "cell_inv E x s" using reached_inv [OF assms(1-3)] assms(4) by blast
  note I = cell_invD [OF inv]
  have "\<not> wc_ub (cell_drop E (cy_cell s)) \<and> wc_owned (cell_drop E (cy_cell s)) = []" if "\<forall>pc \<in> set (cy_pcs s). pc = CellIdle"
    using I(8,9,11) idle_held [OF that] by (auto simp: held_all_def cell_drop_def disown_def stored_def Let_def)
  then show ?thesis using I(11) by blast
qed

text \<open>C27. A wake-up is never lost, with one thread registering such wakers. When a registration has returned and then some thread wakes the cell,
  in any schedule without a further registration and by the time that thread has returned, the
  registered waker has been woken or handed out since the registration began, or another thread has it
  in hand and is about to.\<close>

theorem wake_reaches_registered:
  assumes "waker_env_ok E" "0 < n" "legal_schedule kind E es (system_new E n)" "s = run_schedule kind E es (system_new E n)"
    "all_taking s" "cy_request s = Some (w, k)"
    "legal_schedule kind E (Begin i Wake # es') s" "no_register es'" "s' = run_schedule kind E (Begin i Wake # es') s" "cy_pcs s' ! i = CellIdle"
  shows "answered E w k (cy_cell s') (cy_pcs s')"
proof -
  obtain x where inv: "cell_inv E x s" using reached_inv [OF assms(1-3)] assms(4) by blast
  let ?s = "run_event kind E (Begin i Wake) s"
  have leg: "legal_event E (Begin i Wake) s" "legal_schedule kind E es' ?s" using assms(7) by simp_all
  have i: "i < length (cy_pcs s)" using leg(1) by simp
  have "wake_under_way E w k i ?s" "all_taking ?s" "cy_request ?s = Some (w, k)" "i < length (cy_pcs ?s)"
    using assms(5,6) i by (auto simp: wake_under_way_def all_taking_def run_event_def nth_list_update)
  from waking_schedule [OF assms(1) begin_inv [OF inv leg(1)] this(2,3,4,1) leg(2) assms(8)] show ?thesis
    using assms(9,10) by (auto simp: wake_under_way_def run_schedule_def)
qed

text \<open>Two tasks, their wakers with one table, as the tasks of a runtime have, and a cell's own table.\<close>

definition two_tasks :: waker_env where
  "two_tasks = \<lparr>we_noop = 16, we_clone = (\<lambda>w. w)\<rparr>"

definition first_task :: raw_waker where
  "first_task = (8, 100)"

definition second_task :: raw_waker where
  "second_task = (8, 200)"

definition register_then_wake :: "cell_event list" where
  "register_then_wake = Begin 0 (Register first_task) # replicate 9 (Step 0)"

lemma two_tasks_ok: "waker_env_ok two_tasks" "good_waker two_tasks first_task"
  by (simp_all add: waker_env_ok_def good_waker_def two_tasks_def first_task_def ptr_tag_def)

theorem waker_cell_safe_witness:
  "\<not> wc_ub (cy_cell (run_schedule AtomicCell two_tasks register_then_wake (system_new two_tasks 2)))"
proof -
  have "legal_schedule AtomicCell two_tasks register_then_wake (system_new two_tasks 2)" by code_simp
  then show ?thesis using waker_cell_safe [OF two_tasks_ok(1) _ _ refl, of 2 AtomicCell register_then_wake] by simp
qed

theorem wake_reaches_registered_witness:
  "answered two_tasks first_task 0
     (cy_cell (run_schedule MwsrCell two_tasks (Begin 1 Wake # replicate 6 (Step 1)) (run_schedule MwsrCell two_tasks register_then_wake (system_new two_tasks 2))))
     (cy_pcs (run_schedule MwsrCell two_tasks (Begin 1 Wake # replicate 6 (Step 1)) (run_schedule MwsrCell two_tasks register_then_wake (system_new two_tasks 2))))"
proof -
  let ?s = "run_schedule MwsrCell two_tasks register_then_wake (system_new two_tasks 2)"
  have "legal_schedule MwsrCell two_tasks register_then_wake (system_new two_tasks 2)" by code_simp
  moreover have "all_taking ?s" by code_simp
  moreover have "cy_request ?s = Some (first_task, 0)" by code_simp
  moreover have "legal_schedule MwsrCell two_tasks (Begin 1 Wake # replicate 6 (Step 1)) ?s" by code_simp
  moreover have "cy_pcs (run_schedule MwsrCell two_tasks (Begin 1 Wake # replicate 6 (Step 1)) ?s) ! 1 = CellIdle" by code_simp
  moreover have "no_register (replicate 6 (Step 1))" by (simp add: no_register_def)
  ultimately show ?thesis using wake_reaches_registered [OF two_tasks_ok(1) _ _ refl _ _ _ _ refl, of 2 MwsrCell register_then_wake] by simp
qed

text \<open>Two threads that register, and schedules in which any thread may.\<close>

fun free_schedule :: "cell_kind \<Rightarrow> waker_env \<Rightarrow> cell_event list \<Rightarrow> cell_system \<Rightarrow> bool" where
  "free_schedule k E [] s \<longleftrightarrow> True"
| "free_schedule k E (e # es) s \<longleftrightarrow>
     (case e of
        Begin i call \<Rightarrow> i < length (cy_pcs s) \<and> cy_pcs s ! i = CellIdle \<and> (case call of Register w \<Rightarrow> good_waker E w | _ \<Rightarrow> True)
      | Step i \<Rightarrow> i < length (cy_pcs s))
     \<and> free_schedule k E es (run_event k E e s)"

definition race_schedule :: "cell_event list" where
  "race_schedule = [Begin 0 (Register first_task), Step 0, Step 0, Step 0, Step 0, Begin 2 Wake, Step 2, Step 2, Step 0, Step 0, Step 0]
     @ [Begin 1 (Register second_task), Step 1, Step 1, Step 1, Step 1, Step 1, Step 1, Step 0]
     @ Begin 2 Wake # replicate 6 (Step 2)"

definition stale_schedule :: "cell_event list" where
  "stale_schedule = Begin 0 (Register first_task) # replicate 6 (Step 0) @ Begin 2 Wake # replicate 6 (Step 2)
     @ Begin 1 (Register second_task) # replicate 8 (Step 1) @ [Step 0, Step 0, Begin 0 (Register first_task), Step 0, Step 0, Step 0]"

text \<open>\<^verbatim>\<open>AtomicWaker::register\<close> is documented as safe to call from several threads, and is not. In one
  schedule a waker of the second task's table and a null pointer is woken: the first thread, giving up
  its registration, clears the data after it has freed the cell for the second. In another, a call of
  the first task returns while the cell holds the waker of the second, no other call is under way and
  the first task has not been woken since: the cache that the call trusted was written after the second
  registration.\<close>

theorem atomic_register_race:
  "free_schedule AtomicCell two_tasks race_schedule (system_new two_tasks 3)
   \<and> wc_ub (cy_cell (run_schedule AtomicCell two_tasks race_schedule (system_new two_tasks 3)))
   \<and> free_schedule AtomicCell two_tasks stale_schedule (system_new two_tasks 3)
   \<and> (let s = run_schedule AtomicCell two_tasks stale_schedule (system_new two_tasks 3); k = snd (the (cy_request s)) in
        cy_pcs s = [CellIdle, CellIdle, CellIdle] \<and> cy_request s = Some (first_task, k) \<and> stored (cy_cell s) = second_task
        \<and> \<not> settled two_tasks first_task k (cy_cell s) (cy_pcs s))"
proof (intro conjI)
  show "free_schedule AtomicCell two_tasks race_schedule (system_new two_tasks 3)" by code_simp
  show "wc_ub (cy_cell (run_schedule AtomicCell two_tasks race_schedule (system_new two_tasks 3)))" by code_simp
  show "free_schedule AtomicCell two_tasks stale_schedule (system_new two_tasks 3)" by code_simp
  show "let s = run_schedule AtomicCell two_tasks stale_schedule (system_new two_tasks 3); k = snd (the (cy_request s)) in
        cy_pcs s = [CellIdle, CellIdle, CellIdle] \<and> cy_request s = Some (first_task, k) \<and> stored (cy_cell s) = second_task
        \<and> \<not> settled two_tasks first_task k (cy_cell s) (cy_pcs s)" by code_simp
qed

end
