(* ===== verification/Task_Header.thy ===== *)
theory Task_Header
  imports Veloq_Prelude
begin

unbundle bit_operations_syntax

text \<open>
  A task of the runtime (\<^verbatim>\<open>veloq-runtime/src/task\<close>) whose storage is atomic: its header with the flags, the
  reference count and the token its wakers share, the future and the result of its node, and the calls
  of the threads that wake, run, join, cancel and drop it.

  A call is a sequence of steps, one for each access to shared memory, and a schedule interleaves the
  steps of all threads; the memory is sequentially consistent. The queues of the runtime are those of
  the crate \<^verbatim>\<open>crossbeam\<close>; of them the model keeps how many references to the task they hold, and a bounded
  one may refuse a reference. What the future does, whether the scope is cancelled, whether a queue is
  full and whether a weak compare-and-exchange fails are choices of the schedule. A call made by the
  future while it is polled is one of a thread of its own.
\<close>

subsection \<open>Flags\<close>

definition STATE_COMPLETED :: usize where "STATE_COMPLETED = push_bit 0 1"

definition STATE_QUEUED :: usize where "STATE_QUEUED = push_bit 1 1"

definition STATE_READY :: usize where "STATE_READY = push_bit 2 1"

definition STATE_CANCELLED :: usize where "STATE_CANCELLED = push_bit 3 1"

definition STATE_POLLING :: usize where "STATE_POLLING = push_bit 4 1"

definition STATE_WOKEN :: usize where "STATE_WOKEN = push_bit 5 1"

definition STATE_PINNED :: usize where "STATE_PINNED = push_bit 6 1"

definition STATE_SCOPE_OBLIGATED :: usize where "STATE_SCOPE_OBLIGATED = push_bit 7 1"

definition STATE_SCOPE_ACKED :: usize where "STATE_SCOPE_ACKED = push_bit 8 1"

definition WAKE_TOKEN_ALIVE :: u32 where "WAKE_TOKEN_ALIVE = 1"

definition WAKE_TOKEN_ACTIVE_UNIT :: u32 where "WAKE_TOKEN_ACTIVE_UNIT = 2"

definition STATUS_RUNNING :: usize where "STATUS_RUNNING = 0"

definition STATUS_DONE :: usize where "STATUS_DONE = 1"

definition STATUS_EMPTY :: usize where "STATUS_EMPTY = 2"

definition has :: "usize \<Rightarrow> usize \<Rightarrow> bool" where
  "has s f \<longleftrightarrow> s AND f \<noteq> 0"

subsection \<open>The task\<close>

datatype task_error = TaskPanic | TaskCancelled

type_synonym 'r task_result = "task_error + 'r"

text \<open>What polling the future gives; a panic says whether its payload is \<^verbatim>\<open>TaskError::Cancelled\<close>.\<close>

datatype 'r future_outcome = FuturePending | FutureReady 'r | FuturePanic bool

text \<open>The header and the node, then the queues and the scope, then what is only recorded: the memory of
  the task was released, it was accessed afterwards, an assertion on acknowledging failed, a bounded
  queue refused the task, it was spawned, a waker of it was made, it was woken since it was last polled,
  the result of its run, the results handed out, the waiters that were woken, that came and that left,
  and whether its owner has begun to drop it.\<close>

record 'r task =
  tk_state :: usize
  tk_ref_count :: usize
  tk_token :: u32
  tk_header :: bool
  tk_locked :: bool
  tk_wakers :: "waker list"
  tk_status :: usize
  tk_future :: bool
  tk_result :: "'r task_result option"
  tk_queue :: nat
  tk_dones :: nat
  tk_panics :: nat
  tk_freed :: bool
  tk_ub :: bool
  tk_dup :: bool
  tk_refused :: bool
  tk_spawned :: bool
  tk_made :: bool
  tk_wanted :: bool
  tk_outcome :: "'r task_result option"
  tk_taken :: "'r task_result option list"
  tk_woken :: "waker list"
  tk_joined :: "waker list"
  tk_left :: "waker list"
  tk_dropping :: bool

text \<open>A node as \<^verbatim>\<open>GenericTaskNode::new\<close> makes it, pinned or not, when the scope's guard has handed its
  obligation over.\<close>

definition task_new :: "bool \<Rightarrow> 'r task" where
  "task_new pinned =
     \<lparr>tk_state = (if pinned then STATE_PINNED else 0) OR STATE_SCOPE_OBLIGATED, tk_ref_count = 1, tk_token = WAKE_TOKEN_ALIVE,
      tk_header = False, tk_locked = False, tk_wakers = [], tk_status = STATUS_RUNNING, tk_future = True, tk_result = None,
      tk_queue = 0, tk_dones = 0, tk_panics = 0, tk_freed = False, tk_ub = False, tk_dup = False, tk_refused = False,
      tk_spawned = False, tk_made = False, tk_wanted = False, tk_outcome = None, tk_taken = [], tk_woken = [], tk_joined = [],
      tk_left = [], tk_dropping = False\<rparr>"

record 'r choice =
  ch_spurious :: bool
  ch_full :: bool
  ch_scope_cancelled :: bool
  ch_outcome :: "'r future_outcome"

text \<open>The place where a thread is in its call. The places of an enqueueing call say whether it holds the
  guard of the token and whether the task is pinned; \<open>ClearAnd\<close> and \<open>ClearSub\<close> are reached from an aborted
  enqueueing, or by a worker (\<open>None\<close>).\<close>

datatype wake_pc = WakeLoad | WakeAcquire u32 | WakeAlive | WakeHeader | WakeRelease

datatype enqueue_pc =
    EnqueuePinned bool
  | EnqueueCompleted bool bool
  | EnqueueAcked bool
  | MarkLoad bool bool
  | MarkCas bool bool usize
  | MarkRef bool bool
  | EnqueuePush bool bool

datatype clear_pc = ClearAnd "bool option" | ClearSub "bool option" | AckOr bool | AckDone bool

datatype run_pc =
    PollBind
  | EnterLoad
  | EnterCas usize
  | RunCheck
  | RunStart
  | RunPoll bool
  | RunRecheck
  | ExitLoad
  | ExitCas usize

datatype 'r finish_pc =
    SetResult "'r task_result"
  | SetStatus
  | DropFuture
  | FinishMark
  | FinishLock
  | FinishDrain
  | FinishDec
  | FinishExit bool

datatype handle_pc =
    JoinCheck waker
  | JoinLock waker
  | JoinRecheck waker
  | JoinPush waker
  | LeaveCheck waker
  | LeaveLock waker
  | LeaveRemove waker
  | TakeCas
  | TakeResult
  | CancelOr

datatype drop_pc = DropDeactivate | DropWait | DropClear

datatype 'r task_pc =
    TaskIdle
  | Waking wake_pc
  | Enqueueing enqueue_pc
  | Clearing clear_pc
  | Running run_pc
  | Finishing "'r finish_pc"
  | Handling handle_pc
  | Dropping drop_pc

type_synonym 'r task_step = "'r task \<Rightarrow> 'r task \<times> 'r task_pc"

text \<open>The end of an enqueueing call.\<close>

definition enqueued :: "bool \<Rightarrow> 'r task_pc" where
  "enqueued g = (if g then Waking WakeRelease else TaskIdle)"

definition state_cas :: "bool \<Rightarrow> usize \<Rightarrow> usize \<Rightarrow> 'r task \<Rightarrow> 'r task \<times> bool" where
  "state_cas spurious old new t =
     (if tk_state t = old \<and> \<not> spurious then (t\<lparr>tk_state := new\<rparr>, True) else (t, False))"

subsection \<open>Waking: the token\<close>

text \<open>\<^verbatim>\<open>try_acquire\<close>, whose loop goes on with the state it last read.\<close>

definition acquire_next :: "u32 \<Rightarrow> 'r task_pc" where
  "acquire_next s = (if s AND WAKE_TOKEN_ALIVE = 0 then TaskIdle else Waking (WakeAcquire s))"

definition try_acquire_load :: "'r task_step" where
  "try_acquire_load t = (t, acquire_next (tk_token t))"

definition try_acquire_cas :: "bool \<Rightarrow> u32 \<Rightarrow> 'r task_step" where
  "try_acquire_cas spurious s t =
     (if tk_token t = s \<and> \<not> spurious then (t\<lparr>tk_token := s + WAKE_TOKEN_ACTIVE_UNIT\<rparr>, Waking WakeAlive)
      else (t, acquire_next (tk_token t)))"

text \<open>\<^verbatim>\<open>header\<close>, twice a load, then the waking proper.\<close>

definition header_alive :: "'r task_step" where
  "header_alive t = (t, if tk_token t AND WAKE_TOKEN_ALIVE = 0 then Waking WakeRelease else Waking WakeHeader)"

definition header_load :: "'r task_step" where
  "header_load t = (t, if tk_header t then Enqueueing (EnqueuePinned True) else Waking WakeRelease)"

definition token_guard_drop :: "'r task_step" where
  "token_guard_drop t = (t\<lparr>tk_token := tk_token t - WAKE_TOKEN_ACTIVE_UNIT\<rparr>, TaskIdle)"

subsection \<open>Enqueueing\<close>

definition is_pinned :: "bool \<Rightarrow> 'r task_step" where
  "is_pinned g t = (t, Enqueueing (EnqueueCompleted g (has (tk_state t) STATE_PINNED)))"

text \<open>\<^verbatim>\<open>enqueue_send\<close> and \<^verbatim>\<open>enqueue_pinned\<close> for a worker that exists. A completed task that is pinned and not
  acknowledged is acknowledged by the caller.\<close>

definition enqueue_completed :: "bool \<Rightarrow> bool \<Rightarrow> 'r task_step" where
  "enqueue_completed g pinned t =
     (t, if has (tk_state t) STATE_COMPLETED then (if pinned then Enqueueing (EnqueueAcked g) else enqueued g) else Enqueueing (MarkLoad g pinned))"

definition enqueue_acked :: "bool \<Rightarrow> 'r task_step" where
  "enqueue_acked g t = (t, if has (tk_state t) STATE_SCOPE_ACKED then enqueued g else Clearing (AckOr g))"

definition mark_load :: "bool \<Rightarrow> bool \<Rightarrow> 'r task_step" where
  "mark_load g pinned t =
     (t, if has (tk_state t) STATE_QUEUED \<or> has (tk_state t) STATE_COMPLETED then enqueued g else Enqueueing (MarkCas g pinned (tk_state t)))"

definition mark_cas :: "bool \<Rightarrow> bool \<Rightarrow> usize \<Rightarrow> 'r task_step" where
  "mark_cas g pinned s t =
     (case state_cas False s (s OR STATE_QUEUED) t of (t', ok) \<Rightarrow> (t', if ok then Enqueueing (MarkRef g pinned) else Enqueueing (MarkLoad g pinned)))"

definition mark_ref :: "bool \<Rightarrow> bool \<Rightarrow> 'r task_step" where
  "mark_ref g pinned t = (t\<lparr>tk_ref_count := tk_ref_count t + 1\<rparr>, Enqueueing (EnqueuePush g pinned))"

text \<open>A reference the remote queue has no room for goes to the injector; the pinned queue refuses it.\<close>

definition enqueue_push :: "bool \<Rightarrow> bool \<Rightarrow> bool \<Rightarrow> 'r task_step" where
  "enqueue_push full g pinned t =
     (if pinned \<and> full then (t\<lparr>tk_refused := True\<rparr>, Clearing (ClearAnd (Some g)))
      else (t\<lparr>tk_queue := tk_queue t + 1\<rparr>, enqueued g))"

subsection \<open>Leaving the queue and acknowledging\<close>

text \<open>\<^verbatim>\<open>clear_queued\<close>. The caller acknowledges when it gave up the last reference; otherwise a worker polls
  the task.\<close>

definition clear_done :: "bool option \<Rightarrow> bool \<Rightarrow> 'r task_pc" where
  "clear_done from was_last =
     (case from of
        None \<Rightarrow> if was_last then Clearing (AckOr False) else Running PollBind
      | Some g \<Rightarrow> if was_last then Clearing (AckOr g) else enqueued g)"

definition clear_and :: "bool option \<Rightarrow> 'r task_step" where
  "clear_and from t =
     (t\<lparr>tk_state := tk_state t AND NOT STATE_QUEUED\<rparr>,
      if has (tk_state t) STATE_QUEUED then Clearing (ClearSub from) else clear_done from False)"

definition clear_sub :: "bool option \<Rightarrow> 'r task_step" where
  "clear_sub from t = (t\<lparr>tk_ref_count := tk_ref_count t - 1\<rparr>, clear_done from (tk_ref_count t = 1))"

text \<open>\<^verbatim>\<open>acknowledge_completion\<close>.\<close>

definition ack_or :: "bool \<Rightarrow> 'r task_step" where
  "ack_or g t =
     (let t' = t\<lparr>tk_state := tk_state t OR STATE_SCOPE_ACKED\<rparr>
      in if has (tk_state t) STATE_SCOPE_ACKED then (t'\<lparr>tk_dup := True\<rparr>, enqueued g) else (t', Clearing (AckDone g)))"

definition ack_done :: "bool \<Rightarrow> 'r task_step" where
  "ack_done g t = (t\<lparr>tk_dones := tk_dones t + 1\<rparr>, enqueued g)"

subsection \<open>Running\<close>

text \<open>\<^verbatim>\<open>create_waker\<close>, as far as it touches the task.\<close>

definition bind_header :: "'r task_step" where
  "bind_header t = (t\<lparr>tk_header := True, tk_made := True\<rparr>, Running EnterLoad)"

text \<open>\<^verbatim>\<open>try_enter_poll\<close>.\<close>

definition enter_next :: "usize \<Rightarrow> 'r task_pc" where
  "enter_next s = (if has s STATE_COMPLETED then TaskIdle else Running (EnterCas s))"

definition enter_load :: "'r task_step" where
  "enter_load t = (t, enter_next (tk_state t))"

definition enter_cas :: "bool \<Rightarrow> usize \<Rightarrow> 'r task_step" where
  "enter_cas spurious s t =
     (if has s STATE_POLLING then
        (case state_cas spurious s (s OR STATE_WOKEN) t of (t', ok) \<Rightarrow> (t', if ok then TaskIdle else enter_next (tk_state t)))
      else
        (case state_cas spurious s (s OR STATE_POLLING) t of (t', ok) \<Rightarrow> (t', if ok then Running RunCheck else enter_next (tk_state t))))"

text \<open>The loop of \<^verbatim>\<open>poll_task_internal\<close> with the polling closure of the node.\<close>

definition is_cancelled :: "bool \<Rightarrow> 'r task \<Rightarrow> bool" where
  "is_cancelled scope_cancelled t \<longleftrightarrow> has (tk_state t) STATE_CANCELLED \<or> scope_cancelled"

definition run_check :: "bool \<Rightarrow> 'r task_step" where
  "run_check sc t = (t, if is_cancelled sc t then Finishing (SetResult (Inl TaskCancelled)) else Running RunStart)"

definition run_start :: "'r task_step" where
  "run_start t = (t\<lparr>tk_wanted := False\<rparr>, Running (RunPoll (tk_status t = STATUS_RUNNING \<and> tk_future t)))"

definition run_poll :: "'r future_outcome \<Rightarrow> bool \<Rightarrow> 'r task_step" where
  "run_poll outcome live t =
     (case (if live then outcome else FuturePending) of
        FutureReady v \<Rightarrow> (t, Finishing (SetResult (Inr v)))
      | FuturePending \<Rightarrow> (t, Running RunRecheck)
      | FuturePanic cancelled \<Rightarrow>
          if cancelled then (t, Finishing (SetResult (Inl TaskCancelled)))
          else (t\<lparr>tk_panics := tk_panics t + 1\<rparr>, Finishing (SetResult (Inl TaskPanic))))"

definition run_recheck :: "bool \<Rightarrow> 'r task_step" where
  "run_recheck sc t = (t, if is_cancelled sc t then Finishing (SetResult (Inl TaskCancelled)) else Running ExitLoad)"

text \<open>\<^verbatim>\<open>exit_poll_to_pending\<close>.\<close>

definition exit_state :: "usize \<Rightarrow> usize" where
  "exit_state s =
     (let new = s AND NOT STATE_POLLING
      in if has s STATE_WOKEN then (new AND NOT STATE_WOKEN) OR STATE_POLLING else new)"

definition exit_load :: "'r task_step" where
  "exit_load t = (t, Running (ExitCas (tk_state t)))"

definition exit_cas :: "bool \<Rightarrow> usize \<Rightarrow> 'r task_step" where
  "exit_cas spurious s t =
     (case state_cas spurious s (exit_state s) t of
        (t', ok) \<Rightarrow> (t', if \<not> ok then Running (ExitCas (tk_state t)) else if has s STATE_WOKEN then Running RunCheck else TaskIdle))"

subsection \<open>Completing\<close>

text \<open>\<^verbatim>\<open>set_result\<close> in its three writes.\<close>

definition set_result :: "'r task_result \<Rightarrow> 'r task_step" where
  "set_result r t = (t\<lparr>tk_result := Some r, tk_outcome := Some r\<rparr>, Finishing SetStatus)"

definition set_status :: "'r task_step" where
  "set_status t = (t\<lparr>tk_status := STATUS_DONE\<rparr>, Finishing DropFuture)"

definition drop_future :: "'r task_step" where
  "drop_future t = (t\<lparr>tk_future := False\<rparr>, Finishing FinishMark)"

text \<open>\<^verbatim>\<open>mark_completed_and_notify\<close>; the waiters are woken under the lock.\<close>

definition finish_mark :: "'r task_step" where
  "finish_mark t =
     (t\<lparr>tk_state := tk_state t OR (STATE_READY OR STATE_COMPLETED)\<rparr>,
      if has (tk_state t) STATE_COMPLETED then Finishing FinishDec else Finishing FinishLock)"

definition finish_lock :: "'r task_step" where
  "finish_lock t = (if tk_locked t then (t, Finishing FinishLock) else (t\<lparr>tk_locked := True\<rparr>, Finishing FinishDrain))"

definition finish_drain :: "'r task_step" where
  "finish_drain t = (t\<lparr>tk_woken := tk_woken t @ tk_wakers t, tk_wakers := [], tk_locked := False\<rparr>, Finishing FinishDec)"

text \<open>The rest of \<^verbatim>\<open>finalize\<close>.\<close>

definition finish_dec :: "'r task_step" where
  "finish_dec t = (t\<lparr>tk_ref_count := tk_ref_count t - 1\<rparr>, Finishing (FinishExit (tk_ref_count t = 1)))"

definition finish_exit :: "bool \<Rightarrow> 'r task_step" where
  "finish_exit ack t = (t\<lparr>tk_state := tk_state t AND NOT STATE_POLLING\<rparr>, if ack then Clearing (AckOr False) else TaskIdle)"

subsection \<open>Joining, cancelling, dropping\<close>

text \<open>\<^verbatim>\<open>register_completion\<close>.\<close>

definition join_check :: "waker \<Rightarrow> 'r task_step" where
  "join_check w t =
     (if has (tk_state t) STATE_COMPLETED then (t\<lparr>tk_woken := tk_woken t @ [w]\<rparr>, TaskIdle) else (t, Handling (JoinLock w)))"

definition join_lock :: "waker \<Rightarrow> 'r task_step" where
  "join_lock w t = (if tk_locked t then (t, Handling (JoinLock w)) else (t\<lparr>tk_locked := True\<rparr>, Handling (JoinRecheck w)))"

definition join_recheck :: "waker \<Rightarrow> 'r task_step" where
  "join_recheck w t =
     (if has (tk_state t) STATE_COMPLETED then (t\<lparr>tk_locked := False, tk_woken := tk_woken t @ [w]\<rparr>, TaskIdle)
      else (t, Handling (JoinPush w)))"

definition join_push :: "waker \<Rightarrow> 'r task_step" where
  "join_push w t = (t\<lparr>tk_wakers := tk_wakers t @ [w], tk_locked := False\<rparr>, TaskIdle)"

text \<open>\<^verbatim>\<open>remove_waker\<close>.\<close>

definition leave_check :: "waker \<Rightarrow> 'r task_step" where
  "leave_check w t = (t, if has (tk_state t) STATE_COMPLETED then TaskIdle else Handling (LeaveLock w))"

definition leave_lock :: "waker \<Rightarrow> 'r task_step" where
  "leave_lock w t = (if tk_locked t then (t, Handling (LeaveLock w)) else (t\<lparr>tk_locked := True\<rparr>, Handling (LeaveRemove w)))"

definition leave_remove :: "waker \<Rightarrow> 'r task_step" where
  "leave_remove w t = (t\<lparr>tk_wakers := remove1 w (tk_wakers t), tk_locked := False\<rparr>, TaskIdle)"

text \<open>\<^verbatim>\<open>take_result\<close>.\<close>

definition take_cas :: "'r task_step" where
  "take_cas t = (if tk_status t = STATUS_DONE then (t\<lparr>tk_status := STATUS_EMPTY\<rparr>, Handling TakeResult) else (t, TaskIdle))"

definition take_result :: "'r task_step" where
  "take_result t = (t\<lparr>tk_taken := tk_taken t @ [tk_result t], tk_result := None\<rparr>, TaskIdle)"

definition cancel_or :: "'r task_step" where
  "cancel_or t = (t\<lparr>tk_state := tk_state t OR STATE_CANCELLED\<rparr>, TaskIdle)"

text \<open>Dropping the header: \<^verbatim>\<open>deactivate_and_wait\<close>, then its memory is released.\<close>

definition deactivate :: "'r task_step" where
  "deactivate t = (t\<lparr>tk_token := tk_token t AND NOT WAKE_TOKEN_ALIVE\<rparr>, Dropping DropWait)"

definition wait_inactive :: "'r task_step" where
  "wait_inactive t = (t, if tk_token t = 0 then Dropping DropClear else Dropping DropWait)"

definition clear_header :: "'r task_step" where
  "clear_header t = (t\<lparr>tk_header := False, tk_freed := True\<rparr>, TaskIdle)"

subsection \<open>Schedules\<close>

fun wake_step :: "'r choice \<Rightarrow> wake_pc \<Rightarrow> 'r task_step" where
  "wake_step ch WakeLoad = try_acquire_load"
| "wake_step ch (WakeAcquire s) = try_acquire_cas (ch_spurious ch) s"
| "wake_step ch WakeAlive = header_alive"
| "wake_step ch WakeHeader = header_load"
| "wake_step ch WakeRelease = token_guard_drop"

fun enqueue_step :: "'r choice \<Rightarrow> enqueue_pc \<Rightarrow> 'r task_step" where
  "enqueue_step ch (EnqueuePinned g) = is_pinned g"
| "enqueue_step ch (EnqueueCompleted g p) = enqueue_completed g p"
| "enqueue_step ch (EnqueueAcked g) = enqueue_acked g"
| "enqueue_step ch (MarkLoad g p) = mark_load g p"
| "enqueue_step ch (MarkCas g p s) = mark_cas g p s"
| "enqueue_step ch (MarkRef g p) = mark_ref g p"
| "enqueue_step ch (EnqueuePush g p) = enqueue_push (ch_full ch) g p"

fun clear_step :: "'r choice \<Rightarrow> clear_pc \<Rightarrow> 'r task_step" where
  "clear_step ch (ClearAnd from) = clear_and from"
| "clear_step ch (ClearSub from) = clear_sub from"
| "clear_step ch (AckOr g) = ack_or g"
| "clear_step ch (AckDone g) = ack_done g"

fun run_step :: "'r choice \<Rightarrow> run_pc \<Rightarrow> 'r task_step" where
  "run_step ch PollBind = bind_header"
| "run_step ch EnterLoad = enter_load"
| "run_step ch (EnterCas s) = enter_cas (ch_spurious ch) s"
| "run_step ch RunCheck = run_check (ch_scope_cancelled ch)"
| "run_step ch RunStart = run_start"
| "run_step ch (RunPoll live) = run_poll (ch_outcome ch) live"
| "run_step ch RunRecheck = run_recheck (ch_scope_cancelled ch)"
| "run_step ch ExitLoad = exit_load"
| "run_step ch (ExitCas s) = exit_cas (ch_spurious ch) s"

fun finish_step :: "'r choice \<Rightarrow> 'r finish_pc \<Rightarrow> 'r task_step" where
  "finish_step ch (SetResult r) = set_result r"
| "finish_step ch SetStatus = set_status"
| "finish_step ch DropFuture = drop_future"
| "finish_step ch FinishMark = finish_mark"
| "finish_step ch FinishLock = finish_lock"
| "finish_step ch FinishDrain = finish_drain"
| "finish_step ch FinishDec = finish_dec"
| "finish_step ch (FinishExit ack) = finish_exit ack"

fun handle_step :: "'r choice \<Rightarrow> handle_pc \<Rightarrow> 'r task_step" where
  "handle_step ch (JoinCheck w) = join_check w"
| "handle_step ch (JoinLock w) = join_lock w"
| "handle_step ch (JoinRecheck w) = join_recheck w"
| "handle_step ch (JoinPush w) = join_push w"
| "handle_step ch (LeaveCheck w) = leave_check w"
| "handle_step ch (LeaveLock w) = leave_lock w"
| "handle_step ch (LeaveRemove w) = leave_remove w"
| "handle_step ch TakeCas = take_cas"
| "handle_step ch TakeResult = take_result"
| "handle_step ch CancelOr = cancel_or"

fun drop_step :: "'r choice \<Rightarrow> drop_pc \<Rightarrow> 'r task_step" where
  "drop_step ch DropDeactivate = deactivate"
| "drop_step ch DropWait = wait_inactive"
| "drop_step ch DropClear = clear_header"

fun task_step :: "'r choice \<Rightarrow> 'r task_pc \<Rightarrow> 'r task_step" where
  "task_step ch TaskIdle = (\<lambda>t. (t, TaskIdle))"
| "task_step ch (Waking p) = wake_step ch p"
| "task_step ch (Enqueueing p) = enqueue_step ch p"
| "task_step ch (Clearing p) = clear_step ch p"
| "task_step ch (Running p) = run_step ch p"
| "task_step ch (Finishing p) = finish_step ch p"
| "task_step ch (Handling p) = handle_step ch p"
| "task_step ch (Dropping p) = drop_step ch p"

text \<open>Steps that only touch the token, which the wakers share, and those of the owner that releases the
  memory; all others access the header or the node.\<close>

fun touches :: "'r task_pc \<Rightarrow> bool" where
  "touches TaskIdle = False"
| "touches (Waking _) = False"
| "touches (Dropping _) = False"
| "touches _ = True"

datatype task_call =
    CallSpawn | CallWake | CallWork | CallJoin waker | CallLeave waker | CallTake | CallCancel | CallDrop

text \<open>How a call begins. A worker takes a reference out of a queue.\<close>

fun begin_call :: "task_call \<Rightarrow> 'r task_step" where
  "begin_call CallSpawn t = (t\<lparr>tk_spawned := True, tk_wanted := True\<rparr>, Enqueueing (EnqueueCompleted False (has (tk_state t) STATE_PINNED)))"
| "begin_call CallWake t = (t\<lparr>tk_wanted := True\<rparr>, Waking WakeLoad)"
| "begin_call CallWork t = (t\<lparr>tk_queue := tk_queue t - 1\<rparr>, Clearing (ClearAnd None))"
| "begin_call (CallJoin w) t = (t\<lparr>tk_joined := tk_joined t @ [w]\<rparr>, Handling (JoinCheck w))"
| "begin_call (CallLeave w) t = (t\<lparr>tk_left := tk_left t @ [w]\<rparr>, Handling (LeaveCheck w))"
| "begin_call CallTake t = (t, Handling TakeCas)"
| "begin_call CallCancel t = (t, Handling CancelOr)"
| "begin_call CallDrop t = (t\<lparr>tk_dropping := True\<rparr>, Dropping DropDeactivate)"

record 'r task_system =
  ts_task :: "'r task"
  ts_pcs :: "'r task_pc list"

definition task_system_new :: "bool \<Rightarrow> nat \<Rightarrow> 'r task_system" where
  "task_system_new pinned n = \<lparr>ts_task = task_new pinned, ts_pcs = replicate n TaskIdle\<rparr>"

datatype 'r task_event = TaskBegin nat task_call | TaskStep nat "'r choice"

definition run_task_event :: "'r task_event \<Rightarrow> 'r task_system \<Rightarrow> 'r task_system" where
  "run_task_event e s =
     (case e of
        TaskBegin i call \<Rightarrow>
          (case begin_call call (ts_task s) of (t, pc) \<Rightarrow> s\<lparr>ts_task := t, ts_pcs := (ts_pcs s)[i := pc]\<rparr>)
      | TaskStep i ch \<Rightarrow>
          (let t0 = (if touches (ts_pcs s ! i) \<and> tk_freed (ts_task s) then (ts_task s)\<lparr>tk_ub := True\<rparr> else ts_task s)
           in case task_step ch (ts_pcs s ! i) t0 of (t, pc) \<Rightarrow> s\<lparr>ts_task := t, ts_pcs := (ts_pcs s)[i := pc]\<rparr>))"

text \<open>Which calls may begin: a task is spawned once; it is woken through a waker it made; a worker finds
  a reference in a queue; a waiter comes once; the handle of the task is not used once its owner has
  begun to drop it, and the owner begins when the scope has been told that the task is done and no call
  through the handle is under way.\<close>

fun handle_call :: "'r task_pc \<Rightarrow> bool" where
  "handle_call (Handling _) = True"
| "handle_call _ = False"

fun legal_task_call :: "task_call \<Rightarrow> 'r task_system \<Rightarrow> bool" where
  "legal_task_call CallSpawn s \<longleftrightarrow> \<not> tk_spawned (ts_task s) \<and> \<not> tk_dropping (ts_task s)"
| "legal_task_call CallWake s \<longleftrightarrow> tk_made (ts_task s)"
| "legal_task_call CallWork s \<longleftrightarrow> 0 < tk_queue (ts_task s)"
| "legal_task_call (CallJoin w) s \<longleftrightarrow> w \<notin> set (tk_joined (ts_task s)) \<and> \<not> tk_dropping (ts_task s)"
| "legal_task_call (CallLeave w) s \<longleftrightarrow> \<not> tk_dropping (ts_task s)"
| "legal_task_call CallTake s \<longleftrightarrow> \<not> tk_dropping (ts_task s)"
| "legal_task_call CallCancel s \<longleftrightarrow> \<not> tk_dropping (ts_task s)"
| "legal_task_call CallDrop s \<longleftrightarrow>
     0 < tk_dones (ts_task s) \<and> \<not> tk_dropping (ts_task s) \<and> list_all (\<lambda>pc. \<not> handle_call pc) (ts_pcs s)"

fun legal_task_event :: "'r task_event \<Rightarrow> 'r task_system \<Rightarrow> bool" where
  "legal_task_event (TaskBegin i call) s \<longleftrightarrow> i < length (ts_pcs s) \<and> ts_pcs s ! i = TaskIdle \<and> legal_task_call call s"
| "legal_task_event (TaskStep i ch) s \<longleftrightarrow> i < length (ts_pcs s)"

fun legal_task_schedule :: "'r task_event list \<Rightarrow> 'r task_system \<Rightarrow> bool" where
  "legal_task_schedule [] s \<longleftrightarrow> True"
| "legal_task_schedule (e # es) s \<longleftrightarrow> legal_task_event e s \<and> legal_task_schedule es (run_task_event e s)"

definition run_task_schedule :: "'r task_event list \<Rightarrow> 'r task_system \<Rightarrow> 'r task_system" where
  "run_task_schedule es s = fold run_task_event es s"

end
