(* ===== verification/Task_Moves.thy ===== *)
theory Task_Moves
  imports Task_Header
begin

unbundle bit_operations_syntax

text \<open>
  What a single move of one thread does to a task. Every flag and counter of the task is matched with
  the threads at certain places of their calls; here each of these accounts is proved on the thread that
  moves and the task alone. \<^verbatim>\<open>Task_Inv\<close> sums them up over all threads.
\<close>

subsection \<open>Flags and counters\<close>

named_theorems flag_simps

definition flag :: "nat \<Rightarrow> usize" where
  "flag k = 2 ^ k"

lemma bit_state_flag [flag_simps]: "bit (flag k) n \<longleftrightarrow> n = k \<and> k < 64"
  by (auto simp: flag_def bit_exp_iff)

lemma has_flag: "k < 64 \<Longrightarrow> has s (flag k) \<longleftrightarrow> bit s k"
proof -
  assume "k < 64"
  then have "bit (s AND flag k) n \<longleftrightarrow> bit s k \<and> n = k" for n by (auto simp: bit_and_iff flag_simps)
  then have "s AND flag k = 0 \<longleftrightarrow> \<not> bit s k" by (metis bit_eqI bit_0_eq bot_apply bot_bool_def)
  then show ?thesis by (simp add: has_def)
qed

lemma bit_clear_flag: "k < 64 \<Longrightarrow> bit (s AND NOT (flag k)) n \<longleftrightarrow> bit s n \<and> n \<noteq> k"
  by (cases "n < 64") (auto simp: bit_and_iff bit_not_iff flag_simps dest: bit_imp_le_length)

lemma state_flags:
  "STATE_COMPLETED = flag 0" "STATE_QUEUED = flag 1" "STATE_READY = flag 2" "STATE_CANCELLED = flag 3" "STATE_POLLING = flag 4"
  "STATE_WOKEN = flag 5" "STATE_PINNED = flag 6" "STATE_SCOPE_OBLIGATED = flag 7" "STATE_SCOPE_ACKED = flag 8"
  by (simp_all add: flag_def STATE_COMPLETED_def STATE_QUEUED_def STATE_READY_def STATE_CANCELLED_def STATE_POLLING_def
    STATE_WOKEN_def STATE_PINNED_def STATE_SCOPE_OBLIGATED_def STATE_SCOPE_ACKED_def)

lemma has_flags [flag_simps]:
  "has s STATE_COMPLETED \<longleftrightarrow> bit s 0" "has s STATE_QUEUED \<longleftrightarrow> bit s 1" "has s STATE_CANCELLED \<longleftrightarrow> bit s 3"
  "has s STATE_POLLING \<longleftrightarrow> bit s 4" "has s STATE_WOKEN \<longleftrightarrow> bit s 5" "has s STATE_PINNED \<longleftrightarrow> bit s 6"
  "has s STATE_SCOPE_ACKED \<longleftrightarrow> bit s 8"
  unfolding state_flags by (rule has_flag, simp)+

lemma or_flags [flag_simps]:
  "bit (s OR STATE_QUEUED) n \<longleftrightarrow> bit s n \<or> n = 1" "bit (s OR STATE_CANCELLED) n \<longleftrightarrow> bit s n \<or> n = 3"
  "bit (s OR STATE_POLLING) n \<longleftrightarrow> bit s n \<or> n = 4" "bit (s OR STATE_WOKEN) n \<longleftrightarrow> bit s n \<or> n = 5"
  "bit (s OR STATE_SCOPE_ACKED) n \<longleftrightarrow> bit s n \<or> n = 8"
  "bit (s OR (STATE_READY OR STATE_COMPLETED)) n \<longleftrightarrow> bit s n \<or> n = 2 \<or> n = 0"
  unfolding state_flags by (auto simp: bit_or_iff flag_simps)

lemma clear_flags [flag_simps]:
  "bit (s AND NOT STATE_QUEUED) n \<longleftrightarrow> bit s n \<and> n \<noteq> 1" "bit (s AND NOT STATE_POLLING) n \<longleftrightarrow> bit s n \<and> n \<noteq> 4"
  "bit (s AND NOT STATE_WOKEN) n \<longleftrightarrow> bit s n \<and> n \<noteq> 5"
  unfolding state_flags by (rule bit_clear_flag, simp)+

lemma exit_state_flags [flag_simps]:
  "bit (exit_state s) n \<longleftrightarrow> (if n = 4 then bit s 5 else if n = 5 then False else bit s n)"
  by (auto simp: exit_state_def flag_simps Let_def)

lemma new_flags [flag_simps]:
  "bit (STATE_PINNED OR STATE_SCOPE_OBLIGATED) n \<longleftrightarrow> n = 6 \<or> n = 7" "bit (0 OR STATE_SCOPE_OBLIGATED) n \<longleftrightarrow> n = 7"
  unfolding state_flags by (auto simp: bit_or_iff flag_simps)

lemma odd_word_unat: "odd (s :: u32) \<longleftrightarrow> odd (unat s)"
  by (metis bit_0 bit_unsigned_iff possible_bit_0)

lemma token_alive [flag_simps]: "s AND WAKE_TOKEN_ALIVE = 0 \<longleftrightarrow> even (unat s)"
proof -
  have "s AND 1 = 0 \<longleftrightarrow> even s" by (simp add: and_one_eq mod_2_eq_odd)
  then show ?thesis using odd_word_unat [of s] unfolding WAKE_TOKEN_ALIVE_def by blast
qed

lemma token_acquire: "unat (s :: u32) + 2 < 2 ^ 32 \<Longrightarrow> unat (s + WAKE_TOKEN_ACTIVE_UNIT) = unat s + 2"
  by (simp add: WAKE_TOKEN_ACTIVE_UNIT_def unat_word_ariths)

lemma token_release: "2 \<le> unat (s :: u32) \<Longrightarrow> unat (s - WAKE_TOKEN_ACTIVE_UNIT) = unat s - 2"
  by (simp add: WAKE_TOKEN_ACTIVE_UNIT_def unat_sub word_le_nat_alt)

lemma token_deactivate: "unat (s AND NOT WAKE_TOKEN_ALIVE :: u32) = 2 * (unat s div 2)"
proof -
  have "bit (s AND NOT (s AND 1)) n \<longleftrightarrow> bit (s AND NOT 1) n" for n
    by (simp only: bit_and_iff bit_not_iff) blast
  then have "s AND NOT (s AND 1) = s AND NOT 1" by (blast intro: bit_eqI)
  moreover have "s - (s AND 1) = s AND NOT (s AND 1)" by (rule disjunctive_diff) (simp only: bit_and_iff)
  moreover have "unat (s - (s AND 1)) = unat s - unat (s AND 1)"
    by (rule unat_sub) (rule word_and_le2)
  moreover have "unat (s AND 1) = unat s mod 2" using odd_word_unat [of s] by (simp add: and_one_eq mod_2_eq_odd)
  ultimately show ?thesis by (simp add: WAKE_TOKEN_ALIVE_def minus_mod_eq_mult_div)
qed

lemma count_inc: "unat (n :: usize) < 2 ^ 63 \<Longrightarrow> unat (n + 1) = unat n + 1"
  by (simp add: unat_word_ariths)

lemma count_dec: "n \<noteq> 0 \<Longrightarrow> unat (n - 1 :: usize) = unat n - 1"
  by (rule unat_minus_one)

lemma one_iff_unat: "n = (1 :: usize) \<longleftrightarrow> unat n = 1"
  by (metis unat_1 unsigned_word_eqI)

subsection \<open>Summing over the threads\<close>

definition tally :: "('r task_pc \<Rightarrow> nat) \<Rightarrow> 'r task_pc list \<Rightarrow> nat" where
  "tally f pcs = (\<Sum>pc\<leftarrow>pcs. f pc)"

lemma tally_update: "i < length pcs \<Longrightarrow> tally f (pcs[i := p]) + f (pcs ! i) = tally f pcs + f p"
  unfolding tally_def by (induction pcs arbitrary: i) (auto simp: nth_Cons' less_Suc_eq_0_disj split: nat.splits)

lemma tally_ge: "i < length pcs \<Longrightarrow> f (pcs ! i) \<le> tally f pcs"
  unfolding tally_def by (induction pcs arbitrary: i) (auto simp: nth_Cons' less_Suc_eq_0_disj intro: le_add2 trans_le_add2)

lemma tally_le: "(\<And>pc. f pc \<le> g pc) \<Longrightarrow> tally f pcs \<le> tally g pcs"
  unfolding tally_def by (induction pcs) (auto intro: add_mono)

lemma tally_length: "(\<And>pc. f pc \<le> 1) \<Longrightarrow> tally f pcs \<le> length pcs"
  by (rule order_trans [OF tally_le [of f "\<lambda>_. 1"]]) (simp_all add: tally_def sum_list_triv)

lemma tally_zero: "tally f pcs = 0 \<longleftrightarrow> (\<forall>pc \<in> set pcs. f pc = 0)"
  unfolding tally_def by (induction pcs) auto

lemma tally_add: "tally (\<lambda>pc. f pc + g pc) pcs = tally f pcs + tally g pcs"
  unfolding tally_def by (induction pcs) auto

subsection \<open>Where the threads are\<close>

named_theorems place_simps

text \<open>Threads that hold the one reference a queued task has, or are about to put it into a queue.\<close>

definition holds_queued :: "'r task_pc \<Rightarrow> nat" where [place_simps]:
  "holds_queued pc = (case pc of Enqueueing (MarkRef _ _) \<Rightarrow> 1 | Enqueueing (EnqueuePush _ _) \<Rightarrow> 1 | Clearing (ClearAnd _) \<Rightarrow> 1 | _ \<Rightarrow> 0)"

text \<open>Threads that have not counted their reference yet, or not given it up yet.\<close>

definition uncounted :: "'r task_pc \<Rightarrow> nat" where [place_simps]:
  "uncounted pc = (case pc of Enqueueing (MarkRef _ _) \<Rightarrow> 1 | _ \<Rightarrow> 0)"

definition surplus :: "'r task_pc \<Rightarrow> nat" where [place_simps]:
  "surplus pc = (case pc of Clearing (ClearSub _) \<Rightarrow> 1 | _ \<Rightarrow> 0)"

text \<open>Threads that run the task: before it is marked completed, and after.\<close>

definition running :: "'r task_pc \<Rightarrow> nat" where [place_simps]:
  "running pc = (case pc of Running RunCheck \<Rightarrow> 1 | Running RunStart \<Rightarrow> 1 | Running (RunPoll _) \<Rightarrow> 1 | Running RunRecheck \<Rightarrow> 1 | Running ExitLoad \<Rightarrow> 1 | Running (ExitCas _) \<Rightarrow> 1
     | Finishing (SetResult _) \<Rightarrow> 1 | Finishing SetStatus \<Rightarrow> 1 | Finishing DropFuture \<Rightarrow> 1 | Finishing FinishMark \<Rightarrow> 1 | _ \<Rightarrow> 0)"

definition finishing :: "'r task_pc \<Rightarrow> nat" where [place_simps]:
  "finishing pc = (case pc of Finishing FinishLock \<Rightarrow> 1 | Finishing FinishDrain \<Rightarrow> 1 | Finishing FinishDec \<Rightarrow> 1 | _ \<Rightarrow> 0)"

definition polling :: "'r task_pc \<Rightarrow> nat" where [place_simps]:
  "polling pc = running pc + finishing pc + (case pc of Finishing (FinishExit _) \<Rightarrow> 1 | _ \<Rightarrow> 0)"

text \<open>Threads that have seen the task completed.\<close>

definition after_completion :: "'r task_pc \<Rightarrow> nat" where [place_simps]:
  "after_completion pc = finishing pc + (case pc of Finishing (FinishExit _) \<Rightarrow> 1 | Clearing (AckOr _) \<Rightarrow> 1 | Clearing (AckDone _) \<Rightarrow> 1 | Enqueueing (EnqueueAcked _) \<Rightarrow> 1 | _ \<Rightarrow> 0)"

definition acknowledging :: "'r task_pc \<Rightarrow> nat" where [place_simps]:
  "acknowledging pc = (case pc of Finishing (FinishExit ack) \<Rightarrow> of_bool ack | Clearing (AckOr _) \<Rightarrow> 1 | _ \<Rightarrow> 0)"

definition settling :: "'r task_pc \<Rightarrow> nat" where [place_simps]:
  "settling pc = (case pc of Clearing (AckDone _) \<Rightarrow> 1 | _ \<Rightarrow> 0)"

text \<open>Threads that will have the task polled or completed, or find that another will.\<close>

definition seeking :: "'r task_pc \<Rightarrow> nat" where [place_simps]:
  "seeking pc = (case pc of Waking WakeLoad \<Rightarrow> 1 | Waking (WakeAcquire _) \<Rightarrow> 1 | Waking WakeAlive \<Rightarrow> 1 | Waking WakeHeader \<Rightarrow> 1 | Enqueueing (EnqueuePinned _) \<Rightarrow> 1
     | Enqueueing (EnqueueCompleted _ _) \<Rightarrow> 1 | Enqueueing (MarkLoad _ _) \<Rightarrow> 1 | Enqueueing (MarkCas _ _ _) \<Rightarrow> 1 | Clearing (ClearSub _) \<Rightarrow> 1 | Running PollBind \<Rightarrow> 1 | Running EnterLoad \<Rightarrow> 1
     | Running (EnterCas _) \<Rightarrow> 1 | Running RunCheck \<Rightarrow> 1 | Running RunStart \<Rightarrow> 1 | Finishing (SetResult _) \<Rightarrow> 1 | Finishing SetStatus \<Rightarrow> 1 | Finishing DropFuture \<Rightarrow> 1 | Finishing FinishMark \<Rightarrow> 1 | _ \<Rightarrow> 0)"

definition refusing :: "'r task_pc \<Rightarrow> nat" where [place_simps]:
  "refusing pc = (case pc of Clearing (ClearAnd (Some _)) \<Rightarrow> 1 | Clearing (ClearSub (Some _)) \<Rightarrow> 1 | _ \<Rightarrow> 0)"

text \<open>Threads in a waking call before it may be refused, and those that hold the guard of the token.\<close>

definition waking :: "'r task_pc \<Rightarrow> nat" where [place_simps]:
  "waking pc = (case pc of Waking WakeLoad \<Rightarrow> 1 | Waking (WakeAcquire _) \<Rightarrow> 1 | Waking WakeAlive \<Rightarrow> 1 | Waking WakeHeader \<Rightarrow> 1 | _ \<Rightarrow> 0)"

definition guarded :: "'r task_pc \<Rightarrow> nat" where [place_simps]:
  "guarded pc = (case pc of Waking WakeAlive \<Rightarrow> 1 | Waking WakeHeader \<Rightarrow> 1 | Waking WakeRelease \<Rightarrow> 1 | Enqueueing (EnqueuePinned g) \<Rightarrow> of_bool g
     | Enqueueing (EnqueueCompleted g _) \<Rightarrow> of_bool g | Enqueueing (EnqueueAcked g) \<Rightarrow> of_bool g | Enqueueing (MarkLoad g _) \<Rightarrow> of_bool g | Enqueueing (MarkCas g _ _) \<Rightarrow> of_bool g
     | Enqueueing (MarkRef g _) \<Rightarrow> of_bool g | Enqueueing (EnqueuePush g _) \<Rightarrow> of_bool g | Clearing (ClearAnd f) \<Rightarrow> of_bool (f = Some True)
     | Clearing (ClearSub f) \<Rightarrow> of_bool (f = Some True) | Clearing (AckOr g) \<Rightarrow> of_bool g | Clearing (AckDone g) \<Rightarrow> of_bool g | _ \<Rightarrow> 0)"

definition releasing :: "'r task_pc \<Rightarrow> nat" where [place_simps]:
  "releasing pc = (case pc of Dropping DropClear \<Rightarrow> 1 | _ \<Rightarrow> 0)"

text \<open>Threads that hold the lock of the list of waiters, and those that will empty or extend it.\<close>

definition locking :: "'r task_pc \<Rightarrow> nat" where [place_simps]:
  "locking pc = (case pc of Finishing FinishDrain \<Rightarrow> 1 | Handling (JoinRecheck _) \<Rightarrow> 1 | Handling (JoinPush _) \<Rightarrow> 1 | Handling (LeaveRemove _) \<Rightarrow> 1 | _ \<Rightarrow> 0)"

definition locks_later :: "'r task_pc \<Rightarrow> nat" where [place_simps]:
  "locks_later pc = (case pc of Finishing FinishLock \<Rightarrow> 1 | _ \<Rightarrow> 0)"

definition draining :: "'r task_pc \<Rightarrow> nat" where [place_simps]:
  "draining pc = (case pc of Finishing FinishLock \<Rightarrow> 1 | Finishing FinishDrain \<Rightarrow> 1 | _ \<Rightarrow> 0)"

definition pushing :: "'r task_pc \<Rightarrow> nat" where [place_simps]:
  "pushing pc = (case pc of Handling (JoinPush _) \<Rightarrow> 1 | _ \<Rightarrow> 0)"

definition joining :: "waker \<Rightarrow> 'r task_pc \<Rightarrow> nat" where [place_simps]:
  "joining w pc = (case pc of Handling (JoinCheck v) \<Rightarrow> of_bool (v = w) | Handling (JoinLock v) \<Rightarrow> of_bool (v = w) | Handling (JoinRecheck v) \<Rightarrow> of_bool (v = w)
     | Handling (JoinPush v) \<Rightarrow> of_bool (v = w) | _ \<Rightarrow> 0)"

text \<open>Threads that have written the result, those that have published it, and those that take it.\<close>

definition result_set :: "'r task_pc \<Rightarrow> nat" where [place_simps]:
  "result_set pc = (case pc of Finishing SetStatus \<Rightarrow> 1 | _ \<Rightarrow> 0)"

definition result_published :: "'r task_pc \<Rightarrow> nat" where [place_simps]:
  "result_published pc = (case pc of Finishing DropFuture \<Rightarrow> 1 | Finishing FinishMark \<Rightarrow> 1 | _ \<Rightarrow> 0)"

definition taking :: "'r task_pc \<Rightarrow> nat" where [place_simps]:
  "taking pc = (case pc of Handling TakeResult \<Rightarrow> 1 | _ \<Rightarrow> 0)"

text \<open>What a thread knows from what it has read.\<close>

definition place_ok :: "waker list \<Rightarrow> 'r task_pc \<Rightarrow> bool" where [place_simps]:
  "place_ok left pc = (case pc of Enqueueing (MarkCas _ _ s) \<Rightarrow> \<not> bit s 0 \<and> \<not> bit s 1 | Running (EnterCas s) \<Rightarrow> \<not> bit s 0 | Waking (WakeAcquire s) \<Rightarrow> odd (unat s)
     | Handling (LeaveCheck w) \<Rightarrow> w \<in> set left | Handling (LeaveLock w) \<Rightarrow> w \<in> set left | Handling (LeaveRemove w) \<Rightarrow> w \<in> set left
     | Running (RunPoll live) \<Rightarrow> live | _ \<Rightarrow> True)"

text \<open>All places at once.\<close>

lemma place_cases [case_names TaskIdle WakeLoad WakeAcquire WakeAlive WakeHeader WakeRelease EnqueuePinned EnqueueCompleted EnqueueAcked MarkLoad MarkCas MarkRef EnqueuePush ClearAnd ClearSub AckOr AckDone PollBind EnterLoad EnterCas RunCheck RunStart RunPoll RunRecheck ExitLoad ExitCas SetResult SetStatus DropFuture FinishMark FinishLock FinishDrain FinishDec FinishExit JoinCheck JoinLock JoinRecheck JoinPush LeaveCheck LeaveLock LeaveRemove TakeCas TakeResult CancelOr DropDeactivate DropWait DropClear]:
  assumes "pc = TaskIdle \<Longrightarrow> P"
    "pc = Waking WakeLoad \<Longrightarrow> P"
    "\<And>s. pc = Waking (WakeAcquire s) \<Longrightarrow> P"
    "pc = Waking WakeAlive \<Longrightarrow> P"
    "pc = Waking WakeHeader \<Longrightarrow> P"
    "pc = Waking WakeRelease \<Longrightarrow> P"
    "\<And>g. pc = Enqueueing (EnqueuePinned g) \<Longrightarrow> P"
    "\<And>g p. pc = Enqueueing (EnqueueCompleted g p) \<Longrightarrow> P"
    "\<And>g. pc = Enqueueing (EnqueueAcked g) \<Longrightarrow> P"
    "\<And>g p. pc = Enqueueing (MarkLoad g p) \<Longrightarrow> P"
    "\<And>g p s. pc = Enqueueing (MarkCas g p s) \<Longrightarrow> P"
    "\<And>g p. pc = Enqueueing (MarkRef g p) \<Longrightarrow> P"
    "\<And>g p. pc = Enqueueing (EnqueuePush g p) \<Longrightarrow> P"
    "\<And>f. pc = Clearing (ClearAnd f) \<Longrightarrow> P"
    "\<And>f. pc = Clearing (ClearSub f) \<Longrightarrow> P"
    "\<And>g. pc = Clearing (AckOr g) \<Longrightarrow> P"
    "\<And>g. pc = Clearing (AckDone g) \<Longrightarrow> P"
    "pc = Running PollBind \<Longrightarrow> P"
    "pc = Running EnterLoad \<Longrightarrow> P"
    "\<And>s. pc = Running (EnterCas s) \<Longrightarrow> P"
    "pc = Running RunCheck \<Longrightarrow> P"
    "pc = Running RunStart \<Longrightarrow> P"
    "\<And>b. pc = Running (RunPoll b) \<Longrightarrow> P"
    "pc = Running RunRecheck \<Longrightarrow> P"
    "pc = Running ExitLoad \<Longrightarrow> P"
    "\<And>s. pc = Running (ExitCas s) \<Longrightarrow> P"
    "\<And>r. pc = Finishing (SetResult r) \<Longrightarrow> P"
    "pc = Finishing SetStatus \<Longrightarrow> P"
    "pc = Finishing DropFuture \<Longrightarrow> P"
    "pc = Finishing FinishMark \<Longrightarrow> P"
    "pc = Finishing FinishLock \<Longrightarrow> P"
    "pc = Finishing FinishDrain \<Longrightarrow> P"
    "pc = Finishing FinishDec \<Longrightarrow> P"
    "\<And>b. pc = Finishing (FinishExit b) \<Longrightarrow> P"
    "\<And>w. pc = Handling (JoinCheck w) \<Longrightarrow> P"
    "\<And>w. pc = Handling (JoinLock w) \<Longrightarrow> P"
    "\<And>w. pc = Handling (JoinRecheck w) \<Longrightarrow> P"
    "\<And>w. pc = Handling (JoinPush w) \<Longrightarrow> P"
    "\<And>w. pc = Handling (LeaveCheck w) \<Longrightarrow> P"
    "\<And>w. pc = Handling (LeaveLock w) \<Longrightarrow> P"
    "\<And>w. pc = Handling (LeaveRemove w) \<Longrightarrow> P"
    "pc = Handling TakeCas \<Longrightarrow> P"
    "pc = Handling TakeResult \<Longrightarrow> P"
    "pc = Handling CancelOr \<Longrightarrow> P"
    "pc = Dropping DropDeactivate \<Longrightarrow> P"
    "pc = Dropping DropWait \<Longrightarrow> P"
    "pc = Dropping DropClear \<Longrightarrow> P"
  shows P
proof (cases pc)
  case TaskIdle
  then show ?thesis by (rule assms(1))
next
  case (Waking x)
  then show ?thesis using assms(2-6) by (cases x) blast+
next
  case (Enqueueing x)
  then show ?thesis using assms(7-13) by (cases x) blast+
next
  case (Clearing x)
  then show ?thesis using assms(14-17) by (cases x) blast+
next
  case (Running x)
  then show ?thesis using assms(18-26) by (cases x) blast+
next
  case (Finishing x)
  then show ?thesis using assms(27-34) by (cases x) blast+
next
  case (Handling x)
  then show ?thesis using assms(35-44) by (cases x) blast+
next
  case (Dropping x)
  then show ?thesis using assms(45-47) by (cases x) blast+
qed

subsection \<open>Moves of one thread\<close>

lemmas step_defs = try_acquire_load_def try_acquire_cas_def acquire_next_def header_alive_def header_load_def token_guard_drop_def
  is_pinned_def enqueue_completed_def enqueue_acked_def mark_load_def mark_cas_def mark_ref_def enqueue_push_def
  clear_and_def clear_sub_def clear_done_def ack_or_def ack_done_def bind_header_def enter_load_def enter_next_def enter_cas_def
  run_check_def run_start_def run_poll_def run_recheck_def exit_load_def exit_cas_def set_result_def set_status_def
  drop_future_def finish_mark_def finish_lock_def finish_drain_def finish_dec_def finish_exit_def join_check_def
  join_lock_def join_recheck_def join_push_def leave_check_def leave_lock_def leave_remove_def take_cas_def take_result_def
  cancel_or_def deactivate_def wait_inactive_def clear_header_def enqueued_def state_cas_def

text \<open>What the legality of a call says of the task.\<close>

definition call_ok :: "task_call \<Rightarrow> 'r task \<Rightarrow> bool" where
  "call_ok call t = (case call of CallWake \<Rightarrow> tk_made t | CallWork \<Rightarrow> 0 < tk_queue t | CallDrop \<Rightarrow> 0 < tk_dones t | _ \<Rightarrow> True)"

definition moves :: "'r task \<Rightarrow> 'r task_pc \<Rightarrow> 'r task \<Rightarrow> 'r task_pc \<Rightarrow> bool" where
  "moves t pc t' pc' \<longleftrightarrow> (\<exists>ch. task_step ch pc t = (t', pc'))
     \<or> (pc = TaskIdle \<and> (\<exists>call. begin_call call t = (t', pc') \<and> call_ok call t))"

lemma moves_cases [consumes 1, case_names step start]:
  assumes "moves t pc t' pc'"
    "\<And>ch. task_step ch pc t = (t', pc') \<Longrightarrow> P"
    "\<And>call. pc = TaskIdle \<Longrightarrow> begin_call call t = (t', pc') \<Longrightarrow> call_ok call t \<Longrightarrow> P"
  shows P
  using assms unfolding moves_def by blast

lemmas move_splits = if_splits option.splits future_outcome.splits

lemma move_places:
  assumes "moves t pc t' pc'" "place_ok (tk_left t) pc" "0 < running pc \<longrightarrow> result_set pc = 0 \<longrightarrow> result_published pc = 0 \<longrightarrow> tk_status t = 0 \<and> tk_future t"
  shows "place_ok (tk_left t') pc'" "set (tk_left t) \<subseteq> set (tk_left t')"
proof -
  show "place_ok (tk_left t') pc'" using assms(1)
  proof (cases rule: moves_cases)
    case (step ch)
    then show ?thesis using assms(2,3) by (cases pc rule: place_cases) (auto simp: step_defs place_simps flag_simps STATUS_RUNNING_def Let_def split: move_splits)
  next
    case (start call)
    then show ?thesis by (cases call) (auto simp: place_simps)
  qed
  show "set (tk_left t) \<subseteq> set (tk_left t')" using assms(1)
  proof (cases rule: moves_cases)
    case (step ch)
    then show ?thesis by (cases pc rule: place_cases) (auto simp: step_defs Let_def split: move_splits)
  next
    case (start call)
    then show ?thesis by (cases call) auto
  qed
qed

lemma queued_move:
  assumes "moves t pc t' pc'" "place_ok l pc" "0 < holds_queued pc \<longrightarrow> bit (tk_state t) 1"
  shows "holds_queued pc' + tk_queue t' + of_bool (bit (tk_state t) 1) = holds_queued pc + tk_queue t + of_bool (bit (tk_state t') 1)"
  using assms(1)
proof (cases rule: moves_cases)
  case (step ch)
  then show ?thesis using assms(2,3) by (cases pc rule: place_cases) (auto simp: step_defs place_simps flag_simps Let_def split: move_splits)
next
  case (start call)
  then show ?thesis by (cases call) (auto simp: call_ok_def place_simps)
qed

lemma polling_move:
  assumes "moves t pc t' pc'" "place_ok l pc" "0 < polling pc \<longrightarrow> bit (tk_state t) 4"
  shows "polling pc' + of_bool (bit (tk_state t) 4) = polling pc + of_bool (bit (tk_state t') 4)"
  using assms(1)
proof (cases rule: moves_cases)
  case (step ch)
  then show ?thesis using assms(2,3) by (cases pc rule: place_cases) (auto simp: step_defs place_simps flag_simps Let_def split: move_splits)
next
  case (start call)
  then show ?thesis by (cases call) (auto simp: place_simps)
qed

lemma running_move:
  assumes "moves t pc t' pc'" "place_ok l pc" "0 < running pc \<longrightarrow> \<not> bit (tk_state t) 0"
  shows "running pc' + of_bool (bit (tk_state t') 0) = running pc + of_bool (bit (tk_state t) 0)
     \<or> bit (tk_state t') 0 = bit (tk_state t) 0 \<and> running pc = 1 \<and> running pc' = 0
     \<or> bit (tk_state t') 0 = bit (tk_state t) 0 \<and> running pc' = 1 \<and> polling pc = 0 \<and> \<not> bit (tk_state t) 0 \<and> \<not> bit (tk_state t) 4"
  using assms(1)
proof (cases rule: moves_cases)
  case (step ch)
  then show ?thesis using assms(2,3) by (cases pc rule: place_cases) (auto simp: step_defs place_simps flag_simps Let_def split: move_splits)
next
  case (start call)
  then show ?thesis by (cases call) (auto simp: place_simps)
qed

lemma completion_move:
  assumes "moves t pc t' pc'" "0 < after_completion pc \<longrightarrow> bit (tk_state t) 0" "0 < surplus pc \<longrightarrow> tk_ref_count t = 1 \<longrightarrow> bit (tk_state t) 0"
  shows "bit (tk_state t) 0 \<Longrightarrow> bit (tk_state t') 0" "0 < after_completion pc' \<Longrightarrow> bit (tk_state t') 0"
    "bit (tk_state t') 8 \<Longrightarrow> bit (tk_state t) 8 \<or> bit (tk_state t) 0"
proof -
  have "(bit (tk_state t) 0 \<longrightarrow> bit (tk_state t') 0) \<and> (0 < after_completion pc' \<longrightarrow> bit (tk_state t') 0)
      \<and> (bit (tk_state t') 8 \<longrightarrow> bit (tk_state t) 8 \<or> bit (tk_state t) 0)" using assms(1)
  proof (cases rule: moves_cases)
    case (step ch)
    then show ?thesis using assms(2,3) by (cases pc rule: place_cases) (auto simp: step_defs place_simps flag_simps Let_def split: move_splits)
  next
    case (start call)
    then show ?thesis by (cases call) (auto simp: place_simps)
  qed
  then show "bit (tk_state t) 0 \<Longrightarrow> bit (tk_state t') 0" "0 < after_completion pc' \<Longrightarrow> bit (tk_state t') 0"
    "bit (tk_state t') 8 \<Longrightarrow> bit (tk_state t) 8 \<or> bit (tk_state t) 0" by blast+
qed

text \<open>The places whose step changes the number of references or what it is matched with.\<close>

definition counting :: "'r task_pc \<Rightarrow> bool" where [place_simps]:
  "counting pc = (case pc of Enqueueing (MarkCas _ _ _) \<Rightarrow> True | Enqueueing (MarkRef _ _) \<Rightarrow> True | Clearing (ClearAnd _) \<Rightarrow> True | Clearing (ClearSub _) \<Rightarrow> True | Finishing FinishMark \<Rightarrow> True
     | Finishing FinishDec \<Rightarrow> True | _ \<Rightarrow> False)"

lemma references_kept:
  assumes "moves t pc t' pc'" "\<not> counting pc"
  shows "tk_ref_count t' = tk_ref_count t \<and> uncounted pc' = uncounted pc \<and> finishing pc' = finishing pc \<and> surplus pc' = surplus pc
    \<and> bit (tk_state t') 0 = bit (tk_state t) 0 \<and> bit (tk_state t') 1 = bit (tk_state t) 1"
  using assms(1)
proof (cases rule: moves_cases)
  case (step ch)
  then show ?thesis using assms(2) by (cases pc rule: place_cases) (auto simp: step_defs place_simps flag_simps Let_def split: move_splits)
next
  case (start call)
  then show ?thesis by (cases call) (auto simp: place_simps)
qed

lemma references_move:
  assumes "moves t pc t' pc'" "place_ok l pc" "0 < holds_queued pc \<longrightarrow> bit (tk_state t) 1" "0 < running pc \<longrightarrow> \<not> bit (tk_state t) 0"
    "0 < surplus pc + finishing pc \<longrightarrow> tk_ref_count t \<noteq> 0" "unat (tk_ref_count t) < 2 ^ 63"
  shows "unat (tk_ref_count t') + uncounted pc' + of_bool (\<not> bit (tk_state t) 0) + finishing pc + of_bool (bit (tk_state t) 1) + surplus pc
     = unat (tk_ref_count t) + uncounted pc + of_bool (\<not> bit (tk_state t') 0) + finishing pc' + of_bool (bit (tk_state t') 1) + surplus pc'"
proof (cases "counting pc")
  case True
  then obtain ch where step: "task_step ch pc t = (t', pc')" using assms(1) by (auto simp: moves_def counting_def)
  define up down where "up = unat (tk_ref_count t + 1)" and "down = unat (tk_ref_count t - 1)"
  have ud: "up = unat (tk_ref_count t) + 1" "0 < surplus pc + finishing pc \<Longrightarrow> unat (tk_ref_count t) = down + 1"
    using count_inc [OF assms(6)] count_dec [of "tk_ref_count t"] assms(5) by (auto simp: up_def down_def unat_eq_0 [symmetric] simp del: unat_eq_0)
  note [simp] = up_def [symmetric] down_def [symmetric]
  note facts = step assms(2-4) ud
  show ?thesis
  proof (cases pc rule: place_cases)
    case (MarkCas g p s)
    then show ?thesis using facts by (auto simp: step_defs place_simps flag_simps split: move_splits)
  next
    case (MarkRef g p)
    then show ?thesis using facts by (auto simp: step_defs place_simps flag_simps split: move_splits)
  next
    case (ClearAnd f)
    then show ?thesis using facts by (auto simp: step_defs place_simps flag_simps split: move_splits)
  next
    case (ClearSub f)
    then show ?thesis using facts by (auto simp: step_defs place_simps flag_simps split: move_splits)
  next
    case FinishMark
    then show ?thesis using facts by (auto simp: step_defs place_simps flag_simps split: move_splits)
  next
    case FinishDec
    then show ?thesis using facts by (auto simp: step_defs place_simps flag_simps split: move_splits)
  qed (use True in \<open>simp_all add: counting_def\<close>)
next
  case False
  then show ?thesis using references_kept [OF assms(1)] by simp
qed

text \<open>A count that reaches zero is noticed by the thread that brought it there.\<close>

lemma zero_move:
  assumes "moves t pc t' pc'" "unat (tk_ref_count t) < 2 ^ 63"
  shows "(tk_ref_count t' = 0 \<longrightarrow> tk_ref_count t = 0 \<or> 0 < acknowledging pc')
    \<and> (0 < acknowledging pc \<longrightarrow> 0 < acknowledging pc' \<or> bit (tk_state t') 8) \<and> (bit (tk_state t) 8 \<longrightarrow> bit (tk_state t') 8)"
  using assms(1)
proof (cases rule: moves_cases)
  case (step ch)
  have "tk_ref_count t + 1 \<noteq> 0" using count_inc [OF assms(2)] by (metis add_is_0 one_neq_zero unat_0)
  then show ?thesis using step by (cases pc rule: place_cases) (auto simp: step_defs place_simps flag_simps Let_def split: move_splits)
next
  case (start call)
  then show ?thesis by (cases call) (auto simp: place_simps)
qed

lemma settling_move:
  assumes "moves t pc t' pc'"
  shows "settling pc' + tk_dones t' + of_bool (bit (tk_state t) 8) = settling pc + tk_dones t + of_bool (bit (tk_state t') 8)"
  using assms
proof (cases rule: moves_cases)
  case (step ch)
  then show ?thesis by (cases pc rule: place_cases) (auto simp: step_defs place_simps flag_simps Let_def split: move_splits)
next
  case (start call)
  then show ?thesis by (cases call) (auto simp: place_simps)
qed

text \<open>A task that was woken and not polled since is on its way.\<close>

definition on_its_way :: "'r task \<Rightarrow> bool" where
  "on_its_way t \<longleftrightarrow> bit (tk_state t) 0 \<or> tk_refused t \<or> bit (tk_state t) 1 \<or> bit (tk_state t) 5 \<and> bit (tk_state t) 4"

lemma wanted_move:
  assumes "moves t pc t' pc'" "tk_wanted t'" "0 < refusing pc \<longrightarrow> tk_refused t" "0 < after_completion pc \<longrightarrow> bit (tk_state t) 0"
    "0 < waking pc \<longrightarrow> odd (unat (tk_token t)) \<and> tk_header t \<or> bit (tk_state t) 0" "0 < polling pc \<longrightarrow> bit (tk_state t) 4"
    "0 < surplus pc \<longrightarrow> tk_ref_count t = 1 \<longrightarrow> bit (tk_state t) 0" "place_ok l pc"
  shows "(tk_wanted t \<or> 0 < seeking pc') \<and> (on_its_way t \<or> 0 < seeking pc \<longrightarrow> on_its_way t' \<or> 0 < seeking pc')"
  using assms(1)
proof (cases rule: moves_cases)
  case (step ch)
  then show ?thesis using assms(2-8)
    by (cases pc rule: place_cases) (auto simp: on_its_way_def step_defs place_simps flag_simps Let_def split: move_splits)
next
  case (start call)
  then show ?thesis using assms(2) by (cases call) (auto simp: on_its_way_def place_simps)
qed

lemma refusing_move:
  assumes "moves t pc t' pc'" "0 < refusing pc \<longrightarrow> tk_refused t"
  shows "0 < refusing pc' \<Longrightarrow> tk_refused t'" "tk_refused t \<Longrightarrow> tk_refused t'"
proof -
  have "(0 < refusing pc' \<longrightarrow> tk_refused t') \<and> (tk_refused t \<longrightarrow> tk_refused t')" using assms(1)
  proof (cases rule: moves_cases)
    case (step ch)
    then show ?thesis using assms(2) by (cases pc rule: place_cases) (auto simp: step_defs place_simps Let_def split: move_splits)
  next
    case (start call)
    then show ?thesis by (cases call) (auto simp: place_simps)
  qed
  then show "0 < refusing pc' \<Longrightarrow> tk_refused t'" "tk_refused t \<Longrightarrow> tk_refused t'" by blast+
qed

text \<open>The token counts the guards, and keeps its header while it is alive.\<close>

lemma token_move:
  assumes "moves t pc t' pc'" "0 < guarded pc \<longrightarrow> 2 \<le> unat (tk_token t)" "unat (tk_token t) + 2 < 2 ^ 32"
  shows "unat (tk_token t') div 2 + guarded pc = unat (tk_token t) div 2 + guarded pc'"
  using assms(1)
proof (cases rule: moves_cases)
  case (step ch)
  then show ?thesis using assms(2) token_acquire [OF assms(3)] token_release [of "tk_token t"] token_deactivate [of "tk_token t"]
    by (cases pc rule: place_cases) (auto simp: step_defs place_simps flag_simps Let_def split: move_splits)
next
  case (start call)
  then show ?thesis by (cases call) (auto simp: place_simps)
qed

lemma token_kept:
  assumes "moves t pc t' pc'"
  shows "(case pc of Waking (WakeAcquire _) \<Rightarrow> True | Waking WakeRelease \<Rightarrow> True | Dropping DropDeactivate \<Rightarrow> True | _ \<Rightarrow> tk_token t' = tk_token t)
    \<and> (0 < releasing pc' \<longrightarrow> tk_token t' = 0) \<and> (tk_freed t' \<longrightarrow> tk_freed t \<or> 0 < releasing pc)
    \<and> (tk_made t' \<and> \<not> tk_header t' \<longrightarrow> tk_made t \<and> \<not> tk_header t \<or> 0 < releasing pc) \<and> (tk_made t \<longrightarrow> tk_made t')
    \<and> (0 < waking pc' \<longrightarrow> tk_made t' \<or> 0 < waking pc)"
  using assms(1)
proof (cases rule: moves_cases)
  case (step ch)
  then show ?thesis by (cases pc rule: place_cases) (auto simp: step_defs place_simps Let_def split: move_splits)
next
  case (start call)
  then show ?thesis by (cases call) (auto simp: place_simps call_ok_def)
qed

lemma token_parity:
  assumes "moves t pc t' pc'" "0 < guarded pc \<longrightarrow> 2 \<le> unat (tk_token t)" "unat (tk_token t) + 2 < 2 ^ 32" "place_ok l pc"
  shows "(even (unat (tk_token t')) \<longrightarrow> even (unat (tk_token t)) \<or> pc = Dropping DropDeactivate) \<and> (tk_token t = 0 \<longrightarrow> tk_token t' = 0)"
proof (cases pc rule: place_cases)
  case (WakeAcquire s)
  then show ?thesis using assms(1,4) token_acquire [OF assms(3)] by (auto simp: moves_def step_defs place_simps split: if_splits)
next
  case WakeRelease
  then show ?thesis using assms(1,2) token_release [of "tk_token t"] by (auto simp: moves_def step_defs place_simps)
next
  case DropDeactivate
  then show ?thesis using assms(1) by (auto simp: moves_def step_defs)
qed (use token_kept [OF assms(1)] in simp_all)

text \<open>The lock of the list of waiters, and the waiters themselves.\<close>

lemma lock_move:
  assumes "moves t pc t' pc'" "0 < locking pc \<longrightarrow> tk_locked t"
  shows "locking pc' + of_bool (tk_locked t) = locking pc + of_bool (tk_locked t')"
  using assms(1)
proof (cases rule: moves_cases)
  case (step ch)
  then show ?thesis using assms(2) by (cases pc rule: place_cases) (auto simp: step_defs place_simps Let_def split: move_splits)
next
  case (start call)
  then show ?thesis by (cases call) (auto simp: place_simps)
qed

lemma waiters_move:
  assumes "moves t pc t' pc'" "place_ok (tk_left t) pc"
  shows "(tk_wakers t' \<noteq> [] \<longrightarrow> tk_wakers t \<noteq> [] \<or> 0 < pushing pc) \<and> (0 < draining pc \<longrightarrow> 0 < draining pc' \<or> tk_wakers t' = [])
    \<and> (bit (tk_state t') 0 \<longrightarrow> bit (tk_state t) 0 \<or> 0 < locks_later pc') \<and> (0 < locks_later pc \<longrightarrow> 0 < locks_later pc' \<or> \<not> tk_locked t)
    \<and> (0 < pushing pc' \<longrightarrow> \<not> bit (tk_state t') 0)"
  using assms(1)
proof (cases rule: moves_cases)
  case (step ch)
  then show ?thesis by (cases pc rule: place_cases) (auto simp: step_defs place_simps flag_simps Let_def split: move_splits)
next
  case (start call)
  then show ?thesis by (cases call) (auto simp: place_simps)
qed

definition served :: "'r task \<Rightarrow> waker \<Rightarrow> bool" where
  "served t w \<longleftrightarrow> w \<in> set (tk_wakers t) \<or> w \<in> set (tk_woken t) \<or> w \<in> set (tk_left t)"

lemma in_remove1: "v \<in> set xs \<Longrightarrow> v \<in> set (remove1 w xs) \<or> v = w"
  by (induction xs) auto

lemma served_move:
  assumes "moves t pc t' pc'" "place_ok (tk_left t) pc"
  shows "(served t w \<longrightarrow> served t' w) \<and> (0 < joining w pc \<longrightarrow> 0 < joining w pc' \<or> served t' w)
    \<and> (w \<in> set (tk_joined t') \<longrightarrow> w \<in> set (tk_joined t) \<or> 0 < joining w pc')"
  using assms(1)
proof (cases rule: moves_cases)
  case (step ch)
  then show ?thesis using assms(2)
    by (cases pc rule: place_cases) (auto simp: served_def step_defs place_simps flag_simps Let_def dest: in_remove1 split: move_splits)
next
  case (start call)
  then show ?thesis by (cases call) (auto simp: served_def place_simps)
qed

text \<open>The result: only the thread that completes the task writes it.\<close>

definition writing :: "'r task_pc \<Rightarrow> nat" where [place_simps]:
  "writing pc = (case pc of Finishing (SetResult _) \<Rightarrow> 1 | Finishing SetStatus \<Rightarrow> 1 | Finishing DropFuture \<Rightarrow> 1 | Finishing FinishMark \<Rightarrow> 1 | _ \<Rightarrow> 0)"

lemma result_kept:
  assumes "moves t pc t' pc'" "writing pc = 0"
  shows "result_set pc' = 0 \<and> result_published pc' = 0 \<and> bit (tk_state t') 0 = bit (tk_state t) 0 \<and> tk_outcome t' = tk_outcome t
    \<and> tk_future t' = tk_future t \<and> (if pc = Handling TakeCas \<and> tk_status t = 1 then tk_status t' = 2 \<and> taking pc' = 1 else tk_status t' = tk_status t \<and> taking pc' = 0)
    \<and> (if 0 < taking pc then tk_result t' = None \<and> tk_taken t' = tk_taken t @ [tk_result t] else tk_result t' = tk_result t \<and> tk_taken t' = tk_taken t)"
  using assms(1)
proof (cases rule: moves_cases)
  case (step ch)
  then show ?thesis using assms(2)
    by (cases pc rule: place_cases) (auto simp: step_defs place_simps flag_simps STATUS_DONE_def STATUS_EMPTY_def Let_def split: move_splits)
next
  case (start call)
  then show ?thesis by (cases call) (auto simp: place_simps)
qed

lemma result_written:
  assumes "moves t pc t' pc'" "0 < writing pc"
  shows "taking pc = 0 \<and> taking pc' = 0 \<and> tk_taken t' = tk_taken t \<and> (\<exists>ch. task_step ch pc t = (t', pc'))"
  using assms(1)
proof (cases rule: moves_cases)
  case (step ch)
  then show ?thesis using assms(2) by (cases pc rule: place_cases) (auto simp: step_defs place_simps)
next
  case (start call)
  then show ?thesis using assms(2) by (simp add: writing_def)
qed

end
