(* ===== verification/Task_Inv.thy ===== *)
theory Task_Inv
  imports Task_Moves
begin

unbundle bit_operations_syntax

text \<open>
  The invariant of a task under any schedule: the accounts of \<^verbatim>\<open>Task_Moves\<close>, summed up over all
  threads.
\<close>

subsection \<open>The invariant\<close>

text \<open>One reference is in a queue or in the hands of a thread when the task is marked as queued; one
  thread runs the task when it is marked as polled, and none runs a completed one.\<close>

definition inv_run :: "'r task \<Rightarrow> 'r task_pc list \<Rightarrow> bool" where
  "inv_run t pcs \<longleftrightarrow> tally holds_queued pcs + tk_queue t = of_bool (bit (tk_state t) 1)
     \<and> tally polling pcs = of_bool (bit (tk_state t) 4)
     \<and> tally running pcs + of_bool (bit (tk_state t) 0) \<le> 1"

text \<open>The reference count: one for the task until it has finished, one while it is queued, one for every
  thread that has not given up its reference; and a thread knows when none is left.\<close>

definition inv_refs :: "'r task \<Rightarrow> 'r task_pc list \<Rightarrow> bool" where
  "inv_refs t pcs \<longleftrightarrow> unat (tk_ref_count t) + tally uncounted pcs
       = of_bool (\<not> bit (tk_state t) 0) + tally finishing pcs + of_bool (bit (tk_state t) 1) + tally surplus pcs
     \<and> (bit (tk_state t) 0 \<and> tk_ref_count t = 0 \<longrightarrow> bit (tk_state t) 8 \<or> 0 < tally acknowledging pcs)"

text \<open>The scope is told once, of a completed task.\<close>

definition inv_ack :: "'r task \<Rightarrow> 'r task_pc list \<Rightarrow> bool" where
  "inv_ack t pcs \<longleftrightarrow> tally settling pcs + tk_dones t = of_bool (bit (tk_state t) 8)
     \<and> (bit (tk_state t) 8 \<longrightarrow> bit (tk_state t) 0) \<and> (0 < tally after_completion pcs \<longrightarrow> bit (tk_state t) 0)"

definition inv_wanted :: "'r task \<Rightarrow> 'r task_pc list \<Rightarrow> bool" where
  "inv_wanted t pcs \<longleftrightarrow> (tk_wanted t \<longrightarrow> on_its_way t \<or> 0 < tally seeking pcs) \<and> (0 < tally refusing pcs \<longrightarrow> tk_refused t)"

text \<open>The token counts the guards; it dies and loses its header only when the task is done.\<close>

definition dropping :: "'r task_pc \<Rightarrow> nat" where [place_simps]:
  "dropping pc = (case pc of Dropping DropDeactivate \<Rightarrow> 1 | Dropping DropWait \<Rightarrow> 1 | Dropping DropClear \<Rightarrow> 1 | _ \<Rightarrow> 0)"

definition inv_token :: "'r task \<Rightarrow> 'r task_pc list \<Rightarrow> bool" where
  "inv_token t pcs \<longleftrightarrow> unat (tk_token t) div 2 = tally guarded pcs
     \<and> (even (unat (tk_token t)) \<or> tk_made t \<and> \<not> tk_header t \<or> 0 < tally dropping pcs \<longrightarrow> bit (tk_state t) 0)
     \<and> (0 < tally waking pcs \<longrightarrow> tk_made t) \<and> (tk_freed t \<or> 0 < tally releasing pcs \<longrightarrow> tk_token t = 0)"

definition inv_join :: "'r task \<Rightarrow> 'r task_pc list \<Rightarrow> bool" where
  "inv_join t pcs \<longleftrightarrow> tally locking pcs = of_bool (tk_locked t)
     \<and> (tk_wakers t \<noteq> [] \<longrightarrow> \<not> bit (tk_state t) 0 \<or> 0 < tally draining pcs)
     \<and> (0 < tally pushing pcs \<longrightarrow> \<not> bit (tk_state t) 0 \<or> 0 < tally locks_later pcs)
     \<and> (\<forall>w \<in> set (tk_joined t). served t w \<or> 0 < tally (joining w) pcs)"

text \<open>The result is unwritten, written or published, and handed out once.\<close>

definition inv_result :: "'r task \<Rightarrow> 'r task_pc list \<Rightarrow> bool" where
  "inv_result t pcs \<longleftrightarrow>
     (if bit (tk_state t) 0 \<or> 0 < tally result_published pcs
      then tk_outcome t \<noteq> None \<and> (tk_status t = 1 \<and> tk_result t = tk_outcome t \<or> tk_status t = 2)
      else tk_status t = 0 \<and> tk_future t
        \<and> (if 0 < tally result_set pcs then tk_outcome t \<noteq> None \<and> tk_result t = tk_outcome t
           else tk_outcome t = None \<and> tk_result t = None))
     \<and> length (tk_taken t) + tally taking pcs = of_bool (tk_status t = 2)
     \<and> (0 < tally taking pcs \<longrightarrow> tk_result t = tk_outcome t) \<and> (tk_taken t \<noteq> [] \<longrightarrow> tk_taken t = [tk_outcome t])"

definition task_inv :: "'r task \<Rightarrow> 'r task_pc list \<Rightarrow> bool" where
  "task_inv t pcs \<longleftrightarrow> length pcs < 2 ^ 30 \<and> (\<forall>pc \<in> set pcs. place_ok (tk_left t) pc)
     \<and> inv_run t pcs \<and> inv_refs t pcs \<and> inv_ack t pcs \<and> inv_wanted t pcs \<and> inv_token t pcs \<and> inv_join t pcs \<and> inv_result t pcs"

subsection \<open>What the invariant says of one thread\<close>

lemma tally_pos: "0 < tally f pcs \<longleftrightarrow> (\<exists>i < length pcs. 0 < f (pcs ! i))"
  using tally_zero [of f pcs] by (auto simp: set_conv_nth)

lemma tally_pos_update:
  assumes "0 < tally f pcs" "i < length pcs"
  shows "0 < tally f (pcs[i := p]) \<or> 0 < f (pcs ! i)"
  using tally_update [OF assms(2), of f p] assms by linarith

lemma tally_after: "i < length pcs \<Longrightarrow> 0 < tally f (pcs[i := p]) \<Longrightarrow> 0 < f p \<or> 0 < tally f pcs"
  using tally_update [of i pcs f p] by linarith

lemma tally_here: "i < length pcs \<Longrightarrow> 0 < f p \<Longrightarrow> 0 < tally f (pcs[i := p])"
  using tally_ge [of i "pcs[i := p]" f] by simp

lemma uncounted_le: "tally uncounted pcs \<le> tally holds_queued pcs"
proof (rule tally_le)
  show "uncounted pc \<le> holds_queued pc" for pc :: "'a task_pc" by (cases pc rule: place_cases) (simp_all add: place_simps)
qed

lemma polling_split: "tally polling pcs = tally running pcs + tally finishing pcs + tally (\<lambda>pc. case pc of Finishing (FinishExit _) \<Rightarrow> 1 | _ \<Rightarrow> 0) pcs"
  unfolding tally_add [symmetric] polling_def ..

definition unwritten :: "'r task_pc \<Rightarrow> nat" where [place_simps]:
  "unwritten pc = running pc - result_set pc - result_published pc"

lemma running_parts: "running pc = unwritten pc + result_set pc + result_published pc"
  by (cases pc rule: place_cases) (simp_all add: place_simps)

lemma running_split: "tally running pcs = tally unwritten pcs + tally result_set pcs + tally result_published pcs"
  unfolding tally_def running_parts by (simp add: sum_list_addf)

lemma inv_thread:
  assumes inv: "task_inv t pcs" and i: "i < length pcs"
  shows "place_ok (tk_left t) (pcs ! i)" "0 < holds_queued (pcs ! i) \<longrightarrow> bit (tk_state t) 1" "0 < polling (pcs ! i) \<longrightarrow> bit (tk_state t) 4"
    "0 < running (pcs ! i) \<longrightarrow> \<not> bit (tk_state t) 0" "0 < after_completion (pcs ! i) \<longrightarrow> bit (tk_state t) 0"
    "0 < refusing (pcs ! i) \<longrightarrow> tk_refused t" "0 < locking (pcs ! i) \<longrightarrow> tk_locked t"
    "0 < guarded (pcs ! i) \<longrightarrow> 2 \<le> unat (tk_token t)"
    "0 < waking (pcs ! i) \<longrightarrow> odd (unat (tk_token t)) \<and> tk_header t \<or> bit (tk_state t) 0"
    "0 < dropping (pcs ! i) \<longrightarrow> bit (tk_state t) 0"
proof -
  note ge = tally_ge [OF i]
  have I: "inv_run t pcs" "inv_ack t pcs" "inv_wanted t pcs" "inv_token t pcs" "inv_join t pcs" "\<forall>pc \<in> set pcs. place_ok (tk_left t) pc"
    using inv by (simp_all add: task_inv_def)
  show "place_ok (tk_left t) (pcs ! i)" using I(6) i by simp
  show "0 < holds_queued (pcs ! i) \<longrightarrow> bit (tk_state t) 1" using I(1) ge [of holds_queued] by (cases "bit (tk_state t) 1") (auto simp: inv_run_def)
  show "0 < polling (pcs ! i) \<longrightarrow> bit (tk_state t) 4" using I(1) ge [of polling] by (cases "bit (tk_state t) 4") (auto simp: inv_run_def)
  show "0 < running (pcs ! i) \<longrightarrow> \<not> bit (tk_state t) 0" using I(1) ge [of running] by (cases "bit (tk_state t) 0") (auto simp: inv_run_def)
  show "0 < after_completion (pcs ! i) \<longrightarrow> bit (tk_state t) 0" using I(2) ge [of after_completion] by (auto simp: inv_ack_def)
  show "0 < refusing (pcs ! i) \<longrightarrow> tk_refused t" using I(3) ge [of refusing] by (auto simp: inv_wanted_def)
  show "0 < locking (pcs ! i) \<longrightarrow> tk_locked t" using I(5) ge [of locking] by (cases "tk_locked t") (auto simp: inv_join_def)
  have "0 < guarded (pcs ! i) \<Longrightarrow> 1 \<le> unat (tk_token t) div 2" using I(4) ge [of guarded] by (simp add: inv_token_def)
  then show "0 < guarded (pcs ! i) \<longrightarrow> 2 \<le> unat (tk_token t)" by fastforce
  show "0 < waking (pcs ! i) \<longrightarrow> odd (unat (tk_token t)) \<and> tk_header t \<or> bit (tk_state t) 0"
    using I(4) ge [of waking] by (auto simp: inv_token_def)
  show "0 < dropping (pcs ! i) \<longrightarrow> bit (tk_state t) 0" using I(4) ge [of dropping] by (auto simp: inv_token_def)
qed

lemma inv_counts:
  assumes inv: "task_inv t pcs" and i: "i < length pcs"
  shows "0 < surplus (pcs ! i) + finishing (pcs ! i) \<longrightarrow> tk_ref_count t \<noteq> 0"
    "0 < surplus (pcs ! i) \<longrightarrow> tk_ref_count t = 1 \<longrightarrow> bit (tk_state t) 0"
    "unat (tk_ref_count t) < 2 ^ 63" "unat (tk_token t) + 2 < 2 ^ 32"
proof -
  have R: "unat (tk_ref_count t) + tally uncounted pcs
      = of_bool (\<not> bit (tk_state t) 0) + tally finishing pcs + of_bool (bit (tk_state t) 1) + tally surplus pcs"
    and U: "tally uncounted pcs \<le> of_bool (bit (tk_state t) 1)" and F: "tally finishing pcs \<le> 1" and L: "length pcs < 2 ^ 30"
    and T: "unat (tk_token t) div 2 = tally guarded pcs"
    using inv uncounted_le [of pcs] polling_split [of pcs] by (auto simp: task_inv_def inv_refs_def inv_run_def inv_token_def of_bool_def split: if_splits)
  have "guarded pc \<le> 1" "surplus pc \<le> 1" for pc :: "'a task_pc" by (cases pc rule: place_cases; simp add: place_simps)+
  then have G: "tally guarded pcs \<le> length pcs" "tally surplus pcs \<le> length pcs" by (simp_all add: tally_length)
  note ge = tally_ge [OF i, of surplus] tally_ge [OF i, of finishing]
  show "0 < surplus (pcs ! i) + finishing (pcs ! i) \<longrightarrow> tk_ref_count t \<noteq> 0"
  proof (rule impI, rule notI)
    assume "0 < surplus (pcs ! i) + finishing (pcs ! i)" "tk_ref_count t = 0"
    then show False using R U ge by simp
  qed
  show "0 < surplus (pcs ! i) \<longrightarrow> tk_ref_count t = 1 \<longrightarrow> bit (tk_state t) 0"
    using R U ge by (cases "bit (tk_state t) 0") auto
  show "unat (tk_ref_count t) < 2 ^ 63" using R U F G L by (cases "bit (tk_state t) 0"; cases "bit (tk_state t) 1") auto
  show "unat (tk_token t) + 2 < 2 ^ 32" using T G L by simp
qed

subsection \<open>Every move keeps it\<close>

lemma inv_run_move:
  assumes "task_inv t pcs" "i < length pcs" "moves t (pcs ! i) t' pc'"
  shows "inv_run t' (pcs[i := pc'])"
proof -
  note th = inv_thread [OF assms(1,2)] and up = tally_update [OF assms(2), of _ pc']
  have I: "tally holds_queued pcs + tk_queue t = of_bool (bit (tk_state t) 1)" "tally polling pcs = of_bool (bit (tk_state t) 4)"
    "tally running pcs + of_bool (bit (tk_state t) 0) \<le> 1" using assms(1) by (simp_all add: task_inv_def inv_run_def)
  have "tally running (pcs[i := pc']) + of_bool (bit (tk_state t') 0) \<le> 1"
    using running_move [OF assms(3) th(1,4)] up [of running] I(2,3) polling_split [of pcs] by auto
  then show ?thesis
    using I queued_move [OF assms(3) th(1,2)] polling_move [OF assms(3) th(1,3)] up [of holds_queued] up [of polling]
    unfolding inv_run_def by linarith
qed

lemma inv_refs_move:
  assumes "task_inv t pcs" "i < length pcs" "moves t (pcs ! i) t' pc'"
  shows "inv_refs t' (pcs[i := pc'])"
proof -
  note th = inv_thread [OF assms(1,2)] and ct = inv_counts [OF assms(1,2)] and up = tally_update [OF assms(2), of _ pc']
  have I: "unat (tk_ref_count t) + tally uncounted pcs
      = of_bool (\<not> bit (tk_state t) 0) + tally finishing pcs + of_bool (bit (tk_state t) 1) + tally surplus pcs"
    "bit (tk_state t) 0 \<and> tk_ref_count t = 0 \<Longrightarrow> bit (tk_state t) 8 \<or> 0 < tally acknowledging pcs"
    "tally uncounted pcs \<le> of_bool (bit (tk_state t) 1)"
    using assms(1) uncounted_le [of pcs] by (auto simp: task_inv_def inv_refs_def inv_run_def)
  have "unat (tk_ref_count t') + tally uncounted (pcs[i := pc']) = of_bool (\<not> bit (tk_state t') 0) + tally finishing (pcs[i := pc'])
      + of_bool (bit (tk_state t') 1) + tally surplus (pcs[i := pc'])"
    using references_move [OF assms(3) th(1,2,4) ct(1,3)] I(1) up [of uncounted] up [of finishing] up [of surplus] by linarith
  moreover have "bit (tk_state t') 8 \<or> 0 < tally acknowledging (pcs[i := pc'])" if "bit (tk_state t') 0" "tk_ref_count t' = 0"
  proof (cases "tk_ref_count t = 0")
    case True
    then have "bit (tk_state t) 0" using I(1,3) by (cases "bit (tk_state t) 0") auto
    then have "bit (tk_state t) 8 \<or> 0 < tally acknowledging pcs" using I(2) True by simp
    then show ?thesis
      using zero_move [OF assms(3) ct(3)] tally_pos_update [OF _ assms(2), of acknowledging pc'] tally_here [OF assms(2), of acknowledging pc'] by metis
  next
    case False
    then show ?thesis using zero_move [OF assms(3) ct(3)] that(2) tally_here [OF assms(2), of acknowledging pc'] by metis
  qed
  ultimately show ?thesis unfolding inv_refs_def by simp
qed

lemma inv_ack_move:
  assumes "task_inv t pcs" "i < length pcs" "moves t (pcs ! i) t' pc'"
  shows "inv_ack t' (pcs[i := pc'])" "bit (tk_state t) 0 \<Longrightarrow> bit (tk_state t') 0"
proof -
  note th = inv_thread [OF assms(1,2)] and ct = inv_counts [OF assms(1,2)] and up = tally_update [OF assms(2), of _ pc']
  note cm = completion_move [OF assms(3) th(5) ct(2)]
  show C: "bit (tk_state t) 0 \<Longrightarrow> bit (tk_state t') 0" by (rule cm(1))
  have I: "tally settling pcs + tk_dones t = of_bool (bit (tk_state t) 8)" "bit (tk_state t) 8 \<Longrightarrow> bit (tk_state t) 0"
    "0 < tally after_completion pcs \<Longrightarrow> bit (tk_state t) 0" using assms(1) by (simp_all add: task_inv_def inv_ack_def)
  have "tally settling (pcs[i := pc']) + tk_dones t' = of_bool (bit (tk_state t') 8)"
    using settling_move [OF assms(3)] up [of settling] I(1) by linarith
  moreover have "bit (tk_state t') 8 \<longrightarrow> bit (tk_state t') 0" using cm(3) I(2) C by blast
  moreover have "bit (tk_state t') 0" if "0 < tally after_completion (pcs[i := pc'])"
    using tally_after [OF assms(2) that] cm(2) C I(3) by blast
  ultimately show "inv_ack t' (pcs[i := pc'])" unfolding inv_ack_def by blast
qed

lemma inv_wanted_move:
  assumes "task_inv t pcs" "i < length pcs" "moves t (pcs ! i) t' pc'"
  shows "inv_wanted t' (pcs[i := pc'])"
proof -
  note th = inv_thread [OF assms(1,2)] and ct = inv_counts [OF assms(1,2)] and up = tally_update [OF assms(2), of _ pc']
  have I: "tk_wanted t \<Longrightarrow> on_its_way t \<or> 0 < tally seeking pcs" "0 < tally refusing pcs \<Longrightarrow> tk_refused t"
    using assms(1) by (simp_all add: task_inv_def inv_wanted_def)
  have "on_its_way t' \<or> 0 < tally seeking (pcs[i := pc'])" if w: "tk_wanted t'"
    using wanted_move [OF assms(3) w th(6,5,9,3) ct(2) th(1)] I(1) tally_here [OF assms(2), of seeking pc']
      tally_pos_update [OF _ assms(2), of seeking pc'] by metis
  moreover have "tk_refused t'" if "0 < tally refusing (pcs[i := pc'])"
    using tally_after [OF assms(2) that] refusing_move [OF assms(3) th(6)] I(2) by blast
  ultimately show ?thesis unfolding inv_wanted_def by blast
qed

lemma dropping_move:
  assumes "moves t pc t' pc'"
  shows "0 < dropping pc' \<Longrightarrow> 0 < dropping pc \<or> 0 < tk_dones t"
  using assms
proof (cases rule: moves_cases)
  case (step ch)
  then show "0 < dropping pc' \<Longrightarrow> ?thesis" by (cases pc rule: place_cases) (auto simp: step_defs place_simps Let_def split: move_splits)
next
  case (start call)
  then show "0 < dropping pc' \<Longrightarrow> ?thesis" by (cases call) (auto simp: place_simps call_ok_def)
qed

lemma inv_token_move:
  assumes "task_inv t pcs" "i < length pcs" "moves t (pcs ! i) t' pc'"
  shows "inv_token t' (pcs[i := pc'])"
proof -
  note th = inv_thread [OF assms(1,2)] and ct = inv_counts [OF assms(1,2)] and up = tally_update [OF assms(2), of _ pc']
  have I: "unat (tk_token t) div 2 = tally guarded pcs"
    "even (unat (tk_token t)) \<or> tk_made t \<and> \<not> tk_header t \<or> 0 < tally dropping pcs \<Longrightarrow> bit (tk_state t) 0"
    "0 < tally waking pcs \<Longrightarrow> tk_made t" "tk_freed t \<or> 0 < tally releasing pcs \<Longrightarrow> tk_token t = 0"
    "0 < tk_dones t \<Longrightarrow> bit (tk_state t) 0"
    using assms(1) by (auto simp: task_inv_def inv_token_def inv_ack_def)
  note tk = token_kept [OF assms(3)] and tp = token_parity [OF assms(3) th(8) ct(4) th(1)] and C = inv_ack_move(2) [OF assms]
  note ge = tally_ge [OF assms(2)]
  have drop: "releasing pc \<le> dropping pc" for pc :: "'a task_pc" by (cases pc rule: place_cases) (simp_all add: place_simps)
  have "unat (tk_token t') div 2 = tally guarded (pcs[i := pc'])"
    using token_move [OF assms(3) th(8) ct(4)] I(1) up [of guarded] by linarith
  moreover have "bit (tk_state t') 0" if "0 < tally dropping (pcs[i := pc'])"
    using tally_after [OF assms(2) that] dropping_move [OF assms(3)] I(2,5) th(10) C by blast
  moreover have "bit (tk_state t') 0" if "even (unat (tk_token t'))"
    using tp that I(2) C th(10) by (auto simp: dropping_def)
  moreover have "bit (tk_state t') 0" if "tk_made t' \<and> \<not> tk_header t'"
    using tk that I(2) C th(10) drop [of "pcs ! i"] by (meson le_zero_eq less_le_trans)
  moreover have "tk_made t'" if "0 < tally waking (pcs[i := pc'])"
    using tally_after [OF assms(2) that] tk I(3) ge [of waking] by (meson less_le_trans)
  moreover have "tk_token t' = 0" if "tk_freed t' \<or> 0 < tally releasing (pcs[i := pc'])"
    using that tally_after [OF assms(2), of releasing pc'] tk tp I(4) ge [of releasing] by (meson less_le_trans)
  ultimately show ?thesis unfolding inv_token_def by blast
qed

lemma inv_join_move:
  assumes "task_inv t pcs" "i < length pcs" "moves t (pcs ! i) t' pc'"
  shows "inv_join t' (pcs[i := pc'])"
proof -
  note th = inv_thread [OF assms(1,2)] and up = tally_update [OF assms(2), of _ pc'] and C = inv_ack_move(2) [OF assms]
  note here = tally_here [OF assms(2), of _ pc'] and after = tally_after [OF assms(2), of _ pc'] and stay = tally_pos_update [OF _ assms(2), of _ pc']
  have I: "tally locking pcs = of_bool (tk_locked t)" "tk_wakers t \<noteq> [] \<Longrightarrow> \<not> bit (tk_state t) 0 \<or> 0 < tally draining pcs"
    "0 < tally pushing pcs \<Longrightarrow> \<not> bit (tk_state t) 0 \<or> 0 < tally locks_later pcs"
    "w \<in> set (tk_joined t) \<Longrightarrow> served t w \<or> 0 < tally (joining w) pcs" for w
    using assms(1) by (auto simp: task_inv_def inv_join_def)
  note wm = waiters_move [OF assms(3) th(1)]
  have later: "0 < locks_later pc \<Longrightarrow> 0 < draining pc" "\<not> (0 < locks_later pc \<and> 0 < pushing pc)"
    "pushing pc \<le> locking pc" "locks_later pc \<le> draining pc" for pc :: "'a task_pc"
    by (cases pc rule: place_cases; simp add: place_simps)+
  have locked: "tk_locked t" if "0 < tally pushing pcs"
  proof -
    have "tally pushing pcs \<le> tally locking pcs" by (rule tally_le) (rule later(3))
    then show ?thesis using that I(1) by (cases "tk_locked t") auto
  qed
  have "tally locking (pcs[i := pc']) = of_bool (tk_locked t')"
    using lock_move [OF assms(3) th(7)] I(1) up [of locking] by linarith
  moreover have "0 < tally draining (pcs[i := pc'])" if "tk_wakers t' \<noteq> []" "bit (tk_state t') 0"
  proof (cases "bit (tk_state t) 0 \<and> tk_wakers t = []")
    case True
    then have "0 < tally locks_later pcs" "0 < pushing (pcs ! i)" using wm that(1) I(3) tally_ge [OF assms(2), of pushing] by auto
    then have "0 < tally locks_later (pcs[i := pc'])" using stay [of locks_later] later(2) by blast
    moreover have "tally locks_later (pcs[i := pc']) \<le> tally draining (pcs[i := pc'])" by (rule tally_le) (rule later(4))
    ultimately show ?thesis by linarith
  next
    case False
    then show ?thesis using wm that I(2) stay [of draining] here [of draining] later(1) by metis
  qed
  moreover have "0 < tally locks_later (pcs[i := pc'])" if "0 < tally pushing (pcs[i := pc'])" "bit (tk_state t') 0"
    using wm that after [of pushing] I(3) locked stay [of locks_later] here [of locks_later] by metis
  moreover have "served t' w \<or> 0 < tally (joining w) (pcs[i := pc'])" if "w \<in> set (tk_joined t')" for w
    using served_move [OF assms(3) th(1), of w] that I(4) [of w] stay [of "joining w"] here [of "joining w"] by metis
  ultimately show ?thesis unfolding inv_join_def by simp
qed

subsection \<open>The result\<close>

lemma writing_running: "writing pc \<le> running pc" "result_set pc \<le> writing pc" "result_published pc \<le> writing pc"
  by (cases pc rule: place_cases; simp add: place_simps)+

text \<open>A thread that runs the task is the only one.\<close>

lemma sole_runner:
  assumes "task_inv t pcs" "i < length pcs" "0 < running (pcs ! i)"
  shows "tally result_set pcs = result_set (pcs ! i)" "tally result_published pcs = result_published (pcs ! i)" "\<not> bit (tk_state t) 0"
proof -
  have le: "tally running pcs \<le> 1" "\<not> bit (tk_state t) 0"
    using assms tally_ge [OF assms(2), of running] by (auto simp: task_inv_def inv_run_def of_bool_def split: if_splits)
  have ge: "unwritten (pcs ! i) \<le> tally unwritten pcs" "result_set (pcs ! i) \<le> tally result_set pcs" "result_published (pcs ! i) \<le> tally result_published pcs"
    by (rule tally_ge [OF assms(2)])+
  have "unwritten (pcs ! i) + result_set (pcs ! i) + result_published (pcs ! i) = 1"
    using assms(3) by (cases "pcs ! i" rule: place_cases) (simp_all add: place_simps)
  then show "tally result_set pcs = result_set (pcs ! i)" "tally result_published pcs = result_published (pcs ! i)" "\<not> bit (tk_state t) 0"
    using le ge running_split [of pcs] by linarith+
qed

lemma inv_result_kept:
  assumes "task_inv t pcs" "i < length pcs" "moves t (pcs ! i) t' pc'" "writing (pcs ! i) = 0"
  shows "inv_result t' (pcs[i := pc'])"
proof -
  note up = tally_update [OF assms(2), of _ pc'] and ge = tally_ge [OF assms(2)]
  have kept: "tally result_set (pcs[i := pc']) = tally result_set pcs" "tally result_published (pcs[i := pc']) = tally result_published pcs"
    using result_kept [OF assms(3,4)] writing_running(2,3) [of "pcs ! i"] assms(4) up [of result_set] up [of result_published] by simp_all
  have I: "inv_result t pcs" using assms(1) by (simp add: task_inv_def)
  then have T: "tally taking pcs + length (tk_taken t) = of_bool (tk_status t = 2)" "0 < tally taking pcs \<Longrightarrow> tk_result t = tk_outcome t"
    "tk_taken t \<noteq> [] \<Longrightarrow> tk_taken t = [tk_outcome t]" by (simp_all add: inv_result_def)
  note rk = result_kept [OF assms(3,4)]
  show ?thesis
  proof (cases "0 < taking (pcs ! i)")
    case True
    then have one: "taking (pcs ! i) = 1" "pcs ! i \<noteq> (Handling TakeCas)" by (cases "pcs ! i" rule: place_cases; simp add: place_simps)+
    then have "tk_status t = 2" using T(1) ge [of taking] by (cases "tk_status t = 2") auto
    moreover from this have sum: "tally taking pcs + length (tk_taken t) = 1" using T(1) by simp
    then have "tally taking pcs = 1" using ge [of taking] one(1) by linarith
    moreover from this have "tk_taken t = []" using sum by simp
    ultimately show ?thesis using I T rk kept one up [of taking] unfolding inv_result_def by (auto split: if_splits)
  next
    case False
    show ?thesis
    proof (cases "pcs ! i = Handling TakeCas \<and> tk_status t = 1")
      case True
      then have "tk_result t = tk_outcome t" "tally taking pcs = 0" using I T(1) by (auto simp: inv_result_def split: if_splits)
      then show ?thesis using I T rk kept True False up [of taking] unfolding inv_result_def by (auto split: if_splits)
    next
      case no: False
      then show ?thesis using I T rk kept False up [of taking] unfolding inv_result_def by (auto split: if_splits)
    qed
  qed
qed

lemma writing_places: "0 < writing pc \<Longrightarrow> (\<exists>r. pc = Finishing (SetResult r)) \<or> pc = Finishing SetStatus \<or> pc = Finishing DropFuture \<or> pc = Finishing FinishMark"
  by (cases pc rule: place_cases) (simp_all add: writing_def)

lemma writing_step:
  assumes "task_step ch (Finishing p) t = (t', pc')"
  shows "p = SetResult r \<Longrightarrow> t' = t\<lparr>tk_result := Some r, tk_outcome := Some r\<rparr> \<and> pc' = Finishing SetStatus"
    "p = SetStatus \<Longrightarrow> t' = t\<lparr>tk_status := 1\<rparr> \<and> pc' = Finishing DropFuture"
    "p = DropFuture \<Longrightarrow> t' = t\<lparr>tk_future := False\<rparr> \<and> pc' = Finishing FinishMark"
    "p = FinishMark \<Longrightarrow> \<not> bit (tk_state t) 0 \<Longrightarrow> t' = t\<lparr>tk_state := tk_state t OR (STATE_READY OR STATE_COMPLETED)\<rparr> \<and> pc' = Finishing FinishLock"
  using assms by (simp_all add: set_result_def set_status_def drop_future_def finish_mark_def STATUS_DONE_def flag_simps)

lemma inv_result_written:
  assumes "task_inv t pcs" "i < length pcs" "moves t (pcs ! i) t' pc'" "0 < writing (pcs ! i)"
  shows "inv_result t' (pcs[i := pc'])"
proof -
  obtain ch where step: "task_step ch (pcs ! i) t = (t', pc')" and tk: "taking (pcs ! i) = 0" "taking pc' = 0" "tk_taken t' = tk_taken t"
    using result_written [OF assms(3,4)] by blast
  have I: "inv_result t pcs" and r: "0 < running (pcs ! i)" using assms(1,4) writing_running(1) [of "pcs ! i"] by (simp_all add: task_inv_def)
  note sr = sole_runner [OF assms(1,2) r] and up = tally_update [OF assms(2), of _ pc']
  define a b where "a = result_set (pcs ! i)" and "b = result_published (pcs ! i)"
  have old: "tally result_set pcs = a" "tally result_published pcs = b" "\<not> bit (tk_state t) 0" using sr by (simp_all add: a_def b_def)
  have new: "tally result_set (pcs[i := pc']) = result_set pc'" "tally result_published (pcs[i := pc']) = result_published pc'"
    "tally taking (pcs[i := pc']) = tally taking pcs" using up [of result_set] up [of result_published] up [of taking] sr tk by linarith+
  note facts = I [unfolded inv_result_def old]
  obtain p where p: "pcs ! i = Finishing p" "(\<exists>r. p = SetResult r) \<or> p = SetStatus \<or> p = DropFuture \<or> p = FinishMark"
    using writing_places [OF assms(4)] by blast
  note ws = writing_step [OF step [unfolded p(1)]]
  consider (res) r where "p = SetResult r" | (sta) "p = SetStatus" | (dro) "p = DropFuture" | (fin) "p = FinishMark" using p(2) by blast
  then show ?thesis
  proof cases
    case res
    then have "a = 0" "b = 0" using p(1) by (simp_all add: a_def b_def place_simps)
    then show ?thesis using facts ws(1) [OF res] old(3) unfolding inv_result_def new by (auto simp: place_simps)
  next
    case sta
    then have "a = 1" "b = 0" using p(1) by (simp_all add: a_def b_def place_simps)
    then show ?thesis using facts ws(2) [OF sta] old(3) unfolding inv_result_def new by (simp add: place_simps)
  next
    case dro
    then have "a = 0" "b = 1" using p(1) by (simp_all add: a_def b_def place_simps)
    then show ?thesis using facts ws(3) [OF dro] old(3) unfolding inv_result_def new by (simp add: place_simps)
  next
    case fin
    then have "a = 0" "b = 1" using p(1) by (simp_all add: a_def b_def place_simps)
    then show ?thesis using facts ws(4) [OF fin old(3)] unfolding inv_result_def new by (simp add: place_simps flag_simps)
  qed
qed

lemma task_inv_move:
  assumes "task_inv t pcs" "i < length pcs" "moves t (pcs ! i) t' pc'"
  shows "task_inv t' (pcs[i := pc'])"
proof -
  note th = inv_thread [OF assms(1,2)]
  have fut: "0 < running (pcs ! i) \<longrightarrow> result_set (pcs ! i) = 0 \<longrightarrow> result_published (pcs ! i) = 0 \<longrightarrow> tk_status t = 0 \<and> tk_future t"
    using sole_runner [OF assms(1,2)] assms(1) by (auto simp: task_inv_def inv_result_def)
  note mp = move_places [OF assms(3) th(1) fut]
  have mono: "place_ok l pc \<Longrightarrow> set l \<subseteq> set l' \<Longrightarrow> place_ok l' pc" for l l' and pc :: "'a task_pc"
    by (cases pc rule: place_cases) (auto simp: place_ok_def)
  have "\<forall>pc \<in> set (pcs[i := pc']). place_ok (tk_left t') pc"
    using mp mono assms(1) set_update_subset_insert [of pcs i pc'] unfolding task_inv_def by blast
  moreover have "inv_result t' (pcs[i := pc'])"
    using inv_result_kept [OF assms] inv_result_written [OF assms] by blast
  ultimately show ?thesis using assms(1) inv_run_move [OF assms] inv_refs_move [OF assms] inv_ack_move(1) [OF assms] inv_wanted_move [OF assms]
      inv_token_move [OF assms] inv_join_move [OF assms] unfolding task_inv_def by simp
qed

lemma task_inv_ub: "task_inv (t\<lparr>tk_ub := b\<rparr>) pcs \<longleftrightarrow> task_inv t pcs"
  by (simp add: task_inv_def inv_run_def inv_refs_def inv_ack_def inv_wanted_def on_its_way_def inv_token_def inv_join_def served_def inv_result_def)

text \<open>An event of a schedule is a move of one thread, up to the mark of an access to released memory.\<close>

lemma event_moves:
  assumes "legal_task_event e s"
  obtains i b t' pc' where "i < length (ts_pcs s)" "moves ((ts_task s)\<lparr>tk_ub := b\<rparr>) (ts_pcs s ! i) t' pc'"
    "run_task_event e s = s\<lparr>ts_task := t', ts_pcs := (ts_pcs s)[i := pc']\<rparr>"
proof (cases e)
  case (TaskBegin i call)
  obtain t' pc' where b: "begin_call call (ts_task s) = (t', pc')" by fastforce
  have "call_ok call (ts_task s)" using assms TaskBegin by (cases call) (auto simp: call_ok_def)
  then have "moves ((ts_task s)\<lparr>tk_ub := tk_ub (ts_task s)\<rparr>) (ts_pcs s ! i) t' pc'" using b assms TaskBegin by (auto simp: moves_def)
  then show ?thesis by (rule that [rotated]) (use assms TaskBegin b in \<open>simp_all add: run_task_event_def\<close>)
next
  case (TaskStep i ch)
  define b where "b = (touches (ts_pcs s ! i) \<and> tk_freed (ts_task s) \<or> tk_ub (ts_task s))"
  obtain t' pc' where st: "task_step ch (ts_pcs s ! i) ((ts_task s)\<lparr>tk_ub := b\<rparr>) = (t', pc')" by fastforce
  have "(if touches (ts_pcs s ! i) \<and> tk_freed (ts_task s) then (ts_task s)\<lparr>tk_ub := True\<rparr> else ts_task s) = (ts_task s)\<lparr>tk_ub := b\<rparr>"
    unfolding b_def by (cases "touches (ts_pcs s ! i)"; cases "tk_freed (ts_task s)") simp_all
  then show ?thesis using st assms TaskStep by (intro that [of i b t' pc']) (auto simp: moves_def run_task_event_def)
qed

lemma task_event_inv:
  assumes "task_inv (ts_task s) (ts_pcs s)" "legal_task_event e s"
  shows "task_inv (ts_task (run_task_event e s)) (ts_pcs (run_task_event e s))"
proof -
  obtain i b t' pc' where "i < length (ts_pcs s)" "moves ((ts_task s)\<lparr>tk_ub := b\<rparr>) (ts_pcs s ! i) t' pc'"
    "run_task_event e s = s\<lparr>ts_task := t', ts_pcs := (ts_pcs s)[i := pc']\<rparr>" by (rule event_moves [OF assms(2)])
  then show ?thesis using task_inv_move [of "(ts_task s)\<lparr>tk_ub := b\<rparr>" "ts_pcs s"] assms(1) by (simp add: task_inv_ub)
qed

lemma task_schedule_inv:
  "task_inv (ts_task s) (ts_pcs s) \<Longrightarrow> legal_task_schedule es s
   \<Longrightarrow> task_inv (ts_task (run_task_schedule es s)) (ts_pcs (run_task_schedule es s))"
proof (induction es arbitrary: s)
  case (Cons e es)
  then show ?case using task_event_inv [of s e] by (simp add: run_task_schedule_def)
qed (simp add: run_task_schedule_def)

lemma tally_idle: "f TaskIdle = 0 \<Longrightarrow> tally f (replicate n TaskIdle) = 0"
  by (induction n) (simp_all add: tally_def)

lemma bit_obligated: "bit STATE_SCOPE_OBLIGATED n \<longleftrightarrow> n = 7"
  unfolding state_flags by (simp add: flag_simps)

lemma task_new_inv: "n < 2 ^ 30 \<Longrightarrow> task_inv (ts_task (task_system_new pinned n)) (ts_pcs (task_system_new pinned n))"
  by (auto simp: task_inv_def inv_run_def inv_refs_def inv_ack_def inv_wanted_def inv_token_def inv_join_def inv_result_def
    task_system_new_def task_new_def tally_idle place_simps flag_simps bit_obligated WAKE_TOKEN_ALIVE_def STATUS_RUNNING_def)

lemmas task_reached_inv = task_schedule_inv [OF task_new_inv]

end
