(* ===== verification/Task_Props.thy ===== *)
theory Task_Props
  imports Task_Inv
begin

unbundle bit_operations_syntax

text \<open>
  What follows for the tasks of the runtime: a future is polled by one thread at a time, a wake-up is not
  lost, the scope is told once, waiters are woken, the result is handed out once; and the schedules in
  which the memory of a task is used after its owner has released it, or its scope waits for ever.
\<close>

subsection \<open>Tasks that are not pinned\<close>

definition pinned_place :: "'r task_pc \<Rightarrow> bool" where
  "pinned_place pc = (case pc of Enqueueing (EnqueueCompleted _ p) \<Rightarrow> p | Enqueueing (EnqueueAcked _) \<Rightarrow> True | Enqueueing (MarkLoad _ p) \<Rightarrow> p | Enqueueing (MarkCas _ p _) \<Rightarrow> p | Enqueueing (MarkRef _ p) \<Rightarrow> p
     | Enqueueing (EnqueuePush _ p) \<Rightarrow> p | _ \<Rightarrow> False)"

lemma unpinned_move:
  assumes "moves t pc t' pc'" "\<not> bit (tk_state t) 6" "\<not> pinned_place pc" "\<not> tk_refused t" "place_ok l pc"
  shows "\<not> bit (tk_state t') 6 \<and> \<not> pinned_place pc' \<and> \<not> tk_refused t'"
  using assms(1)
proof (cases rule: moves_cases)
  case (step ch)
  then show ?thesis using assms(2-4) by (cases pc rule: place_cases) (auto simp: step_defs flag_simps pinned_place_def Let_def split: move_splits)
next
  case (start call)
  then show ?thesis using assms(2-4) by (cases call) (auto simp: pinned_place_def flag_simps)
qed

definition unpinned :: "'r task_system \<Rightarrow> bool" where
  "unpinned s \<longleftrightarrow> \<not> bit (tk_state (ts_task s)) 6 \<and> \<not> tk_refused (ts_task s) \<and> (\<forall>pc \<in> set (ts_pcs s). \<not> pinned_place pc)"

lemma unpinned_schedule:
  "unpinned s \<Longrightarrow> task_inv (ts_task s) (ts_pcs s) \<Longrightarrow> legal_task_schedule es s \<Longrightarrow> unpinned (run_task_schedule es s)"
proof (induction es arbitrary: s)
  case (Cons e es)
  have leg: "legal_task_event e s" using Cons.prems(3) by simp
  obtain i b t' pc' where m: "i < length (ts_pcs s)" "moves ((ts_task s)\<lparr>tk_ub := b\<rparr>) (ts_pcs s ! i) t' pc'"
    "run_task_event e s = s\<lparr>ts_task := t', ts_pcs := (ts_pcs s)[i := pc']\<rparr>" by (rule event_moves [OF leg])
  have "\<not> bit (tk_state t') 6 \<and> \<not> pinned_place pc' \<and> \<not> tk_refused t'"
    by (rule unpinned_move [OF m(2) _ _ _ inv_thread(1) [OF Cons.prems(2) m(1)]]) (use Cons.prems(1) m(1) in \<open>auto simp: unpinned_def\<close>)
  then have "unpinned (run_task_event e s)" using Cons.prems(1) set_update_subset_insert [of "ts_pcs s" i pc'] unfolding m(3) unpinned_def by auto
  then show ?case using Cons.IH task_event_inv [OF Cons.prems(2) leg] Cons.prems(3) by (simp add: run_task_schedule_def)
qed (simp add: run_task_schedule_def)

lemma unpinned_new: "unpinned (task_system_new False n)"
  by (auto simp: unpinned_def task_system_new_def task_new_def pinned_place_def flag_simps bit_obligated)

subsection \<open>Properties\<close>

definition task_completed :: "'r task \<Rightarrow> bool" where
  "task_completed t \<longleftrightarrow> has (tk_state t) STATE_COMPLETED"

definition polls_future :: "'r task_pc \<Rightarrow> bool" where
  "polls_future pc = (case pc of Running (RunPoll _) \<Rightarrow> True | _ \<Rightarrow> False)"

text \<open>All calls have returned and the task is in no queue.\<close>

definition at_rest :: "'r task_system \<Rightarrow> bool" where
  "at_rest s \<longleftrightarrow> list_all (\<lambda>pc. case pc of TaskIdle \<Rightarrow> True | _ \<Rightarrow> False) (ts_pcs s) \<and> tk_queue (ts_task s) = 0"

lemma at_rest_idle: "at_rest s \<Longrightarrow> pc \<in> set (ts_pcs s) \<Longrightarrow> pc = TaskIdle"
  unfolding at_rest_def list_all_iff by (cases pc rule: place_cases) force+

lemma at_rest_tally: "at_rest s \<Longrightarrow> f TaskIdle = 0 \<Longrightarrow> tally f (ts_pcs s) = 0"
  unfolding tally_zero using at_rest_idle by fastforce

lemma at_rest_tallies:
  assumes "at_rest s"
  shows "tally holds_queued (ts_pcs s) = 0" "tally polling (ts_pcs s) = 0" "tally uncounted (ts_pcs s) = 0" "tally finishing (ts_pcs s) = 0"
    "tally surplus (ts_pcs s) = 0" "tally acknowledging (ts_pcs s) = 0" "tally settling (ts_pcs s) = 0" "tally seeking (ts_pcs s) = 0"
    "tally draining (ts_pcs s) = 0" "tally (joining w) (ts_pcs s) = 0" "tally taking (ts_pcs s) = 0" "tk_queue (ts_task s) = 0"
  by (rule at_rest_tally [OF assms], simp add: place_simps)+ (use assms in \<open>simp add: at_rest_def\<close>)

lemma task_completed_bit: "task_completed t \<longleftrightarrow> bit (tk_state t) 0"
  by (simp add: task_completed_def flag_simps)

lemma polls_running: "length (filter polls_future pcs) \<le> tally running pcs"
proof (induction pcs)
  case (Cons pc pcs)
  have "polls_future pc \<Longrightarrow> running pc = 1" by (cases pc rule: place_cases) (simp_all add: polls_future_def running_def)
  then show ?case using Cons.IH by (auto simp: tally_def)
qed simp

text \<open>C17. In every legal schedule of fewer than \<open>2 ^ 30\<close> threads that spawn, wake, run, join, cancel and drop
  a task, its future is polled by at most one thread at a time, and only while it is there, its task is
  not completed and its result not written. (Legal: the task is spawned at most once; it is woken through
  a waker that a poll has made; a worker takes it from a queue; a waiter joins once; the owner drops it
  once, after the scope was told, and calls through its handle come before that. The same in the
  following properties.)\<close>

theorem task_runs_exclusively:
  assumes "n < 2 ^ 30" "legal_task_schedule es (task_system_new pinned n)" "s = run_task_schedule es (task_system_new pinned n)"
  shows "length (filter polls_future (ts_pcs s)) \<le> 1
     \<and> (\<forall>pc \<in> set (ts_pcs s). polls_future pc \<longrightarrow> pc = Running (RunPoll True) \<and> tk_future (ts_task s) \<and> tk_outcome (ts_task s) = None
          \<and> \<not> task_completed (ts_task s))"
proof -
  have inv: "task_inv (ts_task s) (ts_pcs s)" using task_reached_inv [OF assms(1,2)] assms(3) by simp
  then have "tally running (ts_pcs s) \<le> 1" by (simp add: task_inv_def inv_run_def)
  then have "length (filter polls_future (ts_pcs s)) \<le> 1" using polls_running [of "ts_pcs s"] by linarith
  moreover have "pc = Running (RunPoll True) \<and> tk_future (ts_task s) \<and> tk_outcome (ts_task s) = None \<and> \<not> task_completed (ts_task s)"
    if pc: "pc \<in> set (ts_pcs s)" "polls_future pc" for pc
  proof -
    obtain i where i: "i < length (ts_pcs s)" "pc = ts_pcs s ! i" using pc(1) by (auto simp: in_set_conv_nth)
    obtain b where b: "ts_pcs s ! i = Running (RunPoll b)" using pc(2) unfolding i(2) by (cases "ts_pcs s ! i" rule: place_cases) (simp_all add: polls_future_def)
    then have r: "0 < running (ts_pcs s ! i)" "result_set (ts_pcs s ! i) = 0" "result_published (ts_pcs s ! i) = 0" by (simp_all add: place_simps)
    have "b" using inv_thread(1) [OF inv i(1)] b by (simp add: place_simps)
    then show ?thesis using sole_runner [OF inv i(1) r(1)] r inv b i(2) by (simp add: task_completed_bit task_inv_def inv_result_def)
  qed
  ultimately show ?thesis by blast
qed

text \<open>C18. A wake-up of a task is not lost, in any legal schedule. When all calls have returned and the task is in no queue, and
  it was spawned or woken after its future was last polled, then it is completed, unless it is pinned
  and the queue of its worker refused it.\<close>

theorem task_wake_not_lost:
  assumes "n < 2 ^ 30" "legal_task_schedule es (task_system_new pinned n)" "s = run_task_schedule es (task_system_new pinned n)"
    "at_rest s" "tk_wanted (ts_task s)"
  shows "task_completed (ts_task s) \<or> pinned \<and> tk_refused (ts_task s)"
proof -
  have inv: "task_inv (ts_task s) (ts_pcs s)" using task_reached_inv [OF assms(1,2)] assms(3) by simp
  note rest = at_rest_tallies [OF assms(4)]
  have "on_its_way (ts_task s)" using inv assms(5) rest by (simp add: task_inv_def inv_wanted_def)
  moreover have "\<not> bit (tk_state (ts_task s)) 1" "\<not> bit (tk_state (ts_task s)) 4"
    using inv rest(1,2,12) by (auto simp: task_inv_def inv_run_def)
  moreover have "\<not> tk_refused (ts_task s)" if "\<not> pinned"
    using unpinned_schedule [OF unpinned_new task_new_inv [OF assms(1)], of es] assms(2,3) that by (simp add: unpinned_def)
  ultimately show ?thesis unfolding on_its_way_def task_completed_bit by blast
qed

text \<open>C19. In every legal schedule the scope of a task is told that it is done at most once and only when it is completed; and when
  a completed task is at rest the scope has been told, so that it does not wait for ever.\<close>

theorem scope_told_once:
  assumes "n < 2 ^ 30" "legal_task_schedule es (task_system_new pinned n)" "s = run_task_schedule es (task_system_new pinned n)"
  shows "tk_dones (ts_task s) \<le> 1 \<and> (0 < tk_dones (ts_task s) \<longrightarrow> task_completed (ts_task s))
     \<and> (at_rest s \<and> task_completed (ts_task s) \<longrightarrow> tk_dones (ts_task s) = 1)"
proof -
  have inv: "task_inv (ts_task s) (ts_pcs s)" using task_reached_inv [OF assms(1,2)] assms(3) by simp
  then have ack: "tally settling (ts_pcs s) + tk_dones (ts_task s) = of_bool (bit (tk_state (ts_task s)) 8)"
    "bit (tk_state (ts_task s)) 8 \<Longrightarrow> bit (tk_state (ts_task s)) 0" by (simp_all add: task_inv_def inv_ack_def)
  have "tk_dones (ts_task s) = 1" if r: "at_rest s" "bit (tk_state (ts_task s)) 0"
  proof -
    note rest = at_rest_tallies [OF r(1)]
    have "tally uncounted (ts_pcs s) = 0" "\<not> bit (tk_state (ts_task s)) 1" using rest(1,3,12) inv by (auto simp: task_inv_def inv_run_def)
    then have "unat (tk_ref_count (ts_task s)) = 0" using inv rest r(2) by (simp add: task_inv_def inv_refs_def)
    then have "bit (tk_state (ts_task s)) 8" using inv rest r(2) by (simp add: task_inv_def inv_refs_def unat_eq_0)
    then show ?thesis using ack(1) rest by simp
  qed
  moreover have "tk_dones (ts_task s) \<le> 1" "0 < tk_dones (ts_task s) \<Longrightarrow> bit (tk_state (ts_task s)) 0"
    using ack by (cases "bit (tk_state (ts_task s)) 8"; simp)+
  ultimately show ?thesis unfolding task_completed_bit by blast
qed

text \<open>C20. In every legal schedule, once the memory of a task is released no thread is waking it: the token lets no thread pass, and
  none that passed is left. So a waker that outlives its task is harmless.\<close>

theorem wake_token_guards_header:
  assumes "n < 2 ^ 30" "legal_task_schedule es (task_system_new pinned n)" "s = run_task_schedule es (task_system_new pinned n)"
    "tk_freed (ts_task s)"
  shows "tk_token (ts_task s) = 0 \<and> (\<forall>pc \<in> set (ts_pcs s). guarded pc = 0) \<and> try_acquire_load (ts_task s) = (ts_task s, TaskIdle)"
proof -
  have inv: "task_inv (ts_task s) (ts_pcs s)" using task_reached_inv [OF assms(1,2)] assms(3) by simp
  then have tok: "tk_token (ts_task s) = 0" "unat (tk_token (ts_task s)) div 2 = tally guarded (ts_pcs s)"
    using assms(4) unfolding task_inv_def inv_token_def by blast+
  then have "tally guarded (ts_pcs s) = 0" by simp
  then show ?thesis using tok(1) using tally_zero [of guarded "ts_pcs s"] by (auto simp: try_acquire_load_def acquire_next_def)
qed

text \<open>C22. No waiter is forgotten in a legal schedule: when all calls have returned and the task is completed, everyone who
  registered for its completion has been woken or has left.\<close>

theorem join_waiters_woken:
  assumes "n < 2 ^ 30" "legal_task_schedule es (task_system_new pinned n)" "s = run_task_schedule es (task_system_new pinned n)"
    "at_rest s" "task_completed (ts_task s)"
  shows "\<forall>w \<in> set (tk_joined (ts_task s)). w \<in> set (tk_woken (ts_task s)) \<or> w \<in> set (tk_left (ts_task s))"
proof -
  have inv: "task_inv (ts_task s) (ts_pcs s)" using task_reached_inv [OF assms(1,2)] assms(3) by simp
  note rest = at_rest_tallies [OF assms(4)]
  have "tk_wakers (ts_task s) = []" using inv assms(5) rest by (auto simp: task_inv_def inv_join_def task_completed_bit)
  then show ?thesis using inv rest by (auto simp: task_inv_def inv_join_def served_def)
qed


subsection \<open>Dropping a task at rest\<close>

text \<open>An owner that waits until the task is at rest before it drops it.\<close>

fun drops_at_rest :: "'r task_event list \<Rightarrow> 'r task_system \<Rightarrow> bool" where
  "drops_at_rest [] s \<longleftrightarrow> True"
| "drops_at_rest (e # es) s \<longleftrightarrow> (case e of TaskBegin _ CallDrop \<Rightarrow> at_rest s | _ \<Rightarrow> True) \<and> drops_at_rest es (run_task_event e s)"

text \<open>Then only wakers and the owner are left, and the wakers hold the guard of the token.\<close>

definition quiet_place :: "'r task_pc \<Rightarrow> bool" where
  "quiet_place pc = (case pc of TaskIdle \<Rightarrow> True | Waking WakeLoad \<Rightarrow> True | Waking (WakeAcquire _) \<Rightarrow> True | Waking WakeAlive \<Rightarrow> True | Waking WakeHeader \<Rightarrow> True | Waking WakeRelease \<Rightarrow> True
     | Enqueueing (EnqueuePinned g) \<Rightarrow> g | Enqueueing (EnqueueCompleted g _) \<Rightarrow> g | Enqueueing (EnqueueAcked g) \<Rightarrow> g | Dropping DropDeactivate \<Rightarrow> True | Dropping DropWait \<Rightarrow> True | Dropping DropClear \<Rightarrow> True | _ \<Rightarrow> False)"

definition quiet :: "'r task_system \<Rightarrow> bool" where
  "quiet s \<longleftrightarrow> \<not> tk_ub (ts_task s) \<and> (tk_freed (ts_task s) \<or> (\<exists>pc \<in> set (ts_pcs s). 0 < dropping pc) \<longrightarrow> tk_dropping (ts_task s))
     \<and> (tk_dropping (ts_task s) \<longrightarrow> (\<forall>pc \<in> set (ts_pcs s). quiet_place pc) \<and> tk_queue (ts_task s) = 0
          \<and> bit (tk_state (ts_task s)) 0 \<and> bit (tk_state (ts_task s)) 8)"

lemma quiet_step:
  assumes "task_step ch pc t = (t', pc')" "quiet_place pc" "bit (tk_state t) 0" "bit (tk_state t) 8"
  shows "quiet_place pc' \<and> tk_queue t' = tk_queue t \<and> tk_state t' = tk_state t"
  using assms by (cases pc rule: place_cases) (auto simp: quiet_place_def step_defs flag_simps split: if_splits)

lemma freed_step:
  assumes "task_step ch pc t = (t', pc')"
  shows "(tk_freed t' \<or> 0 < dropping pc' \<longrightarrow> tk_freed t \<or> 0 < dropping pc) \<and> tk_dropping t' = tk_dropping t \<and> tk_ub t' = tk_ub t"
  using assms by (cases pc rule: place_cases) (auto simp: place_simps step_defs Let_def split: move_splits)

lemma quiet_untouched:
  assumes "task_inv (ts_task s) (ts_pcs s)" "quiet s" "i < length (ts_pcs s)" "tk_freed (ts_task s)"
  shows "\<not> touches (ts_pcs s ! i)"
proof -
  have "tk_token (ts_task s) = 0" "unat (tk_token (ts_task s)) div 2 = tally guarded (ts_pcs s)"
    using assms(1,4) unfolding task_inv_def inv_token_def by blast+
  then have "guarded (ts_pcs s ! i) = 0" using tally_ge [OF assms(3), of guarded] by simp
  moreover have "quiet_place (ts_pcs s ! i)" using assms(2-4) by (simp add: quiet_def)
  ultimately show ?thesis by (cases "ts_pcs s ! i" rule: place_cases) (simp_all add: quiet_place_def guarded_def)
qed

lemma quiet_update:
  assumes "quiet s" "tk_ub t' = tk_ub (ts_task s)" "tk_dropping t' = tk_dropping (ts_task s)"
    "tk_freed t' \<or> 0 < dropping pc' \<Longrightarrow> tk_dropping (ts_task s)"
    "tk_dropping (ts_task s) \<Longrightarrow> quiet_place pc' \<and> tk_queue t' = tk_queue (ts_task s) \<and> tk_state t' = tk_state (ts_task s)"
  shows "quiet (s\<lparr>ts_task := t', ts_pcs := (ts_pcs s)[i := pc']\<rparr>)"
proof -
  note sub = set_update_subset_insert [of "ts_pcs s" i pc']
  have "\<forall>pc \<in> set ((ts_pcs s)[i := pc']). quiet_place pc" if "tk_dropping (ts_task s)"
    using that sub assms(1,5) unfolding quiet_def by blast
  moreover have "tk_dropping (ts_task s)" if "\<exists>pc \<in> set ((ts_pcs s)[i := pc']). 0 < dropping pc"
  proof -
    obtain pc where pc: "pc = pc' \<or> pc \<in> set (ts_pcs s)" "0 < dropping pc" using \<open>\<exists>pc \<in> _. _\<close> sub by auto
    have "0 < dropping p \<Longrightarrow> p \<in> set (ts_pcs s) \<Longrightarrow> tk_dropping (ts_task s)" for p using assms(1) by (auto simp: quiet_def)
    then show ?thesis using pc assms(4) by metis
  qed
  moreover have "\<not> tk_ub t'" "tk_freed t' \<Longrightarrow> tk_dropping (ts_task s)"
    "tk_dropping (ts_task s) \<Longrightarrow> tk_queue t' = 0 \<and> bit (tk_state t') 0 \<and> bit (tk_state t') 8"
    using assms unfolding quiet_def by simp_all
  ultimately show ?thesis unfolding quiet_def using assms(3) by simp
qed

lemma quiet_begin:
  assumes "task_inv (ts_task s) (ts_pcs s)" "quiet s" "legal_task_event (TaskBegin i call) s" "call = CallDrop \<Longrightarrow> at_rest s"
  shows "quiet (run_task_event (TaskBegin i call) s)"
proof -
  obtain t' pc' where b: "begin_call call (ts_task s) = (t', pc')" by fastforce
  then have run: "run_task_event (TaskBegin i call) s = s\<lparr>ts_task := t', ts_pcs := (ts_pcs s)[i := pc']\<rparr>" by (simp add: run_task_event_def)
  have leg: "legal_task_call call s" using assms(3) by simp
  note sub = set_update_subset_insert [of "ts_pcs s" i pc']
  show ?thesis
  proof (cases "call = CallDrop")
    case True
    have "bit (tk_state (ts_task s)) 8" "bit (tk_state (ts_task s)) 0"
      using assms(1) leg True by (auto simp: task_inv_def inv_ack_def of_bool_def split: if_splits)
    moreover have "\<forall>pc \<in> set ((ts_pcs s)[i := pc']). quiet_place pc"
    proof
      fix pc
      assume "pc \<in> set ((ts_pcs s)[i := pc'])"
      then have "pc = Dropping DropDeactivate \<or> pc = TaskIdle" using sub at_rest_idle [OF assms(4) [OF True]] b True by auto
      then show "quiet_place pc" by (auto simp: quiet_place_def)
    qed
    ultimately show ?thesis using b True assms(2) at_rest_tallies(12) [OF assms(4) [OF True]] unfolding run quiet_def by auto
  next
    case False
    have same: "tk_ub t' = tk_ub (ts_task s)" "tk_freed t' = tk_freed (ts_task s)" "tk_dropping t' = tk_dropping (ts_task s)"
      "tk_state t' = tk_state (ts_task s)" "dropping pc' = 0" using b False by (cases call; auto simp: dropping_def)+
    have "quiet_place pc' \<and> tk_queue t' = tk_queue (ts_task s)" if "tk_dropping (ts_task s)"
      using b False leg that assms(2) by (cases call) (auto simp: quiet_place_def quiet_def)
    then show ?thesis unfolding run by (intro quiet_update [OF assms(2)]) (use same assms(2) in \<open>auto simp: quiet_def\<close>)
  qed
qed

lemma quiet_steps:
  assumes "task_inv (ts_task s) (ts_pcs s)" "quiet s" "i < length (ts_pcs s)"
  shows "quiet (run_task_event (TaskStep i ch) s)"
proof -
  obtain t' pc' where st: "task_step ch (ts_pcs s ! i) (ts_task s) = (t', pc')" by fastforce
  have run: "run_task_event (TaskStep i ch) s = s\<lparr>ts_task := t', ts_pcs := (ts_pcs s)[i := pc']\<rparr>"
    using st quiet_untouched [OF assms] by (auto simp: run_task_event_def)
  note fs = freed_step [OF st]
  have "quiet_place pc' \<and> tk_queue t' = tk_queue (ts_task s) \<and> tk_state t' = tk_state (ts_task s)" if "tk_dropping (ts_task s)"
    by (rule quiet_step [OF st]) (use that assms(2,3) in \<open>simp_all add: quiet_def\<close>)
  moreover have "tk_dropping (ts_task s)" if "tk_freed t' \<or> 0 < dropping pc'"
    using fs that assms(2,3) nth_mem [OF assms(3)] unfolding quiet_def by blast
  ultimately show ?thesis unfolding run by (intro quiet_update [OF assms(2)]) (use fs in auto)
qed

lemma quiet_schedule:
  "task_inv (ts_task s) (ts_pcs s) \<Longrightarrow> quiet s \<Longrightarrow> legal_task_schedule es s \<Longrightarrow> drops_at_rest es s \<Longrightarrow> quiet (run_task_schedule es s)"
proof (induction es arbitrary: s)
  case (Cons e es)
  have "quiet (run_task_event e s)"
  proof (cases e)
    case (TaskBegin i call)
    then show ?thesis using quiet_begin [of s i call] Cons.prems by (auto split: task_call.splits)
  next
    case (TaskStep i ch)
    then show ?thesis using quiet_steps [of s i ch] Cons.prems by simp
  qed
  then show ?case using Cons.IH task_event_inv [of s e] Cons.prems by (simp add: run_task_schedule_def)
qed (simp add: run_task_schedule_def)

lemma quiet_new: "quiet (task_system_new pinned n)"
  by (auto simp: quiet_def task_system_new_def task_new_def place_simps)

text \<open>C21. In every legal schedule in which the owner drops the task only at rest, no thread accesses its memory after it was released,
  however many wakers are left and whenever they are used.\<close>

theorem drop_at_rest_is_safe:
  assumes "n < 2 ^ 30" "legal_task_schedule es (task_system_new pinned n)" "drops_at_rest es (task_system_new pinned n)"
  shows "\<not> tk_ub (ts_task (run_task_schedule es (task_system_new pinned n)))"
  using quiet_schedule [OF task_new_inv [OF assms(1)] quiet_new assms(2,3)] by (simp add: quiet_def)

subsection \<open>Schedules\<close>

text \<open>A future that is ready at its first poll with the value 7, and one that is still pending while the
  bounded queues are full; four threads: the owner, two workers and one that wakes.\<close>

definition prompt :: "nat choice" where
  "prompt = \<lparr>ch_spurious = False, ch_full = False, ch_scope_cancelled = False, ch_outcome = FutureReady 7\<rparr>"

definition crowded :: "nat choice" where
  "crowded = \<lparr>ch_spurious = False, ch_full = True, ch_scope_cancelled = False, ch_outcome = FuturePending\<rparr>"

definition steps :: "nat \<Rightarrow> nat \<Rightarrow> nat task_event list" where
  "steps k i = replicate k (TaskStep i prompt)"

text \<open>The owner spawns the task and a worker begins to poll its future; then it completes it.\<close>

definition poll_begun :: "nat task_event list" where
  "poll_begun = TaskBegin 0 CallSpawn # steps 5 0 @ TaskBegin 1 CallWork # steps 7 1"

definition run_to_end :: "nat task_event list" where
  "run_to_end = poll_begun @ TaskBegin 2 (CallJoin 5) # steps 4 2 @ steps 11 1 @ TaskBegin 0 CallTake # steps 2 0"

theorem task_runs_exclusively_witness:
  "length (filter polls_future (ts_pcs (run_task_schedule poll_begun (task_system_new False 4)))) \<le> 1"
proof -
  have "legal_task_schedule poll_begun (task_system_new False 4)" by code_simp
  then show ?thesis using task_runs_exclusively [OF _ _ refl, of 4 poll_begun False] by simp
qed

theorem task_wake_not_lost_witness:
  "task_completed (ts_task (run_task_schedule (poll_begun @ TaskBegin 3 CallWake # steps 11 3 @ steps 11 1 @ TaskBegin 2 CallWork # steps 4 2)
     (task_system_new False 4)))"
proof -
  let ?es = "poll_begun @ TaskBegin 3 CallWake # steps 11 3 @ steps 11 1 @ TaskBegin 2 CallWork # steps 4 2"
  let ?s = "run_task_schedule ?es (task_system_new False 4)"
  have "legal_task_schedule ?es (task_system_new False 4)" by code_simp
  moreover have "at_rest ?s" by code_simp
  moreover have "tk_wanted (ts_task ?s)" by code_simp
  ultimately show ?thesis using task_wake_not_lost [OF _ _ refl, of 4 ?es False] by simp
qed

theorem scope_told_once_witness:
  "tk_dones (ts_task (run_task_schedule run_to_end (task_system_new False 4))) = 1"
proof -
  have "legal_task_schedule run_to_end (task_system_new False 4)" by code_simp
  moreover have "at_rest (run_task_schedule run_to_end (task_system_new False 4))" by code_simp
  moreover have "task_completed (ts_task (run_task_schedule run_to_end (task_system_new False 4)))" by code_simp
  ultimately show ?thesis using scope_told_once [OF _ _ refl, of 4 run_to_end False] by simp
qed

theorem wake_token_guards_header_witness:
  "tk_token (ts_task (run_task_schedule (run_to_end @ TaskBegin 0 CallDrop # steps 3 0) (task_system_new False 4))) = 0"
proof -
  let ?es = "run_to_end @ TaskBegin 0 CallDrop # steps 3 0"
  have "legal_task_schedule ?es (task_system_new False 4)" by code_simp
  moreover have "tk_freed (ts_task (run_task_schedule ?es (task_system_new False 4)))" by code_simp
  ultimately show ?thesis using wake_token_guards_header [OF _ _ refl, of 4 ?es False] by simp
qed

theorem join_waiters_woken_witness:
  "5 \<in> set (tk_woken (ts_task (run_task_schedule run_to_end (task_system_new False 4))))
   \<or> 5 \<in> set (tk_left (ts_task (run_task_schedule run_to_end (task_system_new False 4))))"
proof -
  have "legal_task_schedule run_to_end (task_system_new False 4)" by code_simp
  moreover have "at_rest (run_task_schedule run_to_end (task_system_new False 4))" by code_simp
  moreover have "task_completed (ts_task (run_task_schedule run_to_end (task_system_new False 4)))" by code_simp
  moreover have "5 \<in> set (tk_joined (ts_task (run_task_schedule run_to_end (task_system_new False 4))))" by code_simp
  ultimately show ?thesis using join_waiters_woken [OF _ _ refl, of 4 run_to_end False] by simp
qed


theorem drop_at_rest_is_safe_witness:
  "\<not> tk_ub (ts_task (run_task_schedule (run_to_end @ TaskBegin 0 CallDrop # steps 3 0 @ TaskBegin 3 CallWake # steps 1 3) (task_system_new False 4)))"
proof -
  let ?es = "run_to_end @ TaskBegin 0 CallDrop # steps 3 0 @ TaskBegin 3 CallWake # steps 1 3"
  have "legal_task_schedule ?es (task_system_new False 4)" by code_simp
  moreover have "drops_at_rest ?es (task_system_new False 4)" by code_simp
  ultimately show ?thesis using drop_at_rest_is_safe [of 4 ?es False] by simp
qed

text \<open>In each of these schedules the owner drops the task as soon as the scope is told, and another thread
  goes on: a worker that gave up the reference of its queue before it enters the poll; the worker that
  finishes the task and leaves the polled state after it gave up its reference; a worker that takes the
  task out of a queue into which it came because its reference was counted too late; and the worker
  that finishes a pinned task which a waker acknowledged in its place.\<close>

definition late_enter :: "nat task_event list" where
  "late_enter = poll_begun @ TaskBegin 3 CallWake # steps 11 3 @ TaskBegin 2 CallWork # steps 2 2 @ steps 11 1
     @ TaskBegin 0 CallDrop # steps 3 0 @ steps 1 2"

definition late_exit :: "nat task_event list" where
  "late_exit = poll_begun @ TaskBegin 3 CallWake # steps 11 3 @ steps 8 1 @ TaskBegin 2 CallWork # steps 4 2
     @ TaskBegin 0 CallDrop # steps 3 0 @ steps 1 1"

definition late_count :: "nat task_event list" where
  "late_count = poll_begun @ TaskBegin 3 CallWake # steps 8 3 @ steps 11 1 @ TaskBegin 0 CallDrop # steps 1 0 @ steps 3 3 @ steps 2 0
     @ TaskBegin 2 CallWork # steps 1 2"

definition early_ack :: "nat task_event list" where
  "early_ack = poll_begun @ steps 5 1 @ TaskBegin 3 CallWake # steps 10 3 @ TaskBegin 0 CallDrop # steps 3 0 @ steps 1 1"

text \<open>The references of a task do not protect its memory. There are four schedules, three of a task
  that is not pinned, in which the owner releases the task after the scope was told that it is done, as
  it may, and a thread accesses the memory afterwards.\<close>

theorem task_freed_while_referenced:
  "list_all (\<lambda>es. legal_task_schedule es (task_system_new False 4) \<and> tk_ub (ts_task (run_task_schedule es (task_system_new False 4))))
     [late_enter, late_exit, late_count]
   \<and> legal_task_schedule early_ack (task_system_new True 4) \<and> tk_ub (ts_task (run_task_schedule early_ack (task_system_new True 4)))"
  by code_simp

subsection \<open>A refused task\<close>

text \<open>A task that was never made to run: only calls through its handle are possible.\<close>

definition stranded :: "'r task_system \<Rightarrow> bool" where
  "stranded s \<longleftrightarrow> (\<forall>pc \<in> set (ts_pcs s). pc = TaskIdle \<or> handle_call pc) \<and> tk_queue (ts_task s) = 0 \<and> tk_dones (ts_task s) = 0
     \<and> tk_spawned (ts_task s) \<and> \<not> tk_made (ts_task s) \<and> \<not> task_completed (ts_task s)"

lemma stranded_step:
  assumes "task_step ch pc t = (t', pc')" "pc = TaskIdle \<or> handle_call pc"
  shows "(pc' = TaskIdle \<or> handle_call pc') \<and> tk_queue t' = tk_queue t \<and> tk_dones t' = tk_dones t \<and> tk_spawned t' = tk_spawned t
    \<and> tk_made t' = tk_made t \<and> task_completed t' = task_completed t"
  using assms by (cases pc rule: place_cases) (auto simp: step_defs task_completed_bit flag_simps split: if_splits)

lemma stranded_event:
  assumes "stranded s" "legal_task_event e s"
  shows "stranded (run_task_event e s)"
proof (cases e)
  case (TaskBegin i call)
  obtain t' pc' where b: "begin_call call (ts_task s) = (t', pc')" by fastforce
  have leg: "legal_task_call call s" using assms(2) TaskBegin by simp
  have st: "tk_queue (ts_task s) = 0" "tk_dones (ts_task s) = 0" "tk_spawned (ts_task s)" "\<not> tk_made (ts_task s)" "\<not> task_completed (ts_task s)"
    using assms(1) by (simp_all add: stranded_def)
  have "handle_call pc' \<and> tk_queue t' = 0 \<and> tk_dones t' = 0 \<and> tk_spawned t' \<and> \<not> tk_made t' \<and> \<not> task_completed t'"
    using st leg b by (cases call) (auto simp: task_completed_def)
  moreover have "run_task_event e s = s\<lparr>ts_task := t', ts_pcs := (ts_pcs s)[i := pc']\<rparr>" using b TaskBegin by (simp add: run_task_event_def)
  ultimately show ?thesis using assms(1) set_update_subset_insert [of "ts_pcs s" i pc'] by (auto simp: stranded_def)
next
  case (TaskStep i ch)
  define t0 where "t0 = (if touches (ts_pcs s ! i) \<and> tk_freed (ts_task s) then (ts_task s)\<lparr>tk_ub := True\<rparr> else ts_task s)"
  obtain t' pc' where st: "task_step ch (ts_pcs s ! i) t0 = (t', pc')" by fastforce
  have "ts_pcs s ! i = TaskIdle \<or> handle_call (ts_pcs s ! i)" using assms TaskStep by (simp add: stranded_def)
  note ss = stranded_step [OF st this]
  have t0: "tk_queue t0 = tk_queue (ts_task s)" "tk_dones t0 = tk_dones (ts_task s)" "tk_spawned t0 = tk_spawned (ts_task s)"
    "tk_made t0 = tk_made (ts_task s)" "task_completed t0 = task_completed (ts_task s)" by (simp_all add: t0_def task_completed_def)
  have "run_task_event e s = s\<lparr>ts_task := t', ts_pcs := (ts_pcs s)[i := pc']\<rparr>"
    using st TaskStep by (simp add: run_task_event_def t0_def)
  then show ?thesis using assms(1) ss t0 set_update_subset_insert [of "ts_pcs s" i pc'] by (auto simp: stranded_def)
qed

lemma stranded_schedule: "stranded s \<Longrightarrow> legal_task_schedule es s \<Longrightarrow> stranded (run_task_schedule es s)"
proof (induction es arbitrary: s)
  case (Cons e es)
  then show ?case using stranded_event [of s e] by (simp add: run_task_schedule_def)
qed (simp add: run_task_schedule_def)

definition spawn_refused :: "nat task_event list" where
  "spawn_refused = TaskBegin 0 CallSpawn # steps 4 0 @ TaskStep 0 crowded # steps 2 0"

text \<open>When the queue of the worker of a pinned task is full the task is not spawned, and although the
  result of the call says that the scope was told, it was not: however the schedule goes on, the scope
  waits for the task for ever.\<close>

theorem refused_spawn_hangs_scope:
  "legal_task_schedule spawn_refused (task_system_new True 4) \<and> at_rest (run_task_schedule spawn_refused (task_system_new True 4))
   \<and> (\<forall>es. legal_task_schedule es (run_task_schedule spawn_refused (task_system_new True 4))
        \<longrightarrow> tk_dones (ts_task (run_task_schedule (spawn_refused @ es) (task_system_new True 4))) = 0)"
proof -
  have "stranded (run_task_schedule spawn_refused (task_system_new True 4))" by code_simp
  then have "\<forall>es. legal_task_schedule es (run_task_schedule spawn_refused (task_system_new True 4))
      \<longrightarrow> tk_dones (ts_task (run_task_schedule es (run_task_schedule spawn_refused (task_system_new True 4)))) = 0"
    using stranded_schedule unfolding stranded_def by blast
  moreover have "run_task_schedule (spawn_refused @ es) s = run_task_schedule es (run_task_schedule spawn_refused s)" for es s
    by (simp add: run_task_schedule_def)
  moreover have "legal_task_schedule spawn_refused (task_system_new True 4)" by code_simp
  moreover have "at_rest (run_task_schedule spawn_refused (task_system_new True 4))" by code_simp
  ultimately show ?thesis by simp
qed

theorem refused_spawn_hangs_scope_witness:
  "tk_dones (ts_task (run_task_schedule (spawn_refused @ TaskBegin 1 CallCancel # steps 1 1) (task_system_new True 4))) = 0"
proof -
  have "legal_task_schedule (TaskBegin 1 CallCancel # steps 1 1) (run_task_schedule spawn_refused (task_system_new True 4))" by code_simp
  then show ?thesis using refused_spawn_hangs_scope by blast
qed

end
