(* ===== verification/Worker_Idle.thy ===== *)
theory Worker_Idle
  imports Veloq_Prelude
begin

unbundle bit_operations_syntax

text \<open>
  The idle workers of the runtime (\<^verbatim>\<open>veloq-runtime/src/runtime/shared/infra.rs\<close>): the mask that says which
  workers are idle, and for every group of workers a stack of them, linked through an array with one
  entry for each worker. The head of a stack packs a generation and the worker on top. Also how the
  workers are grouped and how one is chosen for a task.

  A call is one step; a call that may not return gives an option, as does one that indexes an array.
\<close>

subsection \<open>The mask\<close>

type_synonym atomic_bitset = "u64 list"

definition bitset_new :: "nat \<Rightarrow> atomic_bitset" where
  "bitset_new n = replicate ((n + 63) div 64) 0"

definition bitset_try_set :: "nat \<Rightarrow> atomic_bitset \<Rightarrow> (atomic_bitset \<times> bool) option" where
  "bitset_try_set index bs =
     (let w = index div 64; m = push_bit (index mod 64) 1
      in if w < length bs then Some (bs[w := bs ! w OR m], bs ! w AND m = 0) else None)"

definition bitset_clear :: "nat \<Rightarrow> atomic_bitset \<Rightarrow> atomic_bitset option" where
  "bitset_clear index bs =
     (let w = index div 64 in if w < length bs then Some (bs[w := bs ! w AND NOT (push_bit (index mod 64) 1)]) else None)"

definition bitset_is_set :: "nat \<Rightarrow> atomic_bitset \<Rightarrow> bool option" where
  "bitset_is_set index bs =
     (let w = index div 64 in if w < length bs then Some (bs ! w AND push_bit (index mod 64) 1 \<noteq> 0) else None)"

subsection \<open>The stack\<close>

definition STACK_EMPTY :: u64 where "STACK_EMPTY = - 1"

definition NO_WORKER :: usize where "NO_WORKER = - 1"

text \<open>The head of the stack of a group and the array of all workers.\<close>

record idle_stack =
  st_head :: u64
  st_next :: "usize list"

definition stack_new :: "nat \<Rightarrow> idle_stack" where
  "stack_new n = \<lparr>st_head = STACK_EMPTY, st_next = replicate n NO_WORKER\<rparr>"

definition top_id :: "u64 \<Rightarrow> nat" where
  "top_id head = unat (head AND 0xFFFFFFFF)"

definition stack_push :: "nat \<Rightarrow> idle_stack \<Rightarrow> idle_stack option" where
  "stack_push worker_id s =
     (let head = st_head s;
          generation = (if head = STACK_EMPTY then 0 else drop_bit 32 head + 1);
          new_head = push_bit 32 generation OR of_nat worker_id;
          old_top_id = (if head = STACK_EMPTY then NO_WORKER else head AND 0xFFFFFFFF)
      in if worker_id < length (st_next s) then Some \<lparr>st_head = new_head, st_next = (st_next s)[worker_id := old_top_id]\<rparr> else None)"

text \<open>The head after its top has been taken off, in \<^verbatim>\<open>pop\<close> and \<^verbatim>\<open>try_pop_self\<close>.\<close>

definition below_top :: "idle_stack \<Rightarrow> u64" where
  "below_top s =
     (let next_id = st_next s ! top_id (st_head s)
      in if next_id = NO_WORKER then STACK_EMPTY else push_bit 32 (drop_bit 32 (st_head s) + 1) OR next_id)"

definition stack_pop :: "idle_stack \<Rightarrow> (idle_stack \<times> nat option) option" where
  "stack_pop s =
     (if st_head s = STACK_EMPTY then Some (s, None)
      else if top_id (st_head s) < length (st_next s) then Some (s\<lparr>st_head := below_top s\<rparr>, Some (top_id (st_head s)))
      else None)"

definition stack_try_pop_self :: "nat \<Rightarrow> idle_stack \<Rightarrow> (idle_stack \<times> bool) option" where
  "stack_try_pop_self worker_id s =
     (if st_head s = STACK_EMPTY then Some (s, False)
      else if top_id (st_head s) \<noteq> worker_id then Some (s, False)
      else if worker_id < length (st_next s) then Some (s\<lparr>st_head := below_top s\<rparr>, True)
      else None)"

text \<open>\<^verbatim>\<open>pop_idle\<close> goes on until it finds a worker that is still idle.\<close>

partial_function (option) pop_idle :: "atomic_bitset \<Rightarrow> idle_stack \<Rightarrow> (idle_stack \<times> nat option) option" where
  "pop_idle bs s =
     Option.bind (stack_pop s) (\<lambda>(s', found).
       case found of
         None \<Rightarrow> Some (s', None)
       | Some w \<Rightarrow> Option.bind (bitset_is_set w bs) (\<lambda>idle. if idle then Some (s', Some w) else pop_idle bs s'))"

declare pop_idle.simps [code]

subsection \<open>Entering and leaving\<close>

record idle_group =
  ig_mask :: atomic_bitset
  ig_stack :: idle_stack

definition idle_new :: "nat \<Rightarrow> idle_group" where
  "idle_new n = \<lparr>ig_mask = bitset_new n, ig_stack = stack_new n\<rparr>"

text \<open>The beginning of \<^verbatim>\<open>RuntimeProgressCoordinator::run\<close>, and \<^verbatim>\<open>leave_idle\<close>.\<close>

definition enter_idle :: "nat \<Rightarrow> idle_group \<Rightarrow> idle_group option" where
  "enter_idle worker_id g =
     Option.bind (bitset_try_set worker_id (ig_mask g)) (\<lambda>(bs, fresh).
       if fresh then Option.bind (stack_push worker_id (ig_stack g)) (\<lambda>s. Some \<lparr>ig_mask = bs, ig_stack = s\<rparr>)
       else Some (g\<lparr>ig_mask := bs\<rparr>))"

definition leave_idle :: "nat \<Rightarrow> idle_group \<Rightarrow> idle_group option" where
  "leave_idle worker_id g =
     Option.bind (bitset_clear worker_id (ig_mask g)) (\<lambda>bs.
       Option.bind (stack_try_pop_self worker_id (ig_stack g)) (\<lambda>(s, _). Some \<lparr>ig_mask = bs, ig_stack = s\<rparr>))"

text \<open>\<^verbatim>\<open>wake_idle_in_group\<close>: the worker it unparks.\<close>

fun first_idle :: "atomic_bitset \<Rightarrow> nat list \<Rightarrow> nat option option" where
  "first_idle bs [] = Some None"
| "first_idle bs (w # ws) = Option.bind (bitset_is_set w bs) (\<lambda>idle. if idle then Some (Some w) else first_idle bs ws)"

definition wake_idle_in_group :: "nat list \<Rightarrow> idle_group \<Rightarrow> (idle_group \<times> nat option) option" where
  "wake_idle_in_group worker_ids g =
     Option.bind (pop_idle (ig_mask g) (ig_stack g)) (\<lambda>(s, found).
       case found of
         Some w \<Rightarrow> Some (g\<lparr>ig_stack := s\<rparr>, Some w)
       | None \<Rightarrow> Option.bind (first_idle (ig_mask g) worker_ids) (\<lambda>w. Some (g\<lparr>ig_stack := s\<rparr>, w)))"

datatype idle_call = EnterIdle nat | LeaveIdle nat | WakeIdle

definition run_idle_call :: "nat list \<Rightarrow> idle_call \<Rightarrow> idle_group \<Rightarrow> idle_group option" where
  "run_idle_call ids c g =
     (case c of EnterIdle w \<Rightarrow> enter_idle w g | LeaveIdle w \<Rightarrow> leave_idle w g | WakeIdle \<Rightarrow> map_option fst (wake_idle_in_group ids g))"

fun run_idle_calls :: "nat list \<Rightarrow> idle_call list \<Rightarrow> idle_group \<Rightarrow> idle_group option" where
  "run_idle_calls ids [] g = Some g"
| "run_idle_calls ids (c # cs) g = Option.bind (run_idle_call ids c g) (run_idle_calls ids cs)"

subsection \<open>Groups of workers\<close>

text \<open>\<^verbatim>\<open>init_runtime_components\<close> deals the workers out to the memory nodes, of which there may be none known
  and some without a worker.\<close>

definition node_workers :: "nat \<Rightarrow> nat \<Rightarrow> nat list list" where
  "node_workers worker_count node_count = map (\<lambda>node. filter (\<lambda>i. i mod node_count = node) [0..<worker_count]) [0..<node_count]"

definition init_groups :: "nat \<Rightarrow> nat option \<Rightarrow> nat list list \<times> nat list" where
  "init_groups worker_count topo =
     (case topo of
        Some node_count \<Rightarrow>
          if node_count > 0
          then (filter (\<lambda>ids. ids \<noteq> []) (node_workers worker_count node_count), map (\<lambda>i. i mod node_count) [0..<worker_count])
          else ([[0..<worker_count]], replicate worker_count 0)
      | None \<Rightarrow> ([[0..<worker_count]], replicate worker_count 0))"

text \<open>\<^verbatim>\<open>choose_worker_with_current\<close> with the counter \<^verbatim>\<open>next_worker\<close>.\<close>

definition choose_worker_with_current :: "nat list list \<times> nat list \<Rightarrow> usize \<Rightarrow> nat \<Rightarrow> usize \<times> nat" where
  "choose_worker_with_current topo next_worker current =
     (let n = length (snd topo)
      in if n \<le> 1 then (next_worker, 0)
         else if current < n \<and> 1 < length (fst topo ! (snd topo ! current))
         then (let ids = fst topo ! (snd topo ! current) in (next_worker + 1, ids ! (unat next_worker mod length ids)))
         else (next_worker + 1, unat next_worker mod n))"

subsection \<open>The mask is a set\<close>

definition in_mask :: "atomic_bitset \<Rightarrow> nat \<Rightarrow> bool" where
  "in_mask bs i \<longleftrightarrow> i div 64 < length bs \<and> bit (bs ! (i div 64)) (i mod 64)"

lemma and_exp_zero: "k < 64 \<Longrightarrow> w AND 2 ^ k = 0 \<longleftrightarrow> \<not> bit (w :: u64) k"
proof -
  assume k: "k < 64"
  have "bit (w AND 2 ^ k) n \<longleftrightarrow> n = k \<and> bit w k" for n
    using k by (auto simp: bit_and_iff bit_exp_iff)
  then show ?thesis by (metis bit_0_eq bit_eqI bot_apply bot_bool_def)
qed

lemma same_index: "i div 64 = j div (64 :: nat) \<Longrightarrow> i mod 64 = j mod 64 \<Longrightarrow> i = j"
  by (metis div_mult_mod_eq)

lemma try_set_mask:
  assumes "i div 64 < length bs"
  shows "\<exists>bs'. bitset_try_set i bs = Some (bs', \<not> in_mask bs i) \<and> length bs' = length bs \<and> (\<forall>j. in_mask bs' j \<longleftrightarrow> in_mask bs j \<or> j = i)"
  using assms
  by (auto simp: bitset_try_set_def in_mask_def and_exp_zero nth_list_update bit_or_iff bit_exp_iff Let_def dest: same_index)

lemma clear_mask:
  assumes "i div 64 < length bs"
  shows "\<exists>bs'. bitset_clear i bs = Some bs' \<and> length bs' = length bs \<and> (\<forall>j. in_mask bs' j \<longleftrightarrow> in_mask bs j \<and> j \<noteq> i)"
  using assms
  by (auto simp: bitset_clear_def in_mask_def nth_list_update bit_and_iff bit_not_iff bit_exp_iff Let_def dest: same_index)

lemma is_set_mask: "i div 64 < length bs \<Longrightarrow> bitset_is_set i bs = Some (in_mask bs i)"
  by (simp add: bitset_is_set_def in_mask_def and_exp_zero Let_def)

subsection \<open>The stack is a list\<close>

fun linked :: "usize list \<Rightarrow> nat list \<Rightarrow> bool" where
  "linked nx [] \<longleftrightarrow> True"
| "linked nx [w] \<longleftrightarrow> nx ! w = NO_WORKER"
| "linked nx (w # v # ws) \<longleftrightarrow> nx ! w = of_nat v \<and> linked nx (v # ws)"

definition stack_holds :: "nat list \<Rightarrow> idle_stack \<Rightarrow> bool" where
  "stack_holds xs s \<longleftrightarrow> distinct xs \<and> set xs \<subseteq> {..<length (st_next s)} \<and> length (st_next s) < 2 ^ 32 \<and> linked (st_next s) xs
     \<and> (case xs of [] \<Rightarrow> st_head s = STACK_EMPTY | w # _ \<Rightarrow> st_head s \<noteq> STACK_EMPTY \<and> top_id (st_head s) = w)"

lemma packed_head:
  fixes g :: u64
  assumes "w < 2 ^ 32 - 1"
  shows "top_id (push_bit 32 g OR of_nat w) = w" "push_bit 32 g OR of_nat w \<noteq> STACK_EMPTY"
proof -
  have m: "(0xFFFFFFFF :: u64) = mask 32" by (simp add: mask_eq_exp_minus_1)
  have w: "take_bit 32 (of_nat w :: u64) = of_nat w" using assms by (simp add: take_bit_of_nat take_bit_nat_eq_self)
  have "(push_bit 32 g OR of_nat w) AND mask 32 = take_bit 32 (of_nat w :: u64)"
    by (rule bit_eqI) (auto simp: bit_and_iff bit_or_iff bit_push_bit_iff bit_mask_iff bit_take_bit_iff)
  then have top: "(push_bit 32 g OR of_nat w) AND 0xFFFFFFFF = (of_nat w :: u64)" using w m by simp
  have un: "unat (of_nat w :: u64) = w" using assms by (simp add: unat_of_nat)
  then show "top_id (push_bit 32 g OR of_nat w) = w" unfolding top_id_def top .
  show "push_bit 32 g OR of_nat w \<noteq> STACK_EMPTY"
  proof
    assume "push_bit 32 g OR of_nat w = STACK_EMPTY"
    then have "(of_nat w :: u64) = 0xFFFFFFFF" using top by (simp add: STACK_EMPTY_def)
    then have "w = unat (0xFFFFFFFF :: u64)" using un by metis
    then show False using assms by simp
  qed
qed

lemma worker_word: "w < 2 ^ 32 \<Longrightarrow> unat (of_nat w :: usize) = w \<and> (of_nat w :: usize) \<noteq> NO_WORKER"
proof -
  assume w: "w < 2 ^ 32"
  have un: "unat (of_nat w :: usize) = w" using w by (simp add: unat_of_nat)
  moreover have "(of_nat w :: usize) \<noteq> NO_WORKER"
  proof
    assume "of_nat w = NO_WORKER"
    then have "(of_nat (w + 1) :: usize) = 0" by (simp add: NO_WORKER_def)
    then have "unat (of_nat (w + 1) :: usize) = 0" by (simp only: unat_0)
    then show False using w unfolding unat_of_nat by simp
  qed
  ultimately show ?thesis by blast
qed

lemma linked_update: "v \<notin> set xs \<Longrightarrow> linked (nx[v := y]) xs = linked nx xs"
  by (induction nx xs rule: linked.induct) auto

lemma push_holds:
  assumes "stack_holds xs s" "w < length (st_next s)" "w \<notin> set xs"
  shows "\<exists>s'. stack_push w s = Some s' \<and> stack_holds (w # xs) s' \<and> length (st_next s') = length (st_next s)"
proof -
  define g :: u64 where "g = (if st_head s = STACK_EMPTY then 0 else drop_bit 32 (st_head s) + 1)"
  define old :: usize where "old = (if st_head s = STACK_EMPTY then NO_WORKER else st_head s AND 0xFFFFFFFF)"
  have small: "w < 2 ^ 32 - 1" using assms by (auto simp: stack_holds_def)
  have p: "stack_push w s = Some \<lparr>st_head = push_bit 32 g OR of_nat w, st_next = (st_next s)[w := old]\<rparr>"
    using assms(2) by (simp add: stack_push_def g_def old_def Let_def)
  have "linked ((st_next s)[w := old]) (w # xs)"
  proof (cases xs)
    case Nil
    then show ?thesis using assms(1,2) by (simp add: stack_holds_def old_def)
  next
    case (Cons v vs)
    then have "old = of_nat v" using assms(1) by (auto simp: stack_holds_def old_def top_id_def)
    moreover have "linked ((st_next s)[w := old]) xs" using assms(1,3) linked_update by (simp add: stack_holds_def)
    ultimately show ?thesis using Cons assms(2) by simp
  qed
  then show ?thesis using p packed_head [OF small, of g] assms by (auto simp: stack_holds_def)
qed

lemma below_top_holds:
  assumes "stack_holds (w # xs) s"
  shows "stack_holds xs (s\<lparr>st_head := below_top s\<rparr>)"
proof -
  have top: "top_id (st_head s) = w" "linked (st_next s) (w # xs)" using assms by (simp_all add: stack_holds_def)
  show ?thesis
  proof (cases xs)
    case Nil
    then show ?thesis using assms top by (simp add: stack_holds_def below_top_def Let_def)
  next
    case (Cons v vs)
    have small: "v < 2 ^ 32 - 1" using assms Cons by (auto simp: stack_holds_def)
    have "of_nat v \<noteq> NO_WORKER" using worker_word [of v] small by simp
    then have "below_top s = push_bit 32 (drop_bit 32 (st_head s) + 1) OR of_nat v" using top Cons by (simp add: below_top_def Let_def)
    then show ?thesis using assms Cons packed_head [OF small] by (simp add: stack_holds_def)
  qed
qed

lemma pop_holds:
  assumes "stack_holds xs s"
  shows "stack_pop s = Some (case xs of [] \<Rightarrow> (s, None) | w # _ \<Rightarrow> (s\<lparr>st_head := below_top s\<rparr>, Some w))"
  using assms by (cases xs) (auto simp: stack_holds_def stack_pop_def)

lemma pop_idle_holds:
  assumes "stack_holds xs s" "\<forall>w < length (st_next s). w div 64 < length bs"
  shows "\<exists>s'. pop_idle bs s = Some (s', case dropWhile (\<lambda>w. \<not> in_mask bs w) xs of [] \<Rightarrow> None | w # _ \<Rightarrow> Some w)
    \<and> stack_holds (tl (dropWhile (\<lambda>w. \<not> in_mask bs w) xs)) s' \<and> st_next s' = st_next s"
  using assms
proof (induction xs arbitrary: s)
  case Nil
  then show ?case using pop_holds [OF Nil.prems(1)] by (subst pop_idle.simps) simp
next
  case (Cons w xs)
  let ?s = "s\<lparr>st_head := below_top s\<rparr>"
  have "w div 64 < length bs" using Cons.prems by (auto simp: stack_holds_def)
  then have "pop_idle bs s = (if in_mask bs w then Some (?s, Some w) else pop_idle bs ?s)"
    using pop_holds [OF Cons.prems(1)] by (subst pop_idle.simps) (simp add: is_set_mask)
  then show ?case using Cons.IH [OF below_top_holds [OF Cons.prems(1)]] below_top_holds [OF Cons.prems(1)] Cons.prems(2) by simp
qed

subsection \<open>A group of idle workers\<close>

text \<open>The invariant: the links from the head are a list of distinct workers, and the arrays keep their sizes.\<close>

definition idle_inv :: "nat \<Rightarrow> nat list \<Rightarrow> idle_group \<Rightarrow> bool" where
  "idle_inv n xs g \<longleftrightarrow> stack_holds xs (ig_stack g) \<and> length (st_next (ig_stack g)) = n \<and> length (ig_mask g) = (n + 63) div 64"

text \<open>The stack as the links give it; at most all workers.\<close>

fun follow :: "nat \<Rightarrow> usize list \<Rightarrow> usize \<Rightarrow> nat list" where
  "follow 0 nx w = []"
| "follow (Suc k) nx w = (if w = NO_WORKER then [] else unat w # follow k nx (nx ! unat w))"

definition stacked :: "idle_stack \<Rightarrow> nat list" where
  "stacked s = (if st_head s = STACK_EMPTY then [] else follow (length (st_next s)) (st_next s) (st_head s AND 0xFFFFFFFF))"

lemma follow_linked:
  assumes "linked nx (w # xs)" "set (w # xs) \<subseteq> {..<2 ^ 32}" "length (w # xs) \<le> k"
  shows "follow k nx (of_nat w) = w # xs"
  using assms
proof (induction xs arbitrary: w k)
  case Nil
  then show ?case using worker_word [of w] by (cases k; cases "k - 1") auto
next
  case (Cons v vs)
  obtain k' where k: "k = Suc k'" using Cons.prems(3) by (cases k) auto
  have "follow k' nx (of_nat v) = v # vs" using Cons.IH [of v k'] Cons.prems k by auto
  then show ?case using worker_word [of w] Cons.prems k by auto
qed

lemma stacked_holds:
  assumes "stack_holds xs s"
  shows "stacked s = xs"
proof (cases xs)
  case (Cons w ws)
  have "length xs \<le> length (st_next s)" using assms card_mono [of "{..<length (st_next s)}" "set xs"] by (auto simp: stack_holds_def distinct_card)
  moreover have "set xs \<subseteq> {..<2 ^ 32}" using assms by (auto simp: stack_holds_def)
  moreover have "st_head s AND 0xFFFFFFFF = of_nat w" using assms Cons by (auto simp: stack_holds_def top_id_def)
  ultimately show ?thesis using assms Cons follow_linked [of "st_next s" w ws] by (simp add: stacked_def stack_holds_def)
qed (use assms in \<open>simp add: stacked_def stack_holds_def\<close>)

text \<open>Calls of the workers of a group: a worker that is not idle yet enters only when no entry of it is
  left on the stack.\<close>

definition careful_call :: "nat \<Rightarrow> idle_call \<Rightarrow> idle_group \<Rightarrow> bool" where
  "careful_call n c g =
     (case c of EnterIdle w \<Rightarrow> w < n \<and> (in_mask (ig_mask g) w \<or> w \<notin> set (stacked (ig_stack g))) | LeaveIdle w \<Rightarrow> w < n | WakeIdle \<Rightarrow> True)"

fun careful_calls :: "nat \<Rightarrow> nat list \<Rightarrow> idle_call list \<Rightarrow> idle_group \<Rightarrow> bool" where
  "careful_calls n ids [] g \<longleftrightarrow> True"
| "careful_calls n ids (c # cs) g \<longleftrightarrow> careful_call n c g \<and> (case run_idle_call ids c g of None \<Rightarrow> True | Some g' \<Rightarrow> careful_calls n ids cs g')"

lemma mask_length: "w < n \<Longrightarrow> w div 64 < (n + 63) div (64 :: nat)"
  by (simp add: div_less_iff_less_mult less_mult_imp_div_less)

text \<open>Every operation keeps the invariant and returns.\<close>

lemma idle_new_inv: "n < 2 ^ 32 \<Longrightarrow> idle_inv n [] (idle_new n)"
  by (simp add: idle_inv_def idle_new_def stack_holds_def stack_new_def bitset_new_def)

lemma enter_holds:
  assumes inv: "idle_inv n xs g" and w: "w < n" "in_mask (ig_mask g) w \<or> w \<notin> set xs"
  shows "\<exists>g' xs'. enter_idle w g = Some g' \<and> idle_inv n xs' g' \<and> (\<forall>j. in_mask (ig_mask g') j \<longleftrightarrow> in_mask (ig_mask g) j \<or> j = w)"
proof -
  obtain bs where bs: "bitset_try_set w (ig_mask g) = Some (bs, \<not> in_mask (ig_mask g) w)" "length bs = length (ig_mask g)"
    "\<forall>j. in_mask bs j \<longleftrightarrow> in_mask (ig_mask g) j \<or> j = w"
    using try_set_mask [of w "ig_mask g"] mask_length [OF w(1)] inv by (auto simp: idle_inv_def)
  show ?thesis
  proof (cases "in_mask (ig_mask g) w")
    case True
    then show ?thesis using bs inv by (auto simp: enter_idle_def idle_inv_def)
  next
    case False
    then obtain s where "stack_push w (ig_stack g) = Some s" "stack_holds (w # xs) s" "length (st_next s) = n"
      using push_holds [of xs "ig_stack g" w] w inv by (auto simp: idle_inv_def)
    then show ?thesis using False bs inv by (auto simp: enter_idle_def idle_inv_def)
  qed
qed

lemma try_pop_self_holds:
  assumes "stack_holds xs s"
  shows "\<exists>s' b xs'. stack_try_pop_self w s = Some (s', b) \<and> stack_holds xs' s' \<and> st_next s' = st_next s"
proof (cases "xs \<noteq> [] \<and> hd xs = w")
  case True
  then obtain ys where xs: "xs = w # ys" by (cases xs) auto
  then have "stack_try_pop_self w s = Some (s\<lparr>st_head := below_top s\<rparr>, True)" using assms by (simp add: stack_holds_def stack_try_pop_self_def)
  then show ?thesis using below_top_holds assms xs by fastforce
next
  case False
  then have "stack_try_pop_self w s = Some (s, False)" using assms by (cases xs) (auto simp: stack_holds_def stack_try_pop_self_def)
  then show ?thesis using assms by blast
qed

lemma leave_holds:
  assumes inv: "idle_inv n xs g" and w: "w < n"
  shows "\<exists>g' xs'. leave_idle w g = Some g' \<and> idle_inv n xs' g' \<and> (\<forall>j. in_mask (ig_mask g') j \<longleftrightarrow> in_mask (ig_mask g) j \<and> j \<noteq> w)"
proof -
  obtain bs where "bitset_clear w (ig_mask g) = Some bs" "length bs = length (ig_mask g)"
    "\<forall>j. in_mask bs j \<longleftrightarrow> in_mask (ig_mask g) j \<and> j \<noteq> w"
    using clear_mask [of w "ig_mask g"] mask_length [OF w(1)] inv by (auto simp: idle_inv_def)
  moreover obtain s b xs' where "stack_try_pop_self w (ig_stack g) = Some (s, b)" "stack_holds xs' s" "st_next s = st_next (ig_stack g)"
    using try_pop_self_holds [of xs "ig_stack g" w] inv by (auto simp: idle_inv_def)
  ultimately show ?thesis using inv by (auto simp: leave_idle_def idle_inv_def)
qed

lemma first_idle_find:
  "\<forall>w \<in> set ws. w div 64 < length bs \<Longrightarrow> first_idle bs ws = Some (List.find (in_mask bs) ws)"
  by (induction ws) (simp_all add: is_set_mask)

lemma dropWhile_head: "dropWhile P xs = y # ys \<Longrightarrow> \<not> P y"
  by (metis hd_dropWhile list.discI list.sel(1))

lemma wake_holds:
  assumes inv: "idle_inv n xs g" and ids: "set ids \<subseteq> {..<n}"
  shows "\<exists>g' xs' w. wake_idle_in_group ids g = Some (g', w) \<and> idle_inv n xs' g' \<and> ig_mask g' = ig_mask g
    \<and> (case w of Some v \<Rightarrow> in_mask (ig_mask g) v | None \<Rightarrow> \<forall>v \<in> set ids. \<not> in_mask (ig_mask g) v)"
proof -
  let ?rest = "dropWhile (\<lambda>w. \<not> in_mask (ig_mask g) w) xs"
  have words: "\<forall>w < n. w div 64 < length (ig_mask g)" using inv mask_length by (simp add: idle_inv_def)
  obtain s where s: "pop_idle (ig_mask g) (ig_stack g) = Some (s, case ?rest of [] \<Rightarrow> None | w # _ \<Rightarrow> Some w)"
    "stack_holds (tl ?rest) s" "st_next s = st_next (ig_stack g)"
    using pop_idle_holds [of xs "ig_stack g" "ig_mask g"] inv words by (auto simp: idle_inv_def)
  have inv': "idle_inv n (tl ?rest) (g\<lparr>ig_stack := s\<rparr>)" using inv s by (simp add: idle_inv_def)
  show ?thesis
  proof (cases ?rest)
    case Nil
    let ?v = "List.find (in_mask (ig_mask g)) ids"
    have "first_idle (ig_mask g) ids = Some ?v" using first_idle_find words ids by blast
    then have "wake_idle_in_group ids g = Some (g\<lparr>ig_stack := s\<rparr>, ?v)" using s(1) Nil by (simp add: wake_idle_in_group_def)
    moreover have "case ?v of Some v \<Rightarrow> in_mask (ig_mask g) v | None \<Rightarrow> \<forall>v \<in> set ids. \<not> in_mask (ig_mask g) v"
      by (auto simp: find_None_iff find_Some_iff split: option.split)
    ultimately show ?thesis using inv' by fastforce
  next
    case (Cons v vs)
    then have "wake_idle_in_group ids g = Some (g\<lparr>ig_stack := s\<rparr>, Some v)" using s(1) by (simp add: wake_idle_in_group_def)
    moreover have "in_mask (ig_mask g) v" using dropWhile_head [OF Cons] by simp
    ultimately show ?thesis using inv' by fastforce
  qed
qed

lemma careful_call_holds:
  assumes "idle_inv n xs g" "set ids \<subseteq> {..<n}" "careful_call n c g"
  shows "\<exists>g' xs'. run_idle_call ids c g = Some g' \<and> idle_inv n xs' g'"
proof (cases c)
  case (EnterIdle w)
  then show ?thesis
    using assms enter_holds [OF assms(1), of w] stacked_holds [of xs "ig_stack g"]
    by (fastforce simp: run_idle_call_def careful_call_def idle_inv_def [of n xs g])
next
  case (LeaveIdle w)
  then show ?thesis using assms leave_holds [OF assms(1), of w] by (fastforce simp: run_idle_call_def careful_call_def)
next
  case WakeIdle
  then show ?thesis using wake_holds [OF assms(1,2)] by (fastforce simp: run_idle_call_def)
qed

lemma careful_calls_hold:
  assumes "idle_inv n xs g" "set ids \<subseteq> {..<n}" "careful_calls n ids cs g"
  shows "\<exists>g' xs'. run_idle_calls ids cs g = Some g' \<and> idle_inv n xs' g'"
  using assms
proof (induction cs arbitrary: xs g)
  case (Cons c cs)
  obtain g' xs' where "run_idle_call ids c g = Some g'" "idle_inv n xs' g'"
    using careful_call_holds [OF Cons.prems(1,2), of c] Cons.prems(3) by auto
  then show ?case using Cons.IH [of xs' g'] Cons.prems(2,3) by simp
qed auto

subsection \<open>A worker that comes back before its entry is gone\<close>

text \<open>The workers that \<^term>\<open>k\<close> calls of \<^verbatim>\<open>pop\<close> in a row take off.\<close>

fun pops :: "nat \<Rightarrow> idle_stack \<Rightarrow> nat option list option" where
  "pops 0 s = Some []"
| "pops (Suc k) s = Option.bind (stack_pop s) (\<lambda>(s', w). map_option ((#) w) (pops k s'))"

text \<open>A stack whose links never end: from its top they stay among the workers of a set.\<close>

definition endless :: "nat set \<Rightarrow> idle_stack \<Rightarrow> bool" where
  "endless C s \<longleftrightarrow> C \<subseteq> {..<length (st_next s)} \<and> length (st_next s) < 2 ^ 32 \<and> st_head s \<noteq> STACK_EMPTY
     \<and> top_id (st_head s) \<in> C \<and> (\<forall>w \<in> C. \<exists>v \<in> C. st_next s ! w = of_nat v)"

lemma endless_below:
  assumes "endless C s"
  shows "endless C (s\<lparr>st_head := below_top s\<rparr>)"
proof -
  obtain v where v: "v \<in> C" "st_next s ! top_id (st_head s) = of_nat v" using assms by (auto simp: endless_def)
  have small: "v < 2 ^ 32 - 1" using v(1) assms by (auto simp: endless_def)
  then have "below_top s = push_bit 32 (drop_bit 32 (st_head s) + 1) OR of_nat v"
    using v(2) worker_word [of v] by (simp add: below_top_def Let_def)
  then show ?thesis using v(1) packed_head [OF small] assms by (simp add: endless_def)
qed

lemma endless_pop:
  assumes "endless C s"
  shows "\<exists>s' w. stack_pop s = Some (s', Some w) \<and> w \<in> C \<and> endless C s' \<and> st_next s' = st_next s"
  using endless_below [OF assms] assms by (auto simp: endless_def stack_pop_def)

lemma endless_try_pop_self:
  assumes "endless C s" "stack_try_pop_self w s = Some (s', b)"
  shows "endless C s' \<and> st_next s' = st_next s"
  using endless_below [OF assms(1)] assms by (auto simp: stack_try_pop_self_def split: if_splits)

lemma endless_push:
  assumes "endless C s" "stack_push w s = Some s'"
  shows "endless (insert w C) s' \<and> length (st_next s') = length (st_next s)"
proof -
  define g :: u64 where "g = drop_bit 32 (st_head s) + 1"
  have w: "w < length (st_next s)" and s': "s' = \<lparr>st_head = push_bit 32 g OR of_nat w, st_next = (st_next s)[w := of_nat (top_id (st_head s))]\<rparr>"
    using assms by (auto simp: stack_push_def endless_def g_def top_id_def Let_def split: if_splits)
  have small: "w < 2 ^ 32 - 1" using w assms(1) by (simp add: endless_def)
  show ?thesis using packed_head [OF small, of g] assms(1) w unfolding s' by (auto simp: endless_def nth_list_update)
qed

lemma endless_pops: "endless C s \<Longrightarrow> \<exists>ws. pops k s = Some (map Some ws) \<and> length ws = k \<and> set ws \<subseteq> C"
proof (induction k arbitrary: s)
  case (Suc k)
  obtain s' w where p: "stack_pop s = Some (s', Some w)" "w \<in> C" "endless C s'" using endless_pop [OF Suc.prems] by blast
  obtain ws where "pops k s' = Some (map Some ws)" "length ws = k" "set ws \<subseteq> C" using Suc.IH [OF p(3)] by blast
  then show ?case using p(1,2) by (intro exI [of _ "w # ws"]) simp
qed simp

lemma endless_pop_idle:
  assumes "pop_idle bs s = Some r"
  shows "endless C s \<longrightarrow> endless C (fst r) \<and> st_next (fst r) = st_next s \<and> (\<exists>w \<in> C. bitset_is_set w bs = Some True)"
proof (rule pop_idle.raw_induct [of "\<lambda>bs s r. endless C s \<longrightarrow> endless C (fst r) \<and> st_next (fst r) = st_next s \<and> (\<exists>w \<in> C. bitset_is_set w bs = Some True)", OF _ assms])
  fix f bs s r
  assume IH: "\<And>bs s r. f bs s = Some r \<Longrightarrow> endless C s \<longrightarrow> endless C (fst r) \<and> st_next (fst r) = st_next s \<and> (\<exists>w \<in> C. bitset_is_set w bs = Some True)"
    and run: "Option.bind (stack_pop s) (\<lambda>(s', found).
      case found of
        None \<Rightarrow> Some (s', None)
      | Some w \<Rightarrow> Option.bind (bitset_is_set w bs) (\<lambda>idle. if idle then Some (s', Some w) else f bs s')) = Some r"
  show "endless C s \<longrightarrow> endless C (fst r) \<and> st_next (fst r) = st_next s \<and> (\<exists>w \<in> C. bitset_is_set w bs = Some True)"
  proof
    assume e: "endless C s"
    obtain s' w where p: "stack_pop s = Some (s', Some w)" "w \<in> C" "endless C s'" "st_next s' = st_next s" using endless_pop [OF e] by blast
    obtain idle where i: "bitset_is_set w bs = Some idle" using run p(1) by (cases "bitset_is_set w bs") simp_all
    then show "endless C (fst r) \<and> st_next (fst r) = st_next s \<and> (\<exists>w \<in> C. bitset_is_set w bs = Some True)"
      using run p IH [of bs s' r] by (cases idle) auto
  qed
qed

text \<open>Pushing a worker whose entry is below the top closes the links, and no call opens them again.\<close>

lemma linked_next: "linked nx (ys @ a # zs) \<Longrightarrow> w \<in> set ys \<Longrightarrow> \<exists>v \<in> insert a (set ys). nx ! w = of_nat v"
proof (induction ys)
  case (Cons y ys)
  show ?case
  proof (cases ys)
    case Nil
    then show ?thesis using Cons.prems by simp
  next
    case (Cons v vs)
    then show ?thesis using Cons.IH Cons.prems by auto
  qed
qed simp

lemma stale_push_endless:
  assumes h: "stack_holds (ys @ a # zs) s" and "ys \<noteq> []" and p: "stack_push a s = Some s'"
  shows "endless (insert a (set ys)) s' \<and> length (st_next s') = length (st_next s)"
proof -
  define g :: u64 where "g = drop_bit 32 (st_head s) + 1"
  have top: "st_head s \<noteq> STACK_EMPTY" "top_id (st_head s) = hd ys" using assms(1,2) by (cases ys; auto simp: stack_holds_def)+
  have s': "s' = \<lparr>st_head = push_bit 32 g OR of_nat a, st_next = (st_next s)[a := of_nat (top_id (st_head s))]\<rparr>"
    using p top(1) by (auto simp: stack_push_def g_def top_id_def Let_def split: if_splits)
  have a: "a < length (st_next s)" "a \<notin> set ys" "length (st_next s) < 2 ^ 32" "set ys \<subseteq> {..<length (st_next s)}"
    using h by (auto simp: stack_holds_def)
  then have small: "a < 2 ^ 32 - 1" by simp
  have "\<exists>v \<in> insert a (set ys). st_next s ! w = of_nat v" if "w \<in> set ys" for w
    using linked_next [of "st_next s" ys a zs w] h that by (simp add: stack_holds_def)
  then have "\<exists>v \<in> insert a (set ys). (st_next s)[a := of_nat (top_id (st_head s))] ! w = of_nat v" if "w \<in> insert a (set ys)" for w
    using that a(1,2) top(2) assms(2) by (cases "w = a") (auto simp: nth_list_update)
  then show ?thesis using packed_head [OF small, of g] a unfolding s' by (simp add: endless_def)
qed

definition calls_worker :: "nat \<Rightarrow> idle_call \<Rightarrow> bool" where
  "calls_worker n c = (case c of EnterIdle w \<Rightarrow> w < n | LeaveIdle w \<Rightarrow> w < n | WakeIdle \<Rightarrow> True)"

definition endless_group :: "nat \<Rightarrow> idle_group \<Rightarrow> bool" where
  "endless_group n g \<longleftrightarrow> (\<exists>C. endless C (ig_stack g)) \<and> length (st_next (ig_stack g)) = n \<and> length (ig_mask g) = (n + 63) div 64"

lemma endless_call:
  assumes e: "endless_group n g" and c: "calls_worker n c" and run: "run_idle_call ids c g = Some g'"
  shows "endless_group n g'"
proof -
  obtain C where C: "endless C (ig_stack g)" using e by (auto simp: endless_group_def)
  show ?thesis
  proof (cases c)
    case (EnterIdle w)
    then obtain bs where "bitset_try_set w (ig_mask g) = Some (bs, \<not> in_mask (ig_mask g) w)" "length bs = length (ig_mask g)"
      using try_set_mask [of w "ig_mask g"] mask_length [of w n] c e by (auto simp: endless_group_def calls_worker_def)
    then show ?thesis using run EnterIdle e endless_push [OF C, of w]
      by (auto simp: run_idle_call_def enter_idle_def endless_group_def bind_eq_Some_conv split: if_splits)
  next
    case (LeaveIdle w)
    then obtain bs where "bitset_clear w (ig_mask g) = Some bs" "length bs = length (ig_mask g)"
      using clear_mask [of w "ig_mask g"] mask_length [of w n] c e by (auto simp: endless_group_def calls_worker_def)
    then show ?thesis using run LeaveIdle e endless_try_pop_self [OF C, of w]
      by (auto simp: run_idle_call_def leave_idle_def endless_group_def bind_eq_Some_conv)
  next
    case WakeIdle
    then obtain s found where p: "pop_idle (ig_mask g) (ig_stack g) = Some (s, found)" "g' = g\<lparr>ig_stack := s\<rparr>"
      using run by (auto simp: run_idle_call_def wake_idle_in_group_def bind_eq_Some_conv split: option.splits)
    then show ?thesis using endless_pop_idle [OF p(1), of C] e C by (auto simp: endless_group_def)
  qed
qed

lemma run_idle_calls_append: "run_idle_calls ids (cs @ cs') g = Option.bind (run_idle_calls ids cs g) (run_idle_calls ids cs')"
  by (induction cs arbitrary: g) (simp_all cong: Option.bind_cong)

lemma endless_calls:
  "endless_group n g \<Longrightarrow> list_all (calls_worker n) cs \<Longrightarrow> run_idle_calls ids cs g = Some g' \<Longrightarrow> endless_group n g'"
  by (induction cs arbitrary: g) (auto simp: bind_eq_Some_conv dest: endless_call)

subsection \<open>Groups and the choice of a worker\<close>

lemma node_workers_nth: "node < node_count \<Longrightarrow> node_workers n node_count ! node = filter (\<lambda>i. i mod node_count = node) [0..<n]"
  by (simp add: node_workers_def)

lemma node_workers_empty:
  assumes "node < node_count"
  shows "filter (\<lambda>i. i mod node_count = node) [0..<n] = [] \<longleftrightarrow> n \<le> node"
proof -
  have "node \<in> set (filter (\<lambda>i. i mod node_count = node) [0..<n])" if "node < n" using that assms by simp
  moreover have "node < n" if "i < n" "i mod node_count = node" for i
    using that mod_less_eq_dividend [of i node_count] by simp
  ultimately show ?thesis by (fastforce simp: filter_empty_conv simp flip: not_less)
qed

lemma nonempty_nodes:
  "filter (\<lambda>ids. ids \<noteq> []) (node_workers n node_count) = take n (node_workers n node_count)"
proof -
  let ?f = "\<lambda>node. filter (\<lambda>i. i mod node_count = node) [0..<n]"
  have "filter (\<lambda>node. ?f node \<noteq> []) [0..<node_count] = filter (\<lambda>node. node < n) [0..<node_count]"
    by (rule filter_cong) (auto simp: node_workers_empty simp flip: not_le)
  also have "\<dots> = take n [0..<node_count]" by (induction node_count) auto
  finally show ?thesis by (simp add: node_workers_def filter_map comp_def take_map)
qed

lemma group_of_worker:
  assumes "i < n"
  shows "snd (init_groups n topo) ! i < length (fst (init_groups n topo))
    \<and> i \<in> set (fst (init_groups n topo) ! (snd (init_groups n topo) ! i))"
proof -
  have "i mod k < n" for k using assms mod_less_eq_dividend [of i k] by (rule order.strict_trans1 [rotated])
  then show ?thesis
    using assms by (cases topo) (auto simp: init_groups_def nonempty_nodes node_workers_nth, auto simp: node_workers_def)
qed

lemma groups_of_workers: "ids \<in> set (fst (init_groups n topo)) \<Longrightarrow> set ids \<subseteq> {..<n}"
  by (cases topo) (auto simp: init_groups_def node_workers_def split: if_splits)

lemma worker_to_group_length [simp]: "length (snd (init_groups n topo)) = n"
  by (simp add: init_groups_def split: option.split)

text \<open>C24. In a runtime of fewer than \<open>2\<^sup>3\<^sup>2\<close> workers, any number of calls in which a worker is pushed only when no entry of it is
  left on the stack all return, and then \<^verbatim>\<open>wake_idle_in_group\<close> returns too: with a worker that is idle, or
  with none when no worker of the group is idle.\<close>

theorem idle_worker_found:
  assumes "n < 2 ^ 32" "set ids \<subseteq> {..<n}" "careful_calls n ids cs (idle_new n)"
  shows "\<exists>g g' w. run_idle_calls ids cs (idle_new n) = Some g \<and> wake_idle_in_group ids g = Some (g', w)
    \<and> (case w of Some v \<Rightarrow> in_mask (ig_mask g) v | None \<Rightarrow> \<forall>v \<in> set ids. \<not> in_mask (ig_mask g) v)"
proof -
  obtain g xs where g: "run_idle_calls ids cs (idle_new n) = Some g" "idle_inv n xs g"
    using careful_calls_hold [OF idle_new_inv [OF assms(1)] assms(2,3)] by blast
  then show ?thesis using wake_holds [OF g(2) assms(2)] by blast
qed

theorem idle_worker_found_witness:
  "\<exists>g g' w. run_idle_calls [0, 1] [EnterIdle 0, EnterIdle 1, WakeIdle, LeaveIdle 1] (idle_new 2) = Some g
    \<and> wake_idle_in_group [0, 1] g = Some (g', w)
    \<and> (case w of Some v \<Rightarrow> in_mask (ig_mask g) v | None \<Rightarrow> \<forall>v \<in> set [0, 1]. \<not> in_mask (ig_mask g) v)"
proof (rule idle_worker_found)
  show "careful_calls 2 [0, 1] [EnterIdle 0, EnterIdle 1, WakeIdle, LeaveIdle 1] (idle_new 2)" by code_simp
qed simp_all

text \<open>C25. A worker that left while another was above it on the stack has its entry left there. When it
  enters again, the stack never ends any more, whatever calls follow: however often \<^verbatim>\<open>pop\<close> is called, it gives
  a worker. So as soon as no worker is idle, \<^verbatim>\<open>pop_idle\<close> takes entries of workers that have left for ever, and
  \<^verbatim>\<open>wake_idle_in_group\<close> does not return.\<close>

theorem idle_stack_ring:
  assumes "n < 2 ^ 32" "set ids \<subseteq> {..<n}" "careful_calls n ids cs (idle_new n)" "run_idle_calls ids cs (idle_new n) = Some g"
    "stacked (ig_stack g) = ups @ w # downs" "ups \<noteq> []" "\<not> in_mask (ig_mask g) w"
    "list_all (calls_worker n) cs'" "run_idle_calls ids (EnterIdle w # cs') g = Some g'"
  shows "(\<forall>k. \<exists>ws. pops k (ig_stack g') = Some (map Some ws) \<and> length ws = k \<and> set ws \<subseteq> {..<n})
    \<and> ((\<forall>v < n. \<not> in_mask (ig_mask g') v) \<longrightarrow> wake_idle_in_group ids g' = None)"
proof -
  obtain xs where inv: "idle_inv n xs g" using careful_calls_hold [OF idle_new_inv [OF assms(1)] assms(2,3)] assms(4) by auto
  then have h: "stack_holds (ups @ w # downs) (ig_stack g)" using stacked_holds [of xs "ig_stack g"] assms(5) by (simp add: idle_inv_def)
  have w: "w < n" using h inv by (auto simp: stack_holds_def idle_inv_def)
  obtain g1 where g1: "enter_idle w g = Some g1" "run_idle_calls ids cs' g1 = Some g'" using assms(9) by (auto simp: run_idle_call_def bind_eq_Some_conv)
  obtain bs where "bitset_try_set w (ig_mask g) = Some (bs, True)" "length bs = length (ig_mask g)"
    using try_set_mask [of w "ig_mask g"] mask_length [OF w] inv assms(7) by (auto simp: idle_inv_def)
  then have "endless_group n g1"
    using g1(1) inv stale_push_endless [OF h assms(6)] by (auto simp: enter_idle_def endless_group_def idle_inv_def bind_eq_Some_conv)
  then obtain C where C: "endless C (ig_stack g')" "length (st_next (ig_stack g')) = n" "length (ig_mask g') = (n + 63) div 64"
    using endless_calls [OF _ assms(8) g1(2)] by (auto simp: endless_group_def)
  then have sub: "C \<subseteq> {..<n}" by (simp add: endless_def)
  have "wake_idle_in_group ids g' = None" if "\<forall>v < n. \<not> in_mask (ig_mask g') v"
  proof (cases "pop_idle (ig_mask g') (ig_stack g')")
    case (Some r)
    then obtain v where v: "v \<in> C" "bitset_is_set v (ig_mask g') = Some True" using endless_pop_idle C(1) by blast
    then have "v < n" using sub by auto
    then show ?thesis using v(2) that is_set_mask [of v "ig_mask g'"] mask_length [of v n] C(3) by simp
  qed (simp add: wake_idle_in_group_def)
  then show ?thesis using endless_pops [OF C(1)] sub by blast
qed

theorem idle_stack_ring_witness:
  "\<exists>g. run_idle_calls [0, 1] [EnterIdle 0, EnterIdle 1, LeaveIdle 0, EnterIdle 0, LeaveIdle 0, LeaveIdle 1] (idle_new 2) = Some g
    \<and> wake_idle_in_group [0, 1] g = None"
proof -
  let ?cs = "[EnterIdle 0, EnterIdle 1, LeaveIdle 0]" and ?cs' = "[LeaveIdle 0, LeaveIdle 1]"
  define g where "g = the (run_idle_calls [0, 1] ?cs (idle_new 2))"
  define g' where "g' = the (run_idle_calls [0, 1] (EnterIdle 0 # ?cs') g)"
  have two: "replicate 2 x = [x, x]" for x :: usize by (simp add: numeral_2_eq_2)
  note defs = run_idle_call_def enter_idle_def leave_idle_def bitset_try_set_def bitset_clear_def stack_push_def
    stack_try_pop_self_def below_top_def top_id_def idle_new_def stack_new_def bitset_new_def STACK_EMPTY_def NO_WORKER_def Let_def two
  have r: "run_idle_calls [0, 1] ?cs (idle_new 2) = Some g" unfolding g_def by (simp add: defs)
  have r': "run_idle_calls [0, 1] (EnterIdle 0 # ?cs') g = Some g'" unfolding g'_def g_def by (simp add: defs)
  have s: "careful_calls 2 [0, 1] ?cs (idle_new 2)" by code_simp
  have st: "stacked (ig_stack g) = [1] @ 0 # []" "\<not> in_mask (ig_mask g) 0" unfolding g_def by code_simp+
  have "\<not> in_mask (ig_mask g') 0 \<and> \<not> in_mask (ig_mask g') 1" unfolding g'_def g_def by code_simp
  then have "\<forall>v < 2. \<not> in_mask (ig_mask g') v" by (auto simp: less_2_cases_iff)
  then have "wake_idle_in_group [0, 1] g' = None"
    using idle_stack_ring [OF _ _ s r st(1) _ st(2) _ r'] by (simp add: calls_worker_def)
  moreover have "run_idle_calls [0, 1] (?cs @ EnterIdle 0 # ?cs') (idle_new 2) = Some g'"
    using r r' by (simp only: run_idle_calls_append bind.simps)
  ultimately show ?thesis by auto
qed

text \<open>However many memory nodes are known, every worker is a member of the group \<^verbatim>\<open>worker_to_group\<close> gives it, and a
  worker chosen for a task exists; it is one of the group of the current worker when that has another one.\<close>

theorem chosen_worker_exists:
  assumes "0 < n"
  shows "case init_groups n topo of (groups, worker_to_group) \<Rightarrow>
    (\<forall>i < n. worker_to_group ! i < length groups \<and> i \<in> set (groups ! (worker_to_group ! i)))
    \<and> snd (choose_worker_with_current (groups, worker_to_group) next_worker current) < n
    \<and> (current < n \<and> 1 < length (groups ! (worker_to_group ! current)) \<longrightarrow>
        snd (choose_worker_with_current (groups, worker_to_group) next_worker current) \<in> set (groups ! (worker_to_group ! current)))"
proof (cases "init_groups n topo")
  case (Pair groups worker_to_group)
  have own: "\<forall>i < n. worker_to_group ! i < length groups \<and> i \<in> set (groups ! (worker_to_group ! i))"
    using group_of_worker [of _ n topo] Pair by simp
  have len: "length worker_to_group = n" using worker_to_group_length [of n topo] Pair by simp
  have sub: "set (groups ! (worker_to_group ! current)) \<subseteq> {..<n}" if "current < n"
    using own that groups_of_workers [of "groups ! (worker_to_group ! current)" n topo] Pair by simp
  show ?thesis
  proof (cases "1 < n \<and> current < n \<and> 1 < length (groups ! (worker_to_group ! current))")
    case True
    let ?ids = "groups ! (worker_to_group ! current)"
    have "?ids ! (unat next_worker mod length ?ids) \<in> set ?ids" using True by (intro nth_mem mod_less_divisor) linarith
    then show ?thesis using own True sub len Pair by (auto simp: choose_worker_with_current_def Let_def)
  next
    case False
    then have "n \<le> 1 \<or> \<not> (current < n \<and> 1 < length (groups ! (worker_to_group ! current)))" by linarith
    then show ?thesis using own \<open>0 < n\<close> len Pair by (auto simp: choose_worker_with_current_def Let_def le_Suc_eq)
  qed
qed

theorem chosen_worker_exists_witness:
  "snd (choose_worker_with_current (init_groups 5 (Some 2)) 7 3) \<in> set (fst (init_groups 5 (Some 2)) ! 1)"
proof -
  have g: "init_groups 5 (Some 2) = ([[0, 2, 4], [1, 3]], [0, 1, 0, 1, 0])" by code_simp
  show ?thesis using chosen_worker_exists [where n = 5 and topo = "Some 2" and next_worker = 7 and current = 3] by (simp add: g)
qed

end
