(* ===== verification/Spec2Isabelle.thy ===== *)
theory Spec2Isabelle
  imports Uring_Props Files_Ownership Buddy_Inv Op_Future Timer_Queue Local_Spsc Local_Mpmc Local_Oneshot Waker_Cell_Inv Task_Props Worker_Idle
begin

text \<open>
  Verification development for veloq, an asynchronous input/output runtime in Rust. All file names
  are relative to \<^verbatim>\<open>src/crates\<close>.

  \<^bold>\<open>The program.\<close> A \<^emph>\<open>driver\<close> runs operations for tasks. Its platform-independent core
  (\<^verbatim>\<open>driver/core\<close>) keeps a table of slots, shared with the tasks, and a registry with the driver's
  private half of every slot. An operation is named by a token of a slot index and a generation; the
  token travels through the kernel as 64 bits. When a completion comes back, the \<^emph>\<open>completion flow\<close>
  finds the slot of its token, lets the backend's hooks compute the result, records it in the slot's
  cell of the completion table and wakes the task, whose future takes the record. Dropping a future
  orphans its operation; the resources of a completion nobody will take are released by its cleanup.
  Backends exist for io_uring (\<^verbatim>\<open>driver/backend/uring\<close>) and for Windows completion ports
  (\<^verbatim>\<open>driver/backend/iocp\<close>). Timers of both are kept in a hierarchical wheel (\<^verbatim>\<open>utils/veloq-wheel\<close>),
  buffers come from a buddy allocator (\<^verbatim>\<open>veloq-buf\<close>), and tasks of one thread talk through the
  channels of \<^verbatim>\<open>veloq-local\<close>. Tasks of several threads are run by the workers of \<^verbatim>\<open>veloq-runtime\<close> and
  woken through cells of \<^verbatim>\<open>utils/veloq-waker\<close>.

  \<^bold>\<open>The theories.\<close>
  \<^item> \<^verbatim>\<open>Veloq_Prelude\<close>: machine integers, wakers, the result of a poll, lemmas on masks and rings.
  \<^item> \<^verbatim>\<open>Completion_Token\<close>: \<^verbatim>\<open>completion/token.rs\<close> and \<^verbatim>\<open>event.rs\<close>; packing and classifying tokens,
    dispatch of raw completions. Round trip for generations below \<open>2 ^ 15\<close>, what happens above.
  \<^item> \<^verbatim>\<open>Completion_Types\<close>: \<^verbatim>\<open>completion/types\<close>; anomalies, packets, cleanup guards, diagnostics.
  \<^item> \<^verbatim>\<open>Slot_Table\<close>, \<^verbatim>\<open>Op_Registry\<close>: \<^verbatim>\<open>slot/core.rs\<close>, \<^verbatim>\<open>slot/table.rs\<close>, \<^verbatim>\<open>driver/registry.rs\<close>; slots,
    free lists, allocation and removal. The free lists of the code are chains through the slots; the
    invariant ties them to lists of indices. \<^verbatim>\<open>Alloc_Interface\<close> is the contract (locales
    \<^verbatim>\<open>handle_allocator\<close>, \<^verbatim>\<open>versioned_allocator\<close>) the registry meets: no token is handed out twice.
  \<^item> \<^verbatim>\<open>Completion_Table\<close>: \<^verbatim>\<open>completion/table.rs\<close>; recording, taking, registering wakers, orphaning.
    Its abstract view of a token (in flight, done, orphaned, gone) is the contract of the futures.
  \<^item> \<^verbatim>\<open>Slot_View\<close>, \<^verbatim>\<open>Completion_Flow\<close>: \<^verbatim>\<open>slot.rs\<close>, \<^verbatim>\<open>completion/routing.rs\<close>, \<^verbatim>\<open>cancel.rs\<close>, \<^verbatim>\<open>flow.rs\<close>;
    \<^verbatim>\<open>accept_completion\<close> over the hooks of a backend, whose contract is the locale
    \<^verbatim>\<open>completion_backend\<close>. \<^verbatim>\<open>driver_inv\<close> is the invariant of the driver: every slot's shared and
    private halves agree.
  \<^item> \<^verbatim>\<open>Uring_Hooks\<close>: the hooks of \<^verbatim>\<open>uring/src/driver/completion.rs\<close>, an instance of that contract.
    \<^verbatim>\<open>Uring_Error\<close>: the error reports of \<^verbatim>\<open>uring/src/error.rs\<close>.
  \<^item> \<^verbatim>\<open>Fixed_Files\<close>, \<^verbatim>\<open>Files_Ownership\<close>: the table of registered files of \<^verbatim>\<open>uring/src/driver/registration.rs\<close>;
    a descriptor resolves exactly until it is closed (\<^verbatim>\<open>Fd_Interface\<close> is the contract), a failed
    registration is undone, an owned handle is closed once.
  \<^item> \<^verbatim>\<open>Chunk_Registration\<close>: the registration of memory chunks of \<^verbatim>\<open>registration.rs\<close> and \<^verbatim>\<open>submission.rs\<close>.
  \<^item> \<^verbatim>\<open>Uring_Driver\<close>, \<^verbatim>\<open>Uring_Lifecycle\<close>, \<^verbatim>\<open>Uring_Poll\<close>: the io_uring driver, \<^verbatim>\<open>uring/src/driver.rs\<close> with
    \<^verbatim>\<open>driver/submission.rs\<close>, \<^verbatim>\<open>driver/lifecycle.rs\<close> and \<^verbatim>\<open>driver/completion.rs\<close>; a record over a state of the
    world, composed of the registry, the flow, the files, the chunks and the wheel.
  \<^item> \<^verbatim>\<open>Uring_World\<close>, \<^verbatim>\<open>Uring_Inv\<close>, \<^verbatim>\<open>Uring_Progress\<close>, \<^verbatim>\<open>Uring_Total\<close>, \<^verbatim>\<open>Uring_Reach\<close>: its invariant, that every
    operation returns and keeps it, and its reachable states under any calls of the owner, the remote
    waker and the tasks. \<^verbatim>\<open>Uring_Props\<close> states what follows; \<^verbatim>\<open>Uring_Demo\<close> builds a driver to try it on.
  \<^item> \<^verbatim>\<open>Op_Future\<close>: \<^verbatim>\<open>op/future.rs\<close>; the results of an operation and the detached future, proved
    against the contract \<^verbatim>\<open>detached_client\<close>, which the completion table meets.
  \<^item> \<^verbatim>\<open>Timer_Wheel\<close>, \<^verbatim>\<open>Timer_Wheel_Inv\<close>, \<^verbatim>\<open>Timer_Queue\<close>: \<^verbatim>\<open>veloq-wheel/src\<close> and the timer engine of
    \<^verbatim>\<open>iocp/src/driver/polling.rs\<close>. The invariant places every entry in the list of a slot that is
    visited before its deadline; \<^verbatim>\<open>Timer_Interface\<close> is the contract \<^verbatim>\<open>timer_queue\<close> for clients.
  \<^item> \<^verbatim>\<open>Bit_Set\<close>: \<^verbatim>\<open>veloq-std/src/collections/bitset.rs\<close>, a refinement of finite sets (\<^verbatim>\<open>index_set\<close>).
  \<^item> \<^verbatim>\<open>Buddy\<close>, \<^verbatim>\<open>Buddy_Blocks\<close>, \<^verbatim>\<open>Buddy_Inv\<close>: \<^verbatim>\<open>veloq-buf/src/heap/buddy.rs\<close>; the free blocks and the
    blocks handed out partition the heap in every reachable state.
  \<^item> \<^verbatim>\<open>Local_Channel\<close>, \<^verbatim>\<open>Local_Spsc\<close>, \<^verbatim>\<open>Local_Mpmc\<close>, \<^verbatim>\<open>Local_Oneshot\<close>: \<^verbatim>\<open>veloq-local/src\<close>; the contract
    \<^verbatim>\<open>fifo_channel\<close> is met by the ring buffer and by the waiter-list channel, whose runs are a step
    relation with the sets of notified and of dropped futures as ghost state.
  \<^item> \<^verbatim>\<open>Waker_Cell\<close>, \<^verbatim>\<open>Waker_Cell_Inv\<close>: \<^verbatim>\<open>veloq-waker/src\<close>; the calls on a cell as sequences of atomic accesses,
    interleaved by a schedule. The invariant says which thread may touch the data pointer and accounts
    for every clone; it needs that at most one thread registers, and without it a schedule breaks it.
  \<^item> \<^verbatim>\<open>Task_Header\<close>, \<^verbatim>\<open>Task_Moves\<close>, \<^verbatim>\<open>Task_Inv\<close>, \<^verbatim>\<open>Task_Props\<close>: the tasks of \<^verbatim>\<open>veloq-runtime/src/task\<close> with the queueing of
    \<^verbatim>\<open>runtime/shared.rs\<close>; one definition for each atomic access, schedules of any number of threads. The
    invariant matches every flag and counter of a task with the places of the threads. It gives
    exclusive polling, no lost wake-up, one message to the scope, and memory safety when a task is
    dropped at rest; and there are schedules that break memory safety when it is not.
  \<^item> \<^verbatim>\<open>Worker_Idle\<close>: the idle workers, their groups and the choice of a worker, \<^verbatim>\<open>runtime/shared/infra.rs\<close> and the
    beginning of \<^verbatim>\<open>runtime/shared.rs\<close>; a mask and a stack linked through an array. Every call returns as long as
    no worker is pushed while it is on the stack; the code does not ensure that, and a run of it makes a ring.
  \<^item> This theory: what an awaiting task sees, from its poll through the completion queue and back.

  \<^bold>\<open>Conventions.\<close> An operation that may panic, hit undefined behaviour or not return gives an option;
  errors of the code are values of a sum. Arithmetic wraps, as in a build without overflow checks, where the model has words. Words have the width of the code where it wraps or masks;
  counts that only index containers are natural numbers. Loops that follow links are
  \<^verbatim>\<open>partial_function\<close>s, and their termination is proved under the invariant. One
  operation runs on fuel: accepting a completion may flush the backlog, which accepts completions that
  the driver makes up; those never flush, so a fuel of 2 is enough, and more gives the same result. The
  clock of the driver is taken to stay below \<open>2 ^ 40\<close> milliseconds, over thirty years. A compare-and-swap loop of the slot table is one step: the calls of different threads on one
  slot are interleaved, their instructions are not; nor are those of the calls on an idle stack. In the theories of the waker cells and of the tasks every atomic access is a
  step and the memory is sequentially consistent: weaker orderings are not modelled.

  \<^bold>\<open>Parameters.\<close> The queues of the crate \<^verbatim>\<open>crossbeam\<close> (a count of references; a bounded one may refuse) and what a
  future does when it is polled (a choice of the schedule); the slot map of the crate \<^verbatim>\<open>slotmap\<close> (hypothesis \<^verbatim>\<open>slot_map_ok\<close>: insertion picks an
  unused key, the rest acts like a finite map); the registrar of a driver (it answers, in the same
  state always the same); the functions in the table of an operation; the
  projections of an operation type; the world of the io_uring driver (\<^verbatim>\<open>ring_ops\<close>, hypothesis \<^verbatim>\<open>ring_ok\<close>:
  a successful update of the registered files or buffers has the effect it names, a failed one and every
  other call has none, a received cancel request leaves the channel; the answers are arbitrary). Witnesses instantiate them.

  \<^bold>\<open>What the model showed.\<close> Generations above 15 bits are lost on the way through the kernel; the
  registry can refuse an allocation although a slot is free; the wheel can oversleep, and its builder
  accepts configurations that fire late or panic; the unbounded ring buffer hands out cells never
  written after it has grown; a channel future dropped after it was woken loses the wake-up;
  a timer is inserted relative to the last poll and can fire early; a full submission queue makes the
  driver lose completions and its waker; a wake-up that fails once keeps all later ones from writing; two threads
  registering with one waker cell can leave it a waker with a null pointer; the references of a task do
  not protect its memory; a pinned task refused by a full queue leaves its scope waiting for ever; the
  registrar of the runtime panics when a submission asks it for a chunk it does not know; a
  worker that becomes idle again can close the idle stack into a ring, in which a wake-up runs for ever.

  \<^bold>\<open>Not modelled.\<close> System calls and the io_uring rings themselves; the request types of the backends and their encoding; the Windows completion
  ports and registered input/output; the local future of an operation; thread-local storage, the
  hash functions, the standard-library shims and locks (\<^verbatim>\<open>veloq-std\<close>, \<^verbatim>\<open>veloq-sync\<close>); work stealing, the parking of threads, local tasks and the
  scopes of \<^verbatim>\<open>veloq-runtime\<close>;
  \<^verbatim>\<open>veloq-local/src/mpsc.rs\<close>, which repeats \<^verbatim>\<open>mpmc.rs\<close>; tests, benchmarks and examples.
\<close>

section \<open>Awaiting an operation of the io_uring driver\<close>

text \<open>The future shares the slot table with the driver: polling acts on the table inside the
  driver's registry.\<close>

lemma take_pending:
  assumes "table_inv tb" "names_slot t tb" "slot_state_of (token_slot t tb) = InFlightWaiting"
  shows "try_take_record t tb = (tb, Inr PollPending)"
  using assms(1) by (cases rule: take_cases [where t = t]) (use assms in auto)

lemma register_driver_inv:
  assumes inv: "driver_inv r" and view: "table_view t (shared r) = InFlight w0"
    and p: "detached_poll ip slot_table_access w (submitted_future t) (shared r) = Some (f, tb, cl, res)"
  shows "driver_inv (r\<lparr>shared := tb\<rparr>)"
proof -
  have n: "names_slot t (shared r)" "slot_state_of (token_slot t (shared r)) = InFlightWaiting"
    using view by (auto simp: view_InFlight)
  note ti = driver_invD(2) [OF inv]
  obtain tb1 out where reg: "register_waker t w (shared r) = (tb1, out)"
    "slots tb1 = (slots (shared r))[unat (op_index t) := (token_slot t (shared r))\<lparr>completion_waker := Some w\<rparr>]"
    "remote_free_head tb1 = remote_free_head (shared r)"
    using register_named [OF n(1), of w] by blast
  have ti1: "table_inv tb1" using table_register_law [OF ti, of t w] reg(1) by auto
  have "names_slot t tb1" "slot_state_of (token_slot t tb1) = InFlightWaiting"
    using n reg(2) by (auto simp: names_slot_def)
  then have "tb = tb1"
    using p take_pending [OF ti n] take_pending [OF ti1] reg(1)
    by (simp add: detached_poll_def submitted_future_def poll_table_once_def slot_table_access_def)
  moreover have "inv_except {} (r\<lparr>shared := tb1\<rparr>)"
    by (rule inv_except_shared) (use inv ti1 reg(2,3) n(1) in \<open>auto simp: driver_inv_def nth_list_update names_slot_def\<close>)
  ultimately show ?thesis by (simp add: driver_inv_def)
qed

text \<open>C2. From the completion queue to the task: a task polls the future of an operation that is in
  flight and is told to wait; when the kernel's completion queue entry for the operation's token is
  processed by the driver, the waker of that poll is woken and the driver stays well-formed; the
  next poll returns what the operation type makes of the payload and of the result its completion
  function computed from the kernel's result code. No cleanup runs on the way. This is so for a token
  whose generation is below \<open>2 ^ 15\<close> (a completion of any other is lost) and a payload that the
  operation type accepts.\<close>

theorem await_uring_operation:
  fixes ip :: "('t, 'o, 'upay, 'p uring_payload, uring_report, usize, 'cpl, 'out) platform_op"
    and r :: "(('k, 'p) uring_op, 'p uring_payload, uring_report + usize, unit, uring_op_state) op_registry"
  assumes "driver_inv r" "table_view t (shared r) = InFlight w0"
    "op_index t < INDEX_LIMIT" "op_generation t < 0x8000"
    "ls_op (locals r ! unat (op_index t)) = Some op"
    "st_payload (ls_storage (locals r ! unat (op_index t))) = Some pay"
    "vt_on_complete (uo_vtable op) (uo_payload op) pay res = (k, pay', final_res)"
    "ip_try_payload_from_erased ip pay' = Inr payload"
  shows "\<exists>f tb1 r2 h2 tb3.
       detached_poll ip slot_table_access w (submitted_future t) (shared r) = Some (f, tb1, [], Pending)
     \<and> accept_completion uring_completion_hooks
          (IngressKernel (envelope_from_raw_parts COMP_BACKEND_URING (token_user t) res fl)) (r\<lparr>shared := tb1\<rparr>) h
        = Some (r2, h2, Inr flow_user_completed)
     \<and> driver_inv r2 \<and> fx_woken (shared r2) = fx_woken (shared r) @ [w]
     \<and> detached_poll ip slot_table_access w' f (shared r2) = Some (f, tb3, [],
         (let out = ip_complete ip payload
                (case completion_detail (st_result (ls_storage (locals r ! unat (op_index t)))) final_res of
                   Some d \<Rightarrow> d | None \<Rightarrow> ip_from_event_res ip (driver_result_to_event_res final_res))
          in Ready (OpCompleted (fst out) (snd out))))"
proof -
  let ?f = "submitted_future t"
  have ti: "table_inv (shared r)" using driver_invD(2) [OF assms(1)] .
  obtain tb1 where p1: "detached_poll ip slot_table_access w ?f (shared r) = Some (?f, tb1, [], Pending)"
    "table_view t tb1 = InFlight (Some w)" "fx_woken tb1 = fx_woken (shared r)"
    using fut.poll_in_flight [OF ti assms(2), of ip w] by blast
  let ?r = "r\<lparr>shared := tb1\<rparr>"
  have inv: "driver_inv ?r" by (rule register_driver_inv [OF assms(1,2) p1(1)])
  have view: "table_view t (shared ?r) = InFlight (Some w)" using p1(2) by simp
  obtain r2 h2 rc where a: "accept_completion uring_completion_hooks
          (IngressKernel (envelope_from_raw_parts COMP_BACKEND_URING (token_user t) res fl)) ?r h
        = Some (r2, h2, Inr flow_user_completed)" "driver_inv r2" "table_view t (shared r2) = Done rc"
    "rec_payload rc = pay'"
    "rec_detail rc = completion_detail (st_result (ls_storage (locals r ! unat (op_index t)))) final_res"
    "rec_event rc = user_event_from_parts COMP_BACKEND_URING t (driver_result_to_event_res final_res) fl"
    "fx_woken (shared r2) = fx_woken (shared r) @ [w]"
    using accept_kernel_waiting [OF inv view assms(3,4), where res = res and fl = fl and h = h] assms(5-7) p1(3) by auto
  obtain tb3 where "detached_poll ip slot_table_access w' ?f (shared r2) = Some (?f, tb3,
      snd (from_completion_record ip rc), Ready (fst (from_completion_record ip rc)))"
    using fut.poll_done [OF driver_invD(2) [OF a(2)] a(3), of ip w'] by blast
  moreover have ev: "rc_res (uce_raw (rec_event rc)) = driver_result_to_event_res final_res"
    using a(6) by (simp add: user_event_from_parts_def)
  have "from_completion_record ip rc = (let out = ip_complete ip payload
        (case completion_detail (st_result (ls_storage (locals r ! unat (op_index t)))) final_res of
           Some d \<Rightarrow> d | None \<Rightarrow> ip_from_event_res ip (driver_result_to_event_res final_res))
      in (OpCompleted (fst out) (snd out), []))"
    using record_result_armed [of ip rc payload] assms(8) unfolding a(4,5) ev by (simp add: Let_def)
  ultimately show ?thesis using p1(1) a(1,2,7) by (simp add: Let_def)
qed

text \<open>The one-slot driver of the earlier examples, and an operation that returns its payload.\<close>

definition sample_op :: "(nat, unit, nat, nat uring_payload, uring_report, usize, usize, nat) platform_op" where
  "sample_op = \<lparr>ip_into_kernel_and_payload = (\<lambda>n. ((), n)), ip_payload_into_erased = PayloadOther,
     ip_try_payload_from_erased = (\<lambda>p. case p of PayloadOther n \<Rightarrow> Inr n | PayloadClose _ _ \<Rightarrow> Inl (report_of UeInvalidState)),
     ip_complete = (\<lambda>n res. (res, n)), ip_from_event_res = (\<lambda>res. Inr (ucast res))\<rparr>"

theorem await_uring_operation_witness:
  "\<exists>f tb1 r2 h2 tb3.
       detached_poll sample_op slot_table_access 3 (submitted_future \<lparr>op_index = 0, op_generation = 5\<rparr>) (shared (sample_driver 5))
         = Some (f, tb1, [], Pending)
     \<and> accept_completion uring_completion_hooks
          (IngressKernel (envelope_from_raw_parts COMP_BACKEND_URING (token_user \<lparr>op_index = 0, op_generation = 5\<rparr>) 12 0))
          ((sample_driver 5)\<lparr>shared := tb1\<rparr>) sample_hooks = Some (r2, h2, Inr flow_user_completed)
     \<and> fx_woken (shared r2) = [3]
     \<and> detached_poll sample_op slot_table_access 4 f (shared r2) = Some (f, tb3, [], Ready (OpCompleted (Inr 12) 7))"
proof -
  have op: "ls_op (locals (sample_driver 5) ! unat (op_index \<lparr>op_index = 0, op_generation = 5\<rparr>)) = Some \<lparr>uo_vtable = sample_vtable, uo_payload = ()\<rparr>"
    "st_payload (ls_storage (locals (sample_driver 5) ! unat (op_index \<lparr>op_index = 0, op_generation = 5\<rparr>))) = Some (PayloadOther 7)"
    "st_result (ls_storage (locals (sample_driver 5) ! unat (op_index \<lparr>op_index = 0, op_generation = 5\<rparr>))) = None"
    "fx_woken (shared (sample_driver 5)) = []"
    by (simp_all add: sample_driver_def slot_table_new_def storage_new_def)
  have v: "vt_on_complete (uo_vtable \<lparr>uo_vtable = sample_vtable, uo_payload = ()\<rparr>) (uo_payload \<lparr>uo_vtable = sample_vtable, uo_payload = ()\<rparr>)
      (PayloadOther 7) 12 = ((), PayloadOther 7, Inr 12)" by (simp add: sample_vtable_def)
  have ip: "ip_try_payload_from_erased sample_op (PayloadOther 7) = Inr 7"
    "ip_complete sample_op 7 (ip_from_event_res sample_op (driver_result_to_event_res (Inr 12))) = (Inr 12, 7)"
    by (simp_all add: sample_op_def driver_result_to_event_res_def)
  have lim: "op_index \<lparr>op_index = 0, op_generation = 5\<rparr> < INDEX_LIMIT" "op_generation \<lparr>op_index = 0, op_generation = 5\<rparr> < 0x8000"
    by (simp_all add: INDEX_LIMIT_def)
  have out: "(let out = ip_complete sample_op 7
        (case completion_detail (st_result (ls_storage (locals (sample_driver 5) ! unat (op_index \<lparr>op_index = 0, op_generation = 5\<rparr>)))) (Inr 12) of
           Some d \<Rightarrow> d | None \<Rightarrow> ip_from_event_res sample_op (driver_result_to_event_res (Inr 12)))
      in Ready (OpCompleted (fst out) (snd out))) = Ready (OpCompleted (Inr 12) 7)"
    unfolding op(3) by (simp add: completion_detail_def ip(2))
  show ?thesis
    using await_uring_operation [OF sample_driver_inv sample_driver_view lim op(1,2) v ip(1), where w = 3 and w' = 4 and fl = 0 and h = sample_hooks]
    unfolding out op(4) by auto
qed

end
